(* ===== verification/Prelude.thy ===== *)
theory Prelude
  imports Main "HOL-Library.Sublist" "HOL-Library.Word" "HOL-Library.Char_ord"
begin

text \<open>
  What the components share: the widths of the C++ integer types, the parts of
  \<^verbatim>\<open>std::string\<close>, \<^verbatim>\<open><cctype>\<close> and \<^verbatim>\<open>std::to_string\<close> the sources use, and the facts about
  them the component proofs rest on.

  A \<^verbatim>\<open>std::string\<close> is a list of 8-bit characters (\<open>string\<close>), so \<^verbatim>\<open>size()\<close> counts bytes as
  it does in C++.  A scan that the sources write with a position into an unchanging string is
  written here over the rest of the string from that position on: \<^verbatim>\<open>text.find(c, pos)\<close> is
  \<open>takeWhile\<close>/\<open>dropWhile\<close> on the rest, \<^verbatim>\<open>text.find(needle, pos)\<close> is \<open>find_sub\<close>, and
  \<^verbatim>\<open>npos\<close> is the empty rest or \<open>None\<close>.
\<close>

section \<open>Integers and results\<close>

type_synonym u8 = "8 word"
type_synonym u32 = "32 word"
type_synonym u64 = "64 word"

text \<open>Facts about the string operations, for \<^theory_text>\<open>simp add: cstr\<close>.\<close>

named_theorems cstr

text \<open>Facts that carry an invariant through an operation, for \<^theory_text>\<open>intro: keeps\<close>.\<close>

named_theorems keeps

text \<open>\<^verbatim>\<open>std::clamp(v, lo, hi)\<close>.\<close>

definition std_clamp :: "'a::linorder \<Rightarrow> 'a \<Rightarrow> 'a \<Rightarrow> 'a" where
  "std_clamp v lo hi = (if v < lo then lo else if hi < v then hi else v)"

lemma std_clamp_bounds: "lo \<le> hi \<Longrightarrow> lo \<le> std_clamp v lo hi \<and> std_clamp v lo hi \<le> hi"
  by (auto simp: std_clamp_def)

lemma std_clamp_id: "lo \<le> v \<Longrightarrow> v \<le> hi \<Longrightarrow> std_clamp v lo hi = v"
  by (auto simp: std_clamp_def)

section \<open>Characters (the C locale of \<^verbatim>\<open><cctype>\<close>)\<close>

definition code :: "char \<Rightarrow> nat" where
  "code c = of_char c"

definition is_upper :: "char \<Rightarrow> bool" where
  "is_upper c \<longleftrightarrow> 65 \<le> code c \<and> code c \<le> 90"

definition is_lower :: "char \<Rightarrow> bool" where
  "is_lower c \<longleftrightarrow> 97 \<le> code c \<and> code c \<le> 122"

definition is_alpha :: "char \<Rightarrow> bool" where
  "is_alpha c \<longleftrightarrow> is_upper c \<or> is_lower c"

definition is_digit :: "char \<Rightarrow> bool" where
  "is_digit c \<longleftrightarrow> 48 \<le> code c \<and> code c \<le> 57"

definition is_alnum :: "char \<Rightarrow> bool" where
  "is_alnum c \<longleftrightarrow> is_alpha c \<or> is_digit c"

definition is_xdigit :: "char \<Rightarrow> bool" where
  "is_xdigit c \<longleftrightarrow> is_digit c \<or> (65 \<le> code c \<and> code c \<le> 70) \<or> (97 \<le> code c \<and> code c \<le> 102)"

definition is_space :: "char \<Rightarrow> bool" where
  "is_space c \<longleftrightarrow> code c = 32 \<or> (9 \<le> code c \<and> code c \<le> 13)"

definition to_lower :: "char \<Rightarrow> char" where
  "to_lower c = (if is_upper c then char_of (code c + 32) else c)"

definition to_upper :: "char \<Rightarrow> char" where
  "to_upper c = (if is_lower c then char_of (code c - 32) else c)"

definition digit_value :: "char \<Rightarrow> nat" where
  "digit_value c = code c - 48"

abbreviation LF :: char where "LF \<equiv> CHR 0x0A"
abbreviation CR :: char where "CR \<equiv> CHR 0x0D"
abbreviation TAB :: char where "TAB \<equiv> CHR 0x09"
abbreviation DQUOTE :: char where "DQUOTE \<equiv> CHR 0x22"
abbreviation SQUOTE :: char where "SQUOTE \<equiv> CHR 0x27"
abbreviation BACKSLASH :: char where "BACKSLASH \<equiv> CHR 0x5C"

lemmas ctype_defs = code_def is_upper_def is_lower_def is_alpha_def is_digit_def is_alnum_def
  is_xdigit_def is_space_def to_lower_def to_upper_def digit_value_def

section \<open>Strings\<close>

abbreviation starts_with :: "string \<Rightarrow> string \<Rightarrow> bool" where
  "starts_with s p \<equiv> prefix p s"

abbreviation ends_with :: "string \<Rightarrow> string \<Rightarrow> bool" where
  "ends_with s p \<equiv> suffix p s"

text \<open>\<^verbatim>\<open>s.substr(from, count)\<close> for \<open>from \<le> s.size()\<close>.\<close>

definition substr :: "string \<Rightarrow> nat \<Rightarrow> nat \<Rightarrow> string" where
  "substr s from n = take n (drop from s)"

text \<open>
  \<^verbatim>\<open>s.find(needle)\<close>: the text before the first occurrence and the text after it.
\<close>

fun find_sub :: "string \<Rightarrow> string \<Rightarrow> (string \<times> string) option" where
  "find_sub needle [] = (if needle = [] then Some ([], []) else None)"
| "find_sub needle (c # cs) =
     (if prefix needle (c # cs) then Some ([], drop (length needle) (c # cs))
      else (case find_sub needle cs of
              None \<Rightarrow> None
            | Some (before, after) \<Rightarrow> Some (c # before, after)))"

definition contains_sub :: "string \<Rightarrow> string \<Rightarrow> bool" where
  "contains_sub needle s \<longleftrightarrow> find_sub needle s \<noteq> None"

text \<open>\<^verbatim>\<open>trim\<close> of \<^verbatim>\<open>builder.h\<close>: the characters \<open>" \t\r\n"\<close> come off both ends.\<close>

definition is_trim_char :: "char \<Rightarrow> bool" where
  "is_trim_char c \<longleftrightarrow> c = CHR '' '' \<or> c = TAB \<or> c = CR \<or> c = LF"

definition rstrip_by :: "(char \<Rightarrow> bool) \<Rightarrow> string \<Rightarrow> string" where
  "rstrip_by P s = rev (dropWhile P (rev s))"

definition strip_by :: "(char \<Rightarrow> bool) \<Rightarrow> string \<Rightarrow> string" where
  "strip_by P s = rstrip_by P (dropWhile P s)"

definition trim :: "string \<Rightarrow> string" where
  "trim s = strip_by is_trim_char s"

text \<open>\<^verbatim>\<open>std::to_string\<close> of an unsigned and of a signed integer.\<close>

fun show_nat :: "nat \<Rightarrow> string" where
  "show_nat n = (if n < 10 then [char_of (48 + n)]
                 else show_nat (n div 10) @ [char_of (48 + n mod 10)])"

declare show_nat.simps [simp del]

definition show_int :: "int \<Rightarrow> string" where
  "show_int i = (if i < 0 then CHR ''-'' # show_nat (nat (- i)) else show_nat (nat i))"

text \<open>The pieces of a string between separators, as the comma and line loops cut it.\<close>

fun split_at :: "char \<Rightarrow> string \<Rightarrow> string list" where
  "split_at sep [] = [[]]"
| "split_at sep (c # cs) =
     (if c = sep then [] # split_at sep cs
      else (case split_at sep cs of
              [] \<Rightarrow> [[c]]
            | piece # rest \<Rightarrow> (c # piece) # rest))"

text \<open>The reading of \<open>split_at\<close> that its uses rely on.\<close>

fun join_with :: "char \<Rightarrow> string list \<Rightarrow> string" where
  "join_with sep [] = []"
| "join_with sep [x] = x"
| "join_with sep (x # y # zs) = x @ sep # join_with sep (y # zs)"

section \<open>Facts about strings\<close>

lemma find_sub_split: "find_sub n s = Some (b, a) \<Longrightarrow> s = b @ n @ a"
proof (induction n s arbitrary: b rule: find_sub.induct)
  case (1 needle)
  then show ?case by (simp split: if_splits)
next
  case (2 needle c cs)
  show ?case
  proof (cases "prefix needle (c # cs)")
    case True
    then obtain zs where zs: "c # cs = needle @ zs" by (rule prefixE)
    have a: "drop (length needle) (c # cs) = zs" by (simp add: zs)
    have "b = []" and "a = drop (length needle) (c # cs)"
      using "2.prems" True by (simp_all del: drop_Cons)
    with a zs show ?thesis by simp
  next
    case False
    with "2.prems" "2.IH" show ?thesis by (auto split: option.splits)
  qed
qed

lemma find_sub_before: "find_sub n s = Some (b, a) \<Longrightarrow> k < length b \<Longrightarrow> \<not> prefix n (drop k s)"
proof (induction n s arbitrary: b k rule: find_sub.induct)
  case (1 needle)
  then show ?case by (simp split: if_splits)
next
  case (2 needle c cs)
  from "2.prems" have np: "\<not> prefix needle (c # cs)"
    by (auto split: if_splits option.splits)
  with "2.prems" obtain b' where b': "find_sub needle cs = Some (b', a)" "b = c # b'"
    by (auto split: option.splits)
  show ?case
  proof (cases k)
    case 0
    with np show ?thesis by simp
  next
    case (Suc k')
    with "2.IH" [OF np b'(1)] b'(2) "2.prems"(2) show ?thesis by simp
  qed
qed

lemma find_sub_None: "find_sub n s = None \<longleftrightarrow> \<not> sublist n s"
proof (induction n s rule: find_sub.induct)
  case (1 needle)
  then show ?case by (simp add: sublist_Nil_right)
next
  case (2 needle c cs)
  then show ?case
    by (auto simp: sublist_Cons_right split: option.splits)
qed

lemma find_sub_first:
  assumes "s = b @ n @ a" and "\<forall>k < length b. \<not> prefix n (drop k s)"
  shows "find_sub n s = Some (b, a)"
proof -
  have "sublist n s" by (simp add: assms(1))
  then obtain b' a' where f: "find_sub n s = Some (b', a')" using find_sub_None [of n s] by fastforce
  note s = find_sub_split [OF f]
  have "length b \<le> length b'" using assms(2) s by (force simp: not_le [symmetric])
  moreover have "length b' \<le> length b" using find_sub_before [OF f, of "length b"] assms(1) by (force simp: not_le [symmetric])
  ultimately have "b' = b \<and> a' = a" using s assms(1) by simp
  then show ?thesis using f by simp
qed

lemma find_sub_length:
  "find_sub n s = Some (b, a) \<Longrightarrow> length s = length b + length n + length a"
  by (auto dest: find_sub_split)

lemma find_sub_single:
  "find_sub [c] s = (if c \<in> set s
      then Some (takeWhile (\<lambda>x. x \<noteq> c) s, tl (dropWhile (\<lambda>x. x \<noteq> c) s)) else None)"
  by (induction s) (auto split: if_splits)

lemma contains_sub_iff [cstr]: "contains_sub n s \<longleftrightarrow> sublist n s"
  by (simp add: contains_sub_def find_sub_None)

lemma length_rstrip_by [simp]: "length (rstrip_by P s) \<le> length s"
  unfolding rstrip_by_def using length_dropWhile_le [of P "rev s"] by simp

lemma length_strip_by [simp]: "length (strip_by P s) \<le> length s"
  unfolding strip_by_def
  using length_rstrip_by [of P "dropWhile P s"] length_dropWhile_le [of P s] by linarith

lemma rstrip_by_append: "\<exists>t. s = rstrip_by P s @ t \<and> list_all P t"
proof -
  have "s = rev (dropWhile P (rev s)) @ rev (takeWhile P (rev s))"
    by (metis rev_append rev_rev_ident takeWhile_dropWhile_id)
  moreover have "list_all P (rev (takeWhile P (rev s)))"
    by (auto simp: list_all_iff dest: set_takeWhileD)
  ultimately show ?thesis unfolding rstrip_by_def by blast
qed

lemma rstrip_by_last: "rstrip_by P s \<noteq> [] \<Longrightarrow> \<not> P (last (rstrip_by P s))"
  unfolding rstrip_by_def
  by (metis hd_dropWhile last_rev rev_is_Nil_conv)

lemma rstrip_by_hd:
  assumes "rstrip_by P s \<noteq> []"
  shows "hd (rstrip_by P s) = hd s"
proof -
  obtain t where "s = rstrip_by P s @ t" using rstrip_by_append by blast
  then have "hd s = hd (rstrip_by P s @ t)" by (rule arg_cong)
  with assms show ?thesis by simp
qed

lemma rstrip_by_Nil: "rstrip_by P s = [] \<longleftrightarrow> list_all P s"
  unfolding rstrip_by_def by (auto simp: list_all_iff)

text \<open>Cutting at the first occurrence of a character.\<close>

lemma cut_at:
  "dropWhile (\<lambda>x. x \<noteq> c) s \<noteq> [] \<Longrightarrow>
     s = takeWhile (\<lambda>x. x \<noteq> c) s @ c # tl (dropWhile (\<lambda>x. x \<noteq> c) s)"
  by (induction s) auto

lemma dropWhile_first: "dropWhile (\<lambda>x. x \<noteq> c) s = [] \<or> (\<exists>z. dropWhile (\<lambda>x. x \<noteq> c) s = c # z)"
  by (induction s) auto

lemma takeWhile_cut: "c \<notin> set a \<Longrightarrow> takeWhile (\<lambda>x. x \<noteq> c) (a @ c # b) = a"
  by (induction a) auto

lemma dropWhile_cut: "c \<notin> set a \<Longrightarrow> dropWhile (\<lambda>x. x \<noteq> c) (a @ c # b) = c # b"
  by (induction a) auto

lemma takeWhile_absent: "c \<notin> set a \<Longrightarrow> takeWhile (\<lambda>x. x \<noteq> c) a = a"
  by (induction a) auto

lemma dropWhile_absent: "c \<notin> set a \<Longrightarrow> dropWhile (\<lambda>x. x \<noteq> c) a = []"
  by (induction a) auto

lemmas cuts = takeWhile_cut dropWhile_cut takeWhile_absent dropWhile_absent

text \<open>
  Trimming: the text is the trimmed text between characters that come off, and a trimmed
  text starts and ends with characters that stay.
\<close>

lemma strip_by_decomp: "\<exists>a b. s = a @ strip_by P s @ b \<and> list_all P a \<and> list_all P b"
proof -
  obtain t where t: "dropWhile P s = rstrip_by P (dropWhile P s) @ t" "list_all P t"
    using rstrip_by_append by blast
  have "s = takeWhile P s @ dropWhile P s" by simp
  moreover have "list_all P (takeWhile P s)"
    by (auto simp: list_all_iff dest: set_takeWhileD)
  ultimately show ?thesis
    using t by (intro exI [of _ "takeWhile P s"] exI [of _ t]) (simp add: strip_by_def)
qed

lemma strip_by_ends:
  assumes "strip_by P s \<noteq> []"
  shows "\<not> P (hd (strip_by P s))" and "\<not> P (last (strip_by P s))"
proof -
  have ne: "dropWhile P s \<noteq> []"
  proof
    assume "dropWhile P s = []"
    then have "strip_by P s = []" by (simp only: strip_by_def rstrip_by_def) simp
    with assms show False by simp
  qed
  have "hd (strip_by P s) = hd (dropWhile P s)"
    using assms unfolding strip_by_def by (rule rstrip_by_hd)
  with ne show "\<not> P (hd (strip_by P s))" by (simp add: hd_dropWhile)
  show "\<not> P (last (strip_by P s))"
    using assms unfolding strip_by_def by (rule rstrip_by_last)
qed

lemma list_all_dropWhile: "list_all P (dropWhile P s) \<longleftrightarrow> list_all P s"
  by (induction s) auto

lemma strip_by_Nil: "strip_by P s = [] \<longleftrightarrow> list_all P s"
  by (simp add: strip_by_def rstrip_by_Nil list_all_dropWhile)

lemma dropWhile_id: "s = [] \<or> \<not> P (hd s) \<Longrightarrow> dropWhile P s = s"
  by (cases s) auto

lemma strip_by_id: "s = [] \<or> (\<not> P (hd s) \<and> \<not> P (last s)) \<Longrightarrow> strip_by P s = s"
  by (auto simp: strip_by_def rstrip_by_def dropWhile_id hd_rev)

lemma strip_by_idem [simp]: "strip_by P (strip_by P s) = strip_by P s"
  using strip_by_id [of "strip_by P s" P] strip_by_ends [of P s] by blast

lemma trim_idem [simp]: "trim (trim s) = trim s"
  by (simp add: trim_def)

lemma trim_Nil [simp]: "trim [] = []"
  by (simp add: trim_def strip_by_def rstrip_by_def)

lemma set_strip_by: "set (strip_by P s) \<subseteq> set s"
proof -
  obtain a b where "s = a @ strip_by P s @ b" using strip_by_decomp by blast
  then have "set s = set (a @ strip_by P s @ b)" by (rule arg_cong)
  then show ?thesis by auto
qed

text \<open>Splitting and joining are inverse.\<close>

lemma split_at_nonempty [simp]: "split_at sep s \<noteq> []"
  by (cases s) (auto split: list.splits)

lemma join_split: "join_with sep (split_at sep s) = s"
proof (induction s)
  case Nil
  then show ?case by simp
next
  case (Cons c cs)
  show ?case
  proof (cases "split_at sep cs")
    case Nil
    then show ?thesis by simp
  next
    case (Cons p ps)
    with Cons.IH show ?thesis by (cases ps) auto
  qed
qed

lemma split_at_pieces: "p \<in> set (split_at sep s) \<Longrightarrow> sep \<notin> set p"
  by (induction s arbitrary: p) (auto split: if_splits list.splits)

text \<open>Decimal digits.\<close>

lemma is_digit_char_of: "n < 10 \<Longrightarrow> is_digit (char_of (48 + n :: nat))"
  by (simp add: is_digit_def code_def)

lemma show_nat_digits: "list_all is_digit (show_nat n)"
proof (induction n rule: show_nat.induct)
  case (1 n)
  then show ?case
    by (subst show_nat.simps) (simp add: is_digit_char_of)
qed

lemma show_nat_nonempty [simp]: "show_nat n \<noteq> []"
  by (subst show_nat.simps) simp

text \<open>Reading decimal digits back, as \<^verbatim>\<open>std::from_chars\<close> and \<^verbatim>\<open>strtoull\<close> accumulate them.\<close>

definition digits_value :: "string \<Rightarrow> nat" where
  "digits_value s = foldl (\<lambda>v c. 10 * v + digit_value c) 0 s"

lemma digits_value_snoc: "digits_value (s @ [c]) = 10 * digits_value s + digit_value c"
  by (simp add: digits_value_def)

lemma digits_value_show_nat: "digits_value (show_nat n) = n"
proof (induction n rule: show_nat.induct)
  case (1 n)
  show ?case
  proof (cases "n < 10")
    case True
    then show ?thesis
      by (subst show_nat.simps) (simp add: digits_value_def digit_value_def code_def)
  next
    case False
    with 1 have "digits_value (show_nat (n div 10)) = n div 10" by simp
    with False show ?thesis
      by (subst show_nat.simps)
        (simp add: digits_value_snoc digit_value_def code_def)
  qed
qed

text \<open>
  \<^verbatim>\<open>std::from_chars\<close> into an unsigned integer of the given maximum: the value of the leading
  digits and what follows them, or nothing when there is no digit or the value is out of
  range.
\<close>

definition from_chars :: "nat \<Rightarrow> string \<Rightarrow> (nat \<times> string) option" where
  "from_chars maximum s =
     (let ds = takeWhile is_digit s
      in if ds = [] \<or> maximum < digits_value ds then None
         else Some (digits_value ds, dropWhile is_digit s))"

lemma takeWhile_all: "list_all P s \<Longrightarrow> takeWhile P s = s"
  by (induction s) auto

lemma dropWhile_all: "list_all P s \<Longrightarrow> dropWhile P s = []"
  by (induction s) auto

lemma from_chars_show_nat: "n \<le> maximum \<Longrightarrow> from_chars maximum (show_nat n) = Some (n, [])"
  by (simp add: from_chars_def takeWhile_all dropWhile_all show_nat_digits digits_value_show_nat)

section \<open>Errors as values\<close>

text \<open>A step that may fail (left), and what runs when it does not.\<close>

definition and_then :: "'e + 'a \<Rightarrow> ('a \<Rightarrow> 'e + 'b) \<Rightarrow> 'e + 'b" where
  "and_then r f = (case r of Inl e \<Rightarrow> Inl e | Inr x \<Rightarrow> f x)"

lemma and_then_simps [simp]: "and_then (Inl e) f = Inl e" "and_then (Inr x) f = f x"
  by (simp_all add: and_then_def)

lemma and_then_Inr: "and_then r f = Inr y \<longleftrightarrow> (\<exists>x. r = Inr x \<and> f x = Inr y)"
  by (cases r) simp_all

lemma sorted_wrt_concat_rows:
  assumes "\<And>r. r < n \<Longrightarrow> sorted_wrt P (f r)"
    and "\<And>r s x y. r < s \<Longrightarrow> s < n \<Longrightarrow> x \<in> set (f r) \<Longrightarrow> y \<in> set (f s) \<Longrightarrow> P x y"
  shows "sorted_wrt P (concat (map f [0..<n]))"
  using assms by (induction n) (auto simp: sorted_wrt_append)

end
