(* ===== verification/Endpoint.thy ===== *)
theory Endpoint
  imports Prelude
begin

text \<open>
  The endpoint of \<^verbatim>\<open>src/vlm_client.cpp\<close>: \<^verbatim>\<open>parse_endpoint\<close> takes an endpoint string apart
  into the origin a client connects to and the request target it posts to, and
  \<^verbatim>\<open>endpoint_error\<close>, \<^verbatim>\<open>endpoint_origin\<close> and \<^verbatim>\<open>same_endpoint\<close> are what the rest of the
  program sees of it.  A parse error is the message the code returns.
\<close>

record parsed_endpoint =
  origin :: string
  target :: string
  host :: string
  port :: nat

definition kScheme :: string where
  "kScheme = ''http://''"

definition host_char :: "char \<Rightarrow> bool" where
  "host_char c \<longleftrightarrow> is_alnum c \<or> c = CHR ''.'' \<or> c = CHR ''-'' \<or> c = CHR ''_''"

definition ipv6_char :: "char \<Rightarrow> bool" where
  "ipv6_char c \<longleftrightarrow> is_xdigit c \<or> c = CHR '':'' \<or> c = CHR ''.''"

definition bad_endpoint_char :: "char \<Rightarrow> bool" where
  "bad_endpoint_char c \<longleftrightarrow> code c \<le> 32 \<or> code c = 127"

definition ends_authority :: "char \<Rightarrow> bool" where
  "ends_authority c \<longleftrightarrow> c = CHR ''/'' \<or> c = CHR ''?'' \<or> c = CHR ''#''"

definition err_scheme :: string where
  "err_scheme = ''endpoint must be an http:// URL (https is not supported; put a TLS proxy beside the VLM)''"

definition err_chars :: string where
  "err_chars = ''endpoint must not contain whitespace or control characters''"

definition err_credentials :: string where
  "err_credentials = ''endpoint must not carry credentials (user:password@); set GRPC_VLM_API_KEY instead''"

definition err_ipv6 :: string where
  "err_ipv6 = ''endpoint host must be a name or a bracketed IPv6 literal''"

definition err_host :: string where
  "err_host = ''endpoint needs a host of letters, digits, '' @ [SQUOTE, CHR ''.'', SQUOTE] @ '', ''
     @ [SQUOTE, CHR ''-'', SQUOTE] @ '' or '' @ [SQUOTE, CHR ''_'', SQUOTE]"

definition err_port :: string where
  "err_port = ''endpoint port must be a number from 1 to 65535''"

text \<open>The host and the port text of an authority (\<open>None\<close> for no port).\<close>

definition split_authority :: "string \<Rightarrow> string + (string \<times> string option)" where
  "split_authority authority =
     (if starts_with authority ''['' then
        (let inside = takeWhile (\<lambda>c. c \<noteq> CHR '']'') (tl authority);
             rest = dropWhile (\<lambda>c. c \<noteq> CHR '']'') (tl authority)
         in if rest = [] \<or> inside = [] \<or> \<not> list_all ipv6_char inside then Inl err_ipv6
            else (let the_host = ''['' @ inside @ '']''; after = tl rest
                  in case after of
                       [] \<Rightarrow> Inr (the_host, None)
                     | c # digits \<Rightarrow>
                         if c \<noteq> CHR '':'' then Inl err_ipv6 else Inr (the_host, Some digits)))
      else
        (let the_host = takeWhile (\<lambda>c. c \<noteq> CHR '':'') authority;
             after = dropWhile (\<lambda>c. c \<noteq> CHR '':'') authority;
             the_port = (case after of [] \<Rightarrow> None | _ # digits \<Rightarrow> Some digits)
         in if the_host = [] \<or> \<not> list_all host_char the_host then Inl err_host
            else Inr (the_host, the_port)))"

definition parse_port :: "string option \<Rightarrow> string + nat" where
  "parse_port p =
     (case p of
        None \<Rightarrow> Inr 80
      | Some digits \<Rightarrow>
          (case from_chars (2 ^ 32 - 1) digits of
             None \<Rightarrow> Inl err_port
           | Some (value, rest) \<Rightarrow>
               if digits = [] \<or> rest \<noteq> [] \<or> value < 1 \<or> 65535 < value then Inl err_port
               else Inr value))"

definition kChat :: string where
  "kChat = ''/chat/completions''"

text \<open>The request path of a path; the query (with its question mark) rides along.\<close>

definition endpoint_path :: "string \<Rightarrow> string" where
  "endpoint_path raw_path =
     (let path = rstrip_by (\<lambda>c. c = CHR ''/'') raw_path
      in if ends_with path kChat then path
         else if ends_with path ''/v1'' then path @ kChat
         else path @ ''/v1'' @ kChat)"

definition parse_endpoint :: "string \<Rightarrow> string + parsed_endpoint" where
  "parse_endpoint endpoint =
     (if \<not> starts_with endpoint kScheme then Inl err_scheme
      else if list_ex bad_endpoint_char endpoint then Inl err_chars
      else
        (let rest = drop (length kScheme) endpoint;
             authority = takeWhile (\<lambda>c. \<not> ends_authority c) rest
         in if CHR ''@'' \<in> set authority then Inl err_credentials
            else case split_authority authority of
                   Inl e \<Rightarrow> Inl e
                 | Inr (the_host, the_port) \<Rightarrow>
                     (case parse_port the_port of
                        Inl e \<Rightarrow> Inl e
                      | Inr value \<Rightarrow>
                          (let tail = takeWhile (\<lambda>c. c \<noteq> CHR ''#'')
                                        (dropWhile (\<lambda>c. \<not> ends_authority c) rest);
                               path = takeWhile (\<lambda>c. c \<noteq> CHR ''?'') tail;
                               query = dropWhile (\<lambda>c. c \<noteq> CHR ''?'') tail
                           in Inr \<lparr>origin = kScheme @ the_host
                                       @ (case the_port of None \<Rightarrow> [] | Some p \<Rightarrow> '':'' @ p),
                                   target = endpoint_path path @ query,
                                   host = map to_lower the_host,
                                   port = value\<rparr>))))"

definition endpoint_error :: "string \<Rightarrow> string" where
  "endpoint_error endpoint = (case parse_endpoint endpoint of Inl e \<Rightarrow> e | Inr _ \<Rightarrow> [])"

definition endpoint_origin :: "string \<Rightarrow> string" where
  "endpoint_origin endpoint =
     (case parse_endpoint endpoint of Inl _ \<Rightarrow> ''<invalid endpoint>'' | Inr p \<Rightarrow> origin p)"

definition same_endpoint :: "string \<Rightarrow> string \<Rightarrow> bool" where
  "same_endpoint left right =
     (case parse_endpoint left of
        Inl _ \<Rightarrow> False
      | Inr a \<Rightarrow> (case parse_endpoint right of
                     Inl _ \<Rightarrow> False
                   | Inr b \<Rightarrow> host a = host b \<and> port a = port b \<and> target a = target b))"

lemmas endpoint_errors = err_scheme_def err_chars_def err_credentials_def err_ipv6_def
  err_host_def err_port_def

section \<open>The authority\<close>

lemma split_authority_join:
  assumes "split_authority a = Inr (h, p)"
  shows "a = h @ (case p of None \<Rightarrow> [] | Some d \<Rightarrow> '':'' @ d)"
proof (cases "starts_with a ''[''")
  case True
  then obtain r where a: "a = CHR ''['' # r" by (auto simp: prefix_def)
  let ?i = "takeWhile (\<lambda>c. c \<noteq> CHR '']'') r" and ?d = "dropWhile (\<lambda>c. c \<noteq> CHR '']'') r"
  have d: "?d \<noteq> []" using assms a by (auto simp: split_authority_def Let_def split: if_splits)
  then have "r = ?i @ CHR '']'' # tl ?d" by (rule cut_at)
  moreover have "h = CHR ''['' # ?i @ '']''"
    and "tl ?d = (case p of None \<Rightarrow> [] | Some d \<Rightarrow> '':'' @ d)"
    using assms a
    by (auto simp: split_authority_def Let_def split: if_splits list.splits)
  ultimately show ?thesis using a by simp
next
  case False
  let ?d = "dropWhile (\<lambda>c. c \<noteq> CHR '':'') a"
  have h: "h = takeWhile (\<lambda>c. c \<noteq> CHR '':'') a"
    and p: "p = (case ?d of [] \<Rightarrow> None | _ # d \<Rightarrow> Some d)"
    using assms False by (simp_all add: split_authority_def Let_def split: if_splits)
  show ?thesis
  proof (cases ?d)
    case Nil
    then have "CHR '':'' \<notin> set a" by auto
    with h have "h = a" by (simp add: cuts)
    moreover have "p = None" by (simp only: p Nil list.case)
    ultimately show ?thesis by simp
  next
    case (Cons c d)
    then have "a = takeWhile (\<lambda>c. c \<noteq> CHR '':'') a @ CHR '':'' # d"
      using cut_at [of "CHR '':''" a] by simp
    with Cons h p show ?thesis by simp
  qed
qed

text \<open>A host is a name, or a bracketed literal.\<close>

definition valid_host :: "string \<Rightarrow> bool" where
  "valid_host h \<longleftrightarrow>
     (h \<noteq> [] \<and> list_all host_char h)
     \<or> (\<exists>i. h = ''['' @ i @ '']'' \<and> i \<noteq> [] \<and> list_all ipv6_char i)"

lemma split_authority_host: "split_authority a = Inr (h, p) \<Longrightarrow> valid_host h"
  by (auto simp: split_authority_def valid_host_def Let_def split: if_splits list.splits)

lemma host_char_not_special:
  "\<not> host_char CHR ''['' \<and> \<not> host_char CHR '']'' \<and> \<not> host_char CHR '':'' \<and> \<not> host_char CHR ''@''
   \<and> \<not> host_char CHR ''/'' \<and> \<not> host_char CHR ''?'' \<and> \<not> host_char CHR ''#''
   \<and> \<not> ipv6_char CHR '']'' \<and> \<not> ipv6_char CHR ''@'' \<and> \<not> ipv6_char CHR ''[''
   \<and> \<not> ipv6_char CHR ''/'' \<and> \<not> ipv6_char CHR ''?'' \<and> \<not> ipv6_char CHR ''#''"
  by (simp add: host_char_def ipv6_char_def ctype_defs)

lemma split_authority_valid:
  assumes "valid_host h"
  shows "split_authority (h @ '':'' @ d) = Inr (h, Some d)"
proof (cases "h \<noteq> [] \<and> list_all host_char h")
  case True
  then have "CHR '':'' \<notin> set h" and "hd h \<noteq> CHR ''[''"
    using host_char_not_special hd_in_set by (fastforce simp: list_all_iff)+
  then have "takeWhile (\<lambda>c. c \<noteq> CHR '':'') (h @ '':'' @ d) = h"
    and "dropWhile (\<lambda>c. c \<noteq> CHR '':'') (h @ '':'' @ d) = CHR '':'' # d"
    and "\<not> starts_with (h @ '':'' @ d) ''[''"
    using True by (auto simp: cuts neq_Nil_conv)
  with True show ?thesis by (simp add: split_authority_def)
next
  case False
  with assms obtain i where i: "h = ''['' @ i @ '']''" "i \<noteq> []" "list_all ipv6_char i"
    by (auto simp: valid_host_def)
  then have "CHR '']'' \<notin> set i" using host_char_not_special by (fastforce simp: list_all_iff)
  then have "takeWhile (\<lambda>c. c \<noteq> CHR '']'') (i @ '']:'' @ d) = i"
    and "dropWhile (\<lambda>c. c \<noteq> CHR '']'') (i @ '']:'' @ d) = CHR '']'' # CHR '':'' # d"
    by (simp_all add: cuts)
  with i show ?thesis by (simp add: split_authority_def)
qed

section \<open>The request target\<close>

lemma endpoint_path_suffix: "ends_with (endpoint_path x) kChat"
  by (auto simp: endpoint_path_def Let_def suffix_def)

lemma kChat_last: "ends_with x kChat \<Longrightarrow> x \<noteq> [] \<and> last x = CHR ''s''"
  by (auto simp: suffix_def kChat_def)

lemma endpoint_path_id: "ends_with x kChat \<Longrightarrow> endpoint_path x = x"
proof -
  assume x: "ends_with x kChat"
  then have "x \<noteq> []" and "last x \<noteq> CHR ''/''" using kChat_last by auto
  then have "rstrip_by (\<lambda>c. c = CHR ''/'') x = x"
    by (cases x rule: rev_cases) (auto simp: rstrip_by_def)
  with x show ?thesis by (simp add: endpoint_path_def)
qed

lemma endpoint_path_first:
  assumes "x = [] \<or> hd x = CHR ''/''"
  shows "\<exists>y. endpoint_path x = CHR ''/'' # y"
proof -
  let ?r = "rstrip_by (\<lambda>c. c = CHR ''/'') x"
  have "?r = [] \<or> (?r \<noteq> [] \<and> hd ?r = CHR ''/'')"
    using assms rstrip_by_hd [of "\<lambda>c. c = CHR ''/''" x] by (auto simp: rstrip_by_Nil)
  then show ?thesis
    by (auto simp: endpoint_path_def Let_def kChat_def neq_Nil_conv)
qed

lemma set_endpoint_path: "set (endpoint_path x) \<subseteq> set x \<union> set (''/v1'' @ kChat)"
proof -
  obtain t where "x = rstrip_by (\<lambda>c. c = CHR ''/'') x @ t" using rstrip_by_append by blast
  then have "set x = set (rstrip_by (\<lambda>c. c = CHR ''/'') x @ t)" by (rule arg_cong)
  then show ?thesis by (auto simp: endpoint_path_def Let_def)
qed

section \<open>What a successful parse says\<close>

definition is_tail :: "string \<Rightarrow> bool" where
  "is_tail t \<longleftrightarrow> t = [] \<or> ends_authority (hd t)"

definition tail_path :: "string \<Rightarrow> string" where
  "tail_path t = takeWhile (\<lambda>c. c \<noteq> CHR ''?'') (takeWhile (\<lambda>c. c \<noteq> CHR ''#'') t)"

definition tail_query :: "string \<Rightarrow> string" where
  "tail_query t = dropWhile (\<lambda>c. c \<noteq> CHR ''?'') (takeWhile (\<lambda>c. c \<noteq> CHR ''#'') t)"

lemma authority_cut:
  "list_all (\<lambda>c. \<not> ends_authority c) a \<Longrightarrow> is_tail t \<Longrightarrow>
     takeWhile (\<lambda>c. \<not> ends_authority c) (a @ t) = a \<and> dropWhile (\<lambda>c. \<not> ends_authority c) (a @ t) = t"
proof (induction a)
  case Nil
  then show ?case by (cases t) (auto simp: is_tail_def)
qed auto

lemma parse_endpoint_intro:
  assumes "list_all (\<lambda>c. \<not> ends_authority c) a" and "is_tail t"
    and "\<not> list_ex bad_endpoint_char (kScheme @ a @ t)" and "CHR ''@'' \<notin> set a"
    and "split_authority a = Inr (h, pt)" and "parse_port pt = Inr v"
  shows "parse_endpoint (kScheme @ a @ t) =
    Inr \<lparr>origin = kScheme @ a, target = endpoint_path (tail_path t) @ tail_query t,
         host = map to_lower h, port = v\<rparr>"
  using assms split_authority_join [OF assms(5)] authority_cut [OF assms(1,2)]
  by (simp add: parse_endpoint_def tail_path_def tail_query_def Let_def)

lemma parse_endpoint_elim:
  assumes "parse_endpoint e = Inr p"
  obtains a t h pt where "e = kScheme @ a @ t" and "list_all (\<lambda>c. \<not> ends_authority c) a"
    and "is_tail t" and "\<not> list_ex bad_endpoint_char e" and "CHR ''@'' \<notin> set a"
    and "split_authority a = Inr (h, pt)" and "parse_port pt = Inr (port p)"
    and "origin p = kScheme @ a" and "host p = map to_lower h"
    and "target p = endpoint_path (tail_path t) @ tail_query t"
proof -
  have s: "starts_with e kScheme" and bad: "\<not> list_ex bad_endpoint_char e"
    using assms by (auto simp: parse_endpoint_def split: if_splits)
  then obtain r where e: "e = kScheme @ r" by (auto simp: prefix_def)
  define a where "a = takeWhile (\<lambda>c. \<not> ends_authority c) r"
  define t where "t = dropWhile (\<lambda>c. \<not> ends_authority c) r"
  have at: "CHR ''@'' \<notin> set a"
    using assms s bad by (auto simp: parse_endpoint_def e a_def Let_def split: if_splits)
  have "\<exists>h pt. split_authority a = Inr (h, pt)"
    using assms s bad at
    by (auto simp: parse_endpoint_def e a_def Let_def split: if_splits sum.splits)
  then obtain h pt where hp: "split_authority a = Inr (h, pt)" by blast
  have "\<exists>v. parse_port pt = Inr v"
    using assms s bad at hp
    by (auto simp: parse_endpoint_def e a_def Let_def split: if_splits sum.splits)
  then obtain v where v: "parse_port pt = Inr v" by blast
  have ea: "e = kScheme @ a @ t" by (simp add: e a_def t_def)
  have la: "list_all (\<lambda>c. \<not> ends_authority c) a"
    by (auto simp: a_def list_all_iff dest: set_takeWhileD)
  have tt: "is_tail t"
    unfolding is_tail_def t_def using hd_dropWhile [of "\<lambda>c. \<not> ends_authority c" r] by blast
  have "parse_endpoint (kScheme @ a @ t) = Inr p" using assms ea by simp
  with parse_endpoint_intro [OF la tt _ at hp v] bad ea
  have "p = \<lparr>origin = kScheme @ a, target = endpoint_path (tail_path t) @ tail_query t,
         host = map to_lower h, port = v\<rparr>" by simp
  with that [OF ea la tt bad at hp] v show thesis by simp
qed

section \<open>What leaves the process\<close>

lemma parse_endpoint_says: "parse_endpoint e = Inl m \<Longrightarrow> m \<noteq> []"
  unfolding parse_endpoint_def split_authority_def parse_port_def
  by (auto simp: Let_def err_scheme_def err_chars_def err_credentials_def err_ipv6_def err_host_def
      err_port_def split: if_splits sum.splits list.splits option.splits prod.splits)

text \<open>
  C37: of an endpoint only its scheme, host and port are ever shown: whatever follows the
  authority (a path, a query, a fragment, where deployments put tokens), the displayed
  origin is the scheme and the authority or a fixed text, an authority with credentials
  is never shown, and every error text is one of six constants.
\<close>

theorem endpoint_shows_origin_only:
  assumes "list_all (\<lambda>c. \<not> ends_authority c) a" and "is_tail t"
  shows "endpoint_origin (kScheme @ a @ t) =
      (if endpoint_error (kScheme @ a @ t) = [] then kScheme @ a else ''<invalid endpoint>'')
    \<and> (endpoint_error (kScheme @ a @ t) = [] \<longrightarrow> CHR ''@'' \<notin> set a)
    \<and> endpoint_error e \<in> {[], err_scheme, err_chars, err_credentials, err_ipv6, err_host, err_port}"
proof -
  have nonempty: "err \<noteq> []"
    if "err \<in> {err_scheme, err_chars, err_credentials, err_ipv6, err_host, err_port}" for err
    using that by (auto simp: endpoint_errors)
  have range: "parse_endpoint x = Inl err \<Longrightarrow>
      err \<in> {err_scheme, err_chars, err_credentials, err_ipv6, err_host, err_port}" for x err
    by (auto simp: parse_endpoint_def split_authority_def parse_port_def Let_def
        split: if_splits sum.splits option.splits list.splits)
  have err: "endpoint_error e \<in> {[], err_scheme, err_chars, err_credentials, err_ipv6, err_host, err_port}"
    using range [of e] by (auto simp: endpoint_error_def split: sum.splits)
  show ?thesis
  proof (cases "parse_endpoint (kScheme @ a @ t)")
    case (Inl x)
    with range nonempty have "x \<noteq> []" by blast
    with Inl err show ?thesis by (simp add: endpoint_error_def endpoint_origin_def)
  next
    case (Inr p)
    from Inr obtain a' t' where e: "kScheme @ a @ t = kScheme @ a' @ t'"
      and a': "list_all (\<lambda>c. \<not> ends_authority c) a'" and t': "is_tail t'"
      and nat: "CHR ''@'' \<notin> set a'" and o: "origin p = kScheme @ a'"
      by (rule parse_endpoint_elim) blast
    have "a @ t = a' @ t'" using e by simp
    then have "a' = a"
      using authority_cut [OF assms, THEN conjunct1] authority_cut [OF a' t', THEN conjunct1] by metis
    with Inr nat o err show ?thesis by (simp add: endpoint_error_def endpoint_origin_def)
  qed
qed

theorem endpoint_shows_origin_only_witness:
  "list_all (\<lambda>c. \<not> ends_authority c) ''vlm:8080'' \<and> is_tail ''/secret?key=1''
   \<and> endpoint_origin (kScheme @ ''vlm:8080'' @ ''/secret?key=1'') = ''http://vlm:8080''"
proof -
  have a: "list_all (\<lambda>c. \<not> ends_authority c) ''vlm:8080''" and t: "is_tail ''/secret?key=1''"
    by (simp_all add: ends_authority_def is_tail_def)
  have "endpoint_error (kScheme @ ''vlm:8080'' @ ''/secret?key=1'') = []"
    by (simp add: endpoint_error_def parse_endpoint_def parse_port_def from_chars_def digits_value_def
        split_authority_def kScheme_def ends_authority_def bad_endpoint_char_def host_char_def ctype_defs)
  with endpoint_shows_origin_only [OF a t] a t show ?thesis by (simp add: kScheme_def)
qed

section \<open>The normal form of an endpoint\<close>

definition normal_endpoint :: "parsed_endpoint \<Rightarrow> string" where
  "normal_endpoint p = kScheme @ (host p @ '':'' @ show_nat (port p)) @ target p"

lemma lower_host_char: "host_char c \<Longrightarrow> host_char (to_lower c)"
  by (auto simp: host_char_def ctype_defs)

lemma lower_ipv6_char: "ipv6_char c \<Longrightarrow> ipv6_char (to_lower c)"
  by (auto simp: ipv6_char_def ctype_defs)

lemma valid_host_lower: "valid_host h \<Longrightarrow> valid_host (map to_lower h)"
proof (cases "h \<noteq> [] \<and> list_all host_char h")
  case True
  then show ?thesis by (simp add: valid_host_def list_all_iff lower_host_char)
next
  case False
  assume "valid_host h"
  with False obtain i where "h = ''['' @ i @ '']''" "i \<noteq> []" "list_all ipv6_char i"
    by (auto simp: valid_host_def)
  moreover have "to_lower CHR ''['' = CHR ''[''" and "to_lower CHR '']'' = CHR '']''"
    by (simp_all add: ctype_defs)
  ultimately have "map to_lower h = ''['' @ map to_lower i @ '']''" "map to_lower i \<noteq> []"
    "list_all ipv6_char (map to_lower i)"
    by (simp_all add: list_all_iff lower_ipv6_char)
  then show ?thesis unfolding valid_host_def by blast
qed

lemma host_chars_plain:
  "host_char c \<or> ipv6_char c \<or> c = CHR ''['' \<or> c = CHR '']'' \<or> is_digit c \<or> c = CHR '':'' \<Longrightarrow>
     \<not> bad_endpoint_char c \<and> \<not> ends_authority c \<and> c \<noteq> CHR ''@''"
  by (auto simp: host_char_def ipv6_char_def bad_endpoint_char_def ends_authority_def ctype_defs)

lemma valid_host_chars:
  "valid_host h \<Longrightarrow> c \<in> set h \<Longrightarrow> host_char c \<or> ipv6_char c \<or> c = CHR ''['' \<or> c = CHR '']''"
  by (auto simp: valid_host_def list_all_iff)

lemma lower_lower: "to_lower (to_lower c) = to_lower c"
  by (auto simp: ctype_defs)

lemma parse_port_range: "parse_port pt = Inr v \<Longrightarrow> 1 \<le> v \<and> v \<le> 65535"
  by (auto simp: parse_port_def split: option.splits if_splits)

lemma parse_port_show: "1 \<le> v \<Longrightarrow> v \<le> 65535 \<Longrightarrow> parse_port (Some (show_nat v)) = Inr v"
  using from_chars_show_nat [of v "2 ^ 32 - 1"] by (simp add: parse_port_def)

lemma target_facts:
  assumes "is_tail t" and "x = endpoint_path (tail_path t) @ tail_query t"
  shows "is_tail x" and "tail_path x = endpoint_path (tail_path t)" and "tail_query x = tail_query t"
    and "set x \<subseteq> set t \<union> set (''/v1'' @ kChat)"
proof -
  let ?p = "endpoint_path (tail_path t)" and ?q = "tail_query t"
  have "tail_path t = [] \<or> hd (tail_path t) = CHR ''/''"
    using assms(1) by (cases t) (auto simp: tail_path_def is_tail_def ends_authority_def)
  then obtain y where y: "?p = CHR ''/'' # y" using endpoint_path_first by blast
  with assms(2) show "is_tail x" by (simp add: is_tail_def ends_authority_def)
  have sp: "set (tail_path t) \<subseteq> set t - {CHR ''#'', CHR ''?''}"
    and sq: "set ?q \<subseteq> set t - {CHR ''#''}"
    by (auto simp: tail_path_def tail_query_def dest!: set_takeWhileD set_dropWhileD)
  with set_endpoint_path [of "tail_path t"] assms(2)
  show "set x \<subseteq> set t \<union> set (''/v1'' @ kChat)" by fastforce
  have np: "CHR ''#'' \<notin> set ?p" "CHR ''?'' \<notin> set ?p"
    using sp set_endpoint_path [of "tail_path t"] by (auto simp: kChat_def)
  with sq have "takeWhile (\<lambda>c. c \<noteq> CHR ''#'') x = x"
    using assms(2) by (intro takeWhile_absent) auto
  then have d: "tail_path x = takeWhile (\<lambda>c. c \<noteq> CHR ''?'') x"
    "tail_query x = dropWhile (\<lambda>c. c \<noteq> CHR ''?'') x"
    by (simp_all only: tail_path_def tail_query_def)
  have "?q = [] \<or> (\<exists>z. ?q = CHR ''?'' # z)"
    unfolding tail_query_def by (rule dropWhile_first)
  then have "tail_path x = ?p \<and> tail_query x = ?q"
  proof
    assume "?q = []"
    with np(2) show ?thesis unfolding d unfolding assms(2) by (simp add: takeWhile_absent dropWhile_absent)
  next
    assume "\<exists>z. ?q = CHR ''?'' # z"
    then obtain z where z: "?q = CHR ''?'' # z" ..
    with np(2) show ?thesis unfolding d unfolding assms(2) z by (simp add: cuts)
  qed
  then show "tail_path x = ?p" and "tail_query x = ?q" by simp_all
qed

text \<open>
  An endpoint and its normal form (lower-case host, explicit port, full request
  target) are the same endpoint: parsing the normal form gives back the host, the port
  and the request target it was built from, whatever of the three accepted shapes, host
  case, default port and trailing slashes the original had.
\<close>

theorem normal_endpoint_same:
  assumes "parse_endpoint e = Inr p"
  shows "parse_endpoint (normal_endpoint p) =
      Inr (p\<lparr>origin := kScheme @ host p @ '':'' @ show_nat (port p)\<rparr>)
    \<and> same_endpoint e (normal_endpoint p)"
proof -
  from assms obtain a t h pt where e: "e = kScheme @ a @ t" and tail: "is_tail t"
    and bad: "\<not> list_ex bad_endpoint_char e" and hp: "split_authority a = Inr (h, pt)"
    and port: "parse_port pt = Inr (port p)" and host: "host p = map to_lower h"
    and target: "target p = endpoint_path (tail_path t) @ tail_query t"
    by (rule parse_endpoint_elim)
  let ?a = "host p @ '':'' @ show_nat (port p)"
  have vh: "valid_host (host p)"
    using split_authority_host [OF hp] host by (simp add: valid_host_lower)
  have chars: "\<not> bad_endpoint_char c \<and> \<not> ends_authority c \<and> c \<noteq> CHR ''@''" if "c \<in> set ?a" for c
  proof (rule host_chars_plain)
    show "host_char c \<or> ipv6_char c \<or> c = CHR ''['' \<or> c = CHR '']'' \<or> is_digit c \<or> c = CHR '':''"
      using that valid_host_chars [OF vh] show_nat_digits [of "port p"]
      by (auto simp: list_all_iff)
  qed
  note tf = target_facts [OF tail target]
  have scheme_ok: "\<not> bad_endpoint_char c" if "c \<in> set (kScheme @ ''/v1'' @ kChat)" for c
    using that by (auto simp: kScheme_def kChat_def bad_endpoint_char_def code_def)
  have "\<not> bad_endpoint_char c" if "c \<in> set (target p)" for c
  proof -
    from that tf(4) have "c \<in> set e \<or> c \<in> set (kScheme @ ''/v1'' @ kChat)"
      unfolding e set_append by blast
    with bad scheme_ok show ?thesis by (metis list_ex_iff)
  qed
  with chars scheme_ok have nb: "\<not> list_ex bad_endpoint_char (kScheme @ ?a @ target p)"
    unfolding list_ex_iff set_append by blast
  have n: "parse_endpoint (normal_endpoint p) = Inr \<lparr>origin = kScheme @ ?a,
      target = endpoint_path (tail_path (target p)) @ tail_query (target p),
      host = map to_lower (host p), port = port p\<rparr>"
    unfolding normal_endpoint_def
  proof (rule parse_endpoint_intro)
    show "list_all (\<lambda>c. \<not> ends_authority c) ?a" and "CHR ''@'' \<notin> set ?a"
      using chars unfolding list_all_iff by blast+
    show "is_tail (target p)" and "\<not> list_ex bad_endpoint_char (kScheme @ ?a @ target p)"
      by (rule tf(1), rule nb)
    show "split_authority ?a = Inr (host p, Some (show_nat (port p)))"
      by (rule split_authority_valid [OF vh])
    show "parse_port (Some (show_nat (port p))) = Inr (port p)"
      using parse_port_range [OF port] by (intro parse_port_show) auto
  qed
  moreover have "endpoint_path (tail_path (target p)) @ tail_query (target p) = target p"
    using tf(2,3) target endpoint_path_id [OF endpoint_path_suffix] by simp
  moreover have "map to_lower (host p) = host p" by (simp add: host lower_lower)
  ultimately show ?thesis using assms by (simp add: same_endpoint_def)
qed

theorem normal_endpoint_same_witness:
  "parse_endpoint ''http://VLM/base/?t=a'' =
     Inr \<lparr>origin = ''http://VLM'', target = ''/base/v1/chat/completions?t=a'', host = ''vlm'', port = 80\<rparr>
   \<and> same_endpoint ''http://VLM/base/?t=a'' ''http://vlm:80/base/v1/chat/completions?t=a''"
proof -
  have low: "map to_lower ''VLM'' = ''vlm''" by code_simp
  have p: "parse_endpoint ''http://VLM/base/?t=a'' =
     Inr \<lparr>origin = ''http://VLM'', target = ''/base/v1/chat/completions?t=a'', host = ''vlm'', port = 80\<rparr>"
    using low by (simp add: parse_endpoint_def parse_port_def endpoint_path_def split_authority_def
        rstrip_by_def suffix_to_prefix kScheme_def kChat_def ends_authority_def
        bad_endpoint_char_def host_char_def is_alnum_def is_alpha_def is_upper_def is_lower_def
        is_digit_def code_def)
  have "show_nat 80 = ''80''" by code_simp
  with normal_endpoint_same [OF p] p show ?thesis
    by (simp add: normal_endpoint_def kScheme_def)
qed

end
