(* ===== verification/Secret.thy ===== *)
theory Secret
  imports Prelude
begin

unbundle bit_operations_syntax

text \<open>
  \<^verbatim>\<open>src/secret.h\<close>: a credential and its constant-time comparison.  A secret is its
  value; \<^verbatim>\<open>reveal()\<close> is the record field, and nothing else reads it.
\<close>

record secret =
  reveal :: string

definition no_secret :: secret where
  "no_secret = \<lparr>reveal = []\<rparr>"

definition secret_empty :: "secret \<Rightarrow> bool" where
  "secret_empty s \<longleftrightarrow> reveal s = []"

definition byte :: "char \<Rightarrow> u8" where
  "byte c = word_of_nat (code c)"

text \<open>
  The comparison loop: \<open>value\<close> is what is left of the secret from index \<open>i\<close> on, so a
  candidate longer than the secret is compared against the byte 0 from there.
\<close>

fun matches_loop :: "u8 \<Rightarrow> string \<Rightarrow> string \<Rightarrow> u8" where
  "matches_loop difference value [] = difference"
| "matches_loop difference value (c # cs) =
     (let expected = (case value of [] \<Rightarrow> 0 | v # _ \<Rightarrow> byte v)
      in matches_loop (difference OR (expected XOR byte c)) (tl value) cs)"

definition secret_matches :: "secret \<Rightarrow> string \<Rightarrow> bool" where
  "secret_matches s candidate =
     (if reveal s = [] then False
      else let difference = (if length candidate = length (reveal s) then 0 else 1)
           in matches_loop difference (reveal s) candidate = 0)"

lemma byte_inject: "byte a = byte b \<longleftrightarrow> a = b"
proof
  assume "byte a = byte b"
  then have "unat (byte a) = unat (byte b)" by simp
  moreover have "code c < 256" for c
    by (simp add: code_def)
  ultimately have "code a = code b"
    by (simp add: byte_def unat_word_ariths take_bit_eq_mod unat_of_nat)
  then show "a = b" by (simp add: code_def)
qed simp

lemma xor_zero: "a XOR b = 0 \<longleftrightarrow> a = b" for a b :: u8
proof
  assume "a XOR b = 0"
  then have "(a XOR b) XOR b = 0 XOR b" by simp
  then show "a = b" by (simp add: xor.assoc)
qed simp

lemma matches_loop_nonzero: "d \<noteq> 0 \<Longrightarrow> matches_loop d v cs \<noteq> 0"
proof (induction d v cs rule: matches_loop.induct)
  case (2 d v c cs)
  have "d OR x \<noteq> 0" for x :: u8
    using "2.prems" by (simp add: or_eq_0_iff)
  with "2.IH" show ?case by (simp add: Let_def)
qed simp

lemma matches_loop_zero:
  "length v = length cs \<Longrightarrow> matches_loop 0 v cs = 0 \<longleftrightarrow> v = cs"
proof (induction cs arbitrary: v)
  case Nil
  then show ?case by simp
next
  case (Cons c cs)
  then obtain w ws where v: "v = w # ws" "length ws = length cs"
    by (cases v) auto
  show ?case
  proof (cases "w = c")
    case True
    with v Cons.IH show ?thesis by simp
  next
    case False
    then have "byte w XOR byte c \<noteq> 0" by (simp add: byte_inject xor_zero)
    with v False show ?thesis by (simp add: matches_loop_nonzero)
  qed
qed

text \<open>
  The comparison that reads every byte of the candidate whatever it finds decides
  equality: a token is accepted exactly when it is the configured, non-empty secret.
\<close>

lemma secret_matches_iff:
  "secret_matches s candidate \<longleftrightarrow> reveal s \<noteq> [] \<and> candidate = reveal s"
proof (cases "length candidate = length (reveal s)")
  case True
  then show ?thesis
    using matches_loop_zero [of "reveal s" candidate] by (auto simp: secret_matches_def)
next
  case False
  then show ?thesis
    using matches_loop_nonzero [of 1 "reveal s" candidate]
    by (auto simp: secret_matches_def)
qed

end
