(* ===== verification/Config.thy ===== *)
theory Config
  imports Endpoint Secret
begin

text \<open>
  \<^verbatim>\<open>src/config.cpp\<close> and \<^verbatim>\<open>src/config.h\<close>: the configuration read from the environment
  (a map from names to values) and the line the process prints when it listens.  A thrown
  \<^verbatim>\<open>invalid_argument\<close> is its message on the left.
\<close>

type_synonym environment = "string \<rightharpoonup> string"

record config =
  listen_address :: string
  endpoint :: string
  vlm_api_key :: secret
  allow_endpoint_override :: bool
  request_logprobs :: bool
  presets :: "string list"
  concurrency :: nat
  max_inflight :: nat
  max_page_bytes :: nat
  max_pages :: nat
  max_page_crop_bytes :: nat
  max_stream_buffered_bytes :: nat
  max_buffered_bytes :: nat
  vlm_timeout_seconds :: nat
  metrics_interval_seconds :: nat
  http_port :: nat
  http_host :: string
  http_max_body_bytes :: nat
  http_token :: secret

definition default_config :: config where
  "default_config = \<lparr>listen_address = ''0.0.0.0:50058'', endpoint = [], vlm_api_key = no_secret,
     allow_endpoint_override = False, request_logprobs = True, presets = [], concurrency = 2,
     max_inflight = 8, max_page_bytes = 32 * 1024 * 1024, max_pages = 512,
     max_page_crop_bytes = 3 * 1024 * 1024, max_stream_buffered_bytes = 4 * (32 * 1024 * 1024),
     max_buffered_bytes = 16 * (32 * 1024 * 1024), vlm_timeout_seconds = 300,
     metrics_interval_seconds = 60, http_port = 50059, http_host = ''127.0.0.1'',
     http_max_body_bytes = 64 * 1024 * 1024, http_token = no_secret\<rparr>"

section \<open>Reading one variable\<close>

text \<open>
  \<^verbatim>\<open>strtoull\<close> with base 10: leading space and one sign are skipped, a minus sign negates
  in 64 bits, an overflow is the largest number; nothing when there is no digit.
\<close>

definition strtoull :: "string \<Rightarrow> (nat \<times> string) option" where
  "strtoull raw =
     (let s = dropWhile is_space raw;
          negative = starts_with s ''-'';
          digits = (if starts_with s ''-'' \<or> starts_with s ''+'' then tl s else s);
          ds = takeWhile is_digit digits;
          v = digits_value ds
      in if ds = [] then None
         else Some (if 2 ^ 64 - 1 < v then 2 ^ 64 - 1
                    else if negative then (2 ^ 64 - v) mod 2 ^ 64 else v,
                    dropWhile is_digit digits))"

definition configured_size :: "environment \<Rightarrow> string \<Rightarrow> nat \<Rightarrow> nat \<Rightarrow> nat \<Rightarrow> string + nat" where
  "configured_size env name fallback minimum maximum =
     (case env name of
        None \<Rightarrow> Inr fallback
      | Some raw \<Rightarrow>
          if raw = [] then Inr fallback
          else
            (let refusal = name @ '' must be an integer between '' @ show_nat minimum @ '' and ''
                             @ show_nat maximum
             in case strtoull raw of
                  None \<Rightarrow> Inl refusal
                | Some (v, rest) \<Rightarrow>
                    if rest \<noteq> [] \<or> v < minimum \<or> maximum < v then Inl refusal else Inr v))"

definition configured_string :: "environment \<Rightarrow> string \<Rightarrow> string \<Rightarrow> string" where
  "configured_string env name fallback =
     (case env name of None \<Rightarrow> fallback | Some raw \<Rightarrow> if raw = [] then fallback else raw)"

definition configured_bool :: "environment \<Rightarrow> string \<Rightarrow> bool \<Rightarrow> string + bool" where
  "configured_bool env name fallback =
     (case env name of
        None \<Rightarrow> Inr fallback
      | Some raw \<Rightarrow>
          if raw = [] then Inr fallback
          else if raw = ''true'' \<or> raw = ''1'' then Inr True
          else if raw = ''false'' \<or> raw = ''0'' then Inr False
          else Inl (name @ '' must be true, false, 1 or 0''))"

definition configured_secret :: "environment \<Rightarrow> string \<Rightarrow> secret" where
  "configured_secret env name =
     (case env name of None \<Rightarrow> no_secret | Some raw \<Rightarrow> \<lparr>reveal = raw\<rparr>)"

definition is_loopback_host :: "string \<Rightarrow> bool" where
  "is_loopback_host h =
     (if h = ''localhost'' \<or> h = ''::1'' \<or> h = ''[::1]'' then True
      else if \<not> starts_with h ''127.'' \<or> 15 < length h then False
      else if list_ex (\<lambda>c. c \<noteq> CHR ''.'' \<and> \<not> is_digit c) h then False
      else length (filter (\<lambda>c. c = CHR ''.'') h) = 3 \<and> \<not> ends_with h ''.'' \<and> \<not> contains_sub ''..'' h)"

definition is_blank :: "char \<Rightarrow> bool" where
  "is_blank c \<longleftrightarrow> c = CHR '' '' \<or> c = TAB"

definition configured_list :: "environment \<Rightarrow> string \<Rightarrow> string list" where
  "configured_list env name =
     (case env name of
        None \<Rightarrow> []
      | Some raw \<Rightarrow> filter (\<lambda>item. item \<noteq> []) (map (strip_by is_blank) (split_at CHR '','' raw)))"

section \<open>The whole configuration\<close>

definition configured_endpoint :: "environment \<Rightarrow> string \<Rightarrow> string + string" where
  "configured_endpoint env fallback =
     (let e = configured_string env ''GRPC_VLM_ENDPOINT'' fallback
      in if e \<noteq> [] \<and> endpoint_error e \<noteq> [] then Inl (''GRPC_VLM_ENDPOINT: '' @ endpoint_error e)
         else Inr e)"

definition configured_http_port :: "environment \<Rightarrow> nat \<Rightarrow> string + nat" where
  "configured_http_port env fallback =
     (case env ''GRPC_VLM_HTTP_PORT'' of
        Some raw \<Rightarrow> if raw = [] \<or> raw = ''0'' then Inr 0
                    else configured_size env ''GRPC_VLM_HTTP_PORT'' fallback 1 65535
      | None \<Rightarrow> configured_size env ''GRPC_VLM_HTTP_PORT'' fallback 1 65535)"

definition kMaxBufferedBytes :: nat where
  "kMaxBufferedBytes = 2 ^ 40"

definition err_open_front_end :: string where
  "err_open_front_end = ''GRPC_VLM_HTTP_HOST binds the HTTP front end beyond loopback; set GRPC_VLM_HTTP_TOKEN so callers must authenticate (or GRPC_VLM_HTTP_PORT=0 to turn the front end off)''"

definition load_config_from_env :: "environment \<Rightarrow> string + config" where
  "load_config_from_env env =
     (let c = default_config\<lparr>listen_address :=
                configured_string env ''GRPC_VLM_LISTEN_ADDRESS'' (listen_address default_config)\<rparr>
      in
      and_then (configured_endpoint env (endpoint c)) (\<lambda>e.
      let c = c\<lparr>endpoint := e, vlm_api_key := configured_secret env ''GRPC_VLM_API_KEY''\<rparr> in
      and_then (configured_bool env ''GRPC_VLM_ALLOW_ENDPOINT_OVERRIDE'' (allow_endpoint_override c)) (\<lambda>b.
      let c = c\<lparr>allow_endpoint_override := b\<rparr> in
      and_then (configured_bool env ''GRPC_VLM_LOGPROBS'' (request_logprobs c)) (\<lambda>b.
      let c = c\<lparr>request_logprobs := b, presets := configured_list env ''GRPC_VLM_PRESETS''\<rparr> in
      and_then (configured_size env ''GRPC_VLM_CONCURRENCY'' (concurrency c) 1 64) (\<lambda>n.
      let c = c\<lparr>concurrency := n\<rparr> in
      and_then (configured_size env ''GRPC_VLM_MAX_INFLIGHT'' (max_inflight c) 1 4096) (\<lambda>n.
      let c = c\<lparr>max_inflight := n\<rparr> in
      and_then (configured_size env ''GRPC_VLM_MAX_PAGE_BYTES'' (max_page_bytes c)
                  1024 (1024 * 1024 * 1024)) (\<lambda>n.
      let c = c\<lparr>max_page_bytes := n\<rparr> in
      and_then (configured_size env ''GRPC_VLM_MAX_PAGES'' (max_pages c) 1 100000) (\<lambda>n.
      let c = c\<lparr>max_pages := n\<rparr> in
      and_then (configured_size env ''GRPC_VLM_MAX_PAGE_CROP_BYTES'' (max_page_crop_bytes c)
                  1024 (1024 * 1024 * 1024)) (\<lambda>n.
      let c = c\<lparr>max_page_crop_bytes := n\<rparr> in
      and_then (configured_size env ''GRPC_VLM_MAX_STREAM_BUFFERED_BYTES'' (4 * max_page_bytes c)
                  (max_page_bytes c) kMaxBufferedBytes) (\<lambda>n.
      let c = c\<lparr>max_stream_buffered_bytes := n\<rparr> in
      and_then (configured_size env ''GRPC_VLM_MAX_BUFFERED_BYTES'' (16 * max_page_bytes c)
                  (max_page_bytes c) kMaxBufferedBytes) (\<lambda>n.
      let c = c\<lparr>max_buffered_bytes := n\<rparr> in
      and_then (configured_size env ''GRPC_VLM_VLM_TIMEOUT_SECONDS'' (vlm_timeout_seconds c) 1 86400) (\<lambda>n.
      let c = c\<lparr>vlm_timeout_seconds := n\<rparr> in
      and_then (configured_size env ''GRPC_VLM_METRICS_INTERVAL_SECONDS''
                  (metrics_interval_seconds c) 0 86400) (\<lambda>n.
      let c = c\<lparr>metrics_interval_seconds := n\<rparr> in
      and_then (configured_http_port env (http_port c)) (\<lambda>n.
      let c = c\<lparr>http_port := n,
                http_host := configured_string env ''GRPC_VLM_HTTP_HOST'' (http_host c)\<rparr> in
      and_then (configured_size env ''GRPC_VLM_HTTP_MAX_BODY_BYTES'' (http_max_body_bytes c)
                  1024 (16 * 2 ^ 30)) (\<lambda>n.
      let c = c\<lparr>http_max_body_bytes := n, http_token := configured_secret env ''GRPC_VLM_HTTP_TOKEN''\<rparr> in
      if http_port c \<noteq> 0 \<and> \<not> is_loopback_host (http_host c) \<and> secret_empty (http_token c)
      then Inl err_open_front_end
      else Inr c)))))))))))))))"

definition EMDASH :: string where
  "EMDASH = [CHR 0xE2, CHR 0x80, CHR 0x94]"

definition startup_banner :: "config \<Rightarrow> string" where
  "startup_banner c =
     ''grpc-vlm-convert listening on '' @ listen_address c
     @ (if http_port c \<noteq> 0
        then '' (HTTP on '' @ http_host c @ '':'' @ show_nat (http_port c)
             @ (if \<not> secret_empty (http_token c) then '', token required'' else []) @ '')''
        else [])
     @ '' (endpoint ''
     @ (if endpoint c = []
        then (if allow_endpoint_override c
              then ''<none '' @ EMDASH @ '' per-request override required>''
              else ''<none '' @ EMDASH @ '' ConvertPages fails until GRPC_VLM_ENDPOINT is set>'')
        else endpoint_origin (endpoint c))
     @ (if \<not> secret_empty (vlm_api_key c) then '', API key set'' else [])
     @ '')''
     @ (if allow_endpoint_override c then '' (per-request endpoint overrides allowed)'' else [])"

section \<open>Properties\<close>

lemma configured_size_bounds:
  "configured_size env name fallback lo hi = Inr n \<Longrightarrow> lo \<le> fallback \<Longrightarrow> fallback \<le> hi \<Longrightarrow>
     lo \<le> n \<and> n \<le> hi"
  by (auto simp: configured_size_def Let_def split: option.splits if_splits prod.splits)

lemma strtoull_show_nat: "n < 2 ^ 64 \<Longrightarrow> strtoull (show_nat n) = Some (n, [])"
proof -
  assume n: "n < 2 ^ 64"
  obtain d ds where d: "show_nat n = d # ds" and "is_digit d"
    using show_nat_nonempty [of n] show_nat_digits [of n] by (cases "show_nat n") auto
  then have "\<not> is_space d" "d \<noteq> CHR ''-''" "d \<noteq> CHR ''+''" by (auto simp: ctype_defs)
  with d n show_nat_digits [of n] digits_value_show_nat [of n] show ?thesis
    unfolding strtoull_def by (simp add: takeWhile_all dropWhile_all)
qed

text \<open>
  A number in range is configured as written: the decimal text of any number between
  the minimum and the maximum of a variable is accepted and read as that number, and the
  text of a number outside that range is refused with a message naming the variable.
\<close>

theorem configured_size_reads:
  assumes "env name = Some (show_nat n)" and "n < 2 ^ 64"
  shows "configured_size env name fallback lo hi =
    (if lo \<le> n \<and> n \<le> hi then Inr n
     else Inl (name @ '' must be an integer between '' @ show_nat lo @ '' and '' @ show_nat hi))"
  using strtoull_show_nat [OF assms(2)] assms(1) by (auto simp: configured_size_def Let_def)

theorem configured_size_reads_witness:
  "configured_size [''GRPC_VLM_CONCURRENCY'' \<mapsto> show_nat 64] ''GRPC_VLM_CONCURRENCY'' 2 1 64 = Inr 64"
  using configured_size_reads [of "[''GRPC_VLM_CONCURRENCY'' \<mapsto> show_nat 64]" "''GRPC_VLM_CONCURRENCY''" 64]
  by simp

definition config_ok :: "config \<Rightarrow> bool" where
  "config_ok c \<longleftrightarrow>
     (endpoint c \<noteq> [] \<longrightarrow> endpoint_error (endpoint c) = [])
     \<and> 1 \<le> concurrency c \<and> concurrency c \<le> 64
     \<and> 1 \<le> max_inflight c \<and> max_inflight c \<le> 4096
     \<and> 1024 \<le> max_page_bytes c \<and> max_page_bytes c \<le> 2 ^ 30
     \<and> 1 \<le> max_pages c \<and> max_pages c \<le> 100000
     \<and> 1024 \<le> max_page_crop_bytes c \<and> max_page_crop_bytes c \<le> 2 ^ 30
     \<and> max_page_bytes c \<le> max_stream_buffered_bytes c \<and> max_stream_buffered_bytes c \<le> 2 ^ 40
     \<and> max_page_bytes c \<le> max_buffered_bytes c \<and> max_buffered_bytes c \<le> 2 ^ 40
     \<and> 1 \<le> vlm_timeout_seconds c \<and> vlm_timeout_seconds c \<le> 86400
     \<and> metrics_interval_seconds c \<le> 86400
     \<and> http_port c \<le> 65535
     \<and> 1024 \<le> http_max_body_bytes c \<and> http_max_body_bytes c \<le> 2 ^ 34
     \<and> (http_port c = 0 \<or> is_loopback_host (http_host c) \<or> \<not> secret_empty (http_token c))"

lemma configured_endpoint_ok: "configured_endpoint env [] = Inr e \<Longrightarrow> e \<noteq> [] \<longrightarrow> endpoint_error e = []"
  by (auto simp: configured_endpoint_def Let_def split: if_splits)

lemma configured_http_port_ok: "configured_http_port env 50059 = Inr n \<Longrightarrow> n \<le> 65535"
  by (auto simp: configured_http_port_def split: option.splits if_splits dest: configured_size_bounds)

text \<open>
  C39: a configuration that loads is within every bound the operator was promised: each
  number in its range, each buffer cap at least one page, an endpoint that parses, and no
  HTTP front end reachable from beyond this machine without a token.
\<close>

theorem load_config_ok:
  assumes "load_config_from_env env = Inr c"
  shows "config_ok c"
proof -
  from assms obtain e b1 b2 n1 n2 n3 n4 n5 n6 n7 n8 n9 n10 n11 where
    steps: "configured_endpoint env [] = Inr e"
      "configured_size env ''GRPC_VLM_CONCURRENCY'' 2 1 64 = Inr n1"
      "configured_size env ''GRPC_VLM_MAX_INFLIGHT'' 8 1 4096 = Inr n2"
      "configured_size env ''GRPC_VLM_MAX_PAGE_BYTES'' (32 * 1024 * 1024) 1024 (1024 * 1024 * 1024) = Inr n3"
      "configured_size env ''GRPC_VLM_MAX_PAGES'' 512 1 100000 = Inr n4"
      "configured_size env ''GRPC_VLM_MAX_PAGE_CROP_BYTES'' (3 * 1024 * 1024) 1024 (1024 * 1024 * 1024) = Inr n5"
      "configured_size env ''GRPC_VLM_MAX_STREAM_BUFFERED_BYTES'' (4 * n3) n3 kMaxBufferedBytes = Inr n6"
      "configured_size env ''GRPC_VLM_MAX_BUFFERED_BYTES'' (16 * n3) n3 kMaxBufferedBytes = Inr n7"
      "configured_size env ''GRPC_VLM_VLM_TIMEOUT_SECONDS'' 300 1 86400 = Inr n8"
      "configured_size env ''GRPC_VLM_METRICS_INTERVAL_SECONDS'' 60 0 86400 = Inr n9"
      "configured_http_port env 50059 = Inr n10"
      "configured_size env ''GRPC_VLM_HTTP_MAX_BODY_BYTES'' (64 * 1024 * 1024) 1024 (16 * 2 ^ 30) = Inr n11"
    and fields: "endpoint c = e" "concurrency c = n1" "max_inflight c = n2" "max_page_bytes c = n3"
      "max_pages c = n4" "max_page_crop_bytes c = n5" "max_stream_buffered_bytes c = n6"
      "max_buffered_bytes c = n7" "vlm_timeout_seconds c = n8" "metrics_interval_seconds c = n9"
      "http_port c = n10" "http_max_body_bytes c = n11"
    and front: "http_port c = 0 \<or> is_loopback_host (http_host c) \<or> \<not> secret_empty (http_token c)"
    unfolding load_config_from_env_def default_config_def Let_def and_then_Inr
    by (auto split: if_splits)
  have n3: "1024 \<le> n3 \<and> n3 \<le> 2 ^ 30" using configured_size_bounds [OF steps(4)] by simp
  show ?thesis
    unfolding config_ok_def fields
    using configured_endpoint_ok [OF steps(1)] configured_size_bounds [OF steps(2)]
      configured_size_bounds [OF steps(3)] n3 configured_size_bounds [OF steps(5)]
      configured_size_bounds [OF steps(6)] configured_size_bounds [OF steps(7)]
      configured_size_bounds [OF steps(8)] configured_size_bounds [OF steps(9)]
      configured_size_bounds [OF steps(10)] configured_http_port_ok [OF steps(11)]
      configured_size_bounds [OF steps(12)] front
    by (simp add: kMaxBufferedBytes_def fields)
qed

theorem load_config_ok_witness:
  "\<exists>c. load_config_from_env (\<lambda>_. None) = Inr c \<and> config_ok c"
proof -
  have l: "load_config_from_env (\<lambda>_. None) = Inr default_config"
    by (simp add: load_config_from_env_def default_config_def configured_endpoint_def
        configured_string_def configured_bool_def configured_size_def configured_http_port_def
        configured_secret_def configured_list_def is_loopback_host_def contains_sub_def
        no_secret_def secret_empty_def is_digit_def code_def suffix_to_prefix)
  from load_config_ok [OF l] l show ?thesis by blast
qed

text \<open>
  The banner gives nothing away.  Two configurations that listen alike, agree on
  whether a key and a token are set, and whose endpoints have the same origin print the
  same line: no key, no token, and nothing of the endpoint beyond scheme, host and port
  can be read off it.
\<close>

theorem banner_hides_credentials:
  assumes "listen_address c = listen_address d" and "http_port c = http_port d"
    and "http_host c = http_host d" and "allow_endpoint_override c = allow_endpoint_override d"
    and "secret_empty (vlm_api_key c) = secret_empty (vlm_api_key d)"
    and "secret_empty (http_token c) = secret_empty (http_token d)"
    and "endpoint c = [] \<longleftrightarrow> endpoint d = []"
    and "endpoint_origin (endpoint c) = endpoint_origin (endpoint d)"
  shows "startup_banner c = startup_banner d"
  using assms by (simp add: startup_banner_def)

theorem banner_hides_credentials_witness:
  "startup_banner (default_config\<lparr>vlm_api_key := \<lparr>reveal = ''a''\<rparr>, http_token := \<lparr>reveal = ''b''\<rparr>\<rparr>)
   = startup_banner (default_config\<lparr>vlm_api_key := \<lparr>reveal = ''cc''\<rparr>, http_token := \<lparr>reveal = ''dd''\<rparr>\<rparr>)"
  by (rule banner_hides_credentials) (simp_all add: secret_empty_def)

definition dotted :: "string list \<Rightarrow> string" where
  "dotted parts = join_with CHR ''.'' parts"

definition is_number :: "string \<Rightarrow> bool" where
  "is_number s \<longleftrightarrow> s \<noteq> [] \<and> list_all is_digit s"

lemma count_split:
  assumes "length (filter (\<lambda>c. c = x) s) = Suc n"
  obtains a t where "s = a @ x # t" "x \<notin> set a" "length (filter (\<lambda>c. c = x) t) = n"
proof -
  have "x \<in> set s" using assms by (metis (mono_tags) Zero_not_Suc filter_False list.size(3))
  then obtain a t where at: "s = a @ x # t" "x \<notin> set a" by (meson split_list_first)
  moreover from at(2) have "filter (\<lambda>c. c = x) a = []" by (auto simp: filter_empty_conv)
  ultimately show ?thesis using assms that by simp
qed

lemma contains_sub_split: "contains_sub n s \<longleftrightarrow> (\<exists>a b. s = a @ n @ b)"
  using find_sub_None [of n s] by (auto simp: contains_sub_def sublist_def)

lemma literal_forward:
  assumes "starts_with h ''127.''" and "\<not> list_ex (\<lambda>c. c \<noteq> CHR ''.'' \<and> \<not> is_digit c) h"
    and "length (filter (\<lambda>c. c = CHR ''.'') h) = 3" and "\<not> ends_with h ''.''"
    and "\<not> contains_sub ''..'' h"
  shows "\<exists>a b c. is_number a \<and> is_number b \<and> is_number c \<and> h = dotted [''127'', a, b, c]"
proof -
  from assms(1) obtain t where t: "h = ''127.'' @ t" by (auto simp: prefix_def)
  with assms(3) have "length (filter (\<lambda>c. c = CHR ''.'') t) = Suc 1" by simp
  then obtain a t1 where a: "t = a @ CHR ''.'' # t1" "CHR ''.'' \<notin> set a"
    "length (filter (\<lambda>c. c = CHR ''.'') t1) = Suc 0" by (auto elim: count_split)
  then obtain b c where b: "t1 = b @ CHR ''.'' # c" "CHR ''.'' \<notin> set b"
    "length (filter (\<lambda>c. c = CHR ''.'') c) = 0" by (blast elim: count_split)
  then have c: "CHR ''.'' \<notin> set c" by (auto simp: filter_empty_conv)
  have h: "h = ''127.'' @ a @ ''.'' @ b @ ''.'' @ c" using t a(1) b(1) by simp
  have "a \<noteq> []"
  proof
    assume "a = []"
    then have "h = ''127'' @ ''..'' @ (b @ ''.'' @ c)" using h by simp
    with assms(5) show False unfolding contains_sub_split by blast
  qed
  moreover have "b \<noteq> []"
  proof
    assume "b = []"
    then have "h = (''127.'' @ a) @ ''..'' @ c" using h by simp
    with assms(5) show False unfolding contains_sub_split by blast
  qed
  moreover have "c \<noteq> []"
  proof
    assume "c = []"
    then have "h = (''127.'' @ a @ ''.'' @ b) @ ''.''" using h by simp
    with assms(4) show False unfolding suffix_def by blast
  qed
  moreover have digit: "list_all is_digit p" if "CHR ''.'' \<notin> set p" "set p \<subseteq> set h" for p
  proof -
    have "is_digit x" if "x \<in> set p" for x
    proof -
      have "x \<in> set h" and "x \<noteq> CHR ''.''" using that \<open>CHR ''.'' \<notin> set p\<close> \<open>set p \<subseteq> set h\<close> by auto
      with assms(2) show ?thesis unfolding list_ex_iff by metis
    qed
    then show ?thesis by (simp add: list_all_iff)
  qed
  have "set a \<subseteq> set h" "set b \<subseteq> set h" "set c \<subseteq> set h" by (simp_all add: h subset_iff)
  with digit a(2) b(2) c have "list_all is_digit a" "list_all is_digit b" "list_all is_digit c"
    by simp_all
  ultimately show ?thesis using h by (auto simp: is_number_def dotted_def)
qed

text \<open>
  A host counts as loopback only when it is one of the three loopback names or a
  literal of four numbers whose first is 127, at most 15 characters long: no host name and
  no address that merely begins like a loopback one opens the front end without a token.
\<close>

theorem loopback_is_local:
  assumes "is_loopback_host h"
  shows "h = ''localhost'' \<or> h = ''::1'' \<or> h = ''[::1]''
    \<or> (length h \<le> 15
       \<and> (\<exists>a b c. is_number a \<and> is_number b \<and> is_number c \<and> h = dotted [''127'', a, b, c]))"
  using assms literal_forward [of h] unfolding is_loopback_host_def by (auto split: if_splits)

theorem loopback_is_local_witness:
  "is_loopback_host ''127.0.0.53'' \<and>
     (\<exists>a b c. is_number a \<and> is_number b \<and> is_number c \<and> ''127.0.0.53'' = dotted [''127'', a, b, c])"
proof -
  have "is_loopback_host ''127.0.0.53''"
    by (simp add: is_loopback_host_def is_digit_def code_def contains_sub_def suffix_to_prefix)
  with loopback_is_local [OF this] show ?thesis by simp
qed

text \<open>
  \<^verbatim>\<open>strtoull\<close> takes a minus sign and negates in 64 bits, so a large enough negative text
  passes for a number in range.
\<close>

lemma negative_size_accepted:
  "configured_size [''GRPC_VLM_CONCURRENCY'' \<mapsto> ''-18446744073709551615''] ''GRPC_VLM_CONCURRENCY'' 2 1 64 = Inr 1"
  by (simp add: configured_size_def strtoull_def digits_value_def digit_value_def is_digit_def
      is_space_def code_def)

end
