(* ===== verification/Presets.thy ===== *)
theory Presets
  imports Prelude
begin

text \<open>
  \<^verbatim>\<open>src/presets.cpp\<close>: the built-in presets, what a request resolves to, and the names of
  the response formats.  The two enums are those of the wire contract
  (\<^verbatim>\<open>proto/ai/pipestream/vlm/v1/vlm_convert.proto\<close>); they are open, so a number outside
  the list is a value too (\<open>OTHER\<close>).
\<close>

datatype vlm_preset =
    VLM_PRESET_UNSPECIFIED
  | VLM_PRESET_SMOLDOCLING
  | VLM_PRESET_GRANITE_DOCLING
  | VLM_PRESET_GOT_OCR_2
  | VLM_PRESET_GRANITE_VISION
  | VLM_PRESET_DEEPSEEK_OCR
  | VLM_PRESET_NANONETS_OCR2
  | VLM_PRESET_GLM_OCR
  | VLM_PRESET_LIGHTON_OCR
  | VLM_PRESET_RAW
  | VLM_PRESET_NORTH_MICRO_VISION
  | VLM_PRESET_OTHER int

datatype response_format =
    RESPONSE_FORMAT_UNSPECIFIED
  | RESPONSE_FORMAT_DOCTAGS
  | RESPONSE_FORMAT_MARKDOWN
  | RESPONSE_FORMAT_HTML
  | RESPONSE_FORMAT_OTSL
  | RESPONSE_FORMAT_PLAINTEXT
  | RESPONSE_FORMAT_DOCLANG
  | RESPONSE_FORMAT_DEEPSEEKOCR_MARKDOWN
  | RESPONSE_FORMAT_UNLIMITED_OCR_MARKDOWN
  | RESPONSE_FORMAT_CHANDRA_HTML
  | RESPONSE_FORMAT_DOTS_JSON
  | RESPONSE_FORMAT_NEMOTRON_PARSE_V2
  | RESPONSE_FORMAT_NEMOTRON_PARSE_V3_5
  | RESPONSE_FORMAT_MINERU2
  | RESPONSE_FORMAT_OTHER int

text \<open>The generated \<^verbatim>\<open>ResponseFormat_Name\<close>, \<^verbatim>\<open>_Parse\<close> and \<^verbatim>\<open>_IsValid\<close>: one table of names.\<close>

definition response_formats :: "(string \<times> response_format) list" where
  "response_formats =
    [(''RESPONSE_FORMAT_UNSPECIFIED'', RESPONSE_FORMAT_UNSPECIFIED),
     (''RESPONSE_FORMAT_DOCTAGS'', RESPONSE_FORMAT_DOCTAGS),
     (''RESPONSE_FORMAT_MARKDOWN'', RESPONSE_FORMAT_MARKDOWN),
     (''RESPONSE_FORMAT_HTML'', RESPONSE_FORMAT_HTML),
     (''RESPONSE_FORMAT_OTSL'', RESPONSE_FORMAT_OTSL),
     (''RESPONSE_FORMAT_PLAINTEXT'', RESPONSE_FORMAT_PLAINTEXT),
     (''RESPONSE_FORMAT_DOCLANG'', RESPONSE_FORMAT_DOCLANG),
     (''RESPONSE_FORMAT_DEEPSEEKOCR_MARKDOWN'', RESPONSE_FORMAT_DEEPSEEKOCR_MARKDOWN),
     (''RESPONSE_FORMAT_UNLIMITED_OCR_MARKDOWN'', RESPONSE_FORMAT_UNLIMITED_OCR_MARKDOWN),
     (''RESPONSE_FORMAT_CHANDRA_HTML'', RESPONSE_FORMAT_CHANDRA_HTML),
     (''RESPONSE_FORMAT_DOTS_JSON'', RESPONSE_FORMAT_DOTS_JSON),
     (''RESPONSE_FORMAT_NEMOTRON_PARSE_V2'', RESPONSE_FORMAT_NEMOTRON_PARSE_V2),
     (''RESPONSE_FORMAT_NEMOTRON_PARSE_V3_5'', RESPONSE_FORMAT_NEMOTRON_PARSE_V3_5),
     (''RESPONSE_FORMAT_MINERU2'', RESPONSE_FORMAT_MINERU2)]"

definition format_parse :: "string \<Rightarrow> response_format option" where
  "format_parse name = map_of response_formats name"

definition format_is_valid :: "response_format \<Rightarrow> bool" where
  "format_is_valid f = (case f of RESPONSE_FORMAT_OTHER _ \<Rightarrow> False | _ \<Rightarrow> True)"

definition format_name :: "response_format \<Rightarrow> string" where
  "format_name f =
     (case List.find (\<lambda>(_, g). g = f) response_formats of Some (n, _) \<Rightarrow> n | None \<Rightarrow> [])"

section \<open>The presets\<close>

record preset_spec =
  ps_preset :: vlm_preset
  ps_name :: string
  ps_model :: string
  ps_prompt :: string
  ps_format :: response_format
  ps_stop :: "string list"
  ps_max_tokens :: int

definition kPresets :: "preset_spec list" where
  "kPresets = [
  \<lparr>ps_preset = VLM_PRESET_SMOLDOCLING, ps_name = ''smoldocling'',
     ps_model = ''HuggingFaceTB/SmolDocling-256M-preview'',
     ps_prompt = ''Convert this page to docling.'',
     ps_format = RESPONSE_FORMAT_DOCTAGS, ps_stop = [''</doctag>'', ''<end_of_utterance>''], ps_max_tokens = 4096\<rparr>,
  \<lparr>ps_preset = VLM_PRESET_GRANITE_DOCLING, ps_name = ''granite-docling'',
     ps_model = ''ibm-granite/granite-docling-258M'',
     ps_prompt = ''Convert this page to DocTags.'',
     ps_format = RESPONSE_FORMAT_DOCTAGS, ps_stop = [''</doctag>'', ''<|end_of_text|>''], ps_max_tokens = 8192\<rparr>,
  \<lparr>ps_preset = VLM_PRESET_GOT_OCR_2, ps_name = ''got-ocr-2'',
     ps_model = ''stepfun-ai/GOT-OCR-2.0-hf'',
     ps_prompt = ''Convert this page to markdown.'',
     ps_format = RESPONSE_FORMAT_MARKDOWN, ps_stop = [], ps_max_tokens = 4096\<rparr>,
  \<lparr>ps_preset = VLM_PRESET_GRANITE_VISION, ps_name = ''granite-vision'',
     ps_model = ''ibm-granite/granite-vision-3.2-2b'',
     ps_prompt = ''Convert this page to markdown.'',
     ps_format = RESPONSE_FORMAT_MARKDOWN, ps_stop = [], ps_max_tokens = 4096\<rparr>,
  \<lparr>ps_preset = VLM_PRESET_DEEPSEEK_OCR, ps_name = ''deepseek-ocr'',
     ps_model = ''deepseek-ai/DeepSeek-OCR'',
     ps_prompt = ''Convert this document to markdown.'',
     ps_format = RESPONSE_FORMAT_MARKDOWN, ps_stop = [], ps_max_tokens = 4096\<rparr>,
  \<lparr>ps_preset = VLM_PRESET_NANONETS_OCR2, ps_name = ''nanonets-ocr2'',
     ps_model = ''nanonets/Nanonets-OCR2-3B'',
     ps_prompt = ''Extract the text from the above document as if you were reading it naturally.'',
     ps_format = RESPONSE_FORMAT_MARKDOWN, ps_stop = [], ps_max_tokens = 4096\<rparr>,
  \<lparr>ps_preset = VLM_PRESET_GLM_OCR, ps_name = ''glm-ocr'',
     ps_model = ''zai-org/GLM-OCR'',
     ps_prompt = ''Convert this page to markdown.'',
     ps_format = RESPONSE_FORMAT_MARKDOWN, ps_stop = [], ps_max_tokens = 4096\<rparr>,
  \<lparr>ps_preset = VLM_PRESET_LIGHTON_OCR, ps_name = ''lighton-ocr'',
     ps_model = ''lightonai/LightOnOCR-1B'',
     ps_prompt = ''Convert this page to markdown.'',
     ps_format = RESPONSE_FORMAT_MARKDOWN, ps_stop = [], ps_max_tokens = 4096\<rparr>,
  \<lparr>ps_preset = VLM_PRESET_NORTH_MICRO_VISION, ps_name = ''north-micro-vision'',
     ps_model = ''CohereLabs/North-Micro-Vision-Instruct'',
     ps_prompt = ''Convert this page to markdown. Keep the reading order, every heading, paragraph, list and table (tables as markdown tables), and transcribe the text exactly; do not summarize or describe.'',
     ps_format = RESPONSE_FORMAT_MARKDOWN, ps_stop = [], ps_max_tokens = 8192\<rparr>]"

definition find_preset :: "vlm_preset \<Rightarrow> preset_spec option" where
  "find_preset p = List.find (\<lambda>spec. ps_preset spec = p) kPresets"

definition find_preset_by_name :: "string \<Rightarrow> preset_spec option" where
  "find_preset_by_name name = List.find (\<lambda>spec. ps_name spec = name) kPresets"

section \<open>Resolving a request\<close>

record convert_options =
  opt_preset :: vlm_preset
  opt_preset_raw :: string
  opt_format :: response_format
  opt_prompt :: string
  opt_endpoint :: string
  opt_concurrency :: nat
  opt_abort_on_error :: bool
  opt_top_logprobs :: nat
  opt_format_raw :: string

record resolved =
  rs_model :: string
  rs_prompt :: string
  rs_format :: response_format
  rs_stop :: "string list"
  rs_max_tokens :: int

definition resolve_request :: "convert_options \<Rightarrow> resolved option" where
  "resolve_request opts =
     (let base =
        (if opt_preset opts = VLM_PRESET_RAW then
           (if opt_preset_raw opts = [] then None
            else Some \<lparr>rs_model = opt_preset_raw opts, rs_prompt = ''Convert this page to DocTags.'',
                       rs_format = RESPONSE_FORMAT_DOCTAGS, rs_stop = [], rs_max_tokens = 4096\<rparr>)
         else
           (let preset = (if opt_preset opts = VLM_PRESET_UNSPECIFIED then VLM_PRESET_GRANITE_DOCLING
                          else opt_preset opts)
            in map_option (\<lambda>spec. \<lparr>rs_model = ps_model spec, rs_prompt = ps_prompt spec,
                   rs_format = ps_format spec, rs_stop = ps_stop spec,
                   rs_max_tokens = ps_max_tokens spec\<rparr>) (find_preset preset)))
      in map_option (\<lambda>r.
           (let r = (if opt_preset_raw opts \<noteq> [] \<and> opt_preset opts \<noteq> VLM_PRESET_RAW
                     then r\<lparr>rs_model := opt_preset_raw opts\<rparr> else r);
                r = (if opt_prompt opts \<noteq> [] then r\<lparr>rs_prompt := opt_prompt opts\<rparr> else r)
            in if opt_format opts \<noteq> RESPONSE_FORMAT_UNSPECIFIED
               then r\<lparr>rs_format := opt_format opts\<rparr> else r)) base)"

section \<open>Docling's names of the formats\<close>

definition kFormatPrefix :: string where
  "kFormatPrefix = ''RESPONSE_FORMAT_''"

definition response_format_from_docling :: "string \<Rightarrow> response_format option" where
  "response_format_from_docling value =
     (if value = [] \<or> list_ex is_upper value then None
      else case format_parse (kFormatPrefix @ map to_upper value) of
        None \<Rightarrow> None
      | Some f \<Rightarrow> if f = RESPONSE_FORMAT_UNSPECIFIED then None else Some f)"

definition docling_response_format_name :: "response_format \<Rightarrow> string" where
  "docling_response_format_name f =
     (if f = RESPONSE_FORMAT_UNSPECIFIED \<or> \<not> format_is_valid f then []
      else map to_lower (drop 16 (format_name f)))"

definition response_format_served :: "response_format \<Rightarrow> bool" where
  "response_format_served f \<longleftrightarrow>
     format_is_valid f \<and> f \<noteq> RESPONSE_FORMAT_UNSPECIFIED \<and> f \<noteq> RESPONSE_FORMAT_MINERU2"

section \<open>Properties\<close>

lemma format_table: "list_all (\<lambda>(n, f). format_is_valid f \<and> format_name f = n) response_formats"
  by code_simp

lemma format_parse_name: "format_parse n = Some f \<Longrightarrow> format_is_valid f \<and> format_name f = n"
  unfolding format_parse_def using format_table by (auto simp: list_all_iff dest!: map_of_SomeD)

lemma to_lower_upper: "\<not> is_upper c \<Longrightarrow> to_lower (to_upper c) = c"
  by (auto simp: ctype_defs)

lemma to_upper_lower: "\<not> is_lower c \<Longrightarrow> to_upper (to_lower c) = c"
  by (auto simp: ctype_defs)

lemma lowered: "\<not> is_upper (to_lower c)"
  by (auto simp: ctype_defs)

lemma format_names:
  "list_all (\<lambda>(n, f). take 16 n = kFormatPrefix \<and> drop 16 n \<noteq> [] \<and> \<not> list_ex is_lower n
     \<and> format_parse n = Some f) response_formats"
  by code_simp

lemma docling_name_parse:
  assumes "f \<noteq> RESPONSE_FORMAT_UNSPECIFIED" and "format_is_valid f"
  shows "response_format_from_docling (docling_response_format_name f) = Some f"
proof -
  have "f \<in> snd ` set response_formats"
    using assms(2) by (cases f) (simp_all add: format_is_valid_def response_formats_def)
  then have "(format_name f, f) \<in> set response_formats"
    using format_table by (auto simp: list_all_iff)
  then have n: "take 16 (format_name f) = kFormatPrefix" "drop 16 (format_name f) \<noteq> []"
    "\<not> list_ex is_lower (format_name f)" "format_parse (format_name f) = Some f"
    using format_names by (auto simp: list_all_iff)
  let ?v = "drop 16 (format_name f)"
  have "\<not> is_lower c" if "c \<in> set ?v" for c
    using n(3) that in_set_dropD [of c 16] by (auto simp: list_ex_iff)
  then have "map to_upper (map to_lower ?v) = ?v"
    by (simp add: map_idI to_upper_lower)
  moreover have "\<not> list_ex is_upper (map to_lower ?v)" by (simp add: list_ex_iff lowered)
  moreover have "kFormatPrefix @ ?v = format_name f" using n(1) append_take_drop_id by metis
  ultimately show ?thesis
    using assms n by (simp add: response_format_from_docling_def docling_response_format_name_def)
qed

text \<open>
  Docling's string values and the response formats correspond one to one: a string is
  read as a format exactly when it is that format's name and the format is a listed one
  other than the unspecified one, so no misspelling, no upper-case spelling and no
  unlisted number is ever taken for a format.
\<close>

theorem format_name_round_trip:
  "response_format_from_docling value = Some f \<longleftrightarrow>
     f \<noteq> RESPONSE_FORMAT_UNSPECIFIED \<and> format_is_valid f \<and> docling_response_format_name f = value"
proof
  assume "response_format_from_docling value = Some f"
  then have f: "f \<noteq> RESPONSE_FORMAT_UNSPECIFIED" and v: "\<not> list_ex is_upper value"
    and p: "format_parse (kFormatPrefix @ map to_upper value) = Some f"
    by (auto simp: response_format_from_docling_def split: if_splits option.splits)
  from v have "map to_lower (map to_upper value) = value"
    by (induction "value") (auto simp: to_lower_upper)
  with f format_parse_name [OF p] show "f \<noteq> RESPONSE_FORMAT_UNSPECIFIED \<and> format_is_valid f
      \<and> docling_response_format_name f = value"
    by (simp add: docling_response_format_name_def kFormatPrefix_def)
qed (use docling_name_parse in auto)

lemma preset_table:
  "list_all (\<lambda>spec. ps_model spec \<noteq> [] \<and> ps_prompt spec \<noteq> [] \<and> 0 < ps_max_tokens spec
     \<and> response_format_served (ps_format spec)) kPresets"
  by (simp add: kPresets_def response_format_served_def format_is_valid_def)

lemma find_preset_known:
  "find_preset p = Some spec \<Longrightarrow>
     ps_preset spec = p \<and> ps_model spec \<noteq> [] \<and> ps_prompt spec \<noteq> [] \<and> 0 < ps_max_tokens spec
     \<and> response_format_served (ps_format spec)"
  using preset_table by (auto simp: find_preset_def find_Some_iff list_all_iff)

lemma find_preset_total:
  "find_preset p = None \<longleftrightarrow> p = VLM_PRESET_UNSPECIFIED \<or> p = VLM_PRESET_RAW \<or> (\<exists>n. p = VLM_PRESET_OTHER n)"
  unfolding find_preset_def kPresets_def by (cases p) auto

text \<open>
  What a request resolves to.  A request fails to resolve exactly when it asks for a
  raw model and names none, or names a preset number outside the list.  Otherwise its own
  model name, prompt and format win over the preset's, and it is never left without a
  model, a prompt or a token budget.
\<close>

theorem resolve_request_result:
  "(resolve_request opts = None \<longleftrightarrow>
      (opt_preset opts = VLM_PRESET_RAW \<and> opt_preset_raw opts = [])
      \<or> (\<exists>n. opt_preset opts = VLM_PRESET_OTHER n))
   \<and> (\<forall>r. resolve_request opts = Some r \<longrightarrow>
        rs_model r \<noteq> [] \<and> rs_prompt r \<noteq> [] \<and> 0 < rs_max_tokens r
        \<and> (opt_preset_raw opts \<noteq> [] \<longrightarrow> rs_model r = opt_preset_raw opts)
        \<and> (opt_prompt opts \<noteq> [] \<longrightarrow> rs_prompt r = opt_prompt opts)
        \<and> (opt_format opts \<noteq> RESPONSE_FORMAT_UNSPECIFIED \<longrightarrow> rs_format r = opt_format opts)
        \<and> (opt_format opts = RESPONSE_FORMAT_UNSPECIFIED \<longrightarrow> response_format_served (rs_format r)))"
proof (cases "opt_preset opts = VLM_PRESET_RAW")
  case True
  then show ?thesis
    by (auto simp: resolve_request_def Let_def response_format_served_def format_is_valid_def)
next
  case False
  let ?p = "if opt_preset opts = VLM_PRESET_UNSPECIFIED then VLM_PRESET_GRANITE_DOCLING else opt_preset opts"
  show ?thesis
  proof (cases "find_preset ?p")
    case None
    with False show ?thesis using find_preset_total [of ?p]
      by (auto simp: resolve_request_def Let_def split: if_splits)
  next
    case (Some spec)
    have "\<not> (\<exists>n. opt_preset opts = VLM_PRESET_OTHER n)"
      using Some find_preset_total [of ?p] by (auto split: if_splits)
    with Some False find_preset_known [OF Some] show ?thesis
      by (auto simp: resolve_request_def Let_def)
  qed
qed

definition sample_options :: convert_options where
  "sample_options = \<lparr>opt_preset = VLM_PRESET_UNSPECIFIED, opt_preset_raw = [],
     opt_format = RESPONSE_FORMAT_UNSPECIFIED, opt_prompt = ''Read it.'', opt_endpoint = [],
     opt_concurrency = 0, opt_abort_on_error = False, opt_top_logprobs = 0, opt_format_raw = []\<rparr>"

theorem resolve_request_result_witness:
  "\<exists>r. resolve_request sample_options = Some r \<and> rs_prompt r = ''Read it.''
     \<and> response_format_served (rs_format r)"
proof -
  have "resolve_request sample_options \<noteq> None"
    using resolve_request_result [of sample_options] by (simp add: sample_options_def)
  then obtain r where r: "resolve_request sample_options = Some r" by auto
  with resolve_request_result [of sample_options] show ?thesis by (simp add: sample_options_def)
qed

end
