(* ===== verification/Json.thy ===== *)
theory Json
  imports Complex_Main Prelude
begin

text \<open>
  JSON values as the program reads and builds them through nlohmann/json: integers that
  fit an unsigned 64-bit number, negative integers and floating-point numbers are told
  apart the way \<^verbatim>\<open>is_number_unsigned\<close> and \<^verbatim>\<open>is_number\<close> tell them apart, and an object is
  looked up by key.  Parsing and printing are the library's and stay parameters of the
  definitions that use them.

  A C++ \<^verbatim>\<open>double\<close> is a real number here; where the code computes with doubles the model
  rounds with a function \<open>rnd\<close>, an argument of the definitions, so what is shown holds
  for every rounding.
\<close>

datatype json =
    JNull
  | JBool bool
  | JUnsigned nat
  | JInteger int
  | JFloat real
  | JString string
  | JArray "json list"
  | JObject "(string \<times> json) list"

definition jfind :: "string \<Rightarrow> json \<Rightarrow> json option" where
  "jfind key j = (case j of JObject members \<Rightarrow> map_of members key | _ \<Rightarrow> None)"

definition jstring :: "json option \<Rightarrow> string option" where
  "jstring j = (case j of Some (JString s) \<Rightarrow> Some s | _ \<Rightarrow> None)"

definition junsigned :: "json option \<Rightarrow> nat option" where
  "junsigned j = (case j of Some (JUnsigned n) \<Rightarrow> Some n | _ \<Rightarrow> None)"

definition jarray :: "json option \<Rightarrow> json list option" where
  "jarray j = (case j of Some (JArray xs) \<Rightarrow> Some xs | _ \<Rightarrow> None)"

definition is_jobject :: "json \<Rightarrow> bool" where
  "is_jobject j = (case j of JObject _ \<Rightarrow> True | _ \<Rightarrow> False)"

text \<open>\<^verbatim>\<open>get<double>()\<close> of any of the three kinds of number.\<close>

definition jdouble :: "(real \<Rightarrow> real) \<Rightarrow> json option \<Rightarrow> real option" where
  "jdouble rnd j =
     (case j of
        Some (JUnsigned n) \<Rightarrow> Some (rnd (of_nat n))
      | Some (JInteger i) \<Rightarrow> Some (rnd (of_int i))
      | Some (JFloat x) \<Rightarrow> Some x
      | _ \<Rightarrow> None)"

lemmas json_defs = jfind_def jstring_def junsigned_def jarray_def is_jobject_def jdouble_def

lemma jstring_Some: "jstring j = Some s \<longleftrightarrow> j = Some (JString s)"
  by (auto simp: jstring_def split: option.splits json.splits)

lemma jarray_Some: "jarray j = Some xs \<longleftrightarrow> j = Some (JArray xs)"
  by (auto simp: jarray_def split: option.splits json.splits)

lemma jfind_object: "jfind key j = Some v \<Longrightarrow> is_jobject j"
  by (auto simp: jfind_def is_jobject_def split: json.splits)

end
