(* ===== verification/Base64.thy ===== *)
theory Base64
  imports Secret
begin

unbundle bit_operations_syntax

text \<open>
  \<^verbatim>\<open>base64_encode\<close> of \<^verbatim>\<open>src/vlm_client.cpp\<close> (and its twin in
  \<^verbatim>\<open>src/mapping/image_crop.cpp\<close>): three bytes at a time through a 32-bit group.  The
  reference decoder at the end is the RFC 4648 reading of the alphabet; it is what the
  endpoint and every reader of a data URL does with the text.
\<close>

definition kAlphabet :: string where
  "kAlphabet = ''ABCDEFGHIJKLMNOPQRSTUVWXYZabcdefghijklmnopqrstuvwxyz0123456789+/''"

definition group_byte :: "char \<Rightarrow> u32" where
  "group_byte c = ucast (byte c)"

definition sextet :: "nat \<Rightarrow> u32 \<Rightarrow> char" where
  "sextet shift grp = kAlphabet ! unat (drop_bit shift grp AND 63)"

fun base64_encode :: "string \<Rightarrow> string" where
  "base64_encode [] = []"
| "base64_encode [a] =
     (let grp = push_bit 16 (group_byte a)
      in [sextet 18 grp, sextet 12 grp, CHR ''='', CHR ''=''])"
| "base64_encode [a, b] =
     (let grp = push_bit 16 (group_byte a) OR push_bit 8 (group_byte b)
      in [sextet 18 grp, sextet 12 grp, sextet 6 grp, CHR ''=''])"
| "base64_encode (a # b # c # rest) =
     (let grp = push_bit 16 (group_byte a) OR push_bit 8 (group_byte b) OR group_byte c
      in sextet 18 grp # sextet 12 grp # sextet 6 grp # sextet 0 grp # base64_encode rest)"

section \<open>Reference decoder\<close>

fun position :: "char \<Rightarrow> string \<Rightarrow> nat option" where
  "position c [] = None"
| "position c (x # xs) = (if x = c then Some 0 else map_option Suc (position c xs))"

definition value64 :: "char \<Rightarrow> u32 option" where
  "value64 c = map_option of_nat (position c kAlphabet)"

definition char_at :: "nat \<Rightarrow> u32 \<Rightarrow> char" where
  "char_at shift grp = char_of (unat (ucast (drop_bit shift grp) :: u8))"

fun base64_decode :: "string \<Rightarrow> string option" where
  "base64_decode [] = Some []"
| "base64_decode (p # q # r # s # rest) =
     (case (value64 p, value64 q) of
        (Some x, Some y) \<Rightarrow>
          (let high = push_bit 18 x OR push_bit 12 y
           in if r = CHR ''='' then
                (if s = CHR ''='' \<and> rest = [] then Some [char_at 16 high] else None)
              else case value64 r of
                None \<Rightarrow> None
              | Some z \<Rightarrow>
                  (if s = CHR ''='' then
                     (if rest = []
                      then Some [char_at 16 (high OR push_bit 6 z), char_at 8 (high OR push_bit 6 z)]
                      else None)
                   else case value64 s of
                     None \<Rightarrow> None
                   | Some t \<Rightarrow>
                       (let grp = high OR push_bit 6 z OR t
                        in map_option (\<lambda>out. char_at 16 grp # char_at 8 grp # char_at 0 grp # out)
                             (base64_decode rest))))
      | _ \<Rightarrow> None)"
| "base64_decode _ = None"

section \<open>Correctness\<close>

lemma length_kAlphabet: "length kAlphabet = 64"
  by (simp add: kAlphabet_def)

lemma distinct_kAlphabet: "distinct kAlphabet"
  by (simp add: kAlphabet_def)

lemma position_nth: "distinct xs \<Longrightarrow> i < length xs \<Longrightarrow> position (xs ! i) xs = Some i"
proof (induction xs arbitrary: i)
  case (Cons x xs)
  then show ?case by (cases i) (auto simp: nth_mem)
qed simp

lemma sextet_index: "unat (x AND 63 :: u32) < 64"
proof -
  have "unat (x AND 63 :: u32) \<le> unat (63 :: u32)"
    by (rule word_le_nat_alt [THEN iffD1]) (rule word_and_le1)
  then show ?thesis by simp
qed

lemma low_sextet: "(x AND 63 :: u32) = take_bit 6 x"
  by (simp add: take_bit_eq_mask mask_eq_exp_minus_1)

lemma value64_sextet: "value64 (sextet shift grp) = Some (take_bit 6 (drop_bit shift grp))"
  unfolding value64_def sextet_def
  by (simp add: position_nth [OF distinct_kAlphabet] sextet_index length_kAlphabet)
    (simp add: low_sextet)

lemma sextet_not_pad: "sextet shift grp \<noteq> CHR ''=''"
proof -
  have "sextet shift grp \<in> set kAlphabet"
    unfolding sextet_def by (intro nth_mem) (simp add: sextet_index length_kAlphabet)
  moreover have "CHR ''='' \<notin> set kAlphabet" by (simp add: kAlphabet_def)
  ultimately show ?thesis by metis
qed

lemma byte_char: "char_of (unat (byte c)) = c"
  by (simp add: byte_def unat_of_nat code_def)

lemma group_byte_bit: "bit (group_byte c) n \<longleftrightarrow> bit (byte c) n"
  unfolding group_byte_def using bit_imp_le_length [of "byte c" n] by (auto simp: bit_simps)

lemma char_at_byte:
  "(\<And>n. n < 8 \<Longrightarrow> bit grp (shift + n) \<longleftrightarrow> bit (byte c) n) \<Longrightarrow> char_at shift grp = c"
proof -
  assume b: "\<And>n. n < 8 \<Longrightarrow> bit grp (shift + n) \<longleftrightarrow> bit (byte c) n"
  have "(ucast (drop_bit shift grp) :: u8) = byte c"
    by (rule bit_word_eqI) (simp add: bit_simps b)
  then show ?thesis by (simp add: char_at_def byte_char)
qed

lemma byte_bit_high: "8 \<le> n \<Longrightarrow> \<not> bit (byte c) n"
  using bit_imp_le_length [of "byte c" n] by auto

definition high_bits :: "u32 \<Rightarrow> u32" where
  "high_bits g = push_bit 18 (take_bit 6 (drop_bit 18 g)) OR push_bit 12 (take_bit 6 (drop_bit 12 g))"

definition mid_bits :: "u32 \<Rightarrow> u32" where
  "mid_bits g = high_bits g OR push_bit 6 (take_bit 6 (drop_bit 6 g))"

lemma bit_high_bits: "bit (high_bits g) m \<longleftrightarrow> 12 \<le> m \<and> m < 24 \<and> bit g m"
proof -
  have "bit (push_bit 18 (take_bit 6 (drop_bit 18 g))) m \<longleftrightarrow> 18 \<le> m \<and> m < 24 \<and> bit g m"
    by (cases "18 \<le> m") (auto simp: bit_simps)
  moreover have "bit (push_bit 12 (take_bit 6 (drop_bit 12 g))) m \<longleftrightarrow> 12 \<le> m \<and> m < 18 \<and> bit g m"
    by (cases "12 \<le> m") (auto simp: bit_simps)
  ultimately show ?thesis unfolding high_bits_def bit_or_iff by auto
qed

lemma bit_mid_bits: "bit (mid_bits g) m \<longleftrightarrow> 6 \<le> m \<and> m < 24 \<and> bit g m"
proof -
  have "bit (push_bit 6 (take_bit 6 (drop_bit 6 g))) m \<longleftrightarrow> 6 \<le> m \<and> m < 12 \<and> bit g m"
    by (cases "6 \<le> m") (auto simp: bit_simps)
  then show ?thesis unfolding mid_bits_def bit_or_iff bit_high_bits by auto
qed

definition all_bits :: "u32 \<Rightarrow> u32" where
  "all_bits g = high_bits g OR push_bit 6 (take_bit 6 (drop_bit 6 g)) OR take_bit 6 (drop_bit 0 g)"

lemma bit_all_bits: "bit (all_bits g) m \<longleftrightarrow> m < 24 \<and> bit g m"
proof -
  have "all_bits g = mid_bits g OR take_bit 6 (drop_bit 0 g)"
    by (simp add: all_bits_def mid_bits_def or.assoc)
  then show ?thesis by (auto simp: bit_or_iff bit_mid_bits bit_take_bit_iff)
qed

lemmas group_bits = bit_high_bits bit_mid_bits bit_all_bits bit_or_iff bit_push_bit_iff
  group_byte_bit byte_bit_high

lemma base64_decode_encode: "base64_decode (base64_encode bytes) = Some bytes"
proof (induction bytes rule: base64_encode.induct)
  case 1
  then show ?case by simp
next
  case (2 a)
  have "char_at 16 (high_bits (push_bit 16 (group_byte a))) = a"
    by (rule char_at_byte) (simp add: group_bits)
  then show ?case
    by (simp only: base64_encode.simps base64_decode.simps Let_def value64_sextet
        high_bits_def [symmetric] option.case prod.case) simp
next
  case (3 a b)
  let ?g = "push_bit 16 (group_byte a) OR push_bit 8 (group_byte b)"
  have "char_at 16 (mid_bits ?g) = a" and "char_at 8 (mid_bits ?g) = b"
    by (rule char_at_byte, simp add: group_bits)+
  then show ?case
    by (simp only: base64_encode.simps base64_decode.simps Let_def value64_sextet
        high_bits_def [symmetric] mid_bits_def [symmetric] option.case prod.case)
      (simp add: sextet_not_pad)
next
  case (4 a b c rest)
  let ?g = "push_bit 16 (group_byte a) OR push_bit 8 (group_byte b) OR group_byte c"
  have "char_at 16 (all_bits ?g) = a" and "char_at 8 (all_bits ?g) = b" and "char_at 0 (all_bits ?g) = c"
    by (rule char_at_byte, simp only: bit_all_bits, simp add: group_bits)+
  with 4 show ?case
    by (simp only: base64_encode.simps base64_decode.simps Let_def value64_sextet
        high_bits_def [symmetric] all_bits_def [symmetric] option.case prod.case
        sextet_not_pad if_False option.map)
qed

lemma base64_length: "length (base64_encode bytes) = (length bytes + 2) div 3 * 4"
proof (induction bytes rule: base64_encode.induct)
  case (4 a b c rest)
  have "(length (a # b # c # rest) + 2) div 3 = Suc ((length rest + 2) div 3)"
    using div_add_self2 [of 3 "length rest + 2"] by simp
  with 4 show ?case by (simp add: Let_def)
qed (simp_all add: Let_def)

text \<open>
  C40: the text that carries a page to the model, or a picture into a document, is four
  characters for every three bytes begun, and decoding it by RFC 4648 gives back exactly
  the bytes: no page is altered on its way to the endpoint.
\<close>

theorem base64_round_trip:
  "base64_decode (base64_encode bytes) = Some bytes
   \<and> length (base64_encode bytes) = (length bytes + 2) div 3 * 4"
  by (simp add: base64_decode_encode base64_length)

end
