(* ===== verification/Vlm_Client.thy ===== *)
theory Vlm_Client
  imports Json Secret Endpoint Base64
begin

text \<open>
  The client of \<^verbatim>\<open>src/vlm_client.cpp\<close> and \<^verbatim>\<open>src/vlm_client.h\<close>: one chat completion for
  one page, with its call budget, its cancel probe and its retries.

  What the call sees of the world is an argument.  A \<open>world\<close> says, for attempt \<open>r\<close> and
  each place where the code asks its guard, what the watchdog and the upload hook saw on
  the way there (\<open>others\<close>, any number of looks), what the call itself sees (\<open>own\<close>), and
  what the HTTP library answers to the request (\<open>answer\<close>).  \<open>clock\<close> is the time the
  attempt reads for its timeouts, \<open>start\<close> the time the budget starts, \<open>early_probe\<close> the
  probe's first answer.  Times are in nanoseconds.
  The requests that leave the process are the second component of the result.
\<close>

section \<open>Calls and results\<close>

record vlm_call =
  vc_endpoint :: string
  vc_model :: string
  vc_prompt :: string
  vc_stop :: "string list"
  vc_max_tokens :: int
  vc_top_logprobs :: int
  vc_logprobs :: bool
  vc_png :: string
  vc_timeout_seconds :: int
  vc_api_key :: secret
  vc_has_probe :: bool

record token_alternative =
  alt_token :: string
  alt_logprob :: "real option"

record vlm_result =
  vr_ok :: bool
  vr_text :: string
  vr_error :: string
  vr_cancelled :: bool
  vr_has_logprobs :: bool
  vr_mean_logprob :: real
  vr_scored_tokens :: nat
  vr_alternatives :: "token_alternative list"
  vr_finish_reason :: string
  vr_model :: string
  vr_has_usage :: bool
  vr_prompt_tokens :: nat
  vr_completion_tokens :: nat

definition empty_result :: vlm_result where
  "empty_result = \<lparr>vr_ok = False, vr_text = [], vr_error = [], vr_cancelled = False,
     vr_has_logprobs = False, vr_mean_logprob = 0, vr_scored_tokens = 0, vr_alternatives = [],
     vr_finish_reason = [], vr_model = [], vr_has_usage = False, vr_prompt_tokens = 0,
     vr_completion_tokens = 0\<rparr>"

definition failed_result :: "string \<Rightarrow> vlm_result" where
  "failed_result e = empty_result\<lparr>vr_error := e\<rparr>"

section \<open>The retry policy\<close>

definition kMaxRetries :: nat where
  "kMaxRetries = 5"

definition retryable_status :: "int \<Rightarrow> bool" where
  "retryable_status status \<longleftrightarrow>
     status = 429 \<or> status = 500 \<or> status = 502 \<or> status = 503 \<or> status = 504"

text \<open>The transport errors of the HTTP library the code tells apart.\<close>

datatype transport_error = Connection | ConnectionTimeout | OtherTransport nat

definition retryable_transport :: "transport_error \<Rightarrow> bool" where
  "retryable_transport e \<longleftrightarrow> e = Connection \<or> e = ConnectionTimeout"

datatype response = NoAnswer transport_error | Answer int string

definition is_200 :: "response \<Rightarrow> bool" where
  "is_200 r = (case r of Answer status _ \<Rightarrow> status = 200 | NoAnswer _ \<Rightarrow> False)"

definition retryable :: "response \<Rightarrow> bool" where
  "retryable r = (case r of Answer status _ \<Rightarrow> retryable_status status
                          | NoAnswer e \<Rightarrow> retryable_transport e)"

text \<open>The delay of the k-th retry, a left shift of a signed 64-bit number.\<close>

definition backoff_ms :: "int \<Rightarrow> nat \<Rightarrow> int" where
  "backoff_ms base retries = signed_take_bit 63 (base * 2 ^ (retries - 1))"

section \<open>The call guard\<close>

record observation =
  probe :: bool
  now :: int

record guard =
  g_has_probe :: bool
  g_deadline :: int
  g_tripped :: bool
  g_by_caller :: bool

definition new_guard :: "bool \<Rightarrow> int \<Rightarrow> guard" where
  "new_guard has_probe deadline =
     \<lparr>g_has_probe = has_probe, g_deadline = deadline, g_tripped = False, g_by_caller = False\<rparr>"

definition tripped :: "observation \<Rightarrow> guard \<Rightarrow> bool \<times> guard" where
  "tripped ob g =
     (if g_tripped g then (True, g)
      else if g_has_probe g \<and> probe ob then (True, g\<lparr>g_by_caller := True, g_tripped := True\<rparr>)
      else if g_deadline g \<le> now ob then (True, g\<lparr>g_tripped := True\<rparr>)
      else (False, g))"

definition remaining_ms :: "int \<Rightarrow> guard \<Rightarrow> int" where
  "remaining_ms time g = max ((g_deadline g - time) div 1000000) 0"

definition kWatchInterval :: int where
  "kWatchInterval = 50 * 1000000"

text \<open>
  One turn of the watchdog thread: it looks, wakes a backoff sleep when its look is the
  one that trips the call, shuts the attempt in flight down once the call has tripped,
  and says when it looks again (\<open>later\<close> is the clock after the look).
\<close>

record watch_turn =
  wt_wakes :: bool
  wt_stops :: bool
  wt_next :: int
  wt_guard :: guard

definition watchdog_turn :: "observation \<Rightarrow> int \<Rightarrow> bool \<Rightarrow> guard \<Rightarrow> watch_turn" where
  "watchdog_turn ob later in_flight g =
     (let (t, g') = tripped ob g
      in \<lparr>wt_wakes = (t \<and> \<not> g_tripped g),
          wt_stops = (t \<and> in_flight),
          wt_next = (if g_tripped g' then later + kWatchInterval
                     else if g_has_probe g' then min (g_deadline g') (later + kWatchInterval)
                     else g_deadline g'),
          wt_guard = g'\<rparr>)"

datatype site = AtTop | AtWatch | AtAnswer | AtSleep | AtEnd

record world =
  early_probe :: bool
  start :: int
  backoff_base_ms :: int
  client_valid :: "string \<Rightarrow> bool"
  clock :: "nat \<Rightarrow> int"
  others :: "nat \<Rightarrow> site \<Rightarrow> observation list"
  own :: "nat \<Rightarrow> site \<Rightarrow> observation"
  answer :: "nat \<Rightarrow> response"

definition look :: "world \<Rightarrow> nat \<Rightarrow> site \<Rightarrow> guard \<Rightarrow> bool \<times> guard" where
  "look w r s g = tripped (own w r s) (fold (\<lambda>ob g. snd (tripped ob g)) (others w r s) g)"

section \<open>The request\<close>

definition request_body :: "vlm_call \<Rightarrow> json" where
  "request_body call = JObject
     ([(''model'', JString (vc_model call)),
       (''messages'', JArray [JObject
          [(''role'', JString ''user''),
           (''content'', JArray
              [JObject [(''type'', JString ''text''), (''text'', JString (vc_prompt call))],
               JObject [(''type'', JString ''image_url''),
                        (''image_url'', JObject
                           [(''url'', JString (''data:image/png;base64,''
                                                @ base64_encode (vc_png call)))])]])]]),
       (''max_tokens'', JInteger (vc_max_tokens call))]
      @ (if vc_logprobs call \<or> 0 < vc_top_logprobs call then [(''logprobs'', JBool True)] else [])
      @ (if vc_stop call \<noteq> [] then [(''stop'', JArray (map JString (vc_stop call)))] else [])
      @ (if 0 < vc_top_logprobs call then [(''top_logprobs'', JInteger (vc_top_logprobs call))]
         else []))"

definition request_headers :: "vlm_call \<Rightarrow> (string \<times> string) list" where
  "request_headers call =
     (if secret_empty (vc_api_key call) then []
      else [(''Authorization'', ''Bearer '' @ reveal (vc_api_key call))])"

definition kTimeoutSlack_ms :: int where
  "kTimeoutSlack_ms = 200"

definition kConnectTimeout_ms :: int where
  "kConnectTimeout_ms = 10000"

record request =
  rq_origin :: string
  rq_target :: string
  rq_headers :: "(string \<times> string) list"
  rq_payload :: string
  rq_connect_ms :: int
  rq_read_ms :: int
  rq_write_ms :: int
  rq_max_ms :: int

definition make_request :: "parsed_endpoint \<Rightarrow> (string \<times> string) list \<Rightarrow> string \<Rightarrow> int \<Rightarrow> request" where
  "make_request where_to headers payload left_ms =
     (let lim = left_ms + kTimeoutSlack_ms
      in \<lparr>rq_origin = origin where_to, rq_target = target where_to, rq_headers = headers,
          rq_payload = payload, rq_connect_ms = min lim kConnectTimeout_ms, rq_read_ms = lim,
          rq_write_ms = lim, rq_max_ms = lim\<rparr>)"

section \<open>The attempts\<close>

text \<open>
  One turn of the loop, with \<open>r\<close> retries behind it and \<open>prior\<close> the response so far: it
  breaks out with the guard, the retry count, the response and the request it sent, it
  finds the HTTP client unusable, or it goes round again.
\<close>

datatype turn =
    Break guard nat "response option" "request list"
  | Unusable "request list"
  | Again guard response request

definition attempt :: "world \<Rightarrow> (int \<Rightarrow> request) \<Rightarrow> bool \<Rightarrow> nat \<Rightarrow> guard \<Rightarrow> response option \<Rightarrow> turn" where
  "attempt w mk valid r g prior =
     (let (t1, g1) = look w r AtTop g
      in if t1 then Break g1 r prior []
         else if \<not> valid then Unusable []
         else
           (let rq = mk (remaining_ms (clock w r) g1); (t2, g2) = look w r AtWatch g1
            in if t2 then Break g2 r prior []
               else if is_200 (answer w r) then Break g2 r (Some (answer w r)) [rq]
               else
                 (let (t3, g3) = look w r AtAnswer g2
                  in if t3 then Break g3 r (Some (answer w r)) [rq]
                     else if \<not> retryable (answer w r) \<or> r = kMaxRetries
                     then Break g3 r (Some (answer w r)) [rq]
                     else if 0 < backoff_ms (backoff_base_ms w) (r + 1)
                     then (let (t4, g4) = look w r AtSleep g3
                           in if t4 then Break g4 (r + 1) (Some (answer w r)) [rq]
                              else Again g4 (answer w r) rq)
                     else Again g3 (answer w r) rq)))"

text \<open>The loop; \<open>left\<close> is how many retries the policy has left.\<close>

primrec attempts ::
  "nat \<Rightarrow> world \<Rightarrow> (int \<Rightarrow> request) \<Rightarrow> bool \<Rightarrow> guard \<Rightarrow> response option \<Rightarrow> turn" where
  "attempts 0 w mk valid g prior = attempt w mk valid kMaxRetries g prior"
| "attempts (Suc left) w mk valid g prior =
     (case attempt w mk valid (kMaxRetries - Suc left) g prior of
        Again g' rs rq \<Rightarrow>
          (case attempts left w mk valid g' (Some rs) of
             Break g'' r rs' sent \<Rightarrow> Break g'' r rs' (rq # sent)
           | Unusable sent \<Rightarrow> Unusable (rq # sent)
           | other \<Rightarrow> other)
      | other \<Rightarrow> other)"

section \<open>The answer\<close>

definition completion_content :: "json \<Rightarrow> (json \<times> string) option" where
  "completion_content parsed =
     (case jarray (jfind ''choices'' parsed) of
        Some (first # _) \<Rightarrow>
          (case jfind ''message'' first of
             Some message \<Rightarrow> map_option (Pair first) (jstring (jfind ''content'' message))
           | None \<Rightarrow> None)
      | _ \<Rightarrow> None)"

definition alternative_of :: "(real \<Rightarrow> real) \<Rightarrow> json \<Rightarrow> token_alternative list" where
  "alternative_of rnd alternate =
     (case jstring (jfind ''token'' alternate) of
        None \<Rightarrow> []
      | Some t \<Rightarrow> [\<lparr>alt_token = t, alt_logprob = jdouble rnd (jfind ''logprob'' alternate)\<rparr>])"

text \<open>The loop over the scored tokens: the running sum, the count and the alternates.\<close>

definition score_token ::
  "(real \<Rightarrow> real) \<Rightarrow> json \<Rightarrow> real \<times> nat \<times> token_alternative list \<Rightarrow> real \<times> nat \<times> token_alternative list" where
  "score_token rnd token so_far =
     (case so_far of (acc_sum, count, alts) \<Rightarrow>
        (let (acc_sum', count') = (case jdouble rnd (jfind ''logprob'' token) of
                                 Some x \<Rightarrow> (rnd (acc_sum + x), count + 1)
                               | None \<Rightarrow> (acc_sum, count))
         in (acc_sum', count',
             alts @ (case jarray (jfind ''top_logprobs'' token) of
                       None \<Rightarrow> []
                     | Some tops \<Rightarrow> concat (map (alternative_of rnd) tops)))))"

definition add_logprobs :: "(real \<Rightarrow> real) \<Rightarrow> json \<Rightarrow> vlm_result \<Rightarrow> vlm_result" where
  "add_logprobs rnd first result =
     (case jfind ''logprobs'' first of
        None \<Rightarrow> result
      | Some lp \<Rightarrow>
          (case jarray (jfind ''content'' lp) of
             Some (t # ts) \<Rightarrow>
               (let (acc_sum, count, alts) = fold (score_token rnd) (t # ts) (0, 0, []);
                    result = result\<lparr>vr_alternatives := alts\<rparr>
                in if 0 < count
                   then result\<lparr>vr_has_logprobs := True,
                          vr_mean_logprob := rnd (acc_sum / rnd (of_nat count)),
                          vr_scored_tokens := count\<rparr>
                   else result)
           | _ \<Rightarrow> result))"

definition add_usage :: "json \<Rightarrow> vlm_result \<Rightarrow> vlm_result" where
  "add_usage parsed result =
     (case jfind ''usage'' parsed of
        None \<Rightarrow> result
      | Some usage \<Rightarrow>
          (let result = (case junsigned (jfind ''prompt_tokens'' usage) of
                           None \<Rightarrow> result
                         | Some n \<Rightarrow> result\<lparr>vr_prompt_tokens := n, vr_has_usage := True\<rparr>)
           in case junsigned (jfind ''completion_tokens'' usage) of
                None \<Rightarrow> result
              | Some n \<Rightarrow> result\<lparr>vr_completion_tokens := n, vr_has_usage := True\<rparr>))"

definition read_completion :: "(real \<Rightarrow> real) \<Rightarrow> json option \<Rightarrow> vlm_result" where
  "read_completion rnd body =
     (case body of
        None \<Rightarrow> failed_result ''endpoint returned non-JSON body''
      | Some parsed \<Rightarrow>
          if \<not> is_jobject parsed
          then failed_result ''endpoint returned JSON that is not a chat completion object''
          else case completion_content parsed of
            None \<Rightarrow> failed_result ''chat completion has no message content''
          | Some (first, content) \<Rightarrow>
              (let result = empty_result\<lparr>
                     vr_text := content,
                     vr_finish_reason := case_option [] id (jstring (jfind ''finish_reason'' first)),
                     vr_model := case_option [] id (jstring (jfind ''model'' parsed))\<rparr>
               in (add_logprobs rnd first (add_usage parsed result))\<lparr>vr_ok := True\<rparr>))"

section \<open>The call\<close>

definition after_attempts :: "nat \<Rightarrow> string" where
  "after_attempts retries =
     (if 0 < retries then '' after '' @ show_nat (retries + 1) @ '' attempts'' else [])"

definition tripped_result :: "vlm_call \<Rightarrow> guard \<Rightarrow> nat \<Rightarrow> vlm_result" where
  "tripped_result call g retries =
     (if g_by_caller g then failed_result ''VLM call cancelled''\<lparr>vr_cancelled := True\<rparr>
      else failed_result (''VLM call exceeded its '' @ show_int (vc_timeout_seconds call)
             @ '' s budget'' @ after_attempts retries))"

definition finish_call ::
  "(real \<Rightarrow> real) \<Rightarrow> (string \<Rightarrow> json option) \<Rightarrow> world \<Rightarrow> vlm_call \<Rightarrow> string
     \<Rightarrow> guard \<Rightarrow> nat \<Rightarrow> response option \<Rightarrow> vlm_result" where
  "finish_call rnd parse_json w call shown g retries rs =
     (case rs of
        Some (Answer status body) \<Rightarrow>
          (if status = 200 then read_completion rnd (parse_json body)
           else case look w retries AtEnd g of
             (True, g') \<Rightarrow> tripped_result call g' retries
           | (False, _) \<Rightarrow> failed_result (''endpoint returned HTTP '' @ show_int status
                             @ after_attempts retries))
      | _ \<Rightarrow>
          (case look w retries AtEnd g of
             (True, g') \<Rightarrow> tripped_result call g' retries
           | (False, _) \<Rightarrow> failed_result (''endpoint unreachable: '' @ shown)))"

text \<open>
  The call; the third branch of the last case is there for totality only: the loop never
  ends by going round again (\<open>attempts_ends\<close> below).
\<close>

definition generate ::
  "(real \<Rightarrow> real) \<Rightarrow> (json \<Rightarrow> string) \<Rightarrow> (string \<Rightarrow> json option) \<Rightarrow> world \<Rightarrow> vlm_call
     \<Rightarrow> vlm_result \<times> request list" where
  "generate rnd dump parse_json w call =
     (case parse_endpoint (vc_endpoint call) of
        Inl problem \<Rightarrow> (failed_result problem, [])
      | Inr where_to \<Rightarrow>
          if vc_has_probe call \<and> early_probe w
          then (failed_result ''VLM call cancelled before it started''\<lparr>vr_cancelled := True\<rparr>, [])
          else
            (let mk = make_request where_to (request_headers call) (dump (request_body call));
                 g = new_guard (vc_has_probe call)
                       (start w + max (vc_timeout_seconds call) 0 * 10 ^ 9)
             in case attempts kMaxRetries w mk (client_valid w (origin where_to)) g None of
                  Break g' retries rs sent \<Rightarrow>
                    (finish_call rnd parse_json w call (origin where_to) g' retries rs, sent)
                | Unusable sent \<Rightarrow>
                    (failed_result (''endpoint is not usable: '' @ origin where_to), sent)
                | Again _ _ rq \<Rightarrow> (empty_result, [rq])))"

section \<open>The guard is sticky\<close>

text \<open>
  What the loop relies on: a guard that has tripped stays as it is and keeps saying so,
  and a guard that says no has not changed.
\<close>

locale sticky_guard =
  fixes ask :: "'o \<Rightarrow> 'g \<Rightarrow> bool \<times> 'g" and flag :: "'g \<Rightarrow> bool" and trips :: "'g \<Rightarrow> 'o \<Rightarrow> bool"
  assumes ask_stuck: "flag g \<Longrightarrow> ask ob g = (True, g)"
    and ask_clear: "\<not> flag g \<Longrightarrow> \<not> trips g ob \<Longrightarrow> ask ob g = (False, g)"
    and ask_trip: "\<not> flag g \<Longrightarrow> trips g ob \<Longrightarrow> fst (ask ob g) \<and> flag (snd (ask ob g))"
begin

lemma ask_says: "fst (ask ob g) = flag (snd (ask ob g))"
  using ask_stuck ask_clear ask_trip by (metis fst_conv snd_conv)

lemma looks_stuck: "flag g \<Longrightarrow> fold (\<lambda>ob g. snd (ask ob g)) obs g = g"
  by (induction obs) (simp_all add: ask_stuck)

lemma looks_clear:
  "\<not> flag (fold (\<lambda>ob g. snd (ask ob g)) obs g) \<longleftrightarrow> \<not> flag g \<and> (\<forall>ob \<in> set obs. \<not> trips g ob)"
proof (induction obs arbitrary: g)
  case (Cons ob obs)
  show ?case
  proof (cases "flag g \<or> trips g ob")
    case True
    then have "flag (snd (ask ob g))" using ask_stuck ask_trip by (metis snd_conv)
    with True show ?thesis by (auto simp: looks_stuck)
  next
    case False
    then have "snd (ask ob g) = g" by (simp add: ask_clear)
    with False Cons show ?thesis by simp
  qed
qed simp

lemma looks_clear_same:
  "\<not> flag (fold (\<lambda>ob g. snd (ask ob g)) obs g) \<Longrightarrow> fold (\<lambda>ob g. snd (ask ob g)) obs g = g"
proof (induction obs arbitrary: g)
  case (Cons ob obs)
  from Cons.prems have "\<not> flag g" "\<not> trips g ob" unfolding looks_clear by auto
  then have "snd (ask ob g) = g" by (simp add: ask_clear)
  with Cons show ?case by simp
qed simp

end

definition trips :: "guard \<Rightarrow> observation \<Rightarrow> bool" where
  "trips g ob \<longleftrightarrow> g_has_probe g \<and> probe ob \<or> g_deadline g \<le> now ob"

interpretation cg: sticky_guard tripped g_tripped trips
  by unfold_locales (auto simp: tripped_def trips_def)

definition quiet :: "world \<Rightarrow> guard \<Rightarrow> nat \<Rightarrow> site \<Rightarrow> bool" where
  "quiet w g r s \<longleftrightarrow> list_all (\<lambda>ob. \<not> trips g ob) (others w r s) \<and> \<not> trips g (own w r s)"

lemma look_False:
  assumes "look w r s g = (False, g')"
  shows "g' = g \<and> \<not> g_tripped g \<and> quiet w g r s"
proof -
  let ?g = "fold (\<lambda>ob g. snd (tripped ob g)) (others w r s) g"
  have t: "tripped (own w r s) ?g = (False, g')" using assms by (simp add: look_def)
  then have "\<not> g_tripped ?g" "\<not> trips ?g (own w r s)"
    using cg.ask_stuck [of ?g "own w r s"] cg.ask_trip [of ?g "own w r s"] by auto
  moreover from this(1) have "?g = g" by (rule cg.looks_clear_same)
  moreover have "tripped (own w r s) ?g = (False, ?g)"
    using calculation by (intro cg.ask_clear) auto
  ultimately show ?thesis
    using t cg.looks_clear [of "others w r s" g] by (auto simp: quiet_def list_all_iff)
qed

lemma look_says: "look w r s g = (t, g') \<Longrightarrow> t = g_tripped g'"
  using cg.ask_says [of "own w r s"] unfolding look_def by (metis fst_conv snd_conv)

section \<open>The loop\<close>


lemma attempt_Again:
  assumes "attempt w mk valid r g prior = Again g' rs rq"
  shows "g' = g \<and> rs = answer w r \<and> rq = mk (remaining_ms (clock w r) g) \<and> retryable rs
    \<and> r \<noteq> kMaxRetries \<and> quiet w g r AtTop \<and> quiet w g r AtWatch \<and> quiet w g r AtAnswer"
  using assms unfolding attempt_def
  by (auto simp: Let_def split: prod.splits if_splits dest!: look_False)

lemma attempt_Break:
  assumes "attempt w mk valid r g prior = Break g' r' rs sent"
  shows "(sent = [] \<and> rs = prior) \<or> (sent = [mk (remaining_ms (clock w r) g)] \<and> rs = Some (answer w r)
    \<and> quiet w g r AtTop \<and> quiet w g r AtWatch)"
  using assms unfolding attempt_def
  by (auto simp: Let_def split: prod.splits if_splits dest!: look_False)

lemma attempt_Unusable: "attempt w mk valid r g prior = Unusable sent \<Longrightarrow> sent = []"
  unfolding attempt_def by (auto simp: Let_def split: prod.splits if_splits)

definition sent_facts :: "world \<Rightarrow> (int \<Rightarrow> request) \<Rightarrow> guard \<Rightarrow> nat \<Rightarrow> request list \<Rightarrow> bool" where
  "sent_facts w mk g r0 sent \<longleftrightarrow> (\<forall>k < length sent.
     sent ! k = mk (remaining_ms (clock w (r0 + k)) g)
     \<and> quiet w g (r0 + k) AtTop \<and> quiet w g (r0 + k) AtWatch
     \<and> (Suc k < length sent \<longrightarrow> quiet w g (r0 + k) AtAnswer \<and> retryable (answer w (r0 + k))))"

lemma sent_facts_Nil: "sent_facts w mk g r0 []"
  by (simp add: sent_facts_def)

lemma sent_facts_Cons:
  assumes "attempt w mk valid r0 g prior = Again g' rs rq" and "sent_facts w mk g (Suc r0) sent"
  shows "sent_facts w mk g r0 (rq # sent)"
  unfolding sent_facts_def
proof (intro allI impI)
  fix k assume k: "k < length (rq # sent)"
  show "(rq # sent) ! k = mk (remaining_ms (clock w (r0 + k)) g)
     \<and> quiet w g (r0 + k) AtTop \<and> quiet w g (r0 + k) AtWatch
     \<and> (Suc k < length (rq # sent) \<longrightarrow> quiet w g (r0 + k) AtAnswer \<and> retryable (answer w (r0 + k)))"
  proof (cases k)
    case 0
    with attempt_Again [OF assms(1)] show ?thesis by auto
  next
    case (Suc j)
    with k assms(2) show ?thesis by (simp add: sent_facts_def)
  qed
qed

definition loop_facts ::
  "world \<Rightarrow> (int \<Rightarrow> request) \<Rightarrow> guard \<Rightarrow> nat \<Rightarrow> response option \<Rightarrow> turn \<Rightarrow> bool" where
  "loop_facts w mk g left prior t \<longleftrightarrow>
     (case t of
        Break g' r rs sent \<Rightarrow>
          length sent \<le> Suc left \<and> sent_facts w mk g (kMaxRetries - left) sent
          \<and> rs = (if sent = [] then prior
                  else Some (answer w (kMaxRetries - left + length sent - 1)))
      | Unusable sent \<Rightarrow> length sent \<le> Suc left \<and> sent_facts w mk g (kMaxRetries - left) sent
      | Again _ _ _ \<Rightarrow> False)"

lemma attempt_facts:
  assumes "left \<le> kMaxRetries" and "\<And>g' rs rq. attempt w mk valid (kMaxRetries - left) g prior \<noteq> Again g' rs rq"
  shows "loop_facts w mk g left prior (attempt w mk valid (kMaxRetries - left) g prior)"
proof (cases "attempt w mk valid (kMaxRetries - left) g prior")
  case (Break g' r rs sent)
  from attempt_Break [OF Break] Break show ?thesis
    by (auto simp: loop_facts_def sent_facts_def)
next
  case (Unusable sent)
  with attempt_Unusable [OF Unusable] show ?thesis by (simp add: loop_facts_def sent_facts_Nil)
qed (use assms(2) in simp)

lemma attempts_facts:
  "left \<le> kMaxRetries \<Longrightarrow> loop_facts w mk g left prior (attempts left w mk valid g prior)"
proof (induction left arbitrary: g prior)
  case 0
  have "attempt w mk valid kMaxRetries g prior \<noteq> Again g' rs rq" for g' rs rq
    using attempt_Again [of w mk valid kMaxRetries g prior g' rs rq] by auto
  with attempt_facts [of 0 w mk valid g prior] show ?case by simp
next
  case (Suc left)
  let ?r = "kMaxRetries - Suc left"
  have r: "kMaxRetries - left = Suc ?r" using Suc.prems by simp
  show ?case
  proof (cases "attempt w mk valid ?r g prior")
    case (Again g' rs rq)
    note a = attempt_Again [OF Again]
    have ih: "loop_facts w mk g left (Some rs) (attempts left w mk valid g (Some rs))"
      using Suc by simp
    show ?thesis
    proof (cases "attempts left w mk valid g (Some rs)")
      case (Break g'' r' rs' sent)
      with ih sent_facts_Cons [OF Again] a r show ?thesis
        by (auto simp: loop_facts_def Again)
    next
      case (Unusable sent)
      with ih sent_facts_Cons [OF Again] a r show ?thesis
        by (auto simp: loop_facts_def Again)
    qed (use ih in \<open>simp add: loop_facts_def\<close>)
  qed (use attempt_facts [OF Suc.prems, of w mk valid g prior] in auto)
qed

lemma attempts_ends:
  "attempts kMaxRetries w mk valid g prior \<noteq> Again g' rs rq"
  using attempts_facts [of kMaxRetries w mk g prior valid] by (auto simp: loop_facts_def)

lemma attempts_result:
  "attempts kMaxRetries w mk valid g prior = Break g' r rs sent \<Longrightarrow>
     length sent \<le> 6 \<and> sent_facts w mk g 0 sent
     \<and> rs = (if sent = [] then prior else Some (answer w (length sent - 1)))"
  "attempts kMaxRetries w mk valid g prior = Unusable sent \<Longrightarrow> length sent \<le> 6 \<and> sent_facts w mk g 0 sent"
  using attempts_facts [of kMaxRetries w mk g prior valid] by (auto simp: loop_facts_def kMaxRetries_def)

definition call_guard :: "world \<Rightarrow> vlm_call \<Rightarrow> guard" where
  "call_guard w call =
     new_guard (vc_has_probe call) (start w + max (vc_timeout_seconds call) 0 * 10 ^ 9)"

lemma generate_elim:
  assumes "generate rnd dump parse_json w call = (res, sent)"
  obtains (refused) "sent = []" "vr_ok res = False" "vr_error res \<noteq> []"
      "vr_cancelled res \<Longrightarrow> vc_has_probe call \<and> early_probe w"
  | (unusable) p where "parse_endpoint (vc_endpoint call) = Inr p"
      "attempts kMaxRetries w (make_request p (request_headers call) (dump (request_body call)))
         (client_valid w (origin p)) (call_guard w call) None = Unusable sent"
      "res = failed_result (''endpoint is not usable: '' @ origin p)"
  | (broke) p g r rs where "parse_endpoint (vc_endpoint call) = Inr p"
      "attempts kMaxRetries w (make_request p (request_headers call) (dump (request_body call)))
         (client_valid w (origin p)) (call_guard w call) None = Break g r rs sent"
      "res = finish_call rnd parse_json w call (origin p) g r rs"
proof (cases "parse_endpoint (vc_endpoint call)")
  case (Inl problem)
  with assms parse_endpoint_says [OF Inl] show ?thesis
    by (intro refused) (auto simp: generate_def failed_result_def empty_result_def)
next
  case (Inr p)
  show ?thesis
  proof (cases "vc_has_probe call \<and> early_probe w")
    case True
    with assms Inr show ?thesis
      by (intro refused) (auto simp: generate_def failed_result_def empty_result_def)
  next
    case False
    let ?t = "attempts kMaxRetries w (make_request p (request_headers call) (dump (request_body call)))
         (client_valid w (origin p)) (call_guard w call) None"
    show ?thesis
    proof (cases ?t)
      case (Break g r rs sent')
      with assms Inr False show ?thesis
        by (intro broke) (auto simp: generate_def call_guard_def Let_def)
    next
      case (Unusable sent')
      with assms Inr False show ?thesis
        by (intro unusable) (auto simp: generate_def call_guard_def Let_def)
    next
      case (Again g rs rq)
      with attempts_ends show ?thesis by metis
    qed
  qed
qed

lemma completion_content_object: "completion_content j = Some x \<Longrightarrow> is_jobject j"
  by (auto simp: completion_content_def jarray_Some split: option.splits list.splits
      intro: jfind_object)

lemma add_usage_keeps [keeps]:
  "vr_text (add_usage j r) = vr_text r" "vr_error (add_usage j r) = vr_error r"
  "vr_cancelled (add_usage j r) = vr_cancelled r"
  "vr_alternatives (add_usage j r) = vr_alternatives r"
  "vr_has_logprobs (add_usage j r) = vr_has_logprobs r"
  by (simp_all add: add_usage_def Let_def split: option.splits)

lemma add_logprobs_keeps [keeps]:
  "vr_text (add_logprobs rnd j r) = vr_text r" "vr_error (add_logprobs rnd j r) = vr_error r"
  "vr_cancelled (add_logprobs rnd j r) = vr_cancelled r"
  by (simp_all add: add_logprobs_def Let_def split: option.splits list.splits prod.splits)

lemma read_completion_ok:
  "vr_ok (read_completion rnd b) \<longleftrightarrow>
     (\<exists>j first. b = Some j \<and> completion_content j = Some (first, vr_text (read_completion rnd b)))"
  using completion_content_object
  by (auto simp: read_completion_def failed_result_def empty_result_def Let_def keeps
      split: option.splits prod.splits)

lemma read_completion_error:
  "vr_error (read_completion rnd b) = [] \<longleftrightarrow> vr_ok (read_completion rnd b)"
  "\<not> vr_cancelled (read_completion rnd b)"
  by (auto simp: read_completion_def failed_result_def empty_result_def Let_def keeps
      split: option.splits prod.splits)

lemma tripped_result_facts:
  "\<not> vr_ok (tripped_result call g r)" "vr_error (tripped_result call g r) \<noteq> []"
  "vr_cancelled (tripped_result call g r) = g_by_caller g"
  by (auto simp: tripped_result_def failed_result_def empty_result_def)

lemma finish_call_ok:
  "vr_ok (finish_call rnd parse_json w call shown g r rs) \<longleftrightarrow>
     (\<exists>body j first. rs = Some (Answer 200 body) \<and> parse_json body = Some j
        \<and> completion_content j
              = Some (first, vr_text (finish_call rnd parse_json w call shown g r rs)))"
  "vr_error (finish_call rnd parse_json w call shown g r rs) = [] \<longleftrightarrow>
     vr_ok (finish_call rnd parse_json w call shown g r rs)"
  by (auto simp: finish_call_def read_completion_ok read_completion_error tripped_result_facts
      failed_result_def empty_result_def split: option.splits response.splits prod.splits bool.splits)

lemma watchdog_prompt:
  "(g_tripped g \<or> trips g ob \<longleftrightarrow> g_tripped (wt_guard (watchdog_turn ob later in_flight g)))
   \<and> (g_tripped g \<or> trips g ob \<longrightarrow> wt_stops (watchdog_turn ob later in_flight g) = in_flight)
   \<and> (g_tripped g \<or> trips g ob \<or> g_has_probe g \<longrightarrow>
        wt_next (watchdog_turn ob later in_flight g) \<le> later + kWatchInterval)
   \<and> (wt_wakes (watchdog_turn ob later in_flight g) \<longleftrightarrow> \<not> g_tripped g \<and> trips g ob)"
  by (auto simp: watchdog_turn_def tripped_def trips_def)

lemma generate_sent:
  assumes "generate rnd dump parse_json w call = (res, sent)" and "sent \<noteq> []"
  obtains p where "parse_endpoint (vc_endpoint call) = Inr p" and "length sent \<le> 6"
    and "sent_facts w (make_request p (request_headers call) (dump (request_body call)))
      (call_guard w call) 0 sent"
  using assms(1)
proof (cases rule: generate_elim)
  case refused
  with assms(2) show ?thesis by simp
qed (use attempts_result that in metis)+

lemma generate_sent_request:
  assumes "generate rnd dump parse_json w call = (res, sent)" and "rq \<in> set sent"
  shows "\<exists>p. parse_endpoint (vc_endpoint call) = Inr p \<and> rq_origin rq = origin p
    \<and> rq_target rq = target p \<and> rq_headers rq = request_headers call"
proof -
  have "sent \<noteq> []" using assms(2) by auto
  with assms(1) obtain p where p: "parse_endpoint (vc_endpoint call) = Inr p"
    and f: "sent_facts w (make_request p (request_headers call) (dump (request_body call)))
      (call_guard w call) 0 sent"
    by (rule generate_sent)
  from assms(2) obtain k where "k < length sent" "rq = sent ! k" by (metis in_set_conv_nth)
  with f p show ?thesis by (auto simp: sent_facts_def make_request_def Let_def)
qed

lemma finish_call_cancelled_not_ok:
  "vr_cancelled (finish_call rnd parse_json w call shown g r rs) \<Longrightarrow>
     \<not> vr_ok (finish_call rnd parse_json w call shown g r rs)"
  by (auto simp: finish_call_def read_completion_error tripped_result_facts
      failed_result_def empty_result_def
      split: option.splits response.splits bool.splits if_splits prod.splits)

lemma generate_ok_error:
  assumes "generate rnd dump parse_json w call = (res, sent)"
  shows "vr_ok res \<longleftrightarrow> vr_error res = []"
  using assms
  by (cases rule: generate_elim) (auto simp: finish_call_ok(2) failed_result_def empty_result_def)

lemma generate_not_cancelled:
  assumes "generate rnd dump parse_json w call = (res, sent)"
  shows "vr_cancelled res \<Longrightarrow> \<not> vr_ok res"
  using assms by (cases rule: generate_elim)
    (auto simp: finish_call_cancelled_not_ok failed_result_def empty_result_def)

section \<open>The report of a call\<close>



























section \<open>Properties\<close>

text \<open>
  C11: what a call sends.  A call makes at most six requests, all to the endpoint it was
  given, with the page and the key it was given; request \<open>k\<close> leaves only after every
  earlier answer was one the policy retries, and only while neither the caller's probe nor
  the call's budget has tripped at any look the call, its watchdog or its upload hook took
  before: once the call is no longer wanted nothing more is sent.
\<close>

theorem generate_requests:
  assumes "generate rnd dump parse_json w call = (res, sent)" and "k < length sent"
  shows "k \<le> kMaxRetries \<and> length sent \<le> 6
    \<and> (\<exists>p. parse_endpoint (vc_endpoint call) = Inr p
         \<and> sent ! k = make_request p (request_headers call) (dump (request_body call))
                        (remaining_ms (clock w k) (call_guard w call)))
    \<and> (\<forall>r \<le> k. quiet w (call_guard w call) r AtTop \<and> quiet w (call_guard w call) r AtWatch)
    \<and> (\<forall>r < k. quiet w (call_guard w call) r AtAnswer \<and> retryable (answer w r))"
proof -
  have "sent \<noteq> []" using assms(2) by auto
  with assms(1) obtain p where p: "parse_endpoint (vc_endpoint call) = Inr p"
    and len: "length sent \<le> 6"
    and f: "sent_facts w (make_request p (request_headers call) (dump (request_body call)))
      (call_guard w call) 0 sent"
    by (rule generate_sent)
  have k: "sent ! k = make_request p (request_headers call) (dump (request_body call))
      (remaining_ms (clock w k) (call_guard w call))"
    using f assms(2) by (simp add: sent_facts_def)
  have top: "quiet w (call_guard w call) r AtTop \<and> quiet w (call_guard w call) r AtWatch"
    if "r \<le> k" for r
    using f assms(2) that by (simp add: sent_facts_def)
  have ans: "quiet w (call_guard w call) r AtAnswer \<and> retryable (answer w r)" if "r < k" for r
    using f assms(2) that by (simp add: sent_facts_def)
  show ?thesis
    using p k top ans len assms(2) by (auto simp: kMaxRetries_def)
qed

text \<open>A call that is told to come back once and then gets its page, for the witnesses.\<close>

definition sample_call :: vlm_call where
  "sample_call = \<lparr>vc_endpoint = ''http://vlm'', vc_model = ''m'', vc_prompt = ''p'', vc_stop = [],
     vc_max_tokens = 4096, vc_top_logprobs = 0, vc_logprobs = True, vc_png = ''x'',
     vc_timeout_seconds = 300, vc_api_key = no_secret, vc_has_probe = True\<rparr>"

definition sample_world :: world where
  "sample_world = \<lparr>early_probe = False, start = 0, backoff_base_ms = 100, client_valid = \<lambda>_. True,
     clock = \<lambda>_. 0, others = \<lambda>_ _. [], own = \<lambda>_ _. \<lparr>probe = False, now = 0\<rparr>,
     answer = \<lambda>r. if r = 0 then Answer 503 [] else Answer 200 ''page''\<rparr>"

definition sample_parse :: "string \<Rightarrow> json option" where
  "sample_parse body = Some (JObject [(''choices'', JArray [JObject
     [(''message'', JObject [(''content'', JString body)])]])])"

lemmas sample_defs = sample_call_def sample_world_def sample_parse_def

lemma sample_run:
  "case generate id (\<lambda>_. []) sample_parse sample_world sample_call of (res, sent) \<Rightarrow>
     length sent = 2 \<and> vr_ok res \<and> vr_text res = ''page''"
  by code_simp

theorem generate_requests_witness:
  "\<exists>sent. snd (generate id (\<lambda>_. []) sample_parse sample_world sample_call) = sent
     \<and> 1 < length sent \<and> retryable (answer sample_world 0)"
proof -
  obtain res sent where g: "generate id (\<lambda>_. []) sample_parse sample_world sample_call = (res, sent)"
    and "length sent = 2" using sample_run by (auto split: prod.splits)
  then have "1 < length sent" by simp
  with generate_requests [OF g this] show ?thesis using g by auto
qed


definition token_scores :: "json list \<Rightarrow> real list" where
  "token_scores tokens = List.map_filter (\<lambda>t. jdouble id (jfind ''logprob'' t)) tokens"

definition token_alternatives :: "json list \<Rightarrow> token_alternative list" where
  "token_alternatives tokens =
     concat (map (\<lambda>t. concat (map (alternative_of id) (case_option [] id (jarray (jfind ''top_logprobs'' t))))) tokens)"

lemma token_Cons:
  "token_scores (t # ts) = token_scores [t] @ token_scores ts"
  "token_alternatives (t # ts) = token_alternatives [t] @ token_alternatives ts"
  by (simp_all add: token_scores_def token_alternatives_def List.map_filter_simps split: option.splits)

lemma score_token_step:
  "score_token id t (acc_sum, count, alts) =
     (acc_sum + sum_list (token_scores [t]), count + length (token_scores [t]),
      alts @ token_alternatives [t])"
  by (simp add: score_token_def token_scores_def token_alternatives_def List.map_filter_simps
      split: option.splits)

lemma fold_score_token:
  "fold (score_token id) tokens (acc_sum, count, alts) =
     (acc_sum + sum_list (token_scores tokens), count + length (token_scores tokens),
      alts @ token_alternatives tokens)"
proof (induction tokens arbitrary: acc_sum count alts)
  case Nil
  then show ?case by (simp add: token_scores_def token_alternatives_def List.map_filter_simps)
next
  case (Cons t ts)
  show ?case
    by (simp only: fold_simps score_token_step Cons.IH token_Cons [of t ts] sum_list_append
        length_append append_assoc add.assoc)
qed

text \<open>
  The page score.  With exact arithmetic, a completion whose first choice carries a
  list of scored tokens yields the plain mean of the numbers reported, over the number of
  tokens that reported one, and every alternate the endpoint offered, token by token in
  order; malformed entries are skipped and never counted.
\<close>

theorem add_logprobs_mean:
  assumes "jfind ''logprobs'' first = Some lp" and "jfind ''content'' lp = Some (JArray tokens)"
    and "tokens \<noteq> []"
  shows "vr_alternatives (add_logprobs id first result) = token_alternatives tokens
    \<and> (token_scores tokens \<noteq> [] \<longrightarrow>
         vr_has_logprobs (add_logprobs id first result)
         \<and> vr_scored_tokens (add_logprobs id first result) = length (token_scores tokens)
         \<and> vr_mean_logprob (add_logprobs id first result)
             = sum_list (token_scores tokens) / real (length (token_scores tokens)))
    \<and> (token_scores tokens = [] \<longrightarrow>
         vr_has_logprobs (add_logprobs id first result) = vr_has_logprobs result)"
proof -
  obtain t ts where t: "tokens = t # ts" using assms(3) by (cases tokens) auto
  have "add_logprobs id first result =
      (case fold (score_token id) tokens (0, 0, []) of (acc_sum, count, alts) \<Rightarrow>
         let result = result\<lparr>vr_alternatives := alts\<rparr>
         in if 0 < count then result\<lparr>vr_has_logprobs := True,
              vr_mean_logprob := acc_sum / of_nat count, vr_scored_tokens := count\<rparr> else result)"
    using assms(1,2) by (simp add: add_logprobs_def jarray_def t Let_def split: prod.splits)
  then show ?thesis unfolding fold_score_token by (auto simp: Let_def)
qed

definition sample_tokens :: "json list" where
  "sample_tokens = [JObject [(''logprob'', JInteger (- 1))], JNull, JObject [(''logprob'', JInteger (- 3))]]"

theorem add_logprobs_mean_witness:
  "vr_mean_logprob (add_logprobs id
     (JObject [(''logprobs'', JObject [(''content'', JArray sample_tokens)])]) empty_result) = - 2"
proof -
  have "token_scores sample_tokens = [- 1, - 3]"
    by (simp add: token_scores_def sample_tokens_def List.map_filter_simps json_defs)
  with add_logprobs_mean [of "JObject [(''logprobs'', JObject [(''content'', JArray sample_tokens)])]"
      "JObject [(''content'', JArray sample_tokens)]" sample_tokens empty_result]
  show ?thesis by (simp add: jfind_def sample_tokens_def)
qed

end
