(* ===== verification/Stream_Options.thy ===== *)
theory Stream_Options
  imports Config Presets Vlm_Client
begin

text \<open>
  The part of \<^verbatim>\<open>ConvertPagesCore\<close> (\<^verbatim>\<open>src/service/vlm_convert_service.cpp\<close>) that runs
  before a page is read: the first message, the checks of the options, and what every page
  of the stream is then called with; and \<^verbatim>\<open>GetServiceInfo\<close>.  A refusal is a gRPC status
  on the left; each of them counts as rejected.
\<close>

datatype status_code =
    StatusOK
  | CANCELLED
  | UNKNOWN
  | INVALID_ARGUMENT
  | DEADLINE_EXCEEDED
  | NOT_FOUND
  | ALREADY_EXISTS
  | PERMISSION_DENIED
  | RESOURCE_EXHAUSTED
  | FAILED_PRECONDITION
  | ABORTED
  | OUT_OF_RANGE
  | UNIMPLEMENTED
  | INTERNAL
  | UNAVAILABLE
  | DATA_LOSS
  | UNAUTHENTICATED

type_synonym status = "status_code \<times> string"

record page_image =
  im_png :: string
  im_page_no :: nat
  im_width :: nat
  im_height :: nat

datatype convert_request =
    ReqOptions convert_options
  | ReqPage page_image
  | ReqPdf string
  | ReqNothing

definition kMaxTopLogprobs :: nat where
  "kMaxTopLogprobs = 20"

record stream_plan =
  sp_endpoint :: string
  sp_override :: bool
  sp_model :: string
  sp_prompt :: string
  sp_stop :: "string list"
  sp_max_tokens :: int
  sp_format :: response_format
  sp_concurrency :: nat
  sp_top_logprobs :: nat
  sp_abort_on_error :: bool

section \<open>Checking the options\<close>

definition endpoint_override :: "config \<Rightarrow> convert_options \<Rightarrow> bool" where
  "endpoint_override cfg opts \<longleftrightarrow>
     opt_endpoint opts \<noteq> [] \<and> \<not> same_endpoint (opt_endpoint opts) (endpoint cfg)"

definition stream_endpoint :: "config \<Rightarrow> convert_options \<Rightarrow> string" where
  "stream_endpoint cfg opts = (if endpoint_override cfg opts then opt_endpoint opts else endpoint cfg)"

definition check_endpoint :: "config \<Rightarrow> convert_options \<Rightarrow> status + string" where
  "check_endpoint cfg opts =
     (if endpoint_override cfg opts \<and> \<not> allow_endpoint_override cfg then
        Inl (PERMISSION_DENIED, ''per-request endpoint overrides are disabled on this server (the operator enables them with GRPC_VLM_ALLOW_ENDPOINT_OVERRIDE=true)'')
      else
        (let e = stream_endpoint cfg opts
         in if e = [] then
              Inl (FAILED_PRECONDITION,
                   if allow_endpoint_override cfg
                   then ''no VLM endpoint configured (GRPC_VLM_ENDPOINT) and no per-request endpoint override''
                   else ''no VLM endpoint configured (GRPC_VLM_ENDPOINT)'')
            else if endpoint_error e \<noteq> [] then Inl (INVALID_ARGUMENT, endpoint_error e)
            else Inr e))"

definition show_format :: "response_format \<Rightarrow> string" where
  "show_format f = (case f of RESPONSE_FORMAT_OTHER n \<Rightarrow> show_int n | _ \<Rightarrow> [])"

definition check_format :: "convert_options \<Rightarrow> response_format \<Rightarrow> status + response_format" where
  "check_format opts f =
     (if \<not> format_is_valid f then
        Inl (INVALID_ARGUMENT, ''unknown response_format value: '' @ show_format f)
      else
        and_then
          (if opt_format_raw opts = [] then Inr f
           else case response_format_from_docling (opt_format_raw opts) of
             None \<Rightarrow> Inl (INVALID_ARGUMENT, ''response_format_raw names no docling response format: ''
                       @ [DQUOTE] @ opt_format_raw opts @ [DQUOTE])
           | Some raw \<Rightarrow>
               if opt_format opts \<noteq> RESPONSE_FORMAT_UNSPECIFIED \<and> opt_format opts \<noteq> raw then
                 Inl (INVALID_ARGUMENT, ''response_format '' @ format_name (opt_format opts)
                       @ '' conflicts with response_format_raw '' @ [DQUOTE] @ opt_format_raw opts
                       @ [DQUOTE])
               else Inr raw)
          (\<lambda>f. if \<not> response_format_served f then
                  Inl (UNIMPLEMENTED, ''response_format '' @ format_name f
                    @ '' is not served by this server (MinerU2'' @ [SQUOTE]
                    @ ''s two-pass protocol is not implemented)'')
                else Inr f))"

definition check_logprobs :: "config \<Rightarrow> convert_options \<Rightarrow> status + nat" where
  "check_logprobs cfg opts =
     (if kMaxTopLogprobs < opt_top_logprobs opts then
        Inl (INVALID_ARGUMENT, ''top_logprobs must be 0..'' @ show_nat kMaxTopLogprobs @ '', got ''
               @ show_nat (opt_top_logprobs opts))
      else if 0 < opt_top_logprobs opts \<and> \<not> request_logprobs cfg then
        Inl (FAILED_PRECONDITION, ''top_logprobs needs logprobs, which this server does not request from its endpoint (GRPC_VLM_LOGPROBS=false)'')
      else Inr (opt_top_logprobs opts))"

definition stream_concurrency :: "config \<Rightarrow> convert_options \<Rightarrow> nat" where
  "stream_concurrency cfg opts =
     (if opt_concurrency opts = 0 then concurrency cfg
      else min (concurrency cfg) (opt_concurrency opts))"

definition check_options :: "config \<Rightarrow> convert_options \<Rightarrow> status + stream_plan" where
  "check_options cfg opts =
     and_then (check_endpoint cfg opts) (\<lambda>e.
     case resolve_request opts of
       None \<Rightarrow> Inl (INVALID_ARGUMENT, ''preset resolves to no model name (set preset or preset_raw)'')
     | Some r \<Rightarrow>
         and_then (check_format opts (rs_format r)) (\<lambda>f.
         and_then (check_logprobs cfg opts) (\<lambda>top.
         Inr \<lparr>sp_endpoint = e, sp_override = endpoint_override cfg opts, sp_model = rs_model r,
              sp_prompt = rs_prompt r, sp_stop = rs_stop r, sp_max_tokens = rs_max_tokens r,
              sp_format = f,
              sp_concurrency = stream_concurrency cfg opts,
              sp_top_logprobs = top, sp_abort_on_error = opt_abort_on_error opts\<rparr>)))"

definition first_message :: "config \<Rightarrow> convert_request option \<Rightarrow> status + stream_plan" where
  "first_message cfg req =
     (case req of
        Some (ReqOptions opts) \<Rightarrow> check_options cfg opts
      | _ \<Rightarrow> Inl (INVALID_ARGUMENT, ''first stream message must be ConvertOptions''))"

text \<open>
  The call of one page, with what \<^verbatim>\<open>convert_page\<close> fills in: the raster, and the halt flag
  as its probe.
\<close>

definition page_call :: "config \<Rightarrow> stream_plan \<Rightarrow> string \<Rightarrow> vlm_call" where
  "page_call cfg plan png =
     \<lparr>vc_endpoint = sp_endpoint plan, vc_model = sp_model plan, vc_prompt = sp_prompt plan,
      vc_stop = sp_stop plan, vc_max_tokens = sp_max_tokens plan,
      vc_top_logprobs = int (sp_top_logprobs plan), vc_logprobs = request_logprobs cfg,
      vc_png = png, vc_timeout_seconds = int (vlm_timeout_seconds cfg),
      vc_api_key = (if sp_override plan then no_secret else vlm_api_key cfg),
      vc_has_probe = True\<rparr>"

section \<open>Checking a page\<close>

definition kPngMagic :: string where
  "kPngMagic = [CHR 0x89, CHR ''P'', CHR ''N'', CHR ''G'', CHR 0x0D, CHR 0x0A, CHR 0x1A, CHR 0x0A]"

definition is_png :: "string \<Rightarrow> bool" where
  "is_png bytes \<longleftrightarrow> starts_with bytes kPngMagic"

text \<open>
  What the read loop makes of one message, \<open>started\<close> pages in: it stops the stream with a
  status, ignores the message, or admits a page.
\<close>

datatype read_result = Refuse status | Ignore | Admit page_image

definition read_message :: "config \<Rightarrow> nat \<Rightarrow> convert_request \<Rightarrow> read_result" where
  "read_message cfg started req =
     (case req of
        ReqOptions _ \<Rightarrow> Refuse (INVALID_ARGUMENT, ''ConvertOptions must not repeat on the stream'')
      | ReqPdf _ \<Rightarrow> Refuse (UNIMPLEMENTED, ''PDF input needs a rasterizer this build does not carry; send PageImage PNGs instead'')
      | ReqNothing \<Rightarrow> Ignore
      | ReqPage img \<Rightarrow>
          if im_page_no img = 0 then Refuse (INVALID_ARGUMENT, ''page_no is 1-based; got 0'')
          else if 2 ^ 31 - 1 < im_page_no img then
            Refuse (INVALID_ARGUMENT, ''page_no above 2147483647: '' @ show_nat (im_page_no img))
          else if max_page_bytes cfg < length (im_png img) then
            Refuse (RESOURCE_EXHAUSTED, ''page PNG above the '' @ show_nat (max_page_bytes cfg) @ '' byte cap'')
          else if \<not> is_png (im_png img) then Refuse (INVALID_ARGUMENT, ''page bytes are not a PNG'')
          else if max_pages cfg \<le> started then
            Refuse (RESOURCE_EXHAUSTED, ''stream above the '' @ show_nat (max_pages cfg) @ '' page cap'')
          else Admit img)"

section \<open>Service information\<close>

record service_info =
  si_version :: string
  si_endpoint :: string
  si_presets :: "vlm_preset list"
  si_raw_presets :: "string list"
  si_formats :: "response_format list"
  si_concurrency :: nat
  si_max_page_bytes :: nat
  si_max_pages :: nat
  si_ui_title :: string
  si_ui_path :: string
  si_ui_description :: string

definition claimed_presets :: "config \<Rightarrow> vlm_preset list \<times> string list" where
  "claimed_presets cfg =
     (if endpoint cfg = [] then ([], [])
      else if presets cfg = [] then (map ps_preset kPresets, [])
      else (List.map_filter (\<lambda>n. map_option ps_preset (find_preset_by_name n)) (presets cfg),
            filter (\<lambda>n. find_preset_by_name n = None) (presets cfg)))"

definition GetServiceInfo :: "string \<Rightarrow> config \<Rightarrow> service_info" where
  "GetServiceInfo version cfg =
     \<lparr>si_version = version,
      si_endpoint = (if endpoint cfg \<noteq> [] then endpoint_origin (endpoint cfg) else []),
      si_presets = fst (claimed_presets cfg), si_raw_presets = snd (claimed_presets cfg),
      si_formats = filter response_format_served (map snd response_formats),
      si_concurrency = concurrency cfg, si_max_page_bytes = max_page_bytes cfg,
      si_max_pages = max_pages cfg, si_ui_title = ''VLM Convert'', si_ui_path = ''/ui/vlm-convert'',
      si_ui_description = ''Calls an external VLM server for document conversion''\<rparr>"

section \<open>Properties\<close>

definition format_request_ok :: "convert_options \<Rightarrow> response_format \<Rightarrow> response_format \<Rightarrow> bool" where
  "format_request_ok opts preset_format f \<longleftrightarrow>
     format_is_valid preset_format \<and> response_format_served f
     \<and> (if opt_format_raw opts = [] then f = preset_format
        else response_format_from_docling (opt_format_raw opts) = Some f
             \<and> (opt_format opts = RESPONSE_FORMAT_UNSPECIFIED \<or> opt_format opts = f))"

lemma check_format_Inr: "check_format opts p = Inr f \<longleftrightarrow> format_request_ok opts p f"
  by (auto simp: check_format_def format_request_ok_def and_then_Inr split: if_splits option.splits)

lemma check_endpoint_Inr:
  "check_endpoint cfg opts = Inr e \<longleftrightarrow>
     (endpoint_override cfg opts \<longrightarrow> allow_endpoint_override cfg)
     \<and> e = stream_endpoint cfg opts \<and> e \<noteq> [] \<and> endpoint_error e = []"
  by (auto simp: check_endpoint_def Let_def)

lemma check_logprobs_Inr:
  "check_logprobs cfg opts = Inr n \<longleftrightarrow>
     n = opt_top_logprobs opts \<and> n \<le> 20 \<and> (0 < n \<longrightarrow> request_logprobs cfg)"
  by (auto simp: check_logprobs_def kMaxTopLogprobs_def)

text \<open>
  What a stream is accepted with.  Options are accepted exactly when the endpoint they
  lead to is the operator's or an allowed override and parses, a model resolves, the
  format is one this server maps and the two ways to name it agree, and the alternates
  asked for are within the cap of 20 and available; the plan then carries exactly what was
  resolved, with a concurrency no higher than the server's.
\<close>

theorem check_options_accepts:
  "check_options cfg opts = Inr plan \<longleftrightarrow>
     (\<exists>r. resolve_request opts = Some r
        \<and> (endpoint_override cfg opts \<longrightarrow> allow_endpoint_override cfg)
        \<and> stream_endpoint cfg opts \<noteq> [] \<and> endpoint_error (stream_endpoint cfg opts) = []
        \<and> format_request_ok opts (rs_format r) (sp_format plan)
        \<and> opt_top_logprobs opts \<le> 20 \<and> (0 < opt_top_logprobs opts \<longrightarrow> request_logprobs cfg)
        \<and> plan = \<lparr>sp_endpoint = stream_endpoint cfg opts, sp_override = endpoint_override cfg opts,
             sp_model = rs_model r, sp_prompt = rs_prompt r, sp_stop = rs_stop r,
             sp_max_tokens = rs_max_tokens r, sp_format = sp_format plan,
             sp_concurrency = stream_concurrency cfg opts,
             sp_top_logprobs = opt_top_logprobs opts,
             sp_abort_on_error = opt_abort_on_error opts\<rparr>)"
  (is "?l \<longleftrightarrow> ?r")
proof
  assume ?l
  then show ?r
    by (auto simp: check_options_def and_then_Inr check_endpoint_Inr check_format_Inr
        check_logprobs_Inr split: option.splits)
next
  assume ?r
  then obtain r where r: "resolve_request opts = Some r"
    and e: "check_endpoint cfg opts = Inr (stream_endpoint cfg opts)"
    and f: "check_format opts (rs_format r) = Inr (sp_format plan)"
    and l: "check_logprobs cfg opts = Inr (opt_top_logprobs opts)"
    and p: "plan = \<lparr>sp_endpoint = stream_endpoint cfg opts, sp_override = endpoint_override cfg opts,
             sp_model = rs_model r, sp_prompt = rs_prompt r, sp_stop = rs_stop r,
             sp_max_tokens = rs_max_tokens r, sp_format = sp_format plan,
             sp_concurrency = stream_concurrency cfg opts,
             sp_top_logprobs = opt_top_logprobs opts,
             sp_abort_on_error = opt_abort_on_error opts\<rparr>"
    by (auto simp: check_endpoint_Inr check_format_Inr check_logprobs_Inr)
  have "check_options cfg opts = Inr \<lparr>sp_endpoint = stream_endpoint cfg opts,
      sp_override = endpoint_override cfg opts, sp_model = rs_model r, sp_prompt = rs_prompt r,
      sp_stop = rs_stop r, sp_max_tokens = rs_max_tokens r, sp_format = sp_format plan,
      sp_concurrency = stream_concurrency cfg opts, sp_top_logprobs = opt_top_logprobs opts,
      sp_abort_on_error = opt_abort_on_error opts\<rparr>"
    by (simp add: check_options_def r e f l)
  then show ?l using p by metis
qed

text \<open>A stream for the operator's endpoint, with a key, for the witnesses.\<close>

definition key_config :: config where
  "key_config = default_config\<lparr>endpoint := ''http://vlm'', vlm_api_key := \<lparr>reveal = ''k''\<rparr>\<rparr>"

definition key_plan :: stream_plan where
  "key_plan = \<lparr>sp_endpoint = ''http://vlm'', sp_override = False, sp_model = ''m'', sp_prompt = ''p'',
     sp_stop = [], sp_max_tokens = 4096, sp_format = RESPONSE_FORMAT_DOCTAGS, sp_concurrency = 2,
     sp_top_logprobs = 0, sp_abort_on_error = False\<rparr>"

definition key_options :: convert_options where
  "key_options = sample_options\<lparr>opt_preset := VLM_PRESET_RAW, opt_preset_raw := ''m'', opt_prompt := ''p''\<rparr>"

lemma key_endpoint: "parse_endpoint ''http://vlm'' = Inr \<lparr>origin = ''http://vlm'',
      target = ''/v1/chat/completions'', host = ''vlm'', port = 80\<rparr>"
  by code_simp

lemma key_plan_accepted: "check_options key_config key_options = Inr key_plan"
  by (simp add: check_options_def check_endpoint_def stream_endpoint_def endpoint_override_def
      key_config_def key_options_def sample_options_def default_config_def endpoint_error_def
      key_endpoint resolve_request_def check_format_def format_is_valid_def
      response_format_served_def check_logprobs_def kMaxTopLogprobs_def stream_concurrency_def
      key_plan_def)

theorem check_options_accepts_witness:
  "\<exists>r. resolve_request key_options = Some r
     \<and> format_request_ok key_options (rs_format r) RESPONSE_FORMAT_DOCTAGS"
  using check_options_accepts [THEN iffD1, OF key_plan_accepted] by (auto simp: key_plan_def)

lemma page_call_key:
  assumes "check_options cfg opts = Inr plan"
  shows "(vc_endpoint (page_call cfg plan png) = endpoint cfg)
    \<or> (allow_endpoint_override cfg \<and> secret_empty (vc_api_key (page_call cfg plan png)))"
proof -
  from assms have "sp_endpoint plan = stream_endpoint cfg opts" "sp_override plan = endpoint_override cfg opts"
    "endpoint_override cfg opts \<longrightarrow> allow_endpoint_override cfg"
    by (auto simp: check_options_def and_then_Inr check_endpoint_Inr split: option.splits)
  then show ?thesis
    by (auto simp: page_call_def stream_endpoint_def no_secret_def secret_empty_def)
qed

text \<open>
  C10: where the operator's key goes.  Whatever a request says, every request its pages
  send that carries an Authorization header goes to the origin and the target of the
  endpoint the operator configured; and a page only ever goes to another endpoint when
  the operator allows overrides.
\<close>

theorem key_stays_home:
  assumes "check_options cfg opts = Inr plan"
    and "generate rnd dump parse_json w (page_call cfg plan png) = (res, sent)" and "rq \<in> set sent"
  shows "(rq_headers rq \<noteq> [] \<longrightarrow> (\<exists>p. parse_endpoint (endpoint cfg) = Inr p
            \<and> rq_origin rq = origin p \<and> rq_target rq = target p))
    \<and> (\<not> allow_endpoint_override cfg \<longrightarrow> (\<exists>p. parse_endpoint (endpoint cfg) = Inr p
            \<and> rq_origin rq = origin p \<and> rq_target rq = target p))"
proof -
  obtain p where p: "parse_endpoint (vc_endpoint (page_call cfg plan png)) = Inr p"
    "rq_origin rq = origin p" "rq_target rq = target p"
    "rq_headers rq = request_headers (page_call cfg plan png)"
    using generate_sent_request [OF assms(2,3)] by blast
  moreover have "rq_headers rq = []" if "secret_empty (vc_api_key (page_call cfg plan png))"
    using p(4) that by (simp add: request_headers_def)
  ultimately show ?thesis using page_call_key [OF assms(1), of png] by auto
qed

theorem key_stays_home_witness:
  "\<exists>rq \<in> set (snd (generate id (\<lambda>_. []) sample_parse sample_world
       (page_call key_config key_plan ''x''))).
     rq_headers rq = [(''Authorization'', ''Bearer k'')] \<and> rq_origin rq = ''http://vlm''"
proof -
  have "page_call key_config key_plan ''x'' = sample_call\<lparr>vc_api_key := \<lparr>reveal = ''k''\<rparr>\<rparr>"
    by (simp add: page_call_def key_config_def key_plan_def default_config_def sample_call_def)
  moreover have "case generate id (\<lambda>_. []) sample_parse sample_world
      (sample_call\<lparr>vc_api_key := \<lparr>reveal = ''k''\<rparr>\<rparr>)
      of (res, sent) \<Rightarrow> map rq_headers sent = replicate 2 [(''Authorization'', ''Bearer k'')]"
    by code_simp
  ultimately have run: "case generate id (\<lambda>_. []) sample_parse sample_world
      (page_call key_config key_plan ''x'')
      of (res, sent) \<Rightarrow> map rq_headers sent = replicate 2 [(''Authorization'', ''Bearer k'')]" by simp
  obtain res sent where g: "generate id (\<lambda>_. []) sample_parse sample_world
      (page_call key_config key_plan ''x'') = (res, sent)" by fastforce
  with run have h: "map rq_headers sent = replicate 2 [(''Authorization'', ''Bearer k'')]" by simp
  then obtain rq rest where s: "sent = rq # rest" and hd: "rq_headers rq = [(''Authorization'', ''Bearer k'')]"
    by (cases sent) (auto simp: numeral_2_eq_2)
  from key_stays_home [OF key_plan_accepted g, of rq] s hd key_endpoint
  have "rq_origin rq = ''http://vlm''" by (auto simp: key_config_def default_config_def)
  with g s hd show ?thesis by (intro bexI [of _ rq]) simp_all
qed

text \<open>
  C38: what the unauthenticated service-information call gives away: two configurations
  that agree on the presets, the limits and the origin of their endpoint answer alike, so
  no key, no token and nothing else of the endpoint can be read off the answer.
\<close>

theorem service_info_hides_credentials:
  assumes "presets c = presets d" and "concurrency c = concurrency d"
    and "max_page_bytes c = max_page_bytes d" and "max_pages c = max_pages d"
    and "endpoint c = [] \<longleftrightarrow> endpoint d = []"
    and "endpoint_origin (endpoint c) = endpoint_origin (endpoint d)"
  shows "GetServiceInfo version c = GetServiceInfo version d"
  using assms by (simp add: GetServiceInfo_def claimed_presets_def)

theorem service_info_hides_credentials_witness:
  "GetServiceInfo ''1'' (default_config\<lparr>vlm_api_key := \<lparr>reveal = ''a''\<rparr>\<rparr>) = GetServiceInfo ''1'' default_config"
  by (rule service_info_hides_credentials) simp_all

text \<open>
  The formats advertised are exactly the formats a stream is accepted with: a format
  is listed by \<^verbatim>\<open>GetServiceInfo\<close> if and only if it is one the server maps.
\<close>

theorem formats_advertised: "f \<in> set (si_formats (GetServiceInfo version cfg)) \<longleftrightarrow> response_format_served f"
  by (cases f) (simp_all add: GetServiceInfo_def response_formats_def response_format_served_def
      format_is_valid_def)

text \<open>
  A page is admitted exactly when it is numbered from 1 to 2147483647, is a PNG no
  larger than the page cap, and is not one page too many for the stream.
\<close>

theorem read_message_admits:
  "read_message cfg started req = Admit img \<longleftrightarrow>
     req = ReqPage img \<and> 1 \<le> im_page_no img \<and> im_page_no img \<le> 2147483647
     \<and> length (im_png img) \<le> max_page_bytes cfg \<and> is_png (im_png img) \<and> started < max_pages cfg"
  by (auto simp: read_message_def split: convert_request.splits if_splits)

end
