(* ===== verification/Convert_Page.thy ===== *)
theory Convert_Page
  imports Stream_Options
begin

text \<open>
  \<^verbatim>\<open>convert_page\<close> of \<^verbatim>\<open>src/service/vlm_convert_service.cpp\<close>: from the client's answer
  for one page to the event the page emits, with the page context of
  \<^verbatim>\<open>src/mapping/mapper.h\<close> that carries the provenance every item is stamped with.  The
  format mappers are an argument, from format, text and page to an error or a document
  with its warnings; \<open>'d\<close> is the type of documents.
\<close>

section \<open>The page context\<close>

record collector_source =
  cs_collector :: string
  cs_model :: string
  cs_version :: string
  cs_raw_score :: "real option"
  cs_raw_score_kind :: "string option"
  cs_raw_score_samples :: "nat option"

datatype stop_reason =
    STOP_REASON_UNSPECIFIED
  | STOP_REASON_LENGTH
  | STOP_REASON_STOP_SEQUENCE
  | STOP_REASON_END_OF_SEQUENCE
  | STOP_REASON_CONTENT_FILTERED
  | STOP_REASON_INFERENCE_ERROR

record generation_source =
  gs_model :: string
  gs_endpoint :: string
  gs_finish_reason :: "string option"
  gs_stop_reason :: stop_reason
  gs_prompt_tokens :: "nat option"
  gs_completion_tokens :: "nat option"

record hypothesis =
  hy_text :: string
  hy_raw_score :: "real option"
  hy_raw_score_kind :: "string option"

record alternatives =
  al_created_by :: string
  al_hypotheses :: "hypothesis list"

record crop_budget =
  cb_max_crops :: nat
  cb_max_area_pages :: real
  cb_max_inline_bytes :: nat

definition default_crop_budget :: crop_budget where
  "default_crop_budget =
     \<lparr>cb_max_crops = 100, cb_max_area_pages = 2, cb_max_inline_bytes = 3 * 1024 * 1024\<rparr>"

record page_context =
  pg_no :: nat
  pg_width :: nat
  pg_height :: nat
  pg_png :: string
  pg_crops :: crop_budget
  pg_source :: collector_source
  pg_generation :: "generation_source option"
  pg_alternatives :: "alternatives option"

record warning =
  wn_code :: nat
  wn_message :: string
  wn_ref :: string

datatype 'd event =
    EvStarted nat
  | EvDocument nat 'd "warning list"
  | EvRaw nat string string
  | EvComplete nat nat nat

type_synonym 'd mapper = "response_format \<Rightarrow> string \<Rightarrow> page_context \<Rightarrow> string + ('d \<times> warning list)"

section \<open>Stamping a page\<close>

definition classify_stop :: "string \<Rightarrow> stop_reason" where
  "classify_stop reason =
     (if reason = ''length'' then STOP_REASON_LENGTH
      else if reason = ''stop_sequence'' then STOP_REASON_STOP_SEQUENCE
      else if reason = ''stop'' \<or> reason = ''end_of_sequence'' then STOP_REASON_END_OF_SEQUENCE
      else if reason = ''content_filter'' then STOP_REASON_CONTENT_FILTERED
      else if reason = ''inference_error'' then STOP_REASON_INFERENCE_ERROR
      else STOP_REASON_UNSPECIFIED)"

definition page_source :: "string \<Rightarrow> string \<Rightarrow> vlm_result \<Rightarrow> collector_source" where
  "page_source version job_model res =
     \<lparr>cs_collector = ''vlm-convert'', cs_model = job_model, cs_version = version,
      cs_raw_score = (if vr_has_logprobs res then Some (vr_mean_logprob res) else None),
      cs_raw_score_kind = (if vr_has_logprobs res then Some ''page_mean_token_logprob'' else None),
      cs_raw_score_samples = (if vr_has_logprobs res then Some (vr_scored_tokens res) else None)\<rparr>"

definition page_generation :: "string \<Rightarrow> string \<Rightarrow> vlm_result \<Rightarrow> generation_source" where
  "page_generation call_endpoint job_model res =
     \<lparr>gs_model = (if vr_model res = [] then job_model else vr_model res),
      gs_endpoint = endpoint_origin call_endpoint,
      gs_finish_reason = (if vr_finish_reason res = [] then None else Some (vr_finish_reason res)),
      gs_stop_reason = (if vr_finish_reason res = [] then STOP_REASON_UNSPECIFIED
                        else classify_stop (vr_finish_reason res)),
      gs_prompt_tokens = (if vr_has_usage res then Some (vr_prompt_tokens res) else None),
      gs_completion_tokens = (if vr_has_usage res then Some (vr_completion_tokens res) else None)\<rparr>"

definition page_hypothesis :: "token_alternative \<Rightarrow> hypothesis" where
  "page_hypothesis alt =
     \<lparr>hy_text = alt_token alt, hy_raw_score = alt_logprob alt,
      hy_raw_score_kind = map_option (\<lambda>_. ''token_logprob'') (alt_logprob alt)\<rparr>"

definition page_alternatives :: "generation_source \<Rightarrow> vlm_result \<Rightarrow> alternatives option" where
  "page_alternatives gen res =
     (if vr_alternatives res = [] then None
      else Some \<lparr>al_created_by = gs_model gen, al_hypotheses = map page_hypothesis (vr_alternatives res)\<rparr>)"

definition make_page :: "string \<Rightarrow> config \<Rightarrow> stream_plan \<Rightarrow> page_image \<Rightarrow> vlm_result \<Rightarrow> page_context" where
  "make_page version cfg plan img res =
     (let gen = page_generation (sp_endpoint plan) (sp_model plan) res
      in \<lparr>pg_no = im_page_no img, pg_width = im_width img, pg_height = im_height img,
          pg_png = im_png img,
          pg_crops = default_crop_budget\<lparr>cb_max_inline_bytes := max_page_crop_bytes cfg\<rparr>,
          pg_source = page_source version (sp_model plan) res,
          pg_generation = Some gen, pg_alternatives = page_alternatives gen res\<rparr>)"

section \<open>The event of a page\<close>

text \<open>Nothing when the call was cut short because nobody waits for the page.\<close>

definition convert_page ::
  "'d mapper \<Rightarrow> string \<Rightarrow> config \<Rightarrow> stream_plan \<Rightarrow> page_image \<Rightarrow> vlm_result \<Rightarrow> 'd event option" where
  "convert_page map_response version cfg plan img res =
     (if vr_cancelled res then None
      else if \<not> vr_ok res then Some (EvRaw (im_page_no img) [] (vr_error res))
      else case map_response (sp_format plan) (vr_text res) (make_page version cfg plan img res) of
             Inl map_error \<Rightarrow> Some (EvRaw (im_page_no img) (vr_text res) map_error)
           | Inr (document, warnings) \<Rightarrow> Some (EvDocument (im_page_no img) document warnings))"

text \<open>A throw out of \<^verbatim>\<open>convert_page\<close> fails the page; \<open>what\<close> is the exception's text.\<close>

definition internal_error :: "page_image \<Rightarrow> string \<Rightarrow> 'd event" where
  "internal_error img what = EvRaw (im_page_no img) [] (''internal error converting the page: '' @ what)"

definition is_raw :: "'d event \<Rightarrow> bool" where
  "is_raw e = (case e of EvRaw _ _ _ \<Rightarrow> True | _ \<Rightarrow> False)"

definition is_document :: "'d event \<Rightarrow> bool" where
  "is_document e = (case e of EvDocument _ _ _ \<Rightarrow> True | _ \<Rightarrow> False)"

definition is_started :: "'d event \<Rightarrow> bool" where
  "is_started e = (case e of EvStarted _ \<Rightarrow> True | _ \<Rightarrow> False)"

definition event_page :: "'d event \<Rightarrow> nat option" where
  "event_page e = (case e of EvStarted n \<Rightarrow> Some n | EvDocument n _ _ \<Rightarrow> Some n | EvRaw n _ _ \<Rightarrow> Some n
                           | EvComplete _ _ _ \<Rightarrow> None)"

section \<open>Properties\<close>

lemma convert_page_event:
  "convert_page mapper version cfg plan img res = Some e \<Longrightarrow>
     event_page e = Some (im_page_no img) \<and> (is_raw e \<or> is_document e)"
  by (auto simp: convert_page_def event_page_def is_raw_def is_document_def
      split: if_splits sum.splits)

lemma convert_page_None: "convert_page mapper version cfg plan img res = None \<longleftrightarrow> vr_cancelled res"
  by (auto simp: convert_page_def split: sum.splits)

lemma internal_error_event:
  "event_page (internal_error img what) = Some (im_page_no img)" "is_raw (internal_error img what)"
  by (simp_all add: internal_error_def event_page_def is_raw_def)

text \<open>
  The event of a page says what happened to it.  A page whose call and mapping
  succeeded is a document with the warnings of the mapper; a page the endpoint failed is a
  raw event with the endpoint's error and no text; a page that answered in the wrong
  format is a raw event that keeps the model's text beside the mapper's error; every event
  carries the page's own number, and a raw event never lacks both text and error.
\<close>

theorem convert_page_outcome:
  assumes "convert_page mapper version cfg plan img (fst (generate rnd dump parse_json w call)) = Some e"
    and "\<And>f t p m. mapper f t p = Inl m \<Longrightarrow> m \<noteq> []"
  shows "event_page e = Some (im_page_no img)
    \<and> (let res = fst (generate rnd dump parse_json w call)
       in (\<exists>d ws. e = EvDocument (im_page_no img) d ws \<and> vr_ok res
              \<and> mapper (sp_format plan) (vr_text res) (make_page version cfg plan img res) = Inr (d, ws))
        \<or> (\<exists>error. e = EvRaw (im_page_no img) [] error \<and> error \<noteq> [] \<and> \<not> vr_ok res)
        \<or> (\<exists>error. e = EvRaw (im_page_no img) (vr_text res) error \<and> error \<noteq> [] \<and> vr_ok res))"
proof -
  obtain res sent where g: "generate rnd dump parse_json w call = (res, sent)" by fastforce
  have "vr_ok res \<longleftrightarrow> vr_error res = []" by (rule generate_ok_error [OF g])
  with assms g show ?thesis
    by (auto simp: convert_page_def event_page_def Let_def split: if_splits sum.splits)
qed

definition sample_mapper :: "string mapper" where
  "sample_mapper f t p = (if t = [] then Inl ''empty'' else Inr (t, []))"

definition sample_image :: page_image where
  "sample_image = \<lparr>im_png = kPngMagic, im_page_no = 7, im_width = 10, im_height = 10\<rparr>"

theorem convert_page_outcome_witness:
  "\<exists>e. convert_page sample_mapper ''1'' key_config key_plan sample_image
         (fst (generate id (\<lambda>_. []) sample_parse sample_world sample_call)) = Some e
     \<and> event_page e = Some 7"
proof -
  let ?g = "generate id (\<lambda>_. []) sample_parse sample_world sample_call"
  have ok: "vr_ok (fst ?g)" and t: "vr_text (fst ?g) = ''page''"
    using sample_run by (auto split: prod.splits)
  obtain res sent where g: "?g = (res, sent)" by fastforce
  have "vr_cancelled (fst ?g) \<Longrightarrow> \<not> vr_ok (fst ?g)" using generate_not_cancelled [OF g] g by simp
  with ok t have c: "convert_page sample_mapper ''1'' key_config key_plan sample_image (fst ?g)
      = Some (EvDocument 7 ''page'' [])"
    by (auto simp: convert_page_def sample_mapper_def sample_image_def)
  have m: "m \<noteq> []" if "sample_mapper f t p = Inl m" for f t p m
    using that by (auto simp: sample_mapper_def split: if_splits)
  have "event_page (EvDocument 7 ''page'' [] :: string event) = Some (im_page_no sample_image)"
    by (rule convert_page_outcome [OF c m, THEN conjunct1])
  with c show ?thesis by (simp add: sample_image_def)
qed

end
