(* ===== verification/Channel.thy ===== *)
theory Channel
  imports Prelude
begin

text \<open>
  The closed FIFO \<^verbatim>\<open>Channel<T>\<close> of \<^verbatim>\<open>src/service/vlm_convert_service.cpp\<close>.  Every
  operation runs under the channel's mutex, so each is one step on its state.  A pop
  that would wait on the condition variable is \<open>PopWait\<close>; \<^verbatim>\<open>pop_for\<close> answers
  \<open>PopTimeout\<close> in that case.
\<close>

record 'a channel =
  queue :: "'a list"
  closed :: bool

datatype 'a popped = PopValue 'a | PopClosed | PopWait

datatype 'a popped_for = ForValue 'a | ForClosed | ForTimeout

definition new_channel :: "'a channel" where
  "new_channel = \<lparr>queue = [], closed = False\<rparr>"

definition push :: "'a \<Rightarrow> 'a channel \<Rightarrow> 'a channel" where
  "push x ch = ch\<lparr>queue := queue ch @ [x]\<rparr>"

definition close :: "'a channel \<Rightarrow> 'a channel" where
  "close ch = ch\<lparr>closed := True\<rparr>"

definition pop :: "'a channel \<Rightarrow> 'a popped \<times> 'a channel" where
  "pop ch =
     (if \<not> (closed ch \<or> queue ch \<noteq> []) then (PopWait, ch)
      else case queue ch of
             [] \<Rightarrow> (PopClosed, ch)
           | x # xs \<Rightarrow> (PopValue x, ch\<lparr>queue := xs\<rparr>))"

definition pop_for :: "'a channel \<Rightarrow> 'a popped_for \<times> 'a channel" where
  "pop_for ch =
     (if \<not> (closed ch \<or> queue ch \<noteq> []) then (ForTimeout, ch)
      else case queue ch of
             [] \<Rightarrow> (ForClosed, ch)
           | x # xs \<Rightarrow> (ForValue x, ch\<lparr>queue := xs\<rparr>))"

section \<open>What a client of the channel relies on\<close>

locale fifo =
  fixes empty :: "'q"
    and put :: "'a \<Rightarrow> 'q \<Rightarrow> 'q"
    and seal :: "'q \<Rightarrow> 'q"
    and get :: "'q \<Rightarrow> 'a popped \<times> 'q"
    and items :: "'q \<Rightarrow> 'a list"
    and sealed :: "'q \<Rightarrow> bool"
  assumes items_empty: "items empty = []"
    and sealed_empty: "\<not> sealed empty"
    and items_put: "items (put x q) = items q @ [x]"
    and sealed_put: "sealed (put x q) = sealed q"
    and items_seal: "items (seal q) = items q"
    and sealed_seal: "sealed (seal q)"
    and get_value: "items q = x # xs \<Longrightarrow> \<exists>q'. get q = (PopValue x, q') \<and> items q' = xs \<and> sealed q' = sealed q"
    and get_closed: "items q = [] \<Longrightarrow> sealed q \<Longrightarrow> get q = (PopClosed, q)"
    and get_wait: "items q = [] \<Longrightarrow> \<not> sealed q \<Longrightarrow> get q = (PopWait, q)"
begin

lemma get_closed_iff: "fst (get q) = PopClosed \<longleftrightarrow> items q = [] \<and> sealed q"
proof (cases "items q")
  case Nil
  then show ?thesis using get_closed get_wait by (cases "sealed q") auto
next
  case (Cons x xs)
  then obtain q' where "get q = (PopValue x, q')" using get_value by blast
  with Cons show ?thesis by simp
qed

lemma get_value_iff: "get q = (PopValue x, q') \<Longrightarrow> items q = x # items q' \<and> sealed q' = sealed q"
  using get_value [of q] get_closed [of q] get_wait [of q]
  by (cases "items q"; cases "sealed q") auto

primrec pops :: "nat \<Rightarrow> 'q \<Rightarrow> 'a list \<times> 'q" where
  "pops 0 q = ([], q)"
| "pops (Suc n) q =
     (case get q of
        (PopValue x, q') \<Rightarrow> (let (xs, q'') = pops n q' in (x # xs, q''))
      | (_, q') \<Rightarrow> ([], q'))"

lemma pops_drain: "pops (length (items q)) q = (items q, snd (pops (length (items q)) q))
    \<and> items (snd (pops (length (items q)) q)) = []
    \<and> sealed (snd (pops (length (items q)) q)) = sealed q"
proof (induction "items q" arbitrary: q)
  case Nil
  then show ?case by simp
next
  case (Cons x xs)
  then obtain q' where q': "get q = (PopValue x, q')" "items q' = xs" "sealed q' = sealed q"
    using get_value by metis
  have "pops (length xs) q' = (xs, snd (pops (length xs) q'))"
    and "items (snd (pops (length xs) q')) = []"
    and "sealed (snd (pops (length xs) q')) = sealed q"
    using Cons.hyps(1) [of q'] q' by auto
  with q' show ?case
    unfolding Cons.hyps(2) [symmetric] by (cases "pops (length xs) q'") auto
qed

end

interpretation chan: fifo new_channel push close pop queue closed
  by unfold_locales
    (auto simp: new_channel_def push_def close_def pop_def split: list.splits)

lemma pop_for_pop:
  "pop_for ch = (case pop ch of
      (PopValue x, ch') \<Rightarrow> (ForValue x, ch')
    | (PopClosed, ch') \<Rightarrow> (ForClosed, ch')
    | (PopWait, ch') \<Rightarrow> (ForTimeout, ch'))"
  by (auto simp: pop_for_def pop_def split: list.splits)

primrec pop_n :: "nat \<Rightarrow> 'a channel \<Rightarrow> 'a list \<times> 'a channel" where
  "pop_n 0 ch = ([], ch)"
| "pop_n (Suc n) ch =
     (case pop ch of
        (PopValue x, ch') \<Rightarrow> (let (xs, ch'') = pop_n n ch' in (x # xs, ch''))
      | (_, ch') \<Rightarrow> ([], ch'))"

lemma pop_n_pops: "pop_n n ch = chan.pops n ch"
  by (induction n arbitrary: ch) (simp_all split: popped.splits prod.splits)

definition send_all :: "'a list \<Rightarrow> 'a channel" where
  "send_all xs = close (fold push xs new_channel)"

lemma queue_fold_push: "queue (fold push xs ch) = queue ch @ xs \<and> closed (fold push xs ch) = closed ch"
  by (induction xs arbitrary: ch) (simp_all add: push_def)

text \<open>
  A channel delivers what was pushed, all of it and in order, before it reports
  that it is closed: popping a closed channel as often as it was pushed to gives
  exactly the pushed values, and the next pop says closed.
\<close>

theorem channel_delivers_in_order:
  "pop_n (length xs) (send_all xs) = (xs, snd (pop_n (length xs) (send_all xs)))
   \<and> fst (pop (snd (pop_n (length xs) (send_all xs)))) = PopClosed"
proof -
  have q: "queue (send_all xs) = xs" and c: "closed (send_all xs)"
    using queue_fold_push [of xs new_channel]
    by (simp_all add: send_all_def close_def new_channel_def)
  from chan.pops_drain [of "send_all xs"] q c
  show ?thesis by (simp add: chan.get_closed_iff pop_n_pops)
qed

end
