(* ===== verification/Budget.thy ===== *)
theory Budget
  imports Prelude
begin

text \<open>
  \<^verbatim>\<open>src/service/budget.h\<close>: the counting budget with first-come, first-served
  acquisition, and its leases.  \<^verbatim>\<open>acquire\<close> is split where its loop gives up the mutex:
  \<open>acquire_enter\<close> is what runs before the loop, \<open>acquire_poll\<close> is one turn of the
  loop, and a turn that goes on waiting is \<open>Waiting\<close>.  Waiters are named, so that the
  list iterator \<^verbatim>\<open>me\<close> is the waiter's name.  Sums are \<^verbatim>\<open>size_t\<close>: they wrap at 2^64, and
  that they never do is part of the invariant.

  A \<open>ledger\<close> is a budget together with the leases outstanding on it, each under the
  name of its holder.
\<close>

section \<open>The budget\<close>

record 'w budget =
  capacity :: nat
  used :: nat
  line :: "('w \<times> nat) list"

datatype poll_result = Took nat | GaveUp | Waiting

definition new_budget :: "nat \<Rightarrow> 'w budget" where
  "new_budget cap = \<lparr>capacity = max cap 1, used = 0, line = []\<rparr>"

definition acquire_enter :: "'w \<Rightarrow> nat \<Rightarrow> 'w budget \<Rightarrow> 'w budget" where
  "acquire_enter w amount b = b\<lparr>line := line b @ [(w, std_clamp amount 1 (capacity b))]\<rparr>"

definition erase_waiter :: "'w \<Rightarrow> ('w \<times> nat) list \<Rightarrow> ('w \<times> nat) list" where
  "erase_waiter w ws = filter (\<lambda>(v, _). v \<noteq> w) ws"

definition at_front :: "'w \<Rightarrow> 'w budget \<Rightarrow> bool" where
  "at_front w b \<longleftrightarrow> (case line b of [] \<Rightarrow> False | (v, _) # _ \<Rightarrow> v = w)"

definition acquire_poll :: "'w \<Rightarrow> nat \<Rightarrow> bool \<Rightarrow> 'w budget \<Rightarrow> poll_result \<times> 'w budget" where
  "acquire_poll w amount halted b =
     (if at_front w b \<and> (used b + amount) mod 2 ^ 64 \<le> capacity b
      then (Took amount, b\<lparr>used := (used b + amount) mod 2 ^ 64, line := erase_waiter w (line b)\<rparr>)
      else if halted then (GaveUp, b\<lparr>line := erase_waiter w (line b)\<rparr>)
      else (Waiting, b))"

definition budget_release :: "nat \<Rightarrow> 'w budget \<Rightarrow> 'w budget" where
  "budget_release amount b = b\<lparr>used := (used b + 2 ^ 64 - amount) mod 2 ^ 64\<rparr>"

section \<open>Leases\<close>

text \<open>
  One lease object: empty, or an amount taken from its budget.  \<^verbatim>\<open>reset\<close> gives the amount
  back once; move construction and move assignment hand it over and leave the source
  empty, the target's own amount going back first.
\<close>

datatype lease = EmptyLease | Lease nat

fun lease_reset :: "lease \<Rightarrow> 'w budget \<Rightarrow> lease \<times> 'w budget" where
  "lease_reset EmptyLease b = (EmptyLease, b)"
| "lease_reset (Lease amount) b = (EmptyLease, budget_release amount b)"

definition lease_move :: "lease \<Rightarrow> lease \<times> lease" where
  "lease_move other = (other, EmptyLease)"

definition lease_assign :: "lease \<Rightarrow> lease \<Rightarrow> 'w budget \<Rightarrow> lease \<times> lease \<times> 'w budget" where
  "lease_assign target other b = (other, EmptyLease, snd (lease_reset target b))"

section \<open>The budget with its outstanding leases\<close>

record 'w ledger =
  bud :: "'w budget"
  held :: "'w \<rightharpoonup> nat"

definition new_ledger :: "nat \<Rightarrow> 'w ledger" where
  "new_ledger cap = \<lparr>bud = new_budget cap, held = Map.empty\<rparr>"

definition waiting :: "'w ledger \<Rightarrow> ('w \<times> nat) list" where
  "waiting L = line (bud L)"

definition limit :: "'w ledger \<Rightarrow> nat" where
  "limit L = capacity (bud L)"

definition ledger_enter :: "'w \<Rightarrow> nat \<Rightarrow> 'w ledger \<Rightarrow> 'w ledger" where
  "ledger_enter w amount L = L\<lparr>bud := acquire_enter w amount (bud L)\<rparr>"

definition ledger_poll :: "'w \<Rightarrow> bool \<Rightarrow> 'w ledger \<Rightarrow> poll_result \<times> 'w ledger" where
  "ledger_poll w halted L =
     (case map_of (waiting L) w of
        None \<Rightarrow> (Waiting, L)
      | Some amount \<Rightarrow>
          (case acquire_poll w amount halted (bud L) of
             (Took a, b) \<Rightarrow> (Took a, L\<lparr>bud := b, held := (held L)(w \<mapsto> a)\<rparr>)
           | (r, b) \<Rightarrow> (r, L\<lparr>bud := b\<rparr>)))"

definition ledger_release :: "'w \<Rightarrow> 'w ledger \<Rightarrow> 'w ledger" where
  "ledger_release w L =
     (case held L w of
        None \<Rightarrow> L
      | Some a \<Rightarrow> L\<lparr>bud := snd (lease_reset (Lease a) (bud L)), held := (held L)(w := None)\<rparr>)"

definition total_held :: "('w \<rightharpoonup> nat) \<Rightarrow> nat" where
  "total_held h = (\<Sum>w\<in>dom h. the (h w))"

definition ledger_inv :: "'w ledger \<Rightarrow> bool" where
  "ledger_inv L \<longleftrightarrow>
     1 \<le> limit L \<and> limit L < 2 ^ 63
     \<and> finite (dom (held L))
     \<and> used (bud L) = total_held (held L) \<and> used (bud L) \<le> limit L
     \<and> (\<forall>w a. (w, a) \<in> set (waiting L) \<longrightarrow> 1 \<le> a \<and> a \<le> limit L \<and> held L w = None)
     \<and> (\<forall>w a. held L w = Some a \<longrightarrow> 1 \<le> a)
     \<and> distinct (map fst (waiting L))"

lemmas ledger_ops = ledger_enter_def ledger_poll_def ledger_release_def waiting_def limit_def
  acquire_enter_def acquire_poll_def budget_release_def

section \<open>What a client of a budget relies on\<close>

locale counting_budget =
  fixes inv :: "'b \<Rightarrow> bool"
    and queued :: "'b \<Rightarrow> ('w \<times> nat) list"
    and owned :: "'b \<Rightarrow> 'w \<rightharpoonup> nat"
    and cap :: "'b \<Rightarrow> nat"
    and enter :: "'w \<Rightarrow> nat \<Rightarrow> 'b \<Rightarrow> 'b"
    and poll :: "'w \<Rightarrow> bool \<Rightarrow> 'b \<Rightarrow> poll_result \<times> 'b"
    and release :: "'w \<Rightarrow> 'b \<Rightarrow> 'b"
  assumes owned_finite: "inv b \<Longrightarrow> finite (dom (owned b))"
    and owned_total: "inv b \<Longrightarrow> total_held (owned b) \<le> cap b"
    and owned_pos: "inv b \<Longrightarrow> owned b w = Some a \<Longrightarrow> 1 \<le> a"
    and queued_bounds: "inv b \<Longrightarrow> (w, a) \<in> set (queued b) \<Longrightarrow> 1 \<le> a \<and> a \<le> cap b"
    and queued_distinct: "inv b \<Longrightarrow> distinct (map fst (queued b))"
    and enter_inv: "inv b \<Longrightarrow> w \<notin> fst ` set (queued b) \<Longrightarrow> owned b w = None \<Longrightarrow> inv (enter w n b)"
    and enter_queued: "queued (enter w n b) = queued b @ [(w, std_clamp n 1 (cap b))]"
    and enter_owned: "owned (enter w n b) = owned b"
    and enter_cap: "cap (enter w n b) = cap b"
    and poll_inv: "inv b \<Longrightarrow> inv (snd (poll w h b))"
    and poll_cap: "cap (snd (poll w h b)) = cap b"
    and poll_took: "inv b \<Longrightarrow> poll w h b = (Took a, b') \<Longrightarrow>
        queued b = (w, a) # queued b' \<and> owned b' = (owned b)(w \<mapsto> a)"
    and poll_gave_up: "inv b \<Longrightarrow> poll w h b = (GaveUp, b') \<Longrightarrow>
        h \<and> queued b' = erase_waiter w (queued b) \<and> owned b' = owned b"
    and poll_front: "inv b \<Longrightarrow> queued b = (w, a) # rest \<Longrightarrow> total_held (owned b) + a \<le> cap b \<Longrightarrow>
        fst (poll w h b) = Took a"
    and poll_halted: "inv b \<Longrightarrow> w \<in> fst ` set (queued b) \<Longrightarrow> fst (poll w True b) \<noteq> Waiting"
    and release_inv: "inv b \<Longrightarrow> inv (release w b)"
    and release_queued: "queued (release w b) = queued b"
    and release_owned: "owned (release w b) = (owned b)(w := None)"
    and release_cap: "cap (release w b) = cap b"
begin

text \<open>As many can hold something at once as the budget has units.\<close>

lemma owners_bounded:
  assumes "inv b"
  shows "card (dom (owned b)) \<le> cap b"
proof -
  have "card (dom (owned b)) = (\<Sum>w\<in>dom (owned b). 1)" by simp
  also have "\<dots> \<le> total_held (owned b)"
    unfolding total_held_def
  proof (rule sum_mono)
    fix w assume "w \<in> dom (owned b)"
    then obtain a where "owned b w = Some a" by auto
    with owned_pos [OF assms] show "1 \<le> the (owned b w)" by simp
  qed
  finally show ?thesis using owned_total [OF assms] by linarith
qed

text \<open>
  Nobody waits for nothing: when the waiter in front cannot take, somebody holds a
  lease whose return will let it.
\<close>

lemma front_takes_or_blocked:
  assumes "inv b" and "queued b = (w, a) # rest"
  shows "fst (poll w h b) = Took a \<or> dom (owned b) \<noteq> {}"
proof (rule disjCI)
  assume "\<not> dom (owned b) \<noteq> {}"
  then have "total_held (owned b) + a \<le> cap b"
    using queued_bounds [OF assms(1), of w a] assms(2) by (simp add: total_held_def)
  with assms show "fst (poll w h b) = Took a" by (rule poll_front)
qed

lemma took_front: "inv b \<Longrightarrow> poll w h b = (Took a, b') \<Longrightarrow> hd (queued b) = (w, a)"
  by (drule (1) poll_took) simp

end

section \<open>The budget keeps that contract\<close>

lemma total_held_upd:
  assumes "finite (dom h)" and "h w = None"
  shows "total_held (h(w \<mapsto> a)) = total_held h + a"
proof -
  have "total_held (h(w \<mapsto> a)) = (\<Sum>v\<in>insert w (dom h). the ((h(w \<mapsto> a)) v))"
    by (simp add: total_held_def)
  also have "\<dots> = a + (\<Sum>v\<in>dom h. the ((h(w \<mapsto> a)) v))"
    using assms by (subst sum.insert) auto
  also have "(\<Sum>v\<in>dom h. the ((h(w \<mapsto> a)) v)) = total_held h"
    unfolding total_held_def using assms(2) by (intro sum.cong) auto
  finally show ?thesis by (simp only: add.commute)
qed

lemma total_held_del:
  assumes "finite (dom h)" and "h w = Some a"
  shows "total_held h = total_held (h(w := None)) + a"
proof -
  have "total_held ((h(w := None))(w \<mapsto> a)) = total_held (h(w := None)) + a"
    using assms(1) by (intro total_held_upd) auto
  moreover have "(h(w := None))(w \<mapsto> a) = h" using assms(2) by auto
  ultimately show ?thesis by simp
qed

lemma ledger_invD:
  assumes "ledger_inv L"
  shows "1 \<le> limit L" "limit L < 2 ^ 63" "finite (dom (held L))"
    "used (bud L) = total_held (held L)" "used (bud L) \<le> limit L"
    "(w, a) \<in> set (waiting L) \<Longrightarrow> 1 \<le> a \<and> a \<le> limit L"
    "held L w = Some a \<Longrightarrow> 1 \<le> a"
    "distinct (map fst (waiting L))"
    "(w, a) \<in> set (waiting L) \<Longrightarrow> held L w = None"
  using assms by (simp_all add: ledger_inv_def)

text \<open>No sum of the budget wraps.\<close>

lemma no_wrap:
  assumes "ledger_inv L" and "a \<le> limit L"
  shows "(used (bud L) + a) mod 2 ^ 64 = used (bud L) + a"
proof -
  have "used (bud L) + a < 2 ^ 63 + 2 ^ 63"
    using ledger_invD(2,5) [OF assms(1)] assms(2) by linarith
  then show ?thesis by simp
qed

lemma ledger_inv_new: "cap < 2 ^ 63 \<Longrightarrow> ledger_inv (new_ledger cap)"
  by (simp add: ledger_inv_def new_ledger_def new_budget_def waiting_def limit_def total_held_def)

lemma ledger_inv_enter:
  assumes "ledger_inv L" and "w \<notin> fst ` set (waiting L)" and "held L w = None"
  shows "ledger_inv (ledger_enter w n L)"
  using assms std_clamp_bounds [of 1 "limit L" n]
  by (auto simp: ledger_inv_def ledger_enter_def acquire_enter_def waiting_def limit_def)

lemma erase_front:
  assumes "distinct (map fst ((w, a) # rest))"
  shows "erase_waiter w ((w, a) # rest) = rest"
  using assms by (auto simp: erase_waiter_def filter_id_conv rev_image_eqI)

lemma distinct_erase: "distinct (map fst ws) \<Longrightarrow> distinct (map fst (erase_waiter w ws))"
  by (simp add: erase_waiter_def distinct_map_filter)

lemma ledger_poll_took:
  assumes "ledger_inv L" and "ledger_poll w h L = (Took a, L')"
  shows "waiting L = (w, a) # waiting L' \<and> held L' = (held L)(w \<mapsto> a)
    \<and> used (bud L') = used (bud L) + a \<and> used (bud L) + a \<le> limit L \<and> limit L' = limit L"
proof -
  obtain b where m: "map_of (waiting L) w = Some a" and f: "at_front w (bud L)"
    and fit: "(used (bud L) + a) mod 2 ^ 64 \<le> limit L"
    and L': "L' = L\<lparr>bud := b, held := (held L)(w \<mapsto> a)\<rparr>"
    and b: "b = (bud L)\<lparr>used := (used (bud L) + a) mod 2 ^ 64, line := erase_waiter w (line (bud L))\<rparr>"
    using assms(2)
    by (auto simp: ledger_poll_def acquire_poll_def limit_def split: option.splits if_splits)
  from f obtain a' rest where front: "waiting L = (w, a') # rest"
    by (auto simp: at_front_def waiting_def split: list.splits)
  with m have a': "a' = a" by simp
  have "a \<le> limit L" using ledger_invD(6) [OF assms(1), of w a] front a' by simp
  then have nw: "(used (bud L) + a) mod 2 ^ 64 = used (bud L) + a"
    by (rule no_wrap [OF assms(1)])
  have "erase_waiter w (waiting L) = rest"
    using erase_front [of w a' rest] ledger_invD(8) [OF assms(1)] front by simp
  then show ?thesis
    using front a' fit nw L' b by (simp add: waiting_def limit_def)
qed

lemma ledger_poll_other:
  assumes "ledger_poll w h L = (r, L')" and "\<forall>a. r \<noteq> Took a"
  shows "held L' = held L \<and> limit L' = limit L \<and> used (bud L') = used (bud L)
    \<and> (waiting L' = waiting L \<or> (r = GaveUp \<and> h \<and> waiting L' = erase_waiter w (waiting L)))
    \<and> (r = GaveUp \<longrightarrow> h \<and> waiting L' = erase_waiter w (waiting L))"
  using assms
  by (auto simp: ledger_poll_def acquire_poll_def waiting_def limit_def
      split: option.splits if_splits)

lemma ledger_inv_poll:
  assumes "ledger_inv L"
  shows "ledger_inv (snd (ledger_poll w h L))"
proof (cases "ledger_poll w h L")
  case (Pair r L')
  show ?thesis
  proof (cases "\<exists>a. r = Took a")
    case True
    then obtain a where a: "r = Took a" ..
    with Pair ledger_poll_took [OF assms] have t:
      "waiting L = (w, a) # waiting L'" "held L' = (held L)(w \<mapsto> a)"
      "used (bud L') = used (bud L) + a" "used (bud L) + a \<le> limit L" "limit L' = limit L"
      by blast+
    have "held L w = None" and "1 \<le> a"
      using ledger_invD(6,9) [OF assms, of w a] t(1) by simp_all
    with t assms Pair show ?thesis
      by (auto simp: ledger_inv_def total_held_upd rev_image_eqI)
  next
    case False
    with Pair have "\<forall>a. r \<noteq> Took a" by blast
    from ledger_poll_other [OF Pair this] assms Pair show ?thesis
      by (auto simp: ledger_inv_def erase_waiter_def distinct_map_filter)
  qed
qed

lemma ledger_poll_front:
  assumes "ledger_inv L" and "waiting L = (w, a) # rest" and "total_held (held L) + a \<le> limit L"
  shows "fst (ledger_poll w h L) = Took a"
proof -
  have "a \<le> limit L" using assms(3) by simp
  then have "(used (bud L) + a) mod 2 ^ 64 \<le> capacity (bud L)"
    using no_wrap [OF assms(1)] ledger_invD(4) [OF assms(1)] assms(3) by (simp add: limit_def)
  moreover have "at_front w (bud L)"
    using assms(2) by (simp add: at_front_def waiting_def)
  ultimately show ?thesis
    using assms(2) by (simp add: ledger_poll_def acquire_poll_def)
qed

lemma ledger_poll_halted:
  "w \<in> fst ` set (waiting L) \<Longrightarrow> fst (ledger_poll w True L) \<noteq> Waiting"
  by (auto simp: ledger_poll_def acquire_poll_def dest: weak_map_of_SomeI split: option.splits)

lemma ledger_release_Some:
  assumes "ledger_inv L" and "held L w = Some a"
  shows "used (bud (ledger_release w L)) = used (bud L) - a \<and> a \<le> used (bud L)"
proof -
  have le: "a \<le> used (bud L)"
    using total_held_del [OF ledger_invD(3) [OF assms(1)] assms(2)] ledger_invD(4) [OF assms(1)] by simp
  have "used (bud L) < 2 ^ 64" using ledger_invD(2,5) [OF assms(1)] by simp
  with le have "(used (bud L) + 2 ^ 64 - a) mod 2 ^ 64 = used (bud L) - a"
  proof -
    have "used (bud L) + 2 ^ 64 - a = (used (bud L) - a) + 2 ^ 64" using le by simp
    also have "\<dots> mod 2 ^ 64 = (used (bud L) - a) mod 2 ^ 64" by (rule mod_add_self2)
    also have "\<dots> = used (bud L) - a" using \<open>used (bud L) < 2 ^ 64\<close> by (intro mod_less) simp
    finally show ?thesis .
  qed
  with assms(2) le show ?thesis by (simp add: ledger_release_def budget_release_def)
qed

lemma ledger_release_frame:
  "waiting (ledger_release w L) = waiting L" "limit (ledger_release w L) = limit L"
  "held (ledger_release w L) = (held L)(w := None)"
  by (auto simp: ledger_release_def budget_release_def waiting_def limit_def split: option.splits)

lemma ledger_inv_release:
  assumes "ledger_inv L"
  shows "ledger_inv (ledger_release w L)"
proof (cases "held L w")
  case None
  with assms show ?thesis by (simp add: ledger_release_def)
next
  case (Some a)
  have "total_held (held L) = total_held ((held L)(w := None)) + a"
    using total_held_del [OF ledger_invD(3) [OF assms] Some] .
  with assms ledger_release_Some [OF assms Some] ledger_release_frame [of w L]
  show ?thesis by (auto simp: ledger_inv_def)
qed

interpretation lb: counting_budget ledger_inv waiting held limit ledger_enter ledger_poll ledger_release
proof unfold_locales
  fix L :: "'w ledger" and w :: 'w and h a L'
  assume inv: "ledger_inv L"
  show "finite (dom (held L))" and "total_held (held L) \<le> limit L"
    and "distinct (map fst (waiting L))"
    using ledger_invD(3,4,5,8) [OF inv] by simp_all
  show "held L w = Some a \<Longrightarrow> 1 \<le> a"
    and "(w, a) \<in> set (waiting L) \<Longrightarrow> 1 \<le> a \<and> a \<le> limit L"
    using ledger_invD(6,7) [OF inv] by blast+
  show "ledger_inv (snd (ledger_poll w h L))" and "ledger_inv (ledger_release w L)"
    using inv by (rule ledger_inv_poll, rule ledger_inv_release)
  show "ledger_poll w h L = (Took a, L') \<Longrightarrow>
      waiting L = (w, a) # waiting L' \<and> held L' = (held L)(w \<mapsto> a)"
    using ledger_poll_took [OF inv] by blast
  show "ledger_poll w h L = (GaveUp, L') \<Longrightarrow>
      h \<and> waiting L' = erase_waiter w (waiting L) \<and> held L' = held L"
    using ledger_poll_other [of w h L GaveUp L'] by simp
  show "w \<in> fst ` set (waiting L) \<Longrightarrow> fst (ledger_poll w True L) \<noteq> Waiting"
    by (rule ledger_poll_halted)
next
  fix L :: "'w ledger" and w :: 'w and n h
  show "waiting (ledger_enter w n L) = waiting L @ [(w, std_clamp n 1 (limit L))]"
    and "held (ledger_enter w n L) = held L" and "limit (ledger_enter w n L) = limit L"
    by (simp_all add: ledger_ops)
  show "limit (snd (ledger_poll w h L)) = limit L"
    by (auto simp: ledger_ops split: option.splits)
qed (simp_all add: ledger_inv_enter ledger_poll_front ledger_release_frame)

section \<open>Runs: any number of holders, in any order\<close>

text \<open>
  A run of the budget, with the waiters in the order in which they entered the line and
  in the order in which they were granted.  A thread waits or holds at most once at a
  time, which is the freshness premise of \<open>enter\<close>.
\<close>

inductive budget_run :: "nat \<Rightarrow> 'w list \<Rightarrow> 'w list \<Rightarrow> 'w ledger \<Rightarrow> bool" for cap where
  start: "budget_run cap [] [] (new_ledger cap)"
| enter: "budget_run cap es gs L \<Longrightarrow> w \<notin> fst ` set (waiting L) \<Longrightarrow> held L w = None \<Longrightarrow>
    budget_run cap (es @ [w]) gs (ledger_enter w n L)"
| take: "budget_run cap es gs L \<Longrightarrow> ledger_poll w h L = (Took a, L') \<Longrightarrow>
    budget_run cap es (gs @ [w]) L'"
| leave: "budget_run cap es gs L \<Longrightarrow> ledger_poll w h L = (GaveUp, L') \<Longrightarrow> budget_run cap es gs L'"
| release: "budget_run cap es gs L \<Longrightarrow> budget_run cap es gs (ledger_release w L)"

lemma budget_run_inv:
  "budget_run cap es gs L \<Longrightarrow> cap < 2 ^ 63 \<Longrightarrow> ledger_inv L \<and> limit L = max cap 1"
proof (induction rule: budget_run.induct)
  case start
  then show ?case
    by (simp add: ledger_inv_new) (simp add: new_ledger_def new_budget_def limit_def)
next
  case (enter es gs L w n)
  then show ?case by (simp add: lb.enter_inv lb.enter_cap)
next
  case (take es gs L w h a L')
  then show ?case using lb.poll_inv [of L w h] lb.poll_cap [of w h L] by simp
next
  case (leave es gs L w h L')
  then show ?case using lb.poll_inv [of L w h] lb.poll_cap [of w h L] by simp
next
  case (release es gs L w)
  then show ?case by (simp add: lb.release_inv lb.release_cap)
qed

lemma map_fst_erase: "map fst (erase_waiter w ws) = filter (\<lambda>v. v \<noteq> w) (map fst ws)"
  by (induction ws) (auto simp: erase_waiter_def)

lemma budget_run_order:
  "budget_run cap es gs L \<Longrightarrow> cap < 2 ^ 63 \<Longrightarrow> subseq (gs @ map fst (waiting L)) es"
proof (induction rule: budget_run.induct)
  case start
  then show ?case by (simp add: new_ledger_def new_budget_def waiting_def)
next
  case (enter es gs L w n)
  then show ?case by (simp add: lb.enter_queued flip: append_assoc)
next
  case (take es gs L w h a L')
  then have "ledger_inv L" using budget_run_inv by blast
  with take lb.poll_took [of L w h a L'] show ?case by simp
next
  case (leave es gs L w h L')
  then have "ledger_inv L" using budget_run_inv by blast
  with leave.hyps(2) have "waiting L' = erase_waiter w (waiting L)"
    using lb.poll_gave_up [of L w h L'] by simp
  then have "subseq (gs @ map fst (waiting L')) (gs @ map fst (waiting L))"
    by (simp add: map_fst_erase subseq_append')
  then show ?case using leave.IH leave.prems subseq_order.trans by metis
next
  case (release es gs L w)
  then show ?case by (simp add: lb.release_queued)
qed

text \<open>
  C13: whatever waiters do, in whatever order, a budget never lends more than its
  capacity, counts exactly what its outstanding leases hold, never wraps its counter,
  and so has at most as many holders as it has units.
\<close>

theorem budget_never_overdrawn:
  assumes "cap < 2 ^ 63" and "budget_run cap es gs L"
  shows "used (bud L) = total_held (held L) \<and> total_held (held L) \<le> max cap 1
    \<and> card (dom (held L)) \<le> max cap 1"
proof -
  from assms have "ledger_inv L" and "limit L = max cap 1"
    using budget_run_inv by blast+
  then show ?thesis
    using lb.owned_total [of L] lb.owners_bounded [of L] ledger_invD(4) [of L] by simp
qed

lemma two_waiters_run:
  "budget_run 5 [0, 1] [0 :: nat]
     (snd (ledger_poll 0 False (ledger_enter 1 9 (ledger_enter 0 3 (new_ledger 5)))))"
proof -
  have "budget_run 5 ([] @ [0 :: nat]) [] (ledger_enter 0 3 (new_ledger 5))"
    by (rule budget_run.enter [OF budget_run.start])
      (simp_all add: new_ledger_def new_budget_def waiting_def)
  then have "budget_run 5 (([] @ [0 :: nat]) @ [1]) [] (ledger_enter 1 9 (ledger_enter 0 3 (new_ledger 5)))"
    by (rule budget_run.enter) (simp_all add: new_ledger_def new_budget_def ledger_ops)
  then have "budget_run 5 (([] @ [0 :: nat]) @ [1]) ([] @ [0])
      (snd (ledger_poll 0 False (ledger_enter 1 9 (ledger_enter 0 3 (new_ledger 5)))))"
    by (rule budget_run.take [where h = False and a = 3])
      (simp add: new_ledger_def new_budget_def ledger_ops at_front_def std_clamp_def)
  then show ?thesis by simp
qed

theorem budget_never_overdrawn_witness:
  "(5 :: nat) < 2 ^ 63 \<and>
   (let L = snd (ledger_poll 0 False (ledger_enter (1 :: nat) 9 (ledger_enter 0 3 (new_ledger 5))))
    in budget_run 5 [0, 1] [0] L \<and> used (bud L) = 3 \<and> total_held (held L) \<le> 5)"
  using budget_never_overdrawn [OF _ two_waiters_run] two_waiters_run
  by (simp add: Let_def new_ledger_def new_budget_def ledger_ops at_front_def std_clamp_def)

text \<open>
  C14: first come, first served: who was granted, followed by who still waits, is in
  arrival order, with only those missing that left the line because their stream halted.
\<close>

theorem budget_first_come_first_served:
  assumes "cap < 2 ^ 63" and "budget_run cap es gs L"
  shows "subseq (gs @ map fst (waiting L)) es"
  using assms budget_run_order by blast

theorem budget_first_come_first_served_witness:
  "(5 :: nat) < 2 ^ 63 \<and>
   (let L = snd (ledger_poll 0 False (ledger_enter (1 :: nat) 9 (ledger_enter 0 3 (new_ledger 5))))
    in budget_run 5 [0, 1] [0] L \<and> subseq ([0] @ map fst (waiting L)) [0, 1])"
  using budget_first_come_first_served [OF _ two_waiters_run] two_waiters_run
  by (simp add: Let_def)

end
