(* ===== verification/Pipeline.thy ===== *)
theory Pipeline
  imports Convert_Page Channel Budget
begin

text \<open>
  The page pipeline of \<^verbatim>\<open>ConvertPagesCore\<close> (\<^verbatim>\<open>src/service/vlm_convert_service.cpp\<close>) with
  all of its threads, for any number of streams at once: reader, jobs, workers, events,
  writer, with the stream's byte budget, the process's byte budget and the process's
  in-flight slots.

  A thread is where it stands in its code (\<open>reader\<close>, \<open>worker\<close>, \<open>writer\<close>), and an action is
  what one thread does between two points where another thread can come in: one access to
  a budget, a channel, a flag, or a run of accesses to what only that thread changes.
  \<open>exec\<close> is the effect of an action; an action that has to wait is not possible (\<open>None\<close>).
  What the outside decides is part of the action: the message the transport hands over,
  whether a write is taken, whether the client cancelled, and what the call of a page
  returned.  A page has a number of its own within its stream (\<open>pj_id\<close>), under which its
  leases are kept.
\<close>

section \<open>State\<close>

type_synonym owner = "nat \<times> nat"

record page_job =
  pj_id :: nat
  pj_image :: page_image

definition job_bytes :: "page_job \<Rightarrow> nat" where
  "job_bytes j = length (im_png (pj_image j))"

datatype reader =
    RCheck
  | RRead
  | RWaitStream page_job
  | RTookStream page_job
  | RWaitProcess page_job
  | RAnnounce page_job
  | RQueue page_job
  | RExit
  | RClose
  | RJoinWorkers
  | RJoinWriter
  | RFinish
  | RReturned status

datatype worker =
    WIdle
  | WLook page_job
  | WWait page_job
  | WConvert page_job
  | WPushed page_job bool
  | WDropSlot page_job
  | WDropJob page_job
  | WDone

datatype 'd writer =
    WrLoop
  | WrWrite "'d event"
  | WrDone

record 'd stream =
  st_plan :: stream_plan
  st_reader :: reader
  st_workers :: "worker list"
  st_writer :: "'d writer"
  st_jobs :: "page_job channel"
  st_events :: "'d event channel"
  st_bytes :: "owner ledger"
  st_next :: nat
  st_started :: nat
  st_ok :: nat
  st_failed :: nat
  st_halt :: bool
  st_gone :: bool
  st_saw_input :: bool
  st_status :: status
  st_out :: "'d event list"

record counters =
  converted :: nat
  rejected :: nat
  failed :: nat
  pages_ok :: nat
  pages_failed :: nat
  pages_finished :: nat

record shared =
  sh_buffered :: "owner ledger"
  sh_slots :: "owner ledger"
  sh_counters :: counters

record 'd process =
  pr_streams :: "nat \<rightharpoonup> 'd stream"
  pr_shared :: shared

definition new_process :: "config \<Rightarrow> 'd process" where
  "new_process cfg =
     \<lparr>pr_streams = Map.empty,
      pr_shared = \<lparr>sh_buffered = new_ledger (max_buffered_bytes cfg),
                   sh_slots = new_ledger (max_inflight cfg),
                   sh_counters = \<lparr>converted = 0, rejected = 0, failed = 0, pages_ok = 0,
                                  pages_failed = 0, pages_finished = 0\<rparr>\<rparr>\<rparr>"

definition status_ok :: status where
  "status_ok = (StatusOK, [])"

definition new_stream :: "config \<Rightarrow> stream_plan \<Rightarrow> 'd stream" where
  "new_stream cfg plan =
     \<lparr>st_plan = plan, st_reader = RCheck, st_workers = replicate (sp_concurrency plan) WIdle,
      st_writer = WrLoop, st_jobs = new_channel, st_events = new_channel,
      st_bytes = new_ledger (max_stream_buffered_bytes cfg), st_next = 0, st_started = 0,
      st_ok = 0, st_failed = 0, st_halt = False, st_gone = False, st_saw_input = False,
      st_status = status_ok, st_out = []\<rparr>"

definition count_rejected :: "shared \<Rightarrow> shared" where
  "count_rejected sh = sh\<lparr>sh_counters := (sh_counters sh)\<lparr>rejected := rejected (sh_counters sh) + 1\<rparr>\<rparr>"

section \<open>The reader\<close>

datatype reader_action =
    Check
  | Read "convert_request option"
  | PollStream
  | EnterProcess
  | PollProcess
  | Announce
  | Queue
  | Leave
  | CloseJobs
  | JoinWorkers
  | JoinWriter
  | Finish bool

text \<open>A refused message sets the status; a page is given a number and joins the stream's line.\<close>

definition reader_read ::
  "config \<Rightarrow> nat \<Rightarrow> convert_request \<Rightarrow> 'd stream \<Rightarrow> shared \<Rightarrow> 'd stream \<times> shared" where
  "reader_read cfg s req st sh =
     (case read_message cfg (st_started st) req of
        Refuse status \<Rightarrow>
          (st\<lparr>st_saw_input := st_saw_input st \<or> (case req of ReqPage _ \<Rightarrow> True | _ \<Rightarrow> False),
              st_status := status, st_reader := RExit\<rparr>, count_rejected sh)
      | Ignore \<Rightarrow> (st\<lparr>st_reader := RCheck\<rparr>, sh)
      | Admit img \<Rightarrow>
          (let j = \<lparr>pj_id = st_next st, pj_image = img\<rparr>
           in (st\<lparr>st_saw_input := True, st_next := st_next st + 1,
                  st_bytes := ledger_enter (s, pj_id j) (job_bytes j) (st_bytes st),
                  st_reader := RWaitStream j\<rparr>, sh)))"

definition finish_status :: "bool \<Rightarrow> 'd stream \<Rightarrow> status" where
  "finish_status cancelled st =
     (if fst (st_status st) \<noteq> StatusOK then st_status st
      else if st_gone st \<or> cancelled then (CANCELLED, ''client cancelled the stream'')
      else if \<not> st_saw_input st then (INVALID_ARGUMENT, ''stream carried no pages'')
      else if sp_abort_on_error (st_plan st) \<and> 0 < st_failed st then
        (ABORTED, ''abort_on_error set and '' @ show_nat (st_failed st) @ '' page(s) failed'')
      else status_ok)"

definition reader_finish :: "bool \<Rightarrow> 'd stream \<Rightarrow> shared \<Rightarrow> 'd stream \<times> shared" where
  "reader_finish cancelled st sh =
     (let status = finish_status cancelled st; c = sh_counters sh;
          st' = st\<lparr>st_reader := RReturned status\<rparr>
      in if fst (st_status st) \<noteq> StatusOK \<or> st_gone st \<or> cancelled then (st', sh)
         else if \<not> st_saw_input st then (st', count_rejected sh)
         else if fst status \<noteq> StatusOK then (st', sh\<lparr>sh_counters := c\<lparr>failed := failed c + 1\<rparr>\<rparr>)
         else (st'\<lparr>st_out := st_out st @ [EvComplete (st_started st) (st_ok st) (st_failed st)]\<rparr>,
               sh\<lparr>sh_counters := c\<lparr>converted := converted c + 1,
                                    pages_ok := pages_ok c + st_ok st,
                                    pages_failed := pages_failed c + st_failed st\<rparr>\<rparr>))"

fun reader_step ::
  "config \<Rightarrow> nat \<Rightarrow> reader_action \<Rightarrow> 'd stream \<Rightarrow> shared \<Rightarrow> ('d stream \<times> shared) option" where
  "reader_step cfg s Check st sh =
     (case st_reader st of
        RCheck \<Rightarrow> Some (st\<lparr>st_reader := if st_halt st then RExit else RRead\<rparr>, sh)
      | _ \<Rightarrow> None)"
| "reader_step cfg s (Read msg) st sh =
     (case st_reader st of
        RRead \<Rightarrow>
          (case msg of
             None \<Rightarrow> Some (st\<lparr>st_reader := RExit\<rparr>, sh)
           | Some req \<Rightarrow> Some (reader_read cfg s req st sh))
      | _ \<Rightarrow> None)"
| "reader_step cfg s PollStream st sh =
     (case st_reader st of
        RWaitStream j \<Rightarrow>
          (case ledger_poll (s, pj_id j) (st_halt st) (st_bytes st) of
             (Took _, L) \<Rightarrow> Some (st\<lparr>st_bytes := L, st_reader := RTookStream j\<rparr>, sh)
           | (GaveUp, L) \<Rightarrow> Some (st\<lparr>st_bytes := L, st_reader := RExit\<rparr>, sh)
           | (Waiting, _) \<Rightarrow> None)
      | _ \<Rightarrow> None)"
| "reader_step cfg s EnterProcess st sh =
     (case st_reader st of
        RTookStream j \<Rightarrow>
          Some (st\<lparr>st_reader := RWaitProcess j\<rparr>,
                sh\<lparr>sh_buffered := ledger_enter (s, pj_id j) (job_bytes j) (sh_buffered sh)\<rparr>)
      | _ \<Rightarrow> None)"
| "reader_step cfg s PollProcess st sh =
     (case st_reader st of
        RWaitProcess j \<Rightarrow>
          (case ledger_poll (s, pj_id j) (st_halt st) (sh_buffered sh) of
             (Took _, L) \<Rightarrow> Some (st\<lparr>st_reader := RAnnounce j\<rparr>, sh\<lparr>sh_buffered := L\<rparr>)
           | (GaveUp, L) \<Rightarrow>
               Some (st\<lparr>st_bytes := ledger_release (s, pj_id j) (st_bytes st), st_reader := RExit\<rparr>,
                     sh\<lparr>sh_buffered := L\<rparr>)
           | (Waiting, _) \<Rightarrow> None)
      | _ \<Rightarrow> None)"
| "reader_step cfg s Announce st sh =
     (case st_reader st of
        RAnnounce j \<Rightarrow>
          Some (st\<lparr>st_started := st_started st + 1,
                   st_events := push (EvStarted (im_page_no (pj_image j))) (st_events st),
                   st_reader := RQueue j\<rparr>, sh)
      | _ \<Rightarrow> None)"
| "reader_step cfg s Queue st sh =
     (case st_reader st of
        RQueue j \<Rightarrow> Some (st\<lparr>st_jobs := push j (st_jobs st), st_reader := RCheck\<rparr>, sh)
      | _ \<Rightarrow> None)"
| "reader_step cfg s Leave st sh =
     (case st_reader st of
        RExit \<Rightarrow>
          Some (st\<lparr>st_halt := st_halt st \<or> fst (st_status st) \<noteq> StatusOK, st_reader := RClose\<rparr>, sh)
      | _ \<Rightarrow> None)"
| "reader_step cfg s CloseJobs st sh =
     (case st_reader st of
        RClose \<Rightarrow> Some (st\<lparr>st_jobs := close (st_jobs st), st_reader := RJoinWorkers\<rparr>, sh)
      | _ \<Rightarrow> None)"
| "reader_step cfg s JoinWorkers st sh =
     (case st_reader st of
        RJoinWorkers \<Rightarrow>
          if list_all (\<lambda>w. w = WDone) (st_workers st)
          then Some (st\<lparr>st_events := close (st_events st), st_reader := RJoinWriter\<rparr>, sh)
          else None
      | _ \<Rightarrow> None)"
| "reader_step cfg s JoinWriter st sh =
     (case st_reader st of
        RJoinWriter \<Rightarrow> if st_writer st = WrDone then Some (st\<lparr>st_reader := RFinish\<rparr>, sh) else None
      | _ \<Rightarrow> None)"
| "reader_step cfg s (Finish cancelled) st sh =
     (case st_reader st of
        RFinish \<Rightarrow> Some (reader_finish cancelled st sh)
      | _ \<Rightarrow> None)"

section \<open>The workers\<close>

text \<open>What the call and the mapping of a page came to, or the exception they threw.\<close>

datatype outcome = Called vlm_result | Threw string

datatype worker_action =
    Pop
  | Look
  | PollSlot
  | Converted outcome
  | AbortCheck
  | DropSlot
  | DropJob

definition page_event ::
  "'d mapper \<Rightarrow> string \<Rightarrow> config \<Rightarrow> stream_plan \<Rightarrow> page_job \<Rightarrow> outcome \<Rightarrow> 'd event option" where
  "page_event mapper version cfg plan j out =
     (case out of
        Called res \<Rightarrow> convert_page mapper version cfg plan (pj_image j) res
      | Threw what \<Rightarrow> Some (internal_error (pj_image j) what))"

text \<open>The probe of a page's call is the halt flag, so a call is cut short only once it is set.\<close>

definition possible_outcome :: "'d stream \<Rightarrow> outcome \<Rightarrow> bool" where
  "possible_outcome st out =
     (case out of Called res \<Rightarrow> vr_cancelled res \<longrightarrow> st_halt st | Threw _ \<Rightarrow> True)"

definition set_worker :: "nat \<Rightarrow> worker \<Rightarrow> 'd stream \<Rightarrow> 'd stream" where
  "set_worker k w st = st\<lparr>st_workers := (st_workers st)[k := w]\<rparr>"

definition worker_converted ::
  "'d mapper \<Rightarrow> string \<Rightarrow> config \<Rightarrow> nat \<Rightarrow> page_job \<Rightarrow> outcome \<Rightarrow> 'd stream \<Rightarrow> shared
     \<Rightarrow> 'd stream \<times> shared" where
  "worker_converted mapper version cfg k j out st sh =
     (case page_event mapper version cfg (st_plan st) j out of
        None \<Rightarrow> (set_worker k (WDropSlot j) st, sh)
      | Some e \<Rightarrow>
          (let c = sh_counters sh
           in (set_worker k (WPushed j (is_raw e))
                 (st\<lparr>st_failed := (if is_raw e then st_failed st + 1 else st_failed st),
                     st_ok := (if is_raw e then st_ok st else st_ok st + 1),
                     st_events := push e (st_events st)\<rparr>),
               sh\<lparr>sh_counters := c\<lparr>pages_finished := pages_finished c + 1\<rparr>\<rparr>)))"

definition worker_step ::
  "'d mapper \<Rightarrow> string \<Rightarrow> config \<Rightarrow> nat \<Rightarrow> nat \<Rightarrow> worker_action \<Rightarrow> 'd stream \<Rightarrow> shared
     \<Rightarrow> ('d stream \<times> shared) option" where
  "worker_step mapper version cfg s k a st sh =
     (if length (st_workers st) \<le> k then None
      else case (st_workers st ! k, a) of
        (WIdle, Pop) \<Rightarrow>
          (case pop (st_jobs st) of
             (PopValue j, q) \<Rightarrow> Some (set_worker k (WLook j) (st\<lparr>st_jobs := q\<rparr>), sh)
           | (PopClosed, _) \<Rightarrow> Some (set_worker k WDone st, sh)
           | (PopWait, _) \<Rightarrow> None)
      | (WLook j, Look) \<Rightarrow>
          if st_halt st then Some (set_worker k (WDropJob j) st, sh)
          else Some (set_worker k (WWait j) st,
                     sh\<lparr>sh_slots := ledger_enter (s, pj_id j) 1 (sh_slots sh)\<rparr>)
      | (WWait j, PollSlot) \<Rightarrow>
          (case ledger_poll (s, pj_id j) (st_halt st) (sh_slots sh) of
             (Took _, L) \<Rightarrow> Some (set_worker k (WConvert j) st, sh\<lparr>sh_slots := L\<rparr>)
           | (GaveUp, L) \<Rightarrow> Some (set_worker k (WDropJob j) st, sh\<lparr>sh_slots := L\<rparr>)
           | (Waiting, _) \<Rightarrow> None)
      | (WConvert j, Converted out) \<Rightarrow>
          if possible_outcome st out
          then Some (worker_converted mapper version cfg k j out st sh) else None
      | (WPushed j raw, AbortCheck) \<Rightarrow>
          Some (set_worker k (WDropSlot j)
                  (st\<lparr>st_halt := st_halt st \<or> (raw \<and> sp_abort_on_error (st_plan st))\<rparr>), sh)
      | (WDropSlot j, DropSlot) \<Rightarrow>
          Some (set_worker k (WDropJob j) st,
                sh\<lparr>sh_slots := ledger_release (s, pj_id j) (sh_slots sh)\<rparr>)
      | (WDropJob j, DropJob) \<Rightarrow>
          Some (set_worker k WIdle (st\<lparr>st_bytes := ledger_release (s, pj_id j) (st_bytes st)\<rparr>),
                sh\<lparr>sh_buffered := ledger_release (s, pj_id j) (sh_buffered sh)\<rparr>)
      | _ \<Rightarrow> None)"

section \<open>The writer\<close>

datatype writer_action = Cancel | PopEvent | Write bool

definition writer_step :: "writer_action \<Rightarrow> 'd stream \<Rightarrow> 'd stream option" where
  "writer_step a st =
     (case (st_writer st, a) of
        (WrLoop, Cancel) \<Rightarrow> Some (st\<lparr>st_gone := True, st_halt := True, st_writer := WrDone\<rparr>)
      | (WrLoop, PopEvent) \<Rightarrow>
          (case pop_for (st_events st) of
             (ForValue e, q) \<Rightarrow> Some (st\<lparr>st_events := q, st_writer := WrWrite e\<rparr>)
           | (ForClosed, _) \<Rightarrow> Some (st\<lparr>st_writer := WrDone\<rparr>)
           | (ForTimeout, _) \<Rightarrow> None)
      | (WrWrite e, Write taken) \<Rightarrow>
          Some (if taken then st\<lparr>st_out := st_out st @ [e], st_writer := WrLoop\<rparr>
                else st\<lparr>st_gone := True, st_halt := True, st_writer := WrDone\<rparr>)
      | _ \<Rightarrow> None)"

section \<open>The process\<close>

datatype action =
    Open "convert_request option"
  | Reader reader_action
  | Worker nat worker_action
  | Writer writer_action

text \<open>
  A stream opens with its first message: it is refused, and nothing of it runs, or its
  threads start.
\<close>

definition refused_plan :: stream_plan where
  "refused_plan = \<lparr>sp_endpoint = [], sp_override = False, sp_model = [], sp_prompt = [],
     sp_stop = [], sp_max_tokens = 0, sp_format = RESPONSE_FORMAT_UNSPECIFIED,
     sp_concurrency = 0, sp_top_logprobs = 0, sp_abort_on_error = False\<rparr>"

definition refused_stream :: "config \<Rightarrow> status \<Rightarrow> 'd stream" where
  "refused_stream cfg status =
     (new_stream cfg refused_plan)\<lparr>st_status := status, st_reader := RReturned status, st_writer := WrDone\<rparr>"

definition exec ::
  "'d mapper \<Rightarrow> string \<Rightarrow> config \<Rightarrow> nat \<Rightarrow> action \<Rightarrow> 'd process \<Rightarrow> 'd process option" where
  "exec mapper version cfg s a P =
     (case (pr_streams P s, a) of
        (None, Open req) \<Rightarrow>
          (case first_message cfg req of
             Inl status \<Rightarrow>
               Some (P\<lparr>pr_streams := (pr_streams P)(s \<mapsto> refused_stream cfg status),
                       pr_shared := count_rejected (pr_shared P)\<rparr>)
           | Inr plan \<Rightarrow> Some (P\<lparr>pr_streams := (pr_streams P)(s \<mapsto> new_stream cfg plan)\<rparr>))
      | (Some st, Reader r) \<Rightarrow>
          map_option (\<lambda>(st', sh). \<lparr>pr_streams = (pr_streams P)(s \<mapsto> st'), pr_shared = sh\<rparr>)
            (reader_step cfg s r st (pr_shared P))
      | (Some st, Worker k w) \<Rightarrow>
          map_option (\<lambda>(st', sh). \<lparr>pr_streams = (pr_streams P)(s \<mapsto> st'), pr_shared = sh\<rparr>)
            (worker_step mapper version cfg s k w st (pr_shared P))
      | (Some st, Writer w) \<Rightarrow>
          map_option (\<lambda>st'. P\<lparr>pr_streams := (pr_streams P)(s \<mapsto> st')\<rparr>) (writer_step w st)
      | _ \<Rightarrow> None)"

text \<open>The states a process can be in, however its threads and its clients interleave.\<close>

inductive reachable :: "'d mapper \<Rightarrow> string \<Rightarrow> config \<Rightarrow> 'd process \<Rightarrow> bool"
  for mapper version cfg where
  init: "reachable mapper version cfg (new_process cfg)"
| step: "reachable mapper version cfg P \<Longrightarrow> exec mapper version cfg s a P = Some P' \<Longrightarrow>
    reachable mapper version cfg P'"

end
