(* ===== verification/Ownership.thy ===== *)
theory Ownership
  imports Pipeline "HOL-Library.Multiset"
begin

text \<open>
  Who holds which lease.  At every moment the leases on the three budgets of the pipeline
  are exactly those of the pages in flight: a page holds its bytes of the stream's budget
  from its admission until it is done or skipped, its bytes of the process's budget from
  its announcement on, and an in-flight slot from before its call until its event is
  queued.  This is what turns the budgets' capacities into bounds on the pipeline.
\<close>

section \<open>Leases under page names\<close>

definition matches :: "(page_job \<Rightarrow> nat) \<Rightarrow> (nat \<rightharpoonup> nat) \<Rightarrow> page_job list \<Rightarrow> bool" where
  "matches f h js \<longleftrightarrow> (\<forall>i a. h i = Some a \<longleftrightarrow> (\<exists>j \<in> set js. pj_id j = i \<and> f j = a))"

definition wait_view :: "nat \<Rightarrow> (owner \<times> nat) list \<Rightarrow> (nat \<times> nat) set" where
  "wait_view s ws = {(i, a). ((s, i), a) \<in> set ws}"

definition owns ::
  "(page_job \<Rightarrow> nat) \<Rightarrow> nat \<Rightarrow> (owner \<rightharpoonup> nat) \<Rightarrow> (owner \<times> nat) list \<Rightarrow> page_job list \<Rightarrow> page_job list \<Rightarrow> bool" where
  "owns f s h ws holders waiters \<longleftrightarrow>
     matches f (\<lambda>i. h (s, i)) holders \<and> wait_view s ws = (\<lambda>j. (pj_id j, f j)) ` set waiters"

definition same_for_others ::
  "nat \<Rightarrow> (owner \<rightharpoonup> nat) \<Rightarrow> (owner \<times> nat) list \<Rightarrow> (owner \<rightharpoonup> nat) \<Rightarrow> (owner \<times> nat) list \<Rightarrow> bool" where
  "same_for_others s h ws h' ws' \<longleftrightarrow>
     (\<forall>s'. s' \<noteq> s \<longrightarrow> (\<forall>i. h' (s', i) = h (s', i)) \<and> wait_view s' ws' = wait_view s' ws)"

lemma wait_view_append: "wait_view s (ws @ vs) = wait_view s ws \<union> wait_view s vs"
  by (auto simp: wait_view_def)

lemma wait_view_single: "wait_view s [((s', i), a)] = (if s' = s then {(i, a)} else {})"
  by (auto simp: wait_view_def)

lemma owns_other: "same_for_others s h ws h' ws' \<Longrightarrow> s' \<noteq> s \<Longrightarrow> owns f s' h' ws' H W = owns f s' h ws H W"
  by (simp add: owns_def same_for_others_def)

lemma same_for_others_refl [simp]: "same_for_others s h ws h ws"
  by (simp add: same_for_others_def)

lemma owns_cong: "set H = set H' \<Longrightarrow> set W = set W' \<Longrightarrow> owns f s h ws H W = owns f s h ws H' W'"
  by (simp add: owns_def matches_def)

lemma owns_free:
  assumes "owns f s h ws H W" and "pj_id j \<notin> pj_id ` set H" and "pj_id j \<notin> pj_id ` set W"
  shows "h (s, pj_id j) = None \<and> (s, pj_id j) \<notin> fst ` set ws"
proof -
  have "(pj_id j, a) \<notin> wait_view s ws" for a using assms unfolding owns_def by auto
  then have "(s, pj_id j) \<notin> fst ` set ws" by (auto simp: wait_view_def)
  moreover have "h (s, pj_id j) = None"
  proof (rule ccontr)
    assume "h (s, pj_id j) \<noteq> None"
    then obtain a where "h (s, pj_id j) = Some a" by auto
    with assms(1) obtain k where "k \<in> set H" "pj_id k = pj_id j"
      unfolding owns_def matches_def by auto
    with assms(2) show False by (metis image_eqI)
  qed
  ultimately show ?thesis by simp
qed

text \<open>A budget whose owners are pages: the four things a page does with it.\<close>

locale owner_budget = counting_budget inv queued owned cap enter poll release
  for inv :: "'b \<Rightarrow> bool" and queued :: "'b \<Rightarrow> (owner \<times> nat) list" and owned :: "'b \<Rightarrow> owner \<rightharpoonup> nat"
    and cap :: "'b \<Rightarrow> nat" and enter :: "owner \<Rightarrow> nat \<Rightarrow> 'b \<Rightarrow> 'b"
    and poll :: "owner \<Rightarrow> bool \<Rightarrow> 'b \<Rightarrow> poll_result \<times> 'b" and release :: "owner \<Rightarrow> 'b \<Rightarrow> 'b"
begin

lemma enter_owns:
  assumes "inv b" and "owns f s (owned b) (queued b) H W"
    and "pj_id j \<notin> pj_id ` set H" and "pj_id j \<notin> pj_id ` set W" and "1 \<le> f j" and "f j \<le> cap b"
    and "set W' = insert j (set W)"
  shows "inv (enter (s, pj_id j) (f j) b)
    \<and> owns f s (owned (enter (s, pj_id j) (f j) b)) (queued (enter (s, pj_id j) (f j) b)) H W'
    \<and> same_for_others s (owned b) (queued b)
        (owned (enter (s, pj_id j) (f j) b)) (queued (enter (s, pj_id j) (f j) b))"
proof -
  have "std_clamp (f j) 1 (cap b) = f j" using assms(5,6) by (simp add: std_clamp_id)
  then have q: "queued (enter (s, pj_id j) (f j) b) = queued b @ [((s, pj_id j), f j)]"
    by (simp add: enter_queued)
  show ?thesis
    using assms owns_free [OF assms(2,3,4)] enter_inv [OF assms(1)]
    by (auto simp: owns_def q enter_owned wait_view_append wait_view_single same_for_others_def)
qed

lemma took_owns:
  assumes "inv b" and "owns f s (owned b) (queued b) H W" and "poll (s, pj_id j) h b = (Took a, b')"
    and "j \<in> set W" and "inj_on pj_id (set W)" and "pj_id j \<notin> pj_id ` set H"
    and "set H' = insert j (set H)" and "set W' = set W - {j}"
  shows "inv b' \<and> cap b' = cap b \<and> owns f s (owned b') (queued b') H' W'
    \<and> same_for_others s (owned b) (queued b) (owned b') (queued b')"
proof -
  from poll_took [OF assms(1,3)] have q: "queued b = ((s, pj_id j), a) # queued b'"
    and o: "owned b' = (owned b)((s, pj_id j) \<mapsto> a)" by auto
  have "(pj_id j, a) \<in> wait_view s (queued b)" by (simp add: q wait_view_def)
  then have a: "a = f j"
    using assms(2,4,5) unfolding owns_def by (auto dest: inj_onD)
  have "distinct (map fst (queued b))" by (rule queued_distinct [OF assms(1)])
  then have n: "(s, pj_id j) \<notin> fst ` set (queued b')" by (simp add: q)
  then have "wait_view s (queued b') = wait_view s (queued b) - {(pj_id j, f j)}"
    by (force simp: q wait_view_def a)
  also have "\<dots> = (\<lambda>j. (pj_id j, f j)) ` set W'"
    using assms(2,4,5,8) unfolding owns_def by (auto dest: inj_onD)
  finally have w: "wait_view s (queued b') = (\<lambda>j. (pj_id j, f j)) ` set W'" .
  have "matches f (\<lambda>i. owned b' (s, i)) H'"
    using assms(2,6,7) by (auto simp: owns_def matches_def o a image_iff)
  moreover have "same_for_others s (owned b) (queued b) (owned b') (queued b')"
    by (auto simp: same_for_others_def o q wait_view_def)
  ultimately show ?thesis
    using w poll_inv [OF assms(1), of "(s, pj_id j)" h] poll_cap [of "(s, pj_id j)" h b] assms(3)
    by (simp add: owns_def)
qed

lemma gave_up_owns:
  assumes "inv b" and "owns f s (owned b) (queued b) H W" and "poll (s, pj_id j) h b = (GaveUp, b')"
    and "j \<in> set W" and "inj_on pj_id (set W)" and "set W' = set W - {j}"
  shows "inv b' \<and> cap b' = cap b \<and> owns f s (owned b') (queued b') H W'
    \<and> same_for_others s (owned b) (queued b) (owned b') (queued b') \<and> h"
proof -
  from poll_gave_up [OF assms(1,3)] have q: "queued b' = erase_waiter (s, pj_id j) (queued b)"
    and o: "owned b' = owned b" and "h" by auto
  have "wait_view s (queued b') = {x \<in> wait_view s (queued b). fst x \<noteq> pj_id j}"
    by (auto simp: q wait_view_def erase_waiter_def)
  also have "\<dots> = (\<lambda>j. (pj_id j, f j)) ` set W'"
    using assms(2,4,5,6) unfolding owns_def by (auto dest: inj_onD)
  finally have w: "wait_view s (queued b') = (\<lambda>j. (pj_id j, f j)) ` set W'" .
  have "same_for_others s (owned b) (queued b) (owned b') (queued b')"
    by (auto simp: same_for_others_def o q wait_view_def erase_waiter_def)
  with w \<open>h\<close> show ?thesis
    using assms(2) poll_inv [OF assms(1), of "(s, pj_id j)" h] poll_cap [of "(s, pj_id j)" h b] assms(3)
    by (simp add: owns_def o)
qed

lemma release_owns:
  assumes "inv b" and "owns f s (owned b) (queued b) H W"
    and "j \<in> set H" and "inj_on pj_id (set H)" and "set H' = set H - {j}"
  shows "inv (release (s, pj_id j) b) \<and> cap (release (s, pj_id j) b) = cap b
    \<and> owns f s (owned (release (s, pj_id j) b)) (queued (release (s, pj_id j) b)) H' W
    \<and> same_for_others s (owned b) (queued b)
        (owned (release (s, pj_id j) b)) (queued (release (s, pj_id j) b))"
proof -
  have "matches f (\<lambda>i. ((owned b)((s, pj_id j) := None)) (s, i)) H'"
    unfolding matches_def
  proof (intro allI)
    fix i a
    show "((owned b)((s, pj_id j) := None)) (s, i) = Some a \<longleftrightarrow> (\<exists>k \<in> set H'. pj_id k = i \<and> f k = a)"
      using assms(2-5) by (cases "i = pj_id j") (auto simp: owns_def matches_def dest: inj_onD)
  qed
  then show ?thesis
    using assms(2) release_inv [OF assms(1)]
    by (auto simp: owns_def release_owned release_queued release_cap same_for_others_def)
qed

lemma owns_total:
  assumes "inv b" and "finite S"
    and "\<And>s. s \<in> S \<Longrightarrow> owns f s (owned b) (queued b) (H s) (W s) \<and> distinct (map pj_id (H s))"
  shows "(\<Sum>s\<in>S. sum_list (map f (H s))) \<le> cap b"
proof -
  let ?P = "SIGMA s:S. set (H s)"
  let ?o = "\<lambda>(s, j). (s, pj_id j)"
  have o: "owned b (s, pj_id j) = Some (f j)" if "s \<in> S" "j \<in> set (H s)" for s j
    using that assms(3) [OF that(1)] by (auto simp: owns_def matches_def)
  have inj: "inj_on ?o ?P"
    using assms(3) by (fastforce simp: distinct_map inj_on_def)
  have "(\<Sum>s\<in>S. sum_list (map f (H s))) = (\<Sum>s\<in>S. \<Sum>j\<in>set (H s). f j)"
    using assms(3) by (intro sum.cong refl) (auto simp: distinct_map sum_list_distinct_conv_sum_set)
  also have "\<dots> = (\<Sum>(s, j)\<in>?P. f j)" by (rule sum.Sigma) (use assms(2) in auto)
  also have "\<dots> = (\<Sum>p\<in>?P. the (owned b (?o p)))" by (intro sum.cong refl) (auto simp: o)
  also have "\<dots> = (\<Sum>w\<in>?o ` ?P. the (owned b w))" by (simp add: sum.reindex [OF inj])
  also have "\<dots> \<le> total_held (owned b)"
    unfolding total_held_def
    by (rule sum_mono2) (use owned_finite [OF assms(1)] o in auto)
  finally show ?thesis using owned_total [OF assms(1)] by simp
qed

end

interpretation ob: owner_budget ledger_inv waiting held limit ledger_enter ledger_poll ledger_release
  by unfold_locales

section \<open>The pages of a stream\<close>

fun reader_job :: "reader \<Rightarrow> page_job list" where
  "reader_job (RWaitStream j) = [j]"
| "reader_job (RTookStream j) = [j]"
| "reader_job (RWaitProcess j) = [j]"
| "reader_job (RAnnounce j) = [j]"
| "reader_job (RQueue j) = [j]"
| "reader_job _ = []"

fun holds_stream :: "reader \<Rightarrow> page_job list" where
  "holds_stream (RTookStream j) = [j]"
| "holds_stream (RWaitProcess j) = [j]"
| "holds_stream (RAnnounce j) = [j]"
| "holds_stream (RQueue j) = [j]"
| "holds_stream _ = []"

fun holds_process :: "reader \<Rightarrow> page_job list" where
  "holds_process (RAnnounce j) = [j]"
| "holds_process (RQueue j) = [j]"
| "holds_process _ = []"

fun waits_stream :: "reader \<Rightarrow> page_job list" where
  "waits_stream (RWaitStream j) = [j]"
| "waits_stream _ = []"

fun waits_process :: "reader \<Rightarrow> page_job list" where
  "waits_process (RWaitProcess j) = [j]"
| "waits_process _ = []"

fun worker_job :: "worker \<Rightarrow> page_job list" where
  "worker_job (WLook j) = [j]"
| "worker_job (WWait j) = [j]"
| "worker_job (WConvert j) = [j]"
| "worker_job (WPushed j _) = [j]"
| "worker_job (WDropSlot j) = [j]"
| "worker_job (WDropJob j) = [j]"
| "worker_job _ = []"

fun slot_job :: "worker \<Rightarrow> page_job list" where
  "slot_job (WConvert j) = [j]"
| "slot_job (WPushed j _) = [j]"
| "slot_job (WDropSlot j) = [j]"
| "slot_job _ = []"

fun wait_job :: "worker \<Rightarrow> page_job list" where
  "wait_job (WWait j) = [j]"
| "wait_job _ = []"

definition in_work :: "'d stream \<Rightarrow> page_job list" where
  "in_work st = queue (st_jobs st) @ concat (map worker_job (st_workers st))"

definition jobs_of :: "'d stream \<Rightarrow> page_job list" where
  "jobs_of st = reader_job (st_reader st) @ in_work st"

definition slot_holders :: "'d stream \<Rightarrow> page_job list" where
  "slot_holders st = concat (map slot_job (st_workers st))"

definition slot_waiters :: "'d stream \<Rightarrow> page_job list" where
  "slot_waiters st = concat (map wait_job (st_workers st))"

definition page_fits :: "config \<Rightarrow> page_job \<Rightarrow> bool" where
  "page_fits cfg j \<longleftrightarrow> 1 \<le> job_bytes j \<and> job_bytes j \<le> max_page_bytes cfg"

definition one_slot :: "page_job \<Rightarrow> nat" where
  "one_slot j = 1"

definition stream_inv :: "config \<Rightarrow> nat \<Rightarrow> 'd stream \<Rightarrow> bool" where
  "stream_inv cfg s st \<longleftrightarrow>
     ledger_inv (st_bytes st) \<and> limit (st_bytes st) = max_stream_buffered_bytes cfg
     \<and> owns job_bytes s (held (st_bytes st)) (waiting (st_bytes st))
         (holds_stream (st_reader st) @ in_work st) (waits_stream (st_reader st))
     \<and> distinct (map pj_id (jobs_of st))
     \<and> (\<forall>j \<in> set (jobs_of st). pj_id j < st_next st \<and> page_fits cfg j)"

definition shares :: "nat \<Rightarrow> 'd stream \<Rightarrow> shared \<Rightarrow> bool" where
  "shares s st sh \<longleftrightarrow>
     owns job_bytes s (held (sh_buffered sh)) (waiting (sh_buffered sh))
       (holds_process (st_reader st) @ in_work st) (waits_process (st_reader st))
     \<and> owns one_slot s (held (sh_slots sh)) (waiting (sh_slots sh)) (slot_holders st) (slot_waiters st)"

definition shared_inv :: "config \<Rightarrow> shared \<Rightarrow> bool" where
  "shared_inv cfg sh \<longleftrightarrow>
     ledger_inv (sh_buffered sh) \<and> limit (sh_buffered sh) = max_buffered_bytes cfg
     \<and> ledger_inv (sh_slots sh) \<and> limit (sh_slots sh) = max_inflight cfg"

definition others_same :: "nat \<Rightarrow> shared \<Rightarrow> shared \<Rightarrow> bool" where
  "others_same s sh sh' \<longleftrightarrow>
     same_for_others s (held (sh_buffered sh)) (waiting (sh_buffered sh))
       (held (sh_buffered sh')) (waiting (sh_buffered sh'))
     \<and> same_for_others s (held (sh_slots sh)) (waiting (sh_slots sh))
       (held (sh_slots sh')) (waiting (sh_slots sh'))"

definition local_inv :: "config \<Rightarrow> nat \<Rightarrow> 'd stream \<Rightarrow> shared \<Rightarrow> bool" where
  "local_inv cfg s st sh \<longleftrightarrow> stream_inv cfg s st \<and> shares s st sh \<and> shared_inv cfg sh"

section \<open>Moving a page\<close>

lemma mset_concat_update:
  "k < length xs \<Longrightarrow>
     mset (concat (map f (xs[k := x]))) + mset (f (xs ! k)) = mset (concat (map f xs)) + mset (f x)"
proof (induction xs arbitrary: k)
  case (Cons y ys)
  then show ?case by (cases k) (simp_all add: ac_simps)
qed simp

lemma set_concat_same:
  "k < length xs \<Longrightarrow> f x = f (xs ! k) \<Longrightarrow> concat (map f (xs[k := x])) = concat (map f xs)"
  by (metis list_update_id map_update)

lemma set_worker_simps [simp]:
  "st_workers (set_worker k w st) = (st_workers st)[k := w]"
  "st_reader (set_worker k w st) = st_reader st" "st_jobs (set_worker k w st) = st_jobs st"
  "st_bytes (set_worker k w st) = st_bytes st" "st_next (set_worker k w st) = st_next st"
  "st_halt (set_worker k w st) = st_halt st" "st_plan (set_worker k w st) = st_plan st"
  "st_events (set_worker k w st) = st_events st" "st_writer (set_worker k w st) = st_writer st"
  "st_started (set_worker k w st) = st_started st" "st_ok (set_worker k w st) = st_ok st"
  "st_failed (set_worker k w st) = st_failed st" "st_gone (set_worker k w st) = st_gone st"
  "st_status (set_worker k w st) = st_status st" "st_out (set_worker k w st) = st_out st"
  "st_saw_input (set_worker k w st) = st_saw_input st"
  by (simp_all add: set_worker_def)

lemma distinct_mset_cong: "mset xs = mset ys \<Longrightarrow> distinct (map f xs) = distinct (map f ys)"
  by (metis mset_eq_imp_distinct_iff mset_map)

lemmas inv_defs = local_inv_def stream_inv_def shares_def shared_inv_def others_same_def
lemmas job_defs = in_work_def jobs_of_def slot_holders_def slot_waiters_def

lemma local_inv_same:
  assumes "local_inv cfg s st sh"
    and "reader_job (st_reader st') = reader_job (st_reader st)"
    and "holds_stream (st_reader st') = holds_stream (st_reader st)"
    and "holds_process (st_reader st') = holds_process (st_reader st)"
    and "waits_stream (st_reader st') = waits_stream (st_reader st)"
    and "waits_process (st_reader st') = waits_process (st_reader st)"
    and "st_bytes st' = st_bytes st"
    and "st_next st' = st_next st" and "queue (st_jobs st') = queue (st_jobs st)"
    and "map worker_job (st_workers st') = map worker_job (st_workers st)"
    and "map slot_job (st_workers st') = map slot_job (st_workers st)"
    and "map wait_job (st_workers st') = map wait_job (st_workers st)"
    and "sh_buffered sh' = sh_buffered sh" and "sh_slots sh' = sh_slots sh"
  shows "local_inv cfg s st' sh' \<and> others_same s sh sh'"
  using assms by (simp add: inv_defs job_defs)

text \<open>The stages of a page in the reader's hands.\<close>

lemma admit_keeps:
  assumes "config_ok cfg" and "local_inv cfg s st sh" and "st_reader st = RRead"
    and "read_message cfg (st_started st) req = Admit img"
    and "j = \<lparr>pj_id = st_next st, pj_image = img\<rparr>"
  shows "local_inv cfg s (st\<lparr>st_saw_input := True, st_next := st_next st + 1,
      st_bytes := ledger_enter (s, pj_id j) (job_bytes j) (st_bytes st), st_reader := RWaitStream j\<rparr>) sh"
proof -
  have new: "pj_id j \<notin> pj_id ` set (in_work st)" "pj_id j = st_next st"
    using assms(2,3,5) by (auto simp: inv_defs jobs_of_def)
  have "length kPngMagic \<le> length (im_png img)" "length (im_png img) \<le> max_page_bytes cfg"
    using assms(4) by (auto simp: read_message_def is_png_def prefix_length_le
        split: convert_request.splits if_splits)
  then have fits: "page_fits cfg j"
    by (simp add: page_fits_def job_bytes_def assms(5) kPngMagic_def)
  then have cap: "1 \<le> job_bytes j" "job_bytes j \<le> limit (st_bytes st)"
    using assms(1,2) by (auto simp: page_fits_def config_ok_def inv_defs)
  have "owns job_bytes s (held (st_bytes st)) (waiting (st_bytes st)) (in_work st) []"
    using assms(2,3) by (simp add: inv_defs)
  from ob.enter_owns [OF _ this, of j "[j]"] new cap assms(2) fits
  show ?thesis
    by (auto simp: inv_defs job_defs assms(3) lb.enter_cap less_Suc_eq)
qed

lemma poll_stream_keeps:
  assumes "local_inv cfg s st sh" and "st_reader st = RWaitStream j"
    and "ledger_poll (s, pj_id j) (st_halt st) (st_bytes st) = (r, L)" and "r \<noteq> Waiting"
  shows "local_inv cfg s (st\<lparr>st_bytes := L,
      st_reader := (case r of Took _ \<Rightarrow> RTookStream j | _ \<Rightarrow> RExit)\<rparr>) sh"
proof -
  have o: "ledger_inv (st_bytes st)"
    "owns job_bytes s (held (st_bytes st)) (waiting (st_bytes st)) (in_work st) [j]"
    and new: "pj_id j \<notin> pj_id ` set (in_work st)"
    using assms(1,2) by (auto simp: inv_defs jobs_of_def)
  show ?thesis
  proof (cases r)
    case (Took a)
    with ob.took_owns [OF o, of j "st_halt st" a L "j # in_work st" "[]"] assms new
    show ?thesis by (auto simp: inv_defs job_defs)
  next
    case GaveUp
    with ob.gave_up_owns [OF o, of j "st_halt st" L "[]"] assms new
    show ?thesis by (auto simp: inv_defs job_defs)
  qed (use assms(4) in simp)
qed

lemma enter_process_keeps:
  assumes "config_ok cfg" and "local_inv cfg s st sh" and "st_reader st = RTookStream j"
    and "sh' = sh\<lparr>sh_buffered := ledger_enter (s, pj_id j) (job_bytes j) (sh_buffered sh)\<rparr>"
  shows "local_inv cfg s (st\<lparr>st_reader := RWaitProcess j\<rparr>) sh' \<and> others_same s sh sh'"
proof -
  have o: "ledger_inv (sh_buffered sh)"
    "owns job_bytes s (held (sh_buffered sh)) (waiting (sh_buffered sh)) (in_work st) []"
    and new: "pj_id j \<notin> pj_id ` set (in_work st)"
    and cap: "1 \<le> job_bytes j" "job_bytes j \<le> limit (sh_buffered sh)"
    using assms(1-3) by (auto simp: inv_defs jobs_of_def page_fits_def config_ok_def)
  from ob.enter_owns [OF o, of j "[j]"] new cap assms(2-4)
  show ?thesis by (auto simp: inv_defs job_defs lb.enter_cap)
qed

lemma poll_process_keeps:
  assumes "local_inv cfg s st sh" and "st_reader st = RWaitProcess j"
    and "ledger_poll (s, pj_id j) (st_halt st) (sh_buffered sh) = (r, L)" and "r \<noteq> Waiting"
    and "st' = (case r of Took _ \<Rightarrow> st\<lparr>st_reader := RAnnounce j\<rparr>
       | _ \<Rightarrow> st\<lparr>st_bytes := ledger_release (s, pj_id j) (st_bytes st), st_reader := RExit\<rparr>)"
    and "sh' = sh\<lparr>sh_buffered := L\<rparr>"
  shows "local_inv cfg s st' sh' \<and> others_same s sh sh'"
proof -
  have o: "ledger_inv (sh_buffered sh)"
    "owns job_bytes s (held (sh_buffered sh)) (waiting (sh_buffered sh)) (in_work st) [j]"
    and new: "pj_id j \<notin> pj_id ` set (in_work st)"
    and b: "ledger_inv (st_bytes st)"
      "owns job_bytes s (held (st_bytes st)) (waiting (st_bytes st)) (j # in_work st) []"
    and inj: "inj_on pj_id (set (j # in_work st))"
    using assms(1,2) by (auto simp: inv_defs jobs_of_def distinct_map)
  show ?thesis
  proof (cases r)
    case (Took a)
    with ob.took_owns [OF o, of j "st_halt st" a L "j # in_work st" "[]"] assms new
    show ?thesis by (auto simp: inv_defs job_defs)
  next
    case GaveUp
    have "set (in_work st) = set (j # in_work st) - {j}" using new by auto
    from ob.release_owns [OF b _ inj this]
    have "ledger_inv (ledger_release (s, pj_id j) (st_bytes st))
      \<and> limit (ledger_release (s, pj_id j) (st_bytes st)) = limit (st_bytes st)
      \<and> owns job_bytes s (held (ledger_release (s, pj_id j) (st_bytes st)))
          (waiting (ledger_release (s, pj_id j) (st_bytes st))) (in_work st) []" by simp
    with GaveUp ob.gave_up_owns [OF o, of j "st_halt st" L "[]"] assms new
    show ?thesis by (auto simp: inv_defs job_defs)
  qed (use assms(4) in simp)
qed

lemma queue_keeps:
  assumes "local_inv cfg s st sh" and "st_reader st = RQueue j"
    and "st' = st\<lparr>st_jobs := push j (st_jobs st), st_reader := RCheck\<rparr>"
  shows "local_inv cfg s st' sh"
proof -
  have "mset (jobs_of st') = mset (jobs_of st)"
    by (simp add: job_defs push_def assms(2,3))
  then have "distinct (map pj_id (jobs_of st')) = distinct (map pj_id (jobs_of st))"
    and "set (jobs_of st') = set (jobs_of st)"
    by (rule distinct_mset_cong, rule mset_eq_setD)
  moreover have w: "set (in_work st') = set (j # in_work st)"
    by (auto simp: job_defs push_def assms(3))
  moreover have "owns f s h ws (in_work st') W = owns f s h ws (j # in_work st) W" for f h ws W
    by (rule owns_cong [OF w refl])
  moreover have "slot_holders st' = slot_holders st" "slot_waiters st' = slot_waiters st"
    "st_bytes st' = st_bytes st" "st_next st' = st_next st" "st_reader st' = RCheck"
    by (simp_all add: slot_holders_def slot_waiters_def assms(3))
  ultimately show ?thesis using assms(1,2) by (simp add: inv_defs)
qed

lemma reader_keeps:
  assumes "config_ok cfg" and "local_inv cfg s st sh" and "reader_step cfg s a st sh = Some (st', sh')"
  shows "local_inv cfg s st' sh' \<and> others_same s sh sh'"
proof -
  have same: "others_same s sh sh" "others_same s sh (count_rejected sh)"
    by (simp_all add: others_same_def count_rejected_def)
  show ?thesis
  proof (cases a)
    case (Read msg)
    show ?thesis
    proof (cases "\<exists>req img. msg = Some req \<and> read_message cfg (st_started st) req = Admit img")
      case True
      then obtain req img where r: "msg = Some req" "read_message cfg (st_started st) req = Admit img" by auto
      with Read assms(3) have "st_reader st = RRead" by (auto split: reader.splits)
      with Read assms r same admit_keeps [OF assms(1,2) this r(2) refl] show ?thesis
        by (auto simp: reader_read_def Let_def)
    next
      case False
      with Read assms(3) show ?thesis
        by (intro local_inv_same [OF assms(2)])
          (auto simp: reader_read_def count_rejected_def split: reader.splits option.splits read_result.splits)
    qed
  next
    case PollStream
    with assms(3) obtain j r L where j: "st_reader st = RWaitStream j"
      and p: "ledger_poll (s, pj_id j) (st_halt st) (st_bytes st) = (r, L)" and "r \<noteq> Waiting"
      by (auto split: reader.splits prod.splits poll_result.splits)
    with poll_stream_keeps [OF assms(2) this] PollStream assms(3) same show ?thesis
      by (auto split: poll_result.splits)
  next
    case EnterProcess
    with assms(3) obtain j where j: "st_reader st = RTookStream j" by (auto split: reader.splits)
    with enter_process_keeps [OF assms(1,2) j refl] EnterProcess assms(3) show ?thesis by auto
  next
    case PollProcess
    with assms(3) obtain j r L where j: "st_reader st = RWaitProcess j"
      and p: "ledger_poll (s, pj_id j) (st_halt st) (sh_buffered sh) = (r, L)" and r: "r \<noteq> Waiting"
      by (auto split: reader.splits prod.splits poll_result.splits)
    from poll_process_keeps [OF assms(2) j p r refl refl] PollProcess assms(3) j p show ?thesis
      by (auto split: poll_result.splits)
  next
    case Queue
    with assms(3) obtain j where j: "st_reader st = RQueue j" by (auto split: reader.splits)
    with queue_keeps [OF assms(2) j refl] Queue assms(3) same show ?thesis by auto
  next
    case (Finish c)
    with assms(3) show ?thesis
      by (intro local_inv_same [OF assms(2)])
        (auto simp: reader_finish_def Let_def count_rejected_def split: reader.splits if_splits)
  qed (rule local_inv_same [OF assms(2)];
      use assms(3) in \<open>auto simp: close_def split: reader.splits if_splits\<close>)+
qed

section \<open>The stages of a page in a worker's hands\<close>

definition rest_of :: "(worker \<Rightarrow> page_job list) \<Rightarrow> nat \<Rightarrow> worker list \<Rightarrow> page_job list" where
  "rest_of f k ws = concat (map f (ws[k := WIdle]))"

lemma mset_workers:
  assumes "k < length ws" and "f WIdle = []"
  shows "mset (concat (map f (ws[k := w]))) = mset (f w) + mset (rest_of f k ws)"
    and "mset (concat (map f ws)) = mset (f (ws ! k)) + mset (rest_of f k ws)"
proof -
  have "mset (concat (map f (ws[k := v]))) = mset (f v) + mset (rest_of f k ws)" for v
    using mset_concat_update [of k "ws[k := WIdle]" f v] assms
    by (simp add: rest_of_def union_commute)
  from this [of w] this [of "ws ! k"]
  show "mset (concat (map f (ws[k := w]))) = mset (f w) + mset (rest_of f k ws)"
    and "mset (concat (map f ws)) = mset (f (ws ! k)) + mset (rest_of f k ws)"
    by simp_all
qed

lemma set_workers:
  assumes "k < length ws" and "f WIdle = []"
  shows "set (concat (map f (ws[k := w]))) = set (f w) \<union> set (rest_of f k ws)"
    and "set (concat (map f ws)) = set (f (ws ! k)) \<union> set (rest_of f k ws)"
  using mset_workers [where f = f, OF assms] by (metis set_mset_mset set_mset_union)+

lemma subset_rest:
  assumes "\<And>w. set (f w) \<subseteq> set (worker_job w)"
  shows "set (rest_of f k ws) \<subseteq> set (rest_of worker_job k ws)"
  using assms by (auto simp: rest_of_def)

lemma slot_subset: "set (slot_job w) \<subseteq> set (worker_job w)"
  by (cases w) auto

lemma wait_subset: "set (wait_job w) \<subseteq> set (worker_job w)"
  by (cases w) auto

lemma worker_page:
  assumes "local_inv cfg s st sh" and "k < length (st_workers st)"
    and "worker_job (st_workers st ! k) = [j]"
  shows "pj_id j \<notin> pj_id ` set (rest_of worker_job k (st_workers st))"
    and "pj_id j \<notin> pj_id ` set (rest_of slot_job k (st_workers st))"
    and "pj_id j \<notin> pj_id ` set (rest_of wait_job k (st_workers st))"
    and "pj_id j \<notin> pj_id ` set (reader_job (st_reader st) @ queue (st_jobs st))"
    and "inj_on pj_id (set (jobs_of st))"
proof -
  let ?rest = "rest_of worker_job k (st_workers st)"
  have "distinct (map pj_id (jobs_of st))" using assms(1) by (simp add: inv_defs)
  moreover have "mset (jobs_of st)
      = mset (reader_job (st_reader st) @ queue (st_jobs st) @ [j] @ ?rest)"
    using mset_workers(2) [OF assms(2), of worker_job] assms(3) by (simp add: job_defs)
  ultimately have d: "distinct (map pj_id (reader_job (st_reader st) @ queue (st_jobs st) @ [j] @ ?rest))"
    using distinct_mset_cong by blast
  then show r: "pj_id j \<notin> pj_id ` set ?rest"
    and "pj_id j \<notin> pj_id ` set (reader_job (st_reader st) @ queue (st_jobs st))" by auto
  from r show "pj_id j \<notin> pj_id ` set (rest_of slot_job k (st_workers st))"
    and "pj_id j \<notin> pj_id ` set (rest_of wait_job k (st_workers st))"
    using subset_rest [of slot_job k "st_workers st"] subset_rest [of wait_job k "st_workers st"]
      slot_subset wait_subset by blast+
  show "inj_on pj_id (set (jobs_of st))"
    using assms(1) by (simp add: inv_defs distinct_map)
qed

lemma pop_keeps:
  assumes "local_inv cfg s st sh" and "k < length (st_workers st)" and "st_workers st ! k = WIdle"
    and "pop (st_jobs st) = (PopValue j, q)" and "st' = set_worker k (WLook j) (st\<lparr>st_jobs := q\<rparr>)"
  shows "local_inv cfg s st' sh"
proof -
  have q: "queue (st_jobs st) = j # queue q" using chan.get_value_iff [OF assms(4)] by simp
  have "mset (in_work st') = mset (in_work st)"
    using mset_workers(1) [OF assms(2), of worker_job "WLook j"]
      mset_workers(2) [OF assms(2), of worker_job] assms(3)
    by (simp add: in_work_def assms(5) q)
  then have w: "set (in_work st') = set (in_work st)" and m: "mset (jobs_of st') = mset (jobs_of st)"
    by (rule mset_eq_setD, simp add: jobs_of_def assms(5))
  have "distinct (map pj_id (jobs_of st')) = distinct (map pj_id (jobs_of st))"
    and "set (jobs_of st') = set (jobs_of st)"
    using m by (rule distinct_mset_cong, rule mset_eq_setD)
  moreover have "owns f s h ws (H @ in_work st') W = owns f s h ws (H @ in_work st) W" for f h ws H W
    by (rule owns_cong) (simp_all add: w)
  moreover have "slot_holders st' = slot_holders st" "slot_waiters st' = slot_waiters st"
    "st_bytes st' = st_bytes st" "st_next st' = st_next st" "st_reader st' = st_reader st"
    using assms(2,3) by (simp_all add: slot_holders_def slot_waiters_def assms(5) set_concat_same)
  ultimately show ?thesis using assms(1) by (simp add: inv_defs)
qed

lemma worker_same:
  assumes "local_inv cfg s st sh" and "k < length (st_workers st)"
    and "worker_job w = worker_job (st_workers st ! k)" and "slot_job w = slot_job (st_workers st ! k)"
    and "wait_job w = wait_job (st_workers st ! k)"
    and "st_reader st' = st_reader st" and "st_bytes st' = st_bytes st" and "st_next st' = st_next st"
    and "st_jobs st' = st_jobs st" and "st_workers st' = (st_workers st)[k := w]"
    and "sh_buffered sh' = sh_buffered sh" and "sh_slots sh' = sh_slots sh"
  shows "local_inv cfg s st' sh' \<and> others_same s sh sh'"
  using assms
  by (intro local_inv_same [OF assms(1)]) (simp_all add: map_update list_update_same_conv)

text \<open>What a change of the slots alone leaves to show.\<close>

lemma slot_change:
  assumes "local_inv cfg s st sh" and "k < length (st_workers st)"
    and "worker_job w = worker_job (st_workers st ! k)"
    and "ledger_inv L \<and> limit L = limit (sh_slots sh)
      \<and> owns one_slot s (held L) (waiting L) (slot_holders (set_worker k w st)) (slot_waiters (set_worker k w st))
      \<and> same_for_others s (held (sh_slots sh)) (waiting (sh_slots sh)) (held L) (waiting L)"
  shows "local_inv cfg s (set_worker k w st) (sh\<lparr>sh_slots := L\<rparr>) \<and> others_same s sh (sh\<lparr>sh_slots := L\<rparr>)"
proof -
  have "in_work (set_worker k w st) = in_work st" "jobs_of (set_worker k w st) = jobs_of st"
    using assms(2,3) by (simp_all add: job_defs set_concat_same)
  with assms(1,4) show ?thesis by (simp add: inv_defs)
qed

lemma slot_sets:
  assumes "k < length (st_workers st)"
  shows "set (slot_holders (set_worker k w st)) = set (slot_job w) \<union> set (rest_of slot_job k (st_workers st))"
    and "set (slot_waiters (set_worker k w st)) = set (wait_job w) \<union> set (rest_of wait_job k (st_workers st))"
    and "set (slot_holders st) = set (slot_job (st_workers st ! k)) \<union> set (rest_of slot_job k (st_workers st))"
    and "set (slot_waiters st) = set (wait_job (st_workers st ! k)) \<union> set (rest_of wait_job k (st_workers st))"
  unfolding slot_holders_def slot_waiters_def set_worker_simps
  using set_workers [OF assms, of slot_job] set_workers [OF assms, of wait_job] by simp_all

lemma slot_inj:
  assumes "local_inv cfg s st sh"
  shows "inj_on pj_id (set (slot_holders st))" and "inj_on pj_id (set (slot_waiters st))"
proof -
  have "set (slot_holders st) \<subseteq> set (jobs_of st)" "set (slot_waiters st) \<subseteq> set (jobs_of st)"
    using slot_subset wait_subset by (fastforce simp: job_defs)+
  moreover have "inj_on pj_id (set (jobs_of st))" using assms by (simp add: inv_defs distinct_map)
  ultimately show "inj_on pj_id (set (slot_holders st))" and "inj_on pj_id (set (slot_waiters st))"
    by (meson inj_on_subset)+
qed

lemma slotsD:
  assumes "local_inv cfg s st sh"
  shows "ledger_inv (sh_slots sh)"
    and "owns one_slot s (held (sh_slots sh)) (waiting (sh_slots sh)) (slot_holders st) (slot_waiters st)"
    and "limit (sh_slots sh) = max_inflight cfg"
  using assms by (simp_all add: inv_defs)

lemma enter_slot_keeps:
  assumes "config_ok cfg" and "local_inv cfg s st sh" and "k < length (st_workers st)"
    and "st_workers st ! k = WLook j"
    and "sh' = sh\<lparr>sh_slots := ledger_enter (s, pj_id j) 1 (sh_slots sh)\<rparr>"
  shows "local_inv cfg s (set_worker k (WWait j) st) sh' \<and> others_same s sh sh'"
proof -
  note p = worker_page [OF assms(2,3), of j] and S = slot_sets [OF assms(3)]
  let ?L = "ledger_enter (s, pj_id j) (one_slot j) (sh_slots sh)"
  have cap: "one_slot j \<le> limit (sh_slots sh)" "1 \<le> one_slot j"
    using assms(1) slotsD(3) [OF assms(2)] by (simp_all add: config_ok_def one_slot_def)
  have new: "pj_id j \<notin> pj_id ` set (slot_holders st)" "pj_id j \<notin> pj_id ` set (slot_waiters st)"
    using p(2,3) assms(4) by (simp_all add: S)
  have "set (slot_waiters (set_worker k (WWait j) st)) = insert j (set (slot_waiters st))"
    using assms(4) by (simp add: S)
  from ob.enter_owns [OF slotsD(1,2) [OF assms(2)] new cap(2,1) this]
  have e: "ledger_inv ?L" "owns one_slot s (held ?L) (waiting ?L) (slot_holders st)
      (slot_waiters (set_worker k (WWait j) st))"
    "same_for_others s (held (sh_slots sh)) (waiting (sh_slots sh)) (held ?L) (waiting ?L)" by auto
  have "slot_holders (set_worker k (WWait j) st) = slot_holders st"
    using assms(3,4) by (simp add: slot_holders_def set_concat_same)
  with e have "local_inv cfg s (set_worker k (WWait j) st) (sh\<lparr>sh_slots := ?L\<rparr>)
      \<and> others_same s sh (sh\<lparr>sh_slots := ?L\<rparr>)"
    using assms(4) by (intro slot_change [OF assms(2,3)]) (simp_all add: lb.enter_cap)
  then show ?thesis by (simp add: assms(5) one_slot_def)
qed

lemma poll_slot_keeps:
  assumes "local_inv cfg s st sh" and "k < length (st_workers st)" and "st_workers st ! k = WWait j"
    and "ledger_poll (s, pj_id j) (st_halt st) (sh_slots sh) = (r, L)" and "r \<noteq> Waiting"
    and "w = (case r of Took _ \<Rightarrow> WConvert j | _ \<Rightarrow> WDropJob j)"
  shows "local_inv cfg s (set_worker k w st) (sh\<lparr>sh_slots := L\<rparr>) \<and> others_same s sh (sh\<lparr>sh_slots := L\<rparr>)"
proof -
  note p = worker_page [OF assms(1,2), of j] and S = slot_sets [OF assms(2)]
  have j: "j \<in> set (slot_waiters st)" using assms(3) by (simp add: S)
  have new: "pj_id j \<notin> pj_id ` set (slot_holders st)" using p(2) assms(3) by (simp add: S)
  have "j \<notin> set (rest_of wait_job k (st_workers st))" using p(3) assms(3) by auto
  then have W: "set (slot_waiters (set_worker k w st)) = set (slot_waiters st) - {j}"
    using assms(3,5,6) by (auto simp: S split: poll_result.splits)
  have wj: "worker_job w = worker_job (st_workers st ! k)"
    using assms(3,6) by (simp split: poll_result.splits)
  show ?thesis
  proof (rule slot_change [OF assms(1,2) wj], cases r)
    case (Took a)
    then have "set (slot_holders (set_worker k w st)) = insert j (set (slot_holders st))"
      using assms(3,6) by (simp add: S)
    with ob.took_owns [OF slotsD(1,2) [OF assms(1)] _ j slot_inj(2) [OF assms(1)] new _ W] Took assms(4)
    show "ledger_inv L \<and> limit L = limit (sh_slots sh)
      \<and> owns one_slot s (held L) (waiting L) (slot_holders (set_worker k w st)) (slot_waiters (set_worker k w st))
      \<and> same_for_others s (held (sh_slots sh)) (waiting (sh_slots sh)) (held L) (waiting L)" by blast
  next
    case GaveUp
    then have "slot_holders (set_worker k w st) = slot_holders st"
      using assms(2,3,6) by (simp add: slot_holders_def set_concat_same)
    with ob.gave_up_owns [OF slotsD(1,2) [OF assms(1)] _ j slot_inj(2) [OF assms(1)] W] GaveUp assms(4)
    show "ledger_inv L \<and> limit L = limit (sh_slots sh)
      \<and> owns one_slot s (held L) (waiting L) (slot_holders (set_worker k w st)) (slot_waiters (set_worker k w st))
      \<and> same_for_others s (held (sh_slots sh)) (waiting (sh_slots sh)) (held L) (waiting L)" by auto
  qed (use assms(5) in simp)
qed

lemma drop_slot_keeps:
  assumes "local_inv cfg s st sh" and "k < length (st_workers st)" and "st_workers st ! k = WDropSlot j"
    and "sh' = sh\<lparr>sh_slots := ledger_release (s, pj_id j) (sh_slots sh)\<rparr>"
  shows "local_inv cfg s (set_worker k (WDropJob j) st) sh' \<and> others_same s sh sh'"
proof -
  note p = worker_page [OF assms(1,2), of j] and S = slot_sets [OF assms(2)]
  have j: "j \<in> set (slot_holders st)" using assms(3) by (simp add: S)
  have "j \<notin> set (rest_of slot_job k (st_workers st))" using p(2) assms(3) by auto
  then have H: "set (slot_holders (set_worker k (WDropJob j) st)) = set (slot_holders st) - {j}"
    using assms(3) by (auto simp: S)
  have "slot_waiters (set_worker k (WDropJob j) st) = slot_waiters st"
    using assms(2,3) by (simp add: slot_waiters_def set_concat_same)
  with ob.release_owns [OF slotsD(1,2) [OF assms(1)] j slot_inj(1) [OF assms(1)] H] assms(3)
  show ?thesis unfolding assms(4) by (intro slot_change [OF assms(1,2)]) simp_all
qed

lemma drop_job_keeps:
  assumes "local_inv cfg s st sh" and "k < length (st_workers st)" and "st_workers st ! k = WDropJob j"
    and "st' = set_worker k WIdle (st\<lparr>st_bytes := ledger_release (s, pj_id j) (st_bytes st)\<rparr>)"
    and "sh' = sh\<lparr>sh_buffered := ledger_release (s, pj_id j) (sh_buffered sh)\<rparr>"
  shows "local_inv cfg s st' sh' \<and> others_same s sh sh'"
proof -
  note p = worker_page [OF assms(1,2), of j]
  have m: "mset (in_work st) = add_mset j (mset (in_work st'))"
    using mset_workers(2) [OF assms(2), of worker_job] assms(3)
    by (simp add: in_work_def assms(4) rest_of_def)
  then have "mset (jobs_of st) = mset (j # jobs_of st')" by (simp add: jobs_of_def assms(4))
  then have d: "distinct (map pj_id (j # jobs_of st'))" and sj: "set (jobs_of st) = insert j (set (jobs_of st'))"
    using assms(1) distinct_mset_cong [of "jobs_of st" "j # jobs_of st'" pj_id]
    by (simp add: inv_defs, metis list.simps(15) mset_eq_setD)
  have w: "set (in_work st) = insert j (set (in_work st'))" using m by (metis set_mset_add_mset_insert set_mset_mset)
  have sub: "set (holds_stream r) \<subseteq> set (reader_job r)" "set (holds_process r) \<subseteq> set (reader_job r)" for r
    by (cases r; simp)+
  have jn: "j \<notin> set (reader_job (st_reader st)) \<union> set (in_work st')"
    using d by (auto simp: jobs_of_def assms(4))
  have inj: "inj_on pj_id (set (jobs_of st))" using assms(1) by (simp add: inv_defs distinct_map)
  have A: "ledger_inv (st_bytes st)" "owns job_bytes s (held (st_bytes st)) (waiting (st_bytes st))
      (holds_stream (st_reader st) @ in_work st) (waits_stream (st_reader st))"
    and B: "ledger_inv (sh_buffered sh)" "owns job_bytes s (held (sh_buffered sh)) (waiting (sh_buffered sh))
      (holds_process (st_reader st) @ in_work st) (waits_process (st_reader st))"
    using assms(1) by (simp_all add: inv_defs)
  have i1: "inj_on pj_id (set (holds_stream (st_reader st) @ in_work st))"
    and i2: "inj_on pj_id (set (holds_process (st_reader st) @ in_work st))"
    using sub [of "st_reader st"] by (auto intro!: inj_on_subset [OF inj] simp: jobs_of_def)
  have j1: "j \<in> set (holds_stream (st_reader st) @ in_work st)"
    and j2: "j \<in> set (holds_process (st_reader st) @ in_work st)" by (simp_all add: w)
  have s1: "set (holds_stream (st_reader st) @ in_work st') = set (holds_stream (st_reader st) @ in_work st) - {j}"
    and s2: "set (holds_process (st_reader st) @ in_work st') = set (holds_process (st_reader st) @ in_work st) - {j}"
    using jn sub [of "st_reader st"] by (auto simp: w)
  have "slot_holders st' = slot_holders st" "slot_waiters st' = slot_waiters st"
    using assms(2,3) by (simp_all add: slot_holders_def slot_waiters_def assms(4) set_concat_same)
  then show ?thesis
    using assms(1) ob.release_owns [OF A j1 i1 s1] ob.release_owns [OF B j2 i2 s2] d sj
    by (simp add: inv_defs assms(4,5))
qed

lemma worker_converted_frame:
  assumes "worker_converted mapper version cfg k j out st sh = (st', sh')"
  shows "\<exists>w. (w = WDropSlot j \<or> (\<exists>b. w = WPushed j b)) \<and> st_workers st' = (st_workers st)[k := w]
    \<and> st_reader st' = st_reader st \<and> st_bytes st' = st_bytes st \<and> st_next st' = st_next st
    \<and> st_jobs st' = st_jobs st \<and> sh_buffered sh' = sh_buffered sh \<and> sh_slots sh' = sh_slots sh"
proof (cases "page_event mapper version cfg (st_plan st) j out")
  case None
  with assms show ?thesis by (intro exI [of _ "WDropSlot j"]) (auto simp: worker_converted_def)
next
  case (Some e)
  with assms show ?thesis
    by (intro exI [of _ "WPushed j (is_raw e)"]) (auto simp: worker_converted_def Let_def)
qed

lemma worker_keeps:
  assumes "config_ok cfg" and "local_inv cfg s st sh"
    and "worker_step mapper version cfg s k a st sh = Some (st', sh')"
  shows "local_inv cfg s st' sh' \<and> others_same s sh sh'"
proof -
  have k: "k < length (st_workers st)" using assms(3) by (auto simp: worker_step_def split: if_splits)
  have refl_same: "others_same s sh sh" by (simp add: others_same_def)
  note step = assms(3) [unfolded worker_step_def]
  show ?thesis
  proof (cases "st_workers st ! k")
    case WIdle
    with step k consider j q where "pop (st_jobs st) = (PopValue j, q)"
        "st' = set_worker k (WLook j) (st\<lparr>st_jobs := q\<rparr>)" "sh' = sh"
      | "st' = set_worker k WDone st" "sh' = sh"
      by (auto split: worker_action.splits prod.splits popped.splits)
    then show ?thesis
    proof cases
      case 1
      with pop_keeps [OF assms(2) k WIdle] refl_same show ?thesis by simp
    next
      case 2
      then show ?thesis by (intro worker_same [OF assms(2) k, of WDone]) (simp_all add: WIdle)
    qed
  next
    case (WLook j)
    with step k consider "st' = set_worker k (WDropJob j) st" "sh' = sh"
      | "st' = set_worker k (WWait j) st"
        "sh' = sh\<lparr>sh_slots := ledger_enter (s, pj_id j) 1 (sh_slots sh)\<rparr>"
      by (auto split: worker_action.splits if_splits)
    then show ?thesis
    proof cases
      case 1
      then show ?thesis by (intro worker_same [OF assms(2) k, of "WDropJob j"]) (simp_all add: WLook)
    next
      case 2
      with enter_slot_keeps [OF assms(1,2) k WLook] show ?thesis by simp
    qed
  next
    case (WWait j)
    with step k obtain r L where "ledger_poll (s, pj_id j) (st_halt st) (sh_slots sh) = (r, L)"
      "r \<noteq> Waiting" "st' = set_worker k (case r of Took _ \<Rightarrow> WConvert j | _ \<Rightarrow> WDropJob j) st"
      "sh' = sh\<lparr>sh_slots := L\<rparr>"
      by (auto split: worker_action.splits prod.splits poll_result.splits)
    with poll_slot_keeps [OF assms(2) k WWait] show ?thesis by simp
  next
    case (WConvert j)
    with step k obtain out where "worker_converted mapper version cfg k j out st sh = (st', sh')"
      by (auto split: worker_action.splits if_splits)
    then obtain w where "w = WDropSlot j \<or> (\<exists>b. w = WPushed j b)" "st_workers st' = (st_workers st)[k := w]"
      "st_reader st' = st_reader st" "st_bytes st' = st_bytes st" "st_next st' = st_next st"
      "st_jobs st' = st_jobs st" "sh_buffered sh' = sh_buffered sh" "sh_slots sh' = sh_slots sh"
      using worker_converted_frame [of mapper version cfg k j out st sh st' sh'] by blast
    then show ?thesis by (intro worker_same [OF assms(2) k, of w]) (auto simp: WConvert)
  next
    case (WPushed j raw)
    with step k show ?thesis
      by (intro worker_same [OF assms(2) k, of "WDropSlot j"]) (auto split: worker_action.splits)
  next
    case (WDropSlot j)
    with step k drop_slot_keeps [OF assms(2) k WDropSlot] show ?thesis
      by (auto split: worker_action.splits)
  next
    case (WDropJob j)
    with step k drop_job_keeps [OF assms(2) k WDropJob] show ?thesis
      by (auto split: worker_action.splits)
  next
    case WDone
    with step k show ?thesis by (auto split: worker_action.splits)
  qed
qed

lemma writer_keeps:
  assumes "local_inv cfg s st sh" and "writer_step a st = Some st'"
  shows "local_inv cfg s st' sh"
proof -
  have "local_inv cfg s st' sh \<and> others_same s sh sh"
    using assms(2)
    by (intro local_inv_same [OF assms(1)])
      (auto simp: writer_step_def split: writer.splits writer_action.splits prod.splits
        popped_for.splits if_splits)
  then show ?thesis by simp
qed

section \<open>The whole process\<close>

definition process_inv :: "config \<Rightarrow> 'd process \<Rightarrow> bool" where
  "process_inv cfg P \<longleftrightarrow>
     shared_inv cfg (pr_shared P) \<and> finite (dom (pr_streams P))
     \<and> (\<forall>s st. pr_streams P s = Some st \<longrightarrow> stream_inv cfg s st \<and> shares s st (pr_shared P))
     \<and> (\<forall>s. pr_streams P s = None \<longrightarrow>
          owns job_bytes s (held (sh_buffered (pr_shared P))) (waiting (sh_buffered (pr_shared P))) [] []
          \<and> owns one_slot s (held (sh_slots (pr_shared P))) (waiting (sh_slots (pr_shared P))) [] [])"

lemma process_local:
  "process_inv cfg P \<Longrightarrow> pr_streams P s = Some st \<Longrightarrow> local_inv cfg s st (pr_shared P)"
  by (simp add: process_inv_def local_inv_def)

lemma process_step:
  assumes "process_inv cfg P" and "local_inv cfg s st' sh'" and "others_same s (pr_shared P) sh'"
  shows "process_inv cfg \<lparr>pr_streams = (pr_streams P)(s \<mapsto> st'), pr_shared = sh'\<rparr>"
proof -
  have o: "owns f r (held (sh_buffered sh')) (waiting (sh_buffered sh')) H W
      = owns f r (held (sh_buffered (pr_shared P))) (waiting (sh_buffered (pr_shared P))) H W"
    "owns f r (held (sh_slots sh')) (waiting (sh_slots sh')) H W
      = owns f r (held (sh_slots (pr_shared P))) (waiting (sh_slots (pr_shared P))) H W"
    if "r \<noteq> s" for f r H W
    using assms(3) owns_other [OF _ that] unfolding others_same_def by blast+
  then have "shares r st sh' = shares r st (pr_shared P)" if "r \<noteq> s" for r and st :: "'a stream"
    using that by (simp add: shares_def)
  with o assms(1,2) show ?thesis by (auto simp: process_inv_def local_inv_def)
qed

lemma new_stream_local:
  assumes "config_ok cfg" and "process_inv cfg P" and "pr_streams P s = None"
  shows "local_inv cfg s (new_stream cfg plan) (pr_shared P)"
proof -
  let ?L = "new_ledger (max_stream_buffered_bytes cfg) :: owner ledger"
  have "max_stream_buffered_bytes cfg < 2 ^ 63" "1 \<le> max_stream_buffered_bytes cfg"
    using assms(1) by (auto simp: config_ok_def)
  then have "ledger_inv ?L" "limit ?L = max_stream_buffered_bytes cfg"
    by (simp_all add: ledger_inv_new) (simp add: limit_def new_ledger_def new_budget_def)
  moreover have "held ?L = Map.empty" "waiting ?L = []"
    by (simp_all add: new_ledger_def waiting_def new_budget_def)
  moreover have "concat (map f (replicate n WIdle)) = []" if "f WIdle = []" for f :: "worker \<Rightarrow> page_job list" and n
    using that by (induction n) simp_all
  ultimately show ?thesis
    using assms(2,3)
    by (simp add: process_inv_def inv_defs job_defs new_stream_def new_channel_def owns_def
        matches_def wait_view_def)
qed

lemma refused_local:
  assumes "config_ok cfg" and "process_inv cfg P" and "pr_streams P s = None"
  shows "local_inv cfg s (refused_stream cfg status) (count_rejected (pr_shared P))
    \<and> others_same s (pr_shared P) (count_rejected (pr_shared P))"
  unfolding refused_stream_def
  by (rule local_inv_same [OF new_stream_local [OF assms, of refused_plan]])
    (simp_all add: count_rejected_def new_stream_def)

lemma exec_inv:
  assumes "config_ok cfg" and "process_inv cfg P" and "exec mapper version cfg s a P = Some P'"
  shows "process_inv cfg P'"
proof (cases "pr_streams P s")
  case None
  have same: "others_same s (pr_shared P) (pr_shared P)" by (simp add: others_same_def)
  from None assms(3) consider plan where "P' = \<lparr>pr_streams = (pr_streams P)(s \<mapsto> new_stream cfg plan), pr_shared = pr_shared P\<rparr>"
    | status where "P' = \<lparr>pr_streams = (pr_streams P)(s \<mapsto> refused_stream cfg status),
        pr_shared = count_rejected (pr_shared P)\<rparr>"
    by (cases P) (auto simp: exec_def split: action.splits sum.splits)
  then show ?thesis
  proof cases
    case 1
    then show ?thesis using process_step [OF assms(2) new_stream_local [OF assms(1,2) None] same] by simp
  next
    case 2
    then show ?thesis using refused_local [OF assms(1,2) None, of status] process_step [OF assms(2)] by blast
  qed
next
  case (Some st)
  note l = process_local [OF assms(2) Some]
  have same: "others_same s (pr_shared P) (pr_shared P)" by (simp add: others_same_def)
  show ?thesis
  proof (cases a)
    case (Reader r)
    with Some assms(3) obtain st' sh' where "reader_step cfg s r st (pr_shared P) = Some (st', sh')"
      "P' = \<lparr>pr_streams = (pr_streams P)(s \<mapsto> st'), pr_shared = sh'\<rparr>" by (auto simp: exec_def)
    with reader_keeps [OF assms(1) l] process_step [OF assms(2)] show ?thesis by blast
  next
    case (Worker k w)
    with Some assms(3) obtain st' sh' where
      "worker_step mapper version cfg s k w st (pr_shared P) = Some (st', sh')"
      "P' = \<lparr>pr_streams = (pr_streams P)(s \<mapsto> st'), pr_shared = sh'\<rparr>" by (auto simp: exec_def)
    with worker_keeps [OF assms(1) l] process_step [OF assms(2)] show ?thesis by blast
  next
    case (Writer w)
    with Some assms(3) obtain st' where "writer_step w st = Some st'"
      "P' = P\<lparr>pr_streams := (pr_streams P)(s \<mapsto> st')\<rparr>" by (auto simp: exec_def)
    with writer_keeps [OF l] process_step [OF assms(2) _ same] show ?thesis by (cases P) simp
  qed (use Some assms(3) in \<open>simp add: exec_def\<close>)
qed

lemma new_process_inv:
  assumes "config_ok cfg"
  shows "process_inv cfg (new_process cfg)"
proof -
  have "max_buffered_bytes cfg < 2 ^ 63" "1 \<le> max_buffered_bytes cfg" "max_inflight cfg < 2 ^ 63"
    "1 \<le> max_inflight cfg"
    using assms by (auto simp: config_ok_def)
  then show ?thesis
    by (simp add: process_inv_def new_process_def shared_inv_def ledger_inv_new)
      (simp add: new_ledger_def new_budget_def limit_def owns_def matches_def wait_view_def waiting_def)
qed

lemma reachable_inv:
  assumes "config_ok cfg" and "reachable mapper version cfg P"
  shows "process_inv cfg P"
  using assms(2) by induction (use assms(1) new_process_inv exec_inv in blast)+

section \<open>Bounds\<close>

lemma slot_holders_distinct:
  assumes "stream_inv cfg s st"
  shows "distinct (map pj_id (slot_holders st))"
proof -
  have "mset (slot_holders st) \<subseteq># mset (concat (map worker_job (st_workers st)))"
    unfolding slot_holders_def
  proof (induction "st_workers st" arbitrary: st)
    case (Cons w ws)
    have "mset (slot_job w) \<subseteq># mset (worker_job w)" by (cases w) auto
    moreover have "mset (concat (map slot_job ws)) \<subseteq># mset (concat (map worker_job ws))"
      using Cons.hyps(1) [of "st\<lparr>st_workers := ws\<rparr>"] by simp
    ultimately show ?case using Cons.hyps(2) [symmetric] by (simp add: subset_mset.add_mono)
  qed simp
  then have "mset (slot_holders st) \<subseteq># mset (jobs_of st)"
    by (simp add: jobs_of_def in_work_def subset_mset.add_increasing)
  then obtain zs where "mset (jobs_of st) = mset (slot_holders st @ zs)"
    by (metis ex_mset mset_append mset_subset_eq_exists_conv)
  then have "distinct (map pj_id (slot_holders st @ zs))"
    using assms distinct_mset_cong by (metis stream_inv_def)
  then show ?thesis by simp
qed

definition converting :: "'d process \<Rightarrow> nat \<Rightarrow> nat" where
  "converting P s = (case pr_streams P s of None \<Rightarrow> 0 | Some st \<Rightarrow> length (slot_holders st))"

definition buffered_bytes :: "'d process \<Rightarrow> nat \<Rightarrow> nat" where
  "buffered_bytes P s =
     (case pr_streams P s of
        None \<Rightarrow> 0
      | Some st \<Rightarrow> sum_list (map job_bytes (holds_process (st_reader st) @ in_work st)))"

lemma sum_one_slot: "sum_list (map one_slot js) = length js"
  by (induction js) (simp_all add: one_slot_def)

lemma holders_distinct:
  assumes "stream_inv cfg s st"
  shows "distinct (map pj_id (holds_process (st_reader st) @ in_work st))"
    and "distinct (map pj_id (holds_stream (st_reader st) @ in_work st))"
  using assms by (cases "st_reader st"; simp add: stream_inv_def jobs_of_def)+

text \<open>
  C1: the model endpoint is never asked for more than it was configured for.  However
  many streams are open and however their threads interleave, the pages that are being
  called, mapped or queued for the client never outnumber the configured in-flight slots,
  over all streams together.
\<close>

theorem inflight_bounded:
  assumes "config_ok cfg" and "reachable mapper version cfg P"
  shows "(\<Sum>s\<in>dom (pr_streams P). converting P s) \<le> max_inflight cfg"
proof -
  have inv: "process_inv cfg P" by (rule reachable_inv [OF assms])
  then have l: "finite (dom (pr_streams P))" "ledger_inv (sh_slots (pr_shared P))"
    "limit (sh_slots (pr_shared P)) = max_inflight cfg"
    by (simp_all add: process_inv_def shared_inv_def)
  have "owns one_slot s (held (sh_slots (pr_shared P))) (waiting (sh_slots (pr_shared P)))
      (slot_holders (the (pr_streams P s))) (slot_waiters (the (pr_streams P s)))
      \<and> distinct (map pj_id (slot_holders (the (pr_streams P s))))" if "s \<in> dom (pr_streams P)" for s
    using that process_local [OF inv, of s] slot_holders_distinct by (auto simp: local_inv_def shares_def)
  from ob.owns_total [OF l(2,1) this]
  have "(\<Sum>s\<in>dom (pr_streams P). sum_list (map one_slot (slot_holders (the (pr_streams P s)))))
      \<le> max_inflight cfg" by (simp add: l(3))
  also have "(\<Sum>s\<in>dom (pr_streams P). sum_list (map one_slot (slot_holders (the (pr_streams P s)))))
      = (\<Sum>s\<in>dom (pr_streams P). converting P s)"
    by (intro sum.cong refl) (auto simp: converting_def sum_one_slot)
  finally show ?thesis .
qed

text \<open>A page a reader has read and holds while it waits for its bytes.\<close>

fun waiting_page :: "reader \<Rightarrow> page_job list" where
  "waiting_page (RWaitStream j) = [j]"
| "waiting_page (RTookStream j) = [j]"
| "waiting_page (RWaitProcess j) = [j]"
| "waiting_page _ = []"

lemma reader_job_split: "reader_job r = waiting_page r @ holds_process r"
  by (cases r) simp_all

lemma waiting_page_bytes:
  assumes "stream_inv cfg s st"
  shows "sum_list (map job_bytes (waiting_page (st_reader st)))
    \<le> (if waiting_page (st_reader st) = [] then 0 else max_page_bytes cfg)"
proof -
  have "set (waiting_page (st_reader st)) \<subseteq> set (jobs_of st)" by (auto simp: jobs_of_def reader_job_split)
  then show ?thesis using assms by (cases "st_reader st") (auto simp: stream_inv_def page_fits_def)
qed

text \<open>
  C2: page images in memory are bounded, whatever the clients send and however the threads
  interleave.  The bytes of the pages queued or in flight never exceed the process-wide cap
  over all streams together, nor the stream's cap in any one of them.  The read loop of a
  stream holds one page more while it waits for these bytes; counting that page too, the bytes
  of all pages read and not yet done are at most the process-wide cap plus one page limit for
  each stream whose read loop waits.
\<close>

theorem buffered_bounded:
  assumes "config_ok cfg" and "reachable mapper version cfg P"
  shows "(\<Sum>s\<in>dom (pr_streams P). buffered_bytes P s) \<le> max_buffered_bytes cfg
    \<and> (\<forall>s st. pr_streams P s = Some st \<longrightarrow>
         sum_list (map job_bytes (holds_stream (st_reader st) @ in_work st))
           \<le> max_stream_buffered_bytes cfg)
    \<and> (\<Sum>s\<in>dom (pr_streams P). sum_list (map job_bytes (jobs_of (the (pr_streams P s)))))
        \<le> max_buffered_bytes cfg
          + card {s \<in> dom (pr_streams P). waiting_page (st_reader (the (pr_streams P s))) \<noteq> []} * max_page_bytes cfg"
proof -
  have inv: "process_inv cfg P" by (rule reachable_inv [OF assms])
  let ?H = "\<lambda>s. holds_process (st_reader (the (pr_streams P s))) @ in_work (the (pr_streams P s))"
  let ?W = "\<lambda>s. waiting_page (st_reader (the (pr_streams P s)))"
  have l: "finite (dom (pr_streams P))" "ledger_inv (sh_buffered (pr_shared P))"
    "limit (sh_buffered (pr_shared P)) = max_buffered_bytes cfg"
    using inv by (simp_all add: process_inv_def shared_inv_def)
  have "owns job_bytes s (held (sh_buffered (pr_shared P))) (waiting (sh_buffered (pr_shared P)))
      (?H s) (waits_process (st_reader (the (pr_streams P s)))) \<and> distinct (map pj_id (?H s))"
    if "s \<in> dom (pr_streams P)" for s
    using that process_local [OF inv, of s] holders_distinct(1) by (fastforce simp: local_inv_def shares_def)
  from ob.owns_total [OF l(2,1) this]
  have held: "(\<Sum>s\<in>dom (pr_streams P). sum_list (map job_bytes (?H s))) \<le> max_buffered_bytes cfg"
    by (simp only: l(3))
  have "(\<Sum>s\<in>dom (pr_streams P). sum_list (map job_bytes (?H s)))
      = (\<Sum>s\<in>dom (pr_streams P). buffered_bytes P s)"
    by (intro sum.cong refl) (auto simp: buffered_bytes_def)
  with held have one: "(\<Sum>s\<in>dom (pr_streams P). buffered_bytes P s) \<le> max_buffered_bytes cfg" by simp
  have local: "stream_inv cfg s (the (pr_streams P s))" if "s \<in> dom (pr_streams P)" for s
    using that process_local [OF inv] by (auto simp: local_inv_def)
  have two: "sum_list (map job_bytes (holds_stream (st_reader st) @ in_work st)) \<le> max_stream_buffered_bytes cfg"
    if "pr_streams P s = Some st" for s st
  proof -
    have i: "stream_inv cfg s st" using local [of s] that by auto
    then have "owns job_bytes s (held (st_bytes st)) (waiting (st_bytes st))
        (holds_stream (st_reader st) @ in_work st) (waits_stream (st_reader st))"
      "ledger_inv (st_bytes st)" "limit (st_bytes st) = max_stream_buffered_bytes cfg"
      by (simp_all add: stream_inv_def)
    with holders_distinct(2) [OF i]
      ob.owns_total [of "st_bytes st" "{s}" job_bytes "\<lambda>_. holds_stream (st_reader st) @ in_work st"
        "\<lambda>_. waits_stream (st_reader st)"]
    show ?thesis by simp
  qed
  have "(\<Sum>s\<in>dom (pr_streams P). sum_list (map job_bytes (?W s)))
      \<le> (\<Sum>s\<in>dom (pr_streams P). if ?W s \<noteq> [] then max_page_bytes cfg else 0)"
  proof (intro sum_mono)
    fix s assume "s \<in> dom (pr_streams P)"
    from waiting_page_bytes [OF local [OF this]]
    show "sum_list (map job_bytes (?W s)) \<le> (if ?W s \<noteq> [] then max_page_bytes cfg else 0)" by (cases "?W s") simp_all
  qed
  also have "\<dots> = card {s \<in> dom (pr_streams P). ?W s \<noteq> []} * max_page_bytes cfg"
    using l(1) by (simp add: sum.inter_filter [symmetric])
  finally have "(\<Sum>s\<in>dom (pr_streams P). sum_list (map job_bytes (?W s))) \<le> card {s \<in> dom (pr_streams P). ?W s \<noteq> []} * max_page_bytes cfg" .
  moreover have "(\<Sum>s\<in>dom (pr_streams P). sum_list (map job_bytes (jobs_of (the (pr_streams P s)))))
      = (\<Sum>s\<in>dom (pr_streams P). sum_list (map job_bytes (?W s))) + (\<Sum>s\<in>dom (pr_streams P). sum_list (map job_bytes (?H s)))"
    by (simp add: jobs_of_def reader_job_split sum.distrib)
  ultimately show ?thesis using held one two by auto
qed

section \<open>A page on its way\<close>

text \<open>A script of actions, for the witnesses.\<close>

fun script :: "'d mapper \<Rightarrow> string \<Rightarrow> config \<Rightarrow> (nat \<times> action) list \<Rightarrow> 'd process \<Rightarrow> 'd process option" where
  "script mapper version cfg [] P = Some P"
| "script mapper version cfg ((s, a) # as) P =
     (case exec mapper version cfg s a P of None \<Rightarrow> None | Some P' \<Rightarrow> script mapper version cfg as P')"

lemma script_reachable:
  "reachable mapper version cfg P \<Longrightarrow> script mapper version cfg as P = Some P' \<Longrightarrow>
     reachable mapper version cfg P'"
proof (induction as arbitrary: P)
  case (Cons sa as)
  then show ?case by (cases sa) (auto split: option.splits intro: reachable.step)
qed simp

definition one_page :: "(nat \<times> action) list" where
  "one_page = map (Pair 0) [Open (Some (ReqOptions key_options)), Reader Check,
     Reader (Read (Some (ReqPage sample_image))), Reader PollStream, Reader EnterProcess,
     Reader PollProcess, Reader Announce, Reader Queue, Worker 0 Pop, Worker 0 Look, Worker 0 PollSlot]"

lemma key_config_ok: "config_ok key_config"
proof -
  have "endpoint_error ''http://vlm'' = []" by (simp add: endpoint_error_def key_endpoint)
  moreover have "is_loopback_host ''127.0.0.1''"
    by (simp add: is_loopback_host_def is_digit_def code_def contains_sub_def suffix_to_prefix)
  ultimately show ?thesis by (simp add: config_ok_def key_config_def default_config_def)
qed

lemma one_page_runs:
  "\<exists>P. script sample_mapper ''1'' key_config one_page (new_process key_config) = Some P
     \<and> dom (pr_streams P) = {0} \<and> converting P 0 = 1 \<and> buffered_bytes P 0 = 8"
proof -
  have a: "read_message key_config 0 (ReqPage sample_image) = Admit sample_image"
    by (simp add: read_message_def sample_image_def is_png_def key_config_def default_config_def kPngMagic_def)
  have b: "job_bytes \<lparr>pj_id = n, pj_image = sample_image\<rparr> = 8" for n
    by (simp add: job_bytes_def sample_image_def kPngMagic_def)
  have c: "sp_concurrency key_plan = 2" "max_inflight key_config = 8"
    "max_buffered_bytes key_config = 536870912" "max_stream_buffered_bytes key_config = 134217728"
    by (simp_all add: key_plan_def key_config_def default_config_def)
  have w: "replicate 2 WIdle = [WIdle, WIdle]" by (simp add: numeral_2_eq_2)
  show ?thesis
    by (simp add: one_page_def exec_def first_message_def key_plan_accepted new_process_def
        new_stream_def reader_read_def a b c Let_def worker_step_def set_worker_def pop_def push_def
        new_channel_def ledger_ops new_ledger_def new_budget_def at_front_def erase_waiter_def
        std_clamp_def converting_def buffered_bytes_def slot_holders_def in_work_def w)
qed

theorem inflight_bounded_witness:
  "\<exists>P. reachable sample_mapper ''1'' key_config P \<and> converting P 0 = 1
     \<and> (\<Sum>s\<in>dom (pr_streams P). converting P s) \<le> 8"
proof -
  obtain P where P: "script sample_mapper ''1'' key_config one_page (new_process key_config) = Some P"
    "converting P 0 = 1" using one_page_runs by blast
  have r: "reachable sample_mapper ''1'' key_config P"
    by (rule script_reachable [OF reachable.init P(1)])
  from inflight_bounded [OF key_config_ok r] r P(2) show ?thesis
    by (intro exI [of _ P]) (simp add: key_config_def default_config_def)
qed

theorem buffered_bounded_witness:
  "\<exists>P. reachable sample_mapper ''1'' key_config P \<and> buffered_bytes P 0 = 8
     \<and> (\<Sum>s\<in>dom (pr_streams P). buffered_bytes P s) \<le> 536870912
     \<and> (\<Sum>s\<in>dom (pr_streams P). sum_list (map job_bytes (jobs_of (the (pr_streams P s)))))
         \<le> 536870912 + card {s \<in> dom (pr_streams P). waiting_page (st_reader (the (pr_streams P s))) \<noteq> []} * 33554432"
proof -
  obtain P where P: "script sample_mapper ''1'' key_config one_page (new_process key_config) = Some P"
    "buffered_bytes P 0 = 8" using one_page_runs by blast
  have r: "reachable sample_mapper ''1'' key_config P"
    by (rule script_reachable [OF reachable.init P(1)])
  from buffered_bounded [OF key_config_ok r] r P(2) show ?thesis
    by (intro exI [of _ P]) (simp add: key_config_def default_config_def)
qed

end
