(* ===== verification/Delivery.thy ===== *)
theory Delivery
  imports Ownership
begin

text \<open>
  What a client is told.  The events of a stream, from the pipeline's queue through the
  writer's hand to what was handed to the transport, are one sequence; this theory relates
  it to the pages of the stream and to its counters, and shows that a stream that ends
  well has accounted for every page it took.
\<close>

section \<open>Inversion of the steps\<close>

lemma worker_step_elim:
  assumes "worker_step mapper version cfg s k a st sh = Some (st', sh')"
  obtains (popped) j q where "k < length (st_workers st)" "st_workers st ! k = WIdle"
      "pop (st_jobs st) = (PopValue j, q)" "st' = set_worker k (WLook j) (st\<lparr>st_jobs := q\<rparr>)"
  | (ended) q where "k < length (st_workers st)" "st_workers st ! k = WIdle"
      "pop (st_jobs st) = (PopClosed, q)" "st' = set_worker k WDone st"
  | (skipped) j where "k < length (st_workers st)" "st_workers st ! k = WLook j" "st_halt st"
      "st' = set_worker k (WDropJob j) st"
  | (entered) j where "k < length (st_workers st)" "st_workers st ! k = WLook j" "\<not> st_halt st"
      "st' = set_worker k (WWait j) st"
  | (granted) j where "k < length (st_workers st)" "st_workers st ! k = WWait j"
      "st' = set_worker k (WConvert j) st"
  | (gave_up) j L where "k < length (st_workers st)" "st_workers st ! k = WWait j"
      "ledger_poll (s, pj_id j) (st_halt st) (sh_slots sh) = (GaveUp, L)"
      "st' = set_worker k (WDropJob j) st"
  | (cut) j where "k < length (st_workers st)" "st_workers st ! k = WConvert j" "st_halt st"
      "st' = set_worker k (WDropSlot j) st"
  | (pushed) j e where "k < length (st_workers st)" "st_workers st ! k = WConvert j"
      "event_page e = Some (im_page_no (pj_image j))" "is_raw e \<or> is_document e"
      "st' = set_worker k (WPushed j (is_raw e))
         (st\<lparr>st_failed := (if is_raw e then st_failed st + 1 else st_failed st),
             st_ok := (if is_raw e then st_ok st else st_ok st + 1),
             st_events := push e (st_events st)\<rparr>)"
  | (checked) j raw where "k < length (st_workers st)" "st_workers st ! k = WPushed j raw"
      "st' = set_worker k (WDropSlot j)
         (st\<lparr>st_halt := st_halt st \<or> (raw \<and> sp_abort_on_error (st_plan st))\<rparr>)"
  | (slot_dropped) j where "k < length (st_workers st)" "st_workers st ! k = WDropSlot j"
      "st' = set_worker k (WDropJob j) st"
  | (job_dropped) j where "k < length (st_workers st)" "st_workers st ! k = WDropJob j"
      "st' = set_worker k WIdle (st\<lparr>st_bytes := ledger_release (s, pj_id j) (st_bytes st)\<rparr>)"
proof -
  have k: "k < length (st_workers st)" using assms by (auto simp: worker_step_def split: if_splits)
  note step = assms [unfolded worker_step_def]
  show ?thesis
  proof (cases "st_workers st ! k")
    case WIdle
    with step k popped ended show ?thesis
      by (auto split: worker_action.splits prod.splits popped.splits)
  next
    case (WConvert j)
    with step k obtain out where out: "possible_outcome st out"
      "worker_converted mapper version cfg k j out st sh = (st', sh')"
      by (auto split: worker_action.splits if_splits)
    show ?thesis
    proof (cases "page_event mapper version cfg (st_plan st) j out")
      case None
      then have "st_halt st"
        using out(1) by (auto simp: page_event_def possible_outcome_def convert_page_None split: outcome.splits)
      with None out(2) k WConvert cut show ?thesis by (auto simp: worker_converted_def)
    next
      case (Some e)
      then have e: "event_page e = Some (im_page_no (pj_image j))" "is_raw e \<or> is_document e"
        by (auto simp: page_event_def internal_error_event split: outcome.splits dest!: convert_page_event)
      from Some out(2) have "st' = set_worker k (WPushed j (is_raw e))
         (st\<lparr>st_failed := (if is_raw e then st_failed st + 1 else st_failed st),
             st_ok := (if is_raw e then st_ok st else st_ok st + 1),
             st_events := push e (st_events st)\<rparr>)"
        by (auto simp: worker_converted_def Let_def)
      with k WConvert e pushed show ?thesis by blast
    qed
  qed (use step k skipped entered granted gave_up checked slot_dropped job_dropped in
      \<open>auto split: worker_action.splits prod.splits poll_result.splits if_splits\<close>)
qed

lemma writer_step_elim:
  assumes "writer_step a st = Some st'"
  obtains (cancelled) "st_writer st = WrLoop" "st' = st\<lparr>st_gone := True, st_halt := True, st_writer := WrDone\<rparr>"
  | (took) e q where "st_writer st = WrLoop" "pop_for (st_events st) = (ForValue e, q)"
      "st' = st\<lparr>st_events := q, st_writer := WrWrite e\<rparr>"
  | (ended) q where "st_writer st = WrLoop" "pop_for (st_events st) = (ForClosed, q)"
      "st' = st\<lparr>st_writer := WrDone\<rparr>"
  | (wrote) e where "st_writer st = WrWrite e" "st' = st\<lparr>st_out := st_out st @ [e], st_writer := WrLoop\<rparr>"
  | (refused) e where "st_writer st = WrWrite e"
      "st' = st\<lparr>st_gone := True, st_halt := True, st_writer := WrDone\<rparr>"
proof (cases "st_writer st")
  case WrLoop
  show ?thesis
  proof (cases a)
    case PopEvent
    obtain r q where "pop_for (st_events st) = (r, q)" by fastforce
    with PopEvent WrLoop assms took ended show ?thesis by (cases r) (auto simp: writer_step_def)
  qed (use WrLoop assms cancelled in \<open>auto simp: writer_step_def\<close>)
next
  case (WrWrite e)
  with assms wrote refused show ?thesis
    by (cases a) (auto simp: writer_step_def split: if_splits)
next
  case WrDone
  with assms show ?thesis by (cases a) (auto simp: writer_step_def)
qed

lemma read_message_refuses: "read_message cfg n req = Refuse status \<Longrightarrow> fst status \<noteq> StatusOK"
  by (auto simp: read_message_def split: convert_request.splits if_splits)

lemma reader_step_elim:
  assumes "reader_step cfg s a st sh = Some (st', sh')"
  obtains (stop) "st_reader st = RCheck" "st_halt st" "st' = st\<lparr>st_reader := RExit\<rparr>"
  | (go) "st_reader st = RCheck" "\<not> st_halt st" "st' = st\<lparr>st_reader := RRead\<rparr>"
  | (half_close) "st_reader st = RRead" "st' = st\<lparr>st_reader := RExit\<rparr>"
  | (refused) saw status where "st_reader st = RRead" "fst status \<noteq> StatusOK"
      "st' = st\<lparr>st_saw_input := saw, st_status := status, st_reader := RExit\<rparr>"
  | (ignored) "st_reader st = RRead" "st' = st\<lparr>st_reader := RCheck\<rparr>"
  | (admitted) j L where "st_reader st = RRead" "st_started st < max_pages cfg"
      "st' = st\<lparr>st_saw_input := True, st_next := st_next st + 1, st_bytes := L, st_reader := RWaitStream j\<rparr>"
  | (took_stream) j L where "st_reader st = RWaitStream j"
      "st' = st\<lparr>st_bytes := L, st_reader := RTookStream j\<rparr>"
  | (left_stream) j L where "st_reader st = RWaitStream j"
      "ledger_poll (s, pj_id j) (st_halt st) (st_bytes st) = (GaveUp, L)"
      "st' = st\<lparr>st_bytes := L, st_reader := RExit\<rparr>"
  | (entered) j where "st_reader st = RTookStream j" "st' = st\<lparr>st_reader := RWaitProcess j\<rparr>"
  | (took_process) j where "st_reader st = RWaitProcess j" "st' = st\<lparr>st_reader := RAnnounce j\<rparr>"
  | (left_process) j L where "st_reader st = RWaitProcess j" "st' = st\<lparr>st_bytes := L, st_reader := RExit\<rparr>"
  | (announced) j where "st_reader st = RAnnounce j"
      "st' = st\<lparr>st_started := st_started st + 1,
         st_events := push (EvStarted (im_page_no (pj_image j))) (st_events st), st_reader := RQueue j\<rparr>"
  | (queued) j where "st_reader st = RQueue j"
      "st' = st\<lparr>st_jobs := push j (st_jobs st), st_reader := RCheck\<rparr>"
  | (left) "st_reader st = RExit"
      "st' = st\<lparr>st_halt := st_halt st \<or> fst (st_status st) \<noteq> StatusOK, st_reader := RClose\<rparr>"
  | (closed_jobs) "st_reader st = RClose" "st' = st\<lparr>st_jobs := close (st_jobs st), st_reader := RJoinWorkers\<rparr>"
  | (joined_workers) "st_reader st = RJoinWorkers" "list_all (\<lambda>w. w = WDone) (st_workers st)"
      "st' = st\<lparr>st_events := close (st_events st), st_reader := RJoinWriter\<rparr>"
  | (joined_writer) "st_reader st = RJoinWriter" "st_writer st = WrDone" "st' = st\<lparr>st_reader := RFinish\<rparr>"
  | (finished) c where "st_reader st = RFinish" "reader_finish c st sh = (st', sh')"
proof (cases a)
  case (Read msg)
  with assms have r: "st_reader st = RRead" by (auto split: reader.splits)
  show ?thesis
  proof (cases msg)
    case None
    with Read r assms half_close show ?thesis by auto
  next
    case (Some req)
    show ?thesis
    proof (cases "read_message cfg (st_started st) req")
      case (Refuse status)
      with Read r Some assms have "st' = st\<lparr>st_saw_input := st_saw_input st
          \<or> (case req of ReqPage _ \<Rightarrow> True | _ \<Rightarrow> False), st_status := status, st_reader := RExit\<rparr>"
        by (simp add: reader_read_def)
      with refused [OF r read_message_refuses [OF Refuse]] show ?thesis by blast
    next
      case Ignore
      with Read r Some assms ignored show ?thesis by (auto simp: reader_read_def)
    next
      case (Admit img)
      then have "st_started st < max_pages cfg"
        by (auto simp: read_message_def split: convert_request.splits if_splits)
      with Admit Read r Some assms admitted show ?thesis by (auto simp: reader_read_def Let_def)
    qed
  qed
next
  case PollStream
  with assms took_stream left_stream show ?thesis
    by (auto split: reader.splits prod.splits poll_result.splits)
next
  case PollProcess
  with assms took_process left_process show ?thesis
    by (auto split: reader.splits prod.splits poll_result.splits)
next
  case (Finish c)
  with assms finished show ?thesis by (auto split: reader.splits)
next
  case Check
  with assms stop go show ?thesis by (auto split: reader.splits if_splits)
next
  case EnterProcess
  with assms entered show ?thesis by (auto split: reader.splits if_splits)
next
  case Announce
  with assms announced show ?thesis by (auto split: reader.splits if_splits)
next
  case Queue
  with assms queued show ?thesis by (auto split: reader.splits if_splits)
next
  case Leave
  with assms left show ?thesis by (auto split: reader.splits if_splits)
next
  case CloseJobs
  with assms closed_jobs show ?thesis by (auto split: reader.splits if_splits)
next
  case JoinWorkers
  with assms joined_workers show ?thesis by (auto split: reader.splits if_splits)
next
  case JoinWriter
  with assms joined_writer show ?thesis by (auto split: reader.splits if_splits)
qed

section \<open>How a stream winds down\<close>

fun returned :: "reader \<Rightarrow> bool" where
  "returned (RReturned _) = True"
| "returned _ = False"

definition winding_down :: "'d stream \<Rightarrow> bool" where
  "winding_down st \<longleftrightarrow>
     (st_reader st \<in> {RJoinWorkers, RJoinWriter, RFinish} \<longrightarrow> closed (st_jobs st))
     \<and> (closed (st_jobs st) \<longrightarrow> st_reader st \<in> {RJoinWorkers, RJoinWriter, RFinish} \<or> returned (st_reader st))
     \<and> (WDone \<in> set (st_workers st) \<longrightarrow> closed (st_jobs st) \<and> queue (st_jobs st) = [])
     \<and> (st_reader st \<in> {RJoinWriter, RFinish} \<longrightarrow> closed (st_events st) \<and> list_all (\<lambda>w. w = WDone) (st_workers st))
     \<and> (closed (st_events st) \<longrightarrow> st_reader st \<in> {RJoinWriter, RFinish} \<or> returned (st_reader st))
     \<and> (st_writer st = WrDone \<longrightarrow>
          st_gone st \<or> closed (st_events st) \<and> queue (st_events st) = [] \<or> returned (st_reader st))
     \<and> (st_reader st = RFinish \<longrightarrow> st_writer st = WrDone)
     \<and> (returned (st_reader st) \<longrightarrow> st_writer st = WrDone \<and> list_all (\<lambda>w. w = WDone) (st_workers st))"

lemma set_update_worker: "w \<in> set (ws[k := v]) \<Longrightarrow> w = v \<or> w \<in> set ws"
  by (meson insertE set_update_subset_insert subsetD)

lemma all_done_update: "k < length ws \<Longrightarrow> list_all (\<lambda>w. w = WDone) ws \<Longrightarrow> ws ! k = WDone"
  by (simp add: list_all_length)

lemma popped_queue: "pop ch = (PopValue x, q) \<Longrightarrow> queue ch = x # queue q \<and> closed q = closed ch"
  by (rule chan.get_value_iff)

lemma popped_closed: "pop ch = (PopClosed, q) \<Longrightarrow> queue ch = [] \<and> closed ch"
  using chan.get_closed_iff [of ch] by simp

lemma popped_for_value: "pop_for ch = (ForValue x, q) \<Longrightarrow> queue ch = x # queue q \<and> closed q = closed ch"
  by (auto simp: pop_for_def split: if_splits list.splits)

lemma popped_for_closed: "pop_for ch = (ForClosed, q) \<Longrightarrow> queue ch = [] \<and> closed ch"
  by (auto simp: pop_for_def split: if_splits list.splits)

lemma winding_down_worker:
  assumes "winding_down st" and "worker_step mapper version cfg s k a st sh = Some (st', sh')"
  shows "winding_down st'"
proof -
  have busy: "\<not> list_all (\<lambda>w. w = WDone) (st_workers st)" if "k < length (st_workers st)" "st_workers st ! k \<noteq> WDone"
    using that all_done_update by blast
  from assms(2) show ?thesis
  proof (cases rule: worker_step_elim)
    case (popped j q)
    with assms(1) busy popped_queue [OF popped(3)] show ?thesis
      by (auto simp: winding_down_def dest: set_update_worker)
  next
    case (ended q)
    with assms(1) busy popped_closed [OF ended(3)] show ?thesis
      by (auto simp: winding_down_def dest: set_update_worker)
  qed (use assms(1) busy in \<open>auto simp: winding_down_def push_def dest: set_update_worker\<close>)
qed

lemma winding_down_writer:
  assumes "winding_down st" and "writer_step a st = Some st'"
  shows "winding_down st'"
  using assms(2)
proof (cases rule: writer_step_elim)
  case (took e q)
  with assms(1) popped_for_value [OF took(2)] show ?thesis by (auto simp: winding_down_def)
next
  case (ended q)
  with assms(1) popped_for_closed [OF ended(2)] show ?thesis by (auto simp: winding_down_def)
qed (use assms(1) in \<open>auto simp: winding_down_def\<close>)

lemma winding_down_reader:
  assumes "winding_down st" and "reader_step cfg s a st sh = Some (st', sh')"
  shows "winding_down st'"
  using assms(2)
proof (cases rule: reader_step_elim)
  case (finished c)
  with assms(1) show ?thesis
    by (auto simp: winding_down_def reader_finish_def Let_def split: if_splits)
qed (use assms(1) in \<open>auto simp: winding_down_def push_def close_def\<close>)

section \<open>Pages without an answer\<close>

fun queued_job :: "reader \<Rightarrow> page_job list" where
  "queued_job (RQueue j) = [j]"
| "queued_job _ = []"

fun open_job :: "worker \<Rightarrow> page_job list" where
  "open_job (WLook j) = [j]"
| "open_job (WWait j) = [j]"
| "open_job (WConvert j) = [j]"
| "open_job _ = []"

definition unanswered :: "'d stream \<Rightarrow> page_job list" where
  "unanswered st = queued_job (st_reader st) @ queue (st_jobs st) @ concat (map open_job (st_workers st))"

definition pend :: "(page_job \<Rightarrow> bool) \<Rightarrow> 'd stream \<Rightarrow> nat" where
  "pend p st = length (filter p (unanswered st))"

lemma length_filter_mset: "length (filter p xs) = size (filter_mset p (mset xs))"
  by (metis mset_filter size_mset)

lemma pend_mset: "pend p st = size (filter_mset p (mset (queued_job (st_reader st)) + mset (queue (st_jobs st))
    + mset (concat (map open_job (st_workers st)))))"
  by (simp only: pend_def unanswered_def length_filter_mset mset_append add.assoc)

lemma pend_worker:
  assumes "k < length (st_workers st)" and "st_workers st' = (st_workers st)[k := w]"
    and "st_reader st' = st_reader st"
  shows "pend p st' + length (filter p (queue (st_jobs st))) + length (filter p (open_job (st_workers st ! k)))
    = pend p st + length (filter p (queue (st_jobs st'))) + length (filter p (open_job w))"
proof -
  have "size (filter_mset p (mset (concat (map open_job ((st_workers st)[k := w])))))
      + size (filter_mset p (mset (open_job (st_workers st ! k))))
    = size (filter_mset p (mset (concat (map open_job (st_workers st)))))
      + size (filter_mset p (mset (open_job w)))"
    using arg_cong [OF mset_concat_update [OF assms(1), of open_job w], of "\<lambda>M. size (filter_mset p M)"]
    by simp
  then show ?thesis by (simp add: pend_mset assms(2,3) length_filter_mset)
qed

section \<open>The events of a stream\<close>

fun in_hand :: "'d writer \<Rightarrow> 'd event list" where
  "in_hand (WrWrite e) = [e]"
| "in_hand _ = []"

definition trace :: "'d stream \<Rightarrow> 'd event list" where
  "trace st = st_out st @ in_hand (st_writer st) @ queue (st_events st)"

definition tally :: "('d event \<Rightarrow> bool) \<Rightarrow> 'd event list \<Rightarrow> nat" where
  "tally p es = length (filter p es)"

lemma tally_append [simp]: "tally p (a @ b) = tally p a + tally p b"
  by (simp add: tally_def)

lemma tally_Nil [simp]: "tally p [] = 0"
  by (simp add: tally_def)

lemma tally_single [simp]: "tally p [e] = (if p e then 1 else 0)"
  by (simp add: tally_def)

lemma event_kinds:
  "is_raw e \<Longrightarrow> \<not> is_document e \<and> \<not> is_started e" "is_document e \<Longrightarrow> \<not> is_raw e \<and> \<not> is_started e"
  "is_started (EvStarted n)" "\<not> is_raw (EvStarted n)" "\<not> is_document (EvStarted n)"
  by (auto simp: is_raw_def is_document_def is_started_def split: event.splits)

definition accounted :: "config \<Rightarrow> 'd stream \<Rightarrow> bool" where
  "accounted cfg st \<longleftrightarrow>
     (\<not> st_gone st \<longrightarrow> tally is_started (trace st) = st_started st
        \<and> tally is_document (trace st) = st_ok st \<and> tally is_raw (trace st) = st_failed st)
     \<and> (st_halt st \<or> st_started st = st_ok st + st_failed st + pend (\<lambda>_. True) st)
     \<and> st_ok st + st_failed st + pend (\<lambda>_. True) st \<le> st_started st
     \<and> (st_halt st \<longrightarrow> st_gone st \<or> fst (st_status st) \<noteq> StatusOK
          \<or> sp_abort_on_error (st_plan st) \<and> 0 < st_failed st)
     \<and> (\<forall>j. WPushed j True \<in> set (st_workers st) \<longrightarrow> 0 < st_failed st)
     \<and> st_started st \<le> max_pages cfg
     \<and> (reader_job (st_reader st) \<noteq> queued_job (st_reader st) \<longrightarrow> st_started st < max_pages cfg)
     \<and> (\<not> returned (st_reader st) \<longrightarrow> (\<forall>a b c. EvComplete a b c \<notin> set (trace st)))"

lemma pend_reader:
  "st_workers st' = st_workers st \<Longrightarrow>
     mset (queued_job (st_reader st') @ queue (st_jobs st')) = mset (queued_job (st_reader st) @ queue (st_jobs st)) \<Longrightarrow>
     pend p st' = pend p st"
  by (simp add: pend_mset)

lemma trace_push: "trace (st\<lparr>st_events := push e (st_events st)\<rparr>) = trace st @ [e]"
  by (simp add: trace_def push_def)

lemma accounted_worker:
  assumes "accounted cfg st" and "worker_step mapper version cfg s k a st sh = Some (st', sh')"
  shows "accounted cfg st'"
  using assms(2)
proof (cases rule: worker_step_elim)
  case (popped j q)
  have "pend p st' = pend p st" for p
    using pend_worker [OF popped(1), of st' "WLook j" p] popped popped_queue [OF popped(3)]
    by (simp split: if_splits)
  with assms(1) popped show ?thesis
    by (auto simp: accounted_def trace_def dest: set_update_worker)
next
  case (pushed j e)
  have f: "st_workers st' = (st_workers st)[k := WPushed j (is_raw e)]" "st_reader st' = st_reader st"
    "st_jobs st' = st_jobs st" "st_gone st' = st_gone st" "st_started st' = st_started st"
    "st_halt st' = st_halt st" "st_status st' = st_status st" "st_plan st' = st_plan st"
    "trace st' = trace st @ [e]"
    by (simp_all add: pushed(5) trace_def push_def)
  have n: "st_failed st' = st_failed st + (if is_raw e then 1 else 0)"
    "st_ok st' = st_ok st + (if is_document e then 1 else 0)"
    using pushed(4) event_kinds(1,2) by (auto simp: pushed(5))
  have p: "pend (\<lambda>_. True) st = Suc (pend (\<lambda>_. True) st')"
    using pend_worker [OF pushed(1) f(1,2), of "\<lambda>_. True"] pushed(2) f(3) by simp
  have e: "\<not> is_started e" "is_raw e \<noteq> is_document e"
    using pushed(4) event_kinds(1,2) by auto
  have c: "e \<noteq> EvComplete a b c" for a b c using pushed(3) by (auto simp: event_page_def)
  have w: "0 < st_failed st'" if "WPushed i True \<in> set (st_workers st')" for i
    using that assms(1) n(1) set_update_worker [of "WPushed i True" "st_workers st" k "WPushed j (is_raw e)"]
    unfolding accounted_def f(1) by auto
  show ?thesis
    using assms(1) e c w p unfolding accounted_def f n by auto
next
  case (gave_up j L)
  then have "st_halt st" using ledger_poll_other [OF gave_up(3)] by simp
  moreover have "pend (\<lambda>_. True) st = Suc (pend (\<lambda>_. True) st')"
    using pend_worker [OF gave_up(1), of st' "WDropJob j" "\<lambda>_. True"] gave_up by simp
  ultimately show ?thesis using assms(1) gave_up by (auto simp: accounted_def trace_def dest: set_update_worker)
next
  case (skipped j)
  have "pend (\<lambda>_. True) st = Suc (pend (\<lambda>_. True) st')"
    using pend_worker [OF skipped(1), of st' "WDropJob j" "\<lambda>_. True"] skipped by simp
  with assms(1) skipped show ?thesis by (auto simp: accounted_def trace_def dest: set_update_worker)
next
  case (cut j)
  have "pend (\<lambda>_. True) st = Suc (pend (\<lambda>_. True) st')"
    using pend_worker [OF cut(1), of st' "WDropSlot j" "\<lambda>_. True"] cut by simp
  with assms(1) cut show ?thesis by (auto simp: accounted_def trace_def dest: set_update_worker)
next
  case (ended q)
  have "pend p st' = pend p st" for p using pend_worker [OF ended(1), of st' WDone p] ended by simp
  with assms(1) ended show ?thesis by (auto simp: accounted_def trace_def dest: set_update_worker)
next
  case (entered j)
  have "pend p st' = pend p st" for p using pend_worker [OF entered(1), of st' "WWait j" p] entered by simp
  with assms(1) entered show ?thesis by (auto simp: accounted_def trace_def dest: set_update_worker)
next
  case (granted j)
  have "pend p st' = pend p st" for p using pend_worker [OF granted(1), of st' "WConvert j" p] granted by simp
  with assms(1) granted show ?thesis by (auto simp: accounted_def trace_def dest: set_update_worker)
next
  case (checked j raw)
  have "pend p st' = pend p st" for p using pend_worker [OF checked(1), of st' "WDropSlot j" p] checked by simp
  moreover have "raw \<longrightarrow> 0 < st_failed st"
    using assms(1) checked(1,2) nth_mem [OF checked(1)] by (auto simp: accounted_def)
  ultimately show ?thesis using assms(1) checked by (auto simp: accounted_def trace_def dest: set_update_worker)
next
  case (slot_dropped j)
  have "pend p st' = pend p st" for p using pend_worker [OF slot_dropped(1), of st' "WDropJob j" p] slot_dropped by simp
  with assms(1) slot_dropped show ?thesis by (auto simp: accounted_def trace_def dest: set_update_worker)
next
  case (job_dropped j)
  have "pend p st' = pend p st" for p using pend_worker [OF job_dropped(1), of st' WIdle p] job_dropped by simp
  with assms(1) job_dropped show ?thesis by (auto simp: accounted_def trace_def dest: set_update_worker)
qed

lemma accounted_writer:
  assumes "accounted cfg st" and "writer_step a st = Some st'"
  shows "accounted cfg st'"
proof -
  have "pend p st' = pend p st" for p
    using assms(2) by (cases rule: writer_step_elim) (auto intro!: pend_reader)
  note p = this
  from assms(2) show ?thesis
  proof (cases rule: writer_step_elim)
    case (took e q)
    then have "trace st' = trace st" using popped_for_value [OF took(2)] by (simp add: trace_def)
    with assms(1) took p show ?thesis by (simp add: accounted_def)
  next
    case (wrote e)
    then have "trace st' = trace st" by (simp add: trace_def)
    with assms(1) wrote p show ?thesis by (simp add: accounted_def)
  qed (use assms(1) p in \<open>auto simp: accounted_def trace_def\<close>)
qed

lemma finish_status_ok:
  "fst (finish_status c st) = StatusOK \<longleftrightarrow>
     fst (st_status st) = StatusOK \<and> \<not> st_gone st \<and> \<not> c \<and> st_saw_input st
     \<and> \<not> (sp_abort_on_error (st_plan st) \<and> 0 < st_failed st)"
  by (auto simp: finish_status_def status_ok_def)

lemma finish_cases:
  assumes "reader_finish c st sh = (st', sh')"
  shows "st' = st\<lparr>st_reader := RReturned (finish_status c st),
    st_out := (if fst (finish_status c st) = StatusOK
      then st_out st @ [EvComplete (st_started st) (st_ok st) (st_failed st)] else st_out st)\<rparr>"
  using assms by (auto simp: reader_finish_def Let_def finish_status_ok split: if_splits)

lemma accounted_reader:
  assumes "accounted cfg st" and "reader_step cfg s a st sh = Some (st', sh')"
  shows "accounted cfg st'"
  using assms(2)
proof (cases rule: reader_step_elim)
  case (announced j)
  have "pend (\<lambda>_. True) st' = Suc (pend (\<lambda>_. True) st)"
    using announced by (simp add: pend_mset)
  moreover have "trace st' = trace st @ [EvStarted (im_page_no (pj_image j))]"
    using announced by (simp add: trace_def push_def)
  ultimately show ?thesis using assms(1) announced event_kinds by (auto simp: accounted_def)
next
  case (queued j)
  have "pend (\<lambda>_. True) st' = pend (\<lambda>_. True) st"
    using queued by (intro pend_reader) (simp_all add: push_def)
  with assms(1) queued show ?thesis by (auto simp: accounted_def trace_def)
next
  case (finished c)
  have "pend (\<lambda>_. True) st' = pend (\<lambda>_. True) st"
    using finished finish_cases [OF finished(2)] by (intro pend_reader) simp_all
  moreover have "tally is_started (trace st') = tally is_started (trace st)"
    "tally is_raw (trace st') = tally is_raw (trace st)"
    "tally is_document (trace st') = tally is_document (trace st)"
    using finish_cases [OF finished(2)]
    by (simp_all add: trace_def is_started_def is_raw_def is_document_def)
  moreover have "st_gone st' = st_gone st" "st_started st' = st_started st" "st_ok st' = st_ok st"
    "st_failed st' = st_failed st" "st_halt st' = st_halt st" "st_status st' = st_status st"
    "st_plan st' = st_plan st" "st_workers st' = st_workers st" "returned (st_reader st')"
    "reader_job (st_reader st') = []" "queued_job (st_reader st') = []"
    using finish_cases [OF finished(2)] by simp_all
  ultimately show ?thesis
    using assms(1) by (simp add: accounted_def)
next
  case left
  have "pend (\<lambda>_. True) st' = pend (\<lambda>_. True) st" using left by (intro pend_reader) simp_all
  with assms(1) left show ?thesis by (auto simp: accounted_def trace_def)
qed (use assms(1) pend_reader [of st' st "\<lambda>_. True"] in
    \<open>auto simp: accounted_def trace_def close_def\<close>)

section \<open>Starts come before results\<close>

definition starts :: "nat \<Rightarrow> 'd event list \<Rightarrow> nat" where
  "starts n es = tally (\<lambda>e. is_started e \<and> event_page e = Some n) es"

definition results :: "nat \<Rightarrow> 'd event list \<Rightarrow> nat" where
  "results n es = tally (\<lambda>e. \<not> is_started e \<and> event_page e = Some n) es"

definition ordered :: "'d event list \<Rightarrow> bool" where
  "ordered es \<longleftrightarrow> (\<forall>k n. results n (take k es) \<le> starts n (take k es))"

lemma ordered_prefix: "ordered (a @ b) \<Longrightarrow> ordered a"
  unfolding ordered_def
proof (intro allI)
  fix k n
  assume "\<forall>k n. results n (take k (a @ b)) \<le> starts n (take k (a @ b))"
  then have "results n (take (min k (length a)) (a @ b)) \<le> starts n (take (min k (length a)) (a @ b))" by blast
  then show "results n (take k a) \<le> starts n (take k a)" by (simp add: min_def split: if_splits)
qed

lemma ordered_snoc:
  assumes "ordered es" and "\<And>n. results n (es @ [e]) \<le> starts n (es @ [e])"
  shows "ordered (es @ [e])"
  unfolding ordered_def
proof (intro allI)
  fix k n
  show "results n (take k (es @ [e])) \<le> starts n (take k (es @ [e]))"
    using assms by (cases "k \<le> length es") (simp_all add: ordered_def)
qed

definition in_order :: "'d stream \<Rightarrow> bool" where
  "in_order st \<longleftrightarrow>
     ordered (st_out st)
     \<and> (st_gone st \<longrightarrow> st_writer st = WrDone)
     \<and> (\<not> st_gone st \<longrightarrow> ordered (trace st)
          \<and> (\<forall>n. results n (trace st) + pend (\<lambda>j. im_page_no (pj_image j) = n) st \<le> starts n (trace st)))"

lemma starts_append [simp]: "starts n (a @ b) = starts n a + starts n b"
  by (simp add: starts_def)

lemma results_append [simp]: "results n (a @ b) = results n a + results n b"
  by (simp add: results_def)

lemma in_order_less:
  assumes "in_order st" and "trace st' = trace st" and "st_out st' = st_out st" and "st_gone st' = st_gone st"
    and "st_writer st' = st_writer st" and "\<And>p. pend p st' \<le> pend p st"
  shows "in_order st'"
proof -
  have "results n (trace st) + pend (\<lambda>j. im_page_no (pj_image j) = n) st' \<le> starts n (trace st)"
    if "\<not> st_gone st" for n
  proof -
    have "results n (trace st) + pend (\<lambda>j. im_page_no (pj_image j) = n) st \<le> starts n (trace st)"
      using assms(1) that by (simp add: in_order_def)
    with assms(6) [of "\<lambda>j. im_page_no (pj_image j) = n"] show ?thesis by linarith
  qed
  with assms(1-5) show ?thesis by (simp add: in_order_def)
qed

lemma in_order_worker:
  assumes "in_order st" and "worker_step mapper version cfg s k a st sh = Some (st', sh')"
  shows "in_order st'"
proof -
  have less: "in_order st'" if "st_workers st' = (st_workers st)[k := w]" "k < length (st_workers st)"
    "st_reader st' = st_reader st" "st_events st' = st_events st" "st_out st' = st_out st"
    "st_gone st' = st_gone st" "st_writer st' = st_writer st"
    "\<And>p. length (filter p (queue (st_jobs st'))) + length (filter p (open_job w))
       \<le> length (filter p (queue (st_jobs st))) + length (filter p (open_job (st_workers st ! k)))" for w
  proof (rule in_order_less [OF assms(1)])
    fix p show "pend p st' \<le> pend p st"
      using pend_worker [OF that(2,1,3), of p] that(8) [of p] by simp
  qed (simp_all add: trace_def that)
  from assms(2) show ?thesis
  proof (cases rule: worker_step_elim)
    case (popped j q)
    with popped_queue [OF popped(3)] show ?thesis by (intro less [of "WLook j"]) simp_all
  next
    case (pushed j e)
    let ?p = "\<lambda>n j. im_page_no (pj_image j) = n"
    have t: "trace st' = trace st @ [e]" using pushed(5) by (simp add: trace_def push_def)
    have "\<not> is_started e" using pushed(4) event_kinds by auto
    then have e: "results n [e] = (if ?p n j then 1 else 0)" "starts n [e] = 0" for n
      using pushed(3) by (auto simp: results_def starts_def)
    have f: "st_workers st' = (st_workers st)[k := WPushed j (is_raw e)]" "st_reader st' = st_reader st"
      "st_jobs st' = st_jobs st" by (simp_all add: pushed(5))
    have p: "pend (?p n) st = pend (?p n) st' + (if ?p n j then 1 else 0)" for n
      using pend_worker [OF pushed(1) f(1,2), of "?p n"] pushed(2) f(3) by (simp split: if_splits)
    have "ordered (trace st @ [e]) \<and> (\<forall>n. results n (trace st @ [e]) + pend (?p n) st' \<le> starts n (trace st @ [e]))"
      if "\<not> st_gone st"
    proof -
      have le: "results n (trace st @ [e]) + pend (?p n) st' \<le> starts n (trace st @ [e])" for n
      proof -
        have "results n (trace st) + pend (?p n) st \<le> starts n (trace st)"
          using assms(1) that by (simp add: in_order_def)
        then show ?thesis using p [of n] e [of n] by simp
      qed
      then have "results n (trace st @ [e]) \<le> starts n (trace st @ [e])" for n
        using add_leD1 by blast
      moreover have "ordered (trace st)" using assms(1) that by (simp add: in_order_def)
      ultimately show ?thesis using le ordered_snoc by blast
    qed
    with assms(1) pushed(5) t show ?thesis by (simp add: in_order_def)
  next
    case (ended q)
    then show ?thesis by (intro less [of WDone]) simp_all
  next
    case (skipped j)
    then show ?thesis by (intro less [of "WDropJob j"]) simp_all
  next
    case (entered j)
    then show ?thesis by (intro less [of "WWait j"]) simp_all
  next
    case (granted j)
    then show ?thesis by (intro less [of "WConvert j"]) simp_all
  next
    case (gave_up j L)
    then show ?thesis by (intro less [of "WDropJob j"]) simp_all
  next
    case (cut j)
    then show ?thesis by (intro less [of "WDropSlot j"]) simp_all
  next
    case (checked j raw)
    then show ?thesis by (intro less [of "WDropSlot j"]) simp_all
  next
    case (slot_dropped j)
    then show ?thesis by (intro less [of "WDropJob j"]) simp_all
  next
    case (job_dropped j)
    then show ?thesis by (intro less [of WIdle]) simp_all
  qed
qed

lemma in_order_writer:
  assumes "in_order st" and "writer_step a st = Some st'"
  shows "in_order st'"
proof -
  have p: "pend p st' = pend p st" for p
    using assms(2) by (cases rule: writer_step_elim) (auto intro!: pend_reader)
  from assms(2) show ?thesis
  proof (cases rule: writer_step_elim)
    case (took e q)
    then have "trace st' = trace st" using popped_for_value [OF took(2)] by (simp add: trace_def)
    with assms(1) took p show ?thesis by (simp add: in_order_def)
  next
    case (wrote e)
    then have t: "trace st' = trace st" "trace st = (st_out st @ [e]) @ queue (st_events st)"
      by (simp_all add: trace_def)
    have "\<not> st_gone st" using assms(1) wrote(1) by (auto simp: in_order_def)
    with assms(1) t have "ordered (st_out st @ [e])" by (metis in_order_def ordered_prefix)
    with assms(1) wrote p t show ?thesis by (simp add: in_order_def)
  qed (use assms(1) p in \<open>auto simp: in_order_def trace_def\<close>)
qed

lemma complete_silent: "results n [EvComplete a b d] = 0" "starts n [EvComplete a b d] = 0"
  by (simp_all add: results_def starts_def event_page_def is_started_def)

lemma ordered_complete: "ordered es \<Longrightarrow> ordered (es @ [EvComplete a b d])"
proof (rule ordered_snoc)
  fix n
  assume "ordered es"
  then have "results n (take (length es) es) \<le> starts n (take (length es) es)"
    unfolding ordered_def by blast
  then show "results n (es @ [EvComplete a b d]) \<le> starts n (es @ [EvComplete a b d])"
    by (simp add: complete_silent)
qed

lemma in_order_reader:
  assumes "in_order st" and "winding_down st" and "reader_step cfg s a st sh = Some (st', sh')"
  shows "in_order st'"
proof -
  have same: "in_order st'" if "st_workers st' = st_workers st" "queue (st_jobs st') = queue (st_jobs st)"
    "queued_job (st_reader st') = queued_job (st_reader st)" "trace st' = trace st"
    "st_out st' = st_out st" "st_gone st' = st_gone st" "st_writer st' = st_writer st"
  proof (rule in_order_less [OF assms(1)])
    fix p
    have "pend p st' = pend p st" by (rule pend_reader) (simp_all add: that)
    then show "pend p st' \<le> pend p st" by simp
  qed (simp_all add: that)
  from assms(3) show ?thesis
  proof (cases rule: reader_step_elim)
    case (announced j)
    let ?p = "\<lambda>n j. im_page_no (pj_image j) = n" and ?e = "EvStarted (im_page_no (pj_image j))"
    have t: "trace st' = trace st @ [?e]" using announced(2) by (simp add: trace_def push_def)
    have e: "results n [?e] = 0" "starts n [?e] = (if ?p n j then 1 else 0)" for n
      by (auto simp: results_def starts_def event_page_def is_started_def)
    have p: "pend (?p n) st' = pend (?p n) st + (if ?p n j then 1 else 0)" for n
      using announced by (simp add: pend_mset)
    have "ordered (trace st @ [?e])" "results n (trace st @ [?e]) + pend (?p n) st' \<le> starts n (trace st @ [?e])"
      if "\<not> st_gone st" for n
    proof -
      have o: "ordered (trace st)" and le: "results m (trace st) + pend (?p m) st \<le> starts m (trace st)" for m
        using assms(1) that by (simp_all add: in_order_def)
      show "results n (trace st @ [?e]) + pend (?p n) st' \<le> starts n (trace st @ [?e])"
        using le [of n] unfolding results_append starts_append e p by simp
      have "results m (trace st @ [?e]) \<le> starts m (trace st @ [?e])" for m
        using le [of m] unfolding results_append starts_append e by simp
      with o show "ordered (trace st @ [?e])" by (rule ordered_snoc)
    qed
    with assms(1) announced(2) t show ?thesis by (simp add: in_order_def)
  next
    case (queued j)
    have "pend p st' = pend p st" for p
      using queued by (intro pend_reader) (simp_all add: push_def)
    with assms(1) queued show ?thesis by (simp add: in_order_def trace_def)
  next
    case (finished c)
    note f = finish_cases [OF finished(2)]
    have p: "pend p st' = pend p st" for p using finished(1) f by (intro pend_reader) simp_all
    have w: "st_writer st = WrDone" using assms(2) finished(1) by (simp add: winding_down_def)
    have q: "\<not> st_gone st \<Longrightarrow> queue (st_events st) = []"
      using assms(2) finished(1) w by (auto simp: winding_down_def)
    with assms(1) p w f show ?thesis
      by (auto simp: in_order_def trace_def complete_silent ordered_complete)
  qed (rule same; simp add: trace_def close_def)+
qed

section \<open>What every stream keeps\<close>

definition ended_well :: "'d stream \<Rightarrow> bool" where
  "ended_well st \<longleftrightarrow>
     (\<forall>m. st_reader st = RReturned (StatusOK, m) \<longrightarrow>
        \<not> st_halt st \<and> fst (st_status st) = StatusOK \<and> st_started st = st_ok st + st_failed st
        \<and> (\<exists>es. st_out st = es @ [EvComplete (st_started st) (st_ok st) (st_failed st)]
             \<and> tally is_started es = st_started st \<and> tally is_document es = st_ok st
             \<and> tally is_raw es = st_failed st \<and> (\<forall>a b c. EvComplete a b c \<notin> set es)))"

definition stream_keeps :: "config \<Rightarrow> 'd stream \<Rightarrow> bool" where
  "stream_keeps cfg st \<longleftrightarrow> winding_down st \<and> accounted cfg st \<and> in_order st \<and> ended_well st"

lemma all_done_pend:
  "st_reader st = RFinish \<Longrightarrow> list_all (\<lambda>w. w = WDone) (st_workers st) \<Longrightarrow> queue (st_jobs st) = [] \<Longrightarrow>
     pend p st = 0"
proof -
  assume r: "st_reader st = RFinish" and d: "list_all (\<lambda>w. w = WDone) (st_workers st)" and q: "queue (st_jobs st) = []"
  have "concat (map open_job ws) = []" if "list_all (\<lambda>w. w = WDone) ws" for ws
    using that by (induction ws) auto
  with r d q show ?thesis by (simp add: pend_def unanswered_def)
qed

lemma finish_ends_well:
  assumes "stream_keeps cfg st" and "st_reader st = RFinish" and "st_workers st \<noteq> []"
    and "reader_finish c st sh = (st', sh')"
  shows "ended_well st'"
proof (cases "fst (finish_status c st) = StatusOK")
  case True
  note ok = True [unfolded finish_status_ok]
  have w: "st_writer st = WrDone" "closed (st_events st)" "queue (st_events st) = []"
    "list_all (\<lambda>w. w = WDone) (st_workers st)"
    using assms(1,2) ok by (auto simp: stream_keeps_def winding_down_def)
  have "WDone \<in> set (st_workers st)" using w(4) assms(3) by (cases "st_workers st") auto
  then have "queue (st_jobs st) = []" using assms(1) by (auto simp: stream_keeps_def winding_down_def)
  then have p: "pend p st = 0" for p using all_done_pend assms(2) w(4) by blast
  have t: "trace st = st_out st" using w(1,3) by (simp add: trace_def)
  have "\<not> st_halt st" using assms(1) ok by (auto simp: stream_keeps_def accounted_def)
  then show ?thesis
    using assms(1,2) ok p t finish_cases [OF assms(4)] True
    by (auto simp: stream_keeps_def accounted_def ended_well_def)
next
  case False
  with finish_cases [OF assms(4)] show ?thesis by (auto simp: ended_well_def)
qed

lemma ended_well_running: "\<not> returned (st_reader st) \<Longrightarrow> ended_well st"
  by (auto simp: ended_well_def)

lemma keeps_reader:
  assumes "stream_keeps cfg st" and "st_workers st \<noteq> [] \<or> returned (st_reader st)"
    and "reader_step cfg s a st sh = Some (st', sh')"
  shows "stream_keeps cfg st' \<and> (st_workers st' \<noteq> [] \<or> returned (st_reader st'))"
proof -
  have "winding_down st'" "accounted cfg st'" "in_order st'"
    using assms(1,3) winding_down_reader accounted_reader in_order_reader
    by (auto simp: stream_keeps_def)
  moreover have "ended_well st' \<and> (st_workers st' \<noteq> [] \<or> returned (st_reader st'))"
    using assms(3)
  proof (cases rule: reader_step_elim)
    case (finished c)
    with assms(2) finish_ends_well [OF assms(1)] finish_cases [OF finished(2)] show ?thesis by auto
  qed (use assms(2) in \<open>auto intro: ended_well_running\<close>)
  ultimately show ?thesis by (simp add: stream_keeps_def)
qed

lemma worker_frame:
  assumes "worker_step mapper version cfg s k a st sh = Some (st', sh')"
  shows "st_reader st' = st_reader st \<and> length (st_workers st') = length (st_workers st)
    \<and> k < length (st_workers st)"
  using assms by (cases rule: worker_step_elim) simp_all

lemma keeps_worker_running:
  assumes "stream_keeps cfg st" and "worker_step mapper version cfg s k a st sh = Some (st', sh')"
  shows "\<not> returned (st_reader st)"
proof
  assume "returned (st_reader st)"
  then have "list_all (\<lambda>w. w = WDone) (st_workers st)"
    using assms(1) by (simp add: stream_keeps_def winding_down_def)
  with assms(2) show False
    by (cases rule: worker_step_elim) (auto dest: all_done_update)
qed

lemma keeps_worker:
  assumes "stream_keeps cfg st" and "worker_step mapper version cfg s k a st sh = Some (st', sh')"
  shows "stream_keeps cfg st' \<and> st_workers st' \<noteq> []"
proof -
  have r: "\<not> returned (st_reader st)" by (rule keeps_worker_running [OF assms])
  have "st_reader st' = st_reader st" "length (st_workers st') = length (st_workers st)"
    "st_workers st \<noteq> []"
    using worker_frame [OF assms(2)] by auto
  then have "ended_well st'" "st_workers st' \<noteq> []" using r by (auto intro: ended_well_running)
  then show ?thesis
    using assms winding_down_worker accounted_worker in_order_worker by (auto simp: stream_keeps_def)
qed

lemma keeps_writer:
  assumes "stream_keeps cfg st" and "writer_step a st = Some st'"
  shows "stream_keeps cfg st' \<and> st_workers st' = st_workers st \<and> st_reader st' = st_reader st"
proof -
  have r: "\<not> returned (st_reader st)"
  proof -
    have "st_writer st \<noteq> WrDone" using assms(2) by (cases rule: writer_step_elim) simp_all
    with assms(1) show ?thesis by (auto simp: stream_keeps_def winding_down_def)
  qed
  have s: "st_workers st' = st_workers st" "st_reader st' = st_reader st"
    using assms(2) by (cases rule: writer_step_elim; auto)+
  then have "ended_well st'" using r by (auto intro: ended_well_running)
  with s show ?thesis
    using assms winding_down_writer accounted_writer in_order_writer by (auto simp: stream_keeps_def)
qed

lemma first_message_refuses: "first_message cfg req = Inl status \<Longrightarrow> fst status \<noteq> StatusOK"
  by (auto simp: first_message_def check_options_def check_endpoint_def check_format_def
      check_logprobs_def and_then_def Let_def
      split: option.splits convert_request.splits sum.splits if_splits)

lemma idle_jobs: "concat (map open_job (replicate n WIdle)) = []"
  by (induction n) simp_all

lemma new_stream_keeps: "stream_keeps cfg (new_stream cfg plan)"
  by (simp add: stream_keeps_def winding_down_def accounted_def in_order_def ended_well_def
      pend_def unanswered_def idle_jobs new_stream_def new_channel_def trace_def ordered_def
      results_def starts_def)

lemma refused_stream_keeps:
  "fst status \<noteq> StatusOK \<Longrightarrow> stream_keeps cfg (refused_stream cfg status)"
  by (auto simp: stream_keeps_def winding_down_def accounted_def in_order_def ended_well_def pend_def
      unanswered_def refused_stream_def refused_plan_def new_stream_def new_channel_def trace_def
      ordered_def results_def starts_def)

definition streams_keep :: "config \<Rightarrow> 'd process \<Rightarrow> bool" where
  "streams_keep cfg P \<longleftrightarrow>
     (\<forall>s st. pr_streams P s = Some st \<longrightarrow>
        stream_keeps cfg st \<and> (st_workers st \<noteq> [] \<or> returned (st_reader st)))"

lemma plan_concurrency:
  assumes "config_ok cfg" and "first_message cfg req = Inr plan"
  shows "1 \<le> sp_concurrency plan \<and> sp_concurrency plan \<le> concurrency cfg"
proof -
  from assms(2) obtain opts where "sp_concurrency plan = stream_concurrency cfg opts"
    by (auto simp: first_message_def check_options_def and_then_Inr split: option.splits convert_request.splits)
  with assms(1) show ?thesis by (auto simp: stream_concurrency_def config_ok_def)
qed

lemma exec_keeps:
  assumes "config_ok cfg" and "streams_keep cfg P" and "exec mapper version cfg s a P = Some P'"
  shows "streams_keep cfg P'"
proof (cases "pr_streams P s")
  case None
  with assms(3) consider plan req where "first_message cfg req = Inr plan"
      "P' = P\<lparr>pr_streams := (pr_streams P)(s \<mapsto> new_stream cfg plan)\<rparr>"
    | status req where "first_message cfg req = Inl status"
      "pr_streams P' = (pr_streams P)(s \<mapsto> refused_stream cfg status)"
    by (auto simp: exec_def split: action.splits sum.splits)
  then show ?thesis
  proof cases
    case 1
    with plan_concurrency [OF assms(1) 1(1)] assms(2) new_stream_keeps show ?thesis
      by (auto simp: streams_keep_def new_stream_def)
  next
    case 2
    have "returned (st_reader (refused_stream cfg status))" by (simp add: refused_stream_def)
    with refused_stream_keeps [OF first_message_refuses [OF 2(1)]] 2(2) assms(2) show ?thesis
      by (auto simp: streams_keep_def)
  qed
next
  case (Some st)
  have k: "stream_keeps cfg st" "st_workers st \<noteq> [] \<or> returned (st_reader st)"
    using assms(2) Some by (auto simp: streams_keep_def)
  obtain st' where p: "pr_streams P' = (pr_streams P)(s \<mapsto> st')"
    and "stream_keeps cfg st' \<and> (st_workers st' \<noteq> [] \<or> returned (st_reader st'))"
  proof (cases a)
    case (Reader r)
    with Some assms(3) obtain st' sh' where "reader_step cfg s r st (pr_shared P) = Some (st', sh')"
      "pr_streams P' = (pr_streams P)(s \<mapsto> st')" by (auto simp: exec_def)
    with keeps_reader [OF k] that show ?thesis by blast
  next
    case (Worker i w)
    with Some assms(3) obtain st' sh' where
      "worker_step mapper version cfg s i w st (pr_shared P) = Some (st', sh')"
      "pr_streams P' = (pr_streams P)(s \<mapsto> st')" by (auto simp: exec_def)
    with keeps_worker [OF k(1)] that show ?thesis by blast
  next
    case (Writer w)
    with Some assms(3) obtain st' where "writer_step w st = Some st'"
      "pr_streams P' = (pr_streams P)(s \<mapsto> st')" by (auto simp: exec_def)
    with keeps_writer [OF k(1)] that k(2) show ?thesis by fastforce
  qed (use Some assms(3) in \<open>simp add: exec_def\<close>)
  with assms(2) show ?thesis by (simp add: streams_keep_def)
qed

lemma reachable_keeps:
  assumes "config_ok cfg" and "reachable mapper version cfg P"
  shows "streams_keep cfg P"
  using assms(2)
proof induction
  case init
  show ?case by (simp add: streams_keep_def new_process_def)
next
  case (step P s a P')
  then show ?case using exec_keeps [OF assms(1)] by blast
qed

lemma reachable_stream:
  assumes "config_ok cfg" and "reachable mapper version cfg P" and "pr_streams P s = Some st"
  shows "stream_keeps cfg st"
  using reachable_keeps [OF assms(1,2)] assms(3) by (auto simp: streams_keep_def)

text \<open>A stream of one page from its first message to its trailer, for the witnesses.\<close>

definition whole_page :: "(nat \<times> action) list" where
  "whole_page = one_page @ map (Pair 0)
     [Worker 0 (Converted (Called (empty_result\<lparr>vr_ok := True, vr_text := ''page''\<rparr>))),
      Worker 0 AbortCheck, Worker 0 DropSlot, Worker 0 DropJob, Reader Check, Reader (Read None),
      Reader Leave, Reader CloseJobs, Worker 0 Pop, Worker 1 Pop, Reader JoinWorkers,
      Writer PopEvent, Writer (Write True), Writer PopEvent, Writer (Write True), Writer PopEvent,
      Reader JoinWriter, Reader (Finish False)]"

lemma sample_page_steps:
  "read_message key_config 0 (ReqPage sample_image) = Admit sample_image"
  "job_bytes \<lparr>pj_id = n, pj_image = sample_image\<rparr> = 8"
  "sp_concurrency key_plan = 2" "max_inflight key_config = 8" "\<not> sp_abort_on_error key_plan"
  "max_buffered_bytes key_config = 536870912" "max_stream_buffered_bytes key_config = 134217728"
  "convert_page sample_mapper ''1'' key_config key_plan sample_image
      (empty_result\<lparr>vr_ok := True, vr_text := ''page''\<rparr>) = Some (EvDocument 7 ''page'' [])"
  "\<not> vr_cancelled (empty_result\<lparr>vr_ok := True, vr_text := ''page''\<rparr>)"
  "im_page_no sample_image = 7"
  by (simp_all add: read_message_def sample_image_def is_png_def key_config_def default_config_def
      kPngMagic_def job_bytes_def key_plan_def convert_page_def sample_mapper_def
      empty_result_def)

lemma two_workers: "replicate 2 WIdle = [WIdle, WIdle]"
  by (simp add: numeral_2_eq_2)

lemmas pipeline_run = sample_page_steps two_workers key_plan_accepted exec_def first_message_def new_process_def
  new_stream_def reader_read_def Let_def worker_step_def set_worker_def pop_def push_def
  new_channel_def ledger_ops new_ledger_def new_budget_def at_front_def erase_waiter_def
  std_clamp_def possible_outcome_def worker_converted_def page_event_def is_raw_def
  close_def writer_step_def pop_for_def reader_finish_def finish_status_def status_ok_def

lemma whole_page_runs:
  "\<exists>P st. script sample_mapper ''1'' key_config whole_page (new_process key_config) = Some P
     \<and> pr_streams P 0 = Some st \<and> st_reader st = RReturned (StatusOK, [])
     \<and> st_out st = [EvStarted 7, EvDocument 7 ''page'' [], EvComplete 1 1 0]
     \<and> st_started st = 1 \<and> st_ok st = 1 \<and> st_failed st = 0 \<and> \<not> st_gone st"
  by (simp add: whole_page_def one_page_def pipeline_run)

lemma whole_page_reachable:
  "script sample_mapper ''1'' key_config whole_page (new_process key_config) = Some P \<Longrightarrow>
     reachable sample_mapper ''1'' key_config P"
  by (rule script_reachable [OF reachable.init])

section \<open>Properties\<close>

text \<open>
  C3: a stream that returns OK has accounted for every page.  Its trailer is the last event
  and the only trailer; before it the client was sent exactly one started event for every
  page admitted and exactly one document or raw event for every one of them, and the
  numbers in the trailer are these counts, with started = ok + failed.
\<close>

theorem ok_stream_complete:
  assumes "config_ok cfg" and "reachable mapper version cfg P" and "pr_streams P s = Some st"
    and "st_reader st = RReturned (StatusOK, m)"
  shows "\<exists>es. st_out st = es @ [EvComplete (st_started st) (st_ok st) (st_failed st)]
    \<and> st_started st = st_ok st + st_failed st
    \<and> tally is_started es = st_started st \<and> tally is_document es = st_ok st
    \<and> tally is_raw es = st_failed st \<and> (\<forall>a b c. EvComplete a b c \<notin> set es)"
  using reachable_stream [OF assms(1-3)] assms(4) by (auto simp: stream_keeps_def ended_well_def)

theorem ok_stream_complete_witness:
  "\<exists>P st. reachable sample_mapper ''1'' key_config P \<and> pr_streams P 0 = Some st
     \<and> st_reader st = RReturned (StatusOK, [])
     \<and> (\<exists>es. st_out st = es @ [EvComplete 1 1 0] \<and> tally is_document es = 1)"
proof -
  obtain P st where P: "script sample_mapper ''1'' key_config whole_page (new_process key_config) = Some P"
    "pr_streams P 0 = Some st" "st_reader st = RReturned (StatusOK, [])"
    "st_started st = 1" "st_ok st = 1" "st_failed st = 0" using whole_page_runs by blast
  have r: "reachable sample_mapper ''1'' key_config P" by (rule whole_page_reachable [OF P(1)])
  from ok_stream_complete [OF key_config_ok r P(2,3)] r P(2-6) show ?thesis by auto
qed

text \<open>
  C15: a page's started event is sent before its result.  In what any stream has sent at any
  moment, and in every initial part of it, no page number has more results than starts.
\<close>

theorem starts_before_results:
  assumes "config_ok cfg" and "reachable mapper version cfg P" and "pr_streams P s = Some st"
  shows "results n (take k (st_out st)) \<le> starts n (take k (st_out st))"
  using reachable_stream [OF assms] by (auto simp: stream_keeps_def in_order_def ordered_def)

theorem starts_before_results_witness:
  "\<exists>P st. reachable sample_mapper ''1'' key_config P \<and> pr_streams P 0 = Some st
     \<and> results 7 (take 2 (st_out st)) = 1 \<and> results 7 (take 2 (st_out st)) \<le> starts 7 (take 2 (st_out st))"
proof -
  obtain P st where P: "script sample_mapper ''1'' key_config whole_page (new_process key_config) = Some P"
    "pr_streams P 0 = Some st"
    "st_out st = [EvStarted 7, EvDocument 7 ''page'' [], EvComplete 1 1 0]" using whole_page_runs by blast
  have r: "reachable sample_mapper ''1'' key_config P" by (rule whole_page_reachable [OF P(1)])
  have "results 7 (take 2 (st_out st)) = 1"
    by (simp add: P(3) results_def tally_def event_page_def is_started_def)
  with starts_before_results [OF key_config_ok r P(2), of 7 2] r P(2) show ?thesis by blast
qed

text \<open>
  A stream takes no more pages than its cap, and the events it ever queues are bounded
  by them: at most one start per page and one result per page, two events a page.
\<close>

theorem pages_bounded:
  assumes "config_ok cfg" and "reachable mapper version cfg P" and "pr_streams P s = Some st"
  shows "st_started st \<le> max_pages cfg
    \<and> (\<not> st_gone st \<longrightarrow> tally is_started (trace st) + tally is_document (trace st) + tally is_raw (trace st)
          \<le> 2 * max_pages cfg)"
proof -
  have "accounted cfg st" using reachable_stream [OF assms] by (simp add: stream_keeps_def)
  then show ?thesis by (auto simp: accounted_def)
qed

theorem pages_bounded_witness:
  "\<exists>P st. reachable sample_mapper ''1'' key_config P \<and> pr_streams P 0 = Some st
     \<and> st_started st = 1 \<and> st_started st \<le> max_pages key_config
     \<and> tally is_started (trace st) + tally is_document (trace st) + tally is_raw (trace st)
         \<le> 2 * max_pages key_config"
proof -
  obtain P st where P: "script sample_mapper ''1'' key_config whole_page (new_process key_config) = Some P"
    "pr_streams P 0 = Some st" "st_started st = 1" "\<not> st_gone st" using whole_page_runs by blast
  have r: "reachable sample_mapper ''1'' key_config P" by (rule whole_page_reachable [OF P(1)])
  from pages_bounded [OF key_config_ok r P(2)] r P(2-4) show ?thesis by blast
qed

end
