(* ===== verification/Progress.thy ===== *)
theory Progress
  imports Delivery
begin

text \<open>
  That streams end.  Once the clients send nothing more, every action of the pipeline uses up work
  that was there before, so only finitely many are left, in whatever order the threads run; and
  when no thread can act by itself any more, every stream has returned or waits for nothing
  but the next message of its client.
\<close>

section \<open>Work\<close>

text \<open>Everything but a new stream and a new message; the end of the messages counts as unprompted.\<close>

definition unprompted :: "action \<Rightarrow> bool" where
  "unprompted a \<longleftrightarrow> (case a of Open _ \<Rightarrow> False | Reader (Read (Some _)) \<Rightarrow> False | _ \<Rightarrow> True)"

text \<open>
  What a thread does by itself: no new stream, no message, not even the end of the messages,
  and no cancellation.
\<close>

definition own_step :: "action \<Rightarrow> bool" where
  "own_step a \<longleftrightarrow> (case a of Open _ \<Rightarrow> False | Reader (Read _) \<Rightarrow> False | Writer Cancel \<Rightarrow> False | _ \<Rightarrow> True)"

lemma own_step_unprompted: "own_step a \<Longrightarrow> unprompted a"
  by (auto simp: own_step_def unprompted_def split: action.splits reader_action.splits option.splits)

fun reader_work :: "reader \<Rightarrow> nat" where
  "reader_work (RWaitStream _) = 23"
| "reader_work (RTookStream _) = 22"
| "reader_work (RWaitProcess _) = 21"
| "reader_work (RAnnounce _) = 20"
| "reader_work (RQueue _) = 17"
| "reader_work RCheck = 7"
| "reader_work RRead = 6"
| "reader_work RExit = 5"
| "reader_work RClose = 4"
| "reader_work RJoinWorkers = 3"
| "reader_work RJoinWriter = 2"
| "reader_work RFinish = 1"
| "reader_work (RReturned _) = 0"

fun worker_work :: "worker \<Rightarrow> nat" where
  "worker_work (WLook _) = 9"
| "worker_work (WWait _) = 8"
| "worker_work (WConvert _) = 7"
| "worker_work (WPushed _ _) = 4"
| "worker_work (WDropSlot _) = 3"
| "worker_work (WDropJob _) = 2"
| "worker_work WIdle = 1"
| "worker_work WDone = 0"

fun writer_work :: "'d writer \<Rightarrow> nat" where
  "writer_work (WrWrite _) = 2"
| "writer_work WrLoop = 1"
| "writer_work WrDone = 0"

text \<open>A queued page has nine actions before it, a queued event two.\<close>

definition stream_work :: "'d stream \<Rightarrow> nat" where
  "stream_work st = reader_work (st_reader st) + sum_list (map worker_work (st_workers st))
     + 9 * length (queue (st_jobs st)) + 2 * length (queue (st_events st)) + writer_work (st_writer st)"

definition process_work :: "'d process \<Rightarrow> nat" where
  "process_work P = (\<Sum>s\<in>dom (pr_streams P). stream_work (the (pr_streams P s)))"

lemma worker_sum:
  assumes "k < length ws"
  shows "sum_list (map worker_work (ws[k := w])) + worker_work (ws ! k) = sum_list (map worker_work ws) + worker_work w"
  using assms by (induction ws arbitrary: k) (auto split: nat.split simp: nth_Cons)

lemma worker_works:
  assumes "worker_step mapper version cfg s k a st sh = Some (st', sh')"
  shows "stream_work st' < stream_work st"
  using assms
proof (cases rule: worker_step_elim)
  case (popped j q)
  with worker_sum [OF popped(1), of "WLook j"] popped_queue [OF popped(3)] show ?thesis by (simp add: stream_work_def)
next
  case (ended q)
  with worker_sum [OF ended(1), of WDone] show ?thesis by (simp add: stream_work_def)
next
  case (skipped j)
  with worker_sum [OF skipped(1), of "WDropJob j"] show ?thesis by (simp add: stream_work_def)
next
  case (entered j)
  with worker_sum [OF entered(1), of "WWait j"] show ?thesis by (simp add: stream_work_def)
next
  case (granted j)
  with worker_sum [OF granted(1), of "WConvert j"] show ?thesis by (simp add: stream_work_def)
next
  case (gave_up j L)
  with worker_sum [OF gave_up(1), of "WDropJob j"] show ?thesis by (simp add: stream_work_def)
next
  case (cut j)
  with worker_sum [OF cut(1), of "WDropSlot j"] show ?thesis by (simp add: stream_work_def)
next
  case (pushed j e)
  with worker_sum [OF pushed(1), of "WPushed j (is_raw e)"] show ?thesis by (simp add: stream_work_def push_def)
next
  case (checked j raw)
  with worker_sum [OF checked(1), of "WDropSlot j"] show ?thesis by (simp add: stream_work_def)
next
  case (slot_dropped j)
  with worker_sum [OF slot_dropped(1), of "WDropJob j"] show ?thesis by (simp add: stream_work_def)
next
  case (job_dropped j)
  with worker_sum [OF job_dropped(1), of WIdle] show ?thesis by (simp add: stream_work_def)
qed

lemma writer_works:
  assumes "writer_step a st = Some st'"
  shows "stream_work st' < stream_work st"
  using assms
proof (cases rule: writer_step_elim)
  case (took e q)
  with popped_for_value [OF took(2)] show ?thesis by (simp add: stream_work_def)
qed (simp_all add: stream_work_def)

lemma reader_works:
  assumes "reader_step cfg s a st sh = Some (st', sh')" and "unprompted (Reader a)"
  shows "stream_work st' < stream_work st"
proof (cases "st_reader st = RRead")
  case True
  with assms have "st' = st\<lparr>st_reader := RExit\<rparr>" by (cases a) (auto simp: unprompted_def split: option.splits)
  with True show ?thesis by (simp add: stream_work_def)
next
  case False
  from assms(1) show ?thesis
  proof (cases rule: reader_step_elim)
    case (finished c)
    then show ?thesis by (auto simp: reader_finish_def Let_def stream_work_def split: if_splits)
  qed (use False in \<open>simp_all add: stream_work_def push_def close_def\<close>)
qed

lemma exec_works:
  assumes "exec mapper version cfg s a P = Some P'" and "unprompted a" and "finite (dom (pr_streams P))"
  shows "process_work P' < process_work P"
proof -
  obtain st where st: "pr_streams P s = Some st" using assms(1,2) by (auto simp: exec_def unprompted_def split: option.splits action.splits)
  obtain st' where st': "pr_streams P' = (pr_streams P)(s \<mapsto> st')" "stream_work st' < stream_work st"
  proof (cases a)
    case (Reader r)
    with assms st reader_works [of cfg s r st "pr_shared P"] that show ?thesis by (auto simp: exec_def)
  next
    case (Worker k w)
    with assms st worker_works [of mapper version cfg s k w st "pr_shared P"] that show ?thesis by (auto simp: exec_def)
  next
    case (Writer w)
    with assms st writer_works [of w st] that show ?thesis by (auto simp: exec_def)
  qed (use assms(2) in \<open>simp add: unprompted_def\<close>)
  let ?rest = "\<Sum>r\<in>dom (pr_streams P) - {s}. stream_work (the (pr_streams P r))"
  have "process_work P = stream_work st + ?rest"
    unfolding process_work_def using assms(3) st by (subst sum.remove [of _ s]) auto
  moreover have "process_work P' = stream_work st' + ?rest"
  proof -
    have "dom (pr_streams P') = dom (pr_streams P)" using st st'(1) by auto
    then have "process_work P' = stream_work st' + (\<Sum>r\<in>dom (pr_streams P) - {s}. stream_work (the (pr_streams P' r)))"
      unfolding process_work_def using assms(3) st st'(1) by (subst sum.remove [of _ s]) auto
    also have "(\<Sum>r\<in>dom (pr_streams P) - {s}. stream_work (the (pr_streams P' r))) = ?rest"
      by (rule sum.cong) (auto simp: st'(1))
    finally show ?thesis .
  qed
  ultimately show ?thesis using st'(2) by simp
qed

section \<open>Somebody can act\<close>

text \<open>The byte budget of a stream knows pages of that stream only.\<close>

definition own_only :: "nat \<Rightarrow> owner ledger \<Rightarrow> bool" where
  "own_only s L \<longleftrightarrow> (\<forall>(w, a) \<in> set (waiting L). fst w = s) \<and> (\<forall>w \<in> dom (held L). fst w = s)"

lemma own_only_ops:
  assumes "own_only s L"
  shows "own_only s (ledger_enter (s, i) n L)" "own_only s (snd (ledger_poll (s, i) h L))" "own_only s (ledger_release (s, i) L)"
  using assms
  by (auto simp: own_only_def ledger_ops erase_waiter_def split: option.splits if_splits)

lemma own_only_reader:
  assumes "own_only s (st_bytes st)" and "reader_step cfg s a st sh = Some (st', sh')"
  shows "own_only s (st_bytes st')"
proof -
  note ops = own_only_ops [OF assms(1)]
  have poll: "own_only s L" if "ledger_poll (s, i) h (st_bytes st) = (r, L)" for i h r L using ops(2) [of i h] that by simp
  have "own_only s (st_bytes (fst (reader_read cfg s req st sh)))" for req
    using assms(1) ops(1) by (simp add: reader_read_def Let_def split: read_result.split)
  then have read: "own_only s (st_bytes st')" if "reader_read cfg s req st sh = (st', sh')" for req using that by (metis fst_conv)
  show ?thesis
    using assms read poll ops
    by (cases a) (auto simp: reader_finish_def Let_def split: reader.splits option.splits prod.splits poll_result.splits if_splits)
qed

lemma own_only_worker:
  "own_only s (st_bytes st) \<Longrightarrow> worker_step mapper version cfg s k a st sh = Some (st', sh') \<Longrightarrow> own_only s (st_bytes st')"
  by (erule worker_step_elim) (simp_all add: own_only_ops)

lemma own_only_writer: "own_only s (st_bytes st) \<Longrightarrow> writer_step a st = Some st' \<Longrightarrow> own_only s (st_bytes st')"
  by (erule writer_step_elim) simp_all

lemma own_only_new: "own_only s (st_bytes (new_stream cfg plan))" "own_only s (st_bytes (refused_stream cfg status))"
  by (simp_all add: own_only_def new_stream_def refused_stream_def new_ledger_def new_budget_def waiting_def)

lemma own_only_reachable:
  assumes "reachable mapper version cfg P"
  shows "\<forall>s st. pr_streams P s = Some st \<longrightarrow> own_only s (st_bytes st)"
  using assms
proof induction
  case init
  then show ?case by (simp add: new_process_def)
next
  case (step P s a P')
  have "\<exists>st'. pr_streams P' = (pr_streams P)(s \<mapsto> st') \<and> own_only s (st_bytes st')"
  proof (cases "pr_streams P s")
    case None
    with step(2) own_only_new show ?thesis by (fastforce simp: exec_def split: action.splits sum.splits)
  next
    case (Some st)
    then have o: "own_only s (st_bytes st)" using step.IH by blast
    show ?thesis
      using Some step(2) own_only_reader [OF o] own_only_worker [OF o] own_only_writer [OF o]
      by (cases a) (auto simp: exec_def)
  qed
  with step.IH show ?case by (auto split: if_splits)
qed

text \<open>A budget that nobody holds anything of lets its first waiter in.\<close>

lemma front_enters:
  assumes "ledger_inv L" and "dom (held L) = {}" and "waiting L = (w, a) # rest"
  obtains b L' where "ledger_poll w h L = (Took b, L')"
  using lb.front_takes_or_blocked [OF assms(1,3), of h] assms(2) by (metis prod.collapse)

definition stuck :: "'d mapper \<Rightarrow> string \<Rightarrow> config \<Rightarrow> 'd process \<Rightarrow> bool" where
  "stuck mapper version cfg P \<longleftrightarrow> (\<forall>s a. own_step a \<longrightarrow> exec mapper version cfg s a P = None)"

lemma stuck_steps:
  assumes "stuck mapper version cfg P" and "pr_streams P s = Some st"
  shows "own_step (Reader r) \<Longrightarrow> reader_step cfg s r st (pr_shared P) = None"
    and "worker_step mapper version cfg s k w st (pr_shared P) = None"
    and "v \<noteq> Cancel \<Longrightarrow> writer_step v st = None"
proof -
  have "own_step (Worker k w)" "v \<noteq> Cancel \<Longrightarrow> own_step (Writer v)"
    by (simp_all add: own_step_def split: writer_action.split)
  with assms have e: "exec mapper version cfg s (Worker k w) P = None"
    "v \<noteq> Cancel \<Longrightarrow> exec mapper version cfg s (Writer v) P = None"
    "own_step (Reader r) \<Longrightarrow> exec mapper version cfg s (Reader r) P = None" unfolding stuck_def by blast+
  then show "worker_step mapper version cfg s k w st (pr_shared P) = None" "v \<noteq> Cancel \<Longrightarrow> writer_step v st = None"
    using assms(2) by (simp_all add: exec_def)
  show "own_step (Reader r) \<Longrightarrow> reader_step cfg s r st (pr_shared P) = None"
    using e(3) assms(2) by (simp add: exec_def)
qed

lemma returned_still: "reader_step cfg s a st sh = Some (st', sh') \<Longrightarrow> \<not> returned (st_reader st)"
  by (erule reader_step_elim) simp_all

lemma no_workers_no_jobs:
  assumes "config_ok cfg" and "reachable mapper version cfg P"
  shows "\<forall>s st. pr_streams P s = Some st \<longrightarrow> st_workers st = [] \<longrightarrow> queue (st_jobs st) = []"
  using assms(2)
proof induction
  case init
  then show ?case by (simp add: new_process_def)
next
  case (step P s a P')
  have keep: "streams_keep cfg P" by (rule reachable_keeps [OF assms(1) step(1)])
  have "queue (st_jobs st') = []" if "pr_streams P' s = Some st'" "st_workers st' = []" for st'
  proof (cases "pr_streams P s")
    case None
    with step(2) that show ?thesis
      by (auto simp: exec_def new_stream_def refused_stream_def new_channel_def split: action.splits sum.splits)
  next
    case (Some st)
    have r: "st_workers st \<noteq> [] \<or> returned (st_reader st)" and q: "st_workers st = [] \<Longrightarrow> queue (st_jobs st) = []"
      using keep Some step.IH unfolding streams_keep_def by blast+
    show ?thesis
    proof (cases a)
      case (Reader x)
      with Some step(2) that obtain sh' where x: "reader_step cfg s x st (pr_shared P) = Some (st', sh')" by (auto simp: exec_def)
      then have "st_workers st' = st_workers st" by (cases rule: reader_step_elim) (auto simp: reader_finish_def Let_def split: if_splits)
      with returned_still [OF x] r that(2) show ?thesis by simp
    next
      case (Worker k w)
      with Some step(2) that obtain sh' where "worker_step mapper version cfg s k w st (pr_shared P) = Some (st', sh')"
        by (auto simp: exec_def)
      from worker_frame [OF this] that(2) show ?thesis by auto
    next
      case (Writer w)
      with Some step(2) that have "writer_step w st = Some st'" by (auto simp: exec_def)
      then show ?thesis using that(2) q by (cases rule: writer_step_elim) simp_all
    qed (use Some step(2) in \<open>simp add: exec_def\<close>)
  qed
  moreover have "pr_streams P' r = pr_streams P r" if "r \<noteq> s" for r
    using step(2) that by (auto simp: exec_def split: option.splits action.splits sum.splits)
  ultimately show ?case using step.IH by metis
qed

lemma owns_nothing: "owns f s h ws [] W \<Longrightarrow> h (s, i) = None"
  by (simp add: owns_def matches_def)

lemma owns_waiter:
  assumes "owns f s h ws H W" and "((s, i), a) \<in> set ws"
  obtains j where "j \<in> set W" "pj_id j = i"
proof -
  have "(i, a) \<in> wait_view s ws" using assms(2) by (simp add: wait_view_def)
  with assms(1) that show thesis by (auto simp: owns_def)
qed

lemma owns_waits: "owns f s h ws H W \<Longrightarrow> j \<in> set W \<Longrightarrow> ws \<noteq> []"
  by (auto simp: owns_def wait_view_def)

text \<open>Everybody waits: the workers for pages or for slots only, the readers for budgets or for threads only.\<close>

lemma stuck_worker:
  assumes "stuck mapper version cfg P" and "pr_streams P s = Some st" and "w \<in> set (st_workers st)"
  shows "w = WIdle \<or> w = WDone \<or> (\<exists>j. w = WWait j)"
proof -
  obtain k where k: "k < length (st_workers st)" "st_workers st ! k = w" using assms(3) by (metis in_set_conv_nth)
  have n: "worker_step mapper version cfg s k a st (pr_shared P) = None" for a by (rule stuck_steps(2) [OF assms(1,2)])
  show ?thesis
  proof (cases w)
    case (WLook j)
    with n [of Look] k show ?thesis by (simp add: worker_step_def split: if_splits)
  next
    case (WConvert j)
    with n [of "Converted (Threw [])"] k show ?thesis by (simp add: worker_step_def possible_outcome_def)
  next
    case (WPushed j raw)
    with n [of AbortCheck] k show ?thesis by (simp add: worker_step_def)
  next
    case (WDropSlot j)
    with n [of DropSlot] k show ?thesis by (simp add: worker_step_def)
  next
    case (WDropJob j)
    with n [of DropJob] k show ?thesis by (simp add: worker_step_def)
  qed simp_all
qed

lemma stuck_no_waiter:
  assumes cfg: "config_ok cfg" and r: "reachable mapper version cfg P" and stuck: "stuck mapper version cfg P"
    and st: "pr_streams P s = Some st"
  shows "WWait j \<notin> set (st_workers st)"
proof
  assume wait: "WWait j \<in> set (st_workers st)"
  let ?L = "sh_slots (pr_shared P)"
  have inv: "process_inv cfg P" by (rule reachable_inv [OF cfg r])
  then have L: "ledger_inv ?L" by (simp add: process_inv_def shared_inv_def)
  have owns: "owns one_slot r (held ?L) (waiting ?L) (slot_holders st) (slot_waiters st)" if "pr_streams P r = Some st" for r st
    using inv that by (simp add: process_inv_def shares_def)
  have none: "owns one_slot r (held ?L) (waiting ?L) [] []" if "pr_streams P r = None" for r
    using inv that by (simp add: process_inv_def)
  have "slot_holders st = []" if "pr_streams P r = Some st" for r st
    using stuck_worker [OF stuck that] by (fastforce simp: slot_holders_def)
  then have "held ?L (r, i) = None" for r i
    using owns none owns_nothing by (cases "pr_streams P r") fastforce+
  then have free: "dom (held ?L) = {}" by (auto simp: dom_def)
  have "waiting ?L \<noteq> []" by (rule owns_waits [OF owns [OF st], of j]) (use wait in \<open>force simp: slot_waiters_def\<close>)
  then obtain q i a rest where front: "waiting ?L = ((q, i), a) # rest" by (metis list.exhaust surj_pair)
  then have member: "((q, i), a) \<in> set (waiting ?L)" by simp
  obtain st' where st': "pr_streams P q = Some st'"
    using none [of q] owns_waiter [OF _ member] by (cases "pr_streams P q") (auto elim: owns_waiter [OF _ member])
  obtain j' where j': "j' \<in> set (slot_waiters st')" "pj_id j' = i" by (rule owns_waiter [OF owns [OF st'] member])
  have "j' \<in> set (wait_job x) \<Longrightarrow> x = WWait j'" for x by (cases x) simp_all
  with j' have "WWait j' \<in> set (st_workers st')" by (auto simp: slot_waiters_def)
  then obtain k where k: "k < length (st_workers st')" "st_workers st' ! k = WWait j'" by (metis in_set_conv_nth)
  obtain b L' where "ledger_poll (q, i) (st_halt st') ?L = (Took b, L')" by (rule front_enters [OF L free front])
  with k j' stuck_steps(2) [OF stuck st', of k PollSlot] show False by (simp add: worker_step_def)
qed

lemma stuck_no_work:
  assumes cfg: "config_ok cfg" and r: "reachable mapper version cfg P" and stuck: "stuck mapper version cfg P"
    and st: "pr_streams P s = Some st"
  shows "in_work st = []" and "closed (st_jobs st) \<Longrightarrow> list_all (\<lambda>w. w = WDone) (st_workers st)"
proof -
  have w: "w = WIdle \<or> w = WDone" if "w \<in> set (st_workers st)" for w
    using stuck_worker [OF stuck st that] stuck_no_waiter [OF assms] that by blast
  have pop: "pop (st_jobs st) = (PopWait, st_jobs st)" if idle: "WIdle \<in> set (st_workers st)"
  proof -
    obtain k where k: "k < length (st_workers st)" "st_workers st ! k = WIdle" using idle by (metis in_set_conv_nth)
    with stuck_steps(2) [OF stuck st, of k Pop] show ?thesis
      by (auto simp: worker_step_def pop_def split: if_splits list.splits)
  qed
  have keep: "winding_down st" using reachable_stream [OF cfg r st] by (simp add: stream_keeps_def)
  have "queue (st_jobs st) = []"
  proof (cases "st_workers st")
    case Nil
    then show ?thesis using no_workers_no_jobs [OF cfg r] st by blast
  next
    case (Cons v vs)
    then show ?thesis using w [of v] pop keep by (auto simp: pop_def winding_down_def split: if_splits list.splits)
  qed
  moreover have "concat (map worker_job (st_workers st)) = []" using w by fastforce
  ultimately show "in_work st = []" by (simp add: in_work_def)
  show "list_all (\<lambda>w. w = WDone) (st_workers st)" if "closed (st_jobs st)"
  proof -
    have "WIdle \<notin> set (st_workers st)" using pop that by (auto simp: pop_def split: list.splits)
    with w show ?thesis by (auto simp: list_all_iff)
  qed
qed

lemma stuck_reader:
  assumes "stuck mapper version cfg P" and "pr_streams P s = Some st"
  shows "returned (st_reader st) \<or> st_reader st \<in> {RRead, RJoinWorkers, RJoinWriter} \<or> (\<exists>j. st_reader st \<in> {RWaitStream j, RWaitProcess j})"
proof -
  have n: "own_step (Reader a) \<Longrightarrow> reader_step cfg s a st (pr_shared P) = None" for a by (rule stuck_steps(1) [OF assms])
  show ?thesis
    using n [of Check] n [of EnterProcess] n [of Announce] n [of Queue] n [of Leave] n [of CloseJobs] n [of "Finish False"]
    by (cases "st_reader st") (simp_all add: own_step_def)
qed

lemma stuck_not_stream:
  assumes cfg: "config_ok cfg" and r: "reachable mapper version cfg P" and stuck: "stuck mapper version cfg P"
    and st: "pr_streams P s = Some st"
  shows "st_reader st \<noteq> RWaitStream j"
proof
  assume wait: "st_reader st = RWaitStream j"
  let ?L = "st_bytes st"
  have inv: "stream_inv cfg s st" using reachable_inv [OF cfg r] st by (simp add: process_inv_def)
  have L: "ledger_inv ?L" and o: "owns job_bytes s (held ?L) (waiting ?L) [] [j]"
    using inv wait stuck_no_work(1) [OF assms] by (simp_all add: stream_inv_def)
  have own: "own_only s ?L" using own_only_reachable [OF r] st by blast
  have free: "dom (held ?L) = {}" using own owns_nothing [OF o] by (force simp: own_only_def)
  have "waiting ?L \<noteq> []" by (rule owns_waits [OF o, of j]) simp
  then obtain q i a rest where front: "waiting ?L = ((q, i), a) # rest" by (metis list.exhaust surj_pair)
  with own have q: "q = s" by (simp add: own_only_def)
  have "((s, i), a) \<in> set (waiting ?L)" using front q by simp
  from owns_waiter [OF o this] have "i = pj_id j" by auto
  with front_enters [OF L free front, of "st_halt st"] q obtain b L' where "ledger_poll (s, pj_id j) (st_halt st) ?L = (Took b, L')"
    by blast
  with wait stuck_steps(1) [OF stuck st, of PollStream] show False by (simp add: own_step_def)
qed

lemma stuck_not_process:
  assumes cfg: "config_ok cfg" and r: "reachable mapper version cfg P" and stuck: "stuck mapper version cfg P"
    and st: "pr_streams P s = Some st"
  shows "st_reader st \<noteq> RWaitProcess j"
proof
  assume wait: "st_reader st = RWaitProcess j"
  let ?L = "sh_buffered (pr_shared P)"
  have inv: "process_inv cfg P" by (rule reachable_inv [OF cfg r])
  then have L: "ledger_inv ?L" by (simp add: process_inv_def shared_inv_def)
  have owns: "owns job_bytes q (held ?L) (waiting ?L) [] (waits_process (st_reader st))" if st: "pr_streams P q = Some st" for q st
  proof -
    have "holds_process (st_reader st) = []" using stuck_reader [OF stuck st] by (cases "st_reader st") auto
    moreover have "owns job_bytes q (held ?L) (waiting ?L) (holds_process (st_reader st) @ in_work st) (waits_process (st_reader st))"
      using inv st by (simp add: process_inv_def shares_def)
    ultimately show ?thesis using stuck_no_work(1) [OF cfg r stuck st] by simp
  qed
  have none: "owns job_bytes q (held ?L) (waiting ?L) [] []" if "pr_streams P q = None" for q
    using inv that by (simp add: process_inv_def)
  have "held ?L (q, i) = None" for q i
    using owns none owns_nothing by (cases "pr_streams P q") fastforce+
  then have free: "dom (held ?L) = {}" by (auto simp: dom_def)
  have "waiting ?L \<noteq> []" by (rule owns_waits [OF owns [OF st], of j]) (simp add: wait)
  then obtain q i a rest where front: "waiting ?L = ((q, i), a) # rest" by (metis list.exhaust surj_pair)
  then have member: "((q, i), a) \<in> set (waiting ?L)" by simp
  obtain st' where st': "pr_streams P q = Some st'"
    using none [of q] by (cases "pr_streams P q") (auto elim: owns_waiter [OF _ member])
  obtain j' where j': "j' \<in> set (waits_process (st_reader st'))" "pj_id j' = i" by (rule owns_waiter [OF owns [OF st'] member])
  then have w: "st_reader st' = RWaitProcess j'" by (cases "st_reader st'") auto
  obtain b L' where "ledger_poll (q, i) (st_halt st') ?L = (Took b, L')" by (rule front_enters [OF L free front])
  with w j' stuck_steps(1) [OF stuck st', of PollProcess] show False by (simp add: own_step_def)
qed

text \<open>A stream that waits for nothing but the next message of its client.\<close>

definition awaits_client :: "'d stream \<Rightarrow> bool" where
  "awaits_client st \<longleftrightarrow>
     st_reader st = RRead \<and> jobs_of st = []
     \<and> (st_writer st = WrLoop \<and> queue (st_events st) = [] \<or> st_writer st = WrDone \<and> st_gone st)"

lemma stuck_awaits:
  assumes cfg: "config_ok cfg" and r: "reachable mapper version cfg P" and stuck: "stuck mapper version cfg P"
    and st: "pr_streams P s = Some st"
  shows "returned (st_reader st) \<or> awaits_client st"
proof (rule disjCI)
  assume waits: "\<not> awaits_client st"
  have keep: "winding_down st" using reachable_stream [OF cfg r st] by (simp add: stream_keeps_def)
  have n: "own_step (Reader a) \<Longrightarrow> reader_step cfg s a st (pr_shared P) = None" for a by (rule stuck_steps(1) [OF stuck st])
  note written = stuck_steps(3) [OF stuck st, of PopEvent] stuck_steps(3) [OF stuck st, of "Write True"]
  have "st_reader st \<noteq> RJoinWorkers"
    using keep stuck_no_work(2) [OF assms] n [of JoinWorkers] by (auto simp: winding_down_def own_step_def)
  moreover have "st_reader st \<noteq> RJoinWriter"
  proof
    assume j: "st_reader st = RJoinWriter"
    with keep have "closed (st_events st)" by (simp add: winding_down_def)
    with j n [of JoinWriter] written show False
      by (cases "st_writer st") (auto simp: writer_step_def pop_for_def own_step_def split: list.splits)
  qed
  moreover have "st_reader st \<noteq> RRead"
  proof
    assume j: "st_reader st = RRead"
    then have "jobs_of st = []" using stuck_no_work(1) [OF assms] by (simp add: jobs_of_def)
    moreover have "st_writer st = WrLoop \<and> queue (st_events st) = [] \<or> st_writer st = WrDone \<and> st_gone st"
      using written keep j
      by (cases "st_writer st") (auto simp: writer_step_def pop_for_def winding_down_def split: list.splits if_splits)
    ultimately show False using j waits by (simp add: awaits_client_def)
  qed
  ultimately show "returned (st_reader st)"
    using stuck_reader [OF stuck st] stuck_not_stream [OF assms] stuck_not_process [OF assms] by auto
qed

lemma stuck_free:
  assumes cfg: "config_ok cfg" and r: "reachable mapper version cfg P" and stuck: "stuck mapper version cfg P"
  shows "held (sh_slots (pr_shared P)) w = None" and "held (sh_buffered (pr_shared P)) w = None"
proof -
  obtain q i where w: "w = (q, i)" by fastforce
  have inv: "process_inv cfg P" by (rule reachable_inv [OF cfg r])
  have idle: "slot_holders st = [] \<and> holds_process (st_reader st) @ in_work st = []" if st: "pr_streams P q = Some st" for st
  proof -
    have "slot_holders st = []" using stuck_worker [OF stuck st] by (fastforce simp: slot_holders_def)
    moreover have "holds_process (st_reader st) = []" using stuck_reader [OF stuck st] by (cases "st_reader st") auto
    ultimately show ?thesis using stuck_no_work(1) [OF assms st] by simp
  qed
  show "held (sh_slots (pr_shared P)) w = None"
  proof (cases "pr_streams P q")
    case None
    then have "owns one_slot q (held (sh_slots (pr_shared P))) (waiting (sh_slots (pr_shared P))) [] []"
      using inv by (simp add: process_inv_def)
    then show ?thesis unfolding w by (rule owns_nothing)
  next
    case (Some st)
    then have "owns one_slot q (held (sh_slots (pr_shared P))) (waiting (sh_slots (pr_shared P))) (slot_holders st) (slot_waiters st)"
      using inv by (simp add: process_inv_def shares_def)
    then show ?thesis unfolding w using idle [OF Some] owns_nothing by metis
  qed
  show "held (sh_buffered (pr_shared P)) w = None"
  proof (cases "pr_streams P q")
    case None
    then have "owns job_bytes q (held (sh_buffered (pr_shared P))) (waiting (sh_buffered (pr_shared P))) [] []"
      using inv by (simp add: process_inv_def)
    then show ?thesis unfolding w by (rule owns_nothing)
  next
    case (Some st)
    then have "owns job_bytes q (held (sh_buffered (pr_shared P))) (waiting (sh_buffered (pr_shared P)))
        (holds_process (st_reader st) @ in_work st) (waits_process (st_reader st))"
      using inv by (simp add: process_inv_def shares_def)
    then show ?thesis unfolding w using idle [OF Some] owns_nothing by metis
  qed
qed

section \<open>Runs\<close>

lemma exec_keeps_stream:
  "exec mapper version cfg r a P = Some P' \<Longrightarrow> pr_streams P s \<noteq> None \<Longrightarrow> pr_streams P' s \<noteq> None"
  by (auto simp: exec_def split: option.splits action.splits sum.splits)

lemma script_keeps_stream:
  "script mapper version cfg acts P = Some P' \<Longrightarrow> pr_streams P s \<noteq> None \<Longrightarrow> pr_streams P' s \<noteq> None"
proof (induction acts arbitrary: P)
  case (Cons sa acts)
  obtain r a where sa: "sa = (r, a)" by fastforce
  with Cons.prems(1) obtain Q where "exec mapper version cfg r a P = Some Q" "script mapper version cfg acts Q = Some P'"
    by (auto split: option.splits)
  with Cons.IH exec_keeps_stream [of mapper version cfg r a P Q s] Cons.prems(2) show ?case by blast
qed simp

lemma script_works:
  assumes "config_ok cfg" and "reachable mapper version cfg P"
    and "script mapper version cfg acts P = Some P'" and "list_all (\<lambda>(s, a). unprompted a) acts"
  shows "length acts + process_work P' \<le> process_work P"
  using assms(2-4)
proof (induction acts arbitrary: P)
  case (Cons sa acts)
  obtain s a where sa: "sa = (s, a)" by fastforce
  with Cons.prems(2) obtain Q where Q: "exec mapper version cfg s a P = Some Q" "script mapper version cfg acts Q = Some P'"
    by (auto split: option.splits)
  have "finite (dom (pr_streams P))" using reachable_inv [OF assms(1) Cons.prems(1)] by (simp add: process_inv_def)
  then have "process_work Q < process_work P" using exec_works [OF Q(1)] Cons.prems(3) sa by simp
  moreover have "length acts + process_work P' \<le> process_work Q"
    using Cons.IH [OF reachable.step [OF Cons.prems(1) Q(1)] Q(2)] Cons.prems(3) by simp
  ultimately show ?case by simp
qed simp

text \<open>What happens with one client done: the threads of all streams, and the end of that client's messages.\<close>

definition closing :: "nat \<Rightarrow> nat \<times> action \<Rightarrow> bool" where
  "closing s ra \<longleftrightarrow> own_step (snd ra) \<or> ra = (s, Reader (Read None))"

lemma closing_unprompted: "closing s (r, a) \<Longrightarrow> unprompted a"
  by (auto simp: closing_def own_step_unprompted) (simp add: unprompted_def)

lemma closing_run:
  assumes "config_ok cfg" and "reachable mapper version cfg P"
  shows "\<exists>acts P'. script mapper version cfg acts P = Some P' \<and> list_all (closing s) acts
    \<and> (\<forall>r a. closing s (r, a) \<longrightarrow> exec mapper version cfg r a P' = None)"
  using assms(2)
proof (induction "process_work P" arbitrary: P rule: less_induct)
  case less
  show ?case
  proof (cases "\<forall>r a. closing s (r, a) \<longrightarrow> exec mapper version cfg r a P = None")
    case True
    then show ?thesis by (intro exI [of _ "[]"] exI [of _ P]) simp
  next
    case False
    then obtain r a where c: "closing s (r, a)" "exec mapper version cfg r a P \<noteq> None" by blast
    then obtain Q where Q: "closing s (r, a)" "exec mapper version cfg r a P = Some Q" by auto
    have "finite (dom (pr_streams P))" using reachable_inv [OF assms(1) less.prems] by (simp add: process_inv_def)
    from less.hyps [OF exec_works [OF Q(2) closing_unprompted [OF Q(1)] this] reachable.step [OF less.prems Q(2)]]
    obtain acts P' where "script mapper version cfg acts Q = Some P'" "list_all (closing s) acts"
      "\<forall>r a. closing s (r, a) \<longrightarrow> exec mapper version cfg r a P' = None" by blast
    with Q show ?thesis by (intro exI [of _ "(r, a) # acts"] exI [of _ P']) simp
  qed
qed

section \<open>Properties\<close>

text \<open>
  C7: a stream whose client is done returns.  Before the next message or the next stream the
  threads of all streams together take at most as many actions as the process has work
  (\<open>process_work\<close>: at most 23 for each reader, 9 for each queued page, 9 for each worker, 2 for
  each event not yet sent), in whatever order.  Once the client of a stream has ended its
  messages, there is a run that goes on until nothing can act, and every such run has
  returned this stream, whatever the other clients keep their streams waiting for.
\<close>

theorem unprompted_steps_bounded:
  assumes "config_ok cfg" and "reachable mapper version cfg P" and "pr_streams P s = Some st"
  shows "(\<forall>acts P'. script mapper version cfg acts P = Some P' \<and> list_all (\<lambda>(r, a). unprompted a) acts \<longrightarrow>
        length acts + process_work P' \<le> process_work P)
    \<and> (\<exists>acts P'. script mapper version cfg acts P = Some P' \<and> list_all (closing s) acts
        \<and> (\<forall>r a. closing s (r, a) \<longrightarrow> exec mapper version cfg r a P' = None))
    \<and> (\<forall>acts P'. script mapper version cfg acts P = Some P' \<and> list_all (closing s) acts
        \<and> (\<forall>r a. closing s (r, a) \<longrightarrow> exec mapper version cfg r a P' = None) \<longrightarrow>
        length acts \<le> process_work P \<and> (\<exists>st'. pr_streams P' s = Some st' \<and> returned (st_reader st')))"
proof (intro conjI allI impI; (elim conjE)?)
  fix acts P'
  assume run: "script mapper version cfg acts P = Some P'" and "list_all (\<lambda>(r, a). unprompted a) acts"
  then show "length acts + process_work P' \<le> process_work P" by (rule script_works [OF assms(1,2)])
next
  show "\<exists>acts P'. script mapper version cfg acts P = Some P' \<and> list_all (closing s) acts
        \<and> (\<forall>r a. closing s (r, a) \<longrightarrow> exec mapper version cfg r a P' = None)"
    by (rule closing_run [OF assms(1,2)])
next
  fix acts P'
  assume run: "script mapper version cfg acts P = Some P'" and c: "list_all (closing s) acts"
  have "list_all (\<lambda>(r, a). unprompted a) acts" using c closing_unprompted by (fastforce simp: list_all_iff)
  from script_works [OF assms(1,2) run this] show "length acts \<le> process_work P" by simp
next
  fix acts P'
  assume run: "script mapper version cfg acts P = Some P'"
    and still: "\<forall>r a. closing s (r, a) \<longrightarrow> exec mapper version cfg r a P' = None"
  have r: "reachable mapper version cfg P'" by (rule script_reachable [OF assms(2) run])
  obtain st' where st': "pr_streams P' s = Some st'" using script_keeps_stream [OF run, of s] assms(3) by auto
  have "stuck mapper version cfg P'" using still by (simp add: stuck_def closing_def)
  from stuck_awaits [OF assms(1) r this st'] have "returned (st_reader st') \<or> st_reader st' = RRead"
    by (auto simp: awaits_client_def)
  moreover have "exec mapper version cfg s (Reader (Read None)) P' = None" using still by (simp add: closing_def)
  then have "st_reader st' \<noteq> RRead" using st' by (auto simp: exec_def)
  ultimately show "\<exists>st'. pr_streams P' s = Some st' \<and> returned (st_reader st')" using st' by blast
qed

theorem unprompted_steps_bounded_witness:
  "\<exists>P acts P' st'. reachable sample_mapper ''1'' key_config P \<and> pr_streams P 0 \<noteq> None
     \<and> script sample_mapper ''1'' key_config acts P = Some P' \<and> length acts \<le> process_work P
     \<and> pr_streams P' 0 = Some st' \<and> returned (st_reader st')"
proof -
  have "\<exists>P st. script sample_mapper ''1'' key_config one_page (new_process key_config) = Some P \<and> pr_streams P 0 = Some st"
    by (simp add: one_page_def pipeline_run)
  then obtain P st where P: "script sample_mapper ''1'' key_config one_page (new_process key_config) = Some P"
    "pr_streams P 0 = Some st" by blast
  have r: "reachable sample_mapper ''1'' key_config P" by (rule script_reachable [OF reachable.init P(1)])
  note t = unprompted_steps_bounded [OF key_config_ok r P(2)]
  from t obtain acts P' where run: "script sample_mapper ''1'' key_config acts P = Some P' \<and> list_all (closing 0) acts
      \<and> (\<forall>r a. closing 0 (r, a) \<longrightarrow> exec sample_mapper ''1'' key_config r a P' = None)" by blast
  with t have "length acts \<le> process_work P \<and> (\<exists>st'. pr_streams P' 0 = Some st' \<and> returned (st_reader st'))" by blast
  with run r P(2) show ?thesis by blast
qed

text \<open>
  C6: no deadlock.  However the readers and workers of all streams wait for the byte budgets, the
  slots, the queues and each other, when no thread of the process can act by itself, with no
  help of a client by a message, a half-close or a cancellation, then no slot and no byte of
  the process is held, and every stream has returned or waits for its client alone: its
  reader is at the read, none of its pages is queued or in work, and its writer has sent every
  event or has left a client that is gone.
\<close>

theorem no_deadlock:
  assumes "config_ok cfg" and "reachable mapper version cfg P"
    and "\<forall>r a. own_step a \<longrightarrow> exec mapper version cfg r a P = None"
  shows "(\<forall>s st. pr_streams P s = Some st \<longrightarrow>
        returned (st_reader st)
        \<or> st_reader st = RRead \<and> jobs_of st = []
          \<and> (st_writer st = WrLoop \<and> queue (st_events st) = [] \<or> st_writer st = WrDone \<and> st_gone st))
    \<and> (\<forall>w. held (sh_slots (pr_shared P)) w = None \<and> held (sh_buffered (pr_shared P)) w = None)"
proof -
  have "stuck mapper version cfg P" using assms(3) by (simp add: stuck_def)
  with stuck_awaits [OF assms(1,2)] stuck_free [OF assms(1,2)] show ?thesis unfolding awaits_client_def by blast
qed

text \<open>A stream that was opened and whose client is silent.\<close>

definition silent :: "(nat \<times> action) list" where
  "silent = [(0, Open (Some (ReqOptions key_options))), (0, Reader Check)]"

lemma silent_runs:
  "\<exists>P st. script sample_mapper ''1'' key_config silent (new_process key_config) = Some P
     \<and> pr_streams P 0 = Some st \<and> (\<forall>r. r \<noteq> 0 \<longrightarrow> pr_streams P r = None) \<and> st_reader st = RRead \<and> st_workers st = [WIdle, WIdle] \<and> st_writer st = WrLoop
     \<and> st_jobs st = new_channel \<and> st_events st = new_channel"
  by (simp add: silent_def pipeline_run)

lemma silent_stuck:
  assumes "pr_streams P 0 = Some st" and "\<forall>r. r \<noteq> 0 \<longrightarrow> pr_streams P r = None" and "st_reader st = RRead" and "st_workers st = [WIdle, WIdle]"
    and "st_writer st = WrLoop" and "st_jobs st = new_channel" and "st_events st = new_channel" and "own_step a"
  shows "exec mapper version cfg r a P = None"
proof (cases "r = 0")
  case True
  have idle: "k < 2 \<Longrightarrow> [WIdle, WIdle] ! k = WIdle" for k :: nat by (cases k) auto
  show ?thesis
  proof (cases a)
    case (Reader x)
    with True assms show ?thesis by (cases x) (simp_all add: exec_def own_step_def)
  next
    case (Worker k x)
    with True assms idle [of k] show ?thesis
      by (cases x) (simp_all add: exec_def worker_step_def pop_def new_channel_def)
  next
    case (Writer x)
    with True assms show ?thesis by (cases x) (simp_all add: exec_def writer_step_def pop_for_def new_channel_def own_step_def)
  qed (use assms(8) in \<open>simp add: own_step_def\<close>)
next
  case False
  then show ?thesis using assms(2,8) by (simp add: exec_def own_step_def split: action.splits)
qed

theorem no_deadlock_witness:
  "\<exists>P st. reachable sample_mapper ''1'' key_config P \<and> pr_streams P 0 = Some st \<and> \<not> returned (st_reader st)
     \<and> st_reader st = RRead \<and> jobs_of st = [] \<and> queue (st_events st) = []"
proof -
  obtain P st where P: "script sample_mapper ''1'' key_config silent (new_process key_config) = Some P"
    and st: "pr_streams P 0 = Some st" "\<forall>r. r \<noteq> 0 \<longrightarrow> pr_streams P r = None" "st_reader st = RRead" "st_workers st = [WIdle, WIdle]" "st_writer st = WrLoop"
      "st_jobs st = new_channel" "st_events st = new_channel" using silent_runs by blast
  have r: "reachable sample_mapper ''1'' key_config P" by (rule script_reachable [OF reachable.init P])
  have still: "\<forall>r a. own_step a \<longrightarrow> exec sample_mapper ''1'' key_config r a P = None" using silent_stuck [OF st] by blast
  from no_deadlock [OF key_config_ok r still] st(1,3,5)
  have "jobs_of st = []" "queue (st_events st) = []" by fastforce+
  with r st(1,3) show ?thesis by auto
qed

end
