(* ===== verification/Session.thy ===== *)
theory Session
  imports Progress
begin

text \<open>
  What one stream promises its client, as a machine of its own: pages start, a page that was started is
  answered once or given up, and the stream ends with the counts of its answers, with an error, or
  because the client is gone.  The pipeline with all of its threads, queues, budgets and flags refines it.
\<close>

section \<open>The contract of a stream\<close>

text \<open>The page numbers without an answer, and the events so far.\<close>

datatype 'd session =
    Running "nat multiset" "'d event list"
  | Complete "'d event list"
  | Failed
  | Gone

inductive session_step :: "'d session \<Rightarrow> 'd session \<Rightarrow> bool" where
  started: "session_step (Running M es) (Running (add_mset n M) (es @ [EvStarted n]))"
| answered: "event_page e = Some n \<Longrightarrow> is_raw e \<or> is_document e \<Longrightarrow>
    session_step (Running (add_mset n M) es) (Running M (es @ [e]))"
| given_up: "session_step (Running (add_mset n M) es) (Running M es)"
| completed: "tally is_started es = tally is_document es + tally is_raw es \<Longrightarrow>
    session_step (Running {#} es)
      (Complete (es @ [EvComplete (tally is_started es) (tally is_document es) (tally is_raw es)]))"
| failed: "session_step (Running M es) Failed"
| gone: "session_step (Running M es) Gone"

inductive_cases session_stepE: "session_step a b"

section \<open>The session of a stream\<close>

definition open_pages :: "'d stream \<Rightarrow> nat multiset" where
  "open_pages st = mset (map (\<lambda>j. im_page_no (pj_image j)) (unanswered st))"

definition session_of :: "'d stream \<Rightarrow> 'd session" where
  "session_of st =
     (if st_gone st then Gone
      else case st_reader st of
        RReturned status \<Rightarrow> if fst status = StatusOK then Complete (st_out st) else Failed
      | _ \<Rightarrow> Running (open_pages st) (trace st))"

lemma session_running: "\<not> st_gone st \<Longrightarrow> \<not> returned (st_reader st) \<Longrightarrow> session_of st = Running (open_pages st) (trace st)"
  by (cases "st_reader st") (simp_all add: session_of_def)

definition page_nos :: "page_job list \<Rightarrow> nat multiset" where
  "page_nos js = mset (map (\<lambda>j. im_page_no (pj_image j)) js)"

lemma page_nos_simps [simp]: "page_nos [] = {#}" "page_nos (j # js) = add_mset (im_page_no (pj_image j)) (page_nos js)"
  "page_nos (js @ ks) = page_nos js + page_nos ks"
  by (simp_all add: page_nos_def)

lemma open_pages_nos: "open_pages st = page_nos (queued_job (st_reader st)) + page_nos (queue (st_jobs st))
    + page_nos (concat (map open_job (st_workers st)))"
  by (simp add: open_pages_def unanswered_def page_nos_def)

lemma open_pages_worker:
  assumes "k < length (st_workers st)" and "st_workers st' = (st_workers st)[k := w]" and "st_reader st' = st_reader st"
  shows "open_pages st' + page_nos (queue (st_jobs st)) + page_nos (open_job (st_workers st ! k))
    = open_pages st + page_nos (queue (st_jobs st')) + page_nos (open_job w)"
proof -
  have "page_nos (concat (map open_job ((st_workers st)[k := w]))) + page_nos (open_job (st_workers st ! k))
    = page_nos (concat (map open_job (st_workers st))) + page_nos (open_job w)"
    using arg_cong [OF mset_concat_update [OF assms(1), of open_job w], of "image_mset (\<lambda>j. im_page_no (pj_image j))"]
    by (simp add: page_nos_def)
  then show ?thesis by (simp add: open_pages_nos assms(2,3) ac_simps)
qed

section \<open>The simulation\<close>

lemma worker_session:
  assumes "\<not> returned (st_reader st)" and "worker_step mapper version cfg s k a st sh = Some (st', sh')"
  shows "session_step\<^sup>=\<^sup>= (session_of st) (session_of st')"
proof (cases "st_gone st")
  case True
  with assms(2) have "st_gone st'" by (cases rule: worker_step_elim) simp_all
  with True show ?thesis by (simp add: session_of_def)
next
  case False
  have r: "session_of st = Running (open_pages st) (trace st)" by (rule session_running [OF False assms(1)])
  have r': "session_of st' = Running (open_pages st') (trace st')"
  proof (rule session_running)
    show "\<not> st_gone st'" using assms(2) False by (cases rule: worker_step_elim) simp_all
    show "\<not> returned (st_reader st')" using assms(1) worker_frame [OF assms(2)] by simp
  qed
  have "session_step\<^sup>=\<^sup>= (Running (open_pages st) (trace st)) (Running (open_pages st') (trace st'))"
    using assms(2)
  proof (cases rule: worker_step_elim)
    case (popped j q)
    with open_pages_worker [OF popped(1), of st' "WLook j"] popped_queue [OF popped(3)] show ?thesis
      by (simp add: trace_def)
  next
    case (pushed j e)
    have f: "st_workers st' = (st_workers st)[k := WPushed j (is_raw e)]" "st_reader st' = st_reader st" "st_jobs st' = st_jobs st"
      "trace st' = trace st @ [e]"
      by (simp_all add: pushed(5) trace_def push_def)
    have "open_pages st = add_mset (im_page_no (pj_image j)) (open_pages st')"
      using open_pages_worker [OF pushed(1) f(1,2)] pushed(2) f(3) by simp
    with session_step.answered [OF pushed(3,4)] show ?thesis by (simp add: f(4))
  next
    case (skipped j)
    with open_pages_worker [OF skipped(1), of st' "WDropJob j"] show ?thesis
      by (simp add: trace_def) (metis session_step.given_up)
  next
    case (gave_up j L)
    with open_pages_worker [OF gave_up(1), of st' "WDropJob j"] show ?thesis
      by (simp add: trace_def) (metis session_step.given_up)
  next
    case (cut j)
    with open_pages_worker [OF cut(1), of st' "WDropSlot j"] show ?thesis
      by (simp add: trace_def) (metis session_step.given_up)
  next
    case (ended q)
    with open_pages_worker [OF ended(1), of st' WDone] show ?thesis by (simp add: trace_def)
  next
    case (entered j)
    with open_pages_worker [OF entered(1), of st' "WWait j"] show ?thesis by (simp add: trace_def)
  next
    case (granted j)
    with open_pages_worker [OF granted(1), of st' "WConvert j"] show ?thesis by (simp add: trace_def)
  next
    case (checked j raw)
    with open_pages_worker [OF checked(1), of st' "WDropSlot j"] show ?thesis by (simp add: trace_def)
  next
    case (slot_dropped j)
    with open_pages_worker [OF slot_dropped(1), of st' "WDropJob j"] show ?thesis by (simp add: trace_def)
  next
    case (job_dropped j)
    with open_pages_worker [OF job_dropped(1), of st' WIdle] show ?thesis by (simp add: trace_def)
  qed
  then show ?thesis by (simp add: r r')
qed

lemma writer_session:
  assumes "\<not> returned (st_reader st)" and "writer_step a st = Some st'"
  shows "session_step\<^sup>=\<^sup>= (session_of st) (session_of st')"
proof (cases "st_gone st")
  case True
  with assms(2) have "st_gone st'" by (cases rule: writer_step_elim) simp_all
  with True show ?thesis by (simp add: session_of_def)
next
  case False
  have r: "session_of st = Running (open_pages st) (trace st)" by (rule session_running [OF False assms(1)])
  from assms(2) show ?thesis
  proof (cases rule: writer_step_elim)
    case cancelled
    then have "session_of st' = Gone" by (simp add: session_of_def)
    with r session_step.gone show ?thesis by simp
  next
    case (refused e)
    then have "session_of st' = Gone" by (simp add: session_of_def)
    with r session_step.gone show ?thesis by simp
  next
    case (took e q)
    with False assms(1) have "session_of st' = Running (open_pages st') (trace st')" by (intro session_running) simp_all
    with r took popped_for_value [OF took(2)] show ?thesis by (simp add: open_pages_nos trace_def)
  next
    case (ended q)
    with False assms(1) have "session_of st' = Running (open_pages st') (trace st')" by (intro session_running) simp_all
    with r ended show ?thesis by (simp add: open_pages_nos trace_def)
  next
    case (wrote e)
    with False assms(1) have "session_of st' = Running (open_pages st') (trace st')" by (intro session_running) simp_all
    with r wrote show ?thesis by (simp add: open_pages_nos trace_def)
  qed
qed

text \<open>A stream that is about to end well has answered everything, and its trailer has the counts.\<close>

lemma finish_complete:
  assumes keep: "stream_keeps cfg st" and "st_workers st \<noteq> []" and r: "st_reader st = RFinish"
    and ok: "fst (finish_status c st) = StatusOK"
  shows "open_pages st = {#}" and "trace st = st_out st"
    and "st_started st = tally is_started (trace st)" and "st_ok st = tally is_document (trace st)"
    and "st_failed st = tally is_raw (trace st)" and "st_started st = st_ok st + st_failed st"
proof -
  note ok = ok [unfolded finish_status_ok]
  have w: "st_writer st = WrDone" "queue (st_events st) = []" "list_all (\<lambda>w. w = WDone) (st_workers st)"
    using keep r ok by (auto simp: stream_keeps_def winding_down_def)
  have "WDone \<in> set (st_workers st)" using w(3) assms(2) by (cases "st_workers st") auto
  then have "queue (st_jobs st) = []" using keep by (auto simp: stream_keeps_def winding_down_def)
  then have p: "pend p st = 0" for p using all_done_pend r w(3) by blast
  have "length (filter (\<lambda>_. True) (unanswered st)) = 0" using p [of "\<lambda>_. True"] by (simp only: pend_def)
  then have u: "unanswered st = []" by simp
  then show "open_pages st = {#}" by (simp add: open_pages_def)
  show "trace st = st_out st" using w(1,2) by (simp add: trace_def)
  have "\<not> st_halt st" using keep ok by (auto simp: stream_keeps_def accounted_def)
  with keep ok p show "st_started st = tally is_started (trace st)" "st_ok st = tally is_document (trace st)"
    "st_failed st = tally is_raw (trace st)" "st_started st = st_ok st + st_failed st"
    by (auto simp: stream_keeps_def accounted_def)
qed

lemma reader_session:
  assumes keep: "stream_keeps cfg st" and "st_workers st \<noteq> []" and step: "reader_step cfg s a st sh = Some (st', sh')"
  shows "session_step\<^sup>=\<^sup>= (session_of st) (session_of st')"
proof (cases "st_gone st")
  case True
  with step have "st_gone st'" by (cases rule: reader_step_elim) (auto dest!: finish_cases)
  with True show ?thesis by (simp add: session_of_def)
next
  case False
  have r: "session_of st = Running (open_pages st) (trace st)" by (rule session_running [OF False returned_still [OF step]])
  have r': "session_of st' = Running (open_pages st') (trace st')" if "\<not> returned (st_reader st')" "st_gone st' = st_gone st"
    using that False by (intro session_running) simp_all
  from step show ?thesis
  proof (cases rule: reader_step_elim)
    case (announced j)
    then have "open_pages st' = add_mset (im_page_no (pj_image j)) (open_pages st)" "trace st' = trace st @ [EvStarted (im_page_no (pj_image j))]"
      by (simp_all add: open_pages_nos trace_def push_def)
    with announced r r' session_step.started show ?thesis by simp
  next
    case (queued j)
    then have "open_pages st' = open_pages st" "trace st' = trace st" by (simp_all add: open_pages_nos trace_def push_def)
    with queued r r' show ?thesis by simp
  next
    case (finished c)
    note st' = finish_cases [OF finished(2)]
    show ?thesis
    proof (cases "fst (finish_status c st) = StatusOK")
      case True
      note f = finish_complete [OF keep assms(2) finished(1) True]
      have "session_of st' = Complete (trace st @ [EvComplete (tally is_started (trace st)) (tally is_document (trace st)) (tally is_raw (trace st))])"
        using st' True False f(2-5) by (simp add: session_of_def)
      moreover have "tally is_started (trace st) = tally is_document (trace st) + tally is_raw (trace st)" using f(3-6) by simp
      ultimately show ?thesis using r f(1) session_step.completed by fastforce
    next
      case bad: False
      with st' False have "session_of st' = Failed" by (simp add: session_of_def)
      with r session_step.failed show ?thesis by simp
    qed
  qed (use r r' in \<open>simp_all add: open_pages_nos trace_def close_def\<close>)
qed

section \<open>Properties\<close>

text \<open>
  C5: the pipeline implements the contract of a stream.  Every action of any thread is, for every stream, at
  most one step of the machine above: a page starts, a started page is answered once or given up, or
  the stream ends, with a trailer only when every page it started was answered and with exactly the
  counts of the events sent, with an error, or because its client is gone.
\<close>

theorem pipeline_refines_session:
  assumes "config_ok cfg" and "reachable mapper version cfg P" and "exec mapper version cfg s a P = Some P'"
    and "pr_streams P r = Some st"
  shows "\<exists>st'. pr_streams P' r = Some st' \<and> (session_of st' = session_of st \<or> session_step (session_of st) (session_of st'))"
proof (cases "r = s")
  case False
  then have "pr_streams P' r = pr_streams P r"
    using assms(3) by (auto simp: exec_def split: option.splits action.splits sum.splits)
  with assms(4) show ?thesis by simp
next
  case True
  have k: "stream_keeps cfg st" "st_workers st \<noteq> [] \<or> returned (st_reader st)"
    using reachable_keeps [OF assms(1,2)] assms(4) unfolding streams_keep_def by blast+
  have "\<exists>st'. pr_streams P' r = Some st' \<and> session_step\<^sup>=\<^sup>= (session_of st) (session_of st')"
  proof (cases a)
    case (Reader x)
    with True assms(3,4) obtain st' sh' where x: "reader_step cfg s x st (pr_shared P) = Some (st', sh')" "pr_streams P' r = Some st'"
      by (auto simp: exec_def)
    with reader_session [OF k(1) _ x(1)] returned_still [OF x(1)] k(2) show ?thesis by blast
  next
    case (Worker i w)
    with True assms(3,4) obtain st' sh' where x: "worker_step mapper version cfg s i w st (pr_shared P) = Some (st', sh')"
      "pr_streams P' r = Some st'" by (auto simp: exec_def)
    with worker_session [OF keeps_worker_running [OF k(1) x(1)] x(1)] show ?thesis by blast
  next
    case (Writer w)
    with True assms(3,4) obtain st' where x: "writer_step w st = Some st'" "pr_streams P' r = Some st'" by (auto simp: exec_def)
    have "st_writer st \<noteq> WrDone" using x(1) by (cases rule: writer_step_elim) simp_all
    with k(1) have "\<not> returned (st_reader st)" by (auto simp: stream_keeps_def winding_down_def)
    with writer_session [OF _ x(1)] x(2) show ?thesis by blast
  qed (use True assms(3,4) in \<open>simp add: exec_def\<close>)
  then show ?thesis by auto
qed

theorem pipeline_refines_session_witness:
  "\<exists>P P' st st'. reachable sample_mapper ''1'' key_config P
     \<and> exec sample_mapper ''1'' key_config 0 (Worker 0 (Converted (Threw ''boom''))) P = Some P'
     \<and> pr_streams P 0 = Some st \<and> pr_streams P' 0 = Some st'
     \<and> (session_of st' = session_of st \<or> session_step (session_of st) (session_of st'))"
proof -
  have "\<exists>P P' st. script sample_mapper ''1'' key_config one_page (new_process key_config) = Some P
     \<and> exec sample_mapper ''1'' key_config 0 (Worker 0 (Converted (Threw ''boom''))) P = Some P' \<and> pr_streams P 0 = Some st"
    by (simp add: one_page_def pipeline_run)
  then obtain P P' st where P: "script sample_mapper ''1'' key_config one_page (new_process key_config) = Some P"
    "exec sample_mapper ''1'' key_config 0 (Worker 0 (Converted (Threw ''boom''))) P = Some P'" "pr_streams P 0 = Some st" by blast
  have r: "reachable sample_mapper ''1'' key_config P" by (rule script_reachable [OF reachable.init P(1)])
  from pipeline_refines_session [OF key_config_ok r P(2,3)] r P(2,3) show ?thesis by blast
qed

end
