(* ===== verification/Http_Gateway.thy ===== *)
theory Http_Gateway
  imports Delivery Json
begin

text \<open>
  The HTTP front end (\<^verbatim>\<open>src/http_gateway.cpp\<close>): who may call it, how a JSON body becomes the
  messages of a stream, how the events of the stream become the answer, and the two
  handlers over the page pipeline.

  The HTTP library, nlohmann/json and protobuf's JSON mapping are arguments: \<open>parse\<close> and
  \<open>dump\<close> for JSON text, \<open>options_of\<close> and \<open>image_of\<close> for \<^verbatim>\<open>JsonStringToMessage\<close> (the message,
  or why not), \<open>to_json\<close> for \<^verbatim>\<open>MessageToJsonString\<close>.
\<close>

section \<open>Errors\<close>

definition status_code_name :: "status_code \<Rightarrow> string" where
  "status_code_name c =
     (case c of
        INVALID_ARGUMENT \<Rightarrow> ''INVALID_ARGUMENT''
      | FAILED_PRECONDITION \<Rightarrow> ''FAILED_PRECONDITION''
      | PERMISSION_DENIED \<Rightarrow> ''PERMISSION_DENIED''
      | UNAUTHENTICATED \<Rightarrow> ''UNAUTHENTICATED''
      | RESOURCE_EXHAUSTED \<Rightarrow> ''RESOURCE_EXHAUSTED''
      | UNIMPLEMENTED \<Rightarrow> ''UNIMPLEMENTED''
      | ABORTED \<Rightarrow> ''ABORTED''
      | CANCELLED \<Rightarrow> ''CANCELLED''
      | _ \<Rightarrow> ''INTERNAL'')"

definition http_status_for :: "status_code \<Rightarrow> nat" where
  "http_status_for c =
     (case c of
        INVALID_ARGUMENT \<Rightarrow> 400
      | UNAUTHENTICATED \<Rightarrow> 401
      | PERMISSION_DENIED \<Rightarrow> 403
      | RESOURCE_EXHAUSTED \<Rightarrow> 413
      | UNIMPLEMENTED \<Rightarrow> 501
      | _ \<Rightarrow> 500)"

definition error_json :: "(json \<Rightarrow> string) \<Rightarrow> status_code \<Rightarrow> string \<Rightarrow> string" where
  "error_json dump c message =
     dump (JObject [(''code'', JString (status_code_name c)), (''message'', JString message)])"

section \<open>Who may call\<close>

record http_request =
  hr_method :: string
  hr_path :: string
  hr_authorization :: string
  hr_body :: string

record http_response =
  hp_status :: nat
  hp_headers :: "(string \<times> string) list"
  hp_type :: string
  hp_body :: string

definition kBearer :: string where
  "kBearer = ''Bearer ''"

definition bearer_matches :: "http_request \<Rightarrow> secret \<Rightarrow> bool" where
  "bearer_matches req token \<longleftrightarrow>
     starts_with (hr_authorization req) kBearer
     \<and> secret_matches token (drop (length kBearer) (hr_authorization req))"

definition quoted_error :: "string \<Rightarrow> string" where
  "quoted_error err = ''{'' @ [CHR 0x22] @ ''error'' @ [CHR 0x22] @ '':'' @ err @ ''}''"

definition quoted_no_events :: "string \<Rightarrow> string" where
  "quoted_no_events err =
     ''{'' @ [CHR 0x22] @ ''events'' @ [CHR 0x22] @ '':[],'' @ [CHR 0x22] @ ''error'' @ [CHR 0x22]
       @ '':'' @ err @ ''}''"

definition unauthenticated :: "(json \<Rightarrow> string) \<Rightarrow> http_request \<Rightarrow> http_response" where
  "unauthenticated dump req =
     (let err = error_json dump UNAUTHENTICATED
                  ''missing or wrong bearer token (Authorization: Bearer <token>)''
      in \<lparr>hp_status = 401, hp_headers = [(''WWW-Authenticate'', ''Bearer''), (''Connection'', ''close'')],
          hp_type = ''application/json'',
          hp_body = (if hr_path req = ''/v1/convert'' then quoted_no_events err else quoted_error err)\<rparr>)"

text \<open>The pre-routing handler, installed only when a token is configured.\<close>

definition pre_routing :: "(json \<Rightarrow> string) \<Rightarrow> config \<Rightarrow> http_request \<Rightarrow> http_response option" where
  "pre_routing dump cfg req =
     (if secret_empty (http_token cfg) then None
      else if hr_path req = ''/healthz'' \<or> bearer_matches req (http_token cfg) then None
      else Some (unauthenticated dump req))"

datatype route = Healthz | Convert | ConvertStream | NoRoute

definition route_of :: "http_request \<Rightarrow> route" where
  "route_of req =
     (if hr_method req = ''GET'' \<and> hr_path req = ''/healthz'' then Healthz
      else if hr_method req = ''POST'' \<and> hr_path req = ''/v1/convert'' then Convert
      else if hr_method req = ''POST'' \<and> hr_path req = ''/v1/convert/stream'' then ConvertStream
      else NoRoute)"

definition gateway_route :: "(json \<Rightarrow> string) \<Rightarrow> config \<Rightarrow> http_request \<Rightarrow> http_response + route" where
  "gateway_route dump cfg req =
     (case pre_routing dump cfg req of Some resp \<Rightarrow> Inl resp | None \<Rightarrow> Inr (route_of req))"

definition healthz :: http_response where
  "healthz = \<lparr>hp_status = 200, hp_headers = [], hp_type = ''text/plain'', hp_body = ''ok''\<rparr>"

section \<open>The body\<close>

fun parse_pages ::
  "(json \<Rightarrow> string) \<Rightarrow> (string \<Rightarrow> string + page_image) \<Rightarrow> nat \<Rightarrow> json list
     \<Rightarrow> string + convert_request list" where
  "parse_pages dump image_of index [] = Inr []"
| "parse_pages dump image_of index (element # rest) =
     (case image_of (dump element) of
        Inl message \<Rightarrow> Inl (''pages['' @ show_nat index @ '']: '' @ message)
      | Inr img \<Rightarrow> and_then (parse_pages dump image_of (index + 1) rest) (\<lambda>next. Inr (ReqPage img # next)))"

definition parse_convert_body ::
  "(string \<Rightarrow> json option) \<Rightarrow> (json \<Rightarrow> string) \<Rightarrow> (string \<Rightarrow> string + convert_options)
     \<Rightarrow> (string \<Rightarrow> string + page_image) \<Rightarrow> string \<Rightarrow> string + convert_request list" where
  "parse_convert_body parse dump options_of image_of body =
     (case parse body of
        None \<Rightarrow> Inl ''request body must be a JSON object''
      | Some envelope \<Rightarrow>
          if \<not> is_jobject envelope then Inl ''request body must be a JSON object''
          else
            and_then
              (case jfind ''options'' envelope of
                 None \<Rightarrow> Inr ReqNothing
               | Some j \<Rightarrow>
                   (case options_of (dump j) of
                      Inl message \<Rightarrow> Inl (''options: '' @ message)
                    | Inr opts \<Rightarrow> Inr (ReqOptions opts)))
              (\<lambda>first.
                 case jfind ''pages'' envelope of
                   None \<Rightarrow> Inr [first]
                 | Some (JArray pages) \<Rightarrow>
                     and_then (parse_pages dump image_of 0 pages) (\<lambda>next. Inr (first # next))
                 | Some _ \<Rightarrow> Inl ''pages must be an array''))"

section \<open>Driving the pipeline\<close>

text \<open>
  \<^verbatim>\<open>run_pipeline\<close>: the process with the stream of this request among its streams, the
  messages not handed over yet, and what the transport keeps (\<open>'w\<close>).  A read hands over the
  next message, or the end; a write is what \<open>write\<close> makes of the event; every other step is
  the pipeline's own, as is every step of another stream.
\<close>

record ('d, 'w) gateway =
  gw_process :: "'d process"
  gw_requests :: "convert_request list"
  gw_sink :: 'w

fun next_request :: "convert_request list \<Rightarrow> convert_request option" where
  "next_request [] = None"
| "next_request (r # rs) = Some r"

definition trailer_write ::
  "('d event \<Rightarrow> 'w \<Rightarrow> bool \<times> 'w) \<Rightarrow> bool \<Rightarrow> 'd stream \<Rightarrow> 'w \<Rightarrow> 'w" where
  "trailer_write write cancelled st w =
     (if fst (finish_status cancelled st) = StatusOK
      then snd (write (EvComplete (st_started st) (st_ok st) (st_failed st)) w) else w)"

definition run_pipeline ::
  "('d event \<Rightarrow> 'w \<Rightarrow> bool \<times> 'w) \<Rightarrow> 'd mapper \<Rightarrow> string \<Rightarrow> config \<Rightarrow> nat \<Rightarrow> nat \<Rightarrow> action
     \<Rightarrow> ('d, 'w) gateway \<Rightarrow> ('d, 'w) gateway option" where
  "run_pipeline write mapper version cfg mine s a gw =
     (case exec mapper version cfg s a (gw_process gw) of
        None \<Rightarrow> None
      | Some P \<Rightarrow>
          if s \<noteq> mine then Some (gw\<lparr>gw_process := P\<rparr>)
          else case (pr_streams (gw_process gw) s, a) of
            (None, Open m) \<Rightarrow>
              if m = next_request (gw_requests gw)
              then Some (gw\<lparr>gw_process := P, gw_requests := tl (gw_requests gw)\<rparr>) else None
          | (Some st, Reader (Read m)) \<Rightarrow>
              if m = next_request (gw_requests gw)
              then Some (gw\<lparr>gw_process := P, gw_requests := tl (gw_requests gw)\<rparr>) else None
          | (Some st, Reader (Finish cancelled)) \<Rightarrow>
              Some (gw\<lparr>gw_process := P, gw_sink := trailer_write write cancelled st (gw_sink gw)\<rparr>)
          | (Some st, Writer (Write taken)) \<Rightarrow>
              (case st_writer st of
                 WrWrite e \<Rightarrow>
                   (case write e (gw_sink gw) of
                      (t, w) \<Rightarrow>
                        if taken = t then Some (gw\<lparr>gw_process := P, gw_sink := w\<rparr>) else None)
               | _ \<Rightarrow> None)
          | _ \<Rightarrow> Some (gw\<lparr>gw_process := P\<rparr>))"

text \<open>Everything that can come of a request handed to the pipeline in state \<open>P0\<close>.\<close>

inductive served ::
  "('d event \<Rightarrow> 'w \<Rightarrow> bool \<times> 'w) \<Rightarrow> 'd mapper \<Rightarrow> string \<Rightarrow> config \<Rightarrow> nat \<Rightarrow> 'd process
     \<Rightarrow> convert_request list \<Rightarrow> 'w \<Rightarrow> ('d, 'w) gateway \<Rightarrow> bool"
  for "write" mapper version cfg mine P0 requests w0 where
  serve_init: "served write mapper version cfg mine P0 requests w0
     \<lparr>gw_process = P0, gw_requests = requests, gw_sink = w0\<rparr>"
| serve_step: "served write mapper version cfg mine P0 requests w0 gw \<Longrightarrow>
     run_pipeline write mapper version cfg mine s a gw = Some gw' \<Longrightarrow>
     served write mapper version cfg mine P0 requests w0 gw'"

section \<open>One answer for the whole stream\<close>

record collected =
  co_events :: "string list"
  co_serialize_failed :: bool

definition collect_write ::
  "('d event \<Rightarrow> string option) \<Rightarrow> 'd event \<Rightarrow> collected \<Rightarrow> bool \<times> collected" where
  "collect_write to_json e c =
     (case to_json e of
        None \<Rightarrow> (False, c\<lparr>co_serialize_failed := True\<rparr>)
      | Some text \<Rightarrow> (True, c\<lparr>co_events := co_events c @ [text]\<rparr>))"

definition convert_status :: "collected \<Rightarrow> status \<Rightarrow> status" where
  "convert_status c status =
     (if co_serialize_failed c \<and> fst status = StatusOK
      then (INTERNAL, ''event JSON serialization failed'') else status)"

fun joined_events :: "nat \<Rightarrow> string list \<Rightarrow> string" where
  "joined_events i [] = []"
| "joined_events i (e # es) = (if 0 < i then '','' else []) @ e @ joined_events (i + 1) es"

definition events_json :: "string list \<Rightarrow> string" where
  "events_json es = ''{'' @ [CHR 0x22] @ ''events'' @ [CHR 0x22] @ '':['' @ joined_events 0 es @ '']''"

definition convert_answer :: "(json \<Rightarrow> string) \<Rightarrow> collected \<Rightarrow> status \<Rightarrow> http_response" where
  "convert_answer dump c status0 =
     (let status = convert_status c status0; ok = (fst status = StatusOK)
      in \<lparr>hp_status = (if ok then 200 else http_status_for (fst status)), hp_headers = [],
          hp_type = ''application/json'',
          hp_body = events_json (co_events c)
            @ (if ok then []
               else '','' @ [CHR 0x22] @ ''error'' @ [CHR 0x22] @ '':''
                      @ error_json dump (fst status) (snd status))
            @ ''}''\<rparr>)"

text \<open>
  \<open>run\<close> stands for the run of the pipeline over the messages, from its start with nothing
  collected to its status: one of those \<open>served\<close> describes.
\<close>

definition handle_convert ::
  "(string \<Rightarrow> json option) \<Rightarrow> (json \<Rightarrow> string) \<Rightarrow> (string \<Rightarrow> string + convert_options)
     \<Rightarrow> (string \<Rightarrow> string + page_image) \<Rightarrow> (convert_request list \<Rightarrow> collected \<Rightarrow> status \<times> collected)
     \<Rightarrow> http_request \<Rightarrow> http_response" where
  "handle_convert parse dump options_of image_of run req =
     (case parse_convert_body parse dump options_of image_of (hr_body req) of
        Inl err \<Rightarrow>
          \<lparr>hp_status = 400, hp_headers = [], hp_type = ''application/json'',
           hp_body = quoted_no_events (error_json dump INVALID_ARGUMENT err)\<rparr>
      | Inr requests \<Rightarrow>
          (case run requests \<lparr>co_events = [], co_serialize_failed = False\<rparr> of
             (status, c) \<Rightarrow> convert_answer dump c status))"

section \<open>An answer that grows\<close>

text \<open>
  The data sink of a chunked answer: what it has taken, and whether it takes each of the
  writes still to come (it takes none past the end of the list).
\<close>

record sink =
  sk_body :: string
  sk_takes :: "bool list"

definition sink_write :: "string \<Rightarrow> sink \<Rightarrow> bool \<times> sink" where
  "sink_write data k =
     (case sk_takes k of
        [] \<Rightarrow> (False, k)
      | t # ts \<Rightarrow> (t, k\<lparr>sk_body := (if t then sk_body k @ data else sk_body k), sk_takes := ts\<rparr>))"

definition newline :: string where
  "newline = [CHR 0x0A]"

definition write_line :: "string \<Rightarrow> sink \<Rightarrow> bool \<times> sink" where
  "write_line text k =
     (case sink_write text k of (t, k') \<Rightarrow> if t then sink_write newline k' else (False, k'))"

definition stream_write :: "('d event \<Rightarrow> string option) \<Rightarrow> 'd event \<Rightarrow> sink \<Rightarrow> bool \<times> sink" where
  "stream_write to_json e k =
     (case to_json e of None \<Rightarrow> (False, k) | Some text \<Rightarrow> write_line text k)"

definition stream_end :: "(json \<Rightarrow> string) \<Rightarrow> status \<Rightarrow> sink \<Rightarrow> sink" where
  "stream_end dump status k =
     (if fst status = StatusOK then k
      else snd (write_line (quoted_error (error_json dump (fst status) (snd status))) k))"

definition handle_convert_stream ::
  "(string \<Rightarrow> json option) \<Rightarrow> (json \<Rightarrow> string) \<Rightarrow> (string \<Rightarrow> string + convert_options)
     \<Rightarrow> (string \<Rightarrow> string + page_image) \<Rightarrow> (convert_request list \<Rightarrow> sink \<Rightarrow> status \<times> sink)
     \<Rightarrow> http_request \<Rightarrow> bool list \<Rightarrow> http_response" where
  "handle_convert_stream parse dump options_of image_of run req takes =
     (case parse_convert_body parse dump options_of image_of (hr_body req) of
        Inl err \<Rightarrow>
          \<lparr>hp_status = 400, hp_headers = [], hp_type = ''application/json'',
           hp_body = quoted_error (error_json dump INVALID_ARGUMENT err)\<rparr>
      | Inr requests \<Rightarrow>
          (case run requests \<lparr>sk_body = [], sk_takes = takes\<rparr> of
             (status, k) \<Rightarrow>
               \<lparr>hp_status = 200, hp_headers = [], hp_type = ''application/x-ndjson'',
                hp_body = sk_body (stream_end dump status k)\<rparr>))"

section \<open>A step of the gateway\<close>

lemma run_pipeline_exec:
  "run_pipeline write mapper version cfg mine s a gw = Some gw' \<Longrightarrow>
     exec mapper version cfg s a (gw_process gw) = Some (gw_process gw')"
  by (auto simp: run_pipeline_def split: option.splits action.splits reader_action.splits
      writer_action.splits writer.splits prod.splits if_splits)

lemma run_pipeline_other:
  assumes "run_pipeline write mapper version cfg mine s a gw = Some gw'" and "s \<noteq> mine"
  shows "gw_requests gw' = gw_requests gw \<and> gw_sink gw' = gw_sink gw
    \<and> pr_streams (gw_process gw') mine = pr_streams (gw_process gw) mine"
  using assms
  by (auto simp: run_pipeline_def exec_def split: option.splits action.splits sum.splits)

lemma served_reachable:
  assumes "served write mapper version cfg mine P0 requests w0 gw" and "reachable mapper version cfg P0"
  shows "reachable mapper version cfg (gw_process gw)"
  using assms by induction (auto intro: reachable.step run_pipeline_exec)

lemma run_pipeline_elim:
  assumes "run_pipeline write mapper version cfg mine mine a gw = Some gw'"
  obtains (refused) req status where "pr_streams (gw_process gw) mine = None"
      "req = next_request (gw_requests gw)" "first_message cfg req = Inl status"
      "pr_streams (gw_process gw') mine = Some (refused_stream cfg status)"
      "gw_sink gw' = gw_sink gw"
  | (opened) req plan where "pr_streams (gw_process gw) mine = None"
      "req = next_request (gw_requests gw)" "first_message cfg req = Inr plan"
      "pr_streams (gw_process gw') mine = Some (new_stream cfg plan)"
      "gw_sink gw' = gw_sink gw" "gw_requests gw' = tl (gw_requests gw)"
  | (reader) st st' sh r where "pr_streams (gw_process gw) mine = Some st" "a = Reader r"
      "reader_step cfg mine r st (pr_shared (gw_process gw)) = Some (st', sh)"
      "pr_streams (gw_process gw') mine = Some st'"
      "(\<exists>m. r = Read m \<and> m = next_request (gw_requests gw) \<and> gw_requests gw' = tl (gw_requests gw))
         \<or> (\<forall>m. r \<noteq> Read m) \<and> gw_requests gw' = gw_requests gw"
      "gw_sink gw' = (case r of Finish c \<Rightarrow> trailer_write write c st (gw_sink gw) | _ \<Rightarrow> gw_sink gw)"
  | (worker) st st' sh sh' k w where "pr_streams (gw_process gw) mine = Some st"
      "worker_step mapper version cfg mine k w st sh = Some (st', sh')"
      "pr_streams (gw_process gw') mine = Some st'"
      "gw_requests gw' = gw_requests gw" "gw_sink gw' = gw_sink gw"
  | (written) st e t where "pr_streams (gw_process gw) mine = Some st" "st_writer st = WrWrite e"
      "write e (gw_sink gw) = (t, gw_sink gw')" "gw_requests gw' = gw_requests gw"
      "pr_streams (gw_process gw') mine = Some
         (if t then st\<lparr>st_out := st_out st @ [e], st_writer := WrLoop\<rparr>
          else st\<lparr>st_gone := True, st_halt := True, st_writer := WrDone\<rparr>)"
  | (writer) st st' w where "pr_streams (gw_process gw) mine = Some st" "writer_step w st = Some st'"
      "\<forall>e. st_writer st \<noteq> WrWrite e" "pr_streams (gw_process gw') mine = Some st'"
      "gw_requests gw' = gw_requests gw" "gw_sink gw' = gw_sink gw"
proof -
  obtain P where P: "exec mapper version cfg mine a (gw_process gw) = Some P" "gw_process gw' = P"
    using run_pipeline_exec [OF assms] by blast
  note run = assms [unfolded run_pipeline_def P(1)]
  show ?thesis
  proof (cases "pr_streams (gw_process gw) mine")
    case None
    with P obtain req where "a = Open req" by (auto simp: exec_def split: action.splits)
    with None P run refused opened show ?thesis
      by (auto simp: exec_def split: sum.splits if_splits)
  next
    case (Some st)
    show ?thesis
    proof (cases a)
      case (Reader r)
      with Some P(1) obtain st' sh where step:
        "reader_step cfg mine r st (pr_shared (gw_process gw)) = Some (st', sh)"
        "pr_streams (gw_process gw') mine = Some st'" unfolding P(2) by (auto simp: exec_def)
      have "((\<exists>m. r = Read m \<and> m = next_request (gw_requests gw) \<and> gw_requests gw' = tl (gw_requests gw))
         \<or> (\<forall>m. r \<noteq> Read m) \<and> gw_requests gw' = gw_requests gw)
         \<and> gw_sink gw' = (case r of Finish c \<Rightarrow> trailer_write write c st (gw_sink gw) | _ \<Rightarrow> gw_sink gw)"
        using run Reader Some by (cases r) (auto split: if_splits)
      with reader [OF Some Reader step] show ?thesis by blast
    next
      case (Worker k w)
      with Some P(1) obtain st' sh where step:
        "worker_step mapper version cfg mine k w st (pr_shared (gw_process gw)) = Some (st', sh)"
        "pr_streams (gw_process gw') mine = Some st'" unfolding P(2) by (auto simp: exec_def)
      with worker [OF Some step] run Worker Some show ?thesis by auto
    next
      case (Writer w)
      show ?thesis
      proof (cases "st_writer st")
        case (WrWrite e)
        then obtain t where "w = Write t" using Writer Some P
          by (auto simp: exec_def writer_step_def split: writer_action.splits)
        with WrWrite Writer Some run obtain t' where t: "write e (gw_sink gw) = (t', gw_sink gw')"
          "t' = t" "gw_requests gw' = gw_requests gw"
          by (auto split: prod.splits if_splits)
        moreover have "pr_streams (gw_process gw') mine = Some
           (if t then st\<lparr>st_out := st_out st @ [e], st_writer := WrLoop\<rparr>
            else st\<lparr>st_gone := True, st_halt := True, st_writer := WrDone\<rparr>)"
          using P(1) \<open>w = Write t\<close> WrWrite Writer Some unfolding P(2)
          by (auto simp: exec_def writer_step_def)
        ultimately show ?thesis using written [OF Some WrWrite] by blast
      next
        case WrLoop
        from Writer Some P(1) obtain st' where step: "writer_step w st = Some st'"
          "pr_streams (gw_process gw') mine = Some st'" unfolding P(2) by (auto simp: exec_def)
        moreover have "\<forall>t. w \<noteq> Write t" using step(1) WrLoop by (auto simp: writer_step_def)
        ultimately show ?thesis
          using WrLoop run Writer Some writer [OF Some step(1) _ step(2)]
          by (auto split: writer_action.splits)
      next
        case WrDone
        with Writer Some P show ?thesis by (auto simp: exec_def writer_step_def split: writer_action.splits)
      qed
    qed (use Some P in \<open>simp add: exec_def\<close>)
  qed
qed

section \<open>Every page of the body\<close>

fun is_page :: "convert_request \<Rightarrow> bool" where
  "is_page (ReqPage _) = True"
| "is_page _ = False"

definition pages_in :: "convert_request list \<Rightarrow> nat" where
  "pages_in rs = length (filter is_page rs)"

fun reading :: "reader \<Rightarrow> bool" where
  "reading RCheck = True"
| "reading RRead = True"
| "reading r = (reader_job r \<noteq> [])"

fun page_in_hand :: "reader \<Rightarrow> nat" where
  "page_in_hand (RQueue j) = 0"
| "page_in_hand r = length (reader_job r)"

definition pages_kept :: "convert_request list \<Rightarrow> ('d, 'w) gateway \<Rightarrow> 'd stream \<Rightarrow> bool" where
  "pages_kept requests gw st \<longleftrightarrow>
     (if reading (st_reader st)
      then st_started st + page_in_hand (st_reader st) + pages_in (gw_requests gw) = pages_in requests
      else st_halt st \<or> fst (st_status st) \<noteq> StatusOK \<or> st_started st = pages_in requests)"

lemma pages_in_next: "pages_in rs = (case next_request rs of Some r \<Rightarrow> if is_page r then 1 else 0 | None \<Rightarrow> 0) + pages_in (tl rs)"
  by (cases rs) (simp_all add: pages_in_def)

lemma pages_kept_reader:
  assumes "pages_kept requests gw st" and "reader_step cfg s r st sh = Some (st', sh')"
    and "(\<exists>m. r = Read m \<and> m = next_request (gw_requests gw) \<and> gw_requests gw' = tl (gw_requests gw))
       \<or> (\<forall>m. r \<noteq> Read m) \<and> gw_requests gw' = gw_requests gw"
  shows "pages_kept requests gw' st'"
proof (cases "\<exists>m. r = Read m")
  case True
  then obtain m where r: "r = Read m" "m = next_request (gw_requests gw)" "gw_requests gw' = tl (gw_requests gw)"
    using assms(3) by auto
  with assms(2) have rr: "st_reader st = RRead" by (auto split: reader.splits)
  note n = pages_in_next [of "gw_requests gw"]
  show ?thesis
  proof (cases m)
    case None
    with r(2) have "gw_requests gw = []" by (cases "gw_requests gw") auto
    with None r rr assms(1,2) show ?thesis by (auto simp: pages_kept_def pages_in_def)
  next
    case (Some req)
    show ?thesis
    proof (cases "read_message cfg (st_started st) req")
      case (Refuse status)
      with Some r rr assms(2) read_message_refuses [OF Refuse] show ?thesis
        by (auto simp: pages_kept_def reader_read_def)
    next
      case Ignore
      then have "\<not> is_page req" by (auto simp: read_message_def split: convert_request.splits if_splits)
      with Ignore Some r rr n assms(1,2) show ?thesis by (auto simp: pages_kept_def reader_read_def)
    next
      case (Admit img)
      then have "is_page req" by (auto simp: read_message_def split: convert_request.splits if_splits)
      with Admit Some r rr n assms(1,2) show ?thesis by (auto simp: pages_kept_def reader_read_def Let_def)
    qed
  qed
next
  case False
  with assms(3) have q: "gw_requests gw' = gw_requests gw" by blast
  from assms(2) show ?thesis
  proof (cases rule: reader_step_elim)
    case (left_stream j L)
    then have "st_halt st" using ledger_poll_other [OF left_stream(2)] by simp
    with left_stream q assms(1) show ?thesis by (simp add: pages_kept_def)
  next
    case (left_process j L)
    have "st_reader st' = RExit" using left_process(2) by simp
    then have "st_halt st"
      using False assms(2) left_process(1)
      by (cases r) (auto split: prod.splits poll_result.splits dest: ledger_poll_other)
    with left_process q assms(1) show ?thesis by (simp add: pages_kept_def)
  next
    case (finished c)
    with q assms(1) finish_cases [OF finished(2)] show ?thesis by (simp add: pages_kept_def)
  next
    case half_close
    with False assms(2) show ?thesis by (cases r) (auto split: if_splits)
  next
    case (refused saw status)
    with False assms(2) show ?thesis by (cases r) (auto split: if_splits)
  next
    case ignored
    with False assms(2) show ?thesis by (cases r) (auto split: if_splits)
  next
    case (admitted j L)
    with False assms(2) show ?thesis by (cases r) (auto split: if_splits)
  qed (use q assms(1) in \<open>auto simp: pages_kept_def\<close>)
qed

lemma pages_kept_worker:
  assumes "pages_kept requests gw st" and "worker_step mapper version cfg s k a st sh = Some (st', sh')"
    and "gw_requests gw' = gw_requests gw"
  shows "pages_kept requests gw' st'"
  using assms(2) by (cases rule: worker_step_elim) (use assms(1,3) in \<open>auto simp: pages_kept_def\<close>)

lemma pages_kept_writer:
  assumes "pages_kept requests gw st" and "writer_step a st = Some st'"
    and "gw_requests gw' = gw_requests gw"
  shows "pages_kept requests gw' st'"
  using assms(2) by (cases rule: writer_step_elim) (use assms(1,3) in \<open>auto simp: pages_kept_def\<close>)

lemma served_pages:
  assumes "served write mapper version cfg mine P0 requests w0 gw" and "pr_streams P0 mine = None"
  shows "case pr_streams (gw_process gw) mine of
      None \<Rightarrow> gw_requests gw = requests | Some st \<Rightarrow> pages_kept requests gw st"
  using assms
proof induction
  case serve_init
  then show ?case by simp
next
  case (serve_step gw s a gw')
  note ih = serve_step.IH [OF serve_step.prems]
  show ?case
  proof (cases "s = mine")
    case False
    with run_pipeline_other [OF serve_step.hyps(2)] ih show ?thesis
      by (auto simp: pages_kept_def split: option.splits)
  next
    case True
    from serve_step.hyps(2) [unfolded True] show ?thesis
    proof (cases rule: run_pipeline_elim)
      case (refused req status)
      with first_message_refuses [OF refused(3)] show ?thesis
        by (simp add: pages_kept_def refused_stream_def)
    next
      case (opened req plan)
      then obtain opts where "next_request (gw_requests gw) = Some (ReqOptions opts)"
        by (auto simp: first_message_def split: option.splits convert_request.splits)
      with opened(1,4,6) ih pages_in_next [of requests] show ?thesis
        by (simp add: pages_kept_def new_stream_def)
    next
      case (reader st st' sh r)
      with ih pages_kept_reader [OF _ reader(3,5)] show ?thesis by simp
    next
      case (worker st st' sh sh' k w)
      with ih pages_kept_worker [OF _ worker(2,4)] show ?thesis by simp
    next
      case (written st e t)
      with ih show ?thesis by (auto simp: pages_kept_def split: if_splits)
    next
      case (writer st st' w)
      with ih pages_kept_writer [OF _ writer(2,5)] show ?thesis by simp
    qed
  qed
qed

section \<open>What a transport shows\<close>

text \<open>
  What the pipeline relies on of a transport: a write it takes appends the event, rendered
  and framed, to what it has shown; a write it refuses leaves at most a \<open>torn\<close> piece of the
  event behind, and marks the transport as \<open>broken\<close> (a transport that keeps no such mark
  counts as broken throughout).
\<close>

definition rendered :: "('d event \<Rightarrow> string option) \<Rightarrow> (string \<Rightarrow> 'a list) \<Rightarrow> 'd event list \<Rightarrow> 'a list" where
  "rendered ser frame es = concat (map (\<lambda>e. frame (the (ser e))) es)"

definition scrap :: "('d event \<Rightarrow> string option) \<Rightarrow> (string \<Rightarrow> 'a list) \<Rightarrow> 'a list \<Rightarrow> bool" where
  "scrap ser torn p \<longleftrightarrow> p = [] \<or> (\<exists>e. ser e \<noteq> None \<and> p = torn (the (ser e)))"

lemma scrap_Nil [simp]: "scrap ser torn []"
  by (simp add: scrap_def)

lemma scrap_torn [simp]: "ser e = Some t \<Longrightarrow> scrap ser torn (torn t)"
  unfolding scrap_def by (metis option.distinct(1) option.sel)

locale transport =
  fixes "write" :: "'d event \<Rightarrow> 'w \<Rightarrow> bool \<times> 'w"
    and ser :: "'d event \<Rightarrow> string option"
    and shown :: "'w \<Rightarrow> 'a list"
    and frame :: "string \<Rightarrow> 'a list"
    and torn :: "string \<Rightarrow> 'a list"
    and broken :: "'w \<Rightarrow> bool"
  assumes taken: "write e w = (True, w') \<Longrightarrow>
      ser e \<noteq> None \<and> shown w' = shown w @ frame (the (ser e)) \<and> broken w' = broken w"
    and refused: "write e w = (False, w') \<Longrightarrow> broken w' \<and> (\<exists>p. shown w' = shown w @ p \<and> (p = [] \<or> ser e \<noteq> None \<and> p = torn (the (ser e))))"
begin

definition shows_stream :: "'d stream \<Rightarrow> 'w \<Rightarrow> bool" where
  "shows_stream st w \<longleftrightarrow>
     (\<exists>es p. st_out st = es @ (if returned (st_reader st) \<and> es \<noteq> st_out st
            then [EvComplete (st_started st) (st_ok st) (st_failed st)] else [])
        \<and> (\<forall>e \<in> set es. ser e \<noteq> None) \<and> shown w = rendered ser frame es @ p \<and> scrap ser torn p
        \<and> (es = st_out st \<or> (\<exists>message. st_reader st = RReturned (StatusOK, message)))
        \<and> (es = st_out st \<and> \<not> st_gone st \<longrightarrow> p = [])
        \<and> (es = st_out st \<and> p = [] \<or> broken w))"

lemma shows_running:
  "\<not> returned (st_reader st) \<Longrightarrow> shows_stream st w \<longleftrightarrow>
     (\<forall>e \<in> set (st_out st). ser e \<noteq> None)
     \<and> (\<exists>p. shown w = rendered ser frame (st_out st) @ p \<and> scrap ser torn p \<and> (\<not> st_gone st \<longrightarrow> p = [])
          \<and> (p = [] \<or> broken w))"
  by (auto simp: shows_stream_def)

lemma shows_same:
  "shows_stream st w \<Longrightarrow> \<not> returned (st_reader st) \<Longrightarrow> \<not> returned (st_reader st') \<Longrightarrow>
     st_out st' = st_out st \<Longrightarrow> (st_gone st \<Longrightarrow> st_gone st') \<Longrightarrow> shows_stream st' w"
  by (auto simp: shows_running)

lemma shows_written:
  assumes "shows_stream st w" and "\<not> returned (st_reader st)" and "\<not> st_gone st"
    and "write e w = (t, w')"
  shows "shows_stream (if t then st\<lparr>st_out := st_out st @ [e], st_writer := WrLoop\<rparr>
     else st\<lparr>st_gone := True, st_halt := True, st_writer := WrDone\<rparr>) w'"
proof -
  have s: "\<forall>e \<in> set (st_out st). ser e \<noteq> None" "shown w = rendered ser frame (st_out st)"
    using assms(1-3) by (auto simp: shows_running)
  show ?thesis
  proof (cases t)
    case True
    with s assms(2) taken [of e w w'] assms(4) show ?thesis
      by (auto simp: shows_running rendered_def)
  next
    case False
    with s assms(2) refused [of e w w'] assms(4) show ?thesis
      by (auto simp: shows_running)
  qed
qed

lemma shows_finished:
  assumes "shows_stream st w" and "\<not> returned (st_reader st)" and "reader_finish c st sh = (st', sh')"
  shows "shows_stream st' (trailer_write write c st w)"
proof (cases "fst (finish_status c st) = StatusOK")
  case False
  with assms finish_cases [OF assms(3)] show ?thesis
    by (auto simp: shows_stream_def trailer_write_def)
next
  case True
  let ?e = "EvComplete (st_started st) (st_ok st) (st_failed st)"
  have g: "\<not> st_gone st" using True by (simp add: finish_status_ok)
  have s: "\<forall>e \<in> set (st_out st). ser e \<noteq> None" "shown w = rendered ser frame (st_out st)"
    using assms(1,2) g by (auto simp: shows_running)
  have f: "st_out st' = st_out st @ [?e]" "st_gone st' = st_gone st" "returned (st_reader st')"
    "st_started st' = st_started st" "st_ok st' = st_ok st" "st_failed st' = st_failed st"
    using finish_cases [OF assms(3)] True by simp_all
  have ended: "\<exists>message. st_reader st' = RReturned (StatusOK, message)"
    using finish_cases [OF assms(3)] True by (cases "finish_status c st") simp
  obtain t w' where wr: "write ?e w = (t, w')" by fastforce
  then have w: "trailer_write write c st w = w'" using True by (simp add: trailer_write_def)
  show ?thesis
  proof (cases t)
    case True
    with taken [of ?e w w'] wr s f show ?thesis
      unfolding shows_stream_def w by (intro exI [of _ "st_out st'"] exI [of _ "[]"]) (auto simp: rendered_def)
  next
    case False
    with refused [of ?e w w'] wr obtain p where "shown w' = shown w @ p" "broken w'" "scrap ser torn p"
      by (auto simp: scrap_def)
    with s f ended show ?thesis
      unfolding shows_stream_def w by (intro exI [of _ "st_out st"] exI [of _ p]) (auto simp: rendered_def)
  qed
qed

lemma served_shows:
  assumes "served write mapper version cfg mine P0 requests w0 gw" and "config_ok cfg"
    and "reachable mapper version cfg P0" and "pr_streams P0 mine = None" and "shown w0 = []"
  shows "case pr_streams (gw_process gw) mine of
      None \<Rightarrow> shown (gw_sink gw) = [] | Some st \<Rightarrow> shows_stream st (gw_sink gw)"
  using assms(1)
proof induction
  case serve_init
  then show ?case using assms(4,5) by simp
next
  case (serve_step gw s a gw')
  note ih = serve_step.IH
  have keeps: "stream_keeps cfg st" if "pr_streams (gw_process gw) mine = Some st" for st
    using reachable_stream [OF assms(2) served_reachable [OF serve_step.hyps(1) assms(3)] that] .
  show ?case
  proof (cases "s = mine")
    case False
    with run_pipeline_other [OF serve_step.hyps(2)] ih show ?thesis by (auto split: option.splits)
  next
    case True
    from serve_step.hyps(2) [unfolded True] show ?thesis
    proof (cases rule: run_pipeline_elim)
      case (refused req status)
      with ih show ?thesis
        by (simp add: shows_stream_def refused_stream_def new_stream_def rendered_def)
    next
      case (opened req plan)
      with ih show ?thesis by (simp add: shows_stream_def new_stream_def rendered_def)
    next
      case (reader st st' sh r)
      have s: "shows_stream st (gw_sink gw)" using ih reader(1) by simp
      from reader(3) show ?thesis
      proof (cases rule: reader_step_elim)
        case (finished c)
        with reader(3) obtain c' where r: "r = Finish c'" "reader_finish c' st (pr_shared (gw_process gw)) = (st', sh)"
          by (cases r) (auto split: if_splits)
        have "shows_stream st' (trailer_write write c' st (gw_sink gw))"
          by (rule shows_finished [OF s _ r(2)]) (simp add: finished(1))
        with reader(4,6) r(1) show ?thesis by simp
      qed (use s reader(3,4,6) in \<open>cases r; auto intro: shows_same split: if_splits\<close>)+
    next
      case (worker st st' sh sh' k w)
      then have "\<not> returned (st_reader st)"
        using keeps_worker_running [OF keeps [OF worker(1)] worker(2)] by simp
      moreover have "st_reader st' = st_reader st" "st_out st' = st_out st" "st_gone st' = st_gone st"
        using worker(2) by (cases rule: worker_step_elim; simp)+
      ultimately show ?thesis using worker ih by (auto intro: shows_same)
    next
      case (written st e t)
      have "\<not> returned (st_reader st)" "\<not> st_gone st"
        using keeps [OF written(1)] written(2)
        by (auto simp: stream_keeps_def winding_down_def in_order_def)
      with shows_written [OF _ _ _ written(3)] written ih show ?thesis by simp
    next
      case (writer st st' w)
      have "\<not> returned (st_reader st)"
        using writer(2) keeps [OF writer(1)]
        by (cases rule: writer_step_elim) (auto simp: stream_keeps_def winding_down_def)
      moreover have "st_reader st' = st_reader st" "st_out st' = st_out st" "st_gone st \<longrightarrow> st_gone st'"
        using writer(2,3) by (cases rule: writer_step_elim; auto)+
      ultimately show ?thesis using writer ih by (auto intro: shows_same)
    qed
  qed
qed

end

text \<open>Both transports: the array that is collected, and the lines of a growing body.\<close>

lemma sink_write_body:
  "sink_write data k = (t, k') \<Longrightarrow> sk_body k' = sk_body k @ (if t then data else [])"
  by (auto simp: sink_write_def split: list.splits if_splits)

lemma write_line_body:
  assumes "write_line text k = (t, k')"
  shows "\<exists>p. sk_body k' = sk_body k @ p \<and> (if t then p = text @ newline else p = [] \<or> p = text)"
proof -
  obtain t1 k1 where w: "sink_write text k = (t1, k1)" by fastforce
  have p: "sk_body k1 = sk_body k @ (if t1 then text else [])" by (rule sink_write_body [OF w])
  show ?thesis
  proof (cases t1)
    case True
    with assms w have "sink_write newline k1 = (t, k')" by (simp add: write_line_def)
    from sink_write_body [OF this] p True show ?thesis by simp
  next
    case False
    with assms w p show ?thesis by (auto simp: write_line_def)
  qed
qed

definition error_line :: "(json \<Rightarrow> string) \<Rightarrow> status \<Rightarrow> string" where
  "error_line dump status = quoted_error (error_json dump (fst status) (snd status))"

lemma stream_end_body:
  "\<exists>q. sk_body (stream_end dump status k) = sk_body k @ q
     \<and> (if fst status = StatusOK then q = [] else q \<in> {[], error_line dump status, error_line dump status @ newline})"
proof (cases "fst status = StatusOK")
  case False
  obtain t k' where "write_line (error_line dump status) k = (t, k')" by fastforce
  with write_line_body [OF this] False show ?thesis
    by (auto simp: stream_end_def error_line_def split: if_splits)
qed (simp add: stream_end_def)

interpretation array: transport "collect_write to_json" to_json co_events "\<lambda>t. [t]" "\<lambda>_. []" co_serialize_failed
  for to_json
  by unfold_locales (auto simp: collect_write_def split: option.splits)

interpretation lines: transport "stream_write to_json" to_json sk_body "\<lambda>t. t @ newline" "\<lambda>t. t" "\<lambda>_. True"
  for to_json
  by unfold_locales (auto simp: stream_write_def split: option.splits dest: write_line_body)

section \<open>The messages of a body\<close>

lemma parse_pages_shape:
  "parse_pages dump image_of index ps = Inr rs \<Longrightarrow>
     list_all2 (\<lambda>j r. \<exists>img. image_of (dump j) = Inr img \<and> r = ReqPage img) ps rs"
  by (induction ps arbitrary: index rs) (auto simp: and_then_Inr split: sum.splits)

lemma pages_in_pages: "list_all2 (\<lambda>j r. \<exists>img. image_of (dump j) = Inr img \<and> r = ReqPage img) ps rs \<Longrightarrow>
    pages_in rs = length ps"
  by (induction rule: list_all2_induct) (auto simp: pages_in_def)

lemma parse_body_elim:
  assumes "parse_convert_body parse dump options_of image_of body = Inr requests"
  obtains envelope first rest where "parse body = Some envelope" "is_jobject envelope"
    "requests = first # rest"
    "case jfind ''options'' envelope of None \<Rightarrow> first = ReqNothing
       | Some j \<Rightarrow> \<exists>opts. options_of (dump j) = Inr opts \<and> first = ReqOptions opts"
    "case jfind ''pages'' envelope of None \<Rightarrow> rest = []
       | Some j \<Rightarrow> \<exists>ps. j = JArray ps
           \<and> list_all2 (\<lambda>j r. \<exists>img. image_of (dump j) = Inr img \<and> r = ReqPage img) ps rest"
proof -
  obtain envelope where e: "parse body = Some envelope" "is_jobject envelope"
    using assms by (auto simp: parse_convert_body_def split: option.splits if_splits)
  obtain first where f: "case jfind ''options'' envelope of None \<Rightarrow> first = ReqNothing
       | Some j \<Rightarrow> \<exists>opts. options_of (dump j) = Inr opts \<and> first = ReqOptions opts"
    and r: "(case jfind ''pages'' envelope of
                   None \<Rightarrow> Inr [first]
                 | Some (JArray pages) \<Rightarrow>
                     and_then (parse_pages dump image_of 0 pages) (\<lambda>next. Inr (first # next))
                 | Some _ \<Rightarrow> Inl ''pages must be an array'') = Inr requests"
    using assms e by (auto simp: parse_convert_body_def and_then_Inr split: option.splits sum.splits)
  from r obtain rest where "requests = first # rest"
    "case jfind ''pages'' envelope of None \<Rightarrow> rest = []
       | Some j \<Rightarrow> \<exists>ps. j = JArray ps
           \<and> list_all2 (\<lambda>j r. \<exists>img. image_of (dump j) = Inr img \<and> r = ReqPage img) ps rest"
    by (auto simp: and_then_Inr split: option.splits json.splits dest!: parse_pages_shape)
  with that e f show ?thesis by blast
qed

definition page_elements :: "json \<Rightarrow> json list" where
  "page_elements envelope = (case jfind ''pages'' envelope of Some (JArray ps) \<Rightarrow> ps | _ \<Rightarrow> [])"

lemma pages_of_body:
  assumes "parse_convert_body parse dump options_of image_of body = Inr requests"
    and "parse body = Some envelope"
  shows "pages_in requests = length (page_elements envelope)"
  using assms(1)
proof (cases rule: parse_body_elim)
  case (1 e first rest)
  then have "e = envelope" "\<not> is_page first"
    using assms(2) by (auto split: option.splits)
  with 1 pages_in_pages show ?thesis
    by (auto simp: page_elements_def pages_in_def split: option.splits)
qed

section \<open>Properties\<close>

lemma http_status_error: "http_status_for c \<noteq> 200"
  by (auto simp: http_status_for_def split: status_code.splits)

lemma rendered_array: "rendered to_json (\<lambda>t. [t]) es = map (the \<circ> to_json) es"
  by (induction es) (simp_all add: rendered_def)

text \<open>
  C8: an answer of 200 to \<^verbatim>\<open>/v1/convert\<close> accounts for every page of the body.  Whatever the
  threads of this request and of every other stream do, when the run ends and the status
  is 200 the body is the JSON array of one started event and one result for each of the
  elements of \<^verbatim>\<open>pages\<close>, and then the trailer with these counts.
\<close>

theorem convert_answers_every_page:
  assumes "config_ok cfg" and "reachable mapper version cfg P0" and "pr_streams P0 mine = None"
    and "parse (hr_body req) = Some envelope"
    and "parse_convert_body parse dump options_of image_of (hr_body req) = Inr requests"
    and "served (collect_write to_json) mapper version cfg mine P0 requests
           \<lparr>co_events = [], co_serialize_failed = False\<rparr> gw"
    and "pr_streams (gw_process gw) mine = Some st" and "st_reader st = RReturned status"
    and "resp = handle_convert parse dump options_of image_of (\<lambda>_ _. (status, gw_sink gw)) req"
    and "hp_status resp = 200"
  shows "\<exists>es ok failed. ok + failed = length (page_elements envelope)
    \<and> tally is_started es = ok + failed \<and> tally is_document es = ok \<and> tally is_raw es = failed
    \<and> hp_body resp = events_json (map (the \<circ> to_json) (es @ [EvComplete (ok + failed) ok failed])) @ ''}''
    \<and> (\<forall>e \<in> set es. to_json e \<noteq> None)"
proof -
  have k: "stream_keeps cfg st"
    using reachable_stream [OF assms(1) served_reachable [OF assms(6,2)] assms(7)] .
  have r: "resp = convert_answer dump (gw_sink gw) status"
    using assms(5,9) by (simp add: handle_convert_def)
  then have ok: "fst status = StatusOK" "\<not> co_serialize_failed (gw_sink gw)"
    using assms(10) http_status_error by (auto simp: convert_answer_def convert_status_def Let_def split: if_splits)
  then have st: "st_reader st = RReturned (StatusOK, snd status)" using assms(8) by (cases status) simp
  then obtain es where es: "st_out st = es @ [EvComplete (st_started st) (st_ok st) (st_failed st)]"
    "st_started st = st_ok st + st_failed st" "tally is_started es = st_started st"
    "tally is_document es = st_ok st" "tally is_raw es = st_failed st"
    and quiet: "\<not> st_halt st" "fst (st_status st) = StatusOK"
    using k unfolding stream_keeps_def ended_well_def by blast
  have "array.shows_stream to_json st (gw_sink gw)"
    using array.served_shows [OF assms(6,1-3)] assms(7) by simp
  then have s: "co_events (gw_sink gw) = map (the \<circ> to_json) (st_out st)" "\<forall>e \<in> set (st_out st). to_json e \<noteq> None"
    using ok(2) by (auto simp: array.shows_stream_def rendered_array)
  have "st_halt st \<or> fst (st_status st) \<noteq> StatusOK \<or> st_started st = pages_in requests"
    using served_pages [OF assms(6,3)] assms(7,8) by (simp add: pages_kept_def)
  then have n: "st_started st = length (page_elements envelope)"
    using pages_of_body [OF assms(5,4)] quiet by simp
  show ?thesis
    using es s n ok r
    by (intro exI [of _ es] exI [of _ "st_ok st"] exI [of _ "st_failed st"])
      (simp add: convert_answer_def convert_status_def)
qed

text \<open>A request of one page, served from end to end.\<close>

fun gateway_script ::
  "('d event \<Rightarrow> 'w \<Rightarrow> bool \<times> 'w) \<Rightarrow> 'd mapper \<Rightarrow> string \<Rightarrow> config \<Rightarrow> (nat \<times> action) list
     \<Rightarrow> ('d, 'w) gateway \<Rightarrow> ('d, 'w) gateway option" where
  "gateway_script write mapper version cfg [] gw = Some gw"
| "gateway_script write mapper version cfg ((s, a) # as) gw =
     (case run_pipeline write mapper version cfg 0 s a gw of
        None \<Rightarrow> None | Some gw' \<Rightarrow> gateway_script write mapper version cfg as gw')"

lemma gateway_script_served:
  "served write mapper version cfg 0 P0 requests w0 gw \<Longrightarrow>
     gateway_script write mapper version cfg as gw = Some gw' \<Longrightarrow>
     served write mapper version cfg 0 P0 requests w0 gw'"
proof (induction as arbitrary: gw)
  case (Cons sa as)
  then show ?case by (cases sa) (auto split: option.splits intro: serve_step)
qed simp

definition sample_envelope :: json where
  "sample_envelope = JObject [(''options'', JNull), (''pages'', JArray [JNull])]"

definition sample_json :: "string event \<Rightarrow> string option" where
  "sample_json e = (case e of EvStarted _ \<Rightarrow> Some ''s'' | EvComplete _ _ _ \<Rightarrow> Some ''c'' | _ \<Rightarrow> Some ''p'')"

definition sample_request :: http_request where
  "sample_request = \<lparr>hr_method = ''POST'', hr_path = ''/v1/convert'', hr_authorization = [], hr_body = []\<rparr>"

lemma sample_body:
  "parse_convert_body (\<lambda>_. Some sample_envelope) (\<lambda>_. []) (\<lambda>_. Inr key_options) (\<lambda>_. Inr sample_image)
     (hr_body sample_request) = Inr [ReqOptions key_options, ReqPage sample_image]"
  by (simp add: parse_convert_body_def sample_envelope_def is_jobject_def jfind_def and_then_def)

lemma sample_served:
  "\<exists>gw st. gateway_script (collect_write sample_json) sample_mapper ''1'' key_config whole_page
       \<lparr>gw_process = new_process key_config, gw_requests = [ReqOptions key_options, ReqPage sample_image],
        gw_sink = \<lparr>co_events = [], co_serialize_failed = False\<rparr>\<rparr> = Some gw
     \<and> pr_streams (gw_process gw) 0 = Some st \<and> st_reader st = RReturned (StatusOK, [])
     \<and> \<not> co_serialize_failed (gw_sink gw)"
  by (simp add: whole_page_def one_page_def pipeline_run run_pipeline_def collect_write_def
      sample_json_def trailer_write_def)

theorem convert_answers_every_page_witness:
  "\<exists>status c es. hp_status (handle_convert (\<lambda>_. Some sample_envelope) (\<lambda>_. []) (\<lambda>_. Inr key_options)
        (\<lambda>_. Inr sample_image) (\<lambda>_ _. (status, c)) sample_request) = 200
     \<and> tally is_started (es :: string event list) = 1"
proof -
  obtain gw st where g: "gateway_script (collect_write sample_json) sample_mapper ''1'' key_config whole_page
       \<lparr>gw_process = new_process key_config, gw_requests = [ReqOptions key_options, ReqPage sample_image],
        gw_sink = \<lparr>co_events = [], co_serialize_failed = False\<rparr>\<rparr> = Some gw"
    and st: "pr_streams (gw_process gw) 0 = Some st" "st_reader st = RReturned (StatusOK, [])"
      "\<not> co_serialize_failed (gw_sink gw)" using sample_served by blast
  note sv = gateway_script_served [OF serve_init g]
  have p: "pr_streams (new_process key_config) 0 = None" by (simp add: new_process_def)
  have h: "hp_status (handle_convert (\<lambda>_. Some sample_envelope) (\<lambda>_. []) (\<lambda>_. Inr key_options)
        (\<lambda>_. Inr sample_image) (\<lambda>_ _. ((StatusOK, []), gw_sink gw)) sample_request) = 200"
    using sample_body st(3) by (simp add: handle_convert_def convert_answer_def convert_status_def)
  obtain ok fl and es :: "string event list" where "ok + fl = length (page_elements sample_envelope)" "tally is_started es = ok + fl"
    using convert_answers_every_page [OF key_config_ok reachable.init p refl sample_body sv st(1,2) refl h] by blast
  then have "tally is_started es = 1" by (simp add: page_elements_def sample_envelope_def jfind_def)
  with h show ?thesis by blast
qed

text \<open>
  C9: with a token configured, a request other than for \<^verbatim>\<open>/healthz\<close> reaches a route exactly
  when its header is the word Bearer, a blank and the token itself; every other request is
  answered 401 with an answer that does not depend on the token, the key or the endpoint,
  before its body is looked at.
\<close>

theorem gateway_requires_token:
  assumes "\<not> secret_empty (http_token cfg)" and "hr_path req \<noteq> ''/healthz''"
  shows "gateway_route dump cfg req =
    (if hr_authorization req = ''Bearer '' @ reveal (http_token cfg) then Inr (route_of req)
     else Inl (unauthenticated dump (req\<lparr>hr_body := [], hr_authorization := []\<rparr>)))"
proof -
  have "bearer_matches req (http_token cfg) \<longleftrightarrow> hr_authorization req = kBearer @ reveal (http_token cfg)"
    using assms(1)
    by (auto simp: bearer_matches_def secret_matches_iff secret_empty_def prefix_def)
  then show ?thesis
    using assms by (simp add: gateway_route_def pre_routing_def kBearer_def unauthenticated_def)
qed

theorem gateway_requires_token_witness:
  "gateway_route (\<lambda>_. []) (default_config\<lparr>http_token := \<lparr>reveal = ''k''\<rparr>\<rparr>) sample_request =
     Inl (unauthenticated (\<lambda>_. []) sample_request)"
  using gateway_requires_token [of "default_config\<lparr>http_token := \<lparr>reveal = ''k''\<rparr>\<rparr>" sample_request "\<lambda>_. []"]
  by (simp add: secret_empty_def sample_request_def)

text \<open>A sink that takes every write while any of them is left over has shown everything.\<close>

definition all_shown :: "('d event \<Rightarrow> string option) \<Rightarrow> 'd event list \<Rightarrow> sink \<Rightarrow> bool" where
  "all_shown to_json es k \<longleftrightarrow>
     list_all (\<lambda>t. t) (sk_takes k) \<and> (sk_takes k \<noteq> [] \<longrightarrow> sk_body k = rendered to_json (\<lambda>t. t @ newline) es)"

lemma write_line_takes:
  assumes "list_all (\<lambda>t. t) (sk_takes k)" and "write_line text k = (t, k')"
  shows "list_all (\<lambda>t. t) (sk_takes k')
    \<and> (sk_takes k' \<noteq> [] \<longrightarrow> t \<and> sk_takes k \<noteq> [] \<and> sk_body k' = sk_body k @ text @ newline)"
  using assms by (cases "sk_takes k" rule: remdups_adj.cases) (auto simp: write_line_def sink_write_def)

lemma all_shown_write:
  assumes "all_shown to_json es k" and "to_json e \<noteq> None" and "stream_write to_json e k = (t, k')"
  shows "if t then all_shown to_json (es @ [e]) k' else all_shown to_json es k' \<and> all_shown to_json (es @ [e]) k'"
proof -
  obtain line where e: "to_json e = Some line" using assms(2) by blast
  then have "write_line line k = (t, k')" using assms(3) by (simp add: stream_write_def)
  from write_line_takes [OF _ this] assms(1) e show ?thesis by (auto simp: all_shown_def rendered_def)
qed

lemma served_all_shown:
  assumes "served (stream_write to_json) mapper version cfg mine P0 requests \<lparr>sk_body = [], sk_takes = takes\<rparr> gw"
    and "pr_streams P0 mine = None" and "list_all (\<lambda>t. t) takes" and "\<forall>e. to_json e \<noteq> None"
  shows "all_shown to_json (case pr_streams (gw_process gw) mine of None \<Rightarrow> [] | Some st \<Rightarrow> st_out st) (gw_sink gw)"
  using assms(1)
proof induction
  case serve_init
  then show ?case using assms(2,3) by (simp add: all_shown_def rendered_def)
next
  case (serve_step gw s a gw')
  note ih = serve_step.IH
  show ?case
  proof (cases "s = mine")
    case False
    with run_pipeline_other [OF serve_step.hyps(2)] ih show ?thesis by simp
  next
    case True
    from serve_step.hyps(2) [unfolded True] show ?thesis
    proof (cases rule: run_pipeline_elim)
      case (reader st st' sh r)
      have i: "all_shown to_json (st_out st) (gw_sink gw)" using ih reader(1) by simp
      show ?thesis
      proof (cases "\<exists>c. r = Finish c")
        case True
        then obtain c where r: "r = Finish c" by blast
        then have f: "reader_finish c st (pr_shared (gw_process gw)) = (st', sh)"
          using reader(3) by (auto split: reader.splits)
        let ?e = "EvComplete (st_started st) (st_ok st) (st_failed st)"
        have out: "st_out st' = (if fst (finish_status c st) = StatusOK then st_out st @ [?e] else st_out st)"
          using finish_cases [OF f] by auto
        obtain t k' where w: "stream_write to_json ?e (gw_sink gw) = (t, k')" by fastforce
        have "all_shown to_json (st_out st @ [?e]) k'"
          using all_shown_write [OF i _ w] assms(4) by (cases t) auto
        with i w out reader(4,6) r show ?thesis by (simp add: trailer_write_def)
      next
        case False
        from reader(3) have "st_out st' = st_out st"
        proof (cases rule: reader_step_elim)
          case (finished c)
          then have "\<exists>c. r = Finish c" using reader(3) by (cases r) (auto split: if_splits)
          with False show ?thesis by blast
        qed simp_all
        with i False reader(4,6) show ?thesis by (cases r) simp_all
      qed
    next
      case (worker st st' sh sh' k w)
      have "st_out st' = st_out st" using worker(2) by (cases rule: worker_step_elim) simp_all
      with worker ih show ?thesis by simp
    next
      case (written st e t)
      with ih all_shown_write [OF _ _ written(3)] assms(4) show ?thesis by (cases t) auto
    next
      case (writer st st' w)
      have "st_out st' = st_out st" using writer(2,3) by (cases rule: writer_step_elim) auto
      with writer ih show ?thesis by simp
    qed (use ih in \<open>simp_all add: refused_stream_def new_stream_def\<close>)
  qed
qed

text \<open>
  C16: the body of \<^verbatim>\<open>/v1/convert/stream\<close>.  It is the lines of the delivered events, all of them but
  at most the trailer of a stream that ended well, whole and in order; behind them at most the
  text of one event whose newline the sink refused; and then, only when the status is an
  error, the line of that error, or what the sink took of it.  With a sink that takes every
  write, and events that serialize, it is exactly the lines of all events, the trailer
  among them, and after them the error line exactly when the status is an error.
\<close>

theorem stream_shows_events:
  assumes "config_ok cfg" and "reachable mapper version cfg P0" and "pr_streams P0 mine = None"
    and "parse_convert_body parse dump options_of image_of (hr_body req) = Inr requests"
    and "served (stream_write to_json) mapper version cfg mine P0 requests \<lparr>sk_body = [], sk_takes = takes\<rparr> gw"
    and "pr_streams (gw_process gw) mine = Some st" and "st_reader st = RReturned status"
    and "resp = handle_convert_stream parse dump options_of image_of (\<lambda>_ _. (status, gw_sink gw)) req takes"
  shows "(\<exists>es cut err. hp_body resp = concat (map (\<lambda>e. the (to_json e) @ newline) es) @ cut @ err
      \<and> (\<forall>e \<in> set es. to_json e \<noteq> None)
      \<and> (st_out st = es \<or> fst status = StatusOK \<and> st_out st = es @ [EvComplete (st_started st) (st_ok st) (st_failed st)])
      \<and> (cut = [] \<or> (\<exists>e. to_json e = Some cut))
      \<and> (if fst status = StatusOK then err = [] else err \<in> {[], error_line dump status, error_line dump status @ newline}))
    \<and> ((\<forall>t \<in> set takes. t) \<and> (\<forall>e. to_json e \<noteq> None) \<and> sk_takes (stream_end dump status (gw_sink gw)) \<noteq> [] \<longrightarrow>
         hp_body resp = concat (map (\<lambda>e. the (to_json e) @ newline) (st_out st))
           @ (if fst status = StatusOK then [] else error_line dump status @ newline))"
proof
  have body: "hp_body resp = sk_body (stream_end dump status (gw_sink gw))"
    using assms(4,8) by (simp add: handle_convert_stream_def)
  have "lines.shows_stream to_json st (gw_sink gw)"
    using lines.served_shows [OF assms(5,1-3)] assms(6) by simp
  then obtain es cut where e: "st_out st = es \<or> st_out st = es @ [EvComplete (st_started st) (st_ok st) (st_failed st)]"
    "\<forall>e \<in> set es. to_json e \<noteq> None" "sk_body (gw_sink gw) = rendered to_json (\<lambda>t. t @ newline) es @ cut"
    "scrap to_json (\<lambda>t. t) cut" "es = st_out st \<or> (\<exists>message. st_reader st = RReturned (StatusOK, message))"
    by (auto simp: lines.shows_stream_def split: if_splits)
  obtain err where "sk_body (stream_end dump status (gw_sink gw)) = sk_body (gw_sink gw) @ err"
    "if fst status = StatusOK then err = [] else err \<in> {[], error_line dump status, error_line dump status @ newline}"
    using stream_end_body by blast
  moreover have "cut = [] \<or> (\<exists>e. to_json e = Some cut)" using e(4) by (auto simp: scrap_def)
  moreover have "st_out st = es \<or> fst status = StatusOK \<and> st_out st = es @ [EvComplete (st_started st) (st_ok st) (st_failed st)]"
    using e(1,5) assms(7) by auto
  ultimately show "\<exists>es cut err. hp_body resp = concat (map (\<lambda>e. the (to_json e) @ newline) es) @ cut @ err
      \<and> (\<forall>e \<in> set es. to_json e \<noteq> None)
      \<and> (st_out st = es \<or> fst status = StatusOK \<and> st_out st = es @ [EvComplete (st_started st) (st_ok st) (st_failed st)])
      \<and> (cut = [] \<or> (\<exists>e. to_json e = Some cut))
      \<and> (if fst status = StatusOK then err = [] else err \<in> {[], error_line dump status, error_line dump status @ newline})"
    using e(2,3) unfolding body rendered_def
    by (intro exI [of _ es] exI [of _ cut] exI [of _ err] conjI) simp_all
next
  have body: "hp_body resp = sk_body (stream_end dump status (gw_sink gw))"
    using assms(4,8) by (simp add: handle_convert_stream_def)
  show "(\<forall>t \<in> set takes. t) \<and> (\<forall>e. to_json e \<noteq> None) \<and> sk_takes (stream_end dump status (gw_sink gw)) \<noteq> [] \<longrightarrow>
         hp_body resp = concat (map (\<lambda>e. the (to_json e) @ newline) (st_out st))
           @ (if fst status = StatusOK then [] else error_line dump status @ newline)"
  proof
    assume t: "(\<forall>t \<in> set takes. t) \<and> (\<forall>e. to_json e \<noteq> None) \<and> sk_takes (stream_end dump status (gw_sink gw)) \<noteq> []"
    then have "list_all (\<lambda>t. t) takes" "\<forall>e. to_json e \<noteq> None" by (auto simp: list_all_iff)
    then have "all_shown to_json (st_out st) (gw_sink gw)"
      using served_all_shown [OF assms(5,3)] assms(6) by simp
    then have s: "list_all (\<lambda>t. t) (sk_takes (gw_sink gw))"
      "sk_takes (gw_sink gw) \<noteq> [] \<Longrightarrow> sk_body (gw_sink gw) = rendered to_json (\<lambda>t. t @ newline) (st_out st)"
      by (simp_all add: all_shown_def)
    obtain b k' where w: "write_line (error_line dump status) (gw_sink gw) = (b, k')" by fastforce
    from write_line_takes [OF s(1) w] s(2) t w
    show "hp_body resp = concat (map (\<lambda>e. the (to_json e) @ newline) (st_out st))
           @ (if fst status = StatusOK then [] else error_line dump status @ newline)"
      unfolding body by (auto simp: stream_end_def error_line_def rendered_def)
  qed
qed

lemma sample_streamed:
  "\<exists>gw st. gateway_script (stream_write sample_json) sample_mapper ''1'' key_config whole_page
       \<lparr>gw_process = new_process key_config, gw_requests = [ReqOptions key_options, ReqPage sample_image],
        gw_sink = \<lparr>sk_body = [], sk_takes = [True, True, True, True, True, True, True]\<rparr>\<rparr> = Some gw
     \<and> pr_streams (gw_process gw) 0 = Some st \<and> st_reader st = RReturned (StatusOK, [])
     \<and> map sample_json (st_out st) = [Some ''s'', Some ''p'', Some ''c''] \<and> sk_takes (gw_sink gw) \<noteq> []"
  by (simp add: whole_page_def one_page_def pipeline_run run_pipeline_def stream_write_def write_line_def
      sink_write_def newline_def sample_json_def trailer_write_def)

theorem stream_shows_events_witness:
  "\<exists>k. hp_body (handle_convert_stream (\<lambda>_. Some sample_envelope) (\<lambda>_. []) (\<lambda>_. Inr key_options)
     (\<lambda>_. Inr sample_image) (\<lambda>_ _. ((StatusOK, []), k)) sample_request (replicate 7 True))
     = ''s'' @ newline @ ''p'' @ newline @ ''c'' @ newline"
proof -
  have seven: "replicate 7 True = [True, True, True, True, True, True, True]" by (simp add: numeral_eq_Suc)
  obtain gw st where g: "gateway_script (stream_write sample_json) sample_mapper ''1'' key_config whole_page
       \<lparr>gw_process = new_process key_config, gw_requests = [ReqOptions key_options, ReqPage sample_image],
        gw_sink = \<lparr>sk_body = [], sk_takes = replicate 7 True\<rparr>\<rparr> = Some gw"
    and st: "pr_streams (gw_process gw) 0 = Some st" "st_reader st = RReturned (StatusOK, [])"
      "map sample_json (st_out st) = [Some ''s'', Some ''p'', Some ''c'']" "sk_takes (gw_sink gw) \<noteq> []"
    using sample_streamed unfolding seven by (elim exE conjE)
  note sv = gateway_script_served [OF serve_init g]
  have p: "pr_streams (new_process key_config) 0 = None" by (simp add: new_process_def)
  let ?resp = "handle_convert_stream (\<lambda>_. Some sample_envelope) (\<lambda>_. []) (\<lambda>_. Inr key_options)
     (\<lambda>_. Inr sample_image) (\<lambda>_ _. ((StatusOK, []), gw_sink gw)) sample_request (replicate 7 True)"
  have "\<forall>e. sample_json e \<noteq> None" by (simp add: sample_json_def split: event.split)
  moreover have "sk_takes (stream_end (\<lambda>_. []) (StatusOK, []) (gw_sink gw)) \<noteq> []" using st(4) by (simp add: stream_end_def)
  ultimately have "hp_body ?resp = concat (map (\<lambda>e. the (sample_json e) @ newline) (st_out st))"
    using stream_shows_events [OF key_config_ok reachable.init p sample_body sv st(1,2) refl, THEN conjunct2] by simp
  also have "\<dots> = concat (map (\<lambda>t. the t @ newline) (map sample_json (st_out st)))" by (simp add: comp_def)
  finally show ?thesis unfolding st(3) by auto
qed

end
