(* ===== verification/Image_Crop.thy ===== *)
theory Image_Crop
  imports Convert_Page Base64
begin

text \<open>
  \<^verbatim>\<open>src/mapping/image_crop.cpp\<close>: regions cropped out of the page raster, within what one page
  may spend on crops.

  The image library is the record \<open>image_library\<close>: the header of an encoded image, its pixels
  as four bytes each, and the encoder.  Arithmetic on doubles is on reals, with an argument
  \<open>rnd\<close> that rounds every result.
\<close>

section \<open>State\<close>

record image_library =
  il_info :: "string \<Rightarrow> (int \<times> int) option"
  il_load :: "string \<Rightarrow> (int \<times> int \<times> string) option"
  il_write_png :: "nat \<Rightarrow> nat \<Rightarrow> string \<Rightarrow> string option"

definition kMaxRasterPixels :: nat where "kMaxRasterPixels = 40000000"

datatype crop_result = KAttached | KFailed | KOverBudget | KOverByteCap | KRasterTooLarge

record image_ref =
  ir_mimetype :: string
  ir_dpi :: int
  ir_width :: nat
  ir_height :: nat
  ir_uri :: string

record page_raster =
  pr_png :: string
  pr_page_width :: nat
  pr_page_height :: nat
  pr_budget :: crop_budget
  pr_tried :: bool
  pr_too_large :: bool
  pr_pixels :: "string option"
  pr_width :: nat
  pr_height :: nat
  pr_decodes :: nat
  pr_crops :: nat
  pr_cropped_pixels :: nat
  pr_inline_bytes :: nat
  pr_inline_bytes_spent :: bool

definition new_raster :: "string \<Rightarrow> nat \<Rightarrow> nat \<Rightarrow> crop_budget \<Rightarrow> page_raster" where
  "new_raster png page_width page_height budget =
     \<lparr>pr_png = png, pr_page_width = page_width, pr_page_height = page_height, pr_budget = budget,
      pr_tried = False, pr_too_large = False, pr_pixels = None, pr_width = 0, pr_height = 0,
      pr_decodes = 0, pr_crops = 0, pr_cropped_pixels = 0, pr_inline_bytes = 0,
      pr_inline_bytes_spent = False\<rparr>"

section \<open>Decoding\<close>

definition decode :: "image_library \<Rightarrow> page_raster \<Rightarrow> bool \<times> page_raster" where
  "decode lib p =
     (if pr_tried p then (pr_pixels p \<noteq> None, p)
      else
        (let p1 = p\<lparr>pr_tried := True\<rparr>; bytes = take (2 ^ 31 - 1) (pr_png p)
         in case il_info lib bytes of
              None \<Rightarrow> (False, p1)
            | Some (width, height) \<Rightarrow>
                if width \<le> 0 \<or> height \<le> 0 then (False, p1)
                else
                  (let p2 = p1\<lparr>pr_width := nat width, pr_height := nat height\<rparr>
                   in if kMaxRasterPixels < nat width * nat height then (False, p2\<lparr>pr_too_large := True\<rparr>)
                      else
                        (let p3 = p2\<lparr>pr_decodes := pr_decodes p2 + 1\<rparr>
                         in case il_load lib bytes of
                              None \<Rightarrow> (False, p3)
                            | Some (w, h, pixels) \<Rightarrow>
                                if w \<noteq> width \<or> h \<noteq> height then (False, p3)
                                else (True, p3\<lparr>pr_pixels := Some pixels\<rparr>)))))"

section \<open>Cropping\<close>

text \<open>An edge of the region in the pixels of the decoded image.\<close>

definition scale :: "(real \<Rightarrow> real) \<Rightarrow> nat \<Rightarrow> nat \<Rightarrow> real" where
  "scale rnd actual declared = (if 0 < declared then rnd (real actual / real declared) else 1)"

definition pixel_edge :: "int \<Rightarrow> nat \<Rightarrow> nat" where
  "pixel_edge v extent = nat \<lfloor>std_clamp (real_of_int v) 0 (real extent)\<rfloor>"

definition copy_region :: "string \<Rightarrow> nat \<Rightarrow> nat \<Rightarrow> nat \<Rightarrow> nat \<Rightarrow> nat \<Rightarrow> string" where
  "copy_region pixels width x1 y1 crop_w crop_h =
     concat (map (\<lambda>row. take (crop_w * 4) (drop (((y1 + row) * width + x1) * 4) pixels)) [0..<crop_h])"

definition image_base64 :: "string \<Rightarrow> string" where
  "image_base64 bytes = base64_encode bytes"

definition data_uri :: "string \<Rightarrow> string" where
  "data_uri png = ''data:image/png;base64,'' @ image_base64 png"

text \<open>The region that was asked for, once it is known to be one: budgets, copy, encoding.\<close>

definition attach_region ::
  "image_library \<Rightarrow> (real \<Rightarrow> real) \<Rightarrow> string \<Rightarrow> nat \<Rightarrow> nat \<Rightarrow> nat \<Rightarrow> nat \<Rightarrow> page_raster
     \<Rightarrow> crop_result \<times> image_ref option \<times> page_raster" where
  "attach_region lib rnd pixels x1 y1 crop_w crop_h p =
     (let area = crop_w * crop_h; b = pr_budget p;
          area_budget = rnd (rnd (cb_max_area_pages b * real (pr_width p)) * real (pr_height p))
      in if pr_inline_bytes_spent p then (KOverByteCap, None, p)
         else if cb_max_crops b \<le> pr_crops p \<or> area_budget < rnd (real (pr_cropped_pixels p + area))
         then (KOverBudget, None, p)
         else
           (let p1 = p\<lparr>pr_crops := pr_crops p + 1, pr_cropped_pixels := pr_cropped_pixels p + area\<rparr>
            in case il_write_png lib crop_w crop_h (copy_region pixels (pr_width p) x1 y1 crop_w crop_h) of
                 None \<Rightarrow> (KFailed, None, p1)
               | Some png \<Rightarrow>
                   if png = [] then (KFailed, None, p1)
                   else if cb_max_inline_bytes b - pr_inline_bytes p < length (data_uri png)
                   then (KOverByteCap, None, p1\<lparr>pr_inline_bytes_spent := True\<rparr>)
                   else (KAttached,
                         Some \<lparr>ir_mimetype = ''image/png'', ir_dpi = 72, ir_width = crop_w, ir_height = crop_h,
                               ir_uri = data_uri png\<rparr>,
                         p1\<lparr>pr_inline_bytes := pr_inline_bytes p + length (data_uri png)\<rparr>)))"

definition crop ::
  "image_library \<Rightarrow> (real \<Rightarrow> real) \<Rightarrow> real \<Rightarrow> real \<Rightarrow> real \<Rightarrow> real \<Rightarrow> page_raster
     \<Rightarrow> crop_result \<times> image_ref option \<times> page_raster" where
  "crop lib rnd l t r b p0 =
     (case decode lib p0 of
        (False, p) \<Rightarrow> (if pr_too_large p then KRasterTooLarge else KFailed, None, p)
      | (True, p) \<Rightarrow>
          (let sx = scale rnd (pr_width p) (pr_page_width p); sy = scale rnd (pr_height p) (pr_page_height p);
               x1 = pixel_edge \<lfloor>rnd (l * sx)\<rfloor> (pr_width p);
               y1 = pixel_edge \<lfloor>rnd (t * sy)\<rfloor> (pr_height p);
               x2 = pixel_edge \<lceil>rnd (r * sx)\<rceil> (pr_width p);
               y2 = pixel_edge \<lceil>rnd (b * sy)\<rceil> (pr_height p)
           in if x2 \<le> x1 \<or> y2 \<le> y1 then (KFailed, None, p)
              else attach_region lib rnd (the (pr_pixels p)) x1 y1 (x2 - x1) (y2 - y1) p))"

definition crop_png_image ::
  "image_library \<Rightarrow> (real \<Rightarrow> real) \<Rightarrow> string \<Rightarrow> real \<Rightarrow> real \<Rightarrow> real \<Rightarrow> real \<Rightarrow> nat \<Rightarrow> nat \<Rightarrow> image_ref option" where
  "crop_png_image lib rnd png l t r b page_width page_height =
     (case crop lib rnd l t r b (new_raster png page_width page_height default_crop_budget) of
        (KAttached, img, _) \<Rightarrow> img
      | _ \<Rightarrow> None)"

section \<open>What a page may spend\<close>

text \<open>
  The raster is decoded at most once and only if its header keeps the limit; the pixels kept
  are as many as the header says; and every budget holds.
\<close>

definition library_ok :: "image_library \<Rightarrow> bool" where
  "library_ok lib \<longleftrightarrow> (\<forall>bytes w h pixels. il_load lib bytes = Some (w, h, pixels) \<longrightarrow> length pixels = nat w * nat h * 4)"

definition raster_ok :: "(real \<Rightarrow> real) \<Rightarrow> page_raster \<Rightarrow> bool" where
  "raster_ok rnd p \<longleftrightarrow>
     pr_decodes p \<le> (if pr_tried p then 1 else 0)
     \<and> (pr_pixels p \<noteq> None \<longrightarrow> pr_tried p \<and> pr_width p * pr_height p \<le> kMaxRasterPixels
          \<and> length (the (pr_pixels p)) = pr_width p * pr_height p * 4)
     \<and> (pr_pixels p = None \<longrightarrow> pr_crops p = 0 \<and> pr_cropped_pixels p = 0 \<and> pr_inline_bytes p = 0)
     \<and> pr_crops p \<le> cb_max_crops (pr_budget p)
     \<and> (0 < pr_crops p \<longrightarrow> rnd (real (pr_cropped_pixels p))
          \<le> rnd (rnd (cb_max_area_pages (pr_budget p) * real (pr_width p)) * real (pr_height p)))
     \<and> pr_inline_bytes p \<le> cb_max_inline_bytes (pr_budget p)"

lemma new_raster_ok: "raster_ok rnd (new_raster png w h b)"
  by (simp add: raster_ok_def new_raster_def)

lemma decode_keeps:
  assumes "decode lib p = (done, p')" and "raster_ok rnd p" and "library_ok lib"
  shows "raster_ok rnd p' \<and> done = (pr_pixels p' \<noteq> None) \<and> pr_budget p' = pr_budget p
    \<and> pr_inline_bytes p' = pr_inline_bytes p \<and> pr_crops p' = pr_crops p \<and> pr_tried p'
    \<and> pr_inline_bytes_spent p' = pr_inline_bytes_spent p"
proof (cases "pr_tried p")
  case True
  with assms show ?thesis by (auto simp: decode_def)
next
  case False
  then have none: "pr_pixels p = None" "pr_decodes p = 0" using assms(2) by (auto simp: raster_ok_def)
  note b = assms(2) [unfolded raster_ok_def none]
  show ?thesis
    using assms(1,3) False none b
    by (auto simp: decode_def raster_ok_def library_ok_def Let_def split: option.splits if_splits prod.splits)
qed

lemma decode_page:
  assumes "decode lib p = (done, p')"
  shows "pr_page_width p' = pr_page_width p \<and> pr_page_height p' = pr_page_height p"
  using assms by (auto simp: decode_def Let_def split: option.splits if_splits prod.splits)

lemma attach_keeps:
  assumes "attach_region lib rnd pixels x1 y1 w h p = (res, img, p')" and "raster_ok rnd p" and "pr_pixels p \<noteq> None"
  shows "raster_ok rnd p' \<and> pr_budget p' = pr_budget p
    \<and> (res = KAttached \<longleftrightarrow> img \<noteq> None)
    \<and> pr_inline_bytes p' = pr_inline_bytes p + (case img of None \<Rightarrow> 0 | Some i \<Rightarrow> length (ir_uri i))
    \<and> pr_crops p + (if img = None then 0 else 1) \<le> pr_crops p'
    \<and> (pr_inline_bytes_spent p \<longrightarrow> pr_inline_bytes_spent p' \<and> img = None)
    \<and> (res = KOverByteCap \<longrightarrow> pr_inline_bytes_spent p')"
  using assms
  by (auto simp: attach_region_def Let_def raster_ok_def not_less split: if_splits option.splits)

lemma crop_keeps:
  assumes "crop lib rnd l t r b p = (res, img, p')" and "raster_ok rnd p" and "library_ok lib"
  shows "raster_ok rnd p' \<and> pr_budget p' = pr_budget p
    \<and> pr_inline_bytes p' = pr_inline_bytes p + (case img of None \<Rightarrow> 0 | Some i \<Rightarrow> length (ir_uri i))
    \<and> pr_crops p + (if img = None then 0 else 1) \<le> pr_crops p'"
proof -
  obtain ok q where d: "decode lib p = (ok, q)" by fastforce
  note k = decode_keeps [OF d assms(2,3)]
  show ?thesis
  proof (cases ok)
    case False
    with assms(1) d k show ?thesis by (auto simp: crop_def)
  next
    case True
    then have "pr_pixels q \<noteq> None" using k by simp
    with assms(1) d k True show ?thesis
      by (auto simp: crop_def Let_def split: if_splits dest!: attach_keeps [where rnd = rnd])
  qed
qed

text \<open>The crops of a page, one after the other.\<close>

type_synonym region = "real \<times> real \<times> real \<times> real"

fun crops :: "image_library \<Rightarrow> (real \<Rightarrow> real) \<Rightarrow> region list \<Rightarrow> page_raster \<Rightarrow> image_ref list \<times> page_raster" where
  "crops lib rnd [] p = ([], p)"
| "crops lib rnd ((l, t, r, b) # regions) p =
     (case crop lib rnd l t r b p of
        (_, img, p') \<Rightarrow> apfst (\<lambda>images. (case img of None \<Rightarrow> images | Some i \<Rightarrow> i # images)) (crops lib rnd regions p'))"

lemma crops_keep:
  assumes "crops lib rnd regions p = (images, p')" and "raster_ok rnd p" and "library_ok lib"
  shows "raster_ok rnd p' \<and> pr_budget p' = pr_budget p
    \<and> pr_inline_bytes p' = pr_inline_bytes p + sum_list (map (length \<circ> ir_uri) images)
    \<and> pr_crops p + length images \<le> pr_crops p'"
  using assms(1,2)
proof (induction regions arbitrary: p images p')
  case (Cons region regions)
  obtain l t r b where reg: "region = (l, t, r, b)" by (cases region) auto
  obtain res img q where c: "crop lib rnd l t r b p = (res, img, q)" by (cases "crop lib rnd l t r b p") auto
  obtain more p2 where i: "crops lib rnd regions q = (more, p2)" by fastforce
  note k = crop_keeps [OF c Cons.prems(2) assms(3)]
  from Cons.IH [OF i] Cons.prems(1) k reg c i show ?case by (auto split: option.splits if_splits)
qed simp

section \<open>The pixels of a region\<close>

lemma concat_uniform_nth:
  assumes "\<forall>xs \<in> set xss. length xs = n" and "r < length xss" and "k < n"
  shows "concat xss ! (r * n + k) = xss ! r ! k"
  using assms
proof (induction xss arbitrary: r)
  case (Cons xs xss)
  then show ?case by (cases r) (auto simp: nth_append algebra_simps)
qed simp

lemma concat_uniform_length: "\<forall>xs \<in> set xss. length xs = n \<Longrightarrow> length (concat xss) = length xss * n"
  by (induction xss) simp_all

lemma region_in_page:
  assumes "x1 + w \<le> width" and "y < height"
  shows "(y * width + x1) * 4 + w * 4 \<le> width * height * (4 :: nat)"
proof -
  have "(y + 1) * width \<le> height * width" using assms(2) by (intro mult_le_mono1) simp
  then have "y * width + x1 + w \<le> width * height" using assms(1) by (simp add: algebra_simps)
  then show ?thesis by simp
qed

lemma copy_region_exact:
  assumes "length pixels = width * height * 4" and "x1 + w \<le> width" and "y1 + h \<le> height"
  shows "length (copy_region pixels width x1 y1 w h) = w * h * 4"
    and "r < h \<Longrightarrow> c < w * 4 \<Longrightarrow>
      copy_region pixels width x1 y1 w h ! (r * (w * 4) + c) = pixels ! (((y1 + r) * width + x1) * 4 + c)"
proof -
  let ?rows = "map (\<lambda>row. take (w * 4) (drop (((y1 + row) * width + x1) * 4) pixels)) [0..<h]"
  have fits: "((y1 + row) * width + x1) * 4 + w * 4 \<le> length pixels" if "row < h" for row
    unfolding assms(1) by (rule region_in_page) (use assms(2,3) that in auto)
  have "length (take (w * 4) (drop (((y1 + row) * width + x1) * 4) pixels)) = w * 4" if "row < h" for row
    using fits [OF that] by simp
  then have uniform: "\<forall>xs \<in> set ?rows. length xs = w * 4" by (auto simp del: length_take length_drop)
  from concat_uniform_length [OF this]
  show "length (copy_region pixels width x1 y1 w h) = w * h * 4" by (simp add: copy_region_def algebra_simps)
  assume rc: "r < h" "c < w * 4"
  have "concat ?rows ! (r * (w * 4) + c) = ?rows ! r ! c"
    by (rule concat_uniform_nth [OF uniform]) (use rc in simp_all)
  also have "\<dots> = pixels ! (((y1 + r) * width + x1) * 4 + c)" using rc fits [of r] by simp
  finally show "copy_region pixels width x1 y1 w h ! (r * (w * 4) + c) = pixels ! (((y1 + r) * width + x1) * 4 + c)"
    by (simp add: copy_region_def)
qed

lemma pixel_edge_le: "pixel_edge v extent \<le> extent"
proof -
  have "std_clamp (real_of_int v) 0 (real extent) \<le> real extent" by (rule std_clamp_bounds [THEN conjunct2]) simp
  then have "\<lfloor>std_clamp (real_of_int v) 0 (real extent)\<rfloor> \<le> int extent" by linarith
  then show ?thesis by (simp add: pixel_edge_def nat_le_iff)
qed

lemma edge_cases: "pixel_edge v extent = nat (max 0 (min v (int extent)))"
  by (auto simp: pixel_edge_def std_clamp_def)

lemma left_of: "c < extent \<Longrightarrow> pixel_edge \<lfloor>v\<rfloor> extent \<le> c \<longleftrightarrow> v < real c + 1"
  by (auto simp: edge_cases nat_le_iff) linarith+

lemma right_of: "c < extent \<Longrightarrow> c < pixel_edge \<lceil>v\<rceil> extent \<longleftrightarrow> real c < v"
  by (auto simp: edge_cases) linarith+

section \<open>Properties\<close>

text \<open>
  C24: whatever regions a model names, the images attached to a page stay within its budgets:
  their data URIs together within the byte cap, at most as many as may be cropped, and the
  raster is decoded at most once.
\<close>

theorem crops_within_budget:
  assumes "crops lib rnd regions (new_raster png w h budget) = (images, p)" and "library_ok lib"
  shows "sum_list (map (length \<circ> ir_uri) images) \<le> cb_max_inline_bytes budget
    \<and> length images \<le> cb_max_crops budget \<and> pr_decodes p \<le> 1"
proof -
  have b: "pr_budget (new_raster png w h budget) = budget" "pr_inline_bytes (new_raster png w h budget) = 0"
    by (simp_all add: new_raster_def)
  note k = crops_keep [OF assms(1) new_raster_ok assms(2), unfolded b]
  have "pr_decodes p \<le> 1" using k by (auto simp: raster_ok_def split: if_splits)
  moreover have "pr_crops p \<le> cb_max_crops budget" "pr_inline_bytes p \<le> cb_max_inline_bytes budget"
    using k by (auto simp: raster_ok_def)
  ultimately show ?thesis using k by linarith
qed

text \<open>A library for a raster of one pixel.\<close>

definition pixel_library :: image_library where
  "pixel_library = \<lparr>il_info = (\<lambda>_. Some (1, 1)), il_load = (\<lambda>_. Some (1, 1, ''RGBA'')),
     il_write_png = (\<lambda>_ _ pixels. Some pixels)\<rparr>"

lemma pixel_library_ok: "library_ok pixel_library"
  by (simp add: library_ok_def pixel_library_def)

definition pixel_image :: image_ref where
  "pixel_image = \<lparr>ir_mimetype = ''image/png'', ir_dpi = 72, ir_width = 1, ir_height = 1, ir_uri = data_uri ''RGBA''\<rparr>"

text \<open>One pixel, with a cap that lets one crop of it through and not a second.\<close>

definition one_crop :: crop_budget where
  "one_crop = \<lparr>cb_max_crops = 5, cb_max_area_pages = 2, cb_max_inline_bytes = 40\<rparr>"

lemma length_pixel_uri: "length (data_uri ''RGBA'') = 30"
  by (simp add: data_uri_def image_base64_def base64_length del: base64_encode.simps)

lemma pixel_crop:
  "\<exists>p. crops pixel_library id [(0, 0, 1, 1), (0, 0, 1, 1)] (new_raster [] 1 1 one_crop) = ([pixel_image], p)"
  by (simp add: crop_def decode_def attach_region_def new_raster_def pixel_library_def one_crop_def scale_def
      pixel_edge_def std_clamp_def kMaxRasterPixels_def copy_region_def length_pixel_uri pixel_image_def)

theorem crops_within_budget_witness:
  "\<exists>p. crops pixel_library id [(0, 0, 1, 1), (0, 0, 1, 1)] (new_raster [] 1 1 one_crop) = ([pixel_image], p)
     \<and> pr_decodes p \<le> 1"
  using pixel_crop crops_within_budget [OF _ pixel_library_ok] by blast

text \<open>
  C25: an attached crop shows exactly the region that was asked for.  With the box scaled from
  the declared page to the decoded raster, the columns and rows shown are the ones of the
  raster whose pixels the scaled box reaches into, no more and no fewer; nothing outside the
  decoded pixels is read, and pixel by pixel the image that is encoded holds the pixels of
  the raster from that corner on.
\<close>

theorem crop_shows_region:
  assumes "crop lib rnd l t r b p = (KAttached, Some img, p')" and "raster_ok rnd p" and "library_ok lib"
  shows "\<exists>pixels x1 y1 sx sy region png.
    pr_pixels p' = Some pixels \<and> length pixels = pr_width p' * pr_height p' * 4
    \<and> sx = (if 0 < pr_page_width p then rnd (real (pr_width p') / real (pr_page_width p)) else 1)
    \<and> sy = (if 0 < pr_page_height p then rnd (real (pr_height p') / real (pr_page_height p)) else 1)
    \<and> x1 + ir_width img \<le> pr_width p' \<and> y1 + ir_height img \<le> pr_height p'
    \<and> 0 < ir_width img \<and> 0 < ir_height img
    \<and> (\<forall>x < pr_width p'. x1 \<le> x \<and> x < x1 + ir_width img \<longleftrightarrow> rnd (l * sx) < real x + 1 \<and> real x < rnd (r * sx))
    \<and> (\<forall>y < pr_height p'. y1 \<le> y \<and> y < y1 + ir_height img \<longleftrightarrow> rnd (t * sy) < real y + 1 \<and> real y < rnd (b * sy))
    \<and> il_write_png lib (ir_width img) (ir_height img) region = Some png \<and> ir_uri img = data_uri png
    \<and> length region = ir_width img * ir_height img * 4
    \<and> (\<forall>row < ir_height img. \<forall>c < ir_width img * 4.
         region ! (row * (ir_width img * 4) + c) = pixels ! (((y1 + row) * pr_width p' + x1) * 4 + c))"
proof -
  obtain ok q where d: "decode lib p = (ok, q)" by fastforce
  note k = decode_keeps [OF d assms(2,3)]
  have ok: "ok" using assms(1) d by (cases ok) (auto simp: crop_def split: if_splits)
  obtain pixels where px: "pr_pixels q = Some pixels" using k ok by auto
  have len: "length pixels = pr_width q * pr_height q * 4" using k px by (auto simp: raster_ok_def)
  define sx where "sx = scale rnd (pr_width q) (pr_page_width q)"
  define sy where "sy = scale rnd (pr_height q) (pr_page_height q)"
  define x1 where "x1 = pixel_edge \<lfloor>rnd (l * sx)\<rfloor> (pr_width q)"
  define y1 where "y1 = pixel_edge \<lfloor>rnd (t * sy)\<rfloor> (pr_height q)"
  define x2 where "x2 = pixel_edge \<lceil>rnd (r * sx)\<rceil> (pr_width q)"
  define y2 where "y2 = pixel_edge \<lceil>rnd (b * sy)\<rceil> (pr_height q)"
  have "\<not> (x2 \<le> x1 \<or> y2 \<le> y1) \<and> attach_region lib rnd pixels x1 y1 (x2 - x1) (y2 - y1) q = (KAttached, Some img, p')"
    using assms(1) d ok px unfolding x1_def y1_def x2_def y2_def sx_def sy_def
    by (simp add: crop_def Let_def split: if_splits)
  then have a: "attach_region lib rnd pixels x1 y1 (x2 - x1) (y2 - y1) q = (KAttached, Some img, p')"
    and e: "x1 < x2" "y1 < y2" by auto
  have in2: "x2 \<le> pr_width q" "y2 \<le> pr_height q" unfolding x2_def y2_def by (rule pixel_edge_le)+
  let ?w = "x2 - x1" let ?h = "y2 - y1" let ?c = "copy_region pixels (pr_width q) x1 y1 (x2 - x1) (y2 - y1)"
  obtain png where i: "il_write_png lib ?w ?h ?c = Some png" "ir_uri img = data_uri png"
    "ir_width img = ?w" "ir_height img = ?h" "pr_pixels p' = pr_pixels q" "pr_width p' = pr_width q"
    "pr_height p' = pr_height q"
    using a by (auto simp: attach_region_def Let_def split: if_splits option.splits)
  have fit: "x1 + ?w \<le> pr_width q" "y1 + ?h \<le> pr_height q" using e in2 by simp_all
  have pg: "pr_page_width q = pr_page_width p" "pr_page_height q = pr_page_height p" using decode_page [OF d] by auto
  have cols: "\<forall>x < pr_width q. x1 \<le> x \<and> x < x1 + ?w \<longleftrightarrow> rnd (l * sx) < real x + 1 \<and> real x < rnd (r * sx)"
    using e by (auto simp: left_of right_of x1_def x2_def)
  have rows: "\<forall>y < pr_height q. y1 \<le> y \<and> y < y1 + ?h \<longleftrightarrow> rnd (t * sy) < real y + 1 \<and> real y < rnd (b * sy)"
    using e by (auto simp: left_of right_of y1_def y2_def)
  show ?thesis
    by (rule exI [of _ pixels], rule exI [of _ x1], rule exI [of _ y1], rule exI [of _ sx], rule exI [of _ sy],
        rule exI [of _ ?c], rule exI [of _ png], intro conjI)
      (use cols rows copy_region_exact [OF len fit] i px len fit e in
        \<open>simp_all add: sx_def sy_def scale_def pg\<close>)
qed

text \<open>A raster of two pixels side by side for a page four wide; the right half is cropped.\<close>

definition pair_library :: image_library where
  "pair_library = \<lparr>il_info = (\<lambda>_. Some (2, 1)), il_load = (\<lambda>_. Some (2, 1, ''rgbaRGBA'')),
     il_write_png = (\<lambda>_ _ pixels. Some pixels)\<rparr>"

lemma pair_library_ok: "library_ok pair_library"
  by (simp add: library_ok_def pair_library_def)

theorem crop_shows_region_witness:
  "\<exists>p'. crop pair_library id 2 0 4 1 (new_raster [] 4 1 one_crop) = (KAttached, Some pixel_image, p')
     \<and> pr_pixels p' = Some ''rgbaRGBA''
     \<and> (\<exists>x1. \<forall>x < 2. x1 \<le> x \<and> x < x1 + ir_width pixel_image \<longleftrightarrow> (1 :: real) < real x + 1 \<and> real x < 2)"
proof -
  obtain p' where c: "crop pair_library id 2 0 4 1 (new_raster [] 4 1 one_crop) = (KAttached, Some pixel_image, p')"
    and p: "pr_pixels p' = Some ''rgbaRGBA''" "pr_width p' = 2"
    by (simp add: crop_def decode_def attach_region_def new_raster_def pair_library_def one_crop_def scale_def
        pixel_edge_def std_clamp_def kMaxRasterPixels_def copy_region_def length_pixel_uri pixel_image_def)
  have "pr_page_width (new_raster [] 4 1 one_crop) = 4" by (simp add: new_raster_def)
  with crop_shows_region [OF c new_raster_ok pair_library_ok] p
  have "\<exists>x1. \<forall>x < 2. x1 \<le> x \<and> x < x1 + ir_width pixel_image \<longleftrightarrow> (1 :: real) < real x + 1 \<and> real x < 2"
    by auto
  with c p show ?thesis by blast
qed

end
