(* ===== verification/Builder.thy ===== *)
theory Builder
  imports Image_Crop
begin

text \<open>
  \<^verbatim>\<open>src/mapping/builder.h\<close>: the document a page becomes, the items the mappers add to it,
  tables from rows of text, and the finishing pass that gives every item its reference.

  The messages of \<^verbatim>\<open>document.proto\<close> are records with the fields the mappers set; an unset
  sub-message is \<open>None\<close> and an unset string is empty.  A repeated field that is appended to
  grows at its end, so the item just added is the last one.
\<close>

section \<open>Documents\<close>

datatype doc_item_label =
    DOC_ITEM_LABEL_UNSPECIFIED | DOC_ITEM_LABEL_CAPTION | DOC_ITEM_LABEL_CHART
  | DOC_ITEM_LABEL_CHECKBOX_SELECTED | DOC_ITEM_LABEL_CHECKBOX_UNSELECTED | DOC_ITEM_LABEL_CODE
  | DOC_ITEM_LABEL_DOCUMENT_INDEX | DOC_ITEM_LABEL_EMPTY_VALUE | DOC_ITEM_LABEL_FOOTNOTE
  | DOC_ITEM_LABEL_FORM | DOC_ITEM_LABEL_FORMULA | DOC_ITEM_LABEL_GRADING_SCALE
  | DOC_ITEM_LABEL_HANDWRITTEN_TEXT | DOC_ITEM_LABEL_KEY_VALUE_REGION | DOC_ITEM_LABEL_LIST_ITEM
  | DOC_ITEM_LABEL_PAGE_FOOTER | DOC_ITEM_LABEL_PAGE_HEADER | DOC_ITEM_LABEL_PARAGRAPH
  | DOC_ITEM_LABEL_PICTURE | DOC_ITEM_LABEL_REFERENCE | DOC_ITEM_LABEL_SECTION_HEADER
  | DOC_ITEM_LABEL_TABLE | DOC_ITEM_LABEL_TEXT | DOC_ITEM_LABEL_TITLE
  | DOC_ITEM_LABEL_FIELD_REGION | DOC_ITEM_LABEL_FIELD_HEADING | DOC_ITEM_LABEL_FIELD_ITEM
  | DOC_ITEM_LABEL_FIELD_KEY | DOC_ITEM_LABEL_FIELD_VALUE | DOC_ITEM_LABEL_FIELD_HINT
  | DOC_ITEM_LABEL_MARKER | DOC_ITEM_LABEL_SEAL | DOC_ITEM_LABEL_ASIDE | DOC_ITEM_LABEL_ALGORITHM

datatype content_layer =
    CONTENT_LAYER_UNSPECIFIED | CONTENT_LAYER_BODY | CONTENT_LAYER_FURNITURE | CONTENT_LAYER_BACKGROUND
  | CONTENT_LAYER_INVISIBLE | CONTENT_LAYER_NOTES

datatype coord_origin = COORD_ORIGIN_UNSPECIFIED | COORD_ORIGIN_TOPLEFT | COORD_ORIGIN_BOTTOMLEFT

record bounding_box =
  bb_l :: real
  bb_t :: real
  bb_r :: real
  bb_b :: real
  bb_origin :: coord_origin

record provenance =
  pv_page_no :: int
  pv_bbox :: bounding_box
  pv_charspan :: "(int \<times> int) option"

datatype source_type = CollectorSource collector_source | GenerationSource generation_source

record item_base =
  it_self_ref :: string
  it_parent :: "string option"
  it_children :: "string list"
  it_label :: doc_item_label
  it_label_raw :: string
  it_layer :: content_layer
  it_prov :: "provenance list"
  it_source :: "source_type list"

datatype text_kind =
    KNotSet
  | KTitle
  | KSectionHeader int
  | KListItem bool string
  | KCode string
  | KFormula
  | KText
  | KFieldHeading int
  | KFieldValue string

datatype script = SCRIPT_UNSPECIFIED | SCRIPT_BASELINE | SCRIPT_SUB | SCRIPT_SUPER

record formatting =
  fm_bold :: bool
  fm_italic :: bool
  fm_underline :: bool
  fm_strikethrough :: bool
  fm_script :: script

datatype code_language_label =
    CODE_LANGUAGE_LABEL_UNSPECIFIED | CODE_LANGUAGE_LABEL_ADA | CODE_LANGUAGE_LABEL_AWK
  | CODE_LANGUAGE_LABEL_BASH | CODE_LANGUAGE_LABEL_BC | CODE_LANGUAGE_LABEL_C
  | CODE_LANGUAGE_LABEL_C_SHARP | CODE_LANGUAGE_LABEL_C_PLUS_PLUS | CODE_LANGUAGE_LABEL_CMAKE
  | CODE_LANGUAGE_LABEL_COBOL | CODE_LANGUAGE_LABEL_CSS | CODE_LANGUAGE_LABEL_CEYLON
  | CODE_LANGUAGE_LABEL_CLOJURE | CODE_LANGUAGE_LABEL_CRYSTAL | CODE_LANGUAGE_LABEL_CUDA
  | CODE_LANGUAGE_LABEL_CYTHON | CODE_LANGUAGE_LABEL_D | CODE_LANGUAGE_LABEL_DART
  | CODE_LANGUAGE_LABEL_DC | CODE_LANGUAGE_LABEL_DOCKERFILE | CODE_LANGUAGE_LABEL_ELIXIR
  | CODE_LANGUAGE_LABEL_ERLANG | CODE_LANGUAGE_LABEL_FORTRAN | CODE_LANGUAGE_LABEL_FORTH
  | CODE_LANGUAGE_LABEL_GO | CODE_LANGUAGE_LABEL_HTML | CODE_LANGUAGE_LABEL_HASKELL
  | CODE_LANGUAGE_LABEL_HAXE | CODE_LANGUAGE_LABEL_JAVA | CODE_LANGUAGE_LABEL_JAVASCRIPT
  | CODE_LANGUAGE_LABEL_JSON | CODE_LANGUAGE_LABEL_JULIA | CODE_LANGUAGE_LABEL_KOTLIN
  | CODE_LANGUAGE_LABEL_LISP | CODE_LANGUAGE_LABEL_LUA | CODE_LANGUAGE_LABEL_MATLAB
  | CODE_LANGUAGE_LABEL_MOONSCRIPT | CODE_LANGUAGE_LABEL_NIM | CODE_LANGUAGE_LABEL_OCAML
  | CODE_LANGUAGE_LABEL_OBJECTIVEC | CODE_LANGUAGE_LABEL_OCTAVE | CODE_LANGUAGE_LABEL_PHP
  | CODE_LANGUAGE_LABEL_PASCAL | CODE_LANGUAGE_LABEL_PERL | CODE_LANGUAGE_LABEL_PROLOG
  | CODE_LANGUAGE_LABEL_PYTHON | CODE_LANGUAGE_LABEL_RACKET | CODE_LANGUAGE_LABEL_RUBY
  | CODE_LANGUAGE_LABEL_RUST | CODE_LANGUAGE_LABEL_SML | CODE_LANGUAGE_LABEL_SQL
  | CODE_LANGUAGE_LABEL_SCALA | CODE_LANGUAGE_LABEL_SCHEME | CODE_LANGUAGE_LABEL_SWIFT
  | CODE_LANGUAGE_LABEL_TYPESCRIPT | CODE_LANGUAGE_LABEL_UNKNOWN | CODE_LANGUAGE_LABEL_VISUALBASIC
  | CODE_LANGUAGE_LABEL_XML | CODE_LANGUAGE_LABEL_YAML | CODE_LANGUAGE_LABEL_LATEX
  | CODE_LANGUAGE_LABEL_TIKZ | CODE_LANGUAGE_LABEL_DOCLANG

record text_item = item_base +
  tx_kind :: text_kind
  tx_orig :: string
  tx_text :: string
  tx_formatting :: "formatting option"
  tx_hyperlink :: string
  tx_captions :: "string list"
  tx_footnotes :: "string list"
  tx_code_language :: code_language_label

record table_cell =
  tc_text :: string
  tc_row_span :: int
  tc_col_span :: int
  tc_start_row :: int
  tc_end_row :: int
  tc_start_col :: int
  tc_end_col :: int
  tc_column_header :: bool
  tc_row_header :: bool
  tc_row_section :: bool
  tc_ref :: "string option"

record table_data =
  td_cells :: "table_cell list"
  td_num_rows :: int
  td_num_cols :: int
  td_grid :: "table_cell list list"

record table_item = item_base +
  tl_data :: table_data
  tl_captions :: "string list"
  tl_footnotes :: "string list"

text \<open>What is known of a picture, once in its metadata and once as an annotation.\<close>

record picture_meta =
  pm_description :: "(string \<times> string) option"
  pm_classification :: "(string \<times> string) list"
  pm_molecule :: "(string \<times> string) option"
  pm_tabular_chart :: "(string \<times> string \<times> table_data) option"

datatype picture_annotation =
    DescriptionAnnotation string string
  | ClassificationAnnotation string string
  | MoleculeAnnotation string string
  | TabularChartAnnotation string table_data

record picture_item = item_base +
  pc_image :: "image_ref option"
  pc_captions :: "string list"
  pc_footnotes :: "string list"
  pc_meta :: picture_meta
  pc_annotations :: "picture_annotation list"

datatype group_label =
    GROUP_LABEL_UNSPECIFIED | GROUP_LABEL_LIST | GROUP_LABEL_ORDERED_LIST | GROUP_LABEL_CHAPTER
  | GROUP_LABEL_SECTION | GROUP_LABEL_SHEET | GROUP_LABEL_SLIDE | GROUP_LABEL_FORM_AREA
  | GROUP_LABEL_KEY_VALUE_AREA | GROUP_LABEL_COMMENT_SECTION | GROUP_LABEL_INLINE
  | GROUP_LABEL_PICTURE_AREA

record group_item = item_base +
  gr_name :: string
  gr_label :: group_label
  gr_alternatives :: "alternatives option"

datatype graph_cell_label =
    GRAPH_CELL_LABEL_UNSPECIFIED | GRAPH_CELL_LABEL_KEY | GRAPH_CELL_LABEL_VALUE | GRAPH_CELL_LABEL_CHECKBOX

record graph_cell =
  gc_label :: graph_cell_label
  gc_cell_id :: int
  gc_text :: string
  gc_orig :: string
  gc_prov :: "provenance option"

datatype graph_link_label =
    GRAPH_LINK_LABEL_UNSPECIFIED | GRAPH_LINK_LABEL_TO_VALUE | GRAPH_LINK_LABEL_TO_KEY
  | GRAPH_LINK_LABEL_TO_PARENT | GRAPH_LINK_LABEL_TO_CHILD

record graph_link =
  gl_label :: graph_link_label
  gl_source :: int
  gl_target :: int

record key_value_item = item_base +
  kv_cells :: "graph_cell list"
  kv_links :: "graph_link list"

record page_item =
  pi_page_no :: int
  pi_width :: real
  pi_height :: real

record document =
  doc_schema_name :: string
  doc_version :: string
  doc_name :: string
  doc_body :: group_item
  doc_texts :: "text_item list"
  doc_pictures :: "picture_item list"
  doc_tables :: "table_item list"
  doc_key_value_items :: "key_value_item list"
  doc_groups :: "group_item list"
  doc_field_regions :: "item_base list"
  doc_pages :: "int \<rightharpoonup> page_item"

definition empty_group :: group_item where
  "empty_group = \<lparr>it_self_ref = [], it_parent = None, it_children = [],
     it_label = DOC_ITEM_LABEL_UNSPECIFIED, it_label_raw = [], it_layer = CONTENT_LAYER_UNSPECIFIED,
     it_prov = [], it_source = [], gr_name = [], gr_label = GROUP_LABEL_UNSPECIFIED,
     gr_alternatives = None\<rparr>"

definition empty_picture_meta :: picture_meta where
  "empty_picture_meta = \<lparr>pm_description = None, pm_classification = [], pm_molecule = None,
     pm_tabular_chart = None\<rparr>"

definition empty_document :: document where
  "empty_document = \<lparr>doc_schema_name = [], doc_version = [], doc_name = [], doc_body = empty_group,
     doc_texts = [], doc_pictures = [], doc_tables = [], doc_key_value_items = [], doc_groups = [],
     doc_field_regions = [], doc_pages = Map.empty\<rparr>"

definition empty_table_data :: table_data where
  "empty_table_data = \<lparr>td_cells = [], td_num_rows = 0, td_num_cols = 0, td_grid = []\<rparr>"

section \<open>Provenance\<close>

text \<open>\<^verbatim>\<open>static_cast<int32_t>\<close> of an unsigned 32-bit number.\<close>

definition to_int32 :: "nat \<Rightarrow> int" where
  "to_int32 n = (if n < 2 ^ 31 then int n else int n - 2 ^ 32)"

definition full_page_box :: "page_context \<Rightarrow> bounding_box" where
  "full_page_box page =
     \<lparr>bb_l = 0, bb_t = 0, bb_r = real (pg_width page), bb_b = real (pg_height page),
      bb_origin = COORD_ORIGIN_TOPLEFT\<rparr>"

definition make_prov :: "page_context \<Rightarrow> bounding_box \<Rightarrow> provenance" where
  "make_prov page box = \<lparr>pv_page_no = to_int32 (pg_no page), pv_bbox = box, pv_charspan = None\<rparr>"

definition page_prov :: "page_context \<Rightarrow> provenance" where
  "page_prov page = make_prov page (full_page_box page)"

definition page_sources :: "page_context \<Rightarrow> source_type list" where
  "page_sources page = CollectorSource (pg_source page)
     # (case pg_generation page of None \<Rightarrow> [] | Some g \<Rightarrow> [GenerationSource g])"

section \<open>Adding items\<close>

definition fill_text_base ::
  "page_context \<Rightarrow> doc_item_label \<Rightarrow> provenance \<Rightarrow> text_kind \<Rightarrow> string \<Rightarrow> text_item" where
  "fill_text_base page label prov kind text =
     \<lparr>it_self_ref = [], it_parent = None, it_children = [], it_label = label, it_label_raw = [],
      it_layer = CONTENT_LAYER_BODY, it_prov = [prov], it_source = page_sources page, tx_kind = kind,
      tx_orig = text, tx_text = text, tx_formatting = None, tx_hyperlink = [], tx_captions = [],
      tx_footnotes = [], tx_code_language = CODE_LANGUAGE_LABEL_UNSPECIFIED\<rparr>"

definition push_text :: "text_item \<Rightarrow> document \<Rightarrow> document" where
  "push_text item doc = doc\<lparr>doc_texts := doc_texts doc @ [item]\<rparr>"

definition add_text ::
  "page_context \<Rightarrow> doc_item_label \<Rightarrow> provenance \<Rightarrow> string \<Rightarrow> document \<Rightarrow> document" where
  "add_text page label prov text = push_text (fill_text_base page label prov KText text)"

definition add_section_header ::
  "page_context \<Rightarrow> int \<Rightarrow> provenance \<Rightarrow> string \<Rightarrow> document \<Rightarrow> document" where
  "add_section_header page level prov text =
     push_text (fill_text_base page DOC_ITEM_LABEL_SECTION_HEADER prov (KSectionHeader level) text)"

definition add_title :: "page_context \<Rightarrow> provenance \<Rightarrow> string \<Rightarrow> document \<Rightarrow> document" where
  "add_title page prov text = push_text (fill_text_base page DOC_ITEM_LABEL_TITLE prov KTitle text)"

definition add_list_item ::
  "page_context \<Rightarrow> provenance \<Rightarrow> string \<Rightarrow> bool \<Rightarrow> string \<Rightarrow> document \<Rightarrow> document" where
  "add_list_item page prov text enumerated marker =
     push_text (fill_text_base page DOC_ITEM_LABEL_LIST_ITEM prov (KListItem enumerated marker) text)"

definition add_code ::
  "page_context \<Rightarrow> provenance \<Rightarrow> string \<Rightarrow> string \<Rightarrow> document \<Rightarrow> document" where
  "add_code page prov text language_raw =
     push_text (fill_text_base page DOC_ITEM_LABEL_CODE prov (KCode language_raw) text)"

definition add_formula :: "page_context \<Rightarrow> provenance \<Rightarrow> string \<Rightarrow> document \<Rightarrow> document" where
  "add_formula page prov text =
     push_text (fill_text_base page DOC_ITEM_LABEL_FORMULA prov KFormula text)"

definition add_picture :: "page_context \<Rightarrow> provenance \<Rightarrow> document \<Rightarrow> document" where
  "add_picture page prov doc =
     doc\<lparr>doc_pictures := doc_pictures doc @
       [\<lparr>it_self_ref = [], it_parent = None, it_children = [], it_label = DOC_ITEM_LABEL_PICTURE,
         it_label_raw = [], it_layer = CONTENT_LAYER_BODY, it_prov = [prov],
         it_source = page_sources page, pc_image = None, pc_captions = [], pc_footnotes = [],
         pc_meta = empty_picture_meta, pc_annotations = []\<rparr>]\<rparr>"

definition add_table :: "page_context \<Rightarrow> provenance \<Rightarrow> document \<Rightarrow> document" where
  "add_table page prov doc =
     doc\<lparr>doc_tables := doc_tables doc @
       [\<lparr>it_self_ref = [], it_parent = None, it_children = [], it_label = DOC_ITEM_LABEL_TABLE,
         it_label_raw = [], it_layer = CONTENT_LAYER_BODY, it_prov = [prov],
         it_source = page_sources page, tl_data = empty_table_data, tl_captions = [],
         tl_footnotes = []\<rparr>]\<rparr>"

text \<open>The table just added is given its data.\<close>

definition set_last_table_data :: "table_data \<Rightarrow> document \<Rightarrow> document" where
  "set_last_table_data data doc =
     (let i = length (doc_tables doc) - 1
      in doc\<lparr>doc_tables := (doc_tables doc)[i := (doc_tables doc ! i)\<lparr>tl_data := data\<rparr>]\<rparr>)"

section \<open>Tables\<close>

definition kMaxTableRows :: nat where "kMaxTableRows = 2000"
definition kMaxTableCols :: nat where "kMaxTableCols = 250"
definition kMaxTableCells :: nat where "kMaxTableCells = 50000"
definition kMaxGridBytes :: nat where "kMaxGridBytes = 32 * 1024 * 1024"

lemmas table_caps = kMaxTableRows_def kMaxTableCols_def kMaxTableCells_def

record table_cut =
  cut_source_rows :: nat
  cut_source_cols :: nat
  cut_truncated :: bool
  cut_grid_omitted :: bool

definition kept_table_shape :: "nat \<Rightarrow> nat \<Rightarrow> nat \<times> nat" where
  "kept_table_shape rows cols =
     (let kept_cols = min cols kMaxTableCols; kept_rows = min rows kMaxTableRows
      in (if 0 < kept_cols then min kept_rows (kMaxTableCells div kept_cols) else kept_rows, kept_cols))"

definition PAGE_WARNING_CODE_TABLE_TRUNCATED :: nat where "PAGE_WARNING_CODE_TABLE_TRUNCATED = 1"
definition PAGE_WARNING_CODE_TABLE_GRID_OMITTED :: nat where "PAGE_WARNING_CODE_TABLE_GRID_OMITTED = 2"

definition note_table_cut :: "table_cut \<Rightarrow> table_data \<Rightarrow> string \<Rightarrow> string \<Rightarrow> warning list" where
  "note_table_cut report data what ref =
     (if cut_truncated report
      then [\<lparr>wn_code = PAGE_WARNING_CODE_TABLE_TRUNCATED,
             wn_message = what @ '' held '' @ show_nat (cut_source_rows report) @ '' rows by ''
               @ show_nat (cut_source_cols report) @ '' columns; kept the first ''
               @ show_int (td_num_rows data) @ '' by '' @ show_int (td_num_cols data) @ '' (caps: ''
               @ show_nat kMaxTableRows @ '' rows, '' @ show_nat kMaxTableCols @ '' columns, ''
               @ show_nat kMaxTableCells @ '' cells)'',
             wn_ref = ref\<rparr>] else [])
     @ (if cut_grid_omitted report
        then [\<lparr>wn_code = PAGE_WARNING_CODE_TABLE_GRID_OMITTED,
               wn_message = what @ '' grid would cost more than '' @ show_nat kMaxGridBytes
                 @ '' bytes of cell copies (overlapping or long spanned cells); kept its ''
                 @ show_nat (length (td_cells data)) @ '' cells with an empty grid'',
               wn_ref = ref\<rparr>] else [])"

definition unit_cell :: "nat \<Rightarrow> nat \<Rightarrow> table_cell" where
  "unit_cell r c =
     \<lparr>tc_text = [], tc_row_span = 1, tc_col_span = 1, tc_start_row = int r, tc_end_row = int r + 1,
      tc_start_col = int c, tc_end_col = int c + 1, tc_column_header = False,
      tc_row_header = False, tc_row_section = False, tc_ref = None\<rparr>"

definition text_cell :: "nat \<Rightarrow> string list list \<Rightarrow> nat \<Rightarrow> nat \<Rightarrow> table_cell" where
  "text_cell header_rows rows r c =
     (if c < length (rows ! r)
      then (unit_cell r c)\<lparr>tc_text := rows ! r ! c, tc_column_header := r < header_rows\<rparr>
      else unit_cell r c)"

definition widest :: "'a list list \<Rightarrow> nat" where
  "widest rows = fold (\<lambda>row m. max m (length row)) rows 0"

definition fill_table_data ::
  "string list list \<Rightarrow> nat \<Rightarrow> table_data \<Rightarrow> table_data \<times> table_cut" where
  "fill_table_data rows header_rows data =
     (let source_rows = length rows; source_cols = widest rows;
          (num_rows, kept_cols) = kept_table_shape source_rows source_cols;
          num_cols = fold (\<lambda>row m. max m (min (length row) kept_cols)) (take num_rows rows) 0;
          cell = text_cell header_rows rows
      in (\<lparr>td_cells = td_cells data @ concat (map (\<lambda>r. map (cell r)
                         (filter (\<lambda>c. c < length (rows ! r)) [0..<num_cols])) [0..<num_rows]),
           td_num_rows = int num_rows, td_num_cols = int num_cols,
           td_grid = td_grid data @ map (\<lambda>r. map (cell r) [0..<num_cols]) [0..<num_rows]\<rparr>,
          \<lparr>cut_source_rows = source_rows, cut_source_cols = source_cols,
           cut_truncated = (num_rows < source_rows \<or> kept_cols < source_cols),
           cut_grid_omitted = False\<rparr>))"

section \<open>References\<close>

datatype child_kind = TEXT | PICTURE | TABLE | KEY_VALUE | GROUP | FIELD_REGION

type_synonym body_child = "child_kind \<times> nat"

definition child_list :: "child_kind \<Rightarrow> string" where
  "child_list kind =
     (case kind of
        TEXT \<Rightarrow> ''texts''
      | PICTURE \<Rightarrow> ''pictures''
      | TABLE \<Rightarrow> ''tables''
      | KEY_VALUE \<Rightarrow> ''key_value_items''
      | GROUP \<Rightarrow> ''groups''
      | FIELD_REGION \<Rightarrow> ''field_regions'')"

definition body_child_ref :: "child_kind \<Rightarrow> nat \<Rightarrow> string" where
  "body_child_ref kind index = ''#/'' @ child_list kind @ ''/'' @ show_nat index"

definition kBody :: string where
  "kBody = ''#/body''"

text \<open>An item whose kind is not set has no base to stamp.\<close>

definition stamp_text_item :: "string \<Rightarrow> string \<Rightarrow> text_item \<Rightarrow> text_item" where
  "stamp_text_item self_ref parent_ref item =
     (case tx_kind item of
        KNotSet \<Rightarrow> item
      | _ \<Rightarrow> item\<lparr>it_self_ref := self_ref, it_parent := Some parent_ref\<rparr>)"

definition stamp_item :: "string \<Rightarrow> string \<Rightarrow> 'a item_base_scheme \<Rightarrow> 'a item_base_scheme" where
  "stamp_item self_ref parent_ref item = item\<lparr>it_self_ref := self_ref, it_parent := Some parent_ref\<rparr>"

text \<open>\<^verbatim>\<open>doc->mutable_xs(i)\<close>, for an index within the list.\<close>

definition at_index :: "nat \<Rightarrow> ('a \<Rightarrow> 'a) \<Rightarrow> 'a list \<Rightarrow> 'a list" where
  "at_index i f xs = xs[i := f (xs ! i)]"

definition stamp_child :: "body_child \<Rightarrow> document \<Rightarrow> document" where
  "stamp_child child doc =
     (case child of (kind, i) \<Rightarrow>
        let ref = body_child_ref kind i;
            doc' = (case kind of
                      TEXT \<Rightarrow> doc\<lparr>doc_texts := at_index i (stamp_text_item ref kBody) (doc_texts doc)\<rparr>
                    | PICTURE \<Rightarrow> doc\<lparr>doc_pictures := at_index i (stamp_item ref kBody) (doc_pictures doc)\<rparr>
                    | TABLE \<Rightarrow> doc\<lparr>doc_tables := at_index i (stamp_item ref kBody) (doc_tables doc)\<rparr>
                    | KEY_VALUE \<Rightarrow>
                        doc\<lparr>doc_key_value_items := at_index i (stamp_item ref kBody) (doc_key_value_items doc)\<rparr>
                    | FIELD_REGION \<Rightarrow>
                        doc\<lparr>doc_field_regions := at_index i (stamp_item ref kBody) (doc_field_regions doc)\<rparr>
                    | GROUP \<Rightarrow> doc\<lparr>doc_groups := at_index i (stamp_item ref kBody) (doc_groups doc)\<rparr>)
        in doc'\<lparr>doc_body := (doc_body doc')\<lparr>it_children := it_children (doc_body doc') @ [ref]\<rparr>\<rparr>)"

definition finalize_ordered :: "page_context \<Rightarrow> body_child list \<Rightarrow> document \<Rightarrow> document" where
  "finalize_ordered page order doc =
     (let doc1 = doc\<lparr>doc_schema_name := ''docling_document_v2'', doc_version := ''1.10.0'',
                     doc_name := ''page-'' @ show_nat (pg_no page),
                     doc_body := (doc_body doc)\<lparr>it_self_ref := kBody, it_layer := CONTENT_LAYER_BODY,
                       gr_alternatives := (case pg_alternatives page of
                          None \<Rightarrow> gr_alternatives (doc_body doc) | Some a \<Rightarrow> Some a)\<rparr>\<rparr>;
          doc2 = fold stamp_child order doc1; n = to_int32 (pg_no page)
      in doc2\<lparr>doc_pages := (doc_pages doc2)(n \<mapsto>
            \<lparr>pi_page_no = n, pi_width = real (pg_width page), pi_height = real (pg_height page)\<rparr>)\<rparr>)"

definition list_order :: "document \<Rightarrow> body_child list" where
  "list_order doc = map (Pair TEXT) [0..<length (doc_texts doc)]
     @ map (Pair PICTURE) [0..<length (doc_pictures doc)]
     @ map (Pair TABLE) [0..<length (doc_tables doc)]"

definition finalize_document :: "page_context \<Rightarrow> document \<Rightarrow> document" where
  "finalize_document page doc = finalize_ordered page (list_order doc) doc"

section \<open>Shapes\<close>

lemma kept_shape_bounds:
  assumes "kept_table_shape rows cols = (r, c)"
  shows "r \<le> rows \<and> c \<le> cols \<and> r \<le> kMaxTableRows \<and> c \<le> kMaxTableCols \<and> r * c \<le> kMaxTableCells"
proof -
  have c: "c = min cols kMaxTableCols" and
    r: "r = (if 0 < c then min (min rows kMaxTableRows) (kMaxTableCells div c) else min rows kMaxTableRows)"
    using assms by (auto simp: kept_table_shape_def Let_def)
  have "r * c \<le> kMaxTableCells"
  proof (cases "0 < c")
    case True
    then have "r * c \<le> (kMaxTableCells div c) * c" by (simp add: r)
    then show ?thesis using div_times_less_eq_dividend le_trans by blast
  qed simp
  moreover have "r \<le> min rows kMaxTableRows" unfolding r by (auto intro: min.cobounded1)
  ultimately show ?thesis using c by simp
qed

lemma kept_shape_all:
  assumes "rows \<le> kMaxTableRows" and "cols \<le> kMaxTableCols" and "rows * cols \<le> kMaxTableCells"
  shows "kept_table_shape rows cols = (rows, cols)"
proof -
  have "rows \<le> kMaxTableCells div cols" if "0 < cols"
    using assms(3) that by (metis div_le_mono nonzero_mult_div_cancel_right not_gr_zero)
  with assms show ?thesis by (auto simp: kept_table_shape_def Let_def)
qed

lemma fold_max_le: "(\<forall>x \<in> set xs. f x \<le> b) \<Longrightarrow> a \<le> b \<Longrightarrow> fold (\<lambda>x m. max m (f x)) xs a \<le> (b :: nat)"
  by (induction xs arbitrary: a) auto

lemma le_fold_max: "(x \<in> set xs \<longrightarrow> f x \<le> fold (\<lambda>x m. max m (f x)) xs (a :: nat)) \<and> a \<le> fold (\<lambda>x m. max m (f x)) xs a"
proof (induction xs arbitrary: a)
  case (Cons y ys)
  have "max a (f y) \<le> fold (\<lambda>x m. max m (f x)) ys (max a (f y))" using Cons by blast
  with Cons [of "max a (f y)"] show ?case by auto
qed simp

lemma length_le_widest: "row \<in> set rows \<Longrightarrow> length row \<le> widest rows"
  unfolding widest_def using le_fold_max [of row rows length 0] by blast

text \<open>A table is at most as large as the caps, and its grid is missing or rectangular.\<close>

definition table_ok :: "table_data \<Rightarrow> bool" where
  "table_ok data \<longleftrightarrow>
     0 \<le> td_num_rows data \<and> td_num_rows data \<le> int kMaxTableRows
     \<and> 0 \<le> td_num_cols data \<and> td_num_cols data \<le> int kMaxTableCols
     \<and> td_num_rows data * td_num_cols data \<le> int kMaxTableCells
     \<and> (td_grid data = []
        \<or> int (length (td_grid data)) = td_num_rows data
          \<and> (\<forall>row \<in> set (td_grid data). int (length row) = td_num_cols data))"

lemma empty_table_ok: "table_ok empty_table_data"
  by (simp add: table_ok_def empty_table_data_def)

lemma kept_width_le: "fold (\<lambda>row m. max m (min (length row) k)) rows 0 \<le> k"
  by (rule fold_max_le) simp_all

lemma fill_table_ok: "table_ok (fst (fill_table_data rows header_rows empty_table_data))"
proof -
  obtain nr kc where k: "kept_table_shape (length rows) (widest rows) = (nr, kc)" by fastforce
  let ?nc = "fold (\<lambda>row m. max m (min (length row) kc)) (take nr rows) 0"
  have b: "?nc \<le> kc" by (rule kept_width_le)
  have "nr * ?nc \<le> nr * kc" using b by simp
  then have "nr * ?nc \<le> kMaxTableCells" using kept_shape_bounds [OF k] le_trans by blast
  then have c: "int nr * int ?nc \<le> int kMaxTableCells" by (metis of_nat_mult of_nat_le_iff)
  show ?thesis
    using kept_shape_bounds [OF k] b c
    by (simp add: fill_table_data_def k Let_def table_ok_def empty_table_data_def)
qed

section \<open>A draft and its items\<close>

definition stamped :: "page_context \<Rightarrow> 'a item_base_scheme \<Rightarrow> bool" where
  "stamped page item \<longleftrightarrow>
     it_source item = page_sources page \<and> (\<exists>prov. it_prov item = [prov] \<and> pv_page_no prov = to_int32 (pg_no page))
     \<and> it_layer item \<noteq> CONTENT_LAYER_UNSPECIFIED"

definition attributed :: "page_context \<Rightarrow> document \<Rightarrow> bool" where
  "attributed page doc \<longleftrightarrow>
     (\<forall>t \<in> set (doc_texts doc). stamped page t \<and> tx_kind t \<noteq> KNotSet)
     \<and> (\<forall>p \<in> set (doc_pictures doc). stamped page p)
     \<and> (\<forall>t \<in> set (doc_tables doc). stamped page t \<and> table_ok (tl_data t))"

definition draft :: "page_context \<Rightarrow> document \<Rightarrow> bool" where
  "draft page doc \<longleftrightarrow>
     attributed page doc \<and> it_children (doc_body doc) = [] \<and> doc_groups doc = []
     \<and> doc_key_value_items doc = [] \<and> doc_field_regions doc = []"

definition items :: "document \<Rightarrow> nat" where
  "items doc = length (doc_texts doc) + length (doc_pictures doc) + length (doc_tables doc)"

lemma empty_draft [keeps]: "draft page empty_document"
  by (simp add: draft_def attributed_def empty_document_def empty_group_def)

lemma empty_document_items [simp]: "items empty_document = 0" "gr_alternatives (doc_body empty_document) = None"
  by (simp_all add: items_def empty_document_def empty_group_def)

text \<open>What every operation that adds an item promises.\<close>

locale item_adder =
  fixes add :: "page_context \<Rightarrow> document \<Rightarrow> document"
  assumes add_draft: "draft page doc \<Longrightarrow> draft page (add page doc)"
    and add_one: "items (add page doc) = Suc (items doc)"
begin

lemma add_many: "draft page doc \<Longrightarrow> draft page ((add page ^^ n) doc) \<and> items ((add page ^^ n) doc) = n + items doc"
  by (induction n) (simp_all add: add_draft add_one)

end

lemmas item_ops = fill_text_base_def push_text_def draft_def attributed_def stamped_def items_def make_prov_def

interpretation texts: item_adder "\<lambda>page. add_text page label (make_prov page (box page)) t" for label box t
  by unfold_locales (auto simp: add_text_def item_ops)

interpretation headers: item_adder "\<lambda>page. add_section_header page level (make_prov page (box page)) t" for level box t
  by unfold_locales (auto simp: add_section_header_def item_ops)

interpretation titles: item_adder "\<lambda>page. add_title page (make_prov page (box page)) t" for box t
  by unfold_locales (auto simp: add_title_def item_ops)

interpretation list_items: item_adder "\<lambda>page. add_list_item page (make_prov page (box page)) t e m" for box t e m
  by unfold_locales (auto simp: add_list_item_def item_ops)

interpretation codes: item_adder "\<lambda>page. add_code page (make_prov page (box page)) t l" for box t l
  by unfold_locales (auto simp: add_code_def item_ops)

interpretation formulas: item_adder "\<lambda>page. add_formula page (make_prov page (box page)) t" for box t
  by unfold_locales (auto simp: add_formula_def item_ops)

interpretation pictures: item_adder "\<lambda>page. add_picture page (make_prov page (box page))" for box
  by unfold_locales (auto simp: add_picture_def item_ops)

interpretation tables: item_adder "\<lambda>page. add_table page (make_prov page (box page))" for box
  by unfold_locales (auto simp: add_table_def item_ops empty_table_ok)

lemma set_last_table_draft [keeps]:
  assumes "draft page doc" and "table_ok data"
  shows "draft page (set_last_table_data data doc)"
proof (cases "doc_tables doc = []")
  case True
  with assms show ?thesis by (simp add: set_last_table_data_def draft_def attributed_def)
next
  case False
  then have "doc_tables doc ! (length (doc_tables doc) - 1) \<in> set (doc_tables doc)" by simp
  with assms show ?thesis
    by (auto simp: set_last_table_data_def draft_def attributed_def stamped_def Let_def
        dest!: set_update_subset_insert [THEN subsetD])
qed

lemma set_last_table_items [simp]: "items (set_last_table_data data doc) = items doc"
  by (simp add: set_last_table_data_def items_def Let_def)

lemmas page_adds [keeps] = texts.add_draft [where box = full_page_box, folded page_prov_def]
  headers.add_draft [where box = full_page_box, folded page_prov_def]
  list_items.add_draft [where box = full_page_box, folded page_prov_def]
  codes.add_draft [where box = full_page_box, folded page_prov_def]
  tables.add_draft [where box = full_page_box, folded page_prov_def]

lemmas page_counts [simp] = texts.add_one [where box = full_page_box, folded page_prov_def]
  headers.add_one [where box = full_page_box, folded page_prov_def]
  list_items.add_one [where box = full_page_box, folded page_prov_def]
  codes.add_one [where box = full_page_box, folded page_prov_def]
  tables.add_one [where box = full_page_box, folded page_prov_def]

section \<open>References after the finishing pass\<close>

definition refs_of :: "'a item_base_scheme \<Rightarrow> string \<times> string option" where
  "refs_of item = (it_self_ref item, it_parent item)"

definition nth_option :: "'a list \<Rightarrow> nat \<Rightarrow> 'a option" where
  "nth_option xs i = (if i < length xs then Some (xs ! i) else None)"

text \<open>The references of the item a child names, if there is one.\<close>

definition child_refs :: "document \<Rightarrow> body_child \<Rightarrow> (string \<times> string option) option" where
  "child_refs doc child =
     (case child of
        (TEXT, i) \<Rightarrow> map_option refs_of (nth_option (doc_texts doc) i)
      | (PICTURE, i) \<Rightarrow> map_option refs_of (nth_option (doc_pictures doc) i)
      | (TABLE, i) \<Rightarrow> map_option refs_of (nth_option (doc_tables doc) i)
      | (KEY_VALUE, i) \<Rightarrow> map_option refs_of (nth_option (doc_key_value_items doc) i)
      | (GROUP, i) \<Rightarrow> map_option refs_of (nth_option (doc_groups doc) i)
      | (FIELD_REGION, i) \<Rightarrow> map_option refs_of (nth_option (doc_field_regions doc) i))"

definition kinds_set :: "document \<Rightarrow> bool" where
  "kinds_set doc \<longleftrightarrow> (\<forall>t \<in> set (doc_texts doc). tx_kind t \<noteq> KNotSet)"

lemma show_nat_inject [simp]: "show_nat m = show_nat n \<longleftrightarrow> m = n"
  by (metis digits_value_show_nat)

lemma show_nat_no_slash: "CHR ''/'' \<notin> set (show_nat n)"
  using show_nat_digits [of n] by (auto simp: list_all_iff is_digit_def code_def)

lemma child_list_no_slash: "CHR ''/'' \<notin> set (child_list kind)"
  by (cases kind) (simp_all add: child_list_def)

lemma child_list_inject: "child_list k = child_list k' \<Longrightarrow> k = k'"
  by (cases k; cases k') (simp_all add: child_list_def)

lemma body_child_ref_inject: "body_child_ref k i = body_child_ref k' i' \<longleftrightarrow> k = k' \<and> i = i'"
proof
  assume "body_child_ref k i = body_child_ref k' i'"
  then have e: "child_list k @ CHR ''/'' # show_nat i = child_list k' @ CHR ''/'' # show_nat i'"
    by (simp add: body_child_ref_def)
  have "child_list k = child_list k'"
    using arg_cong [OF e, of "takeWhile (\<lambda>c. c \<noteq> CHR ''/'')"] by (simp add: cuts child_list_no_slash)
  with e show "k = k' \<and> i = i'" by (auto dest: child_list_inject)
qed simp

lemma refs_of_stamp: "refs_of (stamp_item ref parent item) = (ref, Some parent)"
  by (simp add: refs_of_def stamp_item_def)

lemma refs_of_stamp_text: "tx_kind item \<noteq> KNotSet \<Longrightarrow> refs_of (stamp_text_item ref parent item) = (ref, Some parent)"
  by (auto simp: refs_of_def stamp_text_item_def split: text_kind.splits)

lemma nth_option_at_index:
  "nth_option (at_index i f xs) j = (if i = j then map_option f (nth_option xs j) else nth_option xs j)"
  by (simp add: nth_option_def at_index_def)

lemma map_option_stamp: "x \<noteq> None \<Longrightarrow> map_option refs_of (map_option (stamp_item ref parent) x) = Some (ref, Some parent)"
  by (auto simp: refs_of_stamp)

lemma child_refs_stamp:
  assumes "child_refs doc child \<noteq> None" and "kinds_set doc"
  shows "child_refs (stamp_child child doc) other =
    (if other = child then Some (body_child_ref (fst child) (snd child), Some kBody) else child_refs doc other)"
proof -
  obtain k i where c: "child = (k, i)" by fastforce
  obtain k' i' where o: "other = (k', i')" by fastforce
  show ?thesis
  proof (cases k)
    case TEXT
    then obtain t where t: "nth_option (doc_texts doc) i = Some t" using assms(1) c by (auto simp: child_refs_def)
    then have "tx_kind t \<noteq> KNotSet" using assms(2) by (auto simp: kinds_set_def nth_option_def split: if_splits)
    then show ?thesis
      using TEXT c o t
      by (cases k') (auto simp: stamp_child_def child_refs_def nth_option_at_index refs_of_stamp_text Let_def)
  qed (use assms(1) c o in \<open>cases k'; auto simp: stamp_child_def child_refs_def nth_option_at_index refs_of_stamp Let_def\<close>)+
qed

lemma stamp_text_kind: "tx_kind (stamp_text_item ref parent item) = tx_kind item"
  by (simp add: stamp_text_item_def split: text_kind.splits)

lemma set_at_index: "x \<in> set (at_index i f xs) \<Longrightarrow> x \<in> set xs \<or> (i < length xs \<and> x = f (xs ! i))"
  by (cases "i < length xs")
    (auto simp: at_index_def list_update_beyond dest: set_update_subset_insert [THEN subsetD])

lemma kinds_set_stamp: "kinds_set doc \<Longrightarrow> kinds_set (stamp_child child doc)"
  by (cases child; cases "fst child")
    (auto simp: kinds_set_def stamp_child_def Let_def stamp_text_kind dest!: set_at_index)

lemma stamp_child_children:
  "it_children (doc_body (stamp_child child doc)) = it_children (doc_body doc) @ [body_child_ref (fst child) (snd child)]"
  by (cases child; cases "fst child") (simp_all add: stamp_child_def Let_def)

lemma fold_stamp:
  assumes "kinds_set doc" and "\<forall>c \<in> set order. child_refs doc c \<noteq> None"
  shows "kinds_set (fold stamp_child order doc)
    \<and> it_children (doc_body (fold stamp_child order doc))
        = it_children (doc_body doc) @ map (\<lambda>c. body_child_ref (fst c) (snd c)) order
    \<and> (\<forall>c. child_refs (fold stamp_child order doc) c =
         (if c \<in> set order then Some (body_child_ref (fst c) (snd c), Some kBody) else child_refs doc c))"
  using assms
proof (induction order arbitrary: doc)
  case (Cons ch order)
  have ch: "child_refs doc ch \<noteq> None" using Cons.prems(2) by simp
  have "\<forall>c \<in> set order. child_refs (stamp_child ch doc) c \<noteq> None"
    using Cons.prems(2) by (simp add: child_refs_stamp [OF ch Cons.prems(1)])
  from Cons.IH [OF kinds_set_stamp [OF Cons.prems(1)] this]
  show ?case by (auto simp: stamp_child_children child_refs_stamp [OF ch Cons.prems(1)])
qed simp

lemma draft_kinds: "draft page doc \<Longrightarrow> kinds_set doc"
  by (simp add: draft_def attributed_def kinds_set_def)

lemma list_order_refs: "c \<in> set (list_order doc) \<Longrightarrow> child_refs doc c \<noteq> None"
  by (auto simp: list_order_def child_refs_def nth_option_def)

lemma in_list_order:
  "child_refs doc c \<noteq> None \<Longrightarrow> doc_groups doc = [] \<Longrightarrow> doc_key_value_items doc = [] \<Longrightarrow>
     doc_field_regions doc = [] \<Longrightarrow> c \<in> set (list_order doc)"
  by (auto simp: list_order_def child_refs_def nth_option_def split: prod.splits child_kind.splits if_splits)

lemma distinct_list_order: "distinct (list_order doc)"
  by (auto simp: list_order_def distinct_map inj_on_def)

text \<open>
  A finished fragment: every item is attributed to the page, the children of the body are
  the references of all items, each once, and a reference names the item that carries it.
\<close>

definition fragment_ok :: "page_context \<Rightarrow> document \<Rightarrow> bool" where
  "fragment_ok page doc \<longleftrightarrow>
     attributed page doc \<and> 0 < items doc
     \<and> distinct (it_children (doc_body doc))
     \<and> it_children (doc_body doc) = map (\<lambda>c. body_child_ref (fst c) (snd c)) (list_order doc)
     \<and> (\<forall>c \<in> set (list_order doc).
          child_refs doc c = Some (body_child_ref (fst c) (snd c), Some (it_self_ref (doc_body doc))))
     \<and> it_self_ref (doc_body doc) = kBody
     \<and> gr_alternatives (doc_body doc) = pg_alternatives page
     \<and> doc_pages doc (to_int32 (pg_no page)) = Some \<lparr>pi_page_no = to_int32 (pg_no page),
          pi_width = real (pg_width page), pi_height = real (pg_height page)\<rparr>"

lemma stamp_child_frame:
  "length (doc_texts (stamp_child c doc)) = length (doc_texts doc)"
  "length (doc_pictures (stamp_child c doc)) = length (doc_pictures doc)"
  "length (doc_tables (stamp_child c doc)) = length (doc_tables doc)"
  "it_self_ref (doc_body (stamp_child c doc)) = it_self_ref (doc_body doc)"
  "gr_alternatives (doc_body (stamp_child c doc)) = gr_alternatives (doc_body doc)"
  by (cases c; cases "fst c"; simp add: stamp_child_def Let_def at_index_def)+

lemma stamped_stamp: "stamped page (stamp_item ref parent item) = stamped page item"
  by (simp add: stamped_def stamp_item_def)

lemma stamped_stamp_text: "stamped page (stamp_text_item ref parent item) = stamped page item"
  by (simp add: stamped_def stamp_text_item_def split: text_kind.splits)

lemma stamp_item_data: "tl_data (stamp_item ref parent item) = tl_data item"
  by (simp add: stamp_item_def)

lemma attributed_stamp: "attributed page doc \<Longrightarrow> attributed page (stamp_child c doc)"
  by (cases c; cases "fst c")
    (auto simp: attributed_def stamp_child_def Let_def stamped_stamp stamped_stamp_text
      stamp_text_kind stamp_item_data dest!: set_at_index)

lemma fold_stamp_frame:
  "length (doc_texts (fold stamp_child order doc)) = length (doc_texts doc)
     \<and> length (doc_pictures (fold stamp_child order doc)) = length (doc_pictures doc)
     \<and> length (doc_tables (fold stamp_child order doc)) = length (doc_tables doc)
     \<and> it_self_ref (doc_body (fold stamp_child order doc)) = it_self_ref (doc_body doc)
     \<and> gr_alternatives (doc_body (fold stamp_child order doc)) = gr_alternatives (doc_body doc)
     \<and> (attributed page doc \<longrightarrow> attributed page (fold stamp_child order doc))"
  by (induction order arbitrary: doc) (auto simp: stamp_child_frame attributed_stamp)

lemma finalize_fragment:
  assumes "draft page doc" and "0 < items doc" and "gr_alternatives (doc_body doc) = None"
  shows "fragment_ok page (finalize_document page doc)"
proof -
  define doc1 where "doc1 = doc\<lparr>doc_schema_name := ''docling_document_v2'', doc_version := ''1.10.0'',
     doc_name := ''page-'' @ show_nat (pg_no page),
     doc_body := (doc_body doc)\<lparr>it_self_ref := kBody, it_layer := CONTENT_LAYER_BODY,
       gr_alternatives := (case pg_alternatives page of None \<Rightarrow> gr_alternatives (doc_body doc) | Some a \<Rightarrow> Some a)\<rparr>\<rparr>"
  define doc2 where "doc2 = fold stamp_child (list_order doc) doc1"
  define n where "n = to_int32 (pg_no page)"
  define p where "p = \<lparr>pi_page_no = n, pi_width = real (pg_width page), pi_height = real (pg_height page)\<rparr>"
  have fin: "finalize_document page doc = doc2\<lparr>doc_pages := (doc_pages doc2)(n \<mapsto> p)\<rparr>"
    by (simp add: finalize_document_def finalize_ordered_def Let_def doc1_def doc2_def n_def p_def)
  have one: "child_refs doc1 c = child_refs doc c" "kinds_set doc1" "attributed page doc1"
    "it_children (doc_body doc1) = []" "it_self_ref (doc_body doc1) = kBody"
    "gr_alternatives (doc_body doc1) = pg_alternatives page"
    "doc_texts doc1 = doc_texts doc" "doc_pictures doc1 = doc_pictures doc" "doc_tables doc1 = doc_tables doc" for c
    using assms(1,3) draft_kinds [OF assms(1)]
    by (auto simp: doc1_def child_refs_def kinds_set_def draft_def attributed_def
        split: prod.splits child_kind.splits option.splits)
  have "\<forall>c \<in> set (list_order doc). child_refs doc1 c \<noteq> None" using list_order_refs one(1) by simp
  note f = fold_stamp [OF one(2) this, folded doc2_def, unfolded one(4)]
  note g = fold_stamp_frame [of "list_order doc" doc1 page, folded doc2_def, unfolded one(5-9)]
  have o: "list_order doc2 = list_order doc" "items doc2 = items doc" "attributed page doc2"
    using g one(3) by (simp_all add: list_order_def items_def)
  have same: "child_refs (doc2\<lparr>doc_pages := m\<rparr>) c = child_refs doc2 c"
    "list_order (doc2\<lparr>doc_pages := m\<rparr>) = list_order doc2" "items (doc2\<lparr>doc_pages := m\<rparr>) = items doc2"
    "attributed page (doc2\<lparr>doc_pages := m\<rparr>) = attributed page doc2" for c m
    by (simp_all add: child_refs_def list_order_def items_def attributed_def split: prod.splits child_kind.splits)
  have d: "distinct (map (\<lambda>c. body_child_ref (fst c) (snd c)) (list_order doc))"
    by (auto simp: distinct_map distinct_list_order inj_on_def body_child_ref_inject prod_eq_iff)
  have r: "\<forall>c \<in> set (list_order doc). child_refs doc2 c = Some (body_child_ref (fst c) (snd c), Some kBody)"
    using f by (simp del: split_paired_All)
  show ?thesis
    unfolding fragment_ok_def fin same o using r conjunct1 [OF conjunct2 [OF f]] g d assms(2) o(3)
    by (simp add: n_def p_def)
qed

section \<open>A page in the making\<close>

text \<open>
  What the mappers keep while they read: the document is a draft of the page, the count of
  items is right, and the alternatives are still to be set.
\<close>

definition in_progress :: "page_context \<Rightarrow> document \<Rightarrow> nat \<Rightarrow> bool" where
  "in_progress page doc n \<longleftrightarrow>
     draft page doc \<and> n = items doc \<and> gr_alternatives (doc_body doc) = None"

lemma add_keeps_body [simp]:
  "doc_body (add_text page label prov t d) = doc_body d"
  "doc_body (add_section_header page level prov t d) = doc_body d"
  "doc_body (add_title page prov t d) = doc_body d"
  "doc_body (add_list_item page prov t e m d) = doc_body d"
  "doc_body (add_code page prov t l d) = doc_body d"
  "doc_body (add_formula page prov t d) = doc_body d"
  "doc_body (add_picture page prov d) = doc_body d"
  "doc_body (add_table page prov d) = doc_body d"
  "doc_body (set_last_table_data data d) = doc_body d"
  by (simp_all add: add_text_def add_section_header_def add_title_def add_list_item_def add_code_def
      add_formula_def add_picture_def add_table_def push_text_def set_last_table_data_def Let_def)

lemma in_progress_empty [simp]: "in_progress page empty_document 0"
  by (simp add: in_progress_def empty_draft)

lemma in_progress_finish: "in_progress page doc n \<Longrightarrow> 0 < n \<Longrightarrow> fragment_ok page (finalize_document page doc)"
  by (simp add: in_progress_def finalize_fragment)

lemma in_progress_add_at [keeps]:
  assumes "in_progress page doc n"
  shows "in_progress page (add_text page label (make_prov page box) t doc) (Suc n)"
    "in_progress page (add_section_header page level (make_prov page box) t doc) (Suc n)"
    "in_progress page (add_title page (make_prov page box) t doc) (Suc n)"
    "in_progress page (add_list_item page (make_prov page box) t e m doc) (Suc n)"
    "in_progress page (add_code page (make_prov page box) t l doc) (Suc n)"
    "in_progress page (add_formula page (make_prov page box) t doc) (Suc n)"
    "in_progress page (add_picture page (make_prov page box) doc) (Suc n)"
    "in_progress page (add_table page (make_prov page box) doc) (Suc n)"
  using assms texts.add_draft [where box = "\<lambda>_. box"] texts.add_one [where box = "\<lambda>_. box"]
    headers.add_draft [where box = "\<lambda>_. box"] headers.add_one [where box = "\<lambda>_. box"]
    titles.add_draft [where box = "\<lambda>_. box"] titles.add_one [where box = "\<lambda>_. box"]
    list_items.add_draft [where box = "\<lambda>_. box"] list_items.add_one [where box = "\<lambda>_. box"]
    codes.add_draft [where box = "\<lambda>_. box"] codes.add_one [where box = "\<lambda>_. box"]
    formulas.add_draft [where box = "\<lambda>_. box"] formulas.add_one [where box = "\<lambda>_. box"]
    pictures.add_draft [where box = "\<lambda>_. box"] pictures.add_one [where box = "\<lambda>_. box"]
    tables.add_draft [where box = "\<lambda>_. box"] tables.add_one [where box = "\<lambda>_. box"]
  by (simp_all add: in_progress_def)

lemma in_progress_add [keeps]:
  assumes "in_progress page doc n"
  shows "in_progress page (add_text page label (page_prov page) t doc) (Suc n)"
    "in_progress page (add_section_header page level (page_prov page) t doc) (Suc n)"
    "in_progress page (add_title page (page_prov page) t doc) (Suc n)"
    "in_progress page (add_list_item page (page_prov page) t e m doc) (Suc n)"
    "in_progress page (add_code page (page_prov page) t l doc) (Suc n)"
    "in_progress page (add_formula page (page_prov page) t doc) (Suc n)"
    "in_progress page (add_picture page (page_prov page) doc) (Suc n)"
    "in_progress page (add_table page (page_prov page) doc) (Suc n)"
  unfolding page_prov_def by (rule in_progress_add_at [OF assms])+

lemma in_progress_table_at:
  assumes "in_progress page doc n" and "table_ok data"
  shows "in_progress page (set_last_table_data data (add_table page (make_prov page box) doc)) (Suc n)"
  using in_progress_add_at(8) [OF assms(1), of box] set_last_table_draft assms(2) by (simp add: in_progress_def)

lemma in_progress_table [keeps]:
  assumes "in_progress page doc n" and "fill_table_data rows h empty_table_data = (data, report)"
  shows "in_progress page (set_last_table_data data (add_table page (page_prov page) doc)) (Suc n)"
  unfolding page_prov_def using fill_table_ok [of rows h] assms(2)
  by (intro in_progress_table_at assms(1)) simp

section \<open>Properties\<close>

text \<open>The widest row as a maximum, and the number of rows kept as the largest that fits.\<close>

lemma fold_max_eq: "fold (\<lambda>x m. max m (f x)) xs a = Max (insert (a :: nat) (f ` set xs))"
proof (induction xs arbitrary: a)
  case (Cons x xs)
  have "Max (insert a (insert (f x) (f ` set xs))) = Max (insert (max a (f x)) (f ` set xs))"
    by (cases "set xs = {}") (simp_all add: ac_simps)
  with Cons show ?case by simp
qed simp

lemma kept_shape_largest:
  assumes "kept_table_shape rows cols = (r, c)"
  shows "c = min cols kMaxTableCols"
    and "r < rows \<Longrightarrow> r = kMaxTableRows \<or> kMaxTableCells < (r + 1) * c"
proof -
  show c: "c = min cols kMaxTableCols" using assms by (auto simp: kept_table_shape_def Let_def)
  assume less: "r < rows"
  have r: "r = (if 0 < c then min (min rows kMaxTableRows) (kMaxTableCells div c) else min rows kMaxTableRows)"
    using assms by (auto simp: kept_table_shape_def Let_def)
  have "kMaxTableCells < (kMaxTableCells div c + 1) * c" if "0 < c"
    using that by (metis Suc_eq_plus1 dividend_less_div_times mult.commute mult_Suc_right add.commute)
  with r less show "r = kMaxTableRows \<or> kMaxTableCells < (r + 1) * c"
    by (auto simp: min_def split: if_splits)
qed

text \<open>
  C18: a table made from rows of text is the leading part of the rows that fits the caps.
  The columns kept are the first \<open>kMaxTableCols\<close>; the rows kept are the first ones, and as
  many as the caps on rows and cells allow at that width, so a row is left out only when one
  more would break a cap; the table is as wide as the widest row kept.  The grid is
  rectangular, holds the text of row \<open>r\<close> and column \<open>c\<close> where the source has it and an empty
  cell where a row is short, marks the header rows, and the cells listed are the source's own
  within that part.  Nothing is reported cut exactly when the source is within the caps.
\<close>

theorem fill_table_data_grid:
  assumes "fill_table_data rows header_rows empty_table_data = (data, report)"
  shows "\<exists>nr nc. td_num_rows data = int nr \<and> td_num_cols data = int nc
    \<and> length (td_grid data) = nr \<and> (\<forall>row \<in> set (td_grid data). length row = nc)
    \<and> nr \<le> length rows \<and> nr \<le> kMaxTableRows
    \<and> nr * min (Max (insert 0 (length ` set rows))) kMaxTableCols \<le> kMaxTableCells
    \<and> (nr < length rows \<longrightarrow> nr = kMaxTableRows
         \<or> kMaxTableCells < (nr + 1) * min (Max (insert 0 (length ` set rows))) kMaxTableCols)
    \<and> nc = Max (insert 0 ((\<lambda>row. min (length row) kMaxTableCols) ` set (take nr rows)))
    \<and> (\<forall>r c. r < nr \<and> c < nc \<longrightarrow>
         tc_text (td_grid data ! r ! c) = (if c < length (rows ! r) then rows ! r ! c else [])
         \<and> (tc_column_header (td_grid data ! r ! c) \<longleftrightarrow> c < length (rows ! r) \<and> r < header_rows)
         \<and> (c < length (rows ! r) \<longrightarrow> td_grid data ! r ! c \<in> set (td_cells data)))
    \<and> (\<forall>cell \<in> set (td_cells data). \<exists>r c. r < nr \<and> c < nc \<and> c < length (rows ! r) \<and> tc_text cell = rows ! r ! c
         \<and> tc_start_row cell = int r \<and> tc_start_col cell = int c)
    \<and> (\<not> cut_truncated report \<longleftrightarrow>
         nr = length rows \<and> Max (insert 0 (length ` set rows)) \<le> kMaxTableCols)"
proof -
  obtain nr kc where k: "kept_table_shape (length rows) (widest rows) = (nr, kc)" by fastforce
  define nc where "nc = fold (\<lambda>row m. max m (min (length row) kc)) (take nr rows) 0"
  have d: "data = \<lparr>td_cells = concat (map (\<lambda>r. map (text_cell header_rows rows r)
        (filter (\<lambda>c. c < length (rows ! r)) [0..<nc])) [0..<nr]),
      td_num_rows = int nr, td_num_cols = int nc,
      td_grid = map (\<lambda>r. map (text_cell header_rows rows r) [0..<nc]) [0..<nr]\<rparr>"
    and t: "cut_truncated report \<longleftrightarrow> nr < length rows \<or> kc < widest rows"
    using assms by (auto simp: fill_table_data_def k Let_def nc_def empty_table_data_def)
  have w: "widest rows = Max (insert 0 (length ` set rows))" unfolding widest_def by (rule fold_max_eq)
  note b = kept_shape_bounds [OF k] and m = kept_shape_largest [OF k]
  have "min (length row) kc = min (length row) kMaxTableCols" if "row \<in> set (take nr rows)" for row
    using length_le_widest [of row rows] in_set_takeD [OF that] m(1) by simp
  then have nc: "nc = Max (insert 0 ((\<lambda>row. min (length row) kMaxTableCols) ` set (take nr rows)))"
    unfolding nc_def fold_max_eq by (metis (no_types, lifting) image_cong)
  have cells: "\<forall>cell \<in> set (td_cells data). \<exists>r c. r < nr \<and> c < nc \<and> c < length (rows ! r) \<and> tc_text cell = rows ! r ! c
      \<and> tc_start_row cell = int r \<and> tc_start_col cell = int c"
    unfolding d by (fastforce simp: text_cell_def unit_cell_def)
  have cut: "\<not> cut_truncated report \<longleftrightarrow> nr = length rows \<and> Max (insert 0 (length ` set rows)) \<le> kMaxTableCols"
    unfolding t m(1) w [symmetric] using b by linarith
  have grid: "td_num_rows data = int nr" "td_num_cols data = int nc" "length (td_grid data) = nr"
    "\<forall>row \<in> set (td_grid data). length row = nc" by (auto simp: d)
  have at: "\<forall>r c. r < nr \<and> c < nc \<longrightarrow> tc_text (td_grid data ! r ! c) = (if c < length (rows ! r) then rows ! r ! c else [])
      \<and> (tc_column_header (td_grid data ! r ! c) \<longleftrightarrow> c < length (rows ! r) \<and> r < header_rows)
      \<and> (c < length (rows ! r) \<longrightarrow> td_grid data ! r ! c \<in> set (td_cells data))"
    by (auto simp: d text_cell_def unit_cell_def)
  have fit: "nr \<le> length rows" "nr \<le> kMaxTableRows" "nr * min (Max (insert 0 (length ` set rows))) kMaxTableCols \<le> kMaxTableCells"
    using b m(1) w by auto
  have most: "nr < length rows \<longrightarrow> nr = kMaxTableRows
      \<or> kMaxTableCells < (nr + 1) * min (Max (insert 0 (length ` set rows))) kMaxTableCols"
    using m w by auto
  show ?thesis
    by (rule exI [of _ nr], rule exI [of _ nc]) (intro conjI grid fit most nc at cells cut)
qed

theorem fill_table_data_grid_witness:
  "\<exists>data report. fill_table_data [[''a'', ''b''], [''c'']] 1 empty_table_data = (data, report)
     \<and> td_num_rows data = 2 \<and> td_num_cols data = 2 \<and> tc_text (td_grid data ! 1 ! 1) = []
     \<and> tc_text (td_grid data ! 1 ! 0) = ''c'' \<and> \<not> cut_truncated report"
proof -
  obtain data report where f: "fill_table_data [[''a'', ''b''], [''c'']] 1 empty_table_data = (data, report)" by fastforce
  have caps: "kMaxTableRows = 2000" "kMaxTableCols = 250" "kMaxTableCells = 50000" by (simp_all add: table_caps)
  obtain nr nc where g: "td_num_rows data = int nr" "td_num_cols data = int nc"
    "nr \<le> 2" "nr < 2 \<longrightarrow> nr = 2000 \<or> 50000 < (nr + 1) * 2"
    "nc = Max (insert 0 ((\<lambda>row. min (length row) 250) ` set (take nr [[''a'', ''b''], [''c'']])))"
    "\<forall>r c. r < nr \<and> c < nc \<longrightarrow> tc_text (td_grid data ! r ! c) =
       (if c < length ([[''a'', ''b''], [''c'']] ! r) then [[''a'', ''b''], [''c'']] ! r ! c else [])"
    "\<not> cut_truncated report \<longleftrightarrow> nr = 2"
    using fill_table_data_grid [OF f] by (auto simp: caps)
  have nr: "nr = 2" using g(3,4) by (cases "nr = 2") auto
  then have nc: "nc = 2" using g(5) by simp
  have "tc_text (td_grid data ! 1 ! 1) = []" "tc_text (td_grid data ! 1 ! 0) = ''c''"
    using g(6) by (auto simp: nr nc)
  with f g nr nc show ?thesis by auto
qed

end
