(* ===== verification/Otsl.thy ===== *)
theory Otsl
  imports Builder
begin

text \<open>
  \<^verbatim>\<open>src/mapping/otsl.cpp\<close>: the table format OTSL, a stream of cell tags with text.  A
  position in the body is the rest of the body from there on; the visitor of the row scan
  is a function that updates a state the scan carries along.
\<close>

section \<open>Tokens\<close>

record otsl_token =
  ot_tag :: string
  ot_text :: string

definition is_anchor :: "string \<Rightarrow> bool" where
  "is_anchor tag \<longleftrightarrow> tag = ''fcel'' \<or> tag = ''ecel'' \<or> tag = ''ched'' \<or> tag = ''rhed'' \<or> tag = ''srow''"

definition is_horizontal_filler :: "string \<Rightarrow> bool" where
  "is_horizontal_filler tag \<longleftrightarrow> tag = ''lcel'' \<or> tag = ''xcel''"

definition is_vertical_filler :: "string \<Rightarrow> bool" where
  "is_vertical_filler tag \<longleftrightarrow> tag = ''ucel'' \<or> tag = ''xcel''"

text \<open>The text before the next tag opener, and the rest from its \<^verbatim>\<open><\<close> on.\<close>

fun find_tag :: "string \<Rightarrow> (string \<times> string) option" where
  "find_tag [] = None"
| "find_tag (c # cs) =
     (if c = CHR ''<'' \<and> cs \<noteq> [] \<and> is_alpha (hd cs) then Some ([], c # cs)
      else map_option (apfst ((#) c)) (find_tag cs))"

definition next_token :: "string \<Rightarrow> (otsl_token \<times> string) option" where
  "next_token body =
     (case find_tag body of
        None \<Rightarrow> None
      | Some (_, opened) \<Rightarrow>
          (case dropWhile (\<lambda>c. c \<noteq> CHR ''>'') opened of
             [] \<Rightarrow> None
           | _ # rest \<Rightarrow>
               (let tag = tl (takeWhile (\<lambda>c. c \<noteq> CHR ''>'') opened);
                    (text, next) = (case find_tag rest of None \<Rightarrow> (rest, []) | Some (t, n) \<Rightarrow> (t, n))
                in Some (\<lparr>ot_tag = tag, ot_text = trim text\<rparr>, next))))"

lemma find_tag_split: "find_tag s = Some (b, r) \<Longrightarrow> s = b @ r \<and> r \<noteq> []"
  by (induction s arbitrary: b) (auto split: if_splits)

lemma next_token_shorter:
  assumes "next_token body = Some (t, rest)"
  shows "length rest < length body"
proof -
  obtain b op r where o: "find_tag body = Some (b, op)" "dropWhile (\<lambda>c. c \<noteq> CHR ''>'') op = r"
    "r \<noteq> []" "rest = (case find_tag (tl r) of None \<Rightarrow> [] | Some (_, n) \<Rightarrow> n)"
    using assms by (auto simp: next_token_def Let_def split: option.splits prod.splits list.splits)
  have "length op \<le> length body" using find_tag_split [OF o(1)] by simp
  moreover have "length r \<le> length op" using o(2) length_dropWhile_le by metis
  moreover have "length rest \<le> length (tl r)"
  proof (cases "find_tag (tl r)")
    case (Some p)
    with o(4) find_tag_split [of "tl r" "fst p" rest] show ?thesis
      by (metis length_append le_add2 old.prod.case option.simps(5) prod.collapse)
  qed (simp add: o(4))
  ultimately show ?thesis using o(3) by (cases r) auto
qed

function otsl_tokens :: "string \<Rightarrow> otsl_token list" where
  "otsl_tokens body =
     (case next_token body of None \<Rightarrow> [] | Some (t, rest) \<Rightarrow> t # otsl_tokens rest)"
  by pat_completeness auto

termination
  by (relation "measure length") (auto dest: next_token_shorter)

declare otsl_tokens.simps [simp del]

section \<open>Rows\<close>

record 'a row_scan =
  rs_row :: nat
  rs_col :: nat
  rs_rows :: nat
  rs_cols :: nat
  rs_seen :: 'a

definition is_cell_tag :: "string \<Rightarrow> bool" where
  "is_cell_tag tag \<longleftrightarrow> is_anchor tag \<or> is_horizontal_filler tag \<or> is_vertical_filler tag"

definition scan_token ::
  "(nat \<Rightarrow> nat \<Rightarrow> otsl_token \<Rightarrow> 'a \<Rightarrow> 'a) \<Rightarrow> otsl_token \<Rightarrow> 'a row_scan \<Rightarrow> 'a row_scan" where
  "scan_token visit t s =
     (if ot_tag t = ''nl'' then
        (if 0 < rs_col s then s\<lparr>rs_row := rs_row s + 1, rs_col := 0\<rparr> else s)
      else if \<not> is_cell_tag (ot_tag t) then s
      else
        (let (row, col) = (if ot_tag t = ''srow'' \<and> 0 < rs_col s then (rs_row s + 1, 0)
                           else (rs_row s, rs_col s))
         in \<lparr>rs_row = row, rs_col = col + 1, rs_rows = max (rs_rows s) (row + 1),
             rs_cols = max (rs_cols s) (col + 1), rs_seen = visit row col t (rs_seen s)\<rparr>))"

definition scan_rows ::
  "(nat \<Rightarrow> nat \<Rightarrow> otsl_token \<Rightarrow> 'a \<Rightarrow> 'a) \<Rightarrow> 'a \<Rightarrow> string \<Rightarrow> (nat \<times> nat) \<times> 'a" where
  "scan_rows visit a body =
     (let s = fold (scan_token visit) (otsl_tokens body)
                \<lparr>rs_row = 0, rs_col = 0, rs_rows = 0, rs_cols = 0, rs_seen = a\<rparr>
      in ((rs_rows s, rs_cols s), rs_seen s))"

definition keep_token ::
  "nat \<Rightarrow> nat \<Rightarrow> nat \<Rightarrow> nat \<Rightarrow> otsl_token \<Rightarrow> otsl_token list list \<Rightarrow> otsl_token list list" where
  "keep_token kept_rows kept_cols row col t rows =
     (if row < kept_rows \<and> col < kept_cols then rows[row := rows ! row @ [t]] else rows)"

section \<open>Cells\<close>

definition col_span :: "otsl_token list list \<Rightarrow> nat \<Rightarrow> nat \<Rightarrow> nat" where
  "col_span rows r c =
     1 + length (takeWhile (\<lambda>t. is_horizontal_filler (ot_tag t)) (drop (c + 1) (rows ! r)))"

definition row_span :: "otsl_token list list \<Rightarrow> nat \<Rightarrow> nat \<Rightarrow> nat" where
  "row_span rows r c =
     1 + length (takeWhile (\<lambda>row. c < length row \<and> is_vertical_filler (ot_tag (row ! c)))
           (drop (r + 1) rows))"

definition anchor_cell :: "otsl_token list list \<Rightarrow> nat \<Rightarrow> nat \<Rightarrow> table_cell" where
  "anchor_cell rows r c =
     (let t = rows ! r ! c
      in \<lparr>tc_text = (if ot_tag t = ''ecel'' then [] else ot_text t),
          tc_row_span = int (row_span rows r c), tc_col_span = int (col_span rows r c),
          tc_start_row = int r, tc_end_row = int r + int (row_span rows r c),
          tc_start_col = int c, tc_end_col = int c + int (col_span rows r c),
          tc_column_header = (ot_tag t = ''ched''), tc_row_header = (ot_tag t = ''rhed''),
          tc_row_section = (ot_tag t = ''srow''), tc_ref = None\<rparr>)"

definition anchor_cells :: "otsl_token list list \<Rightarrow> table_cell list" where
  "anchor_cells rows =
     concat (map (\<lambda>r. map (anchor_cell rows r)
       (filter (\<lambda>c. is_anchor (ot_tag (rows ! r ! c))) [0..<length (rows ! r)])) [0..<length rows])"

section \<open>The grid\<close>

definition last_row :: "nat \<Rightarrow> table_cell \<Rightarrow> nat" where
  "last_row num_rows cell = nat (min (tc_end_row cell) (int num_rows))"

definition last_col :: "nat \<Rightarrow> table_cell \<Rightarrow> nat" where
  "last_col num_cols cell = nat (min (tc_end_col cell) (int num_cols))"

text \<open>\<open>byte_size\<close> is \<^verbatim>\<open>TableCell::ByteSizeLong\<close> of protobuf.\<close>

fun grid_over :: "(table_cell \<Rightarrow> nat) \<Rightarrow> nat \<Rightarrow> nat \<Rightarrow> nat \<Rightarrow> table_cell list \<Rightarrow> bool" where
  "grid_over byte_size num_rows num_cols grid_bytes [] = False"
| "grid_over byte_size num_rows num_cols grid_bytes (cell # cells) =
     (let rows_covered = last_row num_rows cell - nat (tc_start_row cell);
          cols_covered = last_col num_cols cell - nat (tc_start_col cell);
          bytes = grid_bytes + rows_covered * cols_covered * byte_size cell
      in if kMaxGridBytes < bytes then True
         else grid_over byte_size num_rows num_cols bytes cells)"

definition empty_grid :: "nat \<Rightarrow> nat \<Rightarrow> table_cell list list" where
  "empty_grid num_rows num_cols = map (\<lambda>r. map (unit_cell r) [0..<num_cols]) [0..<num_rows]"

definition stamp_cell :: "nat \<Rightarrow> nat \<Rightarrow> table_cell \<Rightarrow> table_cell list list \<Rightarrow> table_cell list list" where
  "stamp_cell num_rows num_cols cell grid =
     fold (\<lambda>r g. g[r := fold (\<lambda>c row. row[c := cell])
         [nat (tc_start_col cell)..<last_col num_cols cell] (g ! r)])
       [nat (tc_start_row cell)..<last_row num_rows cell] grid"

definition parse_otsl_grid :: "(table_cell \<Rightarrow> nat) \<Rightarrow> string \<Rightarrow> (table_data \<times> table_cut) option" where
  "parse_otsl_grid byte_size body =
     (let (source_rows, source_cols) = fst (scan_rows (\<lambda>_ _ _ a. a) () body)
      in if source_rows = 0 then None
         else
           (let (kept_rows, kept_cols) = kept_table_shape source_rows source_cols;
                rows = snd (scan_rows (keep_token kept_rows kept_cols) (replicate kept_rows []) body);
                num_rows = length rows; num_cols = widest rows;
                cells = anchor_cells rows;
                omitted = grid_over byte_size num_rows num_cols 0 cells
            in Some (\<lparr>td_cells = cells, td_num_rows = int num_rows, td_num_cols = int num_cols,
                      td_grid = (if omitted then []
                        else fold (stamp_cell num_rows num_cols) cells (empty_grid num_rows num_cols))\<rparr>,
                     \<lparr>cut_source_rows = source_rows, cut_source_cols = source_cols,
                      cut_truncated = (kept_rows < source_rows \<or> kept_cols < source_cols),
                      cut_grid_omitted = omitted\<rparr>)))"

definition otsl_body :: "string \<Rightarrow> string" where
  "otsl_body text =
     (case find_sub ''<otsl>'' text of
        None \<Rightarrow> text
      | Some (_, rest) \<Rightarrow> (case find_sub ''</otsl>'' rest of None \<Rightarrow> rest | Some (b, _) \<Rightarrow> b))"

definition map_otsl ::
  "(table_cell \<Rightarrow> nat) \<Rightarrow> string \<Rightarrow> page_context \<Rightarrow> string + (document \<times> warning list)" where
  "map_otsl byte_size text page =
     (case parse_otsl_grid byte_size (otsl_body text) of
        None \<Rightarrow> Inl ''OTSL response held no complete table row''
      | Some (data, report) \<Rightarrow>
          Inr (finalize_document page (set_last_table_data data (add_table page (page_prov page) empty_document)),
               note_table_cut report data ''table'' (body_child_ref TABLE 0)))"

section \<open>The rows of a token stream\<close>

text \<open>
  A reference for the two passes: the rows of the stream, kept whole.  A row ends at \<^verbatim>\<open>nl\<close>
  and before \<^verbatim>\<open>srow\<close>; empty rows and tokens that are no cells leave nothing.
\<close>

fun rows_from :: "otsl_token list \<Rightarrow> otsl_token list \<Rightarrow> otsl_token list list" where
  "rows_from cur [] = (if cur = [] then [] else [cur])"
| "rows_from cur (t # ts) =
     (if ot_tag t = ''nl'' then (if cur = [] then rows_from [] ts else cur # rows_from [] ts)
      else if \<not> is_cell_tag (ot_tag t) then rows_from cur ts
      else if ot_tag t = ''srow'' \<and> cur \<noteq> [] then cur # rows_from [t] ts
      else rows_from (cur @ [t]) ts)"

definition otsl_rows :: "string \<Rightarrow> otsl_token list list" where
  "otsl_rows body = rows_from [] (otsl_tokens body)"

text \<open>The state of a scan that has seen the rows \<open>done\<close> and is in row \<open>cur\<close>.\<close>

definition seen_rows :: "otsl_token list list \<Rightarrow> otsl_token list \<Rightarrow> otsl_token list list" where
  "seen_rows before cur = before @ (if cur = [] then [] else [cur])"

definition scan_at :: "otsl_token list list \<Rightarrow> otsl_token list \<Rightarrow> 'a \<Rightarrow> 'a row_scan" where
  "scan_at before cur a = \<lparr>rs_row = length before, rs_col = length cur,
     rs_rows = length (seen_rows before cur), rs_cols = widest (seen_rows before cur), rs_seen = a\<rparr>"

lemma widest_snoc: "widest (xs @ [x]) = max (widest xs) (length x)"
  by (simp add: widest_def)

lemma widest_Nil [simp]: "widest [] = 0"
  by (simp add: widest_def)

lemma widest_snoc2: "widest (xs @ [x, y]) = max (max (widest xs) (length x)) (length y)"
  by (simp add: widest_def)

lemma replicate_pos: "m < n \<Longrightarrow> replicate (n - m) x = x # replicate (n - Suc m) x"
  by (metis Suc_diff_Suc replicate_Suc)

lemma scan_token_at:
  "scan_token visit t (scan_at before cur a) =
     (if ot_tag t = ''nl'' then (if cur = [] then scan_at before cur a else scan_at (before @ [cur]) [] a)
      else if \<not> is_cell_tag (ot_tag t) then scan_at before cur a
      else if ot_tag t = ''srow'' \<and> cur \<noteq> [] then scan_at (before @ [cur]) [t] (visit (Suc (length before)) 0 t a)
      else scan_at before (cur @ [t]) (visit (length before) (length cur) t a))"
  by (auto simp: scan_token_def scan_at_def seen_rows_def widest_snoc widest_snoc2)

text \<open>
  What a visitor has to do for its state to be a function of the rows seen so far: add the
  token to the row it belongs to.
\<close>

locale row_visitor =
  fixes visit :: "nat \<Rightarrow> nat \<Rightarrow> otsl_token \<Rightarrow> 'a \<Rightarrow> 'a"
    and state :: "otsl_token list list \<Rightarrow> 'a"
  assumes new_row: "visit (length before) 0 t (state before) = state (before @ [[t]])"
    and same_row: "cur \<noteq> [] \<Longrightarrow>
      visit (length before) (length cur) t (state (before @ [cur])) = state (before @ [cur @ [t]])"
begin

lemma scan_from:
  "rs_rows (fold (scan_token visit) ts (scan_at before cur (state (seen_rows before cur))))
     = length (before @ rows_from cur ts)
   \<and> rs_cols (fold (scan_token visit) ts (scan_at before cur (state (seen_rows before cur))))
     = widest (before @ rows_from cur ts)
   \<and> rs_seen (fold (scan_token visit) ts (scan_at before cur (state (seen_rows before cur))))
     = state (before @ rows_from cur ts)"
proof (induction ts arbitrary: before cur)
  case Nil
  then show ?case by (simp add: scan_at_def seen_rows_def Let_def)
next
  case (Cons t ts)
  consider (nl) "ot_tag t = ''nl''" | (skip) "ot_tag t \<noteq> ''nl''" "\<not> is_cell_tag (ot_tag t)"
    | (srow) "ot_tag t \<noteq> ''nl''" "is_cell_tag (ot_tag t)" "ot_tag t = ''srow''" "cur \<noteq> []"
    | (cell) "ot_tag t \<noteq> ''nl''" "is_cell_tag (ot_tag t)" "\<not> (ot_tag t = ''srow'' \<and> cur \<noteq> [])"
    by blast
  then show ?case
  proof cases
    case nl
    show ?thesis
    proof (cases "cur = []")
      case True
      with nl Cons.IH [of before "[]"] show ?thesis by (simp add: scan_token_at)
    next
      case False
      then have "seen_rows before cur = seen_rows (before @ [cur]) []" by (simp add: seen_rows_def)
      with nl False Cons.IH [of "before @ [cur]" "[]"] show ?thesis by (simp add: scan_token_at)
    qed
  next
    case skip
    with Cons.IH [of before cur] show ?thesis by (simp add: scan_token_at)
  next
    case srow
    have "visit (Suc (length before)) 0 t (state (seen_rows before cur)) = state (seen_rows (before @ [cur]) [t])"
      using new_row [of "before @ [cur]" t] srow(4) by (simp add: seen_rows_def)
    with srow Cons.IH [of "before @ [cur]" "[t]"] show ?thesis by (simp add: scan_token_at)
  next
    case cell
    have "visit (length before) (length cur) t (state (seen_rows before cur)) = state (seen_rows before (cur @ [t]))"
      using new_row [of before t] same_row [of cur before t] by (cases "cur = []") (simp_all add: seen_rows_def)
    with cell Cons.IH [of before "cur @ [t]"] show ?thesis by (auto simp: scan_token_at)
  qed
qed

lemma scan_rows_state:
  "scan_rows visit (state []) body = ((length (otsl_rows body), widest (otsl_rows body)), state (otsl_rows body))"
proof -
  have s: "\<lparr>rs_row = 0, rs_col = 0, rs_rows = 0, rs_cols = 0, rs_seen = state []\<rparr>
      = scan_at [] [] (state (seen_rows [] []))"
    by (simp add: scan_at_def seen_rows_def)
  show ?thesis
    unfolding scan_rows_def Let_def s otsl_rows_def
    using scan_from [of "otsl_tokens body" "[]" "[]"] by simp
qed

end

interpretation shape: row_visitor "\<lambda>_ _ _ a. a" "\<lambda>_. ()"
  by unfold_locales simp_all

definition kept_rows_of :: "nat \<Rightarrow> nat \<Rightarrow> otsl_token list list \<Rightarrow> otsl_token list list" where
  "kept_rows_of n k rows = map (take k) (take n rows) @ replicate (n - length rows) []"

interpretation kept: row_visitor "keep_token n k" "kept_rows_of n k" for n k
proof
  fix before t
  show "keep_token n k (length before) 0 t (kept_rows_of n k before) = kept_rows_of n k (before @ [[t]])"
  proof (cases "length before < n \<and> 0 < k")
    case True
    then show ?thesis
      by (cases k) (simp_all add: keep_token_def kept_rows_of_def nth_append list_update_append replicate_pos)
  next
    case False
    then show ?thesis
      by (cases "length before < n")
        (auto simp: keep_token_def kept_rows_of_def replicate_pos)
  qed
next
  fix cur before :: "_ list" and t
  show "keep_token n k (length before) (length cur) t (kept_rows_of n k (before @ [cur]))
      = kept_rows_of n k (before @ [cur @ [t]])"
    by (cases "length before < n")
      (auto simp: keep_token_def kept_rows_of_def nth_append list_update_append not_less take_Cons'
        split: nat.splits)
qed

section \<open>Stamping the grid\<close>

lemma fold_update_range:
  "length (fold (\<lambda>i xs. xs[i := h (xs ! i)]) [a..<b] xs) = length xs
     \<and> (\<forall>j < length xs. fold (\<lambda>i xs. xs[i := h (xs ! i)]) [a..<b] xs ! j
          = (if a \<le> j \<and> j < b then h (xs ! j) else xs ! j))"
proof (induction b)
  case (Suc b)
  then show ?case by (cases "a \<le> b") (auto simp: nth_list_update less_Suc_eq)
qed simp

definition rectangular :: "nat \<Rightarrow> nat \<Rightarrow> 'a list list \<Rightarrow> bool" where
  "rectangular n m g \<longleftrightarrow> length g = n \<and> (\<forall>row \<in> set g. length row = m)"

definition covers :: "table_cell \<Rightarrow> nat \<Rightarrow> nat \<Rightarrow> bool" where
  "covers cell r c \<longleftrightarrow> tc_start_row cell \<le> int r \<and> int r < tc_end_row cell
     \<and> tc_start_col cell \<le> int c \<and> int c < tc_end_col cell"

lemma rectangular_row: "rectangular n m g \<Longrightarrow> r < n \<Longrightarrow> length (g ! r) = m"
  by (simp add: rectangular_def)

lemma stamp_cell_nth:
  assumes "rectangular n m g"
  shows "rectangular n m (stamp_cell n m cell g)"
    and "r < n \<Longrightarrow> c < m \<Longrightarrow> stamp_cell n m cell g ! r ! c = (if covers cell r c then cell else g ! r ! c)"
proof -
  let ?h = "\<lambda>row. fold (\<lambda>c row. row[c := cell]) [nat (tc_start_col cell)..<last_col m cell] row"
  have row: "length (?h row) = length row"
    "j < length row \<Longrightarrow> ?h row ! j = (if nat (tc_start_col cell) \<le> j \<and> j < last_col m cell then cell else row ! j)" for row j
    using fold_update_range [of "\<lambda>_. cell" "nat (tc_start_col cell)" "last_col m cell" row] by auto
  have g: "length (stamp_cell n m cell g) = length g"
    "j < length g \<Longrightarrow> stamp_cell n m cell g ! j
       = (if nat (tc_start_row cell) \<le> j \<and> j < last_row n cell then ?h (g ! j) else g ! j)" for j
    using fold_update_range [of ?h "nat (tc_start_row cell)" "last_row n cell" g]
    by (auto simp: stamp_cell_def)
  show "rectangular n m (stamp_cell n m cell g)"
    using assms g row(1) unfolding rectangular_def all_set_conv_all_nth by auto
  assume rc: "r < n" "c < m"
  then have l: "r < length g" "c < length (g ! r)" using assms by (simp_all add: rectangular_def)
  show "stamp_cell n m cell g ! r ! c = (if covers cell r c then cell else g ! r ! c)"
    using g(2) [OF l(1)] row(2) [OF l(2)] rc
    by (auto simp: covers_def last_row_def last_col_def)
qed

lemma fold_stamp_cells:
  assumes "rectangular n m g"
  shows "rectangular n m (fold (stamp_cell n m) cells g)"
    and "r < n \<Longrightarrow> c < m \<Longrightarrow>
      (\<exists>cell \<in> set cells. covers cell r c \<and> fold (stamp_cell n m) cells g ! r ! c = cell)
      \<or> (\<forall>cell \<in> set cells. \<not> covers cell r c) \<and> fold (stamp_cell n m) cells g ! r ! c = g ! r ! c"
  using assms
proof (induction cells arbitrary: g)
  case Nil
  {
    case 1
    then show ?case by simp
  next
    case 2
    then show ?case by simp
  }
next
  case (Cons cell cells)
  {
    case 1
    from Cons.IH(1) [OF stamp_cell_nth(1) [OF 1]] show ?case by simp
  next
    case 2
    from Cons.IH(2) [OF 2(1,2) stamp_cell_nth(1) [OF 2(3), of cell]] stamp_cell_nth(2) [OF 2(3,1,2), of cell]
    show ?case by auto
  }
qed

text \<open>The last cell that covers a position is the one it shows.\<close>

lemma fold_stamp_last:
  assumes "rectangular n m g" and "r < n" and "c < m"
  shows "fold (stamp_cell n m) cells g ! r ! c = last (g ! r ! c # filter (\<lambda>cell. covers cell r c) cells)"
  using assms(1)
proof (induction cells arbitrary: g)
  case (Cons cell cells)
  from Cons.IH [OF stamp_cell_nth(1) [OF Cons.prems, of cell]] stamp_cell_nth(2) [OF Cons.prems assms(2,3), of cell]
  show ?case by simp
qed simp

lemma empty_grid_rectangular: "rectangular n m (empty_grid n m)"
  by (auto simp: rectangular_def empty_grid_def)

section \<open>The kept rows and their cells\<close>

lemma kept_rows_of_take: "n \<le> length rows \<Longrightarrow> kept_rows_of n k rows = map (take k) (take n rows)"
  by (simp add: kept_rows_of_def)

lemma widest_take: "widest (map (take k) rows) \<le> k"
  by (auto simp: widest_def intro!: fold_max_le)

lemma span_bounds:
  assumes "r < length rows" and "c < length (rows ! r)"
  shows "r + row_span rows r c \<le> length rows" and "c + col_span rows r c \<le> length (rows ! r)"
proof -
  have "length (takeWhile P (drop (Suc r) rows)) \<le> length rows - Suc r" for P
    using length_takeWhile_le [of P "drop (Suc r) rows"] by simp
  then show "r + row_span rows r c \<le> length rows"
    using assms(1) unfolding row_span_def by (simp add: Suc_leI le_diff_conv2 add.commute)
  have "length (takeWhile P (drop (Suc c) (rows ! r))) \<le> length (rows ! r) - Suc c" for P
    using length_takeWhile_le [of P "drop (Suc c) (rows ! r)"] by simp
  then show "c + col_span rows r c \<le> length (rows ! r)"
    using assms(2) unfolding col_span_def by (simp add: Suc_leI le_diff_conv2 add.commute)
qed

lemma anchor_cells_elim:
  assumes "cell \<in> set (anchor_cells rows)"
  obtains r c where "r < length rows" "c < length (rows ! r)" "is_anchor (ot_tag (rows ! r ! c))"
    "cell = anchor_cell rows r c"
  using assms by (auto simp: anchor_cells_def)

lemma anchor_cell_bounds:
  assumes "cell \<in> set (anchor_cells rows)"
  shows "0 \<le> tc_start_row cell \<and> tc_start_row cell < tc_end_row cell \<and> tc_end_row cell \<le> int (length rows)
    \<and> 0 \<le> tc_start_col cell \<and> tc_start_col cell < tc_end_col cell \<and> tc_end_col cell \<le> int (widest rows)"
  using assms
proof (cases rule: anchor_cells_elim)
  case (1 r c)
  have "r + row_span rows r c \<le> length rows" "c + col_span rows r c \<le> widest rows"
    using span_bounds [OF 1(1,2)] length_le_widest [OF nth_mem [OF 1(1)]] by auto
  moreover have "0 < row_span rows r c" "0 < col_span rows r c"
    by (simp_all add: row_span_def col_span_def)
  ultimately show ?thesis by (simp add: 1(4) anchor_cell_def Let_def)
qed

text \<open>Anchors are listed in reading order.\<close>

definition reads_before :: "table_cell \<Rightarrow> table_cell \<Rightarrow> bool" where
  "reads_before a b \<longleftrightarrow>
     tc_start_row a < tc_start_row b \<or> tc_start_row a = tc_start_row b \<and> tc_start_col a < tc_start_col b"

lemma anchor_cells_sorted: "sorted_wrt reads_before (anchor_cells rows)"
  unfolding anchor_cells_def
  by (rule sorted_wrt_concat_rows)
    (auto simp: reads_before_def anchor_cell_def Let_def sorted_wrt_map sorted_wrt_filter
      intro!: sorted_wrt_filter sorted_wrt_mono_rel [OF _ sorted_wrt_upt])

lemma parse_otsl_grid_elim:
  assumes "parse_otsl_grid byte_size body = Some (data, report)"
  obtains n k rows where "otsl_rows body \<noteq> []"
    "kept_table_shape (length (otsl_rows body)) (widest (otsl_rows body)) = (n, k)"
    "rows = map (take k) (take n (otsl_rows body))" "length rows = n" "widest rows \<le> k"
    "td_cells data = anchor_cells rows" "td_num_rows data = int n" "td_num_cols data = int (widest rows)"
    "td_grid data = (if cut_grid_omitted report then []
       else fold (stamp_cell n (widest rows)) (anchor_cells rows) (empty_grid n (widest rows)))"
    "cut_truncated report \<longleftrightarrow> n < length (otsl_rows body) \<or> k < widest (otsl_rows body)"
proof -
  let ?R = "otsl_rows body"
  obtain n k where nk: "kept_table_shape (length ?R) (widest ?R) = (n, k)" by fastforce
  have n: "n \<le> length ?R" using kept_shape_bounds [OF nk] by simp
  have s: "scan_rows (\<lambda>_ _ _ a. a) () body = ((length ?R, widest ?R), ())"
    by (rule shape.scan_rows_state)
  have k: "scan_rows (keep_token n k) (replicate n []) body
      = ((length ?R, widest ?R), map (take k) (take n ?R))"
    using kept.scan_rows_state [of n k body] n by (simp add: kept_rows_of_def)
  note a = assms [unfolded parse_otsl_grid_def s fst_conv prod.case nk k snd_conv]
  have "?R \<noteq> []" using a by auto
  with that [OF this nk refl] a n widest_take [of k "take n ?R"] show ?thesis
    by (auto simp: Let_def nk k)
qed

lemma otsl_table_ok:
  assumes "parse_otsl_grid byte_size body = Some (data, report)"
  shows "table_ok data"
  using assms
proof (cases rule: parse_otsl_grid_elim)
  case (1 n k rows)
  have "rectangular n (widest rows) (fold (stamp_cell n (widest rows)) (anchor_cells rows) (empty_grid n (widest rows)))"
    by (rule fold_stamp_cells(1) [OF empty_grid_rectangular])
  moreover have b: "n \<le> kMaxTableRows" "k \<le> kMaxTableCols" "n * k \<le> kMaxTableCells"
    using kept_shape_bounds [OF 1(2)] by auto
  moreover have "n * widest rows \<le> n * k" using 1(5) by simp
  then have "n * widest rows \<le> kMaxTableCells" using b(3) by linarith
  then have "int n * int (widest rows) \<le> int kMaxTableCells" by (metis of_nat_le_iff of_nat_mult)
  ultimately show ?thesis
    using 1(5) by (auto simp: table_ok_def 1(7-9) rectangular_def)
qed

section \<open>Properties\<close>

text \<open>
  C19: the grid of a table of OTSL tokens is exactly what the spans say.  The cells are listed
  in reading order and each lies within the table; the table is within the caps.  Unless the
  grid was left out because its copies would cost too much, which the report says and which
  leaves it empty, the grid is rectangular and every position holds the last listed cell that
  spans it, or an empty unit cell when none does.
\<close>

theorem otsl_grid_exact:
  assumes "parse_otsl_grid byte_size body = Some (data, report)"
  shows "table_ok data
    \<and> sorted_wrt reads_before (td_cells data)
    \<and> (\<forall>cell \<in> set (td_cells data). 0 \<le> tc_start_row cell \<and> tc_start_row cell < tc_end_row cell
         \<and> tc_end_row cell \<le> td_num_rows data \<and> 0 \<le> tc_start_col cell
         \<and> tc_start_col cell < tc_end_col cell \<and> tc_end_col cell \<le> td_num_cols data)
    \<and> (if cut_grid_omitted report then td_grid data = []
       else length (td_grid data) = nat (td_num_rows data)
         \<and> (\<forall>row \<in> set (td_grid data). length row = nat (td_num_cols data))
         \<and> (\<forall>r c. r < nat (td_num_rows data) \<and> c < nat (td_num_cols data) \<longrightarrow>
              td_grid data ! r ! c = last (unit_cell r c # filter (\<lambda>cell. covers cell r c) (td_cells data))))"
  using assms
proof (cases rule: parse_otsl_grid_elim)
  case (1 n k rows)
  let ?m = "widest rows"
  let ?g = "fold (stamp_cell n ?m) (anchor_cells rows) (empty_grid n ?m)"
  have ok: "table_ok data" by (rule otsl_table_ok [OF assms])
  have cells: "\<forall>cell \<in> set (td_cells data). 0 \<le> tc_start_row cell \<and> tc_start_row cell < tc_end_row cell
         \<and> tc_end_row cell \<le> td_num_rows data \<and> 0 \<le> tc_start_col cell
         \<and> tc_start_col cell < tc_end_col cell \<and> tc_end_col cell \<le> td_num_cols data"
    using anchor_cell_bounds by (fastforce simp: 1(4,6-8))
  have "?g ! r ! c = last (unit_cell r c # filter (\<lambda>cell. covers cell r c) (anchor_cells rows))"
    if "r < n" "c < ?m" for r c
    using fold_stamp_last [OF empty_grid_rectangular that, of "anchor_cells rows"] that
    by (simp add: empty_grid_def)
  moreover have "rectangular n ?m ?g" by (rule fold_stamp_cells(1) [OF empty_grid_rectangular])
  ultimately show ?thesis
    using ok cells anchor_cells_sorted [of rows] by (simp add: 1(6-9) rectangular_def)
qed

definition sample_otsl :: string where
  "sample_otsl = ''<fcel>a<lcel><nl><fcel>b<nl>''"

lemma sample_otsl_rows:
  "otsl_rows sample_otsl =
     [[\<lparr>ot_tag = ''fcel'', ot_text = ''a''\<rparr>, \<lparr>ot_tag = ''lcel'', ot_text = []\<rparr>],
      [\<lparr>ot_tag = ''fcel'', ot_text = ''b''\<rparr>]]"
  by code_simp

lemma sample_otsl_parses:
  "\<exists>data report. parse_otsl_grid (\<lambda>_. 1) sample_otsl = Some (data, report)
     \<and> td_num_rows data = 2 \<and> td_num_cols data = 2 \<and> \<not> cut_grid_omitted report"
proof -
  let ?R = "otsl_rows sample_otsl"
  have k: "kept_table_shape (length ?R) (widest ?R) = (2, 2)"
    using kept_shape_all [of 2 2] by (simp add: sample_otsl_rows widest_def table_caps numeral_2_eq_2)
  have s: "scan_rows (\<lambda>_ _ _ a. a) () sample_otsl = ((length ?R, widest ?R), ())"
    by (rule shape.scan_rows_state)
  have "scan_rows (keep_token 2 2) (replicate 2 []) sample_otsl = ((length ?R, widest ?R), map (take 2) (take 2 ?R))"
    using kept.scan_rows_state [of 2 2 sample_otsl] by (simp add: kept_rows_of_def sample_otsl_rows)
  with k show ?thesis
    unfolding parse_otsl_grid_def s
    by (simp add: Let_def sample_otsl_rows widest_def anchor_cells_def anchor_cell_def row_span_def col_span_def
        is_anchor_def is_horizontal_filler_def is_vertical_filler_def last_row_def last_col_def kMaxGridBytes_def)
qed

theorem otsl_grid_exact_witness:
  "\<exists>data report. parse_otsl_grid (\<lambda>_. 1) sample_otsl = Some (data, report) \<and> td_num_rows data = 2
     \<and> table_ok data
     \<and> td_grid data ! 1 ! 1 = last (unit_cell 1 1 # filter (\<lambda>cell. covers cell 1 1) (td_cells data))"
proof -
  obtain data report where d: "parse_otsl_grid (\<lambda>_. 1) sample_otsl = Some (data, report)"
    "td_num_rows data = 2" "td_num_cols data = 2" "\<not> cut_grid_omitted report"
    using sample_otsl_parses by blast
  have n: "1 < nat (td_num_rows data)" "1 < nat (td_num_cols data)" by (simp_all add: d)
  show ?thesis
    using otsl_grid_exact [OF d(1)] n d by metis
qed

text \<open>
  C20: the two passes over the token stream, which store nothing beyond the caps, find the
  same table as keeping all rows and cutting afterwards: no table is found exactly when the
  stream has no cell, the cells are those of the leading rows and columns of the whole
  table, and what the report says was cut is what is missing.
\<close>

theorem otsl_two_passes:
  "map_option (\<lambda>(data, report). (td_cells data, cut_truncated report)) (parse_otsl_grid byte_size body)
     = (let R = otsl_rows body; (n, k) = kept_table_shape (length R) (widest R)
        in if R = [] then None
           else Some (anchor_cells (map (take k) (take n R)), n < length R \<or> k < widest R))"
proof (cases "parse_otsl_grid byte_size body")
  case None
  moreover have "scan_rows (\<lambda>_ _ _ a. a) () body = ((length (otsl_rows body), widest (otsl_rows body)), ())"
    by (rule shape.scan_rows_state)
  ultimately have "otsl_rows body = []"
    unfolding parse_otsl_grid_def by (simp add: Let_def split: prod.splits if_splits)
  with None show ?thesis by (simp add: Let_def split: prod.splits)
next
  case (Some p)
  obtain data report where p: "p = (data, report)" by fastforce
  from Some [unfolded p] show ?thesis
    by (cases rule: parse_otsl_grid_elim) (simp add: Some p Let_def)
qed

text \<open>Every fragment of the OTSL mapper is a finished one.\<close>

lemma table_document_ok:
  assumes "table_ok data"
  shows "fragment_ok page (finalize_document page (set_last_table_data data (add_table page (page_prov page) empty_document)))"
proof (rule finalize_fragment)
  show "draft page (set_last_table_data data (add_table page (page_prov page) empty_document))"
    using assms by (intro set_last_table_draft tables.add_draft [where box = full_page_box, folded page_prov_def] empty_draft)
qed (simp_all add: set_last_table_data_def add_table_def empty_document_def empty_group_def items_def Let_def)

lemma map_otsl_ok: "map_otsl byte_size text page = Inr (doc, ws) \<Longrightarrow> fragment_ok page doc"
  using otsl_table_ok by (auto simp: map_otsl_def table_document_ok split: option.splits)

end
