(* ===== verification/Markdown.thy ===== *)
theory Markdown
  imports Builder
begin

text \<open>
  \<^verbatim>\<open>src/mapping/markdown.cpp\<close>: fenced code, ATX headings, pipe tables, list items and
  paragraphs, line by line.
\<close>

section \<open>Pipe tables\<close>

definition is_separator_row :: "string \<Rightarrow> bool" where
  "is_separator_row line \<longleftrightarrow>
     list_all (\<lambda>c. c \<in> {CHR ''-'', CHR ''|'', CHR '':'', CHR '' '', TAB}) line \<and> CHR ''-'' \<in> set line"

text \<open>
  The scan of a row: the cells in order, the last one included, and whether the row ended
  on a cell boundary.
\<close>

function pipe_scan :: "string \<Rightarrow> bool \<Rightarrow> string \<Rightarrow> string list \<times> bool" where
  "pipe_scan cell boundary [] = ([trim cell], boundary)"
| "pipe_scan cell boundary (c # cs) =
     (if c = BACKSLASH \<and> cs \<noteq> [] \<and> hd cs = CHR ''|'' then pipe_scan (cell @ [CHR ''|'']) False (tl cs)
      else if c = CHR ''|'' then apfst ((#) (trim cell)) (pipe_scan [] True cs)
      else pipe_scan (cell @ [c]) False cs)"
  by pat_completeness auto

termination
  by (relation "measure (\<lambda>(_, _, s). length s)") auto

definition split_pipe_row :: "string \<Rightarrow> string list" where
  "split_pipe_row line =
     (let row0 = trim line; row = (if starts_with row0 ''|'' then tl row0 else row0);
          (cells, boundary) = pipe_scan [] False row
      in if row \<noteq> [] \<and> boundary then butlast cells else cells)"

record md_state =
  md_doc :: document
  md_items :: nat
  md_paragraph :: string
  md_warnings :: "warning list"

definition pipe_header_rows :: "string list \<Rightarrow> nat" where
  "pipe_header_rows lines = (if 1 < length lines \<and> is_separator_row (lines ! 1) then 1 else 0)"

definition pipe_rows :: "string list \<Rightarrow> string list list" where
  "pipe_rows lines =
     map split_pipe_row
       (if pipe_header_rows lines = 1 then hd lines # drop 2 lines else lines)"

definition emit_pipe_table :: "page_context \<Rightarrow> string list \<Rightarrow> md_state \<Rightarrow> md_state" where
  "emit_pipe_table page lines s =
     (let doc = add_table page (page_prov page) (md_doc s);
          (data, report) = fill_table_data (pipe_rows lines) (pipe_header_rows lines) empty_table_data
      in s\<lparr>md_doc := set_last_table_data data doc,
           md_warnings := md_warnings s @ note_table_cut report data ''table''
             (body_child_ref TABLE (length (doc_tables doc) - 1))\<rparr>)"

section \<open>Lines\<close>

definition strip_cr :: "string \<Rightarrow> string" where
  "strip_cr line = (if ends_with line [CR] then butlast line else line)"

definition markdown_lines :: "string \<Rightarrow> string list" where
  "markdown_lines text = map strip_cr (split_at LF text)"

definition flush_paragraph :: "page_context \<Rightarrow> md_state \<Rightarrow> md_state" where
  "flush_paragraph page s =
     (let body = trim (md_paragraph s); s' = s\<lparr>md_paragraph := []\<rparr>
      in if body = [] then s'
         else s'\<lparr>md_doc := add_text page DOC_ITEM_LABEL_PARAGRAPH (page_prov page) body (md_doc s'),
                 md_items := md_items s' + 1\<rparr>)"

definition kFence :: string where
  "kFence = ''```''"

definition add_fenced :: "page_context \<Rightarrow> string \<Rightarrow> string list \<Rightarrow> md_state \<Rightarrow> md_state" where
  "add_fenced page stripped code_lines s0 =
     (let s = flush_paragraph page s0; language = trim (drop 3 stripped);
          code = concat (map (\<lambda>l. l @ [LF]) code_lines)
      in s\<lparr>md_doc := add_code page (page_prov page) (butlast code) language (md_doc s),
           md_items := md_items s + 1\<rparr>)"

definition hash_count :: "string \<Rightarrow> nat" where
  "hash_count stripped = length (takeWhile (\<lambda>c. c = CHR ''#'') stripped)"

definition is_heading :: "string \<Rightarrow> bool" where
  "is_heading stripped \<longleftrightarrow>
     (let hashes = hash_count stripped
      in 1 \<le> hashes \<and> hashes \<le> 6 \<and> hashes < length stripped \<and> is_space (stripped ! hashes))"

text \<open>The optional closing run of \<^verbatim>\<open>#\<close> comes off.\<close>

definition heading_text :: "string \<Rightarrow> string" where
  "heading_text stripped =
     (let heading = trim (drop (hash_count stripped) stripped);
          body = rstrip_by (\<lambda>c. c = CHR ''#'') heading
      in if body = [] then []
         else if length body < length heading \<and> (last body = CHR '' '' \<or> last body = TAB)
         then trim (butlast body) else heading)"

definition add_heading :: "page_context \<Rightarrow> string \<Rightarrow> md_state \<Rightarrow> md_state" where
  "add_heading page stripped s0 =
     (let s = flush_paragraph page s0
      in s\<lparr>md_doc := add_section_header page (int (hash_count stripped)) (page_prov page)
                        (heading_text stripped) (md_doc s),
           md_items := md_items s + 1\<rparr>)"

definition is_bulleted :: "string \<Rightarrow> bool" where
  "is_bulleted stripped \<longleftrightarrow>
     2 < length stripped \<and> stripped ! 0 \<in> {CHR ''-'', CHR ''*'', CHR ''+''} \<and> is_space (stripped ! 1)"

definition number_end :: "string \<Rightarrow> nat" where
  "number_end stripped = length (takeWhile is_digit stripped)"

definition is_enumerated :: "string \<Rightarrow> bool" where
  "is_enumerated stripped \<longleftrightarrow>
     0 < number_end stripped \<and> number_end stripped + 1 < length stripped
     \<and> stripped ! number_end stripped \<in> {CHR ''.'', CHR '')''}
     \<and> is_space (stripped ! (number_end stripped + 1))"

definition add_markdown_item :: "page_context \<Rightarrow> string \<Rightarrow> md_state \<Rightarrow> md_state" where
  "add_markdown_item page stripped s0 =
     (let s = flush_paragraph page s0; n = (if is_bulleted stripped then 1 else number_end stripped + 1)
      in s\<lparr>md_doc := add_list_item page (page_prov page) (trim (drop n stripped))
                        (is_enumerated stripped) (take n stripped) (md_doc s),
           md_items := md_items s + 1\<rparr>)"

definition is_pipe_line :: "string \<Rightarrow> bool" where
  "is_pipe_line line \<longleftrightarrow> starts_with (trim line) ''|''"

definition is_fence_line :: "string \<Rightarrow> bool" where
  "is_fence_line line \<longleftrightarrow> starts_with (trim line) kFence"

definition add_plain_line :: "page_context \<Rightarrow> string \<Rightarrow> md_state \<Rightarrow> md_state" where
  "add_plain_line page stripped s =
     (if stripped = [] then flush_paragraph page s
      else s\<lparr>md_paragraph := md_paragraph s @ stripped @ [LF]\<rparr>)"

definition add_pipe_table :: "page_context \<Rightarrow> string list \<Rightarrow> md_state \<Rightarrow> md_state" where
  "add_pipe_table page table_lines s0 =
     (let s = emit_pipe_table page table_lines (flush_paragraph page s0)
      in s\<lparr>md_items := md_items s + 1\<rparr>)"

lemma length_drop_dropWhile: "length (drop n (dropWhile P xs)) \<le> length xs"
  using length_dropWhile_le [of P xs] by simp

function map_lines :: "page_context \<Rightarrow> string list \<Rightarrow> md_state \<Rightarrow> md_state" where
  "map_lines page [] s = s"
| "map_lines page (line # rest) s =
     (let stripped = trim line
      in if is_fence_line line then
           map_lines page (drop 1 (dropWhile (\<lambda>l. \<not> is_fence_line l) rest))
             (add_fenced page stripped (takeWhile (\<lambda>l. \<not> is_fence_line l) rest) s)
         else if is_heading stripped then map_lines page rest (add_heading page stripped s)
         else if is_pipe_line line then
           map_lines page (dropWhile is_pipe_line rest)
             (add_pipe_table page (line # takeWhile is_pipe_line rest) s)
         else if is_bulleted stripped \<or> is_enumerated stripped then
           map_lines page rest (add_markdown_item page stripped s)
         else map_lines page rest (add_plain_line page stripped s))"
  by pat_completeness auto

termination
proof (relation "measure (\<lambda>(_, lines, _). length lines)")
qed (use length_drop_dropWhile [of 1] length_dropWhile_le in \<open>auto simp: less_Suc_eq_le\<close>)

definition map_markdown :: "string \<Rightarrow> page_context \<Rightarrow> string + (document \<times> warning list)" where
  "map_markdown text page =
     (if trim text = [] then Inl ''empty markdown response''
      else
        (let s = flush_paragraph page (map_lines page (markdown_lines text)
                   \<lparr>md_doc = empty_document, md_items = 0, md_paragraph = [], md_warnings = []\<rparr>)
         in if md_items s = 0 then Inl ''markdown response produced no document items''
            else Inr (finalize_document page (md_doc s), md_warnings s)))"

section \<open>What the line loop keeps\<close>

definition md_ok :: "page_context \<Rightarrow> md_state \<Rightarrow> bool" where
  "md_ok page s \<longleftrightarrow> in_progress page (md_doc s) (md_items s)"

lemma md_ok_warn [simp]: "md_ok page (s\<lparr>md_warnings := w\<rparr>) = md_ok page s"
  "md_ok page (s\<lparr>md_paragraph := w'\<rparr>) = md_ok page s"
  by (simp_all add: md_ok_def)

lemma flush_ok [keeps]: "md_ok page s \<Longrightarrow> md_ok page (flush_paragraph page s)"
  by (auto simp: md_ok_def flush_paragraph_def Let_def intro: keeps)

lemma md_ok_added:
  assumes "\<And>doc n. in_progress page doc n \<Longrightarrow> in_progress page (add doc) (Suc n)" and "md_ok page s"
  shows "md_ok page ((flush_paragraph page s)\<lparr>md_doc := add (md_doc (flush_paragraph page s)),
    md_items := md_items (flush_paragraph page s) + 1\<rparr>)"
  using assms(1) flush_ok [OF assms(2)] by (simp add: md_ok_def)

lemma fenced_ok [keeps]: "md_ok page s \<Longrightarrow> md_ok page (add_fenced page stripped ls s)"
  unfolding add_fenced_def Let_def by (rule md_ok_added) (intro keeps)

lemma heading_ok [keeps]: "md_ok page s \<Longrightarrow> md_ok page (add_heading page stripped s)"
  unfolding add_heading_def Let_def by (rule md_ok_added) (intro keeps)

lemma item_ok [keeps]: "md_ok page s \<Longrightarrow> md_ok page (add_markdown_item page stripped s)"
  unfolding add_markdown_item_def Let_def by (rule md_ok_added) (intro keeps)

lemma plain_ok [keeps]: "md_ok page s \<Longrightarrow> md_ok page (add_plain_line page stripped s)"
  by (simp add: add_plain_line_def flush_ok)

lemma table_ok_md [keeps]:
  assumes "md_ok page s"
  shows "md_ok page (add_pipe_table page ls s)"
proof -
  obtain data report where f: "fill_table_data (pipe_rows ls) (pipe_header_rows ls) empty_table_data = (data, report)"
    by fastforce
  show ?thesis
    using in_progress_table [OF _ f] flush_ok [OF assms]
    by (simp add: add_pipe_table_def emit_pipe_table_def f Let_def md_ok_def)
qed

lemma map_lines_ok: "md_ok page s \<Longrightarrow> md_ok page (map_lines page ls s)"
  by (induction page ls s rule: map_lines.induct) (auto simp: Let_def intro: keeps)

lemma map_markdown_ok:
  assumes "map_markdown text page = Inr (doc, ws)"
  shows "fragment_ok page doc"
proof -
  define s where "s = flush_paragraph page (map_lines page (markdown_lines text)
      \<lparr>md_doc = empty_document, md_items = 0, md_paragraph = [], md_warnings = []\<rparr>)"
  have "md_ok page \<lparr>md_doc = empty_document, md_items = 0, md_paragraph = [], md_warnings = []\<rparr>"
    by (simp add: md_ok_def)
  then have "md_ok page s" unfolding s_def by (intro flush_ok map_lines_ok)
  moreover have "0 < md_items s" "doc = finalize_document page (md_doc s)"
    using assms by (auto simp: map_markdown_def Let_def s_def split: if_splits)
  ultimately show ?thesis by (auto simp: md_ok_def intro: in_progress_finish)
qed

section \<open>Properties\<close>

text \<open>A row of a pipe table written out: the bars of the cells escaped, the cells set apart.\<close>

fun escape_bars :: "string \<Rightarrow> string" where
  "escape_bars [] = []"
| "escape_bars (c # cs) = (if c = CHR ''|'' then BACKSLASH # c # escape_bars cs else c # escape_bars cs)"

definition pipe_row :: "string list \<Rightarrow> string" where
  "pipe_row cells = ''|'' @ concat (map (\<lambda>c. '' '' @ escape_bars c @ '' |'') cells)"

lemma pipe_scan_cell:
  "pipe_scan cell b (escape_bars c @ CHR '' '' # rest) = pipe_scan (cell @ c @ '' '') False rest"
proof (induction c arbitrary: cell b)
  case (Cons x c)
  show ?case
  proof (cases "x = CHR ''|''")
    case True
    with Cons show ?thesis by simp
  next
    case False
    have "hd (escape_bars c @ CHR '' '' # rest) \<noteq> CHR ''|''"
      by (cases c) auto
    with False Cons show ?thesis by simp
  qed
qed simp

lemma trim_padded: "trim (CHR '' '' # c @ '' '') = trim c"
  by (cases "list_all is_trim_char c")
    (auto simp: trim_def strip_by_def rstrip_by_def is_trim_char_def dropWhile_append dropWhile_all list_all_iff)

lemma pipe_scan_row:
  "pipe_scan [] b (concat (map (\<lambda>c. '' '' @ escape_bars c @ '' |'') cells))
     = (map trim cells @ [[]], if cells = [] then b else True)"
proof (induction cells arbitrary: b)
  case (Cons c cells)
  have "pipe_scan [] b ('' '' @ escape_bars c @ '' |'' @ rest)
      = apfst ((#) (trim c)) (pipe_scan [] True rest)" for rest
    by (simp add: pipe_scan_cell trim_padded)
  with Cons [of True] show ?case by simp
qed simp

text \<open>
  C21: reading back a row of a pipe table.  Whatever the cells hold, bars and backslashes
  included, a row of at least one cell written with its bars escaped is split into the same
  cells, trimmed.
\<close>

theorem pipe_row_round_trip:
  assumes "cells \<noteq> []"
  shows "split_pipe_row (pipe_row cells) = map trim cells"
proof -
  let ?rest = "concat (map (\<lambda>c. '' '' @ escape_bars c @ '' |'') cells)"
  have l: "?rest \<noteq> [] \<and> last ?rest = CHR ''|''"
    using assms by (induction cells) (auto simp: last_append)
  have "trim (pipe_row cells) = pipe_row cells"
    unfolding trim_def pipe_row_def using l by (intro strip_by_id) (simp add: is_trim_char_def)
  then show ?thesis
    using l assms pipe_scan_row [of False cells] by (simp add: split_pipe_row_def pipe_row_def Let_def)
qed

theorem pipe_row_round_trip_witness:
  "split_pipe_row (pipe_row [''a|b'', []]) = [''a|b'', []]"
  using pipe_row_round_trip [of "[''a|b'', []]"]
  by (simp add: trim_def strip_by_def rstrip_by_def is_trim_char_def)

end
