(* ===== verification/Html.thy ===== *)
theory Html
  imports Builder
begin

text \<open>
  \<^verbatim>\<open>src/mapping/html.cpp\<close>: block-level HTML, read with linear scans.  The element scanner
  keeps positions into the text and remembers its last searches, as the code does; a
  reference scanner without the memory stands beside it.
\<close>

section \<open>Searching\<close>

definition find_pos :: "(string \<Rightarrow> bool) \<Rightarrow> string \<Rightarrow> nat \<Rightarrow> nat option" where
  "find_pos P text from = find (\<lambda>i. P (drop i text)) [from..<length text]"

definition find_char :: "char \<Rightarrow> string \<Rightarrow> nat \<Rightarrow> nat option" where
  "find_char c = find_pos (\<lambda>r. r \<noteq> [] \<and> hd r = c)"

text \<open>The text from here on spells a lowercase name, ignoring case.\<close>

fun at_ci :: "string \<Rightarrow> string \<Rightarrow> bool" where
  "at_ci text [] = True"
| "at_ci [] (n # ns) = False"
| "at_ci (c # cs) (n # ns) = (to_lower c = n \<and> at_ci cs ns)"

definition find_ci :: "string \<Rightarrow> string \<Rightarrow> nat \<Rightarrow> nat option" where
  "find_ci needle = find_pos (\<lambda>r. at_ci r needle)"

section \<open>The element scanner\<close>

record cached =
  ca_searched :: bool
  ca_from :: nat
  ca_at :: "nat option"

record scanner =
  sc_pos :: nat
  sc_gt :: cached
  sc_close :: "cached list"

definition fresh_cached :: cached where
  "fresh_cached = \<lparr>ca_searched = False, ca_from = 0, ca_at = None\<rparr>"

definition new_scanner :: "string list \<Rightarrow> scanner" where
  "new_scanner names =
     \<lparr>sc_pos = 0, sc_gt = fresh_cached, sc_close = replicate (length names) fresh_cached\<rparr>"

definition cached_find :: "(nat \<Rightarrow> nat option) \<Rightarrow> nat \<Rightarrow> cached \<Rightarrow> nat option \<times> cached" where
  "cached_find search from c =
     (if \<not> ca_searched c \<or> (case ca_at c of None \<Rightarrow> from < ca_from c | Some a \<Rightarrow> a < from)
      then (search from, \<lparr>ca_searched = True, ca_from = from, ca_at = search from\<rparr>)
      else (ca_at c, c))"

definition closing_tag :: "string \<Rightarrow> string" where
  "closing_tag name = ''</'' @ name @ ''>''"

definition opens_at :: "string \<Rightarrow> nat \<Rightarrow> string \<Rightarrow> bool" where
  "opens_at text opened name \<longleftrightarrow>
     (let name_end = opened + 1 + length name
      in at_ci (drop (opened + 1) text) name \<and> name_end < length text
         \<and> (is_space (text ! name_end) \<or> text ! name_end = CHR ''>'' \<or> text ! name_end = CHR ''/''))"

fun first_index :: "('a \<Rightarrow> bool) \<Rightarrow> 'a list \<Rightarrow> nat option" where
  "first_index P [] = None"
| "first_index P (x # xs) = (if P x then Some 0 else map_option Suc (first_index P xs))"

lemma find_pos_Some:
  assumes "find_pos P text from = Some a"
  shows "from \<le> a \<and> a < length text \<and> P (drop a text) \<and> (\<forall>i. from \<le> i \<and> i < a \<longrightarrow> \<not> P (drop i text))"
proof -
  obtain k where k: "k < length text - from" "P (drop (from + k) text)" "a = from + k"
    "\<forall>j < k. \<not> P (drop (from + j) text)"
    using assms by (auto simp: find_pos_def find_Some_iff)
  have "\<not> P (drop i text)" if "from \<le> i" "i < a" for i
    using k(3,4) that by (metis add_diff_inverse_nat add_less_cancel_left not_less)
  with k show ?thesis by auto
qed

lemma find_pos_None: "find_pos P text from = None \<longleftrightarrow> (\<forall>i. from \<le> i \<and> i < length text \<longrightarrow> \<not> P (drop i text))"
  by (auto simp: find_pos_def find_None_iff)

text \<open>\<^verbatim>\<open>ElementScanner::next\<close>: the next element, as its name and its content.\<close>

function next_element ::
  "string \<Rightarrow> string list \<Rightarrow> scanner \<Rightarrow> (string \<times> string) option \<times> scanner" where
  "next_element text names s =
     (if length text \<le> sc_pos s then (None, s)
      else case find_char CHR ''<'' text (sc_pos s) of
        None \<Rightarrow> (None, s)
      | Some opened \<Rightarrow>
          (case first_index (opens_at text opened) names of
             None \<Rightarrow> next_element text names (s\<lparr>sc_pos := opened + 1\<rparr>)
           | Some i \<Rightarrow>
               (case cached_find (find_char CHR ''>'' text) (opened + 1 + length (names ! i)) (sc_gt s) of
                  (None, g) \<Rightarrow> (None, s\<lparr>sc_pos := length text, sc_gt := g\<rparr>)
                | (Some gt, g) \<Rightarrow>
                    (case cached_find (find_ci (closing_tag (names ! i)) text) (gt + 1) (sc_close s ! i) of
                       (None, c) \<Rightarrow>
                         next_element text names
                           (s\<lparr>sc_pos := opened + 1, sc_gt := g, sc_close := (sc_close s)[i := c]\<rparr>)
                     | (Some close, c) \<Rightarrow>
                         (Some (names ! i, substr text (gt + 1) (close - gt - 1)),
                          s\<lparr>sc_pos := close + length (closing_tag (names ! i)), sc_gt := g,
                            sc_close := (sc_close s)[i := c]\<rparr>)))))"
  by pat_completeness auto

termination
  by (relation "measure (\<lambda>(text, _, s). length text - sc_pos s)")
    (auto simp: find_char_def dest!: find_pos_Some)

declare next_element.simps [simp del]

text \<open>The same scanner without the memory: every search starts afresh.\<close>

function next_plain :: "string \<Rightarrow> string list \<Rightarrow> nat \<Rightarrow> (string \<times> string) option \<times> nat" where
  "next_plain text names pos =
     (if length text \<le> pos then (None, pos)
      else case find_char CHR ''<'' text pos of
        None \<Rightarrow> (None, pos)
      | Some opened \<Rightarrow>
          (case first_index (opens_at text opened) names of
             None \<Rightarrow> next_plain text names (opened + 1)
           | Some i \<Rightarrow>
               (case find_char CHR ''>'' text (opened + 1 + length (names ! i)) of
                  None \<Rightarrow> (None, length text)
                | Some gt \<Rightarrow>
                    (case find_ci (closing_tag (names ! i)) text (gt + 1) of
                       None \<Rightarrow> next_plain text names (opened + 1)
                     | Some close \<Rightarrow>
                         (Some (names ! i, substr text (gt + 1) (close - gt - 1)),
                          close + length (closing_tag (names ! i)))))))"
  by pat_completeness auto

termination
  by (relation "measure (\<lambda>(text, _, pos). length text - pos)")
    (auto simp: find_char_def dest!: find_pos_Some)

declare next_plain.simps [simp del]

section \<open>The memory changes nothing\<close>

text \<open>
  A search that moves on: its result does not change as long as the start stays before it.
  Remembered results of such a search may be used for later starts.
\<close>

locale onward_search =
  fixes search :: "nat \<Rightarrow> nat option"
  assumes found_stays: "search f = Some a \<Longrightarrow> f \<le> f' \<Longrightarrow> f' \<le> a \<Longrightarrow> search f' = Some a"
    and none_stays: "search f = None \<Longrightarrow> f \<le> f' \<Longrightarrow> search f' = None"
begin

lemma cached_find_search:
  assumes "ca_searched c \<longrightarrow> ca_at c = search (ca_from c) \<and> ca_from c \<le> from"
    and "cached_find search from c = (r, c')"
  shows "r = search from \<and> (ca_searched c' \<longrightarrow> ca_at c' = search (ca_from c') \<and> ca_from c' \<le> from)"
proof (cases "ca_searched c \<and> (case ca_at c of None \<Rightarrow> ca_from c \<le> from | Some a \<Rightarrow> from \<le> a)")
  case True
  then have "r = ca_at c" "c' = c" using assms(2) by (auto simp: cached_find_def split: option.splits)
  moreover have "ca_at c = search from"
  proof (cases "ca_at c")
    case None
    with True assms(1) have "search (ca_from c) = None" "ca_from c \<le> from" by simp_all
    from none_stays [OF this] None show ?thesis by simp
  next
    case (Some a)
    with True assms(1) have "search (ca_from c) = Some a" "ca_from c \<le> from" "from \<le> a" by simp_all
    from found_stays [OF this] Some show ?thesis by simp
  qed
  ultimately show ?thesis using assms(1) by simp
next
  case False
  then have "r = search from" "c' = \<lparr>ca_searched = True, ca_from = from, ca_at = search from\<rparr>"
    using assms(2) by (auto simp: cached_find_def not_le split: option.splits if_splits)
  then show ?thesis by simp
qed

end

lemma find_pos_later:
  "find_pos P text f = Some a \<Longrightarrow> f \<le> f' \<Longrightarrow> f' \<le> a \<Longrightarrow> find_pos P text f' = Some a"
proof -
  assume a: "find_pos P text f = Some a" "f \<le> f'" "f' \<le> a"
  obtain b where b: "find_pos P text f' = Some b"
    using find_pos_Some [OF a(1)] a(3) find_pos_None [of P "text" f'] by (metis not_None_eq)
  have "b = a"
    using find_pos_Some [OF a(1)] find_pos_Some [OF b] a(2,3) by (metis le_trans linorder_neqE_nat)
  with b show ?thesis by simp
qed

lemma find_pos_gone: "find_pos P text f = None \<Longrightarrow> f \<le> f' \<Longrightarrow> find_pos P text f' = None"
  by (auto simp: find_pos_None)

interpretation chars: onward_search "find_char c text" for c "text"
  unfolding find_char_def by unfold_locales (auto intro: find_pos_later find_pos_gone)

interpretation names_ci: onward_search "find_ci needle text" for needle "text"
  unfolding find_ci_def by unfold_locales (auto intro: find_pos_later find_pos_gone)

lemma find_char_Some:
  "find_char c text f = Some a \<Longrightarrow> f \<le> a \<and> a < length text \<and> text ! a = c \<and> (\<forall>i. f \<le> i \<and> i < a \<longrightarrow> text ! i \<noteq> c)"
  unfolding find_char_def by (drule find_pos_Some) (auto simp: hd_drop_conv_nth)

lemma find_char_mono:
  assumes "find_char c text f = Some a" and "f' \<le> f"
  shows "\<exists>b \<le> a. find_char c text f' = Some b"
proof (cases "find_char c text f'")
  case None
  from chars.none_stays [OF None assms(2)] assms(1) show ?thesis by simp
next
  case (Some b)
  have "b \<le> a"
  proof (rule ccontr)
    assume "\<not> b \<le> a"
    with find_char_Some [OF assms(1)] assms(2) have "f' \<le> a \<and> a < b" "text ! a = c" by simp_all
    with find_char_Some [OF Some] show False by simp
  qed
  with Some show ?thesis by blast
qed

lemma first_index_Some: "first_index P xs = Some i \<Longrightarrow> i < length xs \<and> P (xs ! i)"
  by (induction xs arbitrary: i) (auto split: if_splits)

lemma at_ci_nth: "at_ci s name \<Longrightarrow> j < length name \<Longrightarrow> j < length s \<and> to_lower (s ! j) = name ! j"
  by (induction s name arbitrary: j rule: at_ci.induct) (auto simp: nth_Cons split: nat.splits)

lemma to_lower_lt: "to_lower CHR ''<'' = CHR ''<''"
  by (simp add: to_lower_def is_upper_def code_def)

lemma opens_no_bracket:
  assumes "opens_at text opened name" and "CHR ''<'' \<notin> set name" and "opened < i" and "i \<le> opened + 1 + length name"
  shows "text ! i \<noteq> CHR ''<''"
proof (cases "i = opened + 1 + length name")
  case True
  then show ?thesis using assms(1) by (auto simp: opens_at_def Let_def is_space_def code_def)
next
  case False
  define j where "j = i - (opened + 1)"
  have j: "j < length name" "i = opened + 1 + j" using False assms(3,4) by (auto simp: j_def)
  have "at_ci (drop (opened + 1) text) name" using assms(1) by (simp add: opens_at_def Let_def)
  from at_ci_nth [OF this j(1)] have drop: "j < length (drop (opened + 1) text)"
    "to_lower (drop (opened + 1) text ! j) = name ! j" by simp_all
  have "drop (opened + 1) text ! j = text ! i" unfolding j(2) using drop(1) by (intro nth_drop) simp
  with drop(2) have "to_lower (text ! i) = name ! j" by simp
  then show ?thesis using assms(2) nth_mem [OF j(1)] to_lower_lt by metis
qed

definition remembers :: "(nat \<Rightarrow> nat option) \<Rightarrow> cached \<Rightarrow> bool" where
  "remembers search c \<longleftrightarrow> (ca_searched c \<longrightarrow> ca_at c = search (ca_from c))"

text \<open>
  What the scanner remembers is right, and was searched from no further on than any later
  element can ask for.
\<close>

definition asked_before :: "string \<Rightarrow> scanner \<Rightarrow> nat \<Rightarrow> bool" where
  "asked_before text s p \<longleftrightarrow>
     (ca_searched (sc_gt s) \<longrightarrow> ca_from (sc_gt s) \<le> p)
     \<and> (\<forall>c \<in> set (sc_close s). ca_searched c \<longrightarrow>
          (\<forall>g. find_char CHR ''>'' text p = Some g \<longrightarrow> ca_from c \<le> g + 1))"

definition scan_inv :: "string \<Rightarrow> string list \<Rightarrow> scanner \<Rightarrow> bool" where
  "scan_inv text names s \<longleftrightarrow>
     length (sc_close s) = length names
     \<and> remembers (find_char CHR ''>'' text) (sc_gt s)
     \<and> (\<forall>i < length names. remembers (find_ci (closing_tag (names ! i)) text) (sc_close s ! i))
     \<and> (\<forall>p. sc_pos s \<le> p \<and> p < length text \<and> text ! p = CHR ''<'' \<longrightarrow> asked_before text s p)"

lemma scan_inv_new: "scan_inv text names (new_scanner names)"
  by (auto simp: scan_inv_def asked_before_def new_scanner_def fresh_cached_def remembers_def)

lemma asked_before_pos [simp]: "asked_before text (s\<lparr>sc_pos := p\<rparr>) q = asked_before text s q"
  by (simp add: asked_before_def)

lemma scan_inv_pos: "scan_inv text names s \<Longrightarrow> sc_pos s \<le> p \<Longrightarrow> scan_inv text names (s\<lparr>sc_pos := p\<rparr>)"
  unfolding scan_inv_def by (auto dest: le_trans)

lemma scan_searches:
  assumes "scan_inv text names s" and "list_all (\<lambda>n. CHR ''<'' \<notin> set n) names"
    and "find_char CHR ''<'' text (sc_pos s) = Some opened"
    and "first_index (opens_at text opened) names = Some i"
    and "cached_find (find_char CHR ''>'' text) (opened + 1 + length (names ! i)) (sc_gt s) = (r, g)"
  shows "r = find_char CHR ''>'' text (opened + 1 + length (names ! i))"
    and "opened + 1 \<le> p \<Longrightarrow> scan_inv text names (s\<lparr>sc_pos := p, sc_gt := g\<rparr>)"
    and "r = Some gt \<Longrightarrow> cached_find (find_ci (closing_tag (names ! i)) text) (gt + 1) (sc_close s ! i) = (q, c) \<Longrightarrow>
      q = find_ci (closing_tag (names ! i)) text (gt + 1)
      \<and> (opened + 1 \<le> p \<longrightarrow>
           scan_inv text names (s\<lparr>sc_pos := p, sc_gt := g, sc_close := (sc_close s)[i := c]\<rparr>))"
proof -
  let ?e = "opened + 1 + length (names ! i)"
  have i: "i < length names" "opens_at text opened (names ! i)" using first_index_Some [OF assms(4)] by auto
  have op: "sc_pos s \<le> opened" "opened < length text" "text ! opened = CHR ''<''"
    using find_char_Some [OF assms(3)] by auto
  have clear: "?e < o'" if "opened + 1 \<le> o'" "text ! o' = CHR ''<''" for o'
    using opens_no_bracket [OF i(2), of o'] assms(2) i(1) that
    by (metis list_all_length not_le_imp_less Suc_eq_plus1 Suc_le_lessD)
  have before: "asked_before text s opened" using assms(1) op by (simp add: scan_inv_def)
  have later: "asked_before text s p" if "opened + 1 \<le> p" "p < length text" "text ! p = CHR ''<''" for p
  proof -
    have "sc_pos s \<le> p" using op(1) that(1) by linarith
    with that(2,3) assms(1) show ?thesis by (simp add: scan_inv_def)
  qed
  have gt: "ca_searched (sc_gt s) \<longrightarrow> ca_at (sc_gt s) = find_char CHR ''>'' text (ca_from (sc_gt s)) \<and> ca_from (sc_gt s) \<le> ?e"
    using assms(1) before by (auto simp: scan_inv_def remembers_def asked_before_def)
  note g = chars.cached_find_search [OF gt assms(5)]
  then show r: "r = find_char CHR ''>'' text ?e" by simp
  have base: "length (sc_close s) = length names"
    "\<forall>j < length names. remembers (find_ci (closing_tag (names ! j)) text) (sc_close s ! j)"
    "remembers (find_char CHR ''>'' text) g"
    using assms(1) g by (auto simp: scan_inv_def remembers_def)
  have gn: "ca_searched g \<longrightarrow> ca_from g \<le> p" if "opened + 1 \<le> p" "text ! p = CHR ''<''" for p
    using g clear [OF that] by auto
  show "scan_inv text names (s\<lparr>sc_pos := p, sc_gt := g\<rparr>)" if p: "opened + 1 \<le> p"
    unfolding scan_inv_def
  proof (intro conjI allI impI)
    fix p' assume "sc_pos (s\<lparr>sc_pos := p, sc_gt := g\<rparr>) \<le> p' \<and> p' < length text \<and> text ! p' = CHR ''<''"
    then have "opened + 1 \<le> p'" "p' < length text" "text ! p' = CHR ''<''" using p by auto
    with later gn show "asked_before text (s\<lparr>sc_pos := p, sc_gt := g\<rparr>) p'" by (simp add: asked_before_def)
  qed (use base in simp_all)
  assume gt: "r = Some gt" and q: "cached_find (find_ci (closing_tag (names ! i)) text) (gt + 1) (sc_close s ! i) = (q, c)"
  have f: "find_char CHR ''>'' text ?e = Some gt" using r gt by simp
  obtain g0 where g0: "find_char CHR ''>'' text opened = Some g0" "g0 \<le> gt"
    using find_char_mono [OF f, of opened] by auto
  have "ca_searched (sc_close s ! i) \<longrightarrow> ca_from (sc_close s ! i) \<le> g0 + 1"
    using before base(1) i(1) g0(1) by (simp add: asked_before_def)
  then have cl: "ca_searched (sc_close s ! i) \<longrightarrow>
      ca_at (sc_close s ! i) = find_ci (closing_tag (names ! i)) text (ca_from (sc_close s ! i))
      \<and> ca_from (sc_close s ! i) \<le> gt + 1"
    using base(2) i(1) g0(2) by (auto simp: remembers_def)
  note c = names_ci.cached_find_search [OF cl q]
  have beyond: "gt \<le> g'" if "opened + 1 \<le> p" "text ! p = CHR ''<''" "find_char CHR ''>'' text p = Some g'" for p g'
    using find_char_mono [OF that(3), of ?e] clear [OF that(1,2)] f by auto
  have inv: "scan_inv text names (s\<lparr>sc_pos := p, sc_gt := g, sc_close := (sc_close s)[i := c]\<rparr>)" if p: "opened + 1 \<le> p"
    unfolding scan_inv_def
  proof (intro conjI allI impI)
    fix p' assume "sc_pos (s\<lparr>sc_pos := p, sc_gt := g, sc_close := (sc_close s)[i := c]\<rparr>) \<le> p' \<and> p' < length text \<and> text ! p' = CHR ''<''"
    then have p': "opened + 1 \<le> p'" "p' < length text" "text ! p' = CHR ''<''" using p by auto
    have "ca_from c \<le> g' + 1" if "ca_searched c" "find_char CHR ''>'' text p' = Some g'" for g'
      using c that beyond [OF p'(1,3) that(2)] by linarith
    with later [OF p'] gn [OF p'(1,3)]
    show "asked_before text (s\<lparr>sc_pos := p, sc_gt := g, sc_close := (sc_close s)[i := c]\<rparr>) p'"
      by (auto simp: asked_before_def dest!: set_update_subset_insert [THEN subsetD])
  next
    fix j assume "j < length names"
    then show "remembers (find_ci (closing_tag (names ! j)) text)
        (sc_close (s\<lparr>sc_pos := p, sc_gt := g, sc_close := (sc_close s)[i := c]\<rparr>) ! j)"
      using base(1,2) c by (cases "j = i") (auto simp: remembers_def)
  qed (use base in simp_all)
  show "q = find_ci (closing_tag (names ! i)) text (gt + 1)
      \<and> (opened + 1 \<le> p \<longrightarrow>
           scan_inv text names (s\<lparr>sc_pos := p, sc_gt := g, sc_close := (sc_close s)[i := c]\<rparr>))"
    using c inv by blast
qed

lemma next_element_plain:
  assumes "scan_inv html names s" and "list_all (\<lambda>n. CHR ''<'' \<notin> set n) names"
  shows "fst (next_element html names s) = fst (next_plain html names (sc_pos s))
    \<and> sc_pos (snd (next_element html names s)) = snd (next_plain html names (sc_pos s))
    \<and> scan_inv html names (snd (next_element html names s))"
  using assms
proof (induction html names s rule: next_element.induct)
  case (1 html names s)
  note unfolded = next_element.simps [of html names s] next_plain.simps [of html names "sc_pos s"]
  show ?case
  proof (cases "length html \<le> sc_pos s \<or> find_char CHR ''<'' html (sc_pos s) = None")
    case True
    with 1(3) show ?thesis by (auto simp: unfolded)
  next
    case False
    then obtain opened where o: "\<not> length html \<le> sc_pos s" "find_char CHR ''<'' html (sc_pos s) = Some opened" by auto
    then have pos: "sc_pos s \<le> opened + 1" using find_char_Some [OF o(2)] by simp
    show ?thesis
    proof (cases "first_index (opens_at html opened) names")
      case None
      from 1(1) [OF o None scan_inv_pos [OF 1(3) pos] 1(4)] o None show ?thesis by (simp add: unfolded)
    next
      case (Some i)
      obtain r g where g: "cached_find (find_char CHR ''>'' html) (opened + 1 + length (names ! i)) (sc_gt s) = (r, g)"
        by fastforce
      note srch = scan_searches [OF 1(3,4) o(2) Some g]
      show ?thesis
      proof (cases r)
        case None
        have "opened + 1 \<le> length html" using find_char_Some [OF o(2)] by simp
        from srch(2) [OF this] srch(1) o Some None g show ?thesis by (simp add: unfolded)
      next
        case r: (Some gt)
        obtain q c where q: "cached_find (find_ci (closing_tag (names ! i)) html) (gt + 1) (sc_close s ! i) = (q, c)"
          by fastforce
        note close = srch(3) [OF r q]
        show ?thesis
        proof (cases q)
          case None
          have inv: "scan_inv html names (s\<lparr>sc_pos := opened + 1, sc_gt := g, sc_close := (sc_close s)[i := c]\<rparr>)"
            using close by blast
          have "find_char CHR ''>'' html (opened + 1 + length (names ! i)) = Some gt"
            "find_ci (closing_tag (names ! i)) html (gt + 1) = None"
            using srch(1) close r None by simp_all
          with 1(2) [OF o Some g [symmetric] r q [symmetric] None inv 1(4)] o Some g q r None
          show ?thesis by (simp add: unfolded)
        next
          case (Some cl)
          have "gt + 1 \<le> cl" using close Some unfolding find_ci_def by (metis find_pos_Some)
          moreover have "opened + 1 \<le> gt" using srch(1) r find_char_Some [of "CHR ''>''" html] by fastforce
          ultimately have "opened + 1 \<le> cl + length (closing_tag (names ! i))" by simp
          then have "scan_inv html names (s\<lparr>sc_pos := cl + length (closing_tag (names ! i)), sc_gt := g,
              sc_close := (sc_close s)[i := c]\<rparr>)" using close by blast
          moreover have "find_char CHR ''>'' html (opened + 1 + length (names ! i)) = Some gt"
            "find_ci (closing_tag (names ! i)) html (gt + 1) = Some cl"
            using srch(1) close r Some by simp_all
          ultimately show ?thesis
            using o \<open>first_index _ _ = Some i\<close> r Some g q by (simp add: unfolded)
        qed
      qed
    qed
  qed
qed

text \<open>Every element found lies further on, whatever is remembered.\<close>

lemma cached_find_ge:
  assumes "cached_find search from c = (Some a, c')" and "\<And>b. search from = Some b \<Longrightarrow> from \<le> b"
  shows "from \<le> a"
  using assms by (auto simp: cached_find_def split: if_splits option.splits)

lemma next_element_progress:
  "next_element text names s = (Some e, s') \<Longrightarrow> sc_pos s < sc_pos s' \<and> sc_pos s < length text"
proof (induction "text" names s rule: next_element.induct)
  case (1 html names s)
  from 1(3) obtain opened where o: "\<not> length html \<le> sc_pos s" "find_char CHR ''<'' html (sc_pos s) = Some opened"
    by (subst (asm) next_element.simps) (auto split: if_splits option.splits)
  then have pos: "sc_pos s \<le> opened" using find_char_Some [OF o(2)] by simp
  show ?case
  proof (cases "first_index (opens_at html opened) names")
    case None
    with 1(3) o have "next_element html names (s\<lparr>sc_pos := opened + 1\<rparr>) = (Some e, s')"
      by (subst (asm) next_element.simps) simp
    from 1(1) [OF o None this] pos o(1) show ?thesis by simp
  next
    case (Some i)
    obtain r g where g: "cached_find (find_char CHR ''>'' html) (opened + 1 + length (names ! i)) (sc_gt s) = (r, g)"
      by fastforce
    with 1(3) o Some obtain gt where r: "r = Some gt"
      by (subst (asm) next_element.simps) (auto split: option.splits)
    obtain q c where q: "cached_find (find_ci (closing_tag (names ! i)) html) (gt + 1) (sc_close s ! i) = (q, c)"
      by fastforce
    show ?thesis
    proof (cases q)
      case None
      with 1(3) o Some g r q
      have "next_element html names (s\<lparr>sc_pos := opened + 1, sc_gt := g, sc_close := (sc_close s)[i := c]\<rparr>) = (Some e, s')"
        by (subst (asm) next_element.simps) simp
      from 1(2) [OF o Some g [symmetric] r q [symmetric] None this] pos o(1) show ?thesis by simp
    next
      case (Some cl)
      with 1(3) o \<open>first_index _ _ = Some i\<close> g r q
      have "sc_pos s' = cl + length (closing_tag (names ! i))"
        by (subst (asm) next_element.simps) auto
      moreover have "opened + 1 + length (names ! i) \<le> gt"
        using g [unfolded r] by (rule cached_find_ge) (use find_char_Some in blast)
      moreover have "gt + 1 \<le> cl"
        using q [unfolded Some] unfolding find_ci_def by (rule cached_find_ge) (use find_pos_Some in blast)
      ultimately show ?thesis using pos o(1) by simp
    qed
  qed
qed

section \<open>The text of a block\<close>

text \<open>What follows a lowercase line break tag at the front of the text, if one is there.\<close>

definition after_break :: "string \<Rightarrow> string option" where
  "after_break s =
     (let rest = dropWhile is_space (drop 3 s);
          end_of_tag = (if rest \<noteq> [] \<and> hd rest = CHR ''/'' then tl rest else rest)
      in if starts_with s ''<br'' \<and> end_of_tag \<noteq> [] \<and> hd end_of_tag = CHR ''>'' then Some (tl end_of_tag)
         else None)"

lemma after_break_shorter: "after_break s = Some t \<Longrightarrow> length t < length s"
proof -
  assume "after_break s = Some t"
  then have "length t \<le> length (dropWhile is_space (drop 3 s))" "s \<noteq> []"
    by (auto simp: after_break_def Let_def split: if_splits)
  then show ?thesis using length_dropWhile_le [of is_space "drop 3 s"] by (cases s) auto
qed

function br_to_space :: "string \<Rightarrow> string" where
  "br_to_space [] = []"
| "br_to_space (c # cs) =
     (case after_break (c # cs) of
        Some rest \<Rightarrow> CHR '' '' # br_to_space rest
      | None \<Rightarrow> c # br_to_space cs)"
  by pat_completeness auto

termination
  by (relation "measure length") (auto dest: after_break_shorter)

text \<open>Tags come off, from a \<open><\<close> through the next \<open>>\<close>; a \<open><\<close> with none after it is text.\<close>

lemma length_tl_dropWhile: "length (tl (dropWhile P s)) \<le> length s"
  using length_dropWhile_le [of P s] by simp

function strip_angle :: "string \<Rightarrow> string" where
  "strip_angle [] = []"
| "strip_angle (c # cs) =
     (if c \<noteq> CHR ''<'' then c # strip_angle cs
      else if CHR ''>'' \<notin> set cs then c # cs
      else strip_angle (tl (dropWhile (\<lambda>x. x \<noteq> CHR ''>'') cs)))"
  by pat_completeness auto

termination
  by (relation "measure length") (simp_all add: length_tl_dropWhile less_Suc_eq_le del: length_tl)

text \<open>Every occurrence of an entity becomes the character it stands for.\<close>

function replace_entity :: "string \<Rightarrow> char \<Rightarrow> string \<Rightarrow> string" where
  "replace_entity entity r [] = []"
| "replace_entity entity r (c # cs) =
     (if entity \<noteq> [] \<and> starts_with (c # cs) entity
      then r # replace_entity entity r (drop (length entity) (c # cs))
      else c # replace_entity entity r cs)"
  by pat_completeness auto

termination
  by (relation "measure (\<lambda>(_, _, s). length s)") auto

definition kEntities :: "(string \<times> char) list" where
  "kEntities = [(''&amp;'', CHR ''&''), (''&lt;'', CHR ''<''), (''&gt;'', CHR ''>''),
     (''&quot;'', DQUOTE), (''&#39;'', SQUOTE), (''&nbsp;'', CHR '' '')]"

fun collapse_space :: "bool \<Rightarrow> string \<Rightarrow> string" where
  "collapse_space in_space [] = []"
| "collapse_space in_space (c # cs) =
     (if is_space c then (if in_space then [] else '' '') @ collapse_space True cs
      else c # collapse_space False cs)"

definition strip_tags :: "string \<Rightarrow> string" where
  "strip_tags html =
     trim (collapse_space False
       (fold (\<lambda>(entity, r). replace_entity entity r) kEntities (strip_angle (br_to_space html))))"

section \<open>Tables and blocks\<close>

text \<open>\<^verbatim>\<open>while (... = scanner.next())\<close>: the elements in order.\<close>

function elements :: "string \<Rightarrow> string list \<Rightarrow> scanner \<Rightarrow> (string \<times> string) list" where
  "elements text names s =
     (case next_element text names s of
        (None, _) \<Rightarrow> []
      | (Some e, s') \<Rightarrow> e # elements text names s')"
  by pat_completeness auto

termination
  by (relation "measure (\<lambda>(text, _, s). length text - sc_pos s)")
    (auto dest!: next_element_progress [OF sym])

declare elements.simps [simp del]

definition cells_of :: "string \<Rightarrow> string list \<times> bool" where
  "cells_of row_html =
     (let found = elements row_html [''th'', ''td''] (new_scanner [''th'', ''td''])
      in (map (\<lambda>(name, content). strip_tags content) found,
          found \<noteq> [] \<and> list_all (\<lambda>(name, content). name = ''th'') found))"

definition parse_table_rows :: "string \<Rightarrow> string list list \<times> nat" where
  "parse_table_rows table_html =
     (let in_rows = filter (\<lambda>(cells, flag). cells \<noteq> [])
            (map (\<lambda>(name, content). cells_of content) (elements table_html [''tr''] (new_scanner [''tr''])));
          rows = (if in_rows \<noteq> [] then in_rows
                  else filter (\<lambda>(cells, flag). cells \<noteq> []) [cells_of table_html])
      in (map fst rows, length (takeWhile snd rows)))"

record html_state =
  hs_doc :: document
  hs_items :: nat
  hs_warnings :: "warning list"

definition block_names :: "string list" where
  "block_names = [''h1'', ''h2'', ''h3'', ''h4'', ''h5'', ''h6'', ''p'', ''li'', ''pre'', ''code'', ''table'']"

definition map_html_table :: "page_context \<Rightarrow> string \<Rightarrow> string \<Rightarrow> html_state \<Rightarrow> html_state" where
  "map_html_table page content body s =
     (let doc = add_table page (page_prov page) (hs_doc s);
          (parsed, header_rows) = parse_table_rows content;
          rows = (if parsed = [] \<and> body \<noteq> [] then [[body]] else parsed);
          (data, report) = fill_table_data rows header_rows empty_table_data
      in s\<lparr>hs_doc := set_last_table_data data doc, hs_items := hs_items s + 1,
           hs_warnings := hs_warnings s @ note_table_cut report data ''table''
             (body_child_ref TABLE (length (doc_tables doc) - 1))\<rparr>)"

definition map_html_block :: "page_context \<Rightarrow> string \<times> string \<Rightarrow> html_state \<Rightarrow> html_state" where
  "map_html_block page block s =
     (let (tag, content) = block; body = strip_tags content;
          add = (\<lambda>op. s\<lparr>hs_doc := op (hs_doc s), hs_items := hs_items s + 1\<rparr>)
      in if body = [] \<and> tag \<noteq> ''table'' then s
         else if tag ! 0 = CHR ''h'' then
           add (add_section_header page (int (code (tag ! 1)) - int (code CHR ''0'')) (page_prov page) body)
         else if tag = ''li'' then add (add_list_item page (page_prov page) body False [])
         else if tag = ''pre'' \<or> tag = ''code'' then add (add_code page (page_prov page) body [])
         else if tag = ''table'' then map_html_table page content body s
         else add (add_text page DOC_ITEM_LABEL_PARAGRAPH (page_prov page) body))"

definition map_html :: "string \<Rightarrow> page_context \<Rightarrow> string + (document \<times> warning list)" where
  "map_html text page =
     (let s = fold (map_html_block page) (elements text block_names (new_scanner block_names))
                \<lparr>hs_doc = empty_document, hs_items = 0, hs_warnings = []\<rparr>
      in if hs_items s = 0 then Inl ''HTML response held no block-level elements''
         else Inr (finalize_document page (hs_doc s), hs_warnings s))"

section \<open>The mapper keeps its promises\<close>

definition hs_ok :: "page_context \<Rightarrow> html_state \<Rightarrow> bool" where
  "hs_ok page s \<longleftrightarrow> in_progress page (hs_doc s) (hs_items s)"

lemma html_table_ok [keeps]:
  assumes "hs_ok page s"
  shows "hs_ok page (map_html_table page content body s)"
proof -
  obtain parsed h where p: "parse_table_rows content = (parsed, h)" by fastforce
  define rows where "rows = (if parsed = [] \<and> body \<noteq> [] then [[body]] else parsed)"
  obtain data report where f: "fill_table_data rows h empty_table_data = (data, report)" by fastforce
  show ?thesis
    using in_progress_table [OF _ f] assms
    by (simp add: map_html_table_def Let_def p f hs_ok_def flip: rows_def)
qed

lemma html_block_ok [keeps]: "hs_ok page s \<Longrightarrow> hs_ok page (map_html_block page block s)"
  using html_table_ok [of page s] in_progress_add [of page "hs_doc s" "hs_items s"]
  by (simp add: map_html_block_def Let_def hs_ok_def split_def)

lemma map_html_ok:
  assumes "map_html text page = Inr (doc, ws)"
  shows "fragment_ok page doc"
proof -
  define s where "s = fold (map_html_block page) (elements text block_names (new_scanner block_names))
      \<lparr>hs_doc = empty_document, hs_items = 0, hs_warnings = []\<rparr>"
  have "hs_ok page (fold (map_html_block page) bs s)" if "hs_ok page s" for bs s
    using that by (induction bs arbitrary: s) (simp_all add: html_block_ok)
  then have "hs_ok page s" by (simp add: s_def hs_ok_def)
  moreover have "0 < hs_items s" "doc = finalize_document page (hs_doc s)"
    using assms by (auto simp: map_html_def Let_def s_def split: if_splits)
  ultimately show ?thesis by (auto simp: hs_ok_def intro: in_progress_finish)
qed

section \<open>Properties\<close>

lemma next_plain_progress: "next_plain text names p = (Some e, p') \<Longrightarrow> p < p' \<and> p < length text"
proof (induction "text" names p rule: next_plain.induct)
  case (1 html names p)
  from 1(3) obtain opened where o: "\<not> length html \<le> p" "find_char CHR ''<'' html p = Some opened"
    by (subst (asm) next_plain.simps) (auto split: if_splits option.splits)
  have pos: "p \<le> opened" using find_char_Some [OF o(2)] by simp
  consider (none) "first_index (opens_at html opened) names = None"
    | (unclosed) i gt where "first_index (opens_at html opened) names = Some i"
        "find_char CHR ''>'' html (opened + 1 + length (names ! i)) = Some gt"
        "find_ci (closing_tag (names ! i)) html (gt + 1) = None"
    | (found) i gt cl where "first_index (opens_at html opened) names = Some i"
        "find_char CHR ''>'' html (opened + 1 + length (names ! i)) = Some gt"
        "find_ci (closing_tag (names ! i)) html (gt + 1) = Some cl"
    using 1(3) o by (subst (asm) next_plain.simps) (auto split: option.splits)
  then show ?case
  proof cases
    case none
    with 1(3) o have "next_plain html names (opened + 1) = (Some e, p')" by (subst (asm) next_plain.simps) simp
    from 1(1) [OF o none this] pos o(1) show ?thesis by simp
  next
    case unclosed
    with 1(3) o have "next_plain html names (opened + 1) = (Some e, p')" by (subst (asm) next_plain.simps) simp
    from 1(2) [OF o unclosed this] pos o(1) show ?thesis by simp
  next
    case found
    with 1(3) o have "p' = cl + length (closing_tag (names ! i))" by (subst (asm) next_plain.simps) auto
    moreover have "opened + 1 \<le> gt" using find_char_Some [OF found(2)] by simp
    moreover have "gt + 1 \<le> cl" using found(3) unfolding find_ci_def by (blast dest: find_pos_Some)
    ultimately show ?thesis using pos o(1) by simp
  qed
qed

text \<open>The elements a scanner without memory finds.\<close>

function plain_elements :: "string \<Rightarrow> string list \<Rightarrow> nat \<Rightarrow> (string \<times> string) list" where
  "plain_elements text names p =
     (case next_plain text names p of
        (None, _) \<Rightarrow> []
      | (Some e, p') \<Rightarrow> e # plain_elements text names p')"
  by pat_completeness auto

termination
  by (relation "measure (\<lambda>(text, _, p). length text - p)") (auto dest!: next_plain_progress [OF sym])

declare plain_elements.simps [simp del]

lemma elements_from:
  assumes "list_all (\<lambda>n. CHR ''<'' \<notin> set n) names" and "scan_inv text names s"
  shows "elements text names s = plain_elements text names (sc_pos s)"
  using assms(2)
proof (induction "length text - sc_pos s" arbitrary: s rule: less_induct)
  case less
  obtain r s' where r: "next_element text names s = (r, s')" by fastforce
  note p = next_element_plain [OF less.prems assms(1), unfolded r, simplified]
  show ?case
  proof (cases r)
    case None
    with r p show ?thesis
      by (subst elements.simps, subst plain_elements.simps) (simp add: prod_eq_iff split: prod.splits)
  next
    case (Some e)
    have "length text - sc_pos s' < length text - sc_pos s"
      using next_element_progress [OF r [unfolded Some]] by linarith
    from less.hyps [OF this conjunct2 [OF conjunct2 [OF p]]] r Some p show ?thesis
      by (subst elements.simps, subst plain_elements.simps) (auto split: prod.splits option.splits)
  qed
qed

text \<open>
  C22: what the element scanner remembers of its earlier searches never changes what it
  finds.  For names without a \<open><\<close>, which all the names the mapper looks for are, it returns the
  same elements as a scanner that starts every search afresh.
\<close>

theorem scanner_memory_sound:
  assumes "list_all (\<lambda>n. CHR ''<'' \<notin> set n) names"
  shows "elements text names (new_scanner names) = plain_elements text names 0"
  using elements_from [OF assms scan_inv_new] by (simp add: new_scanner_def)

theorem scanner_memory_sound_witness:
  "elements ''<p>a<p>b</p>'' block_names (new_scanner block_names)
     = plain_elements ''<p>a<p>b</p>'' block_names 0"
  by (rule scanner_memory_sound) (simp add: block_names_def)

end
