(* ===== verification/Mapper.thy ===== *)
theory Mapper
  imports Otsl Markdown Html
begin

text \<open>
  \<^verbatim>\<open>src/mapping/mapper.cpp\<close>: plain text, and the dispatch of a page's response to the mapper
  of its format.  The mappers of the layout-grounded formats are an argument.
\<close>

definition map_plaintext :: "string \<Rightarrow> page_context \<Rightarrow> string + (document \<times> warning list)" where
  "map_plaintext text page =
     (let body = trim text
      in if body = [] then Inl ''empty plaintext response''
         else Inr (finalize_document page
                (add_text page DOC_ITEM_LABEL_TEXT (page_prov page) body empty_document), []))"

definition map_response ::
  "(table_cell \<Rightarrow> nat) \<Rightarrow> document mapper \<Rightarrow> document mapper" where
  "map_response byte_size grounded format text page =
     (case format of
        RESPONSE_FORMAT_MARKDOWN \<Rightarrow> map_markdown text page
      | RESPONSE_FORMAT_HTML \<Rightarrow> map_html text page
      | RESPONSE_FORMAT_OTSL \<Rightarrow> map_otsl byte_size text page
      | RESPONSE_FORMAT_PLAINTEXT \<Rightarrow> map_plaintext text page
      | RESPONSE_FORMAT_MINERU2 \<Rightarrow> Inl ''MinerU2 responses are not supported''
      | RESPONSE_FORMAT_UNSPECIFIED \<Rightarrow> Inl ''unresolved response format''
      | RESPONSE_FORMAT_OTHER _ \<Rightarrow> Inl ''unresolved response format''
      | _ \<Rightarrow> grounded format text page)"

section \<open>What a mapper promises\<close>

text \<open>
  The contract of \<^verbatim>\<open>mapper.h\<close>: a fragment of the page, or an error that says something.  The
  page's event is then one a consumer can rely on.
\<close>

locale page_mapper =
  fixes mapping :: "string \<Rightarrow> page_context \<Rightarrow> string + (document \<times> warning list)"
  assumes fragment: "mapping t page = Inr (doc, ws) \<Longrightarrow> fragment_ok page doc"
    and reported: "mapping t page = Inl error \<Longrightarrow> error \<noteq> []"
begin

lemma outcome:
  "(\<exists>doc ws. mapping t page = Inr (doc, ws) \<and> fragment_ok page doc)
     \<or> (\<exists>error. mapping t page = Inl error \<and> error \<noteq> [])"
  by (cases "mapping t page") (auto dest: fragment reported)

end

lemma map_plaintext_ok: "map_plaintext text page = Inr (doc, ws) \<Longrightarrow> fragment_ok page doc"
  using in_progress_finish [OF in_progress_add(1) [OF in_progress_empty]]
  by (auto simp: map_plaintext_def Let_def split: if_splits)

interpretation plaintext: page_mapper map_plaintext
  by unfold_locales (use map_plaintext_ok in \<open>auto simp: map_plaintext_def Let_def split: if_splits\<close>)

interpretation markdown: page_mapper map_markdown
  by unfold_locales (use map_markdown_ok in \<open>auto simp: map_markdown_def Let_def split: if_splits\<close>)

interpretation html: page_mapper map_html
  by unfold_locales (use map_html_ok in \<open>auto simp: map_html_def Let_def split: if_splits\<close>)

interpretation otsl: page_mapper "map_otsl byte_size" for byte_size
  by unfold_locales (use map_otsl_ok in \<open>auto simp: map_otsl_def split: option.splits\<close>)

section \<open>Properties\<close>

definition plain_format :: "response_format \<Rightarrow> bool" where
  "plain_format f \<longleftrightarrow> f \<in> {RESPONSE_FORMAT_MARKDOWN, RESPONSE_FORMAT_HTML, RESPONSE_FORMAT_OTSL,
     RESPONSE_FORMAT_PLAINTEXT}"

text \<open>
  The document of a page in one of the plain formats is complete and well formed: every
  item is attributed to the page and the call that produced it, the children of the body
  name every item exactly once, in order, and each name resolves to the item that carries
  it, tables are within the caps and rectangular, and the page itself is recorded with its
  dimensions.
\<close>

theorem page_fragment_well_formed:
  assumes "convert_page (map_response byte_size grounded) version cfg plan img res = Some (EvDocument n doc ws)"
    and "plain_format (sp_format plan)"
  shows "fragment_ok (make_page version cfg plan img res) doc \<and> n = im_page_no img"
  using assms markdown.fragment html.fragment otsl.fragment plaintext.fragment
  by (auto simp: convert_page_def map_response_def plain_format_def split: if_splits sum.splits)

definition plain_result :: vlm_result where
  "plain_result = empty_result\<lparr>vr_ok := True, vr_text := ''page''\<rparr>"

theorem page_fragment_well_formed_witness:
  "\<exists>doc. convert_page (map_response (\<lambda>_. 0) (\<lambda>_ _ _. Inl ''none'')) ''1'' key_config
       (key_plan\<lparr>sp_format := RESPONSE_FORMAT_PLAINTEXT\<rparr>) sample_image plain_result = Some (EvDocument 7 doc [])
     \<and> fragment_ok (make_page ''1'' key_config (key_plan\<lparr>sp_format := RESPONSE_FORMAT_PLAINTEXT\<rparr>)
          sample_image plain_result) doc"
proof -
  let ?plan = "key_plan\<lparr>sp_format := RESPONSE_FORMAT_PLAINTEXT\<rparr>"
  obtain doc where c: "convert_page (map_response (\<lambda>_. 0) (\<lambda>_ _ _. Inl ''none'')) ''1'' key_config
      ?plan sample_image plain_result = Some (EvDocument 7 doc [])"
    by (simp add: convert_page_def map_response_def map_plaintext_def plain_result_def empty_result_def
        sample_image_def trim_def strip_by_def rstrip_by_def is_trim_char_def Let_def)
  from page_fragment_well_formed [OF c] c show ?thesis by (simp add: plain_format_def)
qed

end
