(* ===== verification/Markup_Tree.thy ===== *)
theory Markup_Tree
  imports Convert_Page
begin

text \<open>
  \<^verbatim>\<open>src/mapping/markup_tree.cpp\<close>: the tolerant element tree for HTML and XML model output.

  Positions into the text become the text from there on.  The builder's stack of open
  elements is a list of frames, innermost first, each with the children it has so far; an
  element becomes a child of the next frame when it leaves the stack, which is where the
  code put it when it was opened, since nothing is added to an element while one of its
  children is open.
\<close>

section \<open>Characters and entities\<close>

definition kMaxMarkupDepth :: nat where "kMaxMarkupDepth = 128"

definition kMaxTagBytes :: nat where "kMaxTagBytes = 64 * 1024"

definition is_name_char :: "char \<Rightarrow> bool" where
  "is_name_char c \<longleftrightarrow> is_alnum c \<or> c \<in> {CHR ''-'', CHR ''_'', CHR '':'', CHR ''.''} \<or> 0x80 \<le> code c"

definition kVoidTags :: "string list" where
  "kVoidTags = [''area'', ''base'', ''br'', ''col'', ''embed'', ''hr'', ''img'', ''input'', ''link'',
     ''meta'', ''param'', ''source'', ''track'', ''wbr'']"

definition kHtmlBlockTags :: "string list" where
  "kHtmlBlockTags = [''div'', ''p'', ''h1'', ''h2'', ''h3'', ''h4'', ''h5'', ''h6'', ''table'', ''ul'', ''ol'',
     ''li'', ''pre'', ''figure'', ''form'', ''caption'', ''figcaption'', ''hr'']"

datatype markup_mode = KHtml | KXml

definition fold_name :: "markup_mode \<Rightarrow> string \<Rightarrow> string" where
  "fold_name mode name = (case mode of KHtml \<Rightarrow> map to_lower name | KXml \<Rightarrow> name)"

text \<open>
  The bytes of a code point.  The bits a byte is put together from do not overlap, so the
  bitwise or of the code is a sum.
\<close>

definition utf8 :: "nat \<Rightarrow> string" where
  "utf8 codepoint =
     (let cp = (if codepoint = 0 \<or> 0x10FFFF < codepoint \<or> (0xD800 \<le> codepoint \<and> codepoint \<le> 0xDFFF)
                then 0xFFFD else codepoint)
      in map char_of
        (if cp < 0x80 then [cp]
         else if cp < 0x800 then [0xC0 + cp div 64, 0x80 + cp mod 64]
         else if cp < 0x10000 then [0xE0 + cp div 4096, 0x80 + cp div 64 mod 64, 0x80 + cp mod 64]
         else [0xF0 + cp div 262144, 0x80 + cp div 4096 mod 64, 0x80 + cp div 64 mod 64, 0x80 + cp mod 64]))"

definition append_utf8 :: "string \<Rightarrow> nat \<Rightarrow> string" where
  "append_utf8 out cp = out @ utf8 cp"

definition entity_digit :: "bool \<Rightarrow> char \<Rightarrow> nat option" where
  "entity_digit hex c =
     (if is_digit c then Some (code c - code CHR ''0'')
      else if hex \<and> is_xdigit c then Some (code (to_lower c) - code CHR ''a'' + 10) else None)"

fun entity_number :: "bool \<Rightarrow> nat \<Rightarrow> string \<Rightarrow> nat option" where
  "entity_number hex value [] = Some value"
| "entity_number hex value (c # cs) =
     (case entity_digit hex c of
        None \<Rightarrow> None
      | Some d \<Rightarrow> if 0x10FFFF < value then None
                  else entity_number hex (value * (if hex then 16 else 10) + d) cs)"

text \<open>What a named or numeric entity stands for.\<close>

definition entity_text :: "string \<Rightarrow> string option" where
  "entity_text name =
     (if name = ''amp'' then Some ''&''
      else if name = ''lt'' then Some ''<''
      else if name = ''gt'' then Some ''>''
      else if name = ''quot'' then Some [DQUOTE]
      else if name = ''apos'' then Some [SQUOTE]
      else if name = ''nbsp'' then Some (append_utf8 [] 0xA0)
      else if 2 \<le> length name \<and> name ! 0 = CHR ''#'' then
        (let hex = (name ! 1 = CHR ''x'' \<or> name ! 1 = CHR ''X''); digits = drop (if hex then 2 else 1) name
         in if digits = [] then None else map_option (append_utf8 []) (entity_number hex 0 digits))
      else None)"

function decode_entities :: "string \<Rightarrow> string" where
  "decode_entities [] = []"
| "decode_entities (c # cs) =
     (if c \<noteq> CHR ''&'' then c # decode_entities cs
      else case find_sub '';'' cs of
        None \<Rightarrow> c # decode_entities cs
      | Some (name, rest) \<Rightarrow>
          (if 10 < length name + 1 then c # decode_entities cs
           else case entity_text name of
             None \<Rightarrow> c # decode_entities cs
           | Some t \<Rightarrow> t @ decode_entities rest))"
  by pat_completeness auto

termination
  by (relation "measure length") (auto dest: find_sub_length)

section \<open>Tags\<close>

record tag =
  tg_name :: string
  tg_closing :: bool
  tg_self_closing :: bool
  tg_attrs :: "(string \<times> string) list"

fun attr_name :: "string \<Rightarrow> string \<times> string" where
  "attr_name [] = ([], [])"
| "attr_name (c # cs) =
     (if is_space c \<or> c = CHR ''='' \<or> c = CHR ''>'' \<or> starts_with (c # cs) ''/>'' then ([], c # cs)
      else apfst ((#) c) (attr_name cs))"

text \<open>The value after an attribute's name, if any; nothing when a quote is not closed.\<close>

definition attr_value :: "string \<Rightarrow> (string \<times> string) option" where
  "attr_value s =
     (let s1 = dropWhile is_space s
      in if s1 = [] \<or> hd s1 \<noteq> CHR ''='' then Some ([], s1)
         else
           (let s2 = dropWhile is_space (tl s1)
            in if s2 \<noteq> [] \<and> (hd s2 = DQUOTE \<or> hd s2 = SQUOTE)
               then (case find_sub [hd s2] (tl s2) of
                       None \<Rightarrow> None
                     | Some (value, rest) \<Rightarrow> Some (decode_entities value, rest))
               else (let stop = (\<lambda>c. \<not> is_space c \<and> c \<noteq> CHR ''>'')
                     in Some (decode_entities (takeWhile stop s2), dropWhile stop s2))))"

lemma attr_name_split: "attr_name s = (name, rest) \<Longrightarrow> s = name @ rest"
  by (induction s arbitrary: name) (auto simp: apfst_def map_prod_def split: if_splits prod.splits)

lemma attr_value_length: "attr_value s = Some (value, rest) \<Longrightarrow> length rest \<le> length s"
proof -
  assume a: "attr_value s = Some (value, rest)"
  let ?s1 = "dropWhile is_space s" let ?s2 = "dropWhile is_space (tl ?s1)"
  have l: "length ?s1 \<le> length s" "length ?s2 \<le> length (tl ?s1)" "length (tl ?s1) \<le> length ?s1"
    by (simp_all add: length_dropWhile_le del: length_tl) (simp add: length_tl)
  have "length rest \<le> length ?s1 \<or> length rest \<le> length ?s2"
    using a find_sub_length [of _ "tl ?s2"] length_dropWhile_le [of _ ?s2]
    by (auto simp: attr_value_def Let_def split: if_splits option.splits dest!: find_sub_length)
  with l show ?thesis by linarith
qed

text \<open>The attributes and the end of a tag: whether it closes itself, its attributes, the rest.\<close>

function read_attrs ::
  "markup_mode \<Rightarrow> bool \<Rightarrow> (string \<times> string) list \<Rightarrow> string \<Rightarrow> (bool \<times> (string \<times> string) list \<times> string) option" where
  "read_attrs mode closing attrs s =
     (let s1 = dropWhile is_space s
      in if s1 = [] then None
         else if hd s1 = CHR ''>'' then Some (False, attrs, tl s1)
         else if starts_with s1 ''/>'' then Some (True, attrs, drop 2 s1)
         else case attr_name s1 of (name, s2) \<Rightarrow>
           if name = [] then read_attrs mode closing attrs (tl s1)
           else case attr_value s2 of
             None \<Rightarrow> None
           | Some (value, s3) \<Rightarrow>
               read_attrs mode closing (if closing then attrs else attrs @ [(fold_name mode name, value)]) s3)"
  by pat_completeness auto


termination
proof (relation "measure (\<lambda>(_, _, _, s). length s)", goal_cases)
  case (2 mode closing attrs s s1 name s2)
  then have "length s1 \<le> length s" "s1 \<noteq> []" by (simp_all add: length_dropWhile_le)
  then show ?case by (cases s1) simp_all
next
  case (3 mode closing attrs s s1 name s2 p v s3)
  then have "length s1 \<le> length s" by (simp add: length_dropWhile_le)
  moreover have "length s2 < length s1" using 3 attr_name_split [of s1 name s2] by (cases name) auto
  moreover have "length s3 \<le> length s2" using 3 attr_value_length [of s2 v s3] by simp
  ultimately show ?case by simp
qed simp

declare read_attrs.simps [simp del]

text \<open>A tag, read from behind its \<open><\<close>; nothing when it is no tag.\<close>

definition read_tag :: "markup_mode \<Rightarrow> string \<Rightarrow> (tag \<times> string) option" where
  "read_tag mode s =
     (let closing = (s \<noteq> [] \<and> hd s = CHR ''/''); s1 = (if closing then tl s else s);
          name = takeWhile is_name_char s1
      in if name = [] \<or> \<not> is_alpha (hd name) then None
         else case read_attrs mode closing [] (dropWhile is_name_char s1) of
           None \<Rightarrow> None
         | Some (self_closing, attrs, rest) \<Rightarrow>
             Some (\<lparr>tg_name = fold_name mode name, tg_closing = closing, tg_self_closing = self_closing,
                    tg_attrs = attrs\<rparr>, rest))"

section \<open>The tree builder\<close>

datatype markup_node =
  MarkupNode (mn_tag: string) (mn_text: string) (mn_attrs: "(string \<times> string) list")
    (mn_children: "markup_node list")

definition is_text :: "markup_node \<Rightarrow> bool" where
  "is_text node \<longleftrightarrow> mn_tag node = []"

definition has_attr :: "string \<Rightarrow> markup_node \<Rightarrow> bool" where
  "has_attr name node \<longleftrightarrow> list_ex (\<lambda>(key, value). key = name) (mn_attrs node)"

definition node_attr :: "string \<Rightarrow> string \<Rightarrow> markup_node \<Rightarrow> string" where
  "node_attr name fallback node =
     (case map_of (mn_attrs node) name of Some value \<Rightarrow> value | None \<Rightarrow> fallback)"

record frame =
  fr_tag :: string
  fr_attrs :: "(string \<times> string) list"
  fr_children :: "markup_node list"

type_synonym stack = "frame list"

definition add_child :: "markup_node \<Rightarrow> frame \<Rightarrow> frame" where
  "add_child node f = f\<lparr>fr_children := fr_children f @ [node]\<rparr>"

definition frame_node :: "frame \<Rightarrow> markup_node" where
  "frame_node f = MarkupNode (fr_tag f) [] (fr_attrs f) (fr_children f)"

definition new_builder :: stack where
  "new_builder = [\<lparr>fr_tag = ''root'', fr_attrs = [], fr_children = []\<rparr>]"

text \<open>The top element is done: it joins the children of the one below.  The root stays.\<close>

fun pop_frame :: "stack \<Rightarrow> stack" where
  "pop_frame (f # g # fs) = add_child (frame_node f) g # fs"
| "pop_frame fs = fs"

definition append_text :: "string \<Rightarrow> frame \<Rightarrow> frame" where
  "append_text t f =
     (if fr_children f \<noteq> [] \<and> is_text (last (fr_children f))
      then (case last (fr_children f) of MarkupNode tag old attrs cs \<Rightarrow>
              f\<lparr>fr_children := butlast (fr_children f) @ [MarkupNode tag (old @ t) attrs cs]\<rparr>)
      else add_child (MarkupNode [] t [] []) f)"

definition builder_text :: "string \<Rightarrow> stack \<Rightarrow> stack" where
  "builder_text raw st =
     (if raw = [] then st
      else case st of [] \<Rightarrow> [] | f # fs \<Rightarrow> append_text (decode_entities raw) f # fs)"

text \<open>The place of the innermost open element, the root apart, that satisfies a test.\<close>

fun open_index :: "(string \<Rightarrow> bool) \<Rightarrow> stack \<Rightarrow> nat option" where
  "open_index P (f # g # fs) = (if P (fr_tag f) then Some 0 else map_option Suc (open_index P (g # fs)))"
| "open_index P fs = None"

definition builder_close :: "string \<Rightarrow> stack \<Rightarrow> stack" where
  "builder_close name st =
     (case open_index (\<lambda>t. t = name) st of None \<Rightarrow> st | Some i \<Rightarrow> (pop_frame ^^ Suc i) st)"

definition close_up_to :: "string list \<Rightarrow> (string \<Rightarrow> bool) \<Rightarrow> stack \<Rightarrow> stack" where
  "close_up_to targets is_boundary st =
     (case open_index (\<lambda>t. t \<in> set targets \<or> is_boundary t) st of
        None \<Rightarrow> st
      | Some i \<Rightarrow> if fr_tag (st ! i) \<in> set targets then (pop_frame ^^ Suc i) st else st)"

definition implicit_close :: "string \<Rightarrow> stack \<Rightarrow> stack" where
  "implicit_close name st =
     (if name = ''td'' \<or> name = ''th'' then close_up_to [''td'', ''th''] (\<lambda>t. t = ''tr'' \<or> t = ''table'') st
      else if name = ''tr'' then close_up_to [''tr''] (\<lambda>t. t = ''table'') st
      else if name = ''li'' then close_up_to [''li''] (\<lambda>t. t = ''ul'' \<or> t = ''ol'') st
      else if name = ''p'' then close_up_to [''p''] (\<lambda>t. t \<noteq> ''p'' \<and> t \<in> set kHtmlBlockTags) st
      else st)"

definition builder_open :: "markup_mode \<Rightarrow> tag \<Rightarrow> stack \<Rightarrow> stack" where
  "builder_open mode tag st0 =
     (let st = (if mode = KHtml then implicit_close (tg_name tag) st0 else st0);
          opened = \<lparr>fr_tag = tg_name tag, fr_attrs = tg_attrs tag, fr_children = []\<rparr>;
          empty = (tg_self_closing tag \<or> (mode = KHtml \<and> tg_name tag \<in> set kVoidTags))
      in if \<not> empty \<and> length st \<le> kMaxMarkupDepth then opened # st
         else case st of [] \<Rightarrow> [] | f # fs \<Rightarrow> add_child (frame_node opened) f # fs)"

section \<open>The parser\<close>

text \<open>Everything up to and including a mark; all of it when the mark is missing.\<close>

definition skip_past :: "string \<Rightarrow> string \<Rightarrow> string" where
  "skip_past mark s = (case find_sub mark s of None \<Rightarrow> [] | Some (_, rest) \<Rightarrow> rest)"

definition escape_amp :: "string \<Rightarrow> string" where
  "escape_amp s = concat (map (\<lambda>c. if c = CHR ''&'' then ''&amp;'' else [c]) s)"

text \<open>The body of a script or style element: up to the first closing tag of that name.\<close>

fun find_closer :: "string \<Rightarrow> string \<Rightarrow> (string \<times> string) option" where
  "find_closer closer [] = None"
| "find_closer closer (c # cs) =
     (if c = CHR ''<'' \<and> map to_lower (take (length closer) (c # cs)) = closer then Some ([], c # cs)
      else map_option (apfst ((#) c)) (find_closer closer cs))"

definition raw_body :: "string \<Rightarrow> stack \<Rightarrow> string \<Rightarrow> stack \<times> string" where
  "raw_body name st rest =
     (case find_closer (''</'' @ name) rest of
        None \<Rightarrow> (st, [])
      | Some (body, at_close) \<Rightarrow> (builder_close name (builder_text body st), skip_past ''>'' at_close))"

text \<open>One tag of the markup: what the builder makes of it, and where reading goes on.\<close>

definition apply_tag :: "markup_mode \<Rightarrow> tag \<Rightarrow> stack \<Rightarrow> string \<Rightarrow> stack \<times> string" where
  "apply_tag mode tag st rest =
     (if tg_closing tag then (builder_close (tg_name tag) st, rest)
      else if mode = KHtml \<and> (tg_name tag = ''script'' \<or> tg_name tag = ''style'')
      then raw_body (tg_name tag) (builder_open mode tag st) rest
      else (builder_open mode tag st, rest))"

definition read_cdata :: "stack \<Rightarrow> string \<Rightarrow> stack \<times> string" where
  "read_cdata st s =
     (case find_sub '']]>'' s of
        None \<Rightarrow> (builder_text (escape_amp s) st, [])
      | Some (data, rest) \<Rightarrow> (builder_text (escape_amp data) st, rest))"

text \<open>
  One round of the loop, at a \<open><\<close> whose text follows it: what was read and where reading goes
  on, or nothing when the \<open><\<close> is character data.  A tag is read within a window.
\<close>

definition markup_step :: "markup_mode \<Rightarrow> string \<Rightarrow> stack \<Rightarrow> string \<Rightarrow> (stack \<times> string) option" where
  "markup_step mode lead st after =
     (if starts_with after ''!--'' then Some (builder_text lead st, skip_past ''-->'' (drop 3 after))
      else if starts_with after ''![CDATA['' then Some (read_cdata (builder_text lead st) (drop 8 after))
      else if after \<noteq> [] \<and> (hd after = CHR ''!'' \<or> hd after = CHR ''?'')
      then Some (builder_text lead st, skip_past ''>'' (tl after))
      else
        (let window = take (kMaxTagBytes - 1) after
         in case read_tag mode window of
              None \<Rightarrow> None
            | Some (tag, unread) \<Rightarrow>
                Some (apply_tag mode tag (builder_text lead st) (drop (length window - length unread) after))))"

lemma skip_past_length: "length (skip_past mark s) \<le> length s"
  by (auto simp: skip_past_def split: option.splits dest!: find_sub_split)

lemma find_closer_length: "find_closer closer s = Some (body, at_close) \<Longrightarrow> length at_close \<le> length s"
  by (induction s arbitrary: body) (auto split: if_splits)

lemma apply_tag_length: "apply_tag mode tag st rest = (st', rest') \<Longrightarrow> length rest' \<le> length rest"
  by (auto simp: apply_tag_def raw_body_def split: if_splits option.splits
      dest!: find_closer_length intro: le_trans [OF skip_past_length])

lemma read_cdata_length: "read_cdata st s = (st', rest) \<Longrightarrow> length rest \<le> length s"
  by (auto simp: read_cdata_def split: option.splits dest!: find_sub_split)

lemma markup_step_length: "markup_step mode lead st after = Some (st', rest) \<Longrightarrow> length rest \<le> length after"
  by (auto simp: markup_step_def Let_def split: if_splits option.splits
      dest!: apply_tag_length read_cdata_length
      intro: le_trans [OF skip_past_length] le_trans [of _ "length (drop n after)" for n])

text \<open>The loop: the text not yet handed over, the builder, and what is left to read.\<close>

function markup_loop :: "markup_mode \<Rightarrow> string \<Rightarrow> stack \<Rightarrow> string \<Rightarrow> stack" where
  "markup_loop mode pending st s =
     (case find_sub ''<'' s of
        None \<Rightarrow> builder_text (pending @ s) st
      | Some (before, after) \<Rightarrow>
          (case markup_step mode (pending @ before) st after of
             None \<Rightarrow> markup_loop mode (pending @ before @ ''<'') st after
           | Some (st', rest) \<Rightarrow> markup_loop mode [] st' rest))"
  by pat_completeness auto

termination
  by (relation "measure (\<lambda>(_, _, _, s). length s)")
    (auto dest!: find_sub_split markup_step_length)

declare markup_loop.simps [simp del]

text \<open>The end of the text closes what is open.\<close>

definition take_root :: "stack \<Rightarrow> markup_node" where
  "take_root st = frame_node (hd ((pop_frame ^^ (length st - 1)) st))"

definition parse_markup :: "markup_mode \<Rightarrow> string \<Rightarrow> markup_node" where
  "parse_markup mode text = take_root (markup_loop mode [] new_builder text)"

section \<open>Nesting\<close>

fun node_depth :: "markup_node \<Rightarrow> nat" where
  "node_depth (MarkupNode tag t attrs cs) = Suc (fold max (map node_depth cs) 0)"

text \<open>
  At most the root and \<^verbatim>\<open>kMaxMarkupDepth\<close> elements are open, and what an open element holds is
  as deep as its place leaves room for.
\<close>

fun levels_ok :: "stack \<Rightarrow> bool" where
  "levels_ok [] = True"
| "levels_ok (f # fs) =
     (list_all (\<lambda>c. node_depth c + length (f # fs) \<le> kMaxMarkupDepth + 2) (fr_children f) \<and> levels_ok fs)"

definition stack_ok :: "stack \<Rightarrow> bool" where
  "stack_ok st \<longleftrightarrow> st \<noteq> [] \<and> length st \<le> kMaxMarkupDepth + 1 \<and> levels_ok st"

locale tree_op =
  fixes op :: "stack \<Rightarrow> stack"
  assumes op_ok: "stack_ok st \<Longrightarrow> stack_ok (op st)"
begin

lemma repeated: "stack_ok st \<Longrightarrow> stack_ok ((op ^^ n) st)"
  by (induction n) (simp_all add: op_ok)

end

lemma fold_max_bound: "list_all (\<lambda>c. node_depth c \<le> n) cs \<Longrightarrow> m \<le> n \<Longrightarrow> fold max (map node_depth cs) m \<le> n"
  by (induction cs arbitrary: m) auto

lemma frame_node_depth:
  "list_all (\<lambda>c. node_depth c + k \<le> n) (fr_children f) \<Longrightarrow> k < n \<Longrightarrow> node_depth (frame_node f) + k \<le> n + 1"
proof -
  assume a: "list_all (\<lambda>c. node_depth c + k \<le> n) (fr_children f)" "k < n"
  then have "list_all (\<lambda>c. node_depth c \<le> n - k) (fr_children f)" by (auto simp: list_all_iff)
  from fold_max_bound [OF this, of 0] a(2) show ?thesis by (simp add: frame_node_def)
qed

interpretation pop: tree_op pop_frame
proof
  fix st assume a: "stack_ok st"
  show "stack_ok (pop_frame st)"
  proof (cases st rule: pop_frame.cases)
    case (1 f g fs)
    then have "node_depth (frame_node f) + length (f # g # fs) \<le> kMaxMarkupDepth + 3"
      using a frame_node_depth [of "length (f # g # fs)" "kMaxMarkupDepth + 2" f]
      by (simp add: stack_ok_def)
    with 1 a show ?thesis by (simp add: stack_ok_def add_child_def)
  qed (use a in auto)
qed

lemma add_leaf_ok:
  assumes "stack_ok (f # fs)" and "node_depth node = 1"
  shows "stack_ok (add_child node f # fs)"
  using assms by (simp add: stack_ok_def add_child_def)

interpretation write_text: tree_op "builder_text raw" for raw
proof
  fix st assume a: "stack_ok st"
  then obtain f fs where st: "st = f # fs" by (cases st) (auto simp: stack_ok_def)
  have "stack_ok (append_text t f # fs)" for t
  proof (cases "fr_children f \<noteq> [] \<and> is_text (last (fr_children f))")
    case True
    obtain cs tag old attrs ccs where c: "fr_children f = cs @ [MarkupNode tag old attrs ccs]"
      using True by (metis append_butlast_last_id markup_node.exhaust)
    with a st show ?thesis by (simp add: append_text_def is_text_def stack_ok_def add_child_def)
  next
    case False
    have "stack_ok (add_child (MarkupNode [] t [] []) f # fs)"
      by (rule add_leaf_ok) (use a st in simp_all)
    with False show ?thesis by (auto simp: append_text_def)
  qed
  with a st show "stack_ok (builder_text raw st)" by (simp add: builder_text_def)
qed

interpretation write_close: tree_op "builder_close name" for name
  by unfold_locales (auto simp: builder_close_def split: option.splits intro: pop.op_ok pop.repeated)

interpretation up_to: tree_op "close_up_to targets is_boundary" for targets is_boundary
  by unfold_locales (auto simp: close_up_to_def split: option.splits intro: pop.op_ok pop.repeated)

interpretation implicit: tree_op "implicit_close name" for name
  by unfold_locales (auto simp: implicit_close_def intro: up_to.op_ok)

interpretation write_open: tree_op "builder_open mode tag" for mode tag
proof
  fix st0 assume a: "stack_ok st0"
  define st where "st = (if mode = KHtml then implicit_close (tg_name tag) st0 else st0)"
  have st: "stack_ok st" using a implicit.op_ok by (simp add: st_def)
  define opened where "opened = \<lparr>fr_tag = tg_name tag, fr_attrs = tg_attrs tag, fr_children = []\<rparr>"
  obtain f fs where f: "st = f # fs" using st by (cases st) (auto simp: stack_ok_def)
  have "stack_ok (add_child (frame_node opened) f # fs)"
    by (rule add_leaf_ok) (use st f in \<open>simp_all add: frame_node_def opened_def\<close>)
  moreover have "length st \<le> kMaxMarkupDepth \<Longrightarrow> stack_ok (opened # st)"
    using st by (simp add: stack_ok_def opened_def)
  ultimately show "stack_ok (builder_open mode tag st0)"
    by (simp add: builder_open_def Let_def f flip: st_def opened_def)
qed

lemma apply_tag_ok: "stack_ok st \<Longrightarrow> stack_ok (fst (apply_tag mode tag st rest))"
  by (auto simp: apply_tag_def raw_body_def split: option.splits
      intro: write_open.op_ok write_close.op_ok write_text.op_ok)

lemma read_cdata_ok: "stack_ok st \<Longrightarrow> stack_ok (fst (read_cdata st s))"
  by (auto simp: read_cdata_def split: option.splits intro: write_text.op_ok)

lemma markup_step_ok: "markup_step mode lead st after = Some (st', rest) \<Longrightarrow> stack_ok st \<Longrightarrow> stack_ok st'"
  using apply_tag_ok [OF write_text.op_ok] read_cdata_ok [OF write_text.op_ok] write_text.op_ok
  by (auto simp: markup_step_def Let_def split: if_splits option.splits) (metis fst_conv)+

lemma markup_loop_ok: "stack_ok st \<Longrightarrow> stack_ok (markup_loop mode pending st s)"
proof (induction mode pending st s rule: markup_loop.induct)
  case (1 mode pending st s)
  show ?case
    by (subst markup_loop.simps)
      (use 1 markup_step_ok in \<open>auto split: option.splits intro: write_text.op_ok\<close>)
qed

lemma new_builder_ok: "stack_ok new_builder"
  by (simp add: stack_ok_def new_builder_def)

lemma length_pop_frame: "length (pop_frame st) = (if 2 \<le> length st then length st - 1 else length st)"
  by (cases st rule: pop_frame.cases) simp_all

lemma length_pops: "n < length st \<Longrightarrow> length ((pop_frame ^^ n) st) = length st - n"
  by (induction n) (simp_all add: length_pop_frame)

text \<open>The root at the end, as a stack of one.\<close>

lemma take_root_frame:
  assumes "stack_ok st"
  obtains f where "(pop_frame ^^ (length st - 1)) st = [f]" and "stack_ok [f]" and "take_root st = frame_node f"
proof -
  have "length ((pop_frame ^^ (length st - 1)) st) = 1"
    using assms length_pops [of "length st - 1" st] by (cases st) (auto simp: stack_ok_def)
  then obtain f where f: "(pop_frame ^^ (length st - 1)) st = [f]" by (auto simp: length_Suc_conv)
  with that [OF f] pop.repeated [OF assms] show thesis by (metis take_root_def list.sel(1))
qed

section \<open>Writing a tree\<close>

definition escape_char :: "char \<Rightarrow> string" where
  "escape_char c =
     (if c = CHR ''&'' then ''&amp;'' else if c = CHR ''<'' then ''&lt;'' else if c = CHR ''>'' then ''&gt;''
      else if c = DQUOTE then ''&quot;'' else [c])"

definition escape_markup :: "string \<Rightarrow> string" where
  "escape_markup s = concat (map escape_char s)"

definition print_attr :: "string \<times> string \<Rightarrow> string" where
  "print_attr a = '' '' @ fst a @ ''='' @ [DQUOTE] @ escape_markup (snd a) @ [DQUOTE]"

definition print_open :: "string \<Rightarrow> (string \<times> string) list \<Rightarrow> string" where
  "print_open tag attrs = tag @ concat (map print_attr attrs) @ ''>''"

fun print_node :: "markup_node \<Rightarrow> string" where
  "print_node (MarkupNode tag t attrs cs) =
     (if tag = [] then escape_markup t
      else ''<'' @ print_open tag attrs @ concat (map print_node cs) @ ''</'' @ tag @ ''>'')"

definition name_ok :: "string \<Rightarrow> bool" where
  "name_ok s \<longleftrightarrow> s \<noteq> [] \<and> is_alpha (hd s) \<and> list_all is_name_char s"

definition attr_ok :: "string \<times> string \<Rightarrow> bool" where
  "attr_ok a \<longleftrightarrow> fst a \<noteq> [] \<and> list_all (\<lambda>c. \<not> is_space c \<and> c \<notin> {CHR ''='', CHR ''>'', CHR ''/''}) (fst a)"

fun texts_apart :: "markup_node list \<Rightarrow> bool" where
  "texts_apart (a # b # cs) = (\<not> (is_text a \<and> is_text b) \<and> texts_apart (b # cs))"
| "texts_apart cs = True"

text \<open>
  A tree that can be written as XML: names are names, text stands in nodes of its own that
  are not empty and not side by side, and no tag is longer than the parser's window.
\<close>

fun writable :: "markup_node \<Rightarrow> bool" where
  "writable (MarkupNode tag t attrs cs) =
     (if tag = [] then t \<noteq> [] \<and> attrs = [] \<and> cs = []
      else name_ok tag \<and> t = [] \<and> list_all attr_ok attrs \<and> texts_apart cs
        \<and> length (print_open tag attrs) < kMaxTagBytes \<and> length tag + 2 < kMaxTagBytes
        \<and> list_all writable cs)"

lemma decode_escape: "decode_entities (escape_markup s @ r) = s @ decode_entities r"
proof (induction s)
  case (Cons c s)
  have f: "find_sub '';'' (n @ CHR '';'' # x) = Some (n, x)" if "CHR '';'' \<notin> set n" for n x
    using that by (simp add: find_sub_single cuts)
  show ?case
    using Cons f [of "''amp''"] f [of "''lt''"] f [of "''gt''"] f [of "''quot''"]
    by (simp add: escape_markup_def escape_char_def entity_text_def)
qed (simp add: escape_markup_def)

lemma escape_plain: "c \<in> set (escape_markup s) \<Longrightarrow> c \<noteq> CHR ''<'' \<and> c \<noteq> DQUOTE"
  by (auto simp: escape_markup_def escape_char_def split: if_splits)

lemma escape_char_nonempty: "escape_char c \<noteq> []"
  by (simp add: escape_char_def)

lemma escape_Nil: "escape_markup s = [] \<longleftrightarrow> s = []"
  by (cases s) (simp_all add: escape_markup_def escape_char_nonempty)

lemma attr_name_eq:
  "list_all (\<lambda>c. \<not> is_space c \<and> c \<notin> {CHR ''='', CHR ''>'', CHR ''/''}) n \<Longrightarrow>
     attr_name (n @ CHR ''='' # r) = (n, CHR ''='' # r)"
  by (induction n) auto

lemma not_space [simp]: "\<not> is_space CHR ''=''" "\<not> is_space DQUOTE" "\<not> is_space CHR ''>''" "is_space CHR '' ''"
  by (simp_all add: is_space_def code_def)

lemma attr_value_eq: "attr_value (CHR ''='' # DQUOTE # escape_markup v @ DQUOTE # r) = Some (v, r)"
proof -
  have "DQUOTE \<notin> set (escape_markup v)" using escape_plain by blast
  then have "find_sub [DQUOTE] (escape_markup v @ DQUOTE # r) = Some (escape_markup v, r)"
    by (simp add: find_sub_single cuts)
  then show ?thesis using decode_escape [of v "[]"] by (simp add: attr_value_def Let_def)
qed

lemma read_attrs_print:
  "list_all attr_ok attrs \<Longrightarrow>
     read_attrs KXml False acc (concat (map print_attr attrs) @ CHR ''>'' # r) = Some (False, acc @ attrs, r)"
proof (induction attrs arbitrary: acc)
  case Nil
  then show ?case by (simp add: read_attrs.simps [of KXml])
next
  case (Cons a attrs)
  obtain n v where a: "a = (n, v)" by fastforce
  obtain c n' where n: "n = c # n'" using Cons.prems a by (cases n) (auto simp: attr_ok_def)
  define rest where "rest = concat (map print_attr attrs) @ CHR ''>'' # r"
  have c: "\<not> is_space c" "c \<noteq> CHR ''>''" "c \<noteq> CHR ''/''" using Cons.prems a n by (auto simp: attr_ok_def)
  have an: "attr_name (n @ CHR ''='' # x) = (n, CHR ''='' # x)" for x
    using Cons.prems a by (intro attr_name_eq) (simp add: attr_ok_def)
  have s: "concat (map print_attr (a # attrs)) @ CHR ''>'' # r =
      CHR '' '' # n @ CHR ''='' # DQUOTE # escape_markup v @ DQUOTE # rest"
    by (simp add: a print_attr_def rest_def)
  show ?case
    unfolding s
    using Cons.IH [of "acc @ [(n, v)]"] Cons.prems c an
    by (subst read_attrs.simps)
      (simp add: Let_def attr_value_eq n fold_name_def a flip: rest_def)
qed

text \<open>A written tag: whatever follows it, the parser reads exactly it.\<close>

definition tag_text :: "string \<Rightarrow> tag \<Rightarrow> bool" where
  "tag_text u tag \<longleftrightarrow> u \<noteq> [] \<and> hd u \<noteq> CHR ''!'' \<and> hd u \<noteq> CHR ''?'' \<and> length u < kMaxTagBytes
     \<and> (\<forall>r. read_tag KXml (u @ r) = Some (tag, r))"

lemma name_char_facts: "\<not> is_name_char CHR '' ''" "\<not> is_name_char CHR ''>''" "\<not> is_alpha CHR ''/''"
  "\<not> is_alpha CHR ''!''" "\<not> is_alpha CHR ''?''"
  by (simp_all add: is_name_char_def ctype_defs)

lemma name_span:
  assumes "name_ok tag" and "\<not> is_name_char (hd x)" and "x \<noteq> []"
  shows "takeWhile is_name_char (tag @ x) = tag" and "dropWhile is_name_char (tag @ x) = x"
proof -
  obtain c y where x: "x = c # y" using assms(3) by (cases x) auto
  show "takeWhile is_name_char (tag @ x) = tag" "dropWhile is_name_char (tag @ x) = x"
    using assms(1,2) x by (auto simp: name_ok_def list_all_iff takeWhile_append2 dropWhile_append2)
qed

lemma tag_text_open:
  assumes "name_ok tag" and "list_all attr_ok attrs" and "length (print_open tag attrs) < kMaxTagBytes"
  shows "tag_text (print_open tag attrs) \<lparr>tg_name = tag, tg_closing = False, tg_self_closing = False, tg_attrs = attrs\<rparr>"
proof -
  obtain c n where t: "tag = c # n" "is_alpha c" using assms(1) by (cases tag) (auto simp: name_ok_def)
  have c: "c \<noteq> CHR ''/''" "c \<noteq> CHR ''!''" "c \<noteq> CHR ''?''" using t(2) name_char_facts by auto
  have "read_tag KXml (print_open tag attrs @ r) =
      Some (\<lparr>tg_name = tag, tg_closing = False, tg_self_closing = False, tg_attrs = attrs\<rparr>, r)" for r
  proof -
    define x where "x = concat (map print_attr attrs) @ CHR ''>'' # r"
    have x: "\<not> is_name_char (hd x)" "x \<noteq> []"
      by (cases attrs; simp add: x_def print_attr_def name_char_facts)+
    have p: "print_open tag attrs @ r = tag @ x" by (simp add: print_open_def x_def)
    show ?thesis
      unfolding p using name_span [OF assms(1) x] read_attrs_print [OF assms(2), of "[]" r] t c
      by (simp add: read_tag_def Let_def fold_name_def flip: x_def)
  qed
  with t c assms(3) show ?thesis by (simp add: tag_text_def print_open_def)
qed

lemma tag_text_close:
  assumes "name_ok tag" and "length tag + 2 < kMaxTagBytes"
  shows "tag_text (''/'' @ tag @ ''>'') \<lparr>tg_name = tag, tg_closing = True, tg_self_closing = False, tg_attrs = []\<rparr>"
proof -
  have "read_attrs KXml True [] (CHR ''>'' # r) = Some (False, [], r)" for r
    by (simp add: read_attrs.simps [of KXml])
  then show ?thesis
    using assms name_span [OF assms(1), of "CHR ''>'' # r" for r] name_char_facts
    by (simp add: tag_text_def read_tag_def Let_def fold_name_def name_ok_def)
qed

lemma step_tag:
  assumes "tag_text u tag"
  shows "markup_step KXml lead st (u @ r) = Some (apply_tag KXml tag (builder_text lead st) r)"
proof -
  obtain c v where u: "u = c # v" "c \<noteq> CHR ''!''" "c \<noteq> CHR ''?''" using assms by (cases u) (auto simp: tag_text_def)
  define w where "w = take (kMaxTagBytes - 1 - length u) r"
  have "length u \<le> kMaxTagBytes - 1" using assms unfolding tag_text_def by linarith
  then have win: "take (kMaxTagBytes - 1) (u @ r) = u @ w" by (simp add: w_def)
  have "read_tag KXml (u @ w) = Some (tag, w)" using assms by (simp add: tag_text_def)
  moreover have "drop (length (u @ w) - length w) (u @ r) = r" by simp
  moreover have "\<not> starts_with (u @ r) ''!--''" "\<not> starts_with (u @ r) ''![CDATA[''" using u by simp_all
  moreover have "hd (u @ r) \<noteq> CHR ''!''" "hd (u @ r) \<noteq> CHR ''?''" using u by simp_all
  ultimately show ?thesis unfolding markup_step_def Let_def win by simp
qed

lemma loop_tag:
  assumes "tag_text u tag" and "CHR ''<'' \<notin> set t" and "apply_tag KXml tag (builder_text t st) r = (st', rest)"
  shows "markup_loop KXml [] st (t @ CHR ''<'' # u @ r) = markup_loop KXml [] st' rest"
proof -
  have "find_sub ''<'' (t @ CHR ''<'' # u @ r) = Some (t, u @ r)" using assms(2) by (simp add: find_sub_single cuts)
  then show ?thesis using step_tag [OF assms(1)] assms(3) by (subst markup_loop.simps) simp
qed

lemma loop_text:
  assumes "tag_text u tag" and "CHR ''<'' \<notin> set t"
  shows "markup_loop KXml [] st (t @ CHR ''<'' # u @ r) = markup_loop KXml [] (builder_text t st) (CHR ''<'' # u @ r)"
proof -
  obtain st' rest where a: "apply_tag KXml tag (builder_text t st) r = (st', rest)" by fastforce
  then have "apply_tag KXml tag (builder_text [] (builder_text t st)) r = (st', rest)"
    by (simp add: builder_text_def)
  from loop_tag [OF assms a] loop_tag [OF assms(1) _ this] show ?thesis by simp
qed

lemma text_child:
  assumes "t \<noteq> []" and "fr_children f = [] \<or> \<not> is_text (last (fr_children f))"
  shows "builder_text (escape_markup t) (f # fs) = add_child (MarkupNode [] t [] []) f # fs"
  using assms decode_escape [of t "[]"] by (auto simp: builder_text_def escape_Nil append_text_def)

definition with_children :: "frame \<Rightarrow> markup_node list \<Rightarrow> frame" where
  "with_children f cs = f\<lparr>fr_children := fr_children f @ cs\<rparr>"

definition joins :: "frame \<Rightarrow> markup_node list \<Rightarrow> bool" where
  "joins f cs \<longleftrightarrow> cs = [] \<or> fr_children f = [] \<or> \<not> (is_text (last (fr_children f)) \<and> is_text (hd cs))"

lemma tag_ahead:
  assumes "list_all writable cs" and "cs = [] \<or> \<not> is_text (hd cs)" and "tag_text u tag"
  obtains u' tag' r' where "concat (map print_node cs) @ CHR ''<'' # u @ r = CHR ''<'' # u' @ r'" and "tag_text u' tag'"
proof (cases cs)
  case Nil
  with that [of u r tag] assms(3) show thesis by simp
next
  case (Cons c cs')
  obtain tg t attrs ccs where c: "c = MarkupNode tg t attrs ccs" by (cases c)
  have w: "tg \<noteq> []" "name_ok tg" "list_all attr_ok attrs" "length (print_open tg attrs) < kMaxTagBytes"
    using assms(1,2) Cons c by (auto simp: is_text_def)
  show thesis by (rule that [OF _ tag_text_open [OF w(2-4)]]) (simp add: Cons c w(1))
qed

text \<open>The children of an element, up to a tag that follows them.\<close>

lemma loop_children:
  assumes "\<And>c g r. c \<in> set cs \<Longrightarrow> \<not> is_text c \<Longrightarrow>
      markup_loop KXml [] (g # fs) (print_node c @ r) = markup_loop KXml [] (add_child c g # fs) r"
    and "list_all writable cs" and "texts_apart cs" and "joins f cs" and "tag_text u tag"
  shows "markup_loop KXml [] (f # fs) (concat (map print_node cs) @ CHR ''<'' # u @ r)
    = markup_loop KXml [] (with_children f cs # fs) (CHR ''<'' # u @ r)"
  using assms
proof (induction cs arbitrary: f)
  case Nil
  then show ?case by (simp add: with_children_def)
next
  case (Cons c cs)
  obtain tg t attrs ccs where c: "c = MarkupNode tg t attrs ccs" by (cases c)
  have j: "joins (add_child c f) cs" and apart: "texts_apart cs"
    using Cons.prems(3) by (cases cs; simp add: joins_def add_child_def)+
  have ih: "markup_loop KXml [] (add_child c f # fs) (concat (map print_node cs) @ CHR ''<'' # u @ r)
      = markup_loop KXml [] (with_children f (c # cs) # fs) (CHR ''<'' # u @ r)"
    using Cons.IH [OF _ _ apart j Cons.prems(5)] Cons.prems(1,2)
    by (simp add: with_children_def add_child_def)
  show ?case
  proof (cases "is_text c")
    case False
    with Cons.prems(1) [of c f] ih show ?thesis by simp
  next
    case True
    then have t: "t \<noteq> []" "c = MarkupNode [] t [] []" using c Cons.prems(2) by (auto simp: is_text_def)
    have "cs = [] \<or> \<not> is_text (hd cs)" using True Cons.prems(3) by (cases cs) auto
    then obtain u' tag' r' where u': "concat (map print_node cs) @ CHR ''<'' # u @ r = CHR ''<'' # u' @ r'" "tag_text u' tag'"
      using tag_ahead [OF _ _ Cons.prems(5), of cs r] Cons.prems(2) by (metis list_all_iff list.set_intros(2))
    have "fr_children f = [] \<or> \<not> is_text (last (fr_children f))" using Cons.prems(4) True by (auto simp: joins_def)
    note b = text_child [OF t(1) this]
    have "CHR ''<'' \<notin> set (escape_markup t)" using escape_plain by blast
    from loop_text [OF u'(2) this, of "f # fs" r'] ih show ?thesis by (simp add: t(2) b u'(1))
  qed
qed

lemma fold_max_ge: "m \<le> fold max xs m \<and> (\<forall>x \<in> set xs. x \<le> fold max xs (m :: nat))"
proof (induction xs arbitrary: m)
  case (Cons x xs)
  from Cons [of "max x m"] show ?case by auto
qed simp

lemma node_depth_child: "c \<in> set cs \<Longrightarrow> node_depth c < node_depth (MarkupNode tg t attrs cs)"
  using fold_max_ge [of 0 "map node_depth cs"] by (auto simp: less_Suc_eq_le)

text \<open>A written element becomes the next child of the element that is open.\<close>

lemma loop_element:
  assumes "writable c" and "\<not> is_text c" and "node_depth c + length fs \<le> kMaxMarkupDepth"
  shows "markup_loop KXml [] (f # fs) (print_node c @ r) = markup_loop KXml [] (add_child c f # fs) r"
  using assms
proof (induction c arbitrary: f fs r)
  case (MarkupNode tg t attrs cs)
  define opened where "opened = \<lparr>fr_tag = tg, fr_attrs = attrs, fr_children = []\<rparr>"
  define rest where "rest = concat (map print_node cs) @ CHR ''<'' # (''/'' @ tg @ ''>'') @ r"
  have w: "tg \<noteq> []" "t = []" "name_ok tg" "list_all attr_ok attrs" "length (print_open tg attrs) < kMaxTagBytes"
    "length tg + 2 < kMaxTagBytes" "list_all writable cs" "texts_apart cs"
    using MarkupNode.prems by (auto simp: is_text_def)
  note o = tag_text_open [OF w(3-5)] and cl = tag_text_close [OF w(3,6)]
  have kids: "markup_loop KXml [] (g # f # fs) (print_node c @ r') = markup_loop KXml [] (add_child c g # f # fs) r'"
    if "c \<in> set cs" "\<not> is_text c" for c g r'
  proof (rule MarkupNode.IH [OF that(1) _ that(2)])
    show "writable c" using w(7) that(1) by (simp add: list_all_iff)
    show "node_depth c + length (f # fs) \<le> kMaxMarkupDepth"
      using node_depth_child [OF that(1), of tg t attrs] MarkupNode.prems(3) by simp
  qed
  have "length (f # fs) \<le> kMaxMarkupDepth" using MarkupNode.prems(3) by simp
  then have "markup_loop KXml [] (f # fs) (print_node (MarkupNode tg t attrs cs) @ r)
      = markup_loop KXml [] (opened # f # fs) rest"
    using loop_tag [OF o, of "[]" "f # fs" rest "opened # f # fs" rest] w(1)
    by (simp add: apply_tag_def builder_open_def builder_text_def Let_def opened_def rest_def)
  also have "\<dots> = markup_loop KXml [] (with_children opened cs # f # fs) (CHR ''<'' # (''/'' @ tg @ ''>'') @ r)"
    unfolding rest_def by (rule loop_children [OF kids w(7,8) _ cl]) (simp_all add: joins_def opened_def)
  also have "\<dots> = markup_loop KXml [] (add_child (MarkupNode tg t attrs cs) f # fs) r"
    using loop_tag [OF cl, of "[]" "with_children opened cs # f # fs" r]
    by (simp add: apply_tag_def builder_close_def builder_text_def with_children_def opened_def frame_node_def w(2))
  finally show ?case .
qed

lemma loop_list:
  assumes "list_all writable cs" and "texts_apart cs" and "joins f cs" and "cs = [] \<or> \<not> is_text (last cs)"
    and "list_all (\<lambda>c. node_depth c + length fs \<le> kMaxMarkupDepth) cs"
  shows "markup_loop KXml [] (f # fs) (concat (map print_node cs) @ r) = markup_loop KXml [] (with_children f cs # fs) r"
proof (cases cs rule: rev_cases)
  case Nil
  then show ?thesis by (simp add: with_children_def)
next
  case (snoc ds e)
  have e: "writable e" "\<not> is_text e" "list_all writable ds" using assms(1,4) snoc by simp_all
  have apart: "texts_apart ds" using assms(2) unfolding snoc by (induction ds rule: texts_apart.induct) auto
  have j: "joins f ds" using assms(3) snoc by (cases ds) (auto simp: joins_def)
  obtain u tag r' where u: "print_node e @ r = CHR ''<'' # u @ r'" "tag_text u tag"
  proof -
    obtain tg t attrs ccs where c: "e = MarkupNode tg t attrs ccs" by (cases e)
    have w: "tg \<noteq> []" "name_ok tg" "list_all attr_ok attrs" "length (print_open tg attrs) < kMaxTagBytes"
      using e(1,2) c by (auto simp: is_text_def)
    show thesis by (rule that [OF _ tag_text_open [OF w(2-4)]]) (simp add: c w(1))
  qed
  have kids: "markup_loop KXml [] (g # fs) (print_node c @ r') = markup_loop KXml [] (add_child c g # fs) r'"
    if "c \<in> set cs" "\<not> is_text c" for c g r'
    using that assms(1,5) by (intro loop_element) (auto simp: list_all_iff)
  have "markup_loop KXml [] (f # fs) (concat (map print_node cs) @ r)
      = markup_loop KXml [] (f # fs) (concat (map print_node ds) @ CHR ''<'' # u @ r')"
    by (simp add: snoc u(1))
  also have "\<dots> = markup_loop KXml [] (with_children f ds # fs) (print_node e @ r)"
    unfolding u(1) by (rule loop_children [OF kids e(3) apart j u(2)]) (simp_all add: snoc)
  also have "\<dots> = markup_loop KXml [] (with_children f cs # fs) r"
    using kids [of e "with_children f ds" r] e(2) snoc by (simp add: with_children_def add_child_def)
  finally show ?thesis .
qed

section \<open>Properties\<close>

text \<open>
  The tree of any text, in either mode, is at most the root, \<^verbatim>\<open>kMaxMarkupDepth\<close> nested
  elements and what lies in the innermost of them deep, so that code that walks it by
  recursion runs in bounded stack.
\<close>

theorem markup_depth_bounded: "node_depth (parse_markup mode text) \<le> kMaxMarkupDepth + 2"
proof -
  have "stack_ok (markup_loop mode [] new_builder text)" by (rule markup_loop_ok [OF new_builder_ok])
  then obtain f where f: "stack_ok [f]" "parse_markup mode text = frame_node f"
    unfolding parse_markup_def by (rule take_root_frame)
  have "node_depth (frame_node f) + 1 \<le> kMaxMarkupDepth + 2 + 1"
    using f(1) by (intro frame_node_depth) (simp_all add: stack_ok_def)
  with f(2) show ?thesis by simp
qed

text \<open>
  C23: what is written as XML is read back as it was: elements with their attributes and
  children, and text with any characters, as long as nothing is nested more deeply and no
  tag is longer than the parser takes.
\<close>

theorem markup_round_trip:
  assumes "list_all writable cs" and "texts_apart cs" and "list_all (\<lambda>c. node_depth c \<le> kMaxMarkupDepth) cs"
  shows "parse_markup KXml (concat (map print_node cs)) = MarkupNode ''root'' [] [] cs"
proof -
  define f where "f = \<lparr>fr_tag = ''root'', fr_attrs = [], fr_children = []\<rparr>"
  have "markup_loop KXml [] [f] (concat (map print_node cs)) = [with_children f cs]"
  proof (cases "cs = [] \<or> \<not> is_text (last cs)")
    case True
    have "markup_loop KXml [] [f] (concat (map print_node cs) @ []) = markup_loop KXml [] [with_children f cs] []"
      using assms True by (intro loop_list) (simp_all add: joins_def f_def)
    then show ?thesis by (simp add: markup_loop.simps [of KXml _ _ "[]"] builder_text_def)
  next
    case False
    then obtain ds e where cs: "cs = ds @ [e]" "is_text e" by (cases cs rule: rev_cases) auto
    then obtain t where t: "e = MarkupNode [] t [] []" "t \<noteq> []"
      using assms(1) by (cases e) (auto simp: is_text_def)
    have apart: "texts_apart ds \<and> (ds = [] \<or> \<not> is_text (last ds))"
      using assms(2) cs by (induction ds arbitrary: cs rule: texts_apart.induct) auto
    have "markup_loop KXml [] [f] (concat (map print_node cs))
        = markup_loop KXml [] [with_children f ds] (escape_markup t)"
      using loop_list [of ds f "[]" "escape_markup t"] assms apart cs by (simp add: t joins_def f_def)
    also have "\<dots> = builder_text (escape_markup t) [with_children f ds]"
      using escape_plain [of "CHR ''<''" t] by (subst markup_loop.simps) (auto simp: find_sub_single)
    also have "\<dots> = [with_children f cs]"
      using apart by (subst text_child [OF t(2)]) (auto simp: with_children_def add_child_def f_def cs t)
    finally show ?thesis .
  qed
  then show ?thesis
    by (simp add: parse_markup_def new_builder_def take_root_def frame_node_def with_children_def flip: f_def)
      (simp add: f_def)
qed

definition sample_tree :: "markup_node list" where
  "sample_tree = [MarkupNode ''p'' [] [(''k'', ''a<b'')] [MarkupNode [] ''x&y'' [] [], MarkupNode ''br'' [] [] []]]"

theorem markup_round_trip_witness:
  "concat (map print_node sample_tree) = ''<p k='' @ [DQUOTE] @ ''a&lt;b'' @ [DQUOTE] @ ''>x&amp;y<br></br></p>''
     \<and> parse_markup KXml (concat (map print_node sample_tree)) = MarkupNode ''root'' [] [] sample_tree"
proof
  show "concat (map print_node sample_tree) = ''<p k='' @ [DQUOTE] @ ''a&lt;b'' @ [DQUOTE] @ ''>x&amp;y<br></br></p>''"
    by (simp add: sample_tree_def print_open_def print_attr_def escape_markup_def escape_char_def)
  have "list_all writable sample_tree"
    by (simp add: sample_tree_def name_ok_def attr_ok_def is_name_char_def ctype_defs is_text_def print_open_def
        print_attr_def escape_markup_def escape_char_def kMaxTagBytes_def)
  moreover have "texts_apart sample_tree" "list_all (\<lambda>c. node_depth c \<le> kMaxMarkupDepth) sample_tree"
    by (simp_all add: sample_tree_def kMaxMarkupDepth_def)
  ultimately show "parse_markup KXml (concat (map print_node sample_tree)) = MarkupNode ''root'' [] [] sample_tree"
    by (rule markup_round_trip)
qed

end
