(* ===== verification/Span_Table.thy ===== *)
theory Span_Table
  imports Otsl Markup_Tree
begin

text \<open>
  \<^verbatim>\<open>src/mapping/layout.cpp\<close>, the first part: the text of HTML elements, the cells of an HTML
  table with their spans, and the table laid out from such cells.
\<close>

section \<open>Text of elements\<close>

definition is_block_tag :: "string \<Rightarrow> bool" where
  "is_block_tag tag \<longleftrightarrow> tag \<in> set kHtmlBlockTags"

definition input_text :: "markup_node \<Rightarrow> string" where
  "input_text node =
     (let type = map to_lower (node_attr ''type'' [] node)
      in if type = ''checkbox'' \<or> type = ''radio''
         then utf8 (if has_attr ''checked'' node then 0x2611 else 0x2610)
         else node_attr ''value'' [] node)"

fun html_text :: "markup_node \<Rightarrow> string" where
  "html_text (MarkupNode tag t attrs cs) =
     (if tag = [] then t
      else if tag = ''br'' then [LF]
      else if tag = ''input'' then input_text (MarkupNode tag t attrs cs)
      else concat (map (\<lambda>c. html_text c @ (if \<not> is_text c \<and> is_block_tag (mn_tag c) then [LF] else [])) cs))"

text \<open>\<open>some\<close>: something was written; \<open>pending\<close>: a space is due before the next character.\<close>

fun collapse_from :: "bool \<Rightarrow> bool \<Rightarrow> string \<Rightarrow> string" where
  "collapse_from some pending [] = []"
| "collapse_from some pending (c # cs) =
     (if is_space c then collapse_from some some cs
      else (if pending then '' '' else []) @ c # collapse_from True False cs)"

definition collapse_whitespace :: "string \<Rightarrow> string" where
  "collapse_whitespace = collapse_from False False"

fun find_element :: "string \<Rightarrow> markup_node \<Rightarrow> markup_node option"
  and find_in :: "string \<Rightarrow> markup_node list \<Rightarrow> markup_node option" where
  "find_element name (MarkupNode tag t attrs cs) = find_in name cs"
| "find_in name [] = None"
| "find_in name (c # cs) =
     (if is_text c then find_in name cs
      else if mn_tag c = name then Some c
      else case find_element name c of Some found \<Rightarrow> Some found | None \<Rightarrow> find_in name cs)"

section \<open>The cells of an HTML table\<close>

record span_cell =
  sp_row :: nat
  sp_col :: nat
  sp_row_span :: nat
  sp_col_span :: nat
  sp_text :: string
  sp_column_header :: bool
  sp_row_header :: bool
  sp_node :: "markup_node option"

definition span_number :: "string \<Rightarrow> nat" where
  "span_number digits = fold (\<lambda>c n. min (n * 10 + digit_value c) (2 ^ 30)) digits 0"

definition parse_span :: "string \<Rightarrow> nat \<Rightarrow> nat" where
  "parse_span s maximum =
     (let s1 = dropWhile is_space s; digits = takeWhile is_digit s1; rest = dropWhile is_digit s1
      in if digits = [] \<or> dropWhile is_space rest \<noteq> [] then 1
         else min maximum (max 1 (span_number digits)))"

record table_row =
  tr_node :: markup_node
  tr_in_header :: bool
  tr_group_end :: nat

definition row_nodes :: "markup_node \<Rightarrow> markup_node list" where
  "row_nodes node = filter (\<lambda>c. \<not> is_text c \<and> mn_tag c = ''tr'') (mn_children node)"

text \<open>The rows in order; those of a row group know where it ends.\<close>

definition add_rows :: "markup_node \<Rightarrow> table_row list \<Rightarrow> table_row list" where
  "add_rows child rows =
     (if is_text child then rows
      else if mn_tag child = ''tr'' then rows @ [\<lparr>tr_node = child, tr_in_header = False, tr_group_end = 0\<rparr>]
      else if mn_tag child \<in> {''thead'', ''tbody'', ''tfoot''}
      then rows @ map (\<lambda>row. \<lparr>tr_node = row, tr_in_header = (mn_tag child = ''thead''),
                             tr_group_end = length rows + length (row_nodes child)\<rparr>) (row_nodes child)
      else rows)"

definition table_rows :: "markup_node \<Rightarrow> table_row list" where
  "table_rows table = fold add_rows (mn_children table) []"

text \<open>
  \<^verbatim>\<open>occupied\<close>: for every column the first row that is free there, zero where the map of the
  code has no entry.
\<close>

type_synonym occupied = "nat list"

definition free_row :: "occupied \<Rightarrow> nat \<Rightarrow> nat" where
  "free_row u c = (if c < length u then u ! c else 0)"

function next_free :: "occupied \<Rightarrow> nat \<Rightarrow> nat \<Rightarrow> nat" where
  "next_free u r c = (if free_row u c \<le> r then c else next_free u r (c + 1))"
  by pat_completeness auto

termination
  by (relation "measure (\<lambda>(u, _, c). length u - c)") (auto simp: free_row_def split: if_splits)

declare next_free.simps [simp del]

definition occupy :: "nat \<Rightarrow> nat \<Rightarrow> nat \<Rightarrow> occupied \<Rightarrow> occupied" where
  "occupy col width until u =
     map (\<lambda>c. if col \<le> c \<and> c < col + width then max (free_row u c) until else free_row u c)
       [0..<max (length u) (col + width)]"

definition make_cell :: "table_row \<Rightarrow> nat \<Rightarrow> nat \<Rightarrow> nat \<Rightarrow> nat \<Rightarrow> markup_node \<Rightarrow> span_cell" where
  "make_cell row row_index col rows_spanned cols_spanned node =
     (let th = (mn_tag node = ''th'')
      in \<lparr>sp_row = row_index, sp_col = col, sp_row_span = rows_spanned, sp_col_span = cols_spanned,
          sp_text = collapse_whitespace (html_text node),
          sp_column_header = (node_attr ''scope'' [] node = ''col'' \<or> (th \<and> (tr_in_header row \<or> row_index = 0))),
          sp_row_header = (node_attr ''scope'' [] node = ''row''
            \<or> (th \<and> col = 0 \<and> 0 < row_index \<and> \<not> tr_in_header row)),
          sp_node = Some node\<rparr>)"

fun place_cells :: "nat \<Rightarrow> table_row \<Rightarrow> nat \<Rightarrow> markup_node list \<Rightarrow> nat \<Rightarrow> occupied \<Rightarrow> span_cell list \<times> occupied" where
  "place_cells rows row row_index [] col u = ([], u)"
| "place_cells rows row row_index (node # nodes) col u =
     (if is_text node \<or> (mn_tag node \<noteq> ''td'' \<and> mn_tag node \<noteq> ''th'')
      then place_cells rows row row_index nodes col u
      else
        (let cols_spanned = parse_span (node_attr ''colspan'' ''1'' node) kMaxTableCells;
             remaining = (if tr_group_end row \<noteq> 0 then tr_group_end row else rows) - row_index;
             rows_spanned = (if node_attr ''rowspan'' [] node = ''0'' then remaining
                             else parse_span (node_attr ''rowspan'' ''1'' node) remaining);
             place = next_free u row_index col
         in if kMaxTableCols * 4 < place + cols_spanned then ([], u)
            else apfst ((#) (make_cell row row_index place rows_spanned cols_spanned node))
              (place_cells rows row row_index nodes (place + cols_spanned)
                (occupy place cols_spanned (row_index + rows_spanned) u))))"

fun place_rows :: "nat \<Rightarrow> nat \<Rightarrow> table_row list \<Rightarrow> occupied \<Rightarrow> span_cell list" where
  "place_rows rows row_index [] u = []"
| "place_rows rows row_index (row # later) u =
     (case place_cells rows row row_index (mn_children (tr_node row)) 0 u of
        (cells, u') \<Rightarrow> cells @ place_rows rows (row_index + 1) later u')"

definition chandra_table_cells :: "markup_node \<Rightarrow> span_cell list" where
  "chandra_table_cells table = place_rows (length (table_rows table)) 0 (table_rows table) []"

section \<open>A table from cells\<close>

definition clip_cell :: "nat \<Rightarrow> nat \<Rightarrow> span_cell \<Rightarrow> table_cell" where
  "clip_cell kept_rows kept_cols source =
     (let end_row = min (sp_row source + sp_row_span source) kept_rows;
          end_col = min (sp_col source + sp_col_span source) kept_cols
      in \<lparr>tc_text = sp_text source, tc_row_span = int (end_row - sp_row source),
          tc_col_span = int (end_col - sp_col source), tc_start_row = int (sp_row source),
          tc_end_row = int end_row, tc_start_col = int (sp_col source), tc_end_col = int end_col,
          tc_column_header = sp_column_header source, tc_row_header = sp_row_header source,
          tc_row_section = False, tc_ref = None\<rparr>)"

fun span_grid_over :: "(table_cell \<Rightarrow> nat) \<Rightarrow> nat \<Rightarrow> table_cell list \<Rightarrow> bool" where
  "span_grid_over byte_size grid_bytes [] = False"
| "span_grid_over byte_size grid_bytes (cell # cells) =
     (let bytes = grid_bytes + nat (tc_row_span cell) * nat (tc_col_span cell) * byte_size cell
      in if kMaxGridBytes < bytes then True else span_grid_over byte_size bytes cells)"

definition stamp_span :: "table_cell \<Rightarrow> table_cell list list \<Rightarrow> table_cell list list" where
  "stamp_span cell grid =
     fold (\<lambda>r g. g[r := fold (\<lambda>c row. row[c := cell]) [nat (tc_start_col cell)..<nat (tc_end_col cell)] (g ! r)])
       [nat (tc_start_row cell)..<nat (tc_end_row cell)] grid"

definition fill_span_table :: "(table_cell \<Rightarrow> nat) \<Rightarrow> span_cell list \<Rightarrow> table_data \<times> table_cut" where
  "fill_span_table byte_size cells =
     (let source_rows = fold (\<lambda>c m. max m (sp_row c + sp_row_span c)) cells 0;
          source_cols = fold (\<lambda>c m. max m (sp_col c + sp_col_span c)) cells 0;
          (kept_rows, kept_cols) = kept_table_shape source_rows source_cols;
          kept = map (clip_cell kept_rows kept_cols)
            (filter (\<lambda>c. sp_row c < kept_rows \<and> sp_col c < kept_cols) cells);
          omitted = span_grid_over byte_size 0 kept
      in (\<lparr>td_cells = kept, td_num_rows = int kept_rows, td_num_cols = int kept_cols,
           td_grid = (if omitted then [] else fold stamp_span kept (empty_grid kept_rows kept_cols))\<rparr>,
          \<lparr>cut_source_rows = source_rows, cut_source_cols = source_cols,
           cut_truncated = (kept_rows < source_rows \<or> kept_cols < source_cols),
           cut_grid_omitted = omitted\<rparr>))"

section \<open>Placement\<close>

lemma next_free_facts: "free_row u (next_free u r c) \<le> r \<and> c \<le> next_free u r c"
proof (induction u r c rule: next_free.induct)
  case (1 u r c)
  then show ?case by (subst (1 2) next_free.simps) (auto dest: Suc_leD)
qed

lemma free_row_occupy:
  "free_row (occupy col width until u) c = (if col \<le> c \<and> c < col + width then max (free_row u c) until else free_row u c)"
  by (auto simp: occupy_def free_row_def)

lemma parse_span_bounds: "1 \<le> maximum \<Longrightarrow> 1 \<le> parse_span s maximum \<and> parse_span s maximum \<le> maximum"
  by (auto simp: parse_span_def Let_def)

text \<open>One cell covers the anchor of another.\<close>

definition hides :: "span_cell \<Rightarrow> span_cell \<Rightarrow> bool" where
  "hides a b \<longleftrightarrow> sp_row a \<le> sp_row b \<and> sp_row b < sp_row a + sp_row_span a
     \<and> sp_col a \<le> sp_col b \<and> sp_col b < sp_col a + sp_col_span a"

definition recorded :: "span_cell set \<Rightarrow> occupied \<Rightarrow> bool" where
  "recorded P u \<longleftrightarrow> (\<forall>a \<in> P. \<forall>c. sp_col a \<le> c \<and> c < sp_col a + sp_col_span a \<longrightarrow> sp_row a + sp_row_span a \<le> free_row u c)"

text \<open>What the cells of one row add to the cells placed before.\<close>

definition row_placed :: "nat \<Rightarrow> nat \<Rightarrow> nat \<Rightarrow> span_cell list \<Rightarrow> bool" where
  "row_placed rows row_index col cells \<longleftrightarrow>
     (\<forall>b \<in> set cells. sp_row b = row_index \<and> col \<le> sp_col b \<and> 1 \<le> sp_row_span b \<and> 1 \<le> sp_col_span b
        \<and> sp_row b + sp_row_span b \<le> rows)
     \<and> sorted_wrt (\<lambda>a b. sp_col a < sp_col b) cells"

definition row_fits :: "nat \<Rightarrow> nat \<Rightarrow> table_row \<Rightarrow> bool" where
  "row_fits rows i row \<longleftrightarrow> i < rows \<and> (tr_group_end row \<noteq> 0 \<longrightarrow> i < tr_group_end row \<and> tr_group_end row \<le> rows)"

lemma place_cells_facts:
  assumes "place_cells rows row i nodes col u = (cells, u')" and "recorded P u" and "row_fits rows i row"
  shows "row_placed rows i col cells \<and> recorded (P \<union> set cells) u'
    \<and> (\<forall>b \<in> set cells. \<forall>a \<in> P. \<not> hides a b) \<and> sorted_wrt (\<lambda>a b. \<not> hides a b) cells"
  using assms(1,2)
proof (induction nodes arbitrary: col u cells P)
  case Nil
  then show ?case by (simp add: row_placed_def)
next
  case (Cons node nodes)
  define w where "w = parse_span (node_attr ''colspan'' ''1'' node) kMaxTableCells"
  define left where "left = (if tr_group_end row \<noteq> 0 then tr_group_end row else rows) - i"
  define h where "h = (if node_attr ''rowspan'' [] node = ''0'' then left else parse_span (node_attr ''rowspan'' ''1'' node) left)"
  define c0 where "c0 = next_free u i col"
  define b where "b = make_cell row i c0 h w node"
  have left: "1 \<le> left" "i + left \<le> rows" using assms(3) by (auto simp: left_def row_fits_def)
  have h: "1 \<le> h" "i + h \<le> rows" using left parse_span_bounds [OF left(1), of "node_attr ''rowspan'' ''1'' node"] by (auto simp: h_def)
  have w: "1 \<le> w" using parse_span_bounds [of kMaxTableCells] by (simp add: w_def kMaxTableCells_def)
  have c0: "free_row u c0 \<le> i" "col \<le> c0" using next_free_facts by (simp_all add: c0_def)
  have bf: "sp_row b = i" "sp_col b = c0" "sp_row_span b = h" "sp_col_span b = w"
    by (simp_all add: b_def make_cell_def Let_def)
  show ?case
  proof (cases "is_text node \<or> (mn_tag node \<noteq> ''td'' \<and> mn_tag node \<noteq> ''th'')")
    case True
    then have "place_cells rows row i nodes col u = (cells, u')" using Cons.prems(1) by auto
    from Cons.IH [OF this Cons.prems(2)] show ?thesis .
  next
    case False
    have step: "place_cells rows row i (node # nodes) col u = (if kMaxTableCols * 4 < c0 + w then ([], u)
        else apfst ((#) b) (place_cells rows row i nodes (c0 + w) (occupy c0 w (i + h) u)))"
      by (simp only: place_cells.simps(2) if_not_P [OF False] Let_def b_def c0_def h_def left_def w_def)
    show ?thesis
    proof (cases "kMaxTableCols * 4 < c0 + w")
      case True
      then have "cells = []" "u' = u" using Cons.prems(1) unfolding step by simp_all
      with Cons.prems(2) show ?thesis by (simp add: row_placed_def)
    next
      case fits: False
      obtain later where m: "place_cells rows row i nodes (c0 + w) (occupy c0 w (i + h) u) = (later, u')" "cells = b # later"
        using Cons.prems(1) fits unfolding step
        by (cases "place_cells rows row i nodes (c0 + w) (occupy c0 w (i + h) u)") auto
      have rec: "recorded (insert b P) (occupy c0 w (i + h) u)"
        using Cons.prems(2) by (auto simp: recorded_def free_row_occupy bf le_max_iff_disj)
      note ih = Cons.IH [OF m(1) rec]
      have new: "\<not> hides a b" if "a \<in> P" for a
        using Cons.prems(2) that c0(1) bf by (fastforce simp: recorded_def hides_def)
      have "c0 < sp_col d" if "d \<in> set later" for d using ih that w by (force simp: row_placed_def)
      with ih new m(2) bf h w c0(2) show ?thesis by (auto simp: row_placed_def)
    qed
  qed
qed

definition tidy :: "span_cell list \<Rightarrow> bool" where
  "tidy cells \<longleftrightarrow> sorted_wrt (\<lambda>a b. \<not> hides a b \<and> \<not> hides b a) cells
     \<and> (\<forall>a \<in> set cells. 1 \<le> sp_row_span a \<and> 1 \<le> sp_col_span a)"

lemma place_rows_facts:
  assumes "recorded P u" and "\<forall>k < length trs. row_fits rows (i + k) (trs ! k)" and "\<forall>a \<in> P. sp_row a < i"
  shows "tidy (place_rows rows i trs u)
    \<and> (\<forall>b \<in> set (place_rows rows i trs u). i \<le> sp_row b \<and> sp_row b + sp_row_span b \<le> rows)
    \<and> (\<forall>b \<in> set (place_rows rows i trs u). \<forall>a \<in> P. \<not> hides a b)"
  using assms
proof (induction trs arbitrary: i u P)
  case Nil
  then show ?case by (simp add: tidy_def)
next
  case (Cons row trs)
  obtain cells u' where c: "place_cells rows row i (mn_children (tr_node row)) 0 u = (cells, u')" by fastforce
  have "row_fits rows i row" using Cons.prems(2) by force
  note f = place_cells_facts [OF c Cons.prems(1) this]
  have rows: "\<forall>a \<in> set cells. sp_row a = i" using f by (simp add: row_placed_def)
  have fit: "\<forall>k < length trs. row_fits rows (Suc i + k) (trs ! k)"
    using Cons.prems(2) by (metis Suc_less_eq add_Suc_shift length_Cons nth_Cons_Suc)
  have "\<forall>a \<in> P \<union> set cells. sp_row a < Suc i" using Cons.prems(3) rows by auto
  note ih = Cons.IH [OF conjunct1 [OF conjunct2 [OF f]] fit this]
  have behind: "\<not> hides b a" if "a \<in> set cells" "b \<in> set (place_rows rows (Suc i) trs u')" for a b
  proof -
    have "Suc i \<le> sp_row b" "sp_row a = i" using ih rows that by auto
    then show ?thesis by (simp add: hides_def)
  qed
  have same_row: "sorted_wrt (\<lambda>a b. \<not> hides a b \<and> \<not> hides b a) cells"
    using f unfolding row_placed_def sorted_wrt_iff_nth_less by (meson hides_def leD)
  have "tidy (cells @ place_rows rows (Suc i) trs u')"
    using ih f same_row behind by (auto simp: tidy_def sorted_wrt_append row_placed_def)
  with c ih f rows show ?case by (auto simp: row_placed_def)
qed

lemma table_rows_fit:
  assumes "k < length (table_rows table)"
  shows "row_fits (length (table_rows table)) k (table_rows table ! k)"
proof -
  define ok where "ok rows = (\<forall>k < length rows. row_fits (length rows) k (rows ! k))" for rows
  have grow: "row_fits n k row \<Longrightarrow> n \<le> m \<Longrightarrow> row_fits m k row" for n m k row by (auto simp: row_fits_def)
  have "ok (add_rows child rows)" if "ok rows" for child rows
    using that unfolding ok_def add_rows_def
    by (auto simp: nth_append less_Suc_eq intro: grow) (auto simp: row_fits_def)
  then have "ok (fold add_rows cs rows)" if "ok rows" for cs rows
    using that by (induction cs arbitrary: rows) auto
  from this [of "[]"] assms show ?thesis by (simp add: ok_def table_rows_def)
qed

lemma chandra_cells_tidy: "tidy (chandra_table_cells table)"
  unfolding chandra_table_cells_def
  using place_rows_facts [of "{}" "[]" "table_rows table" "length (table_rows table)" 0]
  by (simp add: recorded_def table_rows_fit)

section \<open>The grid\<close>

lemma stamp_span_cell:
  assumes "tc_end_row cell \<le> int n" and "tc_end_col cell \<le> int m"
  shows "stamp_span cell = stamp_cell n m cell"
  using assms by (simp add: stamp_span_def stamp_cell_def last_row_def last_col_def fun_eq_iff)

lemma fold_stamp_span:
  assumes "\<forall>cell \<in> set cells. tc_end_row cell \<le> int n \<and> tc_end_col cell \<le> int m"
  shows "fold stamp_span cells g = fold (stamp_cell n m) cells g"
  using assms by (induction cells arbitrary: g) (simp_all add: stamp_span_cell [where n = n and m = m])

lemma clip_within:
  "tc_end_row (clip_cell n m c) \<le> int n \<and> tc_end_col (clip_cell n m c) \<le> int m"
  by (simp add: clip_cell_def Let_def)

lemma fill_span_elim:
  assumes "fill_span_table byte_size cells = (data, report)"
  obtains n m where "kept_table_shape (cut_source_rows report) (cut_source_cols report) = (n, m)"
    "td_num_rows data = int n" "td_num_cols data = int m"
    "td_cells data = map (clip_cell n m) (filter (\<lambda>c. sp_row c < n \<and> sp_col c < m) cells)"
    "td_grid data = (if cut_grid_omitted report then [] else fold (stamp_cell n m) (td_cells data) (empty_grid n m))"
proof -
  let ?r = "fold (\<lambda>c m. max m (sp_row c + sp_row_span c)) cells 0"
  let ?c = "fold (\<lambda>c m. max m (sp_col c + sp_col_span c)) cells 0"
  obtain n m where k: "kept_table_shape ?r ?c = (n, m)" by fastforce
  show thesis
    by (rule that [of n m]) (use assms k clip_within in \<open>auto simp: fill_span_table_def Let_def fold_stamp_span\<close>)
qed

lemma fill_span_ok: "fill_span_table byte_size cells = (data, report) \<Longrightarrow> table_ok data"
proof (erule fill_span_elim)
  fix n m assume a: "kept_table_shape (cut_source_rows report) (cut_source_cols report) = (n, m)"
    "td_num_rows data = int n" "td_num_cols data = int m"
    "td_grid data = (if cut_grid_omitted report then [] else fold (stamp_cell n m) (td_cells data) (empty_grid n m))"
  have "rectangular n m (fold (stamp_cell n m) (td_cells data) (empty_grid n m))"
    by (rule fold_stamp_cells(1) [OF empty_grid_rectangular])
  moreover have b: "n \<le> kMaxTableRows" "m \<le> kMaxTableCols" "n * m \<le> kMaxTableCells"
    using kept_shape_bounds [OF a(1)] by auto
  moreover have "int n * int m \<le> int kMaxTableCells" using b(3) by (metis of_nat_le_iff of_nat_mult)
  ultimately show ?thesis by (auto simp: table_ok_def a rectangular_def)
qed

lemma tidy_apart: "tidy cells \<Longrightarrow> a \<in> set cells \<Longrightarrow> b \<in> set cells \<Longrightarrow> a \<noteq> b \<Longrightarrow> \<not> hides b a"
  unfolding tidy_def in_set_conv_nth sorted_wrt_iff_nth_less by (metis linorder_neqE_nat)

lemma clip_covers: "covers (clip_cell n m b) (sp_row a) (sp_col a) \<Longrightarrow> hides b a"
  by (simp add: covers_def clip_cell_def hides_def Let_def)

text \<open>
  What \<^verbatim>\<open>fill_span_table\<close> relies on: the reader of a table never lets one cell cover the anchor of
  another.  Every reader below provides it, and then every anchor stays visible in the grid.
\<close>

locale cell_reader =
  fixes cells_of :: "'a \<Rightarrow> span_cell list"
  assumes cells_tidy: "tidy (cells_of x)"
begin

lemma anchor_shown:
  assumes "fill_span_table byte_size (cells_of x) = (data, report)" and "\<not> cut_grid_omitted report"
    and k: "td_cells data = map (clip_cell n m) (filter (\<lambda>c. sp_row c < n \<and> sp_col c < m) (cells_of x))"
    "td_grid data = fold (stamp_cell n m) (td_cells data) (empty_grid n m)"
    and a: "a \<in> set (cells_of x)" "sp_row a < n" "sp_col a < m"
  shows "td_grid data ! sp_row a ! sp_col a = clip_cell n m a"
proof -
  have "1 \<le> sp_row_span a \<and> 1 \<le> sp_col_span a" using cells_tidy a(1) unfolding tidy_def by blast
  then have own: "covers (clip_cell n m a) (sp_row a) (sp_col a)"
    using a by (auto simp: covers_def clip_cell_def Let_def)
  have "clip_cell n m a \<in> set (td_cells data)" using a by (simp add: k(1))
  with fold_stamp_cells(2) [OF empty_grid_rectangular a(2,3), of "td_cells data"] own k(2)
  obtain cell where cell: "cell \<in> set (td_cells data)" "covers cell (sp_row a) (sp_col a)"
    "td_grid data ! sp_row a ! sp_col a = cell" by auto
  then obtain b where b: "b \<in> set (cells_of x)" "cell = clip_cell n m b" by (auto simp: k(1))
  have "b = a" using tidy_apart [OF cells_tidy a(1) b(1)] clip_covers cell(2) b(2) by blast
  with cell(3) b(2) show ?thesis by simp
qed

lemma anchors_visible:
  assumes "fill_span_table byte_size (cells_of x) = (data, report)" and "\<not> cut_grid_omitted report"
  shows "table_ok data
    \<and> (\<forall>cell \<in> set (td_cells data).
         nat (tc_start_row cell) < nat (td_num_rows data) \<and> nat (tc_start_col cell) < nat (td_num_cols data)
         \<and> td_grid data ! nat (tc_start_row cell) ! nat (tc_start_col cell) = cell)"
  using assms(1)
proof (rule fill_span_elim)
  fix n m assume k: "td_num_rows data = int n" "td_num_cols data = int m"
    "td_cells data = map (clip_cell n m) (filter (\<lambda>c. sp_row c < n \<and> sp_col c < m) (cells_of x))"
    "td_grid data = (if cut_grid_omitted report then [] else fold (stamp_cell n m) (td_cells data) (empty_grid n m))"
  have "td_grid data = fold (stamp_cell n m) (td_cells data) (empty_grid n m)" using k(4) assms(2) by simp
  note shown = anchor_shown [OF assms k(3) this]
  then show ?thesis using fill_span_ok [OF assms(1)] by (auto simp: k(1-3) clip_cell_def Let_def)
qed

end

interpretation chandra: cell_reader chandra_table_cells
  by unfold_locales (rule chandra_cells_tidy)

section \<open>Properties\<close>

text \<open>
  C27: every cell of an HTML table keeps its place.  Whatever spans the markup claims, the
  table laid out from the cells is within the caps and rectangular, and the grid position a
  cell is anchored at shows that very cell: no cell is covered by another one.
\<close>

theorem html_anchors_visible:
  assumes "fill_span_table byte_size (chandra_table_cells table) = (data, report)" and "\<not> cut_grid_omitted report"
  shows "table_ok data
    \<and> (\<forall>cell \<in> set (td_cells data).
         nat (tc_start_row cell) < nat (td_num_rows data) \<and> nat (tc_start_col cell) < nat (td_num_cols data)
         \<and> td_grid data ! nat (tc_start_row cell) ! nat (tc_start_col cell) = cell)"
  by (rule chandra.anchors_visible [OF assms])

definition sample_table :: markup_node where
  "sample_table = MarkupNode ''table'' [] [] [MarkupNode ''tr'' [] []
     [MarkupNode ''td'' [] [(''colspan'', ''2'')] [MarkupNode [] ''a'' [] []], MarkupNode ''td'' [] [] []]]"

lemma sample_cells:
  "map (\<lambda>c. (sp_row c, sp_col c, sp_row_span c, sp_col_span c, sp_text c)) (chandra_table_cells sample_table)
     = [(0, 0, 1, 2, ''a''), (0, 2, 1, 1, [])]"
  by (simp add: chandra_table_cells_def table_rows_def sample_table_def add_rows_def row_nodes_def is_text_def
      node_attr_def parse_span_def span_number_def digit_value_def ctype_defs kMaxTableCells_def kMaxTableCols_def
      next_free.simps free_row_def occupy_def make_cell_def collapse_whitespace_def Let_def)

lemma free_grid: "\<not> span_grid_over (\<lambda>_. 0) 0 cells"
  by (induction cells) (simp_all add: Let_def)

theorem html_anchors_visible_witness:
  "\<exists>data report cell. fill_span_table (\<lambda>_. 0) (chandra_table_cells sample_table) = (data, report)
     \<and> cell \<in> set (td_cells data) \<and> tc_text cell = ''a''
     \<and> td_grid data ! nat (tc_start_row cell) ! nat (tc_start_col cell) = cell"
proof -
  obtain data report where f: "fill_span_table (\<lambda>_. 0) (chandra_table_cells sample_table) = (data, report)" by fastforce
  obtain a b where c: "chandra_table_cells sample_table = [a, b]" using sample_cells by auto
  have ab: "sp_row a = 0" "sp_col a = 0" "sp_row_span a = 1" "sp_col_span a = 2" "sp_text a = ''a''"
    "sp_row b = 0" "sp_col b = 2" "sp_row_span b = 1" "sp_col_span b = 1" using sample_cells by (simp_all add: c)
  have o: "\<not> cut_grid_omitted report" using f free_grid by (auto simp: fill_span_table_def Let_def split: prod.splits)
  have "kept_table_shape 1 3 = (1, 3)" by (rule kept_shape_all) (simp_all add: table_caps)
  then have "clip_cell 1 3 a \<in> set (td_cells data)" using f by (auto simp: fill_span_table_def c ab Let_def numeral_3_eq_3)
  moreover have "tc_text (clip_cell 1 3 a) = ''a''" by (simp add: clip_cell_def ab Let_def)
  ultimately show ?thesis using html_anchors_visible [OF f o] f by blast
qed

end
