(* ===== verification/Layout.thy ===== *)
theory Layout
  imports Span_Table
begin

text \<open>
  \<^verbatim>\<open>src/mapping/layout.cpp\<close>, \<^verbatim>\<open>LayoutWriter\<close>: one page of a layout-grounded format written as a
  tree.  Items are created in output order under the body or under an item created before;
  \<^verbatim>\<open>finish\<close> gives every item its reference, its parent and its children.

  A handle is the list and the index of an item; no handle stands for the body.
\<close>

type_synonym lref = "body_child option"

definition kBodyRef :: lref where "kBodyRef = None"

record writer =
  lw_doc :: document
  lw_warnings :: "warning list"
  lw_raster :: page_raster
  lw_over_budget :: nat
  lw_over_bytes :: nat
  lw_too_large :: nat
  lw_entries :: "(body_child \<times> lref) list"
  lw_child_counts :: "body_child \<rightharpoonup> nat"
  lw_body :: "body_child list"

definition new_writer :: "page_context \<Rightarrow> writer" where
  "new_writer page =
     \<lparr>lw_doc = empty_document, lw_warnings = [],
      lw_raster = new_raster (pg_png page) (pg_width page) (pg_height page) (pg_crops page),
      lw_over_budget = 0, lw_over_bytes = 0, lw_too_large = 0, lw_entries = [],
      lw_child_counts = Map.empty, lw_body = []\<rparr>"

section \<open>Numbers in what a model wrote\<close>

definition strip_view :: "string \<Rightarrow> string" where
  "strip_view s = strip_by is_space s"

text \<open>
  \<^verbatim>\<open>std::from_chars\<close> to a double on a piece of digits and points, all of it: digits with at most
  one point and at least one digit.
\<close>

definition decimal :: "string \<Rightarrow> real option" where
  "decimal s =
     (let whole = takeWhile is_digit s; rest = dropWhile is_digit s
      in if rest = [] then (if whole = [] then None else Some (real (digits_value whole)))
         else if hd rest \<noteq> CHR ''.'' \<or> \<not> list_all is_digit (tl rest) \<or> (whole = [] \<and> tl rest = []) then None
         else Some (real (digits_value (whole @ tl rest)) / 10 ^ length (tl rest)))"

definition llong_max :: int where "llong_max = 2 ^ 63 - 1"

text \<open>\<^verbatim>\<open>std::from_chars\<close> to a \<^verbatim>\<open>long long\<close>, all of the text.\<close>

definition python_int :: "string \<Rightarrow> int option" where
  "python_int attr =
     (let s = strip_view attr
      in if s = [] then None
         else let s1 = (if hd s = CHR ''+'' then tl s else s);
                  negative = (s1 \<noteq> [] \<and> hd s1 = CHR ''-''); ds = (if negative then tl s1 else s1);
                  number = (if negative then - int (digits_value ds) else int (digits_value ds))
              in if ds = [] \<or> \<not> list_all is_digit ds \<or> number < - llong_max - 1 \<or> llong_max < number then None
                 else Some number)"

section \<open>Boxes\<close>

definition scaled_box ::
  "(real \<Rightarrow> real) \<Rightarrow> page_context \<Rightarrow> real \<Rightarrow> real \<Rightarrow> real \<Rightarrow> real \<Rightarrow> real \<Rightarrow> real \<Rightarrow> bounding_box" where
  "scaled_box rnd page l t r b sx sy =
     (let width = real (pg_width page); height = real (pg_height page)
      in \<lparr>bb_l = std_clamp (rnd (l * sx)) 0 width, bb_t = std_clamp (rnd (t * sy)) 0 height,
          bb_r = std_clamp (rnd (r * sx)) 0 width, bb_b = std_clamp (rnd (b * sy)) 0 height,
          bb_origin = COORD_ORIGIN_TOPLEFT\<rparr>)"

definition grid_box :: "(real \<Rightarrow> real) \<Rightarrow> page_context \<Rightarrow> real list \<Rightarrow> real \<Rightarrow> bounding_box" where
  "grid_box rnd page coords grid =
     (if length coords < 4 \<or> grid \<le> 0 then full_page_box page
      else scaled_box rnd page (coords ! 0) (coords ! 1) (coords ! 2) (coords ! 3)
        (rnd (real (pg_width page) / grid)) (rnd (real (pg_height page) / grid)))"

text \<open>Code points: every byte but the continuation bytes of UTF-8.\<close>

definition char_count :: "string \<Rightarrow> int" where
  "char_count t = int (length (filter (\<lambda>c. code c div 64 \<noteq> 2) t))"

definition layout_prov :: "page_context \<Rightarrow> bounding_box option \<Rightarrow> int \<Rightarrow> provenance" where
  "layout_prov page box chars =
     (make_prov page (case box of None \<Rightarrow> full_page_box page | Some b \<Rightarrow> b))\<lparr>pv_charspan := Some (0, chars)\<rparr>"

section \<open>Entries\<close>

definition add_entry :: "child_kind \<Rightarrow> nat \<Rightarrow> lref \<Rightarrow> writer \<Rightarrow> body_child \<times> writer" where
  "add_entry kind index parent w =
     ((kind, index),
      case parent of
        None \<Rightarrow> w\<lparr>lw_entries := lw_entries w @ [((kind, index), parent)], lw_body := lw_body w @ [(kind, index)]\<rparr>
      | Some p \<Rightarrow> w\<lparr>lw_entries := lw_entries w @ [((kind, index), parent)],
                   lw_child_counts := (lw_child_counts w)(p \<mapsto>
                     (case lw_child_counts w p of None \<Rightarrow> 0 | Some n \<Rightarrow> n) + 1)\<rparr>)"

definition children_of :: "writer \<Rightarrow> body_child \<Rightarrow> nat" where
  "children_of w ref = (case lw_child_counts w ref of None \<Rightarrow> 0 | Some n \<Rightarrow> n)"

text \<open>An item was added to the texts of the document: it becomes an entry.\<close>

definition enter_text :: "lref \<Rightarrow> document \<Rightarrow> writer \<Rightarrow> body_child \<times> writer" where
  "enter_text parent doc w = add_entry TEXT (length (doc_texts doc) - 1) parent (w\<lparr>lw_doc := doc\<rparr>)"

definition is_code :: "text_item \<Rightarrow> bool" where
  "is_code item = (case tx_kind item of KCode _ \<Rightarrow> True | _ \<Rightarrow> False)"

definition has_base :: "text_item \<Rightarrow> bool" where
  "has_base item = (case tx_kind item of KCode _ \<Rightarrow> False | KNotSet \<Rightarrow> False | _ \<Rightarrow> True)"

text \<open>The last text, changed.\<close>

definition map_last_text :: "(text_item \<Rightarrow> text_item) \<Rightarrow> document \<Rightarrow> document" where
  "map_last_text f doc = doc\<lparr>doc_texts := at_index (length (doc_texts doc) - 1) f (doc_texts doc)\<rparr>"

definition stamp_layer :: "doc_item_label \<Rightarrow> text_item \<Rightarrow> text_item" where
  "stamp_layer label item =
     (if label \<noteq> DOC_ITEM_LABEL_PAGE_HEADER \<and> label \<noteq> DOC_ITEM_LABEL_PAGE_FOOTER then item
      else if has_base item then item\<lparr>it_layer := CONTENT_LAYER_FURNITURE\<rparr> else item)"

section \<open>Adding items\<close>

definition write_text ::
  "page_context \<Rightarrow> doc_item_label \<Rightarrow> bounding_box option \<Rightarrow> string \<Rightarrow> lref \<Rightarrow> writer \<Rightarrow> body_child \<times> writer" where
  "write_text page label box body parent w =
     enter_text parent (map_last_text (stamp_layer label)
       (add_text page label (layout_prov page box (char_count body)) body (lw_doc w))) w"

definition write_title ::
  "page_context \<Rightarrow> bounding_box option \<Rightarrow> string \<Rightarrow> lref \<Rightarrow> writer \<Rightarrow> body_child \<times> writer" where
  "write_title page box body parent w =
     enter_text parent (add_title page (layout_prov page box (char_count body)) body (lw_doc w)) w"

definition write_heading ::
  "page_context \<Rightarrow> int \<Rightarrow> bounding_box option \<Rightarrow> string \<Rightarrow> lref \<Rightarrow> writer \<Rightarrow> body_child \<times> writer" where
  "write_heading page level box body parent w =
     enter_text parent (add_section_header page level (layout_prov page box (char_count body)) body (lw_doc w)) w"

definition write_formula ::
  "page_context \<Rightarrow> bounding_box option \<Rightarrow> string \<Rightarrow> lref \<Rightarrow> writer \<Rightarrow> body_child \<times> writer" where
  "write_formula page box body parent w =
     enter_text parent (add_formula page (layout_prov page box (char_count body)) body (lw_doc w)) w"

definition write_code ::
  "page_context \<Rightarrow> bounding_box option \<Rightarrow> string \<Rightarrow> string \<Rightarrow> lref \<Rightarrow> writer \<Rightarrow> body_child \<times> writer" where
  "write_code page box body language_raw parent w =
     enter_text parent (add_code page (layout_prov page box (char_count body)) body language_raw (lw_doc w)) w"

definition write_list_item ::
  "page_context \<Rightarrow> bounding_box option \<Rightarrow> string \<Rightarrow> bool \<Rightarrow> string \<Rightarrow> lref \<Rightarrow> writer \<Rightarrow> body_child \<times> writer" where
  "write_list_item page box body enumerated marker parent w =
     enter_text parent
       (add_list_item page (layout_prov page box (char_count body)) body enumerated marker (lw_doc w)) w"

definition write_field_value ::
  "page_context \<Rightarrow> bounding_box option \<Rightarrow> string \<Rightarrow> lref \<Rightarrow> writer \<Rightarrow> body_child \<times> writer" where
  "write_field_value page box body parent w =
     enter_text parent
       (push_text (fill_text_base page DOC_ITEM_LABEL_FIELD_VALUE (layout_prov page box (char_count body))
          (KFieldValue ''fillable'') body) (lw_doc w)) w"

definition write_group :: "string \<Rightarrow> group_label \<Rightarrow> lref \<Rightarrow> writer \<Rightarrow> body_child \<times> writer" where
  "write_group name label parent w =
     (let doc = (lw_doc w)\<lparr>doc_groups := doc_groups (lw_doc w) @
            [empty_group\<lparr>it_layer := CONTENT_LAYER_BODY, gr_name := name, gr_label := label\<rparr>]\<rparr>
      in add_entry GROUP (length (doc_groups doc) - 1) parent (w\<lparr>lw_doc := doc\<rparr>))"

definition write_list_group :: "lref \<Rightarrow> writer \<Rightarrow> body_child \<times> writer" where
  "write_list_group = write_group ''list'' GROUP_LABEL_LIST"

definition write_inline_group :: "lref \<Rightarrow> writer \<Rightarrow> body_child \<times> writer" where
  "write_inline_group = write_group ''group'' GROUP_LABEL_INLINE"

definition write_field_region ::
  "page_context \<Rightarrow> bounding_box option \<Rightarrow> lref \<Rightarrow> writer \<Rightarrow> body_child \<times> writer" where
  "write_field_region page box parent w =
     (let doc = (lw_doc w)\<lparr>doc_field_regions := doc_field_regions (lw_doc w) @
            [\<lparr>it_self_ref = [], it_parent = None, it_children = [], it_label = DOC_ITEM_LABEL_FIELD_REGION,
              it_label_raw = [], it_layer = CONTENT_LAYER_BODY, it_prov = [layout_prov page box 0],
              it_source = page_sources page\<rparr>]\<rparr>
      in add_entry FIELD_REGION (length (doc_field_regions doc) - 1) parent (w\<lparr>lw_doc := doc\<rparr>))"

definition add_style :: "formatting option \<Rightarrow> string \<Rightarrow> text_item \<Rightarrow> text_item" where
  "add_style fmt hyperlink item =
     (if \<not> has_base item then item
      else item\<lparr>tx_formatting := (case fmt of None \<Rightarrow> tx_formatting item | Some f \<Rightarrow> Some f),
                tx_hyperlink := (if hyperlink = [] then tx_hyperlink item else hyperlink)\<rparr>)"

definition edit_text :: "body_child \<Rightarrow> (text_item \<Rightarrow> text_item) \<Rightarrow> writer \<Rightarrow> writer" where
  "edit_text ref f w =
     (if fst ref \<noteq> TEXT then w
      else w\<lparr>lw_doc := (lw_doc w)\<lparr>doc_texts := at_index (snd ref) f (doc_texts (lw_doc w))\<rparr>\<rparr>)"

definition write_styled_text ::
  "page_context \<Rightarrow> doc_item_label \<Rightarrow> bounding_box option \<Rightarrow> string \<Rightarrow> formatting option \<Rightarrow> string \<Rightarrow> lref
     \<Rightarrow> writer \<Rightarrow> body_child \<times> writer" where
  "write_styled_text page label box body fmt hyperlink parent w =
     (let (ref, w') = (case label of
            DOC_ITEM_LABEL_TITLE \<Rightarrow> write_title page box body parent w
          | DOC_ITEM_LABEL_SECTION_HEADER \<Rightarrow> write_heading page 1 box body parent w
          | DOC_ITEM_LABEL_FORMULA \<Rightarrow> write_formula page box body parent w
          | DOC_ITEM_LABEL_CODE \<Rightarrow> write_code page box body [] parent w
          | DOC_ITEM_LABEL_FIELD_VALUE \<Rightarrow> write_field_value page box body parent w
          | _ \<Rightarrow> write_text page label box body parent w)
      in (ref, edit_text ref (add_style fmt hyperlink) w'))"

section \<open>Changing items\<close>

definition text_of :: "writer \<Rightarrow> body_child \<Rightarrow> string" where
  "text_of w ref =
     (if fst ref \<noteq> TEXT then []
      else let item = doc_texts (lw_doc w) ! snd ref
           in if is_code item \<or> has_base item then tx_text item else [])"

definition set_span_end :: "int \<Rightarrow> provenance \<Rightarrow> provenance" where
  "set_span_end n prov =
     prov\<lparr>pv_charspan := Some (case pv_charspan prov of None \<Rightarrow> 0 | Some (s, _) \<Rightarrow> s, n)\<rparr>"

definition retext :: "string \<Rightarrow> formatting option \<Rightarrow> string \<Rightarrow> text_item \<Rightarrow> text_item" where
  "retext body fmt hyperlink item =
     (if is_code item then item\<lparr>tx_text := body, tx_orig := (if tx_orig item = [] then body else tx_orig item)\<rparr>
      else if \<not> has_base item then item
      else (add_style fmt hyperlink item)\<lparr>tx_text := body,
             tx_orig := (if tx_orig item = [] then body else tx_orig item),
             it_prov := map (set_span_end (char_count body)) (it_prov item)\<rparr>)"

definition set_text :: "body_child \<Rightarrow> string \<Rightarrow> formatting option \<Rightarrow> string \<Rightarrow> writer \<Rightarrow> writer" where
  "set_text ref body fmt hyperlink = edit_text ref (retext body fmt hyperlink)"

definition set_orig :: "body_child \<Rightarrow> string \<Rightarrow> writer \<Rightarrow> writer" where
  "set_orig ref orig =
     edit_text ref (\<lambda>item. if is_code item \<or> has_base item then item\<lparr>tx_orig := orig\<rparr> else item)"

definition set_heading_level :: "nat \<Rightarrow> int \<Rightarrow> writer \<Rightarrow> writer" where
  "set_heading_level index level =
     edit_text (TEXT, index)
       (\<lambda>item. case tx_kind item of KSectionHeader _ \<Rightarrow> item\<lparr>tx_kind := KSectionHeader level\<rparr> | _ \<Rightarrow> item)"

definition set_content_layer :: "body_child \<Rightarrow> content_layer \<Rightarrow> writer \<Rightarrow> writer" where
  "set_content_layer ref layer w =
     (case fst ref of
        TEXT \<Rightarrow> edit_text ref (\<lambda>item. if is_code item \<or> has_base item then item\<lparr>it_layer := layer\<rparr> else item) w
      | GROUP \<Rightarrow> w\<lparr>lw_doc := (lw_doc w)\<lparr>doc_groups :=
                   at_index (snd ref) (\<lambda>g. g\<lparr>it_layer := layer\<rparr>) (doc_groups (lw_doc w))\<rparr>\<rparr>
      | _ \<Rightarrow> w)"

section \<open>Pictures and tables\<close>

definition map_last_picture :: "(picture_item \<Rightarrow> picture_item) \<Rightarrow> document \<Rightarrow> document" where
  "map_last_picture f doc = doc\<lparr>doc_pictures := at_index (length (doc_pictures doc) - 1) f (doc_pictures doc)\<rparr>"

definition attach_crop ::
  "image_library \<Rightarrow> (real \<Rightarrow> real) \<Rightarrow> page_context \<Rightarrow> bounding_box option \<Rightarrow> writer \<Rightarrow> writer" where
  "attach_crop lib rnd page box w =
     (case box of
        None \<Rightarrow> w
      | Some b \<Rightarrow>
          if pg_png page = [] then w
          else (case crop lib rnd (bb_l b) (bb_t b) (bb_r b) (bb_b b) (lw_raster w) of
                  (res, img, raster) \<Rightarrow>
                    let w' = w\<lparr>lw_raster := raster\<rparr>
                    in case res of
                         KAttached \<Rightarrow> w'\<lparr>lw_doc := map_last_picture (\<lambda>p. p\<lparr>pc_image := img\<rparr>) (lw_doc w')\<rparr>
                       | KOverBudget \<Rightarrow> w'\<lparr>lw_over_budget := lw_over_budget w' + 1\<rparr>
                       | KOverByteCap \<Rightarrow> w'\<lparr>lw_over_bytes := lw_over_bytes w' + 1\<rparr>
                       | KRasterTooLarge \<Rightarrow> w'\<lparr>lw_too_large := lw_too_large w' + 1\<rparr>
                       | KFailed \<Rightarrow> w'))"

definition write_picture ::
  "image_library \<Rightarrow> (real \<Rightarrow> real) \<Rightarrow> page_context \<Rightarrow> bounding_box option \<Rightarrow> lref \<Rightarrow> writer \<Rightarrow> body_child \<times> writer" where
  "write_picture lib rnd page box parent w =
     (let w1 = attach_crop lib rnd page box (w\<lparr>lw_doc := add_picture page (layout_prov page box 0) (lw_doc w)\<rparr>)
      in add_entry PICTURE (length (doc_pictures (lw_doc w1)) - 1) parent w1)"

definition write_table ::
  "(table_cell \<Rightarrow> nat) \<Rightarrow> page_context \<Rightarrow> bounding_box option \<Rightarrow> span_cell list \<Rightarrow> lref \<Rightarrow> writer \<Rightarrow> body_child \<times> writer" where
  "write_table byte_size page box cells parent w0 =
     (let doc = add_table page (layout_prov page box 0) (lw_doc w0);
          (ref, w) = add_entry TABLE (length (doc_tables doc) - 1) parent (w0\<lparr>lw_doc := doc\<rparr>)
      in if cells = [] then (ref, w)
         else (case fill_span_table byte_size cells of
                 (data, report) \<Rightarrow>
                   (ref, w\<lparr>lw_doc := set_last_table_data data (lw_doc w),
                          lw_warnings := lw_warnings w @ note_table_cut report data ''table''
                            (body_child_ref TABLE (snd ref))\<rparr>)))"

definition edit_picture :: "body_child \<Rightarrow> (picture_item \<Rightarrow> picture_item) \<Rightarrow> writer \<Rightarrow> writer" where
  "edit_picture ref f w =
     w\<lparr>lw_doc := (lw_doc w)\<lparr>doc_pictures := at_index (snd ref) f (doc_pictures (lw_doc w))\<rparr>\<rparr>"

definition edit_table :: "body_child \<Rightarrow> (table_item \<Rightarrow> table_item) \<Rightarrow> writer \<Rightarrow> writer" where
  "edit_table ref f w =
     w\<lparr>lw_doc := (lw_doc w)\<lparr>doc_tables := at_index (snd ref) f (doc_tables (lw_doc w))\<rparr>\<rparr>"

definition describe_picture :: "body_child \<Rightarrow> string \<Rightarrow> string \<Rightarrow> writer \<Rightarrow> writer" where
  "describe_picture ref description created_by w =
     (if description = [] then w
      else edit_picture ref (\<lambda>p. p\<lparr>
             pc_meta := (pc_meta p)\<lparr>pm_description := Some (description, created_by)\<rparr>,
             pc_annotations := pc_annotations p @ [DescriptionAnnotation description created_by]\<rparr>) w)"

definition classify_picture :: "body_child \<Rightarrow> string \<Rightarrow> string \<Rightarrow> writer \<Rightarrow> writer" where
  "classify_picture ref class_name created_by w =
     (if class_name = [] then w
      else edit_picture ref (\<lambda>p. p\<lparr>
             pc_meta := (pc_meta p)\<lparr>pm_classification := pm_classification (pc_meta p) @ [(class_name, created_by)]\<rparr>,
             pc_annotations := pc_annotations p @ [ClassificationAnnotation class_name created_by]\<rparr>) w)"

definition set_molecule :: "body_child \<Rightarrow> string \<Rightarrow> string \<Rightarrow> writer \<Rightarrow> writer" where
  "set_molecule ref smiles created_by w =
     (if smiles = [] then w
      else edit_picture ref (\<lambda>p. p\<lparr>
             pc_meta := (pc_meta p)\<lparr>pm_molecule := Some (smiles, created_by)\<rparr>,
             pc_annotations := pc_annotations p @ [MoleculeAnnotation smiles created_by]\<rparr>) w)"

definition set_tabular_chart :: "body_child \<Rightarrow> string \<Rightarrow> string list list \<Rightarrow> string \<Rightarrow> writer \<Rightarrow> writer" where
  "set_tabular_chart ref title rows created_by w =
     (if rows = [] then w
      else case fill_table_data rows 1 empty_table_data of
        (data, report) \<Rightarrow>
          edit_picture ref (\<lambda>p. p\<lparr>
             pc_meta := (pc_meta p)\<lparr>pm_tabular_chart := Some (title, created_by, data)\<rparr>,
             pc_annotations := pc_annotations p @ [TabularChartAnnotation title data]\<rparr>)
            (w\<lparr>lw_warnings := lw_warnings w @ note_table_cut report data ''chart data''
                (body_child_ref PICTURE (snd ref))\<rparr>))"

section \<open>Captions\<close>

definition link_caption :: "body_child \<Rightarrow> body_child \<Rightarrow> writer \<Rightarrow> writer" where
  "link_caption owner caption w =
     (let ref = body_child_ref (fst caption) (snd caption)
      in case fst owner of
           PICTURE \<Rightarrow> edit_picture owner (\<lambda>p. p\<lparr>pc_captions := pc_captions p @ [ref]\<rparr>) w
         | TABLE \<Rightarrow> edit_table owner (\<lambda>t. t\<lparr>tl_captions := tl_captions t @ [ref]\<rparr>) w
         | TEXT \<Rightarrow> edit_text owner (\<lambda>t. if is_code t then t\<lparr>tx_captions := tx_captions t @ [ref]\<rparr> else t) w
         | _ \<Rightarrow> w)"

definition link_footnote :: "body_child \<Rightarrow> body_child \<Rightarrow> writer \<Rightarrow> writer" where
  "link_footnote owner footnote w =
     (let ref = body_child_ref (fst footnote) (snd footnote)
      in case fst owner of
           PICTURE \<Rightarrow> edit_picture owner (\<lambda>p. p\<lparr>pc_footnotes := pc_footnotes p @ [ref]\<rparr>) w
         | TABLE \<Rightarrow> edit_table owner (\<lambda>t. t\<lparr>tl_footnotes := tl_footnotes t @ [ref]\<rparr>) w
         | TEXT \<Rightarrow> edit_text owner (\<lambda>t. if is_code t then t\<lparr>tx_footnotes := tx_footnotes t @ [ref]\<rparr> else t) w
         | _ \<Rightarrow> w)"

definition has_captions :: "writer \<Rightarrow> body_child \<Rightarrow> bool" where
  "has_captions w owner =
     (case fst owner of
        PICTURE \<Rightarrow> pc_captions (doc_pictures (lw_doc w) ! snd owner) \<noteq> []
      | TABLE \<Rightarrow> tl_captions (doc_tables (lw_doc w) ! snd owner) \<noteq> []
      | _ \<Rightarrow> False)"

definition label_of :: "writer \<Rightarrow> body_child \<Rightarrow> doc_item_label" where
  "label_of w ref =
     (case fst ref of
        PICTURE \<Rightarrow> DOC_ITEM_LABEL_PICTURE
      | TABLE \<Rightarrow> DOC_ITEM_LABEL_TABLE
      | TEXT \<Rightarrow>
          (let item = doc_texts (lw_doc w) ! snd ref
           in case tx_kind item of
                KCode _ \<Rightarrow> DOC_ITEM_LABEL_CODE
              | KNotSet \<Rightarrow> DOC_ITEM_LABEL_UNSPECIFIED
              | KFieldHeading _ \<Rightarrow> DOC_ITEM_LABEL_UNSPECIFIED
              | KFieldValue _ \<Rightarrow> DOC_ITEM_LABEL_UNSPECIFIED
              | _ \<Rightarrow> it_label item)
      | _ \<Rightarrow> DOC_ITEM_LABEL_UNSPECIFIED)"

text \<open>The body children of a block; a block is looked at only when it holds exactly one.\<close>

definition block_item :: "writer \<Rightarrow> nat list \<Rightarrow> nat \<Rightarrow> body_child option" where
  "block_item w starts i =
     (let first = starts ! i; last = (if i + 1 < length starts then starts ! (i + 1) else length (lw_body w))
      in if last - first = 1 then Some (lw_body w ! first) else None)"

definition is_caption_item :: "writer \<Rightarrow> body_child \<Rightarrow> bool" where
  "is_caption_item w ref \<longleftrightarrow>
     fst ref = TEXT \<and> label_of w ref = DOC_ITEM_LABEL_CAPTION
     \<and> tx_kind (doc_texts (lw_doc w) ! snd ref) = KText
     \<and> trim (tx_text (doc_texts (lw_doc w) ! snd ref)) \<noteq> [] \<and> children_of w ref = 0"

definition is_owner :: "writer \<Rightarrow> bool \<Rightarrow> body_child \<Rightarrow> bool" where
  "is_owner w code_owners ref \<longleftrightarrow>
     fst ref = PICTURE \<or> fst ref = TABLE
     \<or> (code_owners \<and> fst ref = TEXT \<and> is_code (doc_texts (lw_doc w) ! snd ref))"

definition caption_owners :: "writer \<Rightarrow> nat list \<Rightarrow> bool \<Rightarrow> nat \<Rightarrow> body_child list" where
  "caption_owners w starts code_owners index =
     filter (is_owner w code_owners)
       (List.map_filter (block_item w starts)
         (filter (\<lambda>n. n < length starts) ((if 0 < index then [index - 1] else []) @ [index + 1])))"

definition link_adjacent_caption :: "nat list \<Rightarrow> bool \<Rightarrow> nat \<Rightarrow> writer \<Rightarrow> writer" where
  "link_adjacent_caption starts code_owners index w =
     (if length starts \<le> index then w
      else case block_item w starts index of
        None \<Rightarrow> w
      | Some caption \<Rightarrow>
          if \<not> is_caption_item w caption then w
          else (case caption_owners w starts code_owners index of
                  [owner] \<Rightarrow> if fst owner \<noteq> TEXT \<and> \<not> has_captions w owner then link_caption owner caption w else w
                | _ \<Rightarrow> w))"

definition link_adjacent_captions :: "nat list \<Rightarrow> nat list \<Rightarrow> bool \<Rightarrow> writer \<Rightarrow> writer" where
  "link_adjacent_captions starts caption_blocks code_owners w =
     fold (link_adjacent_caption starts code_owners) caption_blocks w"

section \<open>Finishing\<close>

definition PAGE_WARNING_CODE_PICTURE_IMAGES_SKIPPED :: nat where
  "PAGE_WARNING_CODE_PICTURE_IMAGES_SKIPPED = 3"

text \<open>A nested entry gets its reference and its parent, and joins the parent's children.\<close>

definition stamp_nested :: "string \<Rightarrow> string \<Rightarrow> body_child \<Rightarrow> document \<Rightarrow> document" where
  "stamp_nested self_ref parent_ref ref doc =
     (case ref of (kind, i) \<Rightarrow>
        case kind of
          TEXT \<Rightarrow> doc\<lparr>doc_texts := at_index i (stamp_text_item self_ref parent_ref) (doc_texts doc)\<rparr>
        | PICTURE \<Rightarrow> doc\<lparr>doc_pictures := at_index i (stamp_item self_ref parent_ref) (doc_pictures doc)\<rparr>
        | TABLE \<Rightarrow> doc\<lparr>doc_tables := at_index i (stamp_item self_ref parent_ref) (doc_tables doc)\<rparr>
        | GROUP \<Rightarrow> doc\<lparr>doc_groups := at_index i (stamp_item self_ref parent_ref) (doc_groups doc)\<rparr>
        | FIELD_REGION \<Rightarrow>
            doc\<lparr>doc_field_regions := at_index i (stamp_item self_ref parent_ref) (doc_field_regions doc)\<rparr>
        | KEY_VALUE \<Rightarrow> doc)"

definition add_child_ref :: "string \<Rightarrow> 'a item_base_scheme \<Rightarrow> 'a item_base_scheme" where
  "add_child_ref ref item = item\<lparr>it_children := it_children item @ [ref]\<rparr>"

definition join_parent :: "string \<Rightarrow> body_child \<Rightarrow> document \<Rightarrow> document" where
  "join_parent self_ref parent doc =
     (case parent of (kind, i) \<Rightarrow>
        case kind of
          TEXT \<Rightarrow> doc\<lparr>doc_texts := at_index i (\<lambda>t. if is_code t \<or> has_base t then add_child_ref self_ref t else t)
                     (doc_texts doc)\<rparr>
        | PICTURE \<Rightarrow> doc\<lparr>doc_pictures := at_index i (add_child_ref self_ref) (doc_pictures doc)\<rparr>
        | TABLE \<Rightarrow> doc\<lparr>doc_tables := at_index i (add_child_ref self_ref) (doc_tables doc)\<rparr>
        | GROUP \<Rightarrow> doc\<lparr>doc_groups := at_index i (add_child_ref self_ref) (doc_groups doc)\<rparr>
        | FIELD_REGION \<Rightarrow> doc\<lparr>doc_field_regions := at_index i (add_child_ref self_ref) (doc_field_regions doc)\<rparr>
        | KEY_VALUE \<Rightarrow> doc)"

definition finish_entry :: "body_child \<times> lref \<Rightarrow> document \<Rightarrow> document" where
  "finish_entry entry doc =
     (case entry of
        (ref, None) \<Rightarrow> doc
      | (ref, Some parent) \<Rightarrow>
          join_parent (body_child_ref (fst ref) (snd ref)) parent
            (stamp_nested (body_child_ref (fst ref) (snd ref)) (body_child_ref (fst parent) (snd parent)) ref doc))"

definition skipped_warning :: "string \<Rightarrow> warning" where
  "skipped_warning message =
     \<lparr>wn_code = PAGE_WARNING_CODE_PICTURE_IMAGES_SKIPPED, wn_message = message, wn_ref = []\<rparr>"

definition crop_warnings :: "page_context \<Rightarrow> writer \<Rightarrow> warning list" where
  "crop_warnings page w =
     (if 0 < lw_over_budget w
      then [skipped_warning (show_nat (lw_over_budget w) @ '' picture(s) carry no image: the page''
              @ [SQUOTE] @ ''s crop budget ('' @ show_nat (cb_max_crops (pg_crops page)) @ '' crops, ''
              @ show_int \<lfloor>cb_max_area_pages (pg_crops page)\<rfloor> @ ''x the page'' @ [SQUOTE] @ ''s pixels) ran out'')]
      else [])
     @ (if 0 < lw_over_bytes w
        then [skipped_warning (show_nat (lw_over_bytes w) @ '' picture(s) carry no image: the page''
                @ [SQUOTE] @ ''s inline image cap ('' @ show_nat (cb_max_inline_bytes (pg_crops page)) @ '' bytes, ''
                @ show_nat (pr_inline_bytes (lw_raster w)) @ '' attached) ran out'')]
        else [])
     @ (if 0 < lw_too_large w
        then [skipped_warning (show_nat (lw_too_large w) @ '' picture(s) carry no image: the page raster is ''
                @ show_nat (pr_width (lw_raster w)) @ ''x'' @ show_nat (pr_height (lw_raster w))
                @ '', above the '' @ show_nat kMaxRasterPixels @ ''-pixel decode cap'')]
        else [])"

definition finish :: "page_context \<Rightarrow> string \<Rightarrow> bool \<Rightarrow> writer \<Rightarrow> string + (document \<times> warning list)" where
  "finish page format_title allow_empty w =
     (if lw_entries w = [] \<and> \<not> allow_empty
      then Inl (format_title @ '' response produced no document items'')
      else Inr (fold finish_entry (lw_entries w) (finalize_ordered page (lw_body w) (lw_doc w)),
                lw_warnings w @ crop_warnings page w))"

section \<open>Items by their handle\<close>

definition item_at :: "document \<Rightarrow> body_child \<Rightarrow> item_base option" where
  "item_at doc c =
     (case c of (kind, i) \<Rightarrow>
        case kind of
          TEXT \<Rightarrow> map_option item_base.truncate (nth_option (doc_texts doc) i)
        | PICTURE \<Rightarrow> map_option item_base.truncate (nth_option (doc_pictures doc) i)
        | TABLE \<Rightarrow> map_option item_base.truncate (nth_option (doc_tables doc) i)
        | KEY_VALUE \<Rightarrow> map_option item_base.truncate (nth_option (doc_key_value_items doc) i)
        | GROUP \<Rightarrow> map_option item_base.truncate (nth_option (doc_groups doc) i)
        | FIELD_REGION \<Rightarrow> nth_option (doc_field_regions doc) i)"

definition ref_name :: "body_child \<Rightarrow> string" where
  "ref_name c = body_child_ref (fst c) (snd c)"

lemma ref_name_inject [simp]: "ref_name a = ref_name b \<longleftrightarrow> a = b"
  by (auto simp: ref_name_def body_child_ref_inject prod_eq_iff)

lemma truncate_stamp: "item_base.truncate (stamp_item s p x) = stamp_item s p (item_base.truncate x)"
  by (simp add: stamp_item_def item_base.defs)

lemma truncate_stamp_text:
  "tx_kind x \<noteq> KNotSet \<Longrightarrow> item_base.truncate (stamp_text_item s p x) = stamp_item s p (item_base.truncate x)"
  by (auto simp: stamp_text_item_def stamp_item_def item_base.defs split: text_kind.splits)

lemma truncate_child_ref: "item_base.truncate (add_child_ref s x) = add_child_ref s (item_base.truncate x)"
  by (simp add: add_child_ref_def item_base.defs)

lemma kind_has_text: "tx_kind x \<noteq> KNotSet \<Longrightarrow> is_code x \<or> has_base x"
  by (auto simp: is_code_def has_base_def split: text_kind.splits)

lemma nth_option_kind: "kinds_set doc \<Longrightarrow> nth_option (doc_texts doc) i = Some x \<Longrightarrow> tx_kind x \<noteq> KNotSet"
  by (auto simp: kinds_set_def nth_option_def split: if_splits)

lemmas item_views = item_at_def nth_option_at_index

lemma item_at_stamp:
  assumes "kinds_set doc" and "fst c \<noteq> KEY_VALUE"
  shows "item_at (stamp_nested s p c doc) q = (if q = c then map_option (stamp_item s p) (item_at doc q) else item_at doc q)"
proof -
  obtain k i where c: "c = (k, i)" by fastforce
  obtain k' i' where q: "q = (k', i')" by fastforce
  show ?thesis
    using assms
    by (cases k; cases k')
      (auto simp: c q stamp_nested_def item_views option.map_comp comp_def truncate_stamp truncate_stamp_text
        dest: nth_option_kind intro!: option.map_cong)
qed

lemma item_at_join:
  assumes "kinds_set doc" and "fst c \<noteq> KEY_VALUE"
  shows "item_at (join_parent s c doc) q = (if q = c then map_option (add_child_ref s) (item_at doc q) else item_at doc q)"
proof -
  obtain k i where c: "c = (k, i)" by fastforce
  obtain k' i' where q: "q = (k', i')" by fastforce
  show ?thesis
    using assms
    by (cases k; cases k')
      (auto simp: c q join_parent_def item_views option.map_comp comp_def truncate_child_ref
        dest!: nth_option_kind kind_has_text intro!: option.map_cong)
qed

lemma kinds_set_nested: "kinds_set doc \<Longrightarrow> kinds_set (stamp_nested s p c doc)"
  by (cases c; cases "fst c") (auto simp: stamp_nested_def stamp_text_kind kinds_set_def dest!: set_at_index)

lemma kinds_set_join: "kinds_set doc \<Longrightarrow> kinds_set (join_parent s c doc)"
  by (cases c; cases "fst c")
    (auto simp: join_parent_def add_child_ref_def kinds_set_def dest!: set_at_index split: if_splits)

section \<open>What finishing makes of the entries\<close>

definition kids :: "(body_child \<times> lref) list \<Rightarrow> lref \<Rightarrow> body_child list" where
  "kids entries parent = map fst (filter (\<lambda>e. snd e = parent) entries)"

lemma kids_simps [simp]: "kids [] p = []" "kids ((c, q) # es) p = (if q = p then c # kids es p else kids es p)"
  by (simp_all add: kids_def)

definition finished :: "(body_child \<times> lref) list \<Rightarrow> body_child \<Rightarrow> item_base \<Rightarrow> item_base" where
  "finished entries q b =
     (case map_of entries q of
        Some (Some p) \<Rightarrow> b\<lparr>it_self_ref := ref_name q, it_parent := Some (ref_name p)\<rparr>
      | _ \<Rightarrow> b)\<lparr>it_children := it_children b @ map ref_name (kids entries (Some q))\<rparr>"

lemma finish_fold:
  assumes "kinds_set doc" and "distinct (map fst entries)"
    and "\<forall>(c, p) \<in> set entries. fst c \<noteq> KEY_VALUE \<and> (\<forall>q. p = Some q \<longrightarrow> fst q \<noteq> KEY_VALUE)"
  shows "item_at (fold finish_entry entries doc) q = map_option (finished entries q) (item_at doc q)
    \<and> kinds_set (fold finish_entry entries doc)"
  using assms
proof (induction entries arbitrary: doc)
  case Nil
  have "finished [] q = (\<lambda>b. b)" by (auto simp: finished_def fun_eq_iff)
  with Nil show ?case by (simp add: option.map_ident)
next
  case (Cons e es)
  obtain c par where e: "e = (c, par)" by fastforce
  have c: "fst c \<noteq> KEY_VALUE" and fresh: "map_of es c = None"
    using Cons.prems(2,3) e by (auto simp: map_of_eq_None_iff)
  show ?case
  proof (cases par)
    case None
    have "finished ((c, None) # es) q = finished es q" using fresh by (auto simp: finished_def fun_eq_iff)
    with Cons e None show ?thesis by (simp add: finish_entry_def)
  next
    case (Some p)
    have p: "fst p \<noteq> KEY_VALUE" using Cons.prems(3) e Some by (cases p) auto
    define d1 where "d1 = stamp_nested (ref_name c) (ref_name p) c doc"
    define d2 where "d2 = join_parent (ref_name c) p d1"
    have k: "kinds_set d1" "kinds_set d2"
      by (simp_all add: d1_def d2_def kinds_set_nested kinds_set_join Cons.prems(1))
    have f: "finish_entry (c, Some p) doc = d2" by (simp add: finish_entry_def d1_def d2_def ref_name_def)
    have "item_at d2 q = map_option (\<lambda>b. (if q = p then add_child_ref (ref_name c) else (\<lambda>b. b))
        ((if q = c then stamp_item (ref_name c) (ref_name p) else (\<lambda>b. b)) b)) (item_at doc q)"
      using item_at_join [OF k(1) p] item_at_stamp [OF Cons.prems(1) c]
      by (simp add: d1_def d2_def option.map_comp comp_def option.map_ident)
    moreover have "finished es q ((if q = p then add_child_ref (ref_name c) else (\<lambda>b. b))
        ((if q = c then stamp_item (ref_name c) (ref_name p) else (\<lambda>b. b)) b)) = finished ((c, Some p) # es) q b" for b
      using fresh by (auto simp: finished_def add_child_ref_def stamp_item_def split: option.splits)
    ultimately show ?thesis
      using Cons.IH [OF k(2)] Cons.prems(2,3) e Some by (simp add: f option.map_comp comp_def)
  qed
qed

lemma stamp_child_nested:
  assumes "fst c \<noteq> KEY_VALUE"
  shows "stamp_child c doc = (stamp_nested (ref_name c) kBody c doc)\<lparr>doc_body :=
    (doc_body doc)\<lparr>it_children := it_children (doc_body doc) @ [ref_name c]\<rparr>\<rparr>"
  using assms by (cases c; cases "fst c") (simp_all add: stamp_child_def stamp_nested_def ref_name_def Let_def)

lemma item_at_body [simp]: "item_at (doc\<lparr>doc_body := b\<rparr>) = item_at doc" "item_at (doc\<lparr>doc_pages := m\<rparr>) = item_at doc"
  "item_at (doc\<lparr>doc_name := n\<rparr>) = item_at doc" "item_at (doc\<lparr>doc_version := n\<rparr>) = item_at doc"
  "item_at (doc\<lparr>doc_schema_name := n\<rparr>) = item_at doc"
  by (simp_all add: item_at_def fun_eq_iff split: child_kind.split)

lemma kinds_set_body [simp]: "kinds_set (doc\<lparr>doc_body := b\<rparr>) = kinds_set doc"
  "kinds_set (doc\<lparr>doc_pages := m\<rparr>) = kinds_set doc"
  "kinds_set (doc\<lparr>doc_name := n\<rparr>) = kinds_set doc" "kinds_set (doc\<lparr>doc_version := n\<rparr>) = kinds_set doc"
  "kinds_set (doc\<lparr>doc_schema_name := n\<rparr>) = kinds_set doc"
  by (simp_all add: kinds_set_def)

lemma item_at_stamp_child:
  assumes "kinds_set doc"
  shows "item_at (stamp_child c doc) q = (if q = c then map_option (stamp_item (ref_name c) kBody) (item_at doc q) else item_at doc q)"
proof -
  obtain k i where c: "c = (k, i)" by fastforce
  obtain k' i' where q: "q = (k', i')" by fastforce
  show ?thesis
    using assms
    by (cases k; cases k')
      (auto simp: c q stamp_child_def ref_name_def item_views option.map_comp comp_def truncate_stamp truncate_stamp_text Let_def
        dest: nth_option_kind intro!: option.map_cong)
qed

lemma stamp_child_self: "it_self_ref (doc_body (stamp_child c doc)) = it_self_ref (doc_body doc)"
  by (rule stamp_child_frame)

lemma stamp_children:
  assumes "kinds_set doc"
  shows "item_at (fold stamp_child order doc) q
      = (if q \<in> set order then map_option (stamp_item (ref_name q) kBody) (item_at doc q) else item_at doc q)
    \<and> kinds_set (fold stamp_child order doc)
    \<and> it_children (doc_body (fold stamp_child order doc)) = it_children (doc_body doc) @ map ref_name order
    \<and> it_self_ref (doc_body (fold stamp_child order doc)) = it_self_ref (doc_body doc)"
  using assms
proof (induction order arbitrary: doc)
  case (Cons c order)
  have "stamp_item s p (stamp_item s p b) = stamp_item s p b" for s p and b :: item_base
    by (simp add: stamp_item_def)
  then show ?case
    using Cons.IH [OF kinds_set_stamp [OF Cons.prems]]
    by (auto simp: option.map_comp comp_def item_at_stamp_child [OF Cons.prems] stamp_child_children stamp_child_self ref_name_def)
qed simp

lemma finalize_ordered_items:
  assumes "kinds_set doc" and "it_children (doc_body doc) = []"
  shows "item_at (finalize_ordered page order doc) q
      = (if q \<in> set order then map_option (stamp_item (ref_name q) kBody) (item_at doc q) else item_at doc q)
    \<and> kinds_set (finalize_ordered page order doc)
    \<and> it_children (doc_body (finalize_ordered page order doc)) = map ref_name order
    \<and> it_self_ref (doc_body (finalize_ordered page order doc)) = kBody"
proof -
  define doc1 where "doc1 = doc\<lparr>doc_schema_name := ''docling_document_v2'', doc_version := ''1.10.0'',
     doc_name := ''page-'' @ show_nat (pg_no page),
     doc_body := (doc_body doc)\<lparr>it_self_ref := kBody, it_layer := CONTENT_LAYER_BODY,
       gr_alternatives := (case pg_alternatives page of None \<Rightarrow> gr_alternatives (doc_body doc) | Some a \<Rightarrow> Some a)\<rparr>\<rparr>"
  have k: "kinds_set doc1" "item_at doc1 = item_at doc" "it_children (doc_body doc1) = []"
    "it_self_ref (doc_body doc1) = kBody"
    using assms by (simp_all add: doc1_def)
  obtain m where "finalize_ordered page order doc = (fold stamp_child order doc1)\<lparr>doc_pages := m\<rparr>"
    unfolding finalize_ordered_def Let_def doc1_def by blast
  with stamp_children [OF k(1), of order q] k show ?thesis by simp
qed

lemma finish_entry_body: "doc_body (fold finish_entry es doc) = doc_body doc"
proof (induction es arbitrary: doc)
  case (Cons e es)
  have "doc_body (stamp_nested s p c doc) = doc_body doc" "doc_body (join_parent s c doc) = doc_body doc" for s p c doc
    by (cases c; cases "fst c"; simp add: stamp_nested_def join_parent_def)+
  then show ?case using Cons by (auto simp: finish_entry_def split: prod.splits option.splits)
qed simp

section \<open>The invariant of the writer\<close>

definition sound :: "page_context \<Rightarrow> document \<Rightarrow> bool" where
  "sound page doc \<longleftrightarrow> attributed page doc \<and> (\<forall>r \<in> set (doc_field_regions doc). stamped page r)"

text \<open>
  Entries and items correspond one to one; a parent is an entry made before; nothing is
  stamped yet; the body's children and the counts are those of the entries.
\<close>

definition writer_ok :: "page_context \<Rightarrow> writer \<Rightarrow> bool" where
  "writer_ok page w \<longleftrightarrow>
     distinct (map fst (lw_entries w))
     \<and> (\<forall>c. c \<in> fst ` set (lw_entries w) \<longleftrightarrow> item_at (lw_doc w) c \<noteq> None)
     \<and> (\<forall>c b. item_at (lw_doc w) c = Some b \<longrightarrow> it_children b = [] \<and> fst c \<noteq> KEY_VALUE)
     \<and> (\<forall>i < length (lw_entries w). \<forall>p. snd (lw_entries w ! i) = Some p \<longrightarrow> p \<in> fst ` set (take i (lw_entries w)))
     \<and> lw_body w = kids (lw_entries w) None
     \<and> (\<forall>c. children_of w c = length (kids (lw_entries w) (Some c)))
     \<and> it_children (doc_body (lw_doc w)) = [] \<and> gr_alternatives (doc_body (lw_doc w)) = None
     \<and> sound page (lw_doc w)"

definition parent_ok :: "writer \<Rightarrow> lref \<Rightarrow> bool" where
  "parent_ok w parent \<longleftrightarrow> (\<forall>p. parent = Some p \<longrightarrow> p \<in> fst ` set (lw_entries w))"

lemma new_writer_ok: "writer_ok page (new_writer page)"
  by (auto simp: writer_ok_def new_writer_def empty_document_def empty_group_def item_at_def nth_option_def
      children_of_def sound_def attributed_def split: child_kind.splits)

lemma sound_kinds: "sound page doc \<Longrightarrow> kinds_set doc"
  by (simp add: sound_def attributed_def kinds_set_def)

text \<open>One more item, the rest as before.\<close>

definition one_more :: "page_context \<Rightarrow> document \<Rightarrow> body_child \<Rightarrow> document \<Rightarrow> bool" where
  "one_more page doc c doc' \<longleftrightarrow>
     item_at doc c = None \<and> fst c \<noteq> KEY_VALUE
     \<and> (\<exists>b. it_children b = [] \<and> item_at doc' = (item_at doc)(c \<mapsto> b))
     \<and> doc_body doc' = doc_body doc \<and> (sound page doc \<longrightarrow> sound page doc')"

lemma children_of_add:
  "children_of (snd (add_entry k n parent w)) c = children_of w c + (if parent = Some c then 1 else 0)"
  by (auto simp: children_of_def add_entry_def split: option.splits)

lemma add_entry_simps [simp]:
  "lw_doc (snd (add_entry k n parent w)) = lw_doc w"
  "lw_entries (snd (add_entry k n parent w)) = lw_entries w @ [((k, n), parent)]"
  "lw_body (snd (add_entry k n parent w)) = lw_body w @ (if parent = None then [(k, n)] else [])"
  "lw_raster (snd (add_entry k n parent w)) = lw_raster w"
  "fst (add_entry k n parent w) = (k, n)"
  by (auto simp: add_entry_def split: option.splits)

lemma kids_snoc [simp]: "kids (es @ [(c, q)]) p = kids es p @ (if q = p then [c] else [])"
  by (simp add: kids_def)

lemma children_of_doc [simp]: "children_of (w\<lparr>lw_doc := d\<rparr>) = children_of w"
  by (simp add: children_of_def fun_eq_iff)

lemma add_entry_ok:
  assumes "writer_ok page w" and "parent_ok w parent" and "one_more page (lw_doc w) (k, n) doc"
  shows "writer_ok page (snd (add_entry k n parent (w\<lparr>lw_doc := doc\<rparr>)))"
proof -
  let ?w = "snd (add_entry k n parent (w\<lparr>lw_doc := doc\<rparr>))"
  obtain b where b: "it_children b = []" "item_at doc = (item_at (lw_doc w))((k, n) \<mapsto> b)"
    "item_at (lw_doc w) (k, n) = None" "k \<noteq> KEY_VALUE" "doc_body doc = doc_body (lw_doc w)" "sound page doc"
    using assms(1,3) by (auto simp: one_more_def writer_ok_def)
  have new: "(k, n) \<notin> fst ` set (lw_entries w)" using assms(1) b(3) by (auto simp: writer_ok_def)
  have par: "p \<in> fst ` set (take i (lw_entries ?w))" if "i < length (lw_entries ?w)" "snd (lw_entries ?w ! i) = Some p" for i p
  proof (cases "i < length (lw_entries w)")
    case True
    with that assms(1) show ?thesis by (auto simp: writer_ok_def nth_append simp del: split_paired_All)
  next
    case False
    then have "i = length (lw_entries w)" using that(1) by simp
    with that(2) assms(2) show ?thesis by (simp add: parent_ok_def)
  qed
  have counts: "children_of ?w c = length (kids (lw_entries ?w) (Some c))" for c
    using assms(1) by (simp add: children_of_add writer_ok_def del: split_paired_All)
  show ?thesis
    unfolding writer_ok_def
  proof (intro conjI allI impI)
    fix i p assume "i < length (lw_entries ?w)" "snd (lw_entries ?w ! i) = Some p"
    then show "p \<in> fst ` set (take i (lw_entries ?w))" by (rule par)
  qed (use assms(1) b new counts in \<open>auto simp: writer_ok_def simp del: split_paired_All split: if_splits\<close>)
qed

text \<open>Items as before but for their contents.\<close>

definition same_items :: "page_context \<Rightarrow> document \<Rightarrow> document \<Rightarrow> bool" where
  "same_items page doc doc' \<longleftrightarrow>
     (\<forall>c. map_option it_children (item_at doc' c) = map_option it_children (item_at doc c))
     \<and> doc_body doc' = doc_body doc \<and> (sound page doc \<longrightarrow> sound page doc')"

lemma same_items_refl [simp]: "same_items page doc doc"
  by (simp add: same_items_def)

lemma edit_ok:
  assumes "writer_ok page w" and "same_items page (lw_doc w) (lw_doc w')"
    and "lw_entries w' = lw_entries w" and "lw_body w' = lw_body w" and "lw_child_counts w' = lw_child_counts w"
  shows "writer_ok page w'"
proof -
  have c: "children_of w' = children_of w" using assms(5) by (simp add: children_of_def fun_eq_iff)
  have same: "map_option it_children (item_at (lw_doc w') x) = map_option it_children (item_at (lw_doc w) x)" for x
    using assms(2) unfolding same_items_def by blast
  have none: "item_at (lw_doc w') x \<noteq> None \<longleftrightarrow> item_at (lw_doc w) x \<noteq> None" for x
    using same [of x] by (metis option.map_disc_iff)
  have kids: "it_children b = [] \<and> fst x \<noteq> KEY_VALUE" if x: "item_at (lw_doc w') x = Some b" for x b
  proof -
    have "item_at (lw_doc w) x \<noteq> None" using none [of x] x by simp
    then obtain a where a: "item_at (lw_doc w) x = Some a" by blast
    then have "it_children a = [] \<and> fst x \<noteq> KEY_VALUE" using assms(1) unfolding writer_ok_def by blast
    with same [of x] a x show ?thesis by simp
  qed
  have "doc_body (lw_doc w') = doc_body (lw_doc w)" "sound page (lw_doc w')"
    using assms(1,2) unfolding same_items_def writer_ok_def by blast+
  with kids assms(1) show ?thesis
    unfolding writer_ok_def c assms(3,4) none by simp
qed

section \<open>The operations keep the invariant\<close>

text \<open>What every operation that writes an item promises its callers.\<close>

locale item_writer =
  fixes write_item :: "page_context \<Rightarrow> lref \<Rightarrow> writer \<Rightarrow> body_child \<times> writer"
  assumes writes: "writer_ok page w \<Longrightarrow> parent_ok w parent \<Longrightarrow> write_item page parent w = (c, w') \<Longrightarrow>
      writer_ok page w' \<and> lw_entries w' = lw_entries w @ [(c, parent)]"
begin

lemma written:
  assumes "writer_ok page w" and "parent_ok w parent" and "write_item page parent w = (c, w')"
  shows "writer_ok page w'" and "parent_ok w' (Some c)" and "\<And>q. parent_ok w q \<Longrightarrow> parent_ok w' q"
  using writes [OF assms] by (auto simp: parent_ok_def)

end

lemma nth_option_snoc: "nth_option (xs @ [x]) i = (if i = length xs then Some x else nth_option xs i)"
  by (auto simp: nth_option_def nth_append)

lemma nth_option_beyond: "nth_option xs (length xs) = None"
  by (simp add: nth_option_def)

lemma layout_prov_page: "pv_page_no (layout_prov page box n) = to_int32 (pg_no page)"
  by (simp add: layout_prov_def make_prov_def)

lemma one_moreI:
  assumes "item_at doc' = (item_at doc)(c \<mapsto> b)" and "it_children b = []" and "item_at doc c = None"
    and "fst c \<noteq> KEY_VALUE" and "doc_body doc' = doc_body doc" and "sound page doc \<Longrightarrow> sound page doc'"
  shows "one_more page doc c doc'"
  unfolding one_more_def using assms by blast

lemma truncate_children [simp]: "it_children (item_base.truncate b) = it_children b"
  by (simp add: item_base.defs)

lemma one_more_text:
  assumes "it_children item = []" and "stamped page item" and "tx_kind item \<noteq> KNotSet"
  shows "one_more page doc (TEXT, length (doc_texts doc)) (push_text item doc)"
proof (rule one_moreI)
  show "item_at (push_text item doc) = (item_at doc)((TEXT, length (doc_texts doc)) \<mapsto> item_base.truncate item)"
    by (auto simp: item_at_def push_text_def nth_option_snoc fun_eq_iff split: child_kind.split)
qed (use assms in \<open>auto simp: item_at_def nth_option_def sound_def attributed_def push_text_def\<close>)

lemma enter_text_ok:
  assumes "writer_ok page w" and "parent_ok w parent" and "enter_text parent (push_text item (lw_doc w)) w = (c, w')"
    and "it_children item = []" and "stamped page item" and "tx_kind item \<noteq> KNotSet"
  shows "writer_ok page w' \<and> lw_entries w' = lw_entries w @ [(c, parent)]"
proof -
  let ?d = "push_text item (lw_doc w)" let ?n = "length (doc_texts (lw_doc w))"
  have "one_more page (lw_doc w) (TEXT, ?n) ?d" by (rule one_more_text [OF assms(4-6)])
  from add_entry_ok [OF assms(1,2) this] have "writer_ok page (snd (add_entry TEXT ?n parent (w\<lparr>lw_doc := ?d\<rparr>)))" .
  moreover have "add_entry TEXT ?n parent (w\<lparr>lw_doc := ?d\<rparr>) = (c, w')"
    using assms(3) by (simp add: enter_text_def push_text_def)
  ultimately show ?thesis
    using add_entry_simps(2) [of TEXT ?n parent "w\<lparr>lw_doc := ?d\<rparr>"] add_entry_simps(5) [of TEXT ?n parent "w\<lparr>lw_doc := ?d\<rparr>"]
    by simp
qed

lemma stamped_base: "stamped page (fill_text_base page label (layout_prov page box n) kind t)"
  by (simp add: stamped_def fill_text_base_def layout_prov_page)

lemma map_last_push: "map_last_text f (push_text item doc) = push_text (f item) doc"
  by (simp add: map_last_text_def push_text_def at_index_def)

lemma stamp_layer_keeps: "stamped page item \<Longrightarrow> stamped page (stamp_layer label item)"
  "it_children (stamp_layer label item) = it_children item" "tx_kind (stamp_layer label item) = tx_kind item"
  by (simp_all add: stamp_layer_def stamped_def)

lemma base_facts: "it_children (fill_text_base page label prov kind t) = []" "tx_kind (fill_text_base page label prov kind t) = kind"
  by (simp_all add: fill_text_base_def)

lemmas text_writers = write_text_def write_title_def write_heading_def write_formula_def write_code_def
  write_list_item_def write_field_value_def add_text_def add_title_def add_section_header_def add_formula_def
  add_code_def add_list_item_def map_last_push

interpretation text_writer: item_writer "\<lambda>page. write_text page label box body" for label box body
  by unfold_locales (unfold text_writers, erule (2) enter_text_ok, simp_all add: base_facts stamp_layer_keeps stamped_base)

interpretation title_writer: item_writer "\<lambda>page. write_title page box body" for box body
  by unfold_locales (unfold text_writers, erule (2) enter_text_ok, simp_all add: base_facts stamped_base)

interpretation heading_writer: item_writer "\<lambda>page. write_heading page level box body" for level box body
  by unfold_locales (unfold text_writers, erule (2) enter_text_ok, simp_all add: base_facts stamped_base)

interpretation formula_writer: item_writer "\<lambda>page. write_formula page box body" for box body
  by unfold_locales (unfold text_writers, erule (2) enter_text_ok, simp_all add: base_facts stamped_base)

interpretation code_writer: item_writer "\<lambda>page. write_code page box body lang" for box body lang
  by unfold_locales (unfold text_writers, erule (2) enter_text_ok, simp_all add: base_facts stamped_base)

interpretation list_item_writer: item_writer "\<lambda>page. write_list_item page box body enum marker" for box body enum marker
  by unfold_locales (unfold text_writers, erule (2) enter_text_ok, simp_all add: base_facts stamped_base)

interpretation field_value_writer: item_writer "\<lambda>page. write_field_value page box body" for box body
  by unfold_locales (unfold text_writers, erule (2) enter_text_ok, simp_all add: base_facts stamped_base)

text \<open>Groups, field regions, pictures and tables.\<close>

lemma one_more_group:
  "it_children g = [] \<Longrightarrow>
    one_more page doc (GROUP, length (doc_groups doc)) (doc\<lparr>doc_groups := doc_groups doc @ [g]\<rparr>)"
  by (rule one_moreI [where b = "item_base.truncate g"])
    (auto simp: item_at_def nth_option_snoc nth_option_beyond fun_eq_iff sound_def attributed_def split: child_kind.split)

lemma one_more_region:
  "it_children r = [] \<Longrightarrow> stamped page r \<Longrightarrow>
    one_more page doc (FIELD_REGION, length (doc_field_regions doc)) (doc\<lparr>doc_field_regions := doc_field_regions doc @ [r]\<rparr>)"
  by (rule one_moreI [where b = r])
    (auto simp: item_at_def nth_option_snoc nth_option_beyond fun_eq_iff sound_def attributed_def split: child_kind.split)

lemma one_more_picture:
  "it_children p = [] \<Longrightarrow> stamped page p \<Longrightarrow>
    one_more page doc (PICTURE, length (doc_pictures doc)) (doc\<lparr>doc_pictures := doc_pictures doc @ [p]\<rparr>)"
  by (rule one_moreI [where b = "item_base.truncate p"])
    (auto simp: item_at_def nth_option_snoc nth_option_beyond fun_eq_iff sound_def attributed_def split: child_kind.split)

lemma one_more_table:
  "it_children t = [] \<Longrightarrow> stamped page t \<Longrightarrow> table_ok (tl_data t) \<Longrightarrow>
    one_more page doc (TABLE, length (doc_tables doc)) (doc\<lparr>doc_tables := doc_tables doc @ [t]\<rparr>)"
  by (rule one_moreI [where b = "item_base.truncate t"])
    (auto simp: item_at_def nth_option_snoc nth_option_beyond fun_eq_iff sound_def attributed_def split: child_kind.split)

lemma add_entry_writes:
  assumes "writer_ok page w" and "parent_ok w parent" and "one_more page (lw_doc w) (k, n) doc"
    and "add_entry k n parent (w\<lparr>lw_doc := doc\<rparr>) = (c, w')"
  shows "writer_ok page w' \<and> lw_entries w' = lw_entries w @ [(c, parent)]"
  using add_entry_ok [OF assms(1-3)] assms(4)
    add_entry_simps(2) [of k n parent "w\<lparr>lw_doc := doc\<rparr>"] add_entry_simps(5) [of k n parent "w\<lparr>lw_doc := doc\<rparr>"]
  by simp

interpretation group_writer: item_writer "\<lambda>page. write_group name label" for name label
  by unfold_locales
    (unfold write_group_def Let_def, erule (1) add_entry_writes, rule one_more_group, simp_all add: empty_group_def)

interpretation list_group_writer: item_writer "\<lambda>page. write_list_group"
  unfolding write_list_group_def by (rule group_writer.item_writer_axioms)

interpretation inline_group_writer: item_writer "\<lambda>page. write_inline_group"
  unfolding write_inline_group_def by (rule group_writer.item_writer_axioms)

interpretation field_region_writer: item_writer "\<lambda>page. write_field_region page box" for box
  by unfold_locales
    (unfold write_field_region_def Let_def, erule (1) add_entry_writes, rule one_more_region,
      simp_all add: stamped_def layout_prov_page)

text \<open>The writer may change elsewhere before the entry is made.\<close>

lemma add_entry_writes_on:
  assumes "writer_ok page w" and "parent_ok w parent" and "one_more page (lw_doc w) (k, n) (lw_doc v)"
    and "lw_entries v = lw_entries w" and "lw_body v = lw_body w" and "lw_child_counts v = lw_child_counts w"
    and "add_entry k n parent v = (c, w')"
  shows "writer_ok page w' \<and> lw_entries w' = lw_entries w @ [(c, parent)]"
proof -
  have "writer_ok page (v\<lparr>lw_doc := lw_doc w\<rparr>)"
    by (rule edit_ok [OF assms(1)]) (simp_all add: same_items_def assms(4-6))
  moreover have "parent_ok (v\<lparr>lw_doc := lw_doc w\<rparr>) parent" using assms(2,4) by (simp add: parent_ok_def)
  ultimately show ?thesis
    using add_entry_writes [of page "v\<lparr>lw_doc := lw_doc w\<rparr>" parent k n "lw_doc v" c w'] assms(3,4,7) by simp
qed

lemma attach_crop_keeps:
  assumes "lw_doc w = doc\<lparr>doc_pictures := ps @ [p]\<rparr>"
  shows "\<exists>img. lw_doc (attach_crop lib rnd page box w) = doc\<lparr>doc_pictures := ps @ [p\<lparr>pc_image := img\<rparr>]\<rparr>"
    and "lw_entries (attach_crop lib rnd page box w) = lw_entries w"
    and "lw_body (attach_crop lib rnd page box w) = lw_body w"
    and "lw_child_counts (attach_crop lib rnd page box w) = lw_child_counts w"
proof -
  have same: "\<exists>img. lw_doc w = doc\<lparr>doc_pictures := ps @ [p\<lparr>pc_image := img\<rparr>]\<rparr>"
    using assms by (intro exI [of _ "pc_image p"]) simp
  have "\<exists>img. map_last_picture (\<lambda>p. p\<lparr>pc_image := i\<rparr>) (lw_doc w) = doc\<lparr>doc_pictures := ps @ [p\<lparr>pc_image := img\<rparr>]\<rparr>" for i
    using assms by (intro exI [of _ i]) (simp add: map_last_picture_def at_index_def)
  with same show "\<exists>img. lw_doc (attach_crop lib rnd page box w) = doc\<lparr>doc_pictures := ps @ [p\<lparr>pc_image := img\<rparr>]\<rparr>"
    by (simp add: attach_crop_def Let_def split: option.split prod.split crop_result.split)
qed (simp_all add: attach_crop_def Let_def split: option.split prod.split crop_result.split)

interpretation picture_writer: item_writer "\<lambda>page. write_picture lib rnd page box" for lib rnd box
proof
  fix page w parent c w'
  assume ok: "writer_ok page w" "parent_ok w parent" and w': "write_picture lib rnd page box parent w = (c, w')"
  define v where "v = attach_crop lib rnd page box (w\<lparr>lw_doc := add_picture page (layout_prov page box 0) (lw_doc w)\<rparr>)"
  obtain p where p: "add_picture page (layout_prov page box 0) (lw_doc w) = (lw_doc w)\<lparr>doc_pictures := doc_pictures (lw_doc w) @ [p]\<rparr>"
    "it_children p = []" "stamped page p"
    by (rule that [OF add_picture_def]) (simp_all add: stamped_def layout_prov_page)
  have pushed: "lw_doc (w\<lparr>lw_doc := add_picture page (layout_prov page box 0) (lw_doc w)\<rparr>)
      = (lw_doc w)\<lparr>doc_pictures := doc_pictures (lw_doc w) @ [p]\<rparr>" using p(1) by simp
  note keeps = attach_crop_keeps [OF pushed, of lib rnd page box, folded v_def]
  obtain img where img: "lw_doc v = (lw_doc w)\<lparr>doc_pictures := doc_pictures (lw_doc w) @ [p\<lparr>pc_image := img\<rparr>]\<rparr>"
    using keeps(1) by blast
  show "writer_ok page w' \<and> lw_entries w' = lw_entries w @ [(c, parent)]"
  proof (rule add_entry_writes_on [OF ok])
    show "one_more page (lw_doc w) (PICTURE, length (doc_pictures (lw_doc w))) (lw_doc v)"
      unfolding img by (rule one_more_picture) (use p(2,3) in \<open>simp_all add: stamped_def\<close>)
    show "add_entry PICTURE (length (doc_pictures (lw_doc w))) parent v = (c, w')"
      using w' img by (simp add: write_picture_def flip: v_def)
  qed (simp_all add: keeps(2-4))
qed

text \<open>Edits that keep what makes an item attributed.\<close>

definition keeps_text :: "page_context \<Rightarrow> (text_item \<Rightarrow> text_item) \<Rightarrow> bool" where
  "keeps_text page f \<longleftrightarrow> (\<forall>t. it_children (f t) = it_children t \<and> (stamped page t \<longrightarrow> stamped page (f t))
     \<and> (tx_kind t \<noteq> KNotSet \<longrightarrow> tx_kind (f t) \<noteq> KNotSet))"

lemma same_texts: "keeps_text page f \<Longrightarrow> same_items page doc (doc\<lparr>doc_texts := at_index i f (doc_texts doc)\<rparr>)"
  by (auto simp: same_items_def keeps_text_def item_at_def nth_option_at_index option.map_comp comp_def sound_def
      attributed_def dest!: set_at_index split: child_kind.split intro!: option.map_cong)

lemma same_pictures:
  assumes "\<And>p. it_children (f p) = it_children p" and "\<And>p. stamped page p \<Longrightarrow> stamped page (f p)"
  shows "same_items page doc (doc\<lparr>doc_pictures := at_index i f (doc_pictures doc)\<rparr>)"
  using assms by (auto simp: same_items_def item_at_def nth_option_at_index option.map_comp comp_def sound_def
      attributed_def dest!: set_at_index split: child_kind.split intro!: option.map_cong)

lemma same_tables:
  assumes "\<And>t. it_children (f t) = it_children t" and "\<And>t. stamped page t \<Longrightarrow> stamped page (f t)"
    and "\<And>t. table_ok (tl_data t) \<Longrightarrow> table_ok (tl_data (f t))"
  shows "same_items page doc (doc\<lparr>doc_tables := at_index i f (doc_tables doc)\<rparr>)"
  using assms by (auto simp: same_items_def item_at_def nth_option_at_index option.map_comp comp_def sound_def
      attributed_def dest!: set_at_index split: child_kind.split intro!: option.map_cong)

text \<open>What every operation that only changes items promises its callers.\<close>

locale item_editor =
  fixes edit_item :: "page_context \<Rightarrow> writer \<Rightarrow> writer"
  assumes edits: "writer_ok page w \<Longrightarrow> writer_ok page (edit_item page w) \<and> lw_entries (edit_item page w) = lw_entries w"
begin

lemma edited:
  assumes "writer_ok page w"
  shows "writer_ok page (edit_item page w)" and "parent_ok w q \<Longrightarrow> parent_ok (edit_item page w) q"
  using edits [OF assms] by (auto simp: parent_ok_def)

end

lemma stamped_edits [simp]: "stamped page (p\<lparr>pc_meta := m\<rparr>) = stamped page p"
  "stamped page (p\<lparr>pc_annotations := a\<rparr>) = stamped page p" "stamped page (p\<lparr>pc_captions := r\<rparr>) = stamped page p"
  "stamped page (p\<lparr>pc_footnotes := r\<rparr>) = stamped page p" "stamped page (t\<lparr>tl_captions := r\<rparr>) = stamped page t"
  "stamped page (t\<lparr>tl_footnotes := r\<rparr>) = stamped page t" "stamped page (t\<lparr>tl_data := d\<rparr>) = stamped page t"
  by (simp_all add: stamped_def)

lemma edit_entries [simp]: "lw_entries (edit_text ref f w) = lw_entries w"
  "lw_entries (edit_picture ref g w) = lw_entries w" "lw_entries (edit_table ref h w) = lw_entries w"
  by (simp_all add: edit_text_def edit_picture_def edit_table_def)

lemma edit_text_ok:
  assumes "writer_ok page w" and "keeps_text page f"
  shows "writer_ok page (edit_text ref f w)"
  by (rule edit_ok [OF assms(1)]) (simp_all add: edit_text_def same_texts [OF assms(2)])

lemma keeps_text_edits:
  "keeps_text page (add_style fmt link)" "keeps_text page (retext body fmt link)"
  "keeps_text page (\<lambda>item. if is_code item \<or> has_base item then item\<lparr>tx_orig := body\<rparr> else item)"
  "keeps_text page (\<lambda>item. case tx_kind item of KSectionHeader _ \<Rightarrow> item\<lparr>tx_kind := KSectionHeader level\<rparr> | _ \<Rightarrow> item)"
  "layer \<noteq> CONTENT_LAYER_UNSPECIFIED \<Longrightarrow>
     keeps_text page (\<lambda>item. if is_code item \<or> has_base item then item\<lparr>it_layer := layer\<rparr> else item)"
  "keeps_text page (\<lambda>t. if is_code t then t\<lparr>tx_captions := cs\<rparr> else t)"
  by (auto simp: keeps_text_def add_style_def retext_def set_span_end_def stamped_def split: text_kind.split)

interpretation text_setter: item_editor "\<lambda>page. set_text ref body fmt link" for ref body fmt link
  by unfold_locales (simp add: set_text_def edit_text_ok keeps_text_edits)

interpretation orig_setter: item_editor "\<lambda>page. set_orig ref body" for ref body
  by unfold_locales (simp add: set_orig_def edit_text_ok keeps_text_edits)

interpretation level_setter: item_editor "\<lambda>page. set_heading_level i level" for i level
  by unfold_locales (simp add: set_heading_level_def edit_text_ok keeps_text_edits)

lemma set_content_layer_ok:
  assumes ok: "writer_ok page w" and layer: "layer \<noteq> CONTENT_LAYER_UNSPECIFIED"
  shows "writer_ok page (set_content_layer ref layer w) \<and> lw_entries (set_content_layer ref layer w) = lw_entries w"
proof -
  let ?w = "w\<lparr>lw_doc := (lw_doc w)\<lparr>doc_groups :=
      at_index (snd ref) (\<lambda>g. g\<lparr>it_layer := layer\<rparr>) (doc_groups (lw_doc w))\<rparr>\<rparr>"
  have "same_items page (lw_doc w) (lw_doc ?w)"
    by (auto simp: same_items_def item_at_def nth_option_at_index option.map_comp comp_def sound_def
      attributed_def split: child_kind.split intro!: option.map_cong)
  then have "writer_ok page ?w" by (rule edit_ok [OF ok]) simp_all
  with ok edit_text_ok [OF ok keeps_text_edits(5) [OF layer]] show ?thesis
    by (simp add: set_content_layer_def split: child_kind.split)
qed

lemma edit_picture_ok:
  assumes "writer_ok page w" and "\<And>p. it_children (f p) = it_children p" and "\<And>p. stamped page p \<Longrightarrow> stamped page (f p)"
  shows "writer_ok page (edit_picture ref f w)"
  by (rule edit_ok [OF assms(1)]) (simp_all add: edit_picture_def same_pictures assms(2,3))

lemma edit_table_ok:
  assumes "writer_ok page w" and "\<And>t. it_children (f t) = it_children t" and "\<And>t. stamped page t \<Longrightarrow> stamped page (f t)"
    and "\<And>t. table_ok (tl_data t) \<Longrightarrow> table_ok (tl_data (f t))"
  shows "writer_ok page (edit_table ref f w)"
  by (rule edit_ok [OF assms(1)]) (simp_all add: edit_table_def same_tables assms(2-4))

lemma note_ok: "writer_ok page (w\<lparr>lw_warnings := ws\<rparr>) = writer_ok page w"
  by (simp add: writer_ok_def children_of_def)

interpretation picture_describer: item_editor "\<lambda>page. describe_picture ref d creator" for ref d creator
  by unfold_locales (simp add: describe_picture_def edit_picture_ok)

interpretation picture_classifier: item_editor "\<lambda>page. classify_picture ref d creator" for ref d creator
  by unfold_locales (simp add: classify_picture_def edit_picture_ok)

interpretation molecule_setter: item_editor "\<lambda>page. set_molecule ref d creator" for ref d creator
  by unfold_locales (simp add: set_molecule_def edit_picture_ok)

interpretation chart_setter: item_editor "\<lambda>page. set_tabular_chart ref d rows creator" for ref d rows creator
  by unfold_locales
    (simp add: set_tabular_chart_def edit_picture_ok note_ok split: prod.split)

lemma keeps_caption: "keeps_text page (\<lambda>t. if is_code t then t\<lparr>tx_captions := tx_captions t @ [r]\<rparr> else t)"
  "keeps_text page (\<lambda>t. if is_code t then t\<lparr>tx_footnotes := tx_footnotes t @ [r]\<rparr> else t)"
  by (auto simp: keeps_text_def stamped_def)

interpretation caption_linker: item_editor "\<lambda>page. link_caption owner caption" for owner caption
  by unfold_locales
    (simp add: link_caption_def Let_def edit_picture_ok edit_table_ok edit_text_ok keeps_caption
      split: child_kind.split)

interpretation footnote_linker: item_editor "\<lambda>page. link_footnote owner item" for owner item
  by unfold_locales
    (simp add: link_footnote_def Let_def edit_picture_ok edit_table_ok edit_text_ok keeps_caption
      split: child_kind.split)

interpretation adjacent_linker: item_editor "\<lambda>page. link_adjacent_captions starts blocks code_owners" for starts blocks code_owners
proof
  fix page w assume "writer_ok page w"
  then show "writer_ok page (link_adjacent_captions starts blocks code_owners w)
    \<and> lw_entries (link_adjacent_captions starts blocks code_owners w) = lw_entries w"
  proof (induction blocks arbitrary: w)
    case (Cons i blocks)
    have "writer_ok page (link_adjacent_caption starts code_owners i w)
      \<and> lw_entries (link_adjacent_caption starts code_owners i w) = lw_entries w"
      using Cons.prems caption_linker.edits [OF Cons.prems]
      by (simp add: link_adjacent_caption_def split: option.split list.split)
    with Cons.IH show ?case by (simp add: link_adjacent_captions_def)
  qed (simp add: link_adjacent_captions_def)
qed

interpretation table_writer: item_writer "\<lambda>page. write_table byte_size page box cells" for byte_size box cells
proof
  fix page w parent c w'
  assume ok: "writer_ok page w" "parent_ok w parent" and w': "write_table byte_size page box cells parent w = (c, w')"
  obtain t where t: "add_table page (layout_prov page box 0) (lw_doc w) = (lw_doc w)\<lparr>doc_tables := doc_tables (lw_doc w) @ [t]\<rparr>"
    "it_children t = []" "stamped page t" "table_ok (tl_data t)"
    by (rule that [OF add_table_def]) (simp_all add: stamped_def layout_prov_page empty_table_ok)
  define n where "n = length (doc_tables (lw_doc w))"
  define d where "d = (lw_doc w)\<lparr>doc_tables := doc_tables (lw_doc w) @ [t]\<rparr>"
  define v where "v = snd (add_entry TABLE n parent (w\<lparr>lw_doc := d\<rparr>))"
  have added: "add_entry TABLE n parent (w\<lparr>lw_doc := d\<rparr>) = ((TABLE, n), v)"
    by (simp add: v_def prod_eq_iff)
  have v: "writer_ok page v \<and> lw_entries v = lw_entries w @ [((TABLE, n), parent)]"
    using add_entry_writes [OF ok one_more_table [OF t(2-4)] added [unfolded d_def n_def]] by (simp add: n_def)
  have "lw_doc v = d" by (simp add: v_def)
  then have last: "set_last_table_data data (lw_doc v)
      = (lw_doc v)\<lparr>doc_tables := at_index n (\<lambda>t. t\<lparr>tl_data := data\<rparr>) (doc_tables (lw_doc v))\<rparr>" for data
    by (simp add: set_last_table_data_def Let_def at_index_def d_def n_def)
  have filled: "writer_ok page (v\<lparr>lw_doc := set_last_table_data data (lw_doc v), lw_warnings := ws\<rparr>)" if "table_ok data" for data ws
    by (rule edit_ok [OF conjunct1 [OF v]]) (simp_all add: last same_tables that)
  have "(c, w') = (if cells = [] then ((TABLE, n), v) else ((TABLE, n), v\<lparr>
      lw_doc := set_last_table_data (fst (fill_span_table byte_size cells)) (lw_doc v),
      lw_warnings := lw_warnings v @ note_table_cut (snd (fill_span_table byte_size cells))
        (fst (fill_span_table byte_size cells)) ''table'' (body_child_ref TABLE n)\<rparr>))"
    using w' added by (auto simp: write_table_def t(1) n_def d_def split: prod.splits if_splits)
  with v filled [OF fill_span_ok [OF surjective_pairing]] show "writer_ok page w' \<and> lw_entries w' = lw_entries w @ [(c, parent)]"
    by (auto split: if_splits)
qed

interpretation styled_writer: item_writer "\<lambda>page. write_styled_text page label box body fmt link" for label box body fmt link
proof
  fix page w parent c w'
  assume ok: "writer_ok page w" "parent_ok w parent"
    and w': "write_styled_text page label box body fmt link parent w = (c, w')"
  obtain v where "writer_ok page v \<and> lw_entries v = lw_entries w @ [(c, parent)]" "w' = edit_text c (add_style fmt link) v"
    using w' unfolding write_styled_text_def
    by (cases label) (auto split: prod.splits dest!: title_writer.writes [OF ok] heading_writer.writes [OF ok]
      formula_writer.writes [OF ok] code_writer.writes [OF ok] field_value_writer.writes [OF ok] text_writer.writes [OF ok])
  then show "writer_ok page w' \<and> lw_entries w' = lw_entries w @ [(c, parent)]"
    using edit_text_ok keeps_text_edits(1) by simp
qed

section \<open>Every sequence of calls\<close>

inductive layout_step :: "image_library \<Rightarrow> (real \<Rightarrow> real) \<Rightarrow> (table_cell \<Rightarrow> nat) \<Rightarrow> page_context \<Rightarrow> writer \<Rightarrow> writer \<Rightarrow> bool"
  for lib rnd byte_size page where
  step_text: "parent_ok w p \<Longrightarrow> write_text page label box body p w = (c, w') \<Longrightarrow> layout_step lib rnd byte_size page w w'"
| step_title: "parent_ok w p \<Longrightarrow> write_title page box body p w = (c, w') \<Longrightarrow> layout_step lib rnd byte_size page w w'"
| step_heading: "parent_ok w p \<Longrightarrow> write_heading page level box body p w = (c, w') \<Longrightarrow> layout_step lib rnd byte_size page w w'"
| step_formula: "parent_ok w p \<Longrightarrow> write_formula page box body p w = (c, w') \<Longrightarrow> layout_step lib rnd byte_size page w w'"
| step_code: "parent_ok w p \<Longrightarrow> write_code page box body language p w = (c, w') \<Longrightarrow> layout_step lib rnd byte_size page w w'"
| step_list_item: "parent_ok w p \<Longrightarrow> write_list_item page box body enum marker p w = (c, w') \<Longrightarrow>
    layout_step lib rnd byte_size page w w'"
| step_field_value: "parent_ok w p \<Longrightarrow> write_field_value page box body p w = (c, w') \<Longrightarrow> layout_step lib rnd byte_size page w w'"
| step_group: "parent_ok w p \<Longrightarrow> write_group name glabel p w = (c, w') \<Longrightarrow> layout_step lib rnd byte_size page w w'"
| step_field_region: "parent_ok w p \<Longrightarrow> write_field_region page box p w = (c, w') \<Longrightarrow> layout_step lib rnd byte_size page w w'"
| step_styled: "parent_ok w p \<Longrightarrow> write_styled_text page label box body fmt link p w = (c, w') \<Longrightarrow>
    layout_step lib rnd byte_size page w w'"
| step_picture: "parent_ok w p \<Longrightarrow> write_picture lib rnd page box p w = (c, w') \<Longrightarrow> layout_step lib rnd byte_size page w w'"
| step_table: "parent_ok w p \<Longrightarrow> write_table byte_size page box cells p w = (c, w') \<Longrightarrow> layout_step lib rnd byte_size page w w'"
| step_set_text: "layout_step lib rnd byte_size page w (set_text ref body fmt link w)"
| step_set_orig: "layout_step lib rnd byte_size page w (set_orig ref body w)"
| step_set_level: "layout_step lib rnd byte_size page w (set_heading_level i level w)"
| step_set_layer: "layer \<noteq> CONTENT_LAYER_UNSPECIFIED \<Longrightarrow> layout_step lib rnd byte_size page w (set_content_layer ref layer w)"
| step_describe: "layout_step lib rnd byte_size page w (describe_picture ref description creator w)"
| step_classify: "layout_step lib rnd byte_size page w (classify_picture ref class_name creator w)"
| step_molecule: "layout_step lib rnd byte_size page w (set_molecule ref smiles creator w)"
| step_chart: "layout_step lib rnd byte_size page w (set_tabular_chart ref title rows creator w)"
| step_caption: "layout_step lib rnd byte_size page w (link_caption owner caption w)"
| step_footnote: "layout_step lib rnd byte_size page w (link_footnote owner footnote w)"
| step_captions: "layout_step lib rnd byte_size page w (link_adjacent_captions starts blocks code_owners w)"

lemmas item_writes = text_writer.writes title_writer.writes heading_writer.writes formula_writer.writes
  code_writer.writes list_item_writer.writes field_value_writer.writes group_writer.writes
  field_region_writer.writes styled_writer.writes picture_writer.writes table_writer.writes

lemmas item_edits = text_setter.edits orig_setter.edits level_setter.edits picture_describer.edits
  picture_classifier.edits molecule_setter.edits chart_setter.edits caption_linker.edits footnote_linker.edits
  adjacent_linker.edits

lemma layout_step_ok: "layout_step lib rnd byte_size page w w' \<Longrightarrow> writer_ok page w \<Longrightarrow> writer_ok page w'"
  by (induction rule: layout_step.induct)
    (erule (2) item_writes [THEN conjunct1] | erule (1) set_content_layer_ok [OF _ _, THEN conjunct1]
      | erule item_edits [THEN conjunct1])+

inductive layout_reachable ::
  "image_library \<Rightarrow> (real \<Rightarrow> real) \<Rightarrow> (table_cell \<Rightarrow> nat) \<Rightarrow> page_context \<Rightarrow> writer \<Rightarrow> bool"
  for lib rnd byte_size page where
  start: "layout_reachable lib rnd byte_size page (new_writer page)"
| step: "layout_reachable lib rnd byte_size page w \<Longrightarrow> layout_step lib rnd byte_size page w w' \<Longrightarrow>
    layout_reachable lib rnd byte_size page w'"

lemma reachable_ok: "layout_reachable lib rnd byte_size page w \<Longrightarrow> writer_ok page w"
  by (induction rule: layout_reachable.induct) (simp_all add: new_writer_ok layout_step_ok)

section \<open>The finished tree\<close>

text \<open>An item hangs from the body when its parent lists it and is the body or hangs from it.\<close>

inductive hangs :: "document \<Rightarrow> body_child \<Rightarrow> bool" for doc where
  hangs_body: "item_at doc c = Some b \<Longrightarrow> it_parent b = Some kBody \<Longrightarrow>
    ref_name c \<in> set (it_children (doc_body doc)) \<Longrightarrow> hangs doc c"
| hangs_item: "item_at doc c = Some b \<Longrightarrow> it_parent b = Some (ref_name p) \<Longrightarrow> item_at doc p = Some pb \<Longrightarrow>
    ref_name c \<in> set (it_children pb) \<Longrightarrow> hangs doc p \<Longrightarrow> hangs doc c"

text \<open>What the entries say the tree is.\<close>

definition is_tree :: "(body_child \<times> lref) list \<Rightarrow> document \<Rightarrow> bool" where
  "is_tree entries doc \<longleftrightarrow>
     it_self_ref (doc_body doc) = kBody \<and> it_children (doc_body doc) = map ref_name (kids entries None)
     \<and> (\<forall>c. item_at doc c \<noteq> None \<longleftrightarrow> c \<in> fst ` set entries)
     \<and> (\<forall>(c, parent) \<in> set entries. \<exists>b. item_at doc c = Some b \<and> it_self_ref b = ref_name c
          \<and> it_parent b = Some (case parent of None \<Rightarrow> kBody | Some p \<Rightarrow> ref_name p)
          \<and> it_children b = map ref_name (kids entries (Some c)))"

lemma kids_member: "c \<in> set (kids entries p) \<longleftrightarrow> (c, p) \<in> set entries"
  by (force simp: kids_def)

lemma writer_keys: "writer_ok page w \<Longrightarrow> (c, p) \<in> set (lw_entries w) \<Longrightarrow> fst c \<noteq> KEY_VALUE \<and> item_at (lw_doc w) c \<noteq> None"
  unfolding writer_ok_def by (metis fst_conv image_eqI option.exhaust)

lemma writer_parent:
  assumes "writer_ok page w" and "(c, Some p) \<in> set (lw_entries w)"
  shows "p \<in> fst ` set (lw_entries w)"
proof -
  obtain i where "i < length (lw_entries w)" "lw_entries w ! i = (c, Some p)" using assms(2) by (metis in_set_conv_nth)
  with assms(1) have "p \<in> fst ` set (take i (lw_entries w))" unfolding writer_ok_def by (metis snd_conv)
  then show ?thesis by (blast dest: in_set_takeD)
qed

lemma finish_tree:
  assumes w: "writer_ok page w" and f: "finish page title allow_empty w = Inr (doc, ws)"
  shows "is_tree (lw_entries w) doc"
proof -
  let ?es = "lw_entries w"
  have body: "lw_body w = kids ?es None" and dist: "distinct (map fst ?es)" and none: "it_children (doc_body (lw_doc w)) = []"
    using w unfolding writer_ok_def by blast+
  have nested: "\<forall>(c, p) \<in> set ?es. fst c \<noteq> KEY_VALUE \<and> (\<forall>q. p = Some q \<longrightarrow> fst q \<noteq> KEY_VALUE)"
    using writer_keys [OF w] writer_parent [OF w] by fastforce
  define d where "d = finalize_ordered page (lw_body w) (lw_doc w)"
  have doc: "doc = fold finish_entry ?es d" using f by (simp add: finish_def d_def split: if_splits)
  have k: "kinds_set (lw_doc w)" using w sound_kinds unfolding writer_ok_def by blast
  note d = finalize_ordered_items [OF k none, of page "lw_body w", folded d_def]
  have item: "item_at doc c = map_option (finished ?es c) (item_at d c)" for c
    unfolding doc using finish_fold [OF _ dist nested] d by blast
  have "\<exists>b. item_at doc c = Some b \<and> it_self_ref b = ref_name c
      \<and> it_parent b = Some (case parent of None \<Rightarrow> kBody | Some p \<Rightarrow> ref_name p)
      \<and> it_children b = map ref_name (kids ?es (Some c))" if e: "(c, parent) \<in> set ?es" for c parent
  proof -
    obtain a where a: "item_at (lw_doc w) c = Some a" using writer_keys [OF w e] by blast
    have "it_children a = []" using w a unfolding writer_ok_def by blast
    moreover have "map_of ?es c = Some parent" using dist e by (simp add: map_of_is_SomeI)
    moreover have "c \<in> set (lw_body w) \<longleftrightarrow> parent = None"
      using e eq_key_imp_eq_value [OF dist] unfolding body kids_member by blast
    ultimately show ?thesis
      using d [of c] a by (auto simp: item finished_def stamp_item_def split: option.split)
  qed
  moreover have "item_at doc c \<noteq> None \<longleftrightarrow> c \<in> fst ` set ?es" for c
    using d [of c] w unfolding item writer_ok_def by (auto simp del: split_paired_All)
  ultimately show ?thesis
    using d finish_entry_body [of ?es d] by (auto simp: is_tree_def doc body)
qed

lemma tree_hangs:
  assumes "writer_ok page w" and tree: "is_tree (lw_entries w) doc" and "i < length (lw_entries w)"
  shows "hangs doc (fst (lw_entries w ! i))"
  using assms(3)
proof (induction i rule: less_induct)
  case (less i)
  obtain c parent where c: "lw_entries w ! i = (c, parent)" by fastforce
  with less.prems have e: "(c, parent) \<in> set (lw_entries w)" by (metis nth_mem)
  then obtain b where b: "item_at doc c = Some b" "it_parent b = Some (case parent of None \<Rightarrow> kBody | Some p \<Rightarrow> ref_name p)"
    using tree by (fastforce simp: is_tree_def)
  show ?case
  proof (cases parent)
    case None
    with b e tree show ?thesis by (auto simp: c is_tree_def kids_member intro: hangs_body)
  next
    case (Some p)
    have "p \<in> fst ` set (take i (lw_entries w))" using assms(1) less.prems c Some unfolding writer_ok_def by (metis snd_conv)
    then obtain j q where j: "j < i" "lw_entries w ! j = (p, q)" using less.prems by (auto simp: in_set_conv_nth)
    then have p: "hangs doc p" "(p, q) \<in> set (lw_entries w)" using less.IH [of j] less.prems nth_mem [of j "lw_entries w"] by auto
    then obtain pb where "item_at doc p = Some pb" "it_children pb = map ref_name (kids (lw_entries w) (Some p))"
      using tree by (fastforce simp: is_tree_def)
    with b Some e p(1) show ?thesis by (auto simp: c kids_member intro: hangs_item)
  qed
qed

lemma sound_frame [simp]: "sound page (doc\<lparr>doc_body := b\<rparr>) = sound page doc"
  "sound page (doc\<lparr>doc_pages := m\<rparr>) = sound page doc" "sound page (doc\<lparr>doc_name := n\<rparr>) = sound page doc"
  "sound page (doc\<lparr>doc_version := n\<rparr>) = sound page doc" "sound page (doc\<lparr>doc_schema_name := n\<rparr>) = sound page doc"
  by (simp_all add: sound_def attributed_def)

lemma sound_nested: "sound page doc \<Longrightarrow> sound page (stamp_nested s p c doc)"
  by (cases c; cases "fst c")
    (auto simp: sound_def attributed_def stamp_nested_def stamped_stamp stamped_stamp_text stamp_text_kind stamp_item_data dest!: set_at_index)

lemma stamped_child_ref: "stamped page (add_child_ref s item) = stamped page item"
  "tl_data (add_child_ref s t) = tl_data t" "tx_kind (add_child_ref s x) = tx_kind x"
  by (simp_all add: stamped_def add_child_ref_def)

lemma sound_join: "sound page doc \<Longrightarrow> sound page (join_parent s c doc)"
  by (cases c; cases "fst c")
    (auto simp: sound_def attributed_def join_parent_def stamped_child_ref dest!: set_at_index split: if_splits)

lemma sound_children: "sound page doc \<Longrightarrow> \<forall>c \<in> set order. fst c \<noteq> KEY_VALUE \<Longrightarrow> sound page (fold stamp_child order doc)"
  by (induction order arbitrary: doc) (auto simp: stamp_child_nested sound_nested)

lemma sound_finalize: "sound page doc \<Longrightarrow> \<forall>c \<in> set order. fst c \<noteq> KEY_VALUE \<Longrightarrow> sound page (finalize_ordered page order doc)"
  by (simp add: finalize_ordered_def Let_def sound_children)

lemma sound_entries: "sound page doc \<Longrightarrow> sound page (fold finish_entry es doc)"
  by (induction es arbitrary: doc)
    (auto simp: finish_entry_def sound_nested sound_join split: prod.split option.split)

lemma finish_sound:
  assumes w: "writer_ok page w" and f: "finish page title allow_empty w = Inr (doc, ws)"
  shows "sound page doc"
proof -
  have "\<forall>c \<in> set (lw_body w). fst c \<noteq> KEY_VALUE" and "sound page (lw_doc w)"
    using w writer_keys [OF w] unfolding writer_ok_def by (force simp: kids_member)+
  with f show ?thesis by (auto simp: finish_def sound_entries sound_finalize split: if_splits)
qed

text \<open>The texts of a page, in order, and what the operations make of them.\<close>

definition page_texts :: "document \<Rightarrow> string list" where
  "page_texts doc = map tx_text (doc_texts doc)"

lemma map_at_index:
  assumes "\<And>x. g (f x) = g x"
  shows "map g (at_index i f xs) = map g xs"
proof (rule nth_equalityI)
  fix j assume "j < length (map g (at_index i f xs))"
  then show "map g (at_index i f xs) ! j = map g xs ! j" by (cases "i = j") (simp_all add: at_index_def assms)
qed (simp add: at_index_def)

lemma enter_text_doc: "enter_text parent doc w = (c, w') \<Longrightarrow> lw_doc w' = doc"
  by (auto simp: enter_text_def add_entry_def split: option.splits)

lemma page_texts_push: "page_texts (push_text item doc) = page_texts doc @ [tx_text item]"
  by (simp add: page_texts_def push_text_def)

lemma write_page_texts:
  "write_text page label box body parent w = (c, w') \<Longrightarrow> page_texts (lw_doc w') = page_texts (lw_doc w) @ [body]"
  "write_title page box body parent w = (c, w') \<Longrightarrow> page_texts (lw_doc w') = page_texts (lw_doc w) @ [body]"
  "write_heading page level box body parent w = (c, w') \<Longrightarrow> page_texts (lw_doc w') = page_texts (lw_doc w) @ [body]"
  "write_formula page box body parent w = (c, w') \<Longrightarrow> page_texts (lw_doc w') = page_texts (lw_doc w) @ [body]"
  "write_code page box body language parent w = (c, w') \<Longrightarrow> page_texts (lw_doc w') = page_texts (lw_doc w) @ [body]"
  "write_list_item page box body enum marker parent w = (c, w') \<Longrightarrow> page_texts (lw_doc w') = page_texts (lw_doc w) @ [body]"
  by (simp_all add: text_writers enter_text_doc page_texts_push fill_text_base_def stamp_layer_def)

lemma attach_crop_texts: "doc_texts (lw_doc (attach_crop lib rnd page box w)) = doc_texts (lw_doc w)"
  by (simp add: attach_crop_def Let_def map_last_picture_def split: option.split prod.split crop_result.split)

lemma other_page_texts:
  "write_picture lib rnd page box parent w = (c, w') \<Longrightarrow> page_texts (lw_doc w') = page_texts (lw_doc w)"
  "write_table byte_size page box cells parent w = (c, w') \<Longrightarrow> page_texts (lw_doc w') = page_texts (lw_doc w)"
  "write_group name glabel parent w = (c, w') \<Longrightarrow> page_texts (lw_doc w') = page_texts (lw_doc w)"
  by (auto simp: write_picture_def write_table_def write_group_def add_entry_def add_picture_def add_table_def
      set_last_table_data_def page_texts_def attach_crop_texts Let_def split: option.splits prod.splits if_splits)

lemma edit_page_texts: "(\<And>t. tx_text (f t) = tx_text t) \<Longrightarrow> page_texts (lw_doc (edit_text ref f w)) = page_texts (lw_doc w)"
  by (simp add: edit_text_def page_texts_def map_at_index)

lemma link_page_texts: "page_texts (lw_doc (link_caption owner caption w)) = page_texts (lw_doc w)"
  "page_texts (lw_doc (link_footnote owner footnote w)) = page_texts (lw_doc w)"
  by (simp_all add: link_caption_def link_footnote_def Let_def edit_page_texts edit_picture_def edit_table_def
      page_texts_def [of "_\<lparr>doc_pictures := _\<rparr>"] page_texts_def [of "_\<lparr>doc_tables := _\<rparr>"] flip: page_texts_def
      split: child_kind.split)

lemma stamp_text: "tx_text (stamp_text_item s p t) = tx_text t"
  by (simp add: stamp_text_item_def split: text_kind.split)

lemma nested_page_texts: "page_texts (stamp_nested s p c doc) = page_texts doc" "page_texts (join_parent s c doc) = page_texts doc"
  by (cases c; cases "fst c"; simp add: page_texts_def stamp_nested_def join_parent_def map_at_index stamp_text add_child_ref_def)+

lemma page_texts_frame [simp]: "page_texts (doc\<lparr>doc_body := b\<rparr>) = page_texts doc"
  "page_texts (doc\<lparr>doc_pages := m\<rparr>) = page_texts doc" "page_texts (doc\<lparr>doc_name := n\<rparr>) = page_texts doc"
  "page_texts (doc\<lparr>doc_version := n\<rparr>) = page_texts doc" "page_texts (doc\<lparr>doc_schema_name := n\<rparr>) = page_texts doc"
  by (simp_all add: page_texts_def)

lemma finish_page_texts:
  assumes w: "writer_ok page w" and f: "finish page title allow_empty w = Inr (doc, ws)"
  shows "page_texts doc = page_texts (lw_doc w)"
proof -
  have keys: "\<forall>c \<in> set (lw_body w). fst c \<noteq> KEY_VALUE"
    using w writer_keys [OF w] unfolding writer_ok_def by (force simp: kids_member)
  have stamps: "page_texts (fold stamp_child order d) = page_texts d" if "\<forall>c \<in> set order. fst c \<noteq> KEY_VALUE" for order d
    using that by (induction order arbitrary: d) (auto simp: stamp_child_nested nested_page_texts)
  have "page_texts (fold finish_entry es d) = page_texts d" for es d
    by (induction es arbitrary: d) (auto simp: finish_entry_def nested_page_texts split: prod.split option.split)
  with f stamps keys show ?thesis by (auto simp: finish_def finalize_ordered_def Let_def split: if_splits)
qed

section \<open>Pages that grow\<close>

text \<open>A mapper only adds to a page: what was an entry stays one, at its place.\<close>

definition grown :: "page_context \<Rightarrow> writer \<Rightarrow> writer \<Rightarrow> bool" where
  "grown page w w' \<longleftrightarrow> writer_ok page w' \<and> prefix (lw_entries w) (lw_entries w')"

lemma grown_refl [simp]: "grown page w w \<longleftrightarrow> writer_ok page w"
  by (simp add: grown_def)

lemma grown_ok: "grown page w w' \<Longrightarrow> writer_ok page w'"
  by (simp add: grown_def)

lemma grown_trans [trans]: "grown page u v \<Longrightarrow> grown page v w \<Longrightarrow> grown page u w"
  by (auto simp: grown_def)

lemma grown_parent: "grown page w w' \<Longrightarrow> parent_ok w p \<Longrightarrow> parent_ok w' p"
  unfolding grown_def parent_ok_def by (blast dest: set_mono_prefix)

lemma grown_body [simp]: "parent_ok w None"
  by (simp add: parent_ok_def)

lemma grown_written:
  "writer_ok page w' \<and> lw_entries w' = lw_entries w @ [(c, parent)] \<Longrightarrow> grown page w w' \<and> parent_ok w' (Some c)"
  by (auto simp: grown_def parent_ok_def)

lemma grown_edited: "writer_ok page w' \<and> lw_entries w' = lw_entries w \<Longrightarrow> grown page w w'"
  by (simp add: grown_def)

lemmas written_grown = item_writes [THEN grown_written]
lemmas edited_grown = item_edits [THEN grown_edited]

lemma grown_fold:
  assumes "writer_ok page w" and "\<And>x v. x \<in> set xs \<Longrightarrow> grown page w v \<Longrightarrow> grown page v (f x v)"
  shows "grown page w (fold f xs w)"
  using assms
proof (induction xs arbitrary: w)
  case (Cons x xs)
  then have "grown page w (f x w)" by simp
  moreover have "grown page (f x w) (fold f xs (f x w))"
  proof (rule Cons.IH)
    show "writer_ok page (f x w)" using calculation by (rule grown_ok)
    show "grown page v (f y v)" if "y \<in> set xs" "grown page (f x w) v" for y v
      using Cons.prems(2) that grown_trans [OF calculation] by simp
  qed
  ultimately show ?case by (simp add: grown_trans)
qed simp

text \<open>A finished page is one tree from its body, every item attributed.\<close>

definition page_tree :: "page_context \<Rightarrow> document \<Rightarrow> bool" where
  "page_tree page doc \<longleftrightarrow>
     (\<exists>entries. is_tree entries doc \<and> distinct (map fst entries)) \<and> sound page doc
     \<and> (\<forall>c. item_at doc c \<noteq> None \<longrightarrow> hangs doc c)"

lemma finished_hangs:
  assumes w: "writer_ok page w" and "finish page title allow_empty w = Inr (doc, ws)" and "item_at doc c \<noteq> None"
  shows "hangs doc c"
proof -
  note tree = finish_tree [OF assms(1,2)]
  have "c \<in> fst ` set (lw_entries w)" using tree assms(3) unfolding is_tree_def by blast
  then obtain i where "i < length (lw_entries w)" "fst (lw_entries w ! i) = c" by (auto simp: in_set_conv_nth)
  with tree_hangs [OF w tree] show ?thesis by blast
qed

lemma finished_page:
  assumes w: "writer_ok page w" and f: "finish page title allow_empty w = Inr (doc, ws)"
  shows "page_tree page doc"
proof -
  have "distinct (map fst (lw_entries w))" using w unfolding writer_ok_def by (rule conjunct1)
  with finish_tree [OF w f] finish_sound [OF w f] finished_hangs [OF w f] show ?thesis
    unfolding page_tree_def by blast
qed

lemma finish_allowed:
  assumes "writer_ok page w"
  obtains doc ws where "finish page title True w = Inr (doc, ws)" "page_tree page doc"
  using finished_page [OF assms, of title True] by (simp add: finish_def)

text \<open>
  C26: whatever calls a mapper makes on the layout writer, a finished page is one tree.
  Every item carries its own reference and hangs from the body through parents that list it;
  the children lists hold each item once, in the order of creation; and every item is
  attributed to the page and to the call that produced it.
\<close>

theorem layout_tree:
  assumes "layout_reachable lib rnd byte_size page w" and "finish page title allow_empty w = Inr (doc, ws)"
  shows "is_tree (lw_entries w) doc \<and> distinct (map fst (lw_entries w)) \<and> sound page doc
    \<and> (\<forall>c. item_at doc c \<noteq> None \<longrightarrow> hangs doc c)"
proof -
  note w = reachable_ok [OF assms(1)]
  show ?thesis
    using finish_tree [OF w assms(2)] finish_sound [OF w assms(2)] finished_hangs [OF w assms(2)] w
    unfolding writer_ok_def by blast
qed

definition list_page :: page_context where
  "list_page = make_page ''1'' key_config key_plan sample_image empty_result"

definition list_writer :: writer where
  "list_writer = snd (write_list_item list_page None ''one'' False ''-'' (Some (GROUP, 0))
     (snd (write_list_group None (new_writer list_page))))"

lemma list_writer_entries: "lw_entries list_writer = [((GROUP, 0), None), ((TEXT, 0), Some (GROUP, 0))]"
  by (simp add: list_writer_def write_list_item_def enter_text_def add_entry_def write_list_group_def write_group_def
      new_writer_def Let_def add_list_item_def push_text_def empty_document_def)

theorem layout_tree_witness:
  "\<exists>doc ws. finish list_page ''list'' False list_writer = Inr (doc, ws)
     \<and> is_tree [((GROUP, 0), None), ((TEXT, 0), Some (GROUP, 0))] doc \<and> hangs doc (TEXT, 0)"
proof -
  let ?w1 = "snd (write_list_group None (new_writer list_page))"
  have one: "layout_step lib rnd byte_size list_page (new_writer list_page) ?w1" for lib rnd byte_size
    unfolding write_list_group_def by (rule step_group [OF _ surjective_pairing]) (simp add: parent_ok_def)
  have two: "layout_step lib rnd byte_size list_page ?w1 list_writer" for lib rnd byte_size
    unfolding list_writer_def
    by (rule step_list_item [OF _ surjective_pairing])
      (simp add: parent_ok_def write_list_group_def write_group_def Let_def new_writer_def empty_document_def)
  obtain doc ws where f: "finish list_page ''list'' False list_writer = Inr (doc, ws)"
    by (simp add: finish_def list_writer_entries)
  have "layout_reachable pixel_library id (\<lambda>_. 0) list_page list_writer"
    by (rule layout_reachable.step [OF layout_reachable.step [OF layout_reachable.start one] two])
  from layout_tree [OF this f] have t: "is_tree (lw_entries list_writer) doc" "\<forall>c. item_at doc c \<noteq> None \<longrightarrow> hangs doc c"
    by blast+
  from t(1) have "item_at doc (TEXT, 0) \<noteq> None" by (simp add: is_tree_def list_writer_entries)
  with t f show ?thesis by (auto simp: list_writer_entries)
qed

end
