(* ===== verification/Deepseek.thy ===== *)
theory Deepseek
  imports Layout "HOL-Library.Multiset"
begin

text \<open>
  \<^verbatim>\<open>src/mapping/deepseek.cpp\<close>: DeepSeek-OCR and Unlimited-OCR.  Annotation lines with a label and four
  coordinates open the blocks of a page; a block's text runs to the next annotation, a table
  keeps its \<^verbatim>\<open>table\<close> element.  \<open>dbl\<close> is the double nearest to a number, where there is one,
  and \<open>rnd\<close> the rounding of the arithmetic on doubles.
\<close>

definition kGrid :: real where "kGrid = 1000"

definition is_word :: "char \<Rightarrow> bool" where
  "is_word c \<longleftrightarrow> is_alnum c \<or> c = CHR ''_'' \<or> 128 \<le> code c"

definition consume :: "string \<Rightarrow> string \<Rightarrow> string" where
  "consume p s = (if starts_with s p then drop (length p) s else s)"

definition parse_number :: "(real \<Rightarrow> real option) \<Rightarrow> string \<Rightarrow> real option" where
  "parse_number dbl piece =
     (let p = strip_view piece
      in if p = [] \<or> p = ''.'' then None
         else case decimal p of None \<Rightarrow> None | Some v \<Rightarrow> dbl v)"

record annotation =
  an_label :: string
  an_coords :: "real list"

fun parse_numbers :: "(real \<Rightarrow> real option) \<Rightarrow> string list \<Rightarrow> real list option" where
  "parse_numbers dbl [] = Some []"
| "parse_numbers dbl (p # ps) =
     (case parse_number dbl p of
        None \<Rightarrow> None
      | Some x \<Rightarrow> map_option ((#) x) (parse_numbers dbl ps))"

definition is_coord_char :: "char \<Rightarrow> bool" where
  "is_coord_char c \<longleftrightarrow> is_digit c \<or> c = CHR ''.'' \<or> c = CHR '','' \<or> c = CHR '' ''"

text \<open>What follows the label: the coordinates, if the line is an annotation.\<close>

definition annotation_coords :: "string \<Rightarrow> string option" where
  "annotation_coords s =
     (let s1 = consume ''<|det|>'' (consume ''<|/ref|>'' s)
      in if \<not> starts_with s1 ''[['' then None
         else let s2 = drop 2 s1; coords = takeWhile is_coord_char s2; s3 = dropWhile is_coord_char s2
              in if coords = [] \<or> \<not> starts_with s3 '']]'' then None
                 else if strip_view (consume ''<|/det|>'' (drop 2 s3)) \<noteq> [] then None
                 else Some coords)"

definition match_annotation :: "(real \<Rightarrow> real option) \<Rightarrow> string \<Rightarrow> annotation option" where
  "match_annotation dbl line =
     (let s = consume ''<|ref|>'' line; label = takeWhile is_word s
      in if label = [] then None
         else case annotation_coords (dropWhile is_word s) of
           None \<Rightarrow> None
         | Some coords \<Rightarrow>
             Some \<lparr>an_label = label,
                   an_coords = (case parse_numbers dbl (split_at CHR '','' coords) of
                      Some numbers \<Rightarrow> if length numbers = 4 then numbers else []
                    | None \<Rightarrow> [])\<rparr>)"

definition split_lines :: "string \<Rightarrow> string list" where
  "split_lines s = split_at LF s"

definition rstrip :: "string \<Rightarrow> string" where
  "rstrip s = rstrip_by is_space s"

definition strip_newlines :: "string \<Rightarrow> string" where
  "strip_newlines s = strip_by (\<lambda>c. c = LF) s"

fun contains_ci :: "string \<Rightarrow> string \<Rightarrow> bool" where
  "contains_ci [] needle = (needle = [])"
| "contains_ci (c # cs) needle =
     ((length needle \<le> length (c # cs) \<and> map to_lower (take (length needle) (c # cs)) = needle)
      \<or> contains_ci cs needle)"

section \<open>Tables\<close>

fun raw_text :: "markup_node \<Rightarrow> string" where
  "raw_text (MarkupNode tag t attrs cs) = (if tag = [] then t else concat (map raw_text cs))"

fun collect_rows :: "markup_node \<Rightarrow> markup_node list" where
  "collect_rows (MarkupNode tag t attrs cs) =
     concat (map (\<lambda>c. if is_text c then [] else (if mn_tag c = ''tr'' then [c] else []) @ collect_rows c) cs)"

record raw_cell =
  rw_node :: markup_node
  rw_colspan :: nat
  rw_rowspan :: nat

definition is_cell :: "markup_node \<Rightarrow> bool" where
  "is_cell node \<longleftrightarrow> \<not> is_text node \<and> (mn_tag node = ''td'' \<or> mn_tag node = ''th'')"

text \<open>An attribute that is no number gives up the table.\<close>

fun raw_cells :: "markup_node list \<Rightarrow> raw_cell list option" where
  "raw_cells [] = Some []"
| "raw_cells (node # nodes) =
     (if \<not> is_cell node then raw_cells nodes
      else case (python_int (node_attr ''colspan'' ''1'' node), python_int (node_attr ''rowspan'' ''1'' node)) of
        (Some colspan, Some rowspan) \<Rightarrow>
          map_option ((#) \<lparr>rw_node = node, rw_colspan = nat (std_clamp colspan 1 (int kMaxTableCells)),
                           rw_rowspan = nat (std_clamp rowspan 1 (int kMaxTableCells))\<rparr>) (raw_cells nodes)
      | _ \<Rightarrow> None)"

fun raw_rows :: "markup_node list \<Rightarrow> raw_cell list list option" where
  "raw_rows [] = Some []"
| "raw_rows (row # rows) =
     (case raw_cells (mn_children row) of
        None \<Rightarrow> None
      | Some cells \<Rightarrow> map_option ((#) cells) (raw_rows rows))"

type_synonym taken = "bool list list"

function free_col :: "taken \<Rightarrow> nat \<Rightarrow> nat \<Rightarrow> nat \<Rightarrow> nat" where
  "free_col taken cols r c = (if c < cols \<and> taken ! r ! c then free_col taken cols r (c + 1) else c)"
  by pat_completeness auto
termination by (relation "measure (\<lambda>(taken, cols, r, c). cols - c)") auto

declare free_col.simps [simp del]

definition take_span :: "nat \<Rightarrow> nat \<Rightarrow> nat \<Rightarrow> nat \<Rightarrow> taken \<Rightarrow> taken" where
  "take_span r col row_end col_end taken =
     map (\<lambda>(rr, row). if r \<le> rr \<and> rr < row_end
                      then map (\<lambda>(cc, t). t \<or> (col \<le> cc \<and> cc < col_end)) (enumerate 0 row) else row)
       (enumerate 0 taken)"

definition deepseek_cell :: "nat \<Rightarrow> nat \<Rightarrow> nat \<Rightarrow> nat \<Rightarrow> raw_cell \<Rightarrow> span_cell" where
  "deepseek_cell rows cols r col raw =
     (let th = (mn_tag (rw_node raw) = ''th'')
      in \<lparr>sp_row = r, sp_col = col, sp_row_span = min (rw_rowspan raw) (rows - r),
          sp_col_span = min (rw_colspan raw) (cols - col), sp_text = trim (raw_text (rw_node raw)),
          sp_column_header = (th \<and> r = 0), sp_row_header = (th \<and> col = 0), sp_node = None\<rparr>)"

fun deepseek_row :: "nat \<Rightarrow> nat \<Rightarrow> nat \<Rightarrow> raw_cell list \<Rightarrow> nat \<Rightarrow> taken \<Rightarrow> span_cell list \<times> taken" where
  "deepseek_row rows cols r [] col taken = ([], taken)"
| "deepseek_row rows cols r (raw # raws) col taken =
     (let c = free_col taken cols r col
      in if cols \<le> c then ([], taken)
         else apfst ((#) (deepseek_cell rows cols r c raw))
           (deepseek_row rows cols r raws (c + rw_colspan raw)
             (take_span r c (min (r + rw_rowspan raw) rows) (min (c + rw_colspan raw) cols) taken)))"

fun deepseek_rows :: "nat \<Rightarrow> nat \<Rightarrow> nat \<Rightarrow> raw_cell list list \<Rightarrow> taken \<Rightarrow> span_cell list" where
  "deepseek_rows rows cols r [] taken = []"
| "deepseek_rows rows cols r (raws # later) taken =
     (case deepseek_row rows cols r raws 0 taken of
        (cells, taken') \<Rightarrow> cells @ deepseek_rows rows cols (r + 1) later taken')"

definition place_raw_rows :: "raw_cell list list \<Rightarrow> span_cell list" where
  "place_raw_rows raws =
     (let rows = length raws;
          cols = min (fold (\<lambda>cells m. max m (sum_list (map rw_colspan cells))) raws 0) (kMaxTableCols * 4)
      in deepseek_rows rows cols 0 raws (replicate rows (replicate cols False)))"

text \<open>The first \<^verbatim>\<open>table\<close> element, found without regard to case.\<close>

definition table_source :: "string \<Rightarrow> string option" where
  "table_source content =
     (let folded = map to_lower content
      in case find_sub ''<table'' folded of
           None \<Rightarrow> None
         | Some (before, _) \<Rightarrow>
             (case find_sub ''>'' (drop (length before) folded) of
                None \<Rightarrow> None
              | Some (tag, _) \<Rightarrow>
                  (case find_sub ''</table>'' (drop (length before + length tag) folded) of
                     None \<Rightarrow> None
                   | Some (body, _) \<Rightarrow>
                       Some (substr content (length before) (length tag + length body + 8)))))"

definition deepseek_table_cells :: "string \<Rightarrow> span_cell list" where
  "deepseek_table_cells content =
     (case table_source content of
        None \<Rightarrow> []
      | Some source \<Rightarrow>
          (case raw_rows (collect_rows (parse_markup KHtml source)) of
             None \<Rightarrow> []
           | Some raws \<Rightarrow> place_raw_rows raws))"

section \<open>Unlimited-OCR annotations\<close>

text \<open>Digits, then three times a comma and digits, white space around the commas.\<close>

fun more_numbers :: "nat \<Rightarrow> string \<Rightarrow> (string \<times> string) option" where
  "more_numbers 0 s = Some ([], s)"
| "more_numbers (Suc n) s =
     (let sp1 = takeWhile is_space s; s1 = dropWhile is_space s
      in if s1 = [] \<or> hd s1 \<noteq> CHR '','' then None
         else let sp2 = takeWhile is_space (tl s1); s2 = dropWhile is_space (tl s1); ds = takeWhile is_digit s2
              in if ds = [] then None
                 else map_option (apfst (\<lambda>b. sp1 @ '','' @ sp2 @ ds @ b)) (more_numbers n (dropWhile is_digit s2)))"

definition inline_box :: "string \<Rightarrow> (string \<times> string) option" where
  "inline_box s =
     (let ds = takeWhile is_digit s
      in if ds = [] then None else map_option (apfst (\<lambda>b. ds @ b)) (more_numbers 3 (dropWhile is_digit s)))"

definition is_label_char :: "char \<Rightarrow> bool" where
  "is_label_char c \<longleftrightarrow> is_lower c \<or> c = CHR ''_''"

text \<open>What follows \<^verbatim>\<open><|det|>\<close>: a label, a box and \<^verbatim>\<open><|/det|>\<close>, and the text after them.\<close>

definition inline_annotation :: "string \<Rightarrow> (string \<times> string \<times> string) option" where
  "inline_annotation s =
     (let s1 = dropWhile is_space s; label = takeWhile is_label_char s1;
          s2 = dropWhile is_space (dropWhile is_label_char s1)
      in if label = [] \<or> s2 = [] \<or> hd s2 \<noteq> CHR ''['' then None
         else case inline_box (tl s2) of
           None \<Rightarrow> None
         | Some (box, s3) \<Rightarrow>
             if s3 \<noteq> [] \<and> hd s3 = CHR '']'' \<and> starts_with (tl s3) ''<|/det|>''
             then Some (label, box, drop 8 (tl s3)) else None)"

lemma more_numbers_shorter: "more_numbers n s = Some (b, r) \<Longrightarrow> length r \<le> length s"
proof (induction n arbitrary: s b)
  case (Suc n)
  then obtain b' where b': "more_numbers n (dropWhile is_digit (dropWhile is_space (tl (dropWhile is_space s)))) = Some (b', r)"
    by (auto simp: Let_def split: if_splits)
  show ?case
    using Suc.IH [OF b'] length_dropWhile_le [of is_digit "dropWhile is_space (tl (dropWhile is_space s))"]
      length_dropWhile_le [of is_space "tl (dropWhile is_space s)"] length_dropWhile_le [of is_space s] by simp
qed simp

lemma inline_annotation_shorter: "inline_annotation s = Some (label, box, r) \<Longrightarrow> length r \<le> length s"
proof -
  assume "inline_annotation s = Some (label, box, r)"
  then obtain s3 where "inline_box (tl (dropWhile is_space (dropWhile is_label_char (dropWhile is_space s)))) = Some (box, s3)"
    "r = drop 8 (tl s3)"
    by (auto simp: inline_annotation_def Let_def split: if_splits option.splits)
  then show ?thesis
    using more_numbers_shorter [of 3 "dropWhile is_digit (tl (dropWhile is_space (dropWhile is_label_char (dropWhile is_space s))))"]
      length_dropWhile_le [of is_digit "tl (dropWhile is_space (dropWhile is_label_char (dropWhile is_space s)))"]
      length_dropWhile_le [of is_space "dropWhile is_label_char (dropWhile is_space s)"]
      length_dropWhile_le [of is_label_char "dropWhile is_space s"] length_dropWhile_le [of is_space s]
    by (fastforce simp: inline_box_def Let_def split: if_splits)
qed

function normalize_unlimited_ocr :: "string \<Rightarrow> string" where
  "normalize_unlimited_ocr content =
     (case find_sub ''<|det|>'' content of
        None \<Rightarrow> content
      | Some (before, rest) \<Rightarrow>
          before @ (case inline_annotation rest of
             None \<Rightarrow> ''<|det|>'' @ normalize_unlimited_ocr rest
           | Some (label, box, after) \<Rightarrow>
               ''<|ref|>'' @ label @ ''<|/ref|><|det|>[['' @ box @ '']]<|/det|>'' @ [LF]
               @ normalize_unlimited_ocr after))"
  by pat_completeness auto
termination
  by (relation "measure length") (auto dest!: find_sub_length inline_annotation_shorter)

declare normalize_unlimited_ocr.simps [simp del]

section \<open>Blocks\<close>

record ds_block =
  ds_label :: string
  ds_content :: string
  ds_box :: bounding_box

definition annotation_at :: "(real \<Rightarrow> real option) \<Rightarrow> string \<Rightarrow> annotation option" where
  "annotation_at dbl line = match_annotation dbl (strip_view line)"

text \<open>The lines of a table block: from the first \<^verbatim>\<open><table\<close> on, to its \<^verbatim>\<open></table>\<close>.\<close>

fun table_lines :: "string list \<Rightarrow> nat \<Rightarrow> bool \<Rightarrow> nat list" where
  "table_lines [] ii started = []"
| "table_lines (line # later) ii started =
     (if started \<or> contains_ci line ''<table''
      then ii # (if contains_ci line ''</table>'' then [] else table_lines later (ii + 1) True)
      else table_lines later (ii + 1) False)"

text \<open>The lines of another block, up to the next annotation, and where that is.\<close>

fun text_lines :: "(real \<Rightarrow> real option) \<Rightarrow> string list \<Rightarrow> bool list \<Rightarrow> nat \<Rightarrow> nat list \<times> nat" where
  "text_lines dbl [] visited i = ([], i)"
| "text_lines dbl (line # later) visited i =
     (if annotation_at dbl line \<noteq> None then ([], i)
      else apfst (if visited ! i then (\<lambda>ls. ls) else (#) i) (text_lines dbl later visited (i + 1)))"

definition visit :: "nat list \<Rightarrow> bool list \<Rightarrow> bool list" where
  "visit ls visited = fold (\<lambda>i v. v[i := True]) ls visited"

definition block_content :: "string list \<Rightarrow> nat list \<Rightarrow> string" where
  "block_content lines ls = strip_newlines (join_with LF (map (\<lambda>i. rstrip (lines ! i)) ls))"

lemma text_lines_ahead: "i \<le> snd (text_lines dbl ls visited i)"
  by (induction ls arbitrary: i) (auto intro: Suc_leD)

function deepseek_blocks ::
  "(real \<Rightarrow> real option) \<Rightarrow> (real \<Rightarrow> real) \<Rightarrow> page_context \<Rightarrow> string list \<Rightarrow> bool list \<Rightarrow> nat \<Rightarrow> ds_block list" where
  "deepseek_blocks dbl rnd page lines visited i =
     (if length lines \<le> i then []
      else if visited ! i then deepseek_blocks dbl rnd page lines visited (i + 1)
      else case annotation_at dbl (lines ! i) of
        None \<Rightarrow> deepseek_blocks dbl rnd page lines visited (i + 1)
      | Some a \<Rightarrow>
          if an_coords a = [] then deepseek_blocks dbl rnd page lines visited (i + 1)
          else let (ls, i') = (if an_label a = ''table'' then (table_lines (drop (i + 1) lines) (i + 1) False, i + 1)
                               else text_lines dbl (drop (i + 1) lines) visited (i + 1))
               in \<lparr>ds_label = an_label a, ds_content = block_content lines ls,
                   ds_box = grid_box rnd page (an_coords a) kGrid\<rparr>
                  # deepseek_blocks dbl rnd page lines (visit ls visited) i')"
  by pat_completeness auto
termination
proof (relation "measure (\<lambda>(dbl, rnd, page, lines, visited, i). length lines - i)", goal_cases)
  case (5 dbl rnd page lines visited i a x ls i')
  then have "i + 1 \<le> i'"
    using text_lines_ahead [of "i + 1" dbl "drop (i + 1) lines" visited] by (auto split: if_splits dest: sym)
  with 5 show ?case by simp
qed auto

declare deepseek_blocks.simps [simp del]

section \<open>The page\<close>

definition caption_of :: "string \<Rightarrow> string" where
  "caption_of owner =
     (if owner = ''table'' then ''table_caption'' else if owner = ''figure'' then ''figure_caption''
      else if owner = ''image'' then ''image_caption'' else [])"

definition strip_hashes :: "string \<Rightarrow> string \<times> nat" where
  "strip_hashes content =
     (let hashes = length (takeWhile (\<lambda>c. c = CHR ''#'') content)
      in (if hashes = 0 then content else trim (drop hashes content), hashes))"

definition block_label :: "string \<Rightarrow> doc_item_label" where
  "block_label label =
     (if ends_with label ''_caption'' then DOC_ITEM_LABEL_CAPTION
      else if label = ''header'' then DOC_ITEM_LABEL_PAGE_HEADER
      else if label = ''footer'' then DOC_ITEM_LABEL_PAGE_FOOTER
      else DOC_ITEM_LABEL_TEXT)"

definition write_block ::
  "image_library \<Rightarrow> (real \<Rightarrow> real) \<Rightarrow> (table_cell \<Rightarrow> nat) \<Rightarrow> page_context \<Rightarrow> ds_block \<Rightarrow> writer \<Rightarrow> body_child \<times> writer" where
  "write_block lib rnd byte_size page block w =
     (let label = ds_label block; box = Some (ds_box block)
      in if label = ''figure'' \<or> label = ''image'' then write_picture lib rnd page box kBodyRef w
         else if label = ''table''
         then write_table byte_size page box (deepseek_table_cells (ds_content block)) kBodyRef w
         else if label = ''title'' then write_title page box (fst (strip_hashes (ds_content block))) kBodyRef w
         else if label = ''sub_title''
         then (case strip_hashes (ds_content block) of
                 (body, hashes) \<Rightarrow> write_heading page (if 0 < hashes then int hashes else 2) box body kBodyRef w)
         else write_text page (block_label label) box (ds_content block) kBodyRef w)"

text \<open>A caption that follows its owner is written before it.\<close>

definition has_caption_next :: "ds_block list \<Rightarrow> nat \<Rightarrow> bool" where
  "has_caption_next blocks i \<longleftrightarrow>
     caption_of (ds_label (blocks ! i)) \<noteq> [] \<and> i + 1 < length blocks
     \<and> ds_label (blocks ! (i + 1)) = caption_of (ds_label (blocks ! i))"

definition already_written :: "ds_block list \<Rightarrow> nat \<Rightarrow> bool" where
  "already_written blocks i \<longleftrightarrow>
     0 < i \<and> ends_with (ds_label (blocks ! i)) ''_caption''
     \<and> caption_of (ds_label (blocks ! (i - 1))) = ds_label (blocks ! i)"

definition deepseek_block ::
  "image_library \<Rightarrow> (real \<Rightarrow> real) \<Rightarrow> (table_cell \<Rightarrow> nat) \<Rightarrow> page_context \<Rightarrow> ds_block list \<Rightarrow> nat \<Rightarrow> writer \<Rightarrow> writer" where
  "deepseek_block lib rnd byte_size page blocks i w =
     (let (caption, w1) = (if has_caption_next blocks i
            then apfst Some (write_text page DOC_ITEM_LABEL_CAPTION (Some (ds_box (blocks ! (i + 1))))
                   (ds_content (blocks ! (i + 1))) kBodyRef w)
            else (None, w))
      in if already_written blocks i then w1
         else case write_block lib rnd byte_size page (blocks ! i) w1 of
           (ref, w2) \<Rightarrow> (case caption of None \<Rightarrow> w2 | Some c \<Rightarrow> link_caption ref c w2))"

definition deepseek_writer ::
  "image_library \<Rightarrow> (real \<Rightarrow> real) \<Rightarrow> (table_cell \<Rightarrow> nat) \<Rightarrow> page_context \<Rightarrow> ds_block list \<Rightarrow> writer" where
  "deepseek_writer lib rnd byte_size page blocks =
     fold (deepseek_block lib rnd byte_size page blocks) [0..<length blocks] (new_writer page)"

definition page_blocks :: "(real \<Rightarrow> real option) \<Rightarrow> (real \<Rightarrow> real) \<Rightarrow> page_context \<Rightarrow> string \<Rightarrow> ds_block list" where
  "page_blocks dbl rnd page body =
     (let lines = split_lines body
      in deepseek_blocks dbl rnd page lines (replicate (length lines) False) 0)"

definition map_deepseek_ocr ::
  "(real \<Rightarrow> real option) \<Rightarrow> image_library \<Rightarrow> (real \<Rightarrow> real) \<Rightarrow> (table_cell \<Rightarrow> nat) \<Rightarrow> page_context \<Rightarrow> string
     \<Rightarrow> string + (document \<times> warning list)" where
  "map_deepseek_ocr dbl lib rnd byte_size page body =
     finish page ''DeepSeek-OCR'' False (deepseek_writer lib rnd byte_size page (page_blocks dbl rnd page body))"

definition map_unlimited_ocr ::
  "(real \<Rightarrow> real option) \<Rightarrow> image_library \<Rightarrow> (real \<Rightarrow> real) \<Rightarrow> (table_cell \<Rightarrow> nat) \<Rightarrow> page_context \<Rightarrow> string
     \<Rightarrow> string + (document \<times> warning list)" where
  "map_unlimited_ocr dbl lib rnd byte_size page body =
     map_deepseek_ocr dbl lib rnd byte_size page (normalize_unlimited_ocr body)"

section \<open>What the writer holds\<close>

lemma write_block_ok:
  assumes "writer_ok page w" and "write_block lib rnd byte_size page block w = (c, w')"
  shows "writer_ok page w' \<and> lw_entries w' = lw_entries w @ [(c, None)]"
proof -
  have p: "parent_ok w None" by (simp add: parent_ok_def)
  show ?thesis
    using assms(2) picture_writer.writes [OF assms(1) p] table_writer.writes [OF assms(1) p]
      title_writer.writes [OF assms(1) p] heading_writer.writes [OF assms(1) p] text_writer.writes [OF assms(1) p]
    by (auto simp: write_block_def kBodyRef_def Let_def split: if_splits prod.splits)
qed

text \<open>The blocks in the order they are written: a caption ahead of its owner.\<close>

definition block_order :: "ds_block list \<Rightarrow> nat \<Rightarrow> nat list" where
  "block_order blocks i =
     (if has_caption_next blocks i then [i + 1] else []) @ (if already_written blocks i then [] else [i])"

definition written_order :: "ds_block list \<Rightarrow> nat list" where
  "written_order blocks = concat (map (block_order blocks) [0..<length blocks])"

definition is_text_block :: "ds_block \<Rightarrow> bool" where
  "is_text_block b \<longleftrightarrow> ds_label b \<notin> {''figure'', ''image'', ''table''}"

definition block_text :: "ds_block \<Rightarrow> string" where
  "block_text b = (if ds_label b = ''title'' \<or> ds_label b = ''sub_title'' then fst (strip_hashes (ds_content b)) else ds_content b)"

definition order_texts :: "ds_block list \<Rightarrow> nat list \<Rightarrow> string list" where
  "order_texts blocks is = map block_text (filter is_text_block (map ((!) blocks) is))"

text \<open>What kind of item a block becomes, and the references of items numbered kind by kind.\<close>

definition block_kind :: "ds_block \<Rightarrow> child_kind" where
  "block_kind b =
     (if ds_label b = ''figure'' \<or> ds_label b = ''image'' then PICTURE else if ds_label b = ''table'' then TABLE else TEXT)"

definition numbered_refs :: "child_kind list \<Rightarrow> body_child list" where
  "numbered_refs kinds = map (\<lambda>k. (kinds ! k, count_list (take k kinds) (kinds ! k))) [0..<length kinds]"

lemma numbered_refs_snoc: "numbered_refs (kinds @ [k]) = numbered_refs kinds @ [(k, count_list kinds k)]"
  by (auto simp: numbered_refs_def nth_append)

lemma length_numbered [simp]: "length (numbered_refs kinds) = length kinds"
  by (simp add: numbered_refs_def)

definition item_count :: "document \<Rightarrow> child_kind \<Rightarrow> nat" where
  "item_count doc k =
     (case k of TEXT \<Rightarrow> length (doc_texts doc) | PICTURE \<Rightarrow> length (doc_pictures doc)
      | TABLE \<Rightarrow> length (doc_tables doc) | _ \<Rightarrow> 0)"

definition written :: "page_context \<Rightarrow> ds_block list \<Rightarrow> nat list \<Rightarrow> writer \<Rightarrow> bool" where
  "written page blocks is w \<longleftrightarrow>
     writer_ok page w \<and> map fst (lw_entries w) = numbered_refs (map (\<lambda>i. block_kind (blocks ! i)) is)
     \<and> (\<forall>e \<in> set (lw_entries w). snd e = None)
     \<and> item_count (lw_doc w) = count_list (map (\<lambda>i. block_kind (blocks ! i)) is)
     \<and> page_texts (lw_doc w) = order_texts blocks is"

lemma caption_of_cases: "caption_of l = [] \<or> (ends_with (caption_of l) ''_caption'' \<and> caption_of l \<notin> {''figure'', ''image'', ''table'', ''title'', ''sub_title''})"
  by (simp add: caption_of_def suffix_to_prefix)

lemma already_written_Suc: "Suc i < length blocks \<Longrightarrow> already_written blocks (Suc i) \<longleftrightarrow> has_caption_next blocks i"
  using caption_of_cases [of "ds_label (blocks ! i)"]
  by (auto simp: already_written_def has_caption_next_def)

lemma order_prefix:
  assumes "m \<le> length blocks"
  shows "mset (concat (map (block_order blocks) [0..<m]))
    = mset [0..<m] + (if 0 < m \<and> has_caption_next blocks (m - 1) then {#m#} else {#})"
  using assms
proof (induction m)
  case (Suc m)
  have "already_written blocks m \<longleftrightarrow> 0 < m \<and> has_caption_next blocks (m - 1)"
    using already_written_Suc [of "m - 1" blocks] Suc.prems by (cases m) (auto simp: already_written_def)
  with Suc show ?case by (auto simp: block_order_def)
qed simp

lemma written_order_perm: "mset (written_order blocks) = mset [0..<length blocks]"
proof -
  have "\<not> has_caption_next blocks (length blocks - 1)" by (auto simp: has_caption_next_def)
  then show ?thesis using order_prefix [of "length blocks" blocks] by (simp add: written_order_def)
qed

lemma write_block_texts:
  assumes "write_block lib rnd byte_size page block w = (c, w')"
  shows "page_texts (lw_doc w') = page_texts (lw_doc w) @ (if is_text_block block then [block_text block] else [])"
  using assms
  by (auto simp: write_block_def is_text_block_def block_text_def Let_def write_page_texts other_page_texts
      split: if_splits prod.splits)

lemma attach_crop_counts: "item_count (lw_doc (attach_crop lib rnd page box w)) = item_count (lw_doc w)"
  by (auto simp: fun_eq_iff item_count_def attach_crop_def Let_def map_last_picture_def at_index_def
      split: option.split prod.split crop_result.split child_kind.split)

definition counts_one_more :: "child_kind \<Rightarrow> writer \<Rightarrow> body_child \<times> writer \<Rightarrow> bool" where
  "counts_one_more k w = (\<lambda>(c, w'). c = (k, item_count (lw_doc w) k)
     \<and> item_count (lw_doc w') = (item_count (lw_doc w))(k := Suc (item_count (lw_doc w) k)))"

lemma push_counts: "counts_one_more TEXT w (enter_text parent (push_text item (lw_doc w)) w)"
  by (auto simp: counts_one_more_def fun_eq_iff item_count_def enter_text_def add_entry_def push_text_def
      split: child_kind.split option.splits)

lemma write_counts:
  "counts_one_more TEXT w (write_text page label box body parent w)"
  "counts_one_more TEXT w (write_title page box body parent w)"
  "counts_one_more TEXT w (write_heading page level box body parent w)"
  by (simp_all add: text_writers push_counts)

lemma write_picture_counts: "counts_one_more PICTURE w (write_picture lib rnd page box parent w)"
proof -
  let ?w = "w\<lparr>lw_doc := add_picture page (layout_prov page box 0) (lw_doc w)\<rparr>"
  have "item_count (lw_doc (attach_crop lib rnd page box ?w)) = (item_count (lw_doc w))(PICTURE := Suc (item_count (lw_doc w) PICTURE))"
    unfolding attach_crop_counts by (auto simp: fun_eq_iff item_count_def add_picture_def Let_def split: child_kind.split)
  moreover from fun_cong [OF this, of PICTURE]
  have "length (doc_pictures (lw_doc (attach_crop lib rnd page box ?w))) = Suc (item_count (lw_doc w) PICTURE)"
    by (simp add: item_count_def)
  ultimately show ?thesis
    by (simp add: counts_one_more_def write_picture_def Let_def add_entry_def split: option.split)
qed

lemma write_table_counts: "counts_one_more TABLE w (write_table byte_size page box cells parent w)"
  by (auto simp: counts_one_more_def fun_eq_iff item_count_def write_table_def add_entry_def add_table_def
      set_last_table_data_def at_index_def Let_def split: child_kind.split option.splits prod.splits)

lemma write_block_counts: "counts_one_more (block_kind block) w (write_block lib rnd byte_size page block w)"
  by (simp add: write_block_def block_kind_def Let_def write_counts write_picture_counts write_table_counts split: prod.split)

lemma counts_snoc:
  assumes "counts_one_more k w (c, w')" and "map fst (lw_entries w) = numbered_refs kinds"
    and "item_count (lw_doc w) = count_list kinds" and "lw_entries w' = lw_entries w @ [(c, p)]"
  shows "map fst (lw_entries w') = numbered_refs (kinds @ [k]) \<and> item_count (lw_doc w') = count_list (kinds @ [k])"
  using assms by (auto simp: counts_one_more_def numbered_refs_snoc fun_eq_iff)

lemma link_counts: "item_count (lw_doc (link_caption owner caption w)) = item_count (lw_doc w)"
  by (auto simp: fun_eq_iff item_count_def link_caption_def edit_picture_def edit_table_def edit_text_def at_index_def Let_def
      split: child_kind.split)

lemma written_snoc:
  assumes "written page blocks is w" and "write_block lib rnd byte_size page (blocks ! i) w = (c, w')"
  shows "written page blocks (is @ [i]) w'"
proof -
  have "counts_one_more (block_kind (blocks ! i)) w (c, w')"
    using write_block_counts [of "blocks ! i" w lib rnd byte_size page] assms(2) by simp
  from counts_snoc [OF this] assms(1) write_block_ok [OF _ assms(2)] write_block_texts [OF assms(2)]
  show ?thesis by (auto simp: written_def order_texts_def)
qed

lemma written_caption:
  assumes "written page blocks is w" and "has_caption_next blocks i"
    and "write_text page label box (ds_content (blocks ! (i + 1))) kBodyRef w = (c, w')"
  shows "written page blocks (is @ [i + 1]) w'"
proof -
  have "parent_ok w None" by (simp add: parent_ok_def)
  with assms text_writer.writes [of page w None label box "ds_content (blocks ! (i + 1))" c w']
  have "writer_ok page w' \<and> lw_entries w' = lw_entries w @ [(c, None)]" by (simp add: written_def kBodyRef_def)
  moreover have "is_text_block (blocks ! (i + 1))" "block_text (blocks ! (i + 1)) = ds_content (blocks ! (i + 1))"
    using assms(2) caption_of_cases [of "ds_label (blocks ! i)"]
    by (auto simp: has_caption_next_def is_text_block_def block_text_def)
  moreover have "block_kind (blocks ! (i + 1)) = TEXT"
    using assms(2) caption_of_cases [of "ds_label (blocks ! i)"] by (auto simp: has_caption_next_def block_kind_def)
  moreover have "counts_one_more TEXT w (c, w')"
    using write_counts(1) [of w page label box "ds_content (blocks ! (i + 1))" kBodyRef] assms(3) by simp
  ultimately show ?thesis
    using assms(1) write_page_texts(1) [OF assms(3)] counts_snoc [of TEXT w c w' "map (\<lambda>i. block_kind (blocks ! i)) is" None]
    by (auto simp: written_def order_texts_def)
qed

lemma written_link: "written page blocks is w \<Longrightarrow> written page blocks is (link_caption owner caption w)"
  using caption_linker.edits [of page w owner caption] by (simp add: written_def link_page_texts link_counts)

lemma deepseek_block_written:
  assumes "written page blocks is w"
  shows "written page blocks (is @ block_order blocks i) (deepseek_block lib rnd byte_size page blocks i w)"
proof -
  define step where "step = (if has_caption_next blocks i
    then apfst Some (write_text page DOC_ITEM_LABEL_CAPTION (Some (ds_box (blocks ! (i + 1))))
           (ds_content (blocks ! (i + 1))) kBodyRef w)
    else (None, w))"
  obtain caption w1 where s: "step = (caption, w1)" by fastforce
  have one: "written page blocks (is @ (if has_caption_next blocks i then [i + 1] else [])) w1"
    using s assms written_caption [OF assms] by (auto simp: step_def apfst_def map_prod_def split: if_splits prod.splits)
  obtain ref w2 where b: "write_block lib rnd byte_size page (blocks ! i) w1 = (ref, w2)" by fastforce
  have "deepseek_block lib rnd byte_size page blocks i w = (if already_written blocks i then w1
      else case caption of None \<Rightarrow> w2 | Some c \<Rightarrow> link_caption ref c w2)"
    by (simp add: deepseek_block_def s [unfolded step_def] b)
  with one written_snoc [OF one b] show ?thesis
    by (auto simp: block_order_def written_link split: option.split)
qed

lemma deepseek_writer_written: "written page blocks (written_order blocks) (deepseek_writer lib rnd byte_size page blocks)"
proof -
  have "written page blocks (is @ concat (map (block_order blocks) js))
      (fold (deepseek_block lib rnd byte_size page blocks) js w)" if "written page blocks is w" for "is" js w
    using that
  proof (induction js arbitrary: "is" w)
    case (Cons j js)
    from Cons.IH [OF deepseek_block_written [OF Cons.prems]] show ?case by simp
  qed simp
  moreover have "written page blocks [] (new_writer page)"
    by (simp add: written_def new_writer_ok order_texts_def page_texts_def)
      (auto simp: new_writer_def empty_document_def numbered_refs_def fun_eq_iff item_count_def split: child_kind.split)
  ultimately show ?thesis
    by (metis append_Nil deepseek_writer_def written_order_def)
qed

section \<open>The cells of a table keep apart\<close>

definition taken_shape :: "nat \<Rightarrow> nat \<Rightarrow> taken \<Rightarrow> bool" where
  "taken_shape rows cols taken \<longleftrightarrow> length taken = rows \<and> (\<forall>row \<in> set taken. length row = cols)"

definition marked :: "span_cell set \<Rightarrow> nat \<Rightarrow> nat \<Rightarrow> taken \<Rightarrow> bool" where
  "marked P rows cols taken \<longleftrightarrow>
     (\<forall>a \<in> P. \<forall>r c. sp_row a \<le> r \<and> r < sp_row a + sp_row_span a \<and> sp_col a \<le> c \<and> c < sp_col a + sp_col_span a
        \<and> r < rows \<and> c < cols \<longrightarrow> taken ! r ! c)"

lemma free_col_facts: "col \<le> free_col taken cols r col \<and> (free_col taken cols r col < cols \<longrightarrow> \<not> taken ! r ! free_col taken cols r col)"
  by (induction taken cols r col rule: free_col.induct) (subst (1 2 3) free_col.simps, auto)

lemma take_span_shape: "taken_shape rows cols taken \<Longrightarrow> taken_shape rows cols (take_span r c re ce taken)"
  by (auto simp: taken_shape_def take_span_def in_set_enumerate_eq split: if_splits)

lemma take_span_nth:
  "taken_shape rows cols taken \<Longrightarrow> i < rows \<Longrightarrow> j < cols \<Longrightarrow>
    take_span r c re ce taken ! i ! j \<longleftrightarrow> taken ! i ! j \<or> (r \<le> i \<and> i < re \<and> c \<le> j \<and> j < ce)"
  by (auto simp: taken_shape_def take_span_def nth_enumerate_eq)

definition spans_ok :: "raw_cell list \<Rightarrow> bool" where
  "spans_ok raws \<longleftrightarrow> (\<forall>raw \<in> set raws. 1 \<le> rw_colspan raw \<and> 1 \<le> rw_rowspan raw)"

definition ds_row_placed :: "nat \<Rightarrow> nat \<Rightarrow> nat \<Rightarrow> span_cell list \<Rightarrow> bool" where
  "ds_row_placed cols r col cells \<longleftrightarrow>
     (\<forall>b \<in> set cells. sp_row b = r \<and> col \<le> sp_col b \<and> 1 \<le> sp_row_span b \<and> 1 \<le> sp_col_span b)
     \<and> sorted_wrt (\<lambda>a b. sp_col a < sp_col b) cells"

lemma deepseek_row_facts:
  assumes "deepseek_row rows cols r raws col taken = (cells, taken')" and "taken_shape rows cols taken" and "r < rows"
    and "marked P rows cols taken" and "spans_ok raws"
  shows "ds_row_placed cols r col cells \<and> taken_shape rows cols taken' \<and> marked (P \<union> set cells) rows cols taken'
    \<and> (\<forall>b \<in> set cells. \<forall>a \<in> P. \<not> hides a b) \<and> sorted_wrt (\<lambda>a b. \<not> hides a b) cells"
  using assms(1,2,4,5)
proof (induction raws arbitrary: col taken cells P)
  case Nil
  then show ?case by (simp add: ds_row_placed_def)
next
  case (Cons raw raws)
  define c where "c = free_col taken cols r col"
  define b where "b = deepseek_cell rows cols r c raw"
  define t where "t = take_span r c (min (r + rw_rowspan raw) rows) (min (c + rw_colspan raw) cols) taken"
  have c: "col \<le> c" "c < cols \<Longrightarrow> \<not> taken ! r ! c" using free_col_facts by (simp_all add: c_def)
  have step: "deepseek_row rows cols r (raw # raws) col taken = (if cols \<le> c then ([], taken)
      else apfst ((#) b) (deepseek_row rows cols r raws (c + rw_colspan raw) t))"
    by (simp add: c_def b_def t_def Let_def)
  show ?case
  proof (cases "cols \<le> c")
    case True
    then have "cells = []" "taken' = taken" using Cons.prems(1) step by simp_all
    with Cons.prems show ?thesis by (simp add: ds_row_placed_def)
  next
    case False
    then obtain later where m: "deepseek_row rows cols r raws (c + rw_colspan raw) t = (later, taken')" "cells = b # later"
      using Cons.prems(1) unfolding step
      by (cases "deepseek_row rows cols r raws (c + rw_colspan raw) t") auto
    have raw: "1 \<le> rw_colspan raw" "1 \<le> rw_rowspan raw" "spans_ok raws" using Cons.prems(4) by (simp_all add: spans_ok_def)
    have bf: "sp_row b = r" "sp_col b = c" "sp_row_span b = min (rw_rowspan raw) (rows - r)"
      "sp_col_span b = min (rw_colspan raw) (cols - c)"
      by (simp_all add: b_def deepseek_cell_def Let_def)
    have t: "taken_shape rows cols t" using Cons.prems(2) by (simp add: t_def take_span_shape)
    have rec: "marked (insert b P) rows cols t"
      using Cons.prems(3) take_span_nth [OF Cons.prems(2)] by (auto simp: marked_def t_def bf)
    note ih = Cons.IH [OF m(1) t rec raw(3)]
    have new: "\<not> hides a b" if "a \<in> P" for a
      using Cons.prems(3) that c(2) False assms(3) bf by (fastforce simp: marked_def hides_def)
    have "c < sp_col d" if "d \<in> set later" for d using ih that raw(1) by (force simp: ds_row_placed_def)
    with ih new m(2) bf raw c(1) False assms(3) show ?thesis by (auto simp: ds_row_placed_def)
  qed
qed

lemma deepseek_rows_tidy:
  assumes "taken_shape rows cols taken" and "marked P rows cols taken" and "r + length raws \<le> rows"
    and "\<forall>cells \<in> set raws. spans_ok cells" and "\<forall>a \<in> P. sp_row a < r"
  shows "tidy (deepseek_rows rows cols r raws taken)
    \<and> (\<forall>b \<in> set (deepseek_rows rows cols r raws taken). r \<le> sp_row b \<and> (\<forall>a \<in> P. \<not> hides a b))"
  using assms
proof (induction raws arbitrary: r taken P)
  case Nil
  then show ?case by (simp add: tidy_def)
next
  case (Cons raw raws)
  obtain cells t where c: "deepseek_row rows cols r raw 0 taken = (cells, t)" by fastforce
  have f: "ds_row_placed cols r 0 cells" "taken_shape rows cols t" "marked (P \<union> set cells) rows cols t"
    "\<forall>b \<in> set cells. \<forall>a \<in> P. \<not> hides a b" "sorted_wrt (\<lambda>a b. \<not> hides a b) cells"
    using deepseek_row_facts [OF c Cons.prems(1) _ Cons.prems(2)] Cons.prems(3,4) by auto
  have rows: "\<forall>a \<in> set cells. sp_row a = r" using f(1) by (simp add: ds_row_placed_def)
  have "\<forall>a \<in> P \<union> set cells. sp_row a < Suc r" using Cons.prems(5) rows by auto
  then have ih: "tidy (deepseek_rows rows cols (Suc r) raws t)
    \<and> (\<forall>b \<in> set (deepseek_rows rows cols (Suc r) raws t). Suc r \<le> sp_row b \<and> (\<forall>a \<in> P \<union> set cells. \<not> hides a b))"
    using Cons.IH [OF f(2,3), of "Suc r"] Cons.prems(3,4) by simp
  have behind: "\<not> hides b a" if "a \<in> set cells" "b \<in> set (deepseek_rows rows cols (Suc r) raws t)" for a b
  proof -
    have "Suc r \<le> sp_row b" "sp_row a = r" using ih rows that by auto
    then show ?thesis by (simp add: hides_def)
  qed
  have same_row: "sorted_wrt (\<lambda>a b. \<not> hides a b \<and> \<not> hides b a) cells"
    using f(1,5) unfolding ds_row_placed_def sorted_wrt_iff_nth_less by (meson hides_def leD)
  have "tidy (cells @ deepseek_rows rows cols (Suc r) raws t)"
    using ih f(1) same_row behind by (auto simp: tidy_def sorted_wrt_append ds_row_placed_def)
  with c ih f rows show ?case by auto
qed

lemma raw_cells_spans: "raw_cells nodes = Some raws \<Longrightarrow> spans_ok raws"
proof (induction nodes arbitrary: raws)
  case (Cons node nodes)
  have "1 \<le> nat (std_clamp x 1 (int kMaxTableCells))" for x
    using std_clamp_bounds [of 1 "int kMaxTableCells" x] by (simp add: kMaxTableCells_def) linarith
  with Cons show ?case by (auto simp: spans_ok_def split: if_splits option.splits)
qed (simp add: spans_ok_def)

lemma raw_rows_spans: "raw_rows nodes = Some raws \<Longrightarrow> \<forall>cells \<in> set raws. spans_ok cells"
  by (induction nodes arbitrary: raws) (auto split: option.splits dest: raw_cells_spans)

lemma place_raw_rows_tidy:
  assumes "\<forall>cells \<in> set raws. spans_ok cells"
  shows "tidy (place_raw_rows raws)"
proof -
  define cols where "cols = min (fold (\<lambda>cells m. max m (sum_list (map rw_colspan cells))) raws 0) (kMaxTableCols * 4)"
  have "taken_shape (length raws) cols (replicate (length raws) (replicate cols False))" by (simp add: taken_shape_def)
  from deepseek_rows_tidy [OF this, of "{}" 0 raws] assms show ?thesis
    by (simp add: place_raw_rows_def Let_def marked_def cols_def)
qed

interpretation deepseek_reader: cell_reader deepseek_table_cells
  by unfold_locales
    (auto simp: deepseek_table_cells_def tidy_def [of "[]"] place_raw_rows_tidy raw_rows_spans split: option.split)

section \<open>Properties\<close>

text \<open>
  Every cell DeepSeek-OCR writes in a table keeps its place: the table is within the caps
  and rectangular, and the position a cell is anchored at shows that very cell.
\<close>

theorem deepseek_anchors_visible:
  assumes "fill_span_table byte_size (deepseek_table_cells content) = (data, report)" and "\<not> cut_grid_omitted report"
  shows "table_ok data
    \<and> (\<forall>cell \<in> set (td_cells data).
         nat (tc_start_row cell) < nat (td_num_rows data) \<and> nat (tc_start_col cell) < nat (td_num_cols data)
         \<and> td_grid data ! nat (tc_start_row cell) ! nat (tc_start_col cell) = cell)"
  by (rule deepseek_reader.anchors_visible [OF assms])

theorem deepseek_anchors_visible_witness:
  "\<exists>data report. fill_span_table (\<lambda>_. 0) (deepseek_table_cells ''<table><tr><th>a</th><td>b</td></tr></table>'') = (data, report)
     \<and> \<not> cut_grid_omitted report \<and> table_ok data
     \<and> (\<forall>cell \<in> set (td_cells data). td_grid data ! nat (tc_start_row cell) ! nat (tc_start_col cell) = cell)"
proof -
  obtain data report
    where f: "fill_span_table (\<lambda>_. 0) (deepseek_table_cells ''<table><tr><th>a</th><td>b</td></tr></table>'') = (data, report)"
    by fastforce
  have o: "\<not> cut_grid_omitted report" using f free_grid by (auto simp: fill_span_table_def Let_def split: prod.splits)
  from deepseek_anchors_visible [OF f o] f o show ?thesis by blast
qed

text \<open>A caption is the block right behind a table, figure or image, labelled as the caption of that kind.\<close>

definition is_caption_of :: "ds_block list \<Rightarrow> nat \<Rightarrow> nat \<Rightarrow> bool" where
  "is_caption_of blocks owner j \<longleftrightarrow>
     j = owner + 1 \<and> ds_label (blocks ! owner) \<in> {''table'', ''figure'', ''image''}
     \<and> ds_label (blocks ! j) = ds_label (blocks ! owner) @ ''_caption''"

text \<open>The order a page is written in: reading order, but a caption ahead of its owner.\<close>

definition goes_first :: "ds_block list \<Rightarrow> nat \<Rightarrow> nat \<Rightarrow> bool" where
  "goes_first blocks a b \<longleftrightarrow> is_caption_of blocks b a \<or> a < b \<and> \<not> is_caption_of blocks a b"

lemma caption_next: "i + 1 < length blocks \<Longrightarrow> has_caption_next blocks i \<longleftrightarrow> is_caption_of blocks i (i + 1)"
  by (auto simp: has_caption_next_def is_caption_of_def caption_of_def)

lemma caption_written: "j < length blocks \<Longrightarrow> already_written blocks j \<longleftrightarrow> 0 < j \<and> is_caption_of blocks (j - 1) j"
  using already_written_Suc [of "j - 1" blocks] caption_next [of "j - 1" blocks]
  by (cases j) (auto simp: already_written_def)

lemma caption_of_caption: "is_caption_of blocks i j \<Longrightarrow> \<not> is_caption_of blocks j k"
  by (auto simp: is_caption_of_def)

lemma in_block_order:
  assumes "x \<in> set (block_order blocks i)" and "i < length blocks"
  shows "x = i \<and> (0 < i \<longrightarrow> \<not> is_caption_of blocks (i - 1) i) \<or> x = i + 1 \<and> is_caption_of blocks i (i + 1)"
proof -
  have "has_caption_next blocks i \<Longrightarrow> i + 1 < length blocks" by (simp add: has_caption_next_def)
  with assms show ?thesis
    by (auto simp: block_order_def caption_written caption_next [simplified] split: if_splits)
qed

lemma written_order_sorted: "sorted_wrt (goes_first blocks) (written_order blocks)"
  unfolding written_order_def
proof (rule sorted_wrt_concat_rows)
  fix r assume "r < length blocks"
  then show "sorted_wrt (goes_first blocks) (block_order blocks r)"
    using caption_next [of r blocks] by (auto simp: block_order_def goes_first_def has_caption_next_def)
next
  fix r s x y
  assume l: "r < s" "s < length blocks" "x \<in> set (block_order blocks r)" "y \<in> set (block_order blocks s)"
  have x: "x = r \<and> (0 < r \<longrightarrow> \<not> is_caption_of blocks (r - 1) r) \<or> x = r + 1 \<and> is_caption_of blocks r (r + 1)"
    using in_block_order [OF l(3)] l by simp
  have y: "y = s \<and> \<not> is_caption_of blocks (s - 1) s \<or> y = s + 1 \<and> is_caption_of blocks s (s + 1)"
    using in_block_order [OF l(4)] l by auto
  have "x < y" using x y l(1) by (cases "s = r + 1") auto
  moreover have "\<not> is_caption_of blocks x y"
  proof
    assume c: "is_caption_of blocks x y"
    then have "x = r" using x caption_of_caption by blast
    with c l(1) y show False by (auto simp: is_caption_of_def)
  qed
  ultimately show "goes_first blocks x y" by (simp add: goes_first_def)
qed

text \<open>
  C28: a DeepSeek-OCR page.  Blocks become items one for one, whatever the model wrote: there is
  an order of all blocks, reading order but for a caption, which goes ahead of the table,
  figure or image it follows, and the children of the body are the items of the blocks in that
  order, pictures, tables and texts each numbered as they come; the document is the tree of
  those items and no others, each attributed to the page; and its texts are those of the text
  blocks in that order.  The page fails exactly when no line opens a block.
\<close>

theorem deepseek_page:
  "case map_deepseek_ocr dbl lib rnd byte_size page body of
     Inl e \<Rightarrow> page_blocks dbl rnd page body = [] \<and> e = ''DeepSeek-OCR response produced no document items''
   | Inr (doc, ws) \<Rightarrow>
       let blocks = page_blocks dbl rnd page body
       in blocks \<noteq> [] \<and> sound page doc
          \<and> (\<exists>order. mset order = mset [0..<length blocks] \<and> sorted_wrt (goes_first blocks) order
               \<and> is_tree (map (\<lambda>c. (c, None)) (numbered_refs (map (\<lambda>i. block_kind (blocks ! i)) order))) doc
               \<and> it_children (doc_body doc) = map ref_name (numbered_refs (map (\<lambda>i. block_kind (blocks ! i)) order))
               \<and> page_texts doc = order_texts blocks order)"
proof -
  define blocks where "blocks = page_blocks dbl rnd page body"
  define w where "w = deepseek_writer lib rnd byte_size page blocks"
  let ?refs = "numbered_refs (map (\<lambda>i. block_kind (blocks ! i)) (written_order blocks))"
  have n: "length (written_order blocks) = length blocks"
    using written_order_perm [of blocks] by (metis length_upt diff_zero size_mset)
  have w: "writer_ok page w" "map fst (lw_entries w) = ?refs" "\<forall>e \<in> set (lw_entries w). snd e = None"
    "page_texts (lw_doc w) = order_texts blocks (written_order blocks)"
    using deepseek_writer_written [of page blocks lib rnd byte_size] by (auto simp: written_def w_def)
  have len: "length (lw_entries w) = length blocks" using arg_cong [OF w(2), of length] n by simp
  have f: "map_deepseek_ocr dbl lib rnd byte_size page body = finish page ''DeepSeek-OCR'' False w"
    by (simp add: map_deepseek_ocr_def w_def blocks_def)
  show ?thesis
  proof (cases "finish page ''DeepSeek-OCR'' False w")
    case (Inl e)
    then show ?thesis using len by (auto simp: f finish_def simp flip: blocks_def split: if_splits)
  next
    case (Inr r)
    obtain doc ws where r: "r = (doc, ws)" by fastforce
    have some: "blocks \<noteq> []" using Inr len by (auto simp: finish_def split: if_splits)
    have es: "lw_entries w = map (\<lambda>c. (c, None)) ?refs"
      unfolding w(2) [symmetric] using w(3) by (simp add: map_idI prod_eq_iff)
    have tree: "is_tree (map (\<lambda>c. (c, None)) ?refs) doc"
      using finish_tree [OF w(1) Inr [unfolded r]] es by simp
    moreover have "it_children (doc_body doc) = map ref_name ?refs"
      using tree by (simp add: is_tree_def kids_def comp_def)
    ultimately show ?thesis
      using some Inr r finish_sound [OF w(1) Inr [unfolded r]] finish_page_texts [OF w(1) Inr [unfolded r]] w(4)
        written_order_perm [of blocks] written_order_sorted [of blocks]
      by (auto simp: f Let_def simp flip: blocks_def)
  qed
qed

section \<open>Annotations read back\<close>

definition box_numbers :: "nat \<Rightarrow> nat \<Rightarrow> nat \<Rightarrow> nat \<Rightarrow> string" where
  "box_numbers a b c d = show_nat a @ '','' @ show_nat b @ '','' @ show_nat c @ '','' @ show_nat d"

lemma numbers_cut:
  "\<not> is_digit x \<Longrightarrow> takeWhile is_digit (show_nat n @ x # s) = show_nat n"
  "\<not> is_digit x \<Longrightarrow> dropWhile is_digit (show_nat n @ x # s) = x # s"
  using show_nat_digits [of n] by (simp_all add: list_all_iff takeWhile_append dropWhile_append)

lemma labels_cut:
  "list_all P label \<Longrightarrow> \<not> P x \<Longrightarrow> takeWhile P (label @ x # s) = label"
  "list_all P label \<Longrightarrow> \<not> P x \<Longrightarrow> dropWhile P (label @ x # s) = x # s"
  by (simp_all add: list_all_iff takeWhile_append dropWhile_append)

lemma show_nat_head: "\<exists>x xs. show_nat n = x # xs \<and> is_digit x"
  using show_nat_digits [of n] show_nat_nonempty [of n] by (cases "show_nat n") auto

lemma digit_not_space: "is_digit c \<Longrightarrow> \<not> is_space c" "is_digit c \<Longrightarrow> c \<noteq> CHR '',''"
  by (auto simp: ctype_defs)

lemma spaces_before_number: "takeWhile is_space (show_nat n @ s) = []" "dropWhile is_space (show_nat n @ s) = show_nat n @ s"
  using show_nat_head [of n] digit_not_space by (auto simp del: show_nat.simps)

lemma inline_box_numbers: "inline_box (box_numbers a b c d @ CHR '']'' # s) = Some (box_numbers a b c d, CHR '']'' # s)"
proof -
  have x: "\<not> is_digit CHR '',''" "\<not> is_digit CHR '']''" "\<not> is_space CHR '',''" "\<not> is_space CHR '']''" by (simp_all add: ctype_defs)
  show ?thesis
    by (simp add: inline_box_def box_numbers_def numeral_3_eq_3 numbers_cut spaces_before_number x Let_def del: show_nat.simps)
qed

lemma inline_annotation_form:
  assumes "label \<noteq> []" and "list_all is_label_char label"
  shows "inline_annotation (label @ '' ['' @ box_numbers a b c d @ '']<|/det|>'' @ rest) = Some (label, box_numbers a b c d, rest)"
proof -
  have l: "\<not> is_space (hd label)" using assms by (cases label) (auto simp: is_label_char_def ctype_defs)
  then have "dropWhile is_space (label @ s) = label @ s" for s using assms(1) by (cases label) auto
  moreover have "\<not> is_label_char CHR '' ''" "\<not> is_space CHR ''[''" "is_space CHR '' ''" by (simp_all add: is_label_char_def ctype_defs)
  moreover note labels_cut [of is_label_char label "CHR '' ''", OF assms(2)]
    inline_box_numbers [of a b c d "''<|/det|>'' @ rest"]
  ultimately show ?thesis using assms(1) by (simp add: inline_annotation_def Let_def)
qed

lemma parse_number_show: "parse_number dbl (show_nat n) = dbl (real n)"
proof -
  have d: "list_all is_digit (show_nat n)" by (rule show_nat_digits)
  then have "strip_view (show_nat n) = show_nat n"
    unfolding strip_view_def by (intro strip_by_id) (use digit_not_space in \<open>auto simp: list_all_iff simp del: show_nat.simps\<close>)
  moreover have "show_nat n \<noteq> ''.''" using d by (auto simp: ctype_defs simp del: show_nat.simps)
  moreover have "decimal (show_nat n) = Some (real n)"
    using d by (simp add: decimal_def takeWhile_all dropWhile_all digits_value_show_nat Let_def del: show_nat.simps)
  ultimately show ?thesis by (simp add: parse_number_def del: show_nat.simps)
qed

lemma split_show: "split_at CHR '','' (show_nat n @ CHR '','' # s) = show_nat n # split_at CHR '','' s"
  "split_at CHR '','' (show_nat n) = [show_nat n]"
proof -
  have "CHR '','' \<notin> set (show_nat n)" using show_nat_digits [of n] digit_not_space(2) by (auto simp: list_all_iff simp del: show_nat.simps)
  moreover have "split_at sep (p @ sep # s) = p # split_at sep s" "split_at sep p = [p]" if "sep \<notin> set p" for sep p s
    using that by (induction p) auto
  ultimately show "split_at CHR '','' (show_nat n @ CHR '','' # s) = show_nat n # split_at CHR '','' s"
    "split_at CHR '','' (show_nat n) = [show_nat n]" by blast+
qed

definition annotation_line :: "string \<Rightarrow> string \<Rightarrow> string" where
  "annotation_line label box = ''<|ref|>'' @ label @ ''<|/ref|><|det|>[['' @ box @ '']]<|/det|>''"

lemma annotation_line_read:
  assumes "label \<noteq> []" and "list_all is_label_char label" and "\<forall>n \<in> {a, b, c, d}. dbl (real n) = Some (real n)"
  shows "annotation_at dbl (annotation_line label (box_numbers a b c d))
    = Some \<lparr>an_label = label, an_coords = [real a, real b, real c, real d]\<rparr>"
proof -
  let ?l = "annotation_line label (box_numbers a b c d)"
  have "strip_view ?l = ?l"
    unfolding strip_view_def by (rule strip_by_id) (simp add: annotation_line_def ctype_defs)
  moreover have w: "list_all is_word label" using assms(2) by (auto simp: list_all_iff is_label_char_def is_word_def ctype_defs)
  moreover have "\<not> is_word CHR ''<''" by (simp add: is_word_def ctype_defs)
  moreover note labels_cut [of is_word label "CHR ''<''", OF w]
  moreover have "list_all is_coord_char (box_numbers a b c d)"
    using show_nat_digits by (auto simp: box_numbers_def is_coord_char_def list_all_iff simp del: show_nat.simps)
  moreover note labels_cut [of is_coord_char "box_numbers a b c d" "CHR '']''", OF this]
  moreover have "\<not> is_coord_char CHR '']''" by (simp add: is_coord_char_def ctype_defs)
  moreover have "box_numbers a b c d \<noteq> []" by (simp add: box_numbers_def del: show_nat.simps)
  moreover have "split_at CHR '','' (box_numbers a b c d) = [show_nat a, show_nat b, show_nat c, show_nat d]"
    by (simp add: box_numbers_def split_show del: show_nat.simps)
  moreover have "strip_view [] = []" by (simp add: strip_view_def strip_by_Nil)
  ultimately show ?thesis
    using assms(1,3)
    by (simp add: annotation_at_def match_annotation_def annotation_line_def consume_def annotation_coords_def
        parse_number_show Let_def del: show_nat.simps)
qed

text \<open>
  An Unlimited-OCR annotation is read as what it says.  Wherever the model writes a label
  and four numbers in its own form, the rewritten text has a line of its own there, and the
  DeepSeek-OCR reader takes that line for an annotation of the same label and numbers.
\<close>

theorem unlimited_annotation_read:
  assumes "label \<noteq> []" and "list_all is_label_char label" and "CHR ''<'' \<notin> set before"
    and "\<forall>n \<in> {a, b, c, d}. dbl (real n) = Some (real n)"
  shows "\<exists>line. normalize_unlimited_ocr (before @ ''<|det|>'' @ label @ '' ['' @ box_numbers a b c d @ '']<|/det|>'' @ rest)
      = before @ line @ [LF] @ normalize_unlimited_ocr rest
    \<and> annotation_at dbl line = Some \<lparr>an_label = label, an_coords = [real a, real b, real c, real d]\<rparr>"
proof -
  have "find_sub ''<|det|>'' (before @ ''<|det|>'' @ s) = Some (before, s)" for s
    using assms(3) by (induction before) auto
  then have "normalize_unlimited_ocr (before @ ''<|det|>'' @ label @ '' ['' @ box_numbers a b c d @ '']<|/det|>'' @ rest)
      = before @ annotation_line label (box_numbers a b c d) @ [LF] @ normalize_unlimited_ocr rest"
    by (subst normalize_unlimited_ocr.simps)
      (simp only: option.case prod.case inline_annotation_form [OF assms(1,2)] annotation_line_def append_assoc)
  with annotation_line_read [OF assms(1,2,4)] show ?thesis by blast
qed

theorem unlimited_annotation_read_witness:
  "\<exists>line. normalize_unlimited_ocr (''A'' @ ''<|det|>'' @ ''title'' @ '' ['' @ box_numbers 1 2 30 4 @ '']<|/det|>'' @ ''B'')
      = ''A'' @ line @ [LF] @ normalize_unlimited_ocr ''B''
    \<and> annotation_at Some line = Some \<lparr>an_label = ''title'', an_coords = [1, 2, 30, 4]\<rparr>"
  using unlimited_annotation_read [of "''title''" "''A''" 1 2 30 4 Some "''B''"]
  by (simp add: is_label_char_def is_lower_def code_def del: show_nat.simps)

end
