(* ===== verification/Chandra_Runs.thy ===== *)
theory Chandra_Runs
  imports Layout
begin

text \<open>
  The first half of \<^verbatim>\<open>src/mapping/chandra.cpp\<close>: the formatted runs of inline HTML, the box of a
  block that the first item claiming it takes, and how a row of runs is written as one text item
  or as an inline group.
\<close>

section \<open>Characters and labels\<close>

definition kBlockTags :: "string list" where
  "kBlockTags = [''div'', ''p'', ''h1'', ''h2'', ''h3'', ''h4'', ''h5'', ''h6'', ''table'', ''ul'', ''ol'', ''li'',
                 ''pre'', ''figure'', ''form'', ''caption'', ''figcaption'', ''hr'']"

definition is_block :: "markup_node \<Rightarrow> bool" where
  "is_block node \<longleftrightarrow> \<not> is_text node \<and> mn_tag node \<in> set kBlockTags"

definition is_heading_tag :: "string \<Rightarrow> bool" where
  "is_heading_tag tag \<longleftrightarrow> length tag = 2 \<and> tag ! 0 = CHR ''h'' \<and> code CHR ''1'' \<le> code (tag ! 1) \<and> code (tag ! 1) \<le> code CHR ''6''"

text \<open>The element descendants of a node in document order, the node itself left out.\<close>

fun descendants :: "markup_node \<Rightarrow> markup_node list" where
  "descendants (MarkupNode tag t attrs cs) =
     concat (map (\<lambda>c. if is_text c then [] else c # descendants c) cs)"

definition any_descendant :: "(markup_node \<Rightarrow> bool) \<Rightarrow> markup_node \<Rightarrow> bool" where
  "any_descendant P node \<longleftrightarrow> list_ex P (descendants node)"

definition layout_label_of :: "string \<Rightarrow> doc_item_label option" where
  "layout_label_of name =
     map_of
       [(''Title'', DOC_ITEM_LABEL_TITLE), (''Section-Header'', DOC_ITEM_LABEL_SECTION_HEADER),
        (''Caption'', DOC_ITEM_LABEL_CAPTION), (''Footnote'', DOC_ITEM_LABEL_FOOTNOTE),
        (''Page-Header'', DOC_ITEM_LABEL_PAGE_HEADER), (''Page-Footer'', DOC_ITEM_LABEL_PAGE_FOOTER),
        (''Equation-Block'', DOC_ITEM_LABEL_FORMULA), (''Code-Block'', DOC_ITEM_LABEL_CODE),
        (''Bibliography'', DOC_ITEM_LABEL_REFERENCE)] name"

definition python_space :: "char \<Rightarrow> bool" where
  "python_space c \<longleftrightarrow> c \<in> {CHR '' '', TAB, LF, CR, CHR 0x0C, CHR 0x0B}"

definition strip_chars :: "string \<Rightarrow> string \<Rightarrow> string" where
  "strip_chars chars s = strip_by (\<lambda>c. c \<in> set chars) s"

definition py_strip :: "string \<Rightarrow> string" where
  "py_strip s = strip_chars [CHR '' '', TAB, LF, CR, CHR 0x0C, CHR 0x0B] s"

definition has_alnum :: "string \<Rightarrow> bool" where
  "has_alnum s \<longleftrightarrow> list_ex (\<lambda>c. is_alnum c \<or> 128 \<le> code c) s"

section \<open>Runs\<close>

record run =
  rn_text :: string
  rn_label :: doc_item_label
  rn_formatting :: formatting
  rn_hyperlink :: string

definition no_formatting :: formatting where
  "no_formatting = \<lparr>fm_bold = False, fm_italic = False, fm_underline = False, fm_strikethrough = False,
                    fm_script = SCRIPT_UNSPECIFIED\<rparr>"

text \<open>A message with all its fields at their defaults serializes to nothing.\<close>

definition plain_formatting :: "run \<Rightarrow> bool" where
  "plain_formatting r \<longleftrightarrow> rn_formatting r = no_formatting"

definition plain_run :: "run \<Rightarrow> bool" where
  "plain_run r \<longleftrightarrow> rn_label r = DOC_ITEM_LABEL_TEXT \<and> plain_formatting r \<and> rn_hyperlink r = []"

definition same_style :: "run \<Rightarrow> run \<Rightarrow> bool" where
  "same_style a b \<longleftrightarrow> rn_formatting a = rn_formatting b \<and> rn_hyperlink a = rn_hyperlink b"

text \<open>Every stretch of white space becomes one space.\<close>

fun collapse_runs_from :: "bool \<Rightarrow> string \<Rightarrow> string" where
  "collapse_runs_from space [] = (if space then '' '' else [])"
| "collapse_runs_from space (c # cs) =
     (if python_space c then collapse_runs_from True cs
      else (if space then '' '' else []) @ c # collapse_runs_from False cs)"

definition collapse_runs :: "string \<Rightarrow> string" where
  "collapse_runs = collapse_runs_from False"

definition tag_formatting :: "string \<Rightarrow> formatting \<Rightarrow> formatting" where
  "tag_formatting tag fmt =
     (if tag \<in> {''b'', ''strong''} then fmt\<lparr>fm_bold := True\<rparr>
      else if tag \<in> {''i'', ''em''} then fmt\<lparr>fm_italic := True\<rparr>
      else if tag = ''u'' then fmt\<lparr>fm_underline := True\<rparr>
      else if tag \<in> {''del'', ''s''} then fmt\<lparr>fm_strikethrough := True\<rparr>
      else if tag = ''sup'' then fmt\<lparr>fm_script := SCRIPT_SUPER\<rparr>
      else if tag = ''sub'' then fmt\<lparr>fm_script := SCRIPT_SUB\<rparr>
      else fmt)"

definition input_run :: "markup_node \<Rightarrow> formatting \<Rightarrow> string \<Rightarrow> run list" where
  "input_run node fmt link =
     (let kind = map to_lower (node_attr ''type'' ''text'' node);
          box = (kind = ''checkbox'' \<or> kind = ''radio'')
      in if kind = ''hidden'' then []
         else [\<lparr>rn_text = (if box then [] else html_text node),
                rn_label = (if box then (if has_attr ''checked'' node then DOC_ITEM_LABEL_CHECKBOX_SELECTED
                                         else DOC_ITEM_LABEL_CHECKBOX_UNSELECTED)
                            else DOC_ITEM_LABEL_FIELD_VALUE),
                rn_formatting = fmt, rn_hyperlink = link\<rparr>])"

text \<open>
  \<open>skip_chem\<close> is \<^verbatim>\<open>t_skip_chem\<close>: inside a picture whose one \<^verbatim>\<open><chem>\<close> is its molecule.  It always
  equals the builder's \<^verbatim>\<open>skip_chem_\<close>: \<^verbatim>\<open>picture\<close> sets and restores both together.
\<close>

fun inline_runs :: "bool \<Rightarrow> formatting \<Rightarrow> string \<Rightarrow> markup_node \<Rightarrow> run list" where
  "inline_runs skip_chem inherited inherited_link (MarkupNode tag t attrs cs) =
     (let node = MarkupNode tag t attrs cs;
          fmt = tag_formatting tag inherited;
          link = (if tag = ''a'' \<and> node_attr ''href'' [] node \<noteq> [] then node_attr ''href'' [] node else inherited_link)
      in if tag = []
         then [\<lparr>rn_text = collapse_runs t, rn_label = DOC_ITEM_LABEL_TEXT, rn_formatting = inherited,
                rn_hyperlink = inherited_link\<rparr>]
         else if tag = ''input'' then input_run node fmt link
         else if tag = ''math'' \<or> tag = ''code''
         then [\<lparr>rn_text = py_strip (html_text node),
                rn_label = (if tag = ''math'' then DOC_ITEM_LABEL_FORMULA else DOC_ITEM_LABEL_CODE),
                rn_formatting = fmt, rn_hyperlink = link\<rparr>]
         else if tag = ''br''
         then [\<lparr>rn_text = [LF], rn_label = DOC_ITEM_LABEL_TEXT, rn_formatting = fmt, rn_hyperlink = link\<rparr>]
         else if tag \<in> {''script'', ''style'', ''head''} \<or> (skip_chem \<and> tag = ''chem'') then []
         else concat (map (inline_runs skip_chem fmt link) cs))"

section \<open>The box of a block\<close>

text \<open>The coordinates of \<^verbatim>\<open>data-bbox\<close>: what white space separates.\<close>

function words :: "string \<Rightarrow> string list" where
  "words s =
     (let rest = dropWhile python_space s
      in if rest = [] then []
         else takeWhile (\<lambda>c. \<not> python_space c) rest # words (dropWhile (\<lambda>c. \<not> python_space c) rest))"
  by pat_completeness auto

lemma words_shorter:
  "dropWhile P s \<noteq> [] \<Longrightarrow> length (dropWhile (\<lambda>c. \<not> P c) (dropWhile P s)) < length s"
proof -
  assume "dropWhile P s \<noteq> []"
  then obtain c cs where c: "dropWhile P s = c # cs" by (cases "dropWhile P s") auto
  then have "\<not> P c" using hd_dropWhile [of P s] by simp
  moreover have "length (dropWhile (\<lambda>c. \<not> P c) cs) \<le> length cs" "length (c # cs) \<le> length s"
    using c length_dropWhile_le [of P s] length_dropWhile_le [of _ cs] by simp_all
  ultimately show ?thesis by (simp add: c)
qed

termination words by (relation "measure length") (simp_all add: words_shorter)

declare words.simps [simp del]

text \<open>
  \<^verbatim>\<open>std::from_chars\<close> to a double, all of the text: a sign, digits with a point, an exponent.
  \<open>dbl\<close> is the double nearest a number, none when it is out of range.  The texts of infinities and
  of NaN, which the code reads, are no number here: a box with such a coordinate fails its range
  check and is none either way.
\<close>

definition float_exponent :: "string \<Rightarrow> int option" where
  "float_exponent s =
     (if s = [] then Some 0
      else if hd s \<noteq> CHR ''e'' \<and> hd s \<noteq> CHR ''E'' then None
      else let rest = tl s; negative = (rest \<noteq> [] \<and> hd rest = CHR ''-'');
               ds = (if rest \<noteq> [] \<and> (hd rest = CHR ''-'' \<or> hd rest = CHR ''+'') then tl rest else rest)
           in if ds = [] \<or> \<not> list_all is_digit ds then None
              else Some (if negative then - int (digits_value ds) else int (digits_value ds)))"

definition float_text :: "(real \<Rightarrow> real option) \<Rightarrow> string \<Rightarrow> real option" where
  "float_text dbl s =
     (let negative = (s \<noteq> [] \<and> hd s = CHR ''-''); body = (if negative then tl s else s);
          digits = (\<lambda>c. is_digit c \<or> c = CHR ''.'')
      in case (decimal (takeWhile digits body), float_exponent (dropWhile digits body)) of
           (Some m, Some e) \<Rightarrow> dbl ((if negative then - m else m) * 10 powi e)
         | _ \<Rightarrow> None)"

definition py_float :: "(real \<Rightarrow> real option) \<Rightarrow> string \<Rightarrow> real option" where
  "py_float dbl piece = float_text dbl (if piece \<noteq> [] \<and> hd piece = CHR ''+'' then tl piece else piece)"

fun py_floats :: "(real \<Rightarrow> real option) \<Rightarrow> string list \<Rightarrow> real list option" where
  "py_floats dbl [] = Some []"
| "py_floats dbl (p # ps) =
     (case (py_float dbl p, py_floats dbl ps) of (Some v, Some vs) \<Rightarrow> Some (v # vs) | _ \<Rightarrow> None)"

definition provenance_box ::
  "(real \<Rightarrow> real option) \<Rightarrow> (real \<Rightarrow> real) \<Rightarrow> page_context \<Rightarrow> markup_node \<Rightarrow> bounding_box option" where
  "provenance_box dbl rnd page node =
     (case py_floats dbl (words (node_attr ''data-bbox'' [] node)) of
        Some [x0, y0, x1, y1] \<Rightarrow>
          if 0 \<le> x0 \<and> x0 \<le> x1 \<and> x1 \<le> 1000 \<and> 0 \<le> y0 \<and> y0 \<le> y1 \<and> y1 \<le> 1000
          then Some (grid_box rnd page [x0, y0, x1, y1] 1000) else None
      | _ \<Rightarrow> None)"

text \<open>\<^verbatim>\<open>Provenance\<close>; a pointer to it that may be null is an option.\<close>

record own_box =
  ow_box :: "bounding_box option"
  ow_text_owner :: bool
  ow_claimed :: bool

type_synonym own = "own_box option"

definition take_box :: "own \<Rightarrow> bounding_box option \<times> own" where
  "take_box prov =
     (case prov of
        None \<Rightarrow> (None, None)
      | Some p \<Rightarrow> if ow_box p = None \<or> ow_claimed p then (None, prov)
                  else (ow_box p, Some (p\<lparr>ow_claimed := True\<rparr>)))"

definition text_prov :: "own \<Rightarrow> bounding_box option \<times> own" where
  "text_prov prov =
     (case prov of None \<Rightarrow> (None, None) | Some p \<Rightarrow> if ow_text_owner p then take_box prov else (None, prov))"

section \<open>Writing runs\<close>

definition text_count :: "writer \<Rightarrow> nat" where
  "text_count w = length (doc_texts (lw_doc w))"

definition group_count :: "writer \<Rightarrow> nat" where
  "group_count w = length (doc_groups (lw_doc w))"

definition set_levels :: "nat \<Rightarrow> int \<Rightarrow> writer \<Rightarrow> writer" where
  "set_levels before level w = fold (\<lambda>i. set_heading_level i level) [before..<text_count w] w"

definition append_last :: "string \<Rightarrow> run list \<Rightarrow> run list" where
  "append_last t runs = butlast runs @ [(last runs)\<lparr>rn_text := rn_text (last runs) @ t\<rparr>]"

definition merge_run :: "run \<Rightarrow> run list \<Rightarrow> run list" where
  "merge_run r merged =
     (if merged \<noteq> [] \<and> rn_label r = DOC_ITEM_LABEL_TEXT \<and> rn_label (last merged) = DOC_ITEM_LABEL_TEXT
         \<and> same_style r (last merged)
      then append_last (rn_text r) merged else merged @ [r])"

definition merge_runs :: "run list \<Rightarrow> run list" where
  "merge_runs runs = fold merge_run runs []"

definition heading_label :: "doc_item_label \<Rightarrow> bool" where
  "heading_label label \<longleftrightarrow> label = DOC_ITEM_LABEL_SECTION_HEADER \<or> label = DOC_ITEM_LABEL_TITLE"

definition parent_is_heading :: "writer \<Rightarrow> lref \<Rightarrow> bool" where
  "parent_is_heading w parent =
     (case parent of None \<Rightarrow> False | Some p \<Rightarrow> fst p = TEXT \<and> heading_label (label_of w p))"

definition keeps_empty :: "doc_item_label \<Rightarrow> bool" where
  "keeps_empty label \<longleftrightarrow>
     label \<in> {DOC_ITEM_LABEL_FIELD_VALUE, DOC_ITEM_LABEL_CHECKBOX_SELECTED, DOC_ITEM_LABEL_CHECKBOX_UNSELECTED}"

definition break_line :: "run list \<Rightarrow> run \<Rightarrow> run list" where
  "break_line kept r =
     (if plain_run r then kept @ [r\<lparr>rn_text := LF # rn_text r\<rparr>]
      else if plain_run (last kept) then append_last [LF] kept @ [r]
      else kept @ [r])"

definition keep_run :: "bool \<Rightarrow> run \<Rightarrow> run list \<times> bool \<Rightarrow> run list \<times> bool" where
  "keep_run heading r st =
     (let (kept, line_break) = st;
          edges = strip_chars [CHR '' '', TAB] (rn_text r);
          r1 = r\<lparr>rn_text := py_strip (rn_text r)\<rparr>;
          is_txt = (rn_label r = DOC_ITEM_LABEL_TEXT);
          brk = (line_break \<or> (is_txt \<and> starts_with edges [LF]))
      in if rn_text r1 = [] \<and> \<not> keeps_empty (rn_label r) then (kept, brk)
         else (if brk \<and> kept \<noteq> [] \<and> \<not> heading then break_line kept r1 else kept @ [r1],
               is_txt \<and> ends_with edges [LF]))"

definition kept_runs :: "bool \<Rightarrow> run list \<Rightarrow> run list" where
  "kept_runs heading runs =
     (let kept = fst (fold (keep_run heading) (merge_runs runs) ([], False))
      in if heading \<and> 1 < length kept
         then map (\<lambda>r. r\<lparr>rn_text := collapse_whitespace (rn_text r)\<rparr>) kept else kept)"

definition join_texts :: "run list \<Rightarrow> string" where
  "join_texts runs =
     fold (\<lambda>r joined. joined @ (if joined = [] then [] else '' '') @ py_strip (rn_text r)) runs []"

text \<open>Several runs of an equation: one formula when they are all math, running text otherwise.\<close>

definition formula_runs :: "run list \<Rightarrow> doc_item_label \<Rightarrow> run list \<times> doc_item_label" where
  "formula_runs kept label =
     (if 1 < length kept \<and> label = DOC_ITEM_LABEL_FORMULA
      then if list_all (\<lambda>r. rn_label r = DOC_ITEM_LABEL_FORMULA \<or> \<not> has_alnum (rn_text r)) kept
           then ([\<lparr>rn_text = join_texts kept, rn_label = DOC_ITEM_LABEL_FORMULA, rn_formatting = no_formatting,
                   rn_hyperlink = []\<rparr>], label)
           else (kept, DOC_ITEM_LABEL_TEXT)
      else (kept, label))"

definition label_layer :: "doc_item_label \<Rightarrow> content_layer" where
  "label_layer label =
     (if label = DOC_ITEM_LABEL_PAGE_HEADER \<or> label = DOC_ITEM_LABEL_PAGE_FOOTER
      then CONTENT_LAYER_FURNITURE else CONTENT_LAYER_BODY)"

text \<open>What a builder's methods change: the box still to be claimed, and the page.\<close>

type_synonym chandra_state = "own \<times> writer"

definition write_run ::
  "page_context \<Rightarrow> doc_item_label \<Rightarrow> content_layer \<Rightarrow> bool \<Rightarrow> lref \<Rightarrow> run \<Rightarrow> chandra_state \<Rightarrow> chandra_state" where
  "write_run page label layer single parent r st =
     (let (prov, w) = st;
          run_label = (if rn_label r = DOC_ITEM_LABEL_TEXT \<and> single then label else rn_label r);
          fmt = (if plain_formatting r then None else Some (rn_formatting r));
          fills = (\<lambda>p. fst p = TEXT \<and> children_of w p = 0 \<and> text_of w p = [] \<and> single
                       \<and> run_label = DOC_ITEM_LABEL_TEXT)
      in if pred_option fills parent \<and> parent \<noteq> None
         then (prov, set_text (the parent) (rn_text r) fmt (rn_hyperlink r) w)
         else let (box, prov') = (if run_label = label then text_prov prov else (None, prov));
                  (item, w') = write_styled_text page run_label box (rn_text r) fmt (rn_hyperlink r) parent w
              in (prov', set_content_layer item layer w'))"

text \<open>Several runs go into an inline group, under an empty item of the label unless it is text.\<close>

definition runs_holder ::
  "page_context \<Rightarrow> doc_item_label \<Rightarrow> content_layer \<Rightarrow> lref \<Rightarrow> chandra_state \<Rightarrow> lref \<times> chandra_state" where
  "runs_holder page label layer parent st =
     (if label = DOC_ITEM_LABEL_TEXT then (parent, st)
      else let (box, prov) = text_prov (fst st);
               (item, w) = write_styled_text page label box [] None [] parent (snd st)
           in (Some item, prov, set_content_layer item layer w))"

definition group_runs ::
  "page_context \<Rightarrow> doc_item_label \<Rightarrow> content_layer \<Rightarrow> lref \<Rightarrow> chandra_state \<Rightarrow> lref \<times> chandra_state" where
  "group_runs page label layer parent st =
     (let (parent1, prov1, w1) = runs_holder page label layer parent st;
          (g, w2) = write_inline_group parent1 w1
      in (Some g, prov1, set_content_layer g layer w2))"

definition write_kept ::
  "page_context \<Rightarrow> doc_item_label \<Rightarrow> content_layer \<Rightarrow> lref \<Rightarrow> run list \<Rightarrow> chandra_state \<Rightarrow> chandra_state" where
  "write_kept page label layer parent kept st =
     (let (parent1, st1) = (if 1 < length kept then group_runs page label layer parent st else (parent, st))
      in fold (write_run page label layer (length kept = 1) parent1) kept st1)"

definition emit_runs ::
  "page_context \<Rightarrow> run list \<Rightarrow> lref \<Rightarrow> doc_item_label \<Rightarrow> chandra_state \<Rightarrow> chandra_state" where
  "emit_runs page runs parent label0 st =
     (let heading = (parent_is_heading (snd st) parent \<or> heading_label label0);
          kept0 = kept_runs heading runs
      in if kept0 = [] then st
         else let (kept, label) = formula_runs kept0 label0;
                  (prov, w) = write_kept page label (label_layer label0) parent kept st
              in (prov, set_levels (text_count (snd st)) 2 w))"

section \<open>Runs only add to the page\<close>

lemma layer_set [simp]: "label_layer label \<noteq> CONTENT_LAYER_UNSPECIFIED"
  by (simp add: label_layer_def)

lemma layer_grown:
  "writer_ok page w \<Longrightarrow> layer \<noteq> CONTENT_LAYER_UNSPECIFIED \<Longrightarrow> grown page w (set_content_layer ref layer w)"
  by (rule grown_edited) (rule set_content_layer_ok)

lemma body_ok [simp]: "parent_ok w kBodyRef"
  by (simp add: kBodyRef_def)

lemma layers_grown:
  assumes "writer_ok page w" and "layer \<noteq> CONTENT_LAYER_UNSPECIFIED"
  shows "grown page w (fold (\<lambda>i. set_content_layer (kind, i) layer) is w)"
  using assms(2) by (intro grown_fold [OF assms(1)]) (auto intro: layer_grown grown_ok)

lemma set_levels_grown: "writer_ok page w \<Longrightarrow> grown page w (set_levels before level w)"
  unfolding set_levels_def by (rule grown_fold) (auto intro: edited_grown grown_ok)

lemma styled_layer_grown:
  assumes "writer_ok page w" and "parent_ok w parent" and "layer \<noteq> CONTENT_LAYER_UNSPECIFIED"
    and "write_styled_text page label box body fmt link parent w = (item, w1)"
  shows "grown page w (set_content_layer ref layer w1) \<and> parent_ok (set_content_layer ref layer w1) (Some item)"
proof -
  have one: "grown page w w1 \<and> parent_ok w1 (Some item)"
    using styled_writer.writes [OF assms(1,2,4)] by (rule grown_written)
  moreover have two: "grown page w1 (set_content_layer ref layer w1)"
    using layer_grown [OF grown_ok assms(3)] one by blast
  ultimately show ?thesis by (blast intro: grown_trans grown_parent)
qed

lemma write_run_grown:
  assumes "writer_ok page (snd st)" and "parent_ok (snd st) parent" and "layer \<noteq> CONTENT_LAYER_UNSPECIFIED"
  shows "grown page (snd st) (snd (write_run page label layer single parent r st))"
  using styled_layer_grown [OF assms] edited_grown(1) [OF assms(1)]
  by (auto simp: write_run_def Let_def split: prod.split)

lemma write_runs_grown:
  assumes "writer_ok page (snd st)" and "parent_ok (snd st) parent" and "layer \<noteq> CONTENT_LAYER_UNSPECIFIED"
  shows "grown page (snd st) (snd (fold (write_run page label layer single parent) runs st))"
  using assms
proof (induction runs arbitrary: st)
  case (Cons r runs)
  then have "grown page (snd st) (snd (write_run page label layer single parent r st))" by (rule_tac write_run_grown)
  moreover have "grown page (snd (write_run page label layer single parent r st))
      (snd (fold (write_run page label layer single parent) runs (write_run page label layer single parent r st)))"
    using calculation Cons.prems by (intro Cons.IH) (auto intro: grown_ok grown_parent)
  ultimately show ?case by (simp add: grown_trans)
qed simp

lemma runs_holder_grown:
  assumes "writer_ok page (snd st)" and "parent_ok (snd st) parent" and "layer \<noteq> CONTENT_LAYER_UNSPECIFIED"
    and "runs_holder page label layer parent st = (parent', prov', w')"
  shows "grown page (snd st) w' \<and> parent_ok w' parent'"
  using assms styled_layer_grown [OF assms(1-3)]
  by (auto simp: runs_holder_def Let_def split: prod.splits if_splits)

lemma group_runs_grown:
  assumes "writer_ok page (snd st)" and "parent_ok (snd st) parent" and "layer \<noteq> CONTENT_LAYER_UNSPECIFIED"
    and "group_runs page label layer parent st = (parent', st')"
  shows "grown page (snd st) (snd st') \<and> parent_ok (snd st') parent'"
proof -
  obtain parent1 prov1 w1 where h: "runs_holder page label layer parent st = (parent1, prov1, w1)" by (metis surj_pair)
  note one = runs_holder_grown [OF assms(1-3) h]
  obtain g w2 where g: "write_inline_group parent1 w1 = (g, w2)" by (metis surj_pair)
  have "writer_ok page w1" and "parent_ok w1 parent1" using one by (simp_all add: grown_def)
  note two = grown_written [OF inline_group_writer.writes [OF this g]]
  then have "grown page w2 (set_content_layer g layer w2)" using layer_grown grown_ok assms(3) by blast
  then have "grown page (snd st) (set_content_layer g layer w2) \<and> parent_ok (set_content_layer g layer w2) (Some g)"
    using one two by (blast intro: grown_trans grown_parent)
  with assms(4) h g show ?thesis by (auto simp: group_runs_def)
qed

lemma write_kept_grown:
  assumes "writer_ok page (snd st)" and "parent_ok (snd st) parent" and "layer \<noteq> CONTENT_LAYER_UNSPECIFIED"
  shows "grown page (snd st) (snd (write_kept page label layer parent kept st))"
proof -
  obtain parent1 st1 where p: "(if 1 < length kept then group_runs page label layer parent st else (parent, st)) = (parent1, st1)"
    by (metis surj_pair)
  then have one: "grown page (snd st) (snd st1) \<and> parent_ok (snd st1) parent1"
    using assms group_runs_grown [OF assms] by (auto split: if_splits)
  then have "grown page (snd st1) (snd (fold (write_run page label layer (length kept = 1) parent1) kept st1))"
    using assms(3) by (intro write_runs_grown) (auto intro: grown_ok)
  with one show ?thesis unfolding write_kept_def p Let_def by (auto intro: grown_trans)
qed

lemma emit_runs_grown:
  assumes "writer_ok page (snd st)" and "parent_ok (snd st) parent"
  shows "grown page (snd st) (snd (emit_runs page runs parent label st))"
  using write_kept_grown [OF assms layer_set [of label]] assms(1)
  by (simp add: emit_runs_def Let_def case_prod_beta') (blast intro: grown_trans set_levels_grown grown_ok)

end
