(* ===== verification/Layout_Text.thy ===== *)
theory Layout_Text
  imports Span_Table
begin

text \<open>
  \<^verbatim>\<open>src/mapping/layout.cpp\<close>, the clean-ups of model bodies: heading markers, math delimiters, Markdown
  escapes, plain text of short Markdown, and the image size the dots.ocr boxes refer to.
\<close>

definition is_punct :: "char \<Rightarrow> bool" where
  "is_punct c \<longleftrightarrow> 33 \<le> code c \<and> code c \<le> 126 \<and> \<not> is_alnum c"

section \<open>Headings\<close>

definition is_blank_char :: "char \<Rightarrow> bool" where
  "is_blank_char c \<longleftrightarrow> c = CHR '' '' \<or> c = TAB"

definition strip_markdown_heading :: "string \<Rightarrow> string \<times> nat" where
  "strip_markdown_heading s =
     (let hashes = length (takeWhile (\<lambda>c. c = CHR ''#'') s)
      in if hashes = 0 \<or> 6 < hashes \<or> length s \<le> hashes \<or> \<not> is_blank_char (s ! hashes) then (s, 0)
         else (rstrip_by is_space (dropWhile is_blank_char (drop hashes s)), hashes))"

section \<open>Math\<close>

function drop_parens :: "string \<Rightarrow> string" where
  "drop_parens s =
     (case s of
        [] \<Rightarrow> []
      | [c] \<Rightarrow> [c]
      | c # d # cs \<Rightarrow>
          if c = BACKSLASH \<and> d = BACKSLASH then BACKSLASH # BACKSLASH # drop_parens cs
          else if c = BACKSLASH \<and> (d = CHR ''('' \<or> d = CHR '')'') then drop_parens cs
          else c # drop_parens (d # cs))"
  by pat_completeness auto
termination by (relation "measure length") auto

declare drop_parens.simps [simp del]

definition wrapped_in :: "string \<Rightarrow> string \<Rightarrow> string \<Rightarrow> bool" where
  "wrapped_in left right s \<longleftrightarrow> length left + length right \<le> length s \<and> starts_with s left \<and> ends_with s right"

definition inner_of :: "nat \<Rightarrow> string \<Rightarrow> string" where
  "inner_of n s = substr s n (length s - 2 * n)"

text \<open>The formula inside one pair of delimiters around all of it.\<close>

definition unwrap_math :: "string \<Rightarrow> string option" where
  "unwrap_math s =
     (if wrapped_in ''$$'' ''$$'' s \<and> \<not> contains_sub ''$$'' (inner_of 2 s) then Some (inner_of 2 s)
      else if wrapped_in [BACKSLASH, CHR ''[''] [BACKSLASH, CHR '']''] s
        \<and> \<not> contains_sub [BACKSLASH, CHR ''[''] (inner_of 2 s)
        \<and> \<not> contains_sub [BACKSLASH, CHR '']''] (inner_of 2 s) then Some (inner_of 2 s)
      else if wrapped_in ''$'' ''$'' s \<and> \<not> contains_sub ''$'' (inner_of 1 s) then Some (inner_of 1 s)
      else None)"

lemma unwrap_math_shorter: "unwrap_math s = Some t \<Longrightarrow> length t < length s"
  by (auto simp: unwrap_math_def wrapped_in_def inner_of_def substr_def split: if_splits)

lemma trim_length: "length (trim s) \<le> length s"
  by (simp add: trim_def)

function unwrap_all :: "string \<Rightarrow> string" where
  "unwrap_all s = (case unwrap_math s of None \<Rightarrow> s | Some t \<Rightarrow> unwrap_all (trim t))"
  by pat_completeness auto
termination
  by (relation "measure length") (auto dest!: unwrap_math_shorter intro: le_less_trans [OF trim_length])

declare unwrap_all.simps [simp del]

definition strip_math_delimiters :: "string \<Rightarrow> string" where
  "strip_math_delimiters s = unwrap_all (trim (drop_parens s))"

section \<open>Escapes\<close>

function unescape_markdown_literals :: "string \<Rightarrow> string" where
  "unescape_markdown_literals s =
     (case s of
        [] \<Rightarrow> []
      | c # cs \<Rightarrow>
          if c = CHR ''`'' then
            (let run = takeWhile (\<lambda>x. x = CHR ''`'') s; rest = drop (length run) s
             in case find_sub run rest of
                  Some (body, after) \<Rightarrow> run @ body @ run @ unescape_markdown_literals after
                | None \<Rightarrow> run @ unescape_markdown_literals rest)
          else if c = CHR ''$'' then
            (let display = starts_with cs ''$''; delim = (if display then ''$$'' else ''$'')
             in case find_sub delim (drop (length delim) s) of
                  Some (body, after) \<Rightarrow>
                    if display \<or> LF \<notin> set body then delim @ body @ delim @ unescape_markdown_literals after
                    else c # unescape_markdown_literals cs
                | None \<Rightarrow> c # unescape_markdown_literals cs)
          else if c = BACKSLASH \<and> cs \<noteq> [] then
            (let d = hd cs
             in if d = CHR ''*'' \<or> d = CHR ''_'' then d # unescape_markdown_literals (tl cs)
                else if d = BACKSLASH then BACKSLASH # BACKSLASH # unescape_markdown_literals (tl cs)
                else if d = CHR ''('' \<or> d = CHR ''['' then
                  (let closer = [BACKSLASH, if d = CHR ''('' then CHR '')'' else CHR '']'']
                   in case find_sub closer (tl cs) of
                        Some (body, after) \<Rightarrow> c # d # body @ closer @ unescape_markdown_literals after
                      | None \<Rightarrow> c # unescape_markdown_literals cs)
                else c # unescape_markdown_literals cs)
          else c # unescape_markdown_literals cs)"
  by pat_completeness auto
termination
  by (relation "measure length") (auto dest!: find_sub_length split: if_splits)

declare unescape_markdown_literals.simps [simp del]

section \<open>Plain text\<close>

text \<open>What is left of a line, after the character before it.\<close>

function plain_from :: "char option \<Rightarrow> string \<Rightarrow> string" where
  "plain_from before s =
     (case s of
        [] \<Rightarrow> []
      | c # cs \<Rightarrow>
          if c = BACKSLASH \<and> cs \<noteq> [] \<and> is_punct (hd cs) then hd cs # plain_from (Some (hd cs)) (tl cs)
          else if c = CHR ''*'' \<or> c = CHR ''`'' then plain_from (Some c) cs
          else if c = CHR ''_'' \<and> cs \<noteq> [] \<and> hd cs = CHR ''_'' then plain_from (Some c) (tl cs)
          else if c = CHR ''_'' \<and> (before = None \<or> is_space (the before) \<or> cs = [] \<or> is_space (hd cs))
          then plain_from (Some c) cs
          else if c = CHR ''['' then
            (case find_sub ''](''  cs of
               None \<Rightarrow> c # plain_from (Some c) cs
             | Some (label, url) \<Rightarrow>
                 (case find_sub '')'' url of
                    None \<Rightarrow> c # plain_from (Some c) cs
                  | Some (_, after) \<Rightarrow> label @ plain_from (Some (CHR '')'')) after))
          else c # plain_from (Some c) cs)"
  by pat_completeness auto
termination
  by (relation "measure (\<lambda>(_, s). length s)") (auto dest!: find_sub_split split: if_splits)

declare plain_from.simps [simp del]

definition plain_line :: "string \<Rightarrow> string" where
  "plain_line line = collapse_whitespace (plain_from None (fst (strip_markdown_heading (trim line))))"

definition markdown_to_text :: "string \<Rightarrow> string" where
  "markdown_to_text markdown =
     join_with LF (filter (\<lambda>l. l \<noteq> []) (map plain_line (split_at LF markdown)))"

section \<open>The size of the image a model saw\<close>

definition nearbyint :: "real \<Rightarrow> real" where
  "nearbyint x =
     (let f = \<lfloor>x\<rfloor>; d = x - of_int f
      in if d < 1 / 2 then of_int f else if 1 / 2 < d then of_int f + 1
         else if even f then of_int f else of_int f + 1)"

definition qwen2vl_image_size :: "(real \<Rightarrow> real) \<Rightarrow> real \<Rightarrow> real \<Rightarrow> real \<times> real" where
  "qwen2vl_image_size rnd width height =
     (let mw = of_int \<lfloor>width\<rfloor>; mh = of_int \<lfloor>height\<rfloor>
      in if mw \<le> 0 \<or> mh \<le> 0 then (width, height)
         else
           (let h_bar = rnd (nearbyint (rnd (mh / 28)) * 28); w_bar = rnd (nearbyint (rnd (mw / 28)) * 28)
            in if 2500000 < rnd (h_bar * w_bar)
               then (let beta = rnd (sqrt (rnd (rnd (mh * mw) / 2500000)))
                     in (max 28 (rnd (of_int \<lfloor>rnd (rnd (mw / beta) / 28)\<rfloor> * 28)),
                         max 28 (rnd (of_int \<lfloor>rnd (rnd (mh / beta) / 28)\<rfloor> * 28))))
               else if rnd (h_bar * w_bar) < 200704
               then (let beta = rnd (sqrt (rnd (200704 / rnd (mh * mw))))
                     in (rnd (of_int \<lceil>rnd (rnd (mw * beta) / 28)\<rceil> * 28),
                         rnd (of_int \<lceil>rnd (rnd (mh * beta) / 28)\<rceil> * 28)))
               else (w_bar, h_bar)))"

section \<open>Properties\<close>

lemma unwrap_all_done: "unwrap_math (unwrap_all s) = None \<and> (trim s = s \<longrightarrow> trim (unwrap_all s) = unwrap_all s)"
proof (induction s rule: unwrap_all.induct)
  case (1 s)
  show ?case
  proof (cases "unwrap_math s")
    case None
    then show ?thesis by (simp add: unwrap_all.simps [of s])
  next
    case (Some t)
    with 1 [OF Some] show ?thesis by (simp add: unwrap_all.simps [of s])
  qed
qed

lemma unwrap_all_display:
  assumes "trim t = t" and "CHR ''$'' \<notin> set t" and "\<not> wrapped_in [BACKSLASH, CHR ''[''] [BACKSLASH, CHR '']''] t"
  shows "unwrap_all (''$$'' @ t @ ''$$'') = t"
proof -
  have inner: "inner_of 2 (''$$'' @ t @ ''$$'') = t" by (simp add: inner_of_def substr_def)
  have no: "\<not> sublist ''$$'' t" "\<not> sublist ''$'' t" using assms(2) by (auto simp: sublist_def)
  have wrapped: "wrapped_in ''$$'' ''$$'' (''$$'' @ t @ ''$$'')" by (simp add: wrapped_in_def suffix_def)
  have "unwrap_math (''$$'' @ t @ ''$$'') = Some t"
    unfolding unwrap_math_def inner using wrapped no(1) by (simp add: contains_sub_iff)
  moreover have "\<not> wrapped_in ''$'' ''$'' t" "\<not> wrapped_in ''$$'' ''$$'' t"
    using assms(2) by (auto simp: wrapped_in_def prefix_def)
  then have "unwrap_math t = None" using assms(3) by (simp add: unwrap_math_def)
  ultimately show ?thesis by (simp add: unwrap_all.simps assms(1))
qed

lemma drop_parens_plain: "BACKSLASH \<notin> set s \<Longrightarrow> drop_parens s = s"
  by (induction s rule: drop_parens.induct) (subst drop_parens.simps, auto split: list.split)

text \<open>A text without backslashes has nothing to unescape.\<close>

lemma unescape_plain: "BACKSLASH \<notin> set s \<Longrightarrow> unescape_markdown_literals s = s"
proof (induction s rule: length_induct)
  case (1 s)
  show ?case
  proof (cases s)
    case (Cons c cs)
    have ih: "unescape_markdown_literals t = t" if "length t < length s" "set t \<subseteq> set s" for t
      using 1 that by blast
    have split: "unescape_markdown_literals a = a \<and> n @ b @ n @ a = n @ t"
      if "find_sub n t = Some (b, a)" "length t \<le> length s" "n \<noteq> []" "set t \<subseteq> set s" for n t b a
      using find_sub_split [OF that(1)] that(2-4) by (cases n) (auto intro!: ih)
    define run where "run = takeWhile (\<lambda>x. x = CHR ''`'') s"
    have run: "run @ drop (length run) s = s" by (simp add: run_def flip: dropWhile_eq_drop)
    show ?thesis
    proof (cases "c = CHR ''`''")
      case True
      then have "run \<noteq> []" by (simp add: run_def Cons)
      moreover have "set (drop (length run) s) \<subseteq> set s" by (rule set_drop_subset)
      ultimately have "unescape_markdown_literals (drop (length run) s) = drop (length run) s"
        using run by (intro ih) (simp_all add: Cons)
      moreover have "unescape_markdown_literals s = (case find_sub run (drop (length run) s) of
          Some (b, a) \<Rightarrow> run @ b @ run @ unescape_markdown_literals a
        | None \<Rightarrow> run @ unescape_markdown_literals (drop (length run) s))"
        using True Cons by (subst unescape_markdown_literals.simps) (simp add: run_def Let_def split: option.split)
      moreover note split [of run "drop (length run) s"]
      ultimately show ?thesis
        using run \<open>run \<noteq> []\<close> \<open>set (drop (length run) s) \<subseteq> set s\<close> by (auto split: option.split)
    next
      case False
      have cs: "unescape_markdown_literals cs = cs" using Cons by (intro ih) auto
      have math: "n @ b @ n @ unescape_markdown_literals a = s"
        if "n = ''$$'' \<or> n = ''$''" "find_sub n (drop (length n) s) = Some (b, a)" "starts_with s n" for n b a
        using split [of n "drop (length n) s" b a] set_drop_subset [of "length n" s] that by (auto simp: prefix_def)
      have "c \<noteq> BACKSLASH" using 1(2) Cons by auto
      then have step: "unescape_markdown_literals s = (if c = CHR ''$'' then
           (case find_sub (if starts_with cs ''$'' then ''$$'' else ''$'') (drop (length (if starts_with cs ''$'' then ''$$'' else ''$'')) s) of
              Some (body, after) \<Rightarrow>
                if starts_with cs ''$'' \<or> LF \<notin> set body
                then (if starts_with cs ''$'' then ''$$'' else ''$'') @ body
                  @ (if starts_with cs ''$'' then ''$$'' else ''$'') @ unescape_markdown_literals after
                else c # unescape_markdown_literals cs
            | None \<Rightarrow> c # unescape_markdown_literals cs)
          else c # unescape_markdown_literals cs)"
        using False by (subst unescape_markdown_literals.simps) (simp only: Cons list.case Let_def if_False simp_thms)
      show ?thesis
      proof (cases "starts_with cs ''$''")
        case True
        with math [of "''$$''"] cs Cons show ?thesis unfolding step by (auto split: option.split)
      next
        case False
        with math [of "''$''"] cs Cons show ?thesis unfolding step by (auto split: option.split)
      qed
    qed
  qed (simp add: unescape_markdown_literals.simps)
qed

text \<open>
  A formula comes out of its delimiters.  The result is trimmed and wrapped in no pair of
  delimiters any more, and a display formula gives back exactly what it holds.
\<close>

theorem math_unwrapped:
  "unwrap_math (strip_math_delimiters s) = None \<and> trim (strip_math_delimiters s) = strip_math_delimiters s
   \<and> (trim s = s \<and> CHR ''$'' \<notin> set s \<and> BACKSLASH \<notin> set s \<longrightarrow> strip_math_delimiters (''$$'' @ s @ ''$$'') = s)"
proof -
  have "strip_math_delimiters (''$$'' @ s @ ''$$'') = s" if "trim s = s" "CHR ''$'' \<notin> set s" "BACKSLASH \<notin> set s"
  proof -
    have "trim (''$$'' @ s @ ''$$'') = ''$$'' @ s @ ''$$''"
      unfolding trim_def by (rule strip_by_id) (simp add: is_trim_char_def)
    moreover have "\<not> wrapped_in [BACKSLASH, CHR ''[''] [BACKSLASH, CHR '']''] s" using that(3) by (auto simp: wrapped_in_def prefix_def)
    ultimately show ?thesis
      using unwrap_all_display [OF that(1,2)] that(3) by (simp add: strip_math_delimiters_def drop_parens_plain)
  qed
  then show ?thesis using unwrap_all_done [of "trim (drop_parens s)"] by (simp add: strip_math_delimiters_def)
qed

theorem math_unwrapped_witness: "strip_math_delimiters (''$$'' @ ''x+1'' @ ''$$'') = ''x+1''"
  using math_unwrapped [of "''x+1''"]
  by (simp add: trim_def strip_by_def rstrip_by_def is_trim_char_def)

end
