(* ===== verification/Markdown_Inline.thy ===== *)
theory Markdown_Inline
  imports Layout_Text
begin

text \<open>
  \<^verbatim>\<open>src/mapping/markdown_inline.cpp\<close>: emphasis in a paragraph becomes inline HTML.  The scanner cuts the
  text into pieces of HTML and runs of delimiters; then every closing run looks back for an
  opening one.
\<close>

definition md_punct :: "char \<Rightarrow> bool" where
  "md_punct c \<longleftrightarrow> code c < 128 \<and> is_punct c"

definition escape_md_char :: "char \<Rightarrow> string" where
  "escape_md_char c =
     (if c = CHR ''&'' then ''&amp;'' else if c = CHR ''<'' then ''&lt;'' else if c = CHR ''>'' then ''&gt;''
      else if c = DQUOTE then ''&quot;'' else [c])"

definition escape_into :: "string \<Rightarrow> string" where
  "escape_into s = concat (map escape_md_char s)"

section \<open>Spans kept as they are\<close>

fun unescaped_find :: "string \<Rightarrow> char \<Rightarrow> string \<Rightarrow> (string \<times> string) option" where
  "unescaped_find needle before [] = None"
| "unescaped_find needle before (c # cs) =
     (if prefix needle (c # cs) \<and> before \<noteq> BACKSLASH then Some ([], drop (length needle) (c # cs))
      else map_option (apfst ((#) c)) (unescaped_find needle c cs))"

text \<open>Inline math on one line, after its dollar.\<close>

fun dollar_end :: "bool \<Rightarrow> char \<Rightarrow> string \<Rightarrow> (string \<times> string) option" where
  "dollar_end first before [] = None"
| "dollar_end first before (c # cs) =
     (if c = LF then None
      else if c = CHR ''$'' \<and> first then None
      else if c = CHR ''$'' \<and> before \<noteq> BACKSLASH then Some ([c], cs)
      else map_option (apfst ((#) c)) (dollar_end False c cs))"

definition code_element :: "string \<Rightarrow> (string \<times> string) option" where
  "code_element s =
     (if 5 \<le> length s \<and> map to_lower (take 5 s) = ''<code'' \<and> (length s = 5 \<or> \<not> is_alnum (s ! 5))
      then (let folded = map to_lower s
            in case find_sub ''>'' folded of
                 None \<Rightarrow> None
               | Some (b1, _) \<Rightarrow>
                   (case find_sub ''</code>'' (drop (length b1) folded) of
                      None \<Rightarrow> None
                    | Some (b2, _) \<Rightarrow>
                        let n = length b1 + length b2 + 7 in Some (take n s, drop n s)))
      else None)"

definition literal_end :: "char option \<Rightarrow> string \<Rightarrow> (string \<times> string) option" where
  "literal_end before s =
     (if before = Some BACKSLASH then None
      else if starts_with s ''$$''
      then map_option (apfst (\<lambda>b. ''$$'' @ b @ ''$$'')) (unescaped_find ''$$'' (CHR ''$'') (drop 2 s))
      else if starts_with s ''$'' then map_option (apfst ((#) (CHR ''$''))) (dollar_end True (CHR ''$'') (tl s))
      else if starts_with s [BACKSLASH, CHR ''('']
      then map_option (apfst (\<lambda>b. [BACKSLASH, CHR ''(''] @ b @ [BACKSLASH, CHR '')'']))
        (find_sub [BACKSLASH, CHR '')''] (drop 2 s))
      else if starts_with s [BACKSLASH, CHR ''['']
      then map_option (apfst (\<lambda>b. [BACKSLASH, CHR ''[''] @ b @ [BACKSLASH, CHR '']'']))
        (find_sub [BACKSLASH, CHR '']''] (drop 2 s))
      else code_element s)"

fun tag_scan :: "char option \<Rightarrow> string \<Rightarrow> (string \<times> string) option" where
  "tag_scan quote [] = None"
| "tag_scan quote (c # cs) =
     (case quote of
        Some q \<Rightarrow> map_option (apfst ((#) c)) (tag_scan (if c = q then None else Some q) cs)
      | None \<Rightarrow>
          if c = DQUOTE \<or> c = SQUOTE then map_option (apfst ((#) c)) (tag_scan (Some c) cs)
          else if c = CHR ''>'' then Some ([c], cs)
          else if c = CHR ''<'' \<or> c = LF then None
          else map_option (apfst ((#) c)) (tag_scan None cs))"

definition html_tag_end :: "string \<Rightarrow> (string \<times> string) option" where
  "html_tag_end s =
     (if \<not> starts_with s ''<'' \<or> tl s = [] then None
      else let slash = (hd (tl s) = CHR ''/''); head = (if slash then ''</'' else ''<''); rest = drop (length head) s
           in if rest = [] \<or> \<not> is_alpha (hd rest) then None
              else map_option (apfst (\<lambda>b. head @ b)) (tag_scan None rest))"

definition is_tick :: "char \<Rightarrow> bool" where "is_tick c \<longleftrightarrow> c = CHR ''`''"

text \<open>The next run of exactly so many backquotes.\<close>

function find_run :: "nat \<Rightarrow> string \<Rightarrow> (string \<times> string) option" where
  "find_run run s =
     (case s of
        [] \<Rightarrow> None
      | c # cs \<Rightarrow>
          if is_tick c then
            (let ticks = takeWhile is_tick s
             in if length ticks = run then Some ([], drop run s)
                else map_option (apfst (\<lambda>b. ticks @ b)) (find_run run (dropWhile is_tick s)))
          else map_option (apfst ((#) c)) (find_run run cs))"
  by pat_completeness auto
termination
  by (relation "measure (\<lambda>(_, s). length s)") (auto simp: le_imp_less_Suc length_dropWhile_le)

declare find_run.simps [simp del]

definition code_span :: "string \<Rightarrow> string" where
  "code_span raw =
     (let code = map (\<lambda>c. if c = LF then CHR '' '' else c) raw
      in ''<code>'' @ escape_into
           (if 2 \<le> length code \<and> hd code = CHR '' '' \<and> last code = CHR '' '' \<and> (\<exists>c \<in> set code. c \<noteq> CHR '' '')
            then substr code 1 (length code - 2) else code) @ ''</code>'')"

section \<open>Pieces\<close>

text \<open>The tags of a run are kept as their widths: 2 for strong, 1 for em.\<close>

record md_piece =
  mp_html :: string
  mp_delim :: bool
  mp_ch :: char
  mp_count :: nat
  mp_orig :: nat
  mp_can_open :: bool
  mp_can_close :: bool
  mp_open_tags :: "nat list"
  mp_close_tags :: "nat list"

definition text_piece :: "string \<Rightarrow> md_piece" where
  "text_piece html =
     \<lparr>mp_html = html, mp_delim = False, mp_ch = CHR 0x00, mp_count = 0, mp_orig = 0, mp_can_open = False,
      mp_can_close = False, mp_open_tags = [], mp_close_tags = []\<rparr>"

definition flush_piece :: "string \<Rightarrow> md_piece list" where
  "flush_piece buffer = (if buffer = [] then [] else [text_piece buffer])"

definition delim_piece :: "char \<Rightarrow> nat \<Rightarrow> char \<Rightarrow> char \<Rightarrow> md_piece" where
  "delim_piece c run before after =
     (let left = (\<not> is_space after \<and> (\<not> md_punct after \<or> is_space before \<or> md_punct before));
          right = (\<not> is_space before \<and> (\<not> md_punct before \<or> is_space after \<or> md_punct after))
      in \<lparr>mp_html = [], mp_delim = True, mp_ch = c, mp_count = run, mp_orig = run,
          mp_can_open = (if c = CHR ''*'' then left else left \<and> (\<not> right \<or> md_punct before)),
          mp_can_close = (if c = CHR ''*'' then right else right \<and> (\<not> left \<or> md_punct after)),
          mp_open_tags = [], mp_close_tags = []\<rparr>)"

lemma unescaped_find_length: "unescaped_find n b s = Some (x, y) \<Longrightarrow> length y \<le> length s"
  by (induction s arbitrary: b x) (auto split: if_splits intro: le_SucI)

lemma dollar_end_length: "dollar_end f b s = Some (x, y) \<Longrightarrow> length y \<le> length s"
  by (induction s arbitrary: f b x) (auto split: if_splits intro: le_SucI)

lemma tag_scan_length: "tag_scan q s = Some (x, y) \<Longrightarrow> length y < length s"
  by (induction s arbitrary: q x) (auto split: if_splits option.splits simp: less_Suc_eq)

lemma find_run_length: "find_run n s = Some (x, y) \<Longrightarrow> length y \<le> length s"
proof (induction n s arbitrary: x rule: find_run.induct)
  case (1 run s)
  show ?case
  proof (cases s)
    case (Cons c cs)
    have step: "find_run run s = (if is_tick c then
        (if length (takeWhile is_tick s) = run then Some ([], drop run s)
         else map_option (apfst (\<lambda>b. takeWhile is_tick s @ b)) (find_run run (dropWhile is_tick s)))
        else map_option (apfst ((#) c)) (find_run run cs))"
      by (subst find_run.simps) (simp only: Cons list.case Let_def)
    show ?thesis
      using 1(3) 1(1) [OF Cons _ refl] 1(2) [OF Cons] length_dropWhile_le [of is_tick s] Cons
      unfolding step by (fastforce split: if_splits)
  qed (use 1 in \<open>simp add: find_run.simps\<close>)
qed

lemma literal_end_length: "literal_end b s = Some (x, y) \<Longrightarrow> s \<noteq> [] \<Longrightarrow> length y < length s"
  by (cases s)
    (auto simp: literal_end_def code_element_def Let_def less_Suc_eq_le min_def split: if_splits option.splits
      dest!: unescaped_find_length dollar_end_length find_sub_length)

lemma html_tag_end_length: "html_tag_end s = Some (x, y) \<Longrightarrow> length y < length s"
  by (auto simp: html_tag_end_def Let_def split: if_splits dest!: tag_scan_length)

text \<open>
  The rounds of the scan.  A round gets the character before, the HTML that is not yet a piece
  and what is left to read; it answers with the pieces made, the last character read, the HTML
  and what is left, or passes.
\<close>

type_synonym md_round = "md_piece list \<times> char \<times> string \<times> string"

definition literal_round :: "char option \<Rightarrow> string \<Rightarrow> string \<Rightarrow> md_round option" where
  "literal_round before buffer s =
     (if hd s = CHR ''$'' \<or> hd s = BACKSLASH \<or> hd s = CHR ''<''
      then map_option (\<lambda>(literal, rest).
        ([], last literal, buffer @ (if hd literal = CHR ''<'' then literal else escape_into literal), rest))
        (literal_end before s)
      else None)"

definition code_round :: "string \<Rightarrow> string \<Rightarrow> md_round option" where
  "code_round buffer s =
     (if is_tick (hd s)
      then (case find_run (length (takeWhile is_tick s)) (dropWhile is_tick s) of
              Some (body, after) \<Rightarrow> Some ([], hd s, buffer @ code_span body, after)
            | None \<Rightarrow> Some ([], hd s, buffer @ takeWhile is_tick s, dropWhile is_tick s))
      else None)"

definition escape_round :: "string \<Rightarrow> string \<Rightarrow> md_round option" where
  "escape_round buffer s =
     (if hd s = BACKSLASH \<and> tl s \<noteq> [] \<and> hd (tl s) = LF
      then Some ([], LF, buffer @ ''<br />'' @ [LF], tl (tl s))
      else if hd s = BACKSLASH \<and> tl s \<noteq> [] \<and> md_punct (hd (tl s))
      then Some ([], hd (tl s), buffer @ escape_md_char (hd (tl s)), tl (tl s))
      else None)"

definition tag_round :: "string \<Rightarrow> string \<Rightarrow> md_round option" where
  "tag_round buffer s =
     (if hd s = CHR ''<'' then map_option (\<lambda>(tag, rest). ([], last tag, buffer @ tag, rest)) (html_tag_end s) else None)"

definition delim_round :: "char option \<Rightarrow> string \<Rightarrow> string \<Rightarrow> md_round option" where
  "delim_round before buffer s =
     (if hd s = CHR ''*'' \<or> hd s = CHR ''_''
      then (let rest = dropWhile (\<lambda>x. x = hd s) s
            in Some (flush_piece buffer
                 @ [delim_piece (hd s) (length (takeWhile (\<lambda>x. x = hd s) s))
                      (case before of None \<Rightarrow> CHR '' '' | Some b \<Rightarrow> b) (if rest = [] then CHR '' '' else hd rest)],
                 hd s, [], rest))
      else None)"

definition line_round :: "string \<Rightarrow> string \<Rightarrow> md_round option" where
  "line_round buffer s =
     (if hd s = LF
      then (let kept = rstrip_by (\<lambda>x. x = CHR '' '') buffer
            in Some ([], last (hd s # takeWhile is_blank_char (tl s)),
                 kept @ (if 2 \<le> length buffer - length kept then ''<br />'' @ [LF] else [LF]),
                 dropWhile is_blank_char (tl s)))
      else None)"

definition or_else :: "'a option \<Rightarrow> 'a option \<Rightarrow> 'a option" where
  "or_else a b = (case a of None \<Rightarrow> b | Some x \<Rightarrow> Some x)"

definition scan_step :: "char option \<Rightarrow> string \<Rightarrow> string \<Rightarrow> md_round" where
  "scan_step before buffer s =
     (case or_else (literal_round before buffer s) (or_else (code_round buffer s) (or_else (escape_round buffer s)
        (or_else (tag_round buffer s) (or_else (delim_round before buffer s) (line_round buffer s))))) of
        Some r \<Rightarrow> r
      | None \<Rightarrow> ([], hd s, buffer @ escape_md_char (hd s), tl s))"

lemma pred_or_else: "pred_option P a \<Longrightarrow> pred_option P b \<Longrightarrow> pred_option P (or_else a b)"
  by (cases a) (simp_all add: or_else_def)

text \<open>What holds of every round and of the default holds of a step.\<close>

lemma scan_step_pred:
  assumes "pred_option P (literal_round before buffer s)" and "pred_option P (code_round buffer s)"
    and "pred_option P (escape_round buffer s)" and "pred_option P (tag_round buffer s)"
    and "pred_option P (delim_round before buffer s)" and "pred_option P (line_round buffer s)"
    and "P ([], hd s, buffer @ escape_md_char (hd s), tl s)"
  shows "P (scan_step before buffer s)"
proof -
  have "pred_option P (or_else (literal_round before buffer s) (or_else (code_round buffer s) (or_else (escape_round buffer s)
      (or_else (tag_round buffer s) (or_else (delim_round before buffer s) (line_round buffer s))))))"
    by (intro pred_or_else assms)
  with assms(7) show ?thesis unfolding scan_step_def by (auto split: option.split)
qed

lemma dropWhile_shorter: "s \<noteq> [] \<Longrightarrow> P (hd s) \<Longrightarrow> length (dropWhile P s) < length s" "s \<noteq> [] \<Longrightarrow> length (dropWhile P (tl s)) < length s"
  using length_dropWhile_le [of P "tl s"] by (cases s; simp)+

lemma tl_shorter: "s \<noteq> [] \<Longrightarrow> length (tl s) < length s" "s \<noteq> [] \<Longrightarrow> length (tl (tl s)) < length s"
  by (cases s; simp)+

definition shorter :: "string \<Rightarrow> md_round \<Rightarrow> bool" where
  "shorter s r \<longleftrightarrow> length (snd (snd (snd r))) < length s"

lemma code_round_shorter: "s \<noteq> [] \<Longrightarrow> pred_option (shorter s) (code_round buffer s)"
  using dropWhile_shorter(1) [of s is_tick]
  by (auto simp: code_round_def shorter_def split: option.split dest!: find_run_length)

lemma rounds_shorter:
  assumes "s \<noteq> []"
  shows "pred_option (shorter s) (literal_round before buffer s)" and "pred_option (shorter s) (escape_round buffer s)"
    and "pred_option (shorter s) (tag_round buffer s)" and "pred_option (shorter s) (delim_round before buffer s)"
    and "pred_option (shorter s) (line_round buffer s)"
  using assms literal_end_length [OF _ assms, of before] html_tag_end_length [of s]
  by (auto simp: literal_round_def escape_round_def tag_round_def delim_round_def line_round_def shorter_def Let_def
      dropWhile_shorter tl_shorter pred_option_def)

lemma scan_step_shorter: "s \<noteq> [] \<Longrightarrow> shorter s (scan_step before buffer s)"
  by (rule scan_step_pred) (simp_all add: code_round_shorter rounds_shorter, simp add: shorter_def)

function scan_pieces :: "char option \<Rightarrow> string \<Rightarrow> string \<Rightarrow> md_piece list" where
  "scan_pieces before buffer s =
     (if s = [] then flush_piece buffer
      else let r = scan_step before buffer s
           in fst r @ scan_pieces (Some (fst (snd r))) (fst (snd (snd r))) (snd (snd (snd r))))"
  by pat_completeness auto
termination
  by (relation "measure (\<lambda>(_, _, s). length s)") (simp_all add: case_prod_beta scan_step_shorter [unfolded shorter_def])

declare scan_pieces.simps [simp del]

section \<open>Emphasis\<close>

definition opens_for :: "md_piece \<Rightarrow> md_piece \<Rightarrow> bool" where
  "opens_for opener closer \<longleftrightarrow>
     mp_ch opener = mp_ch closer \<and> mp_can_open opener \<and> mp_count opener \<noteq> 0
     \<and> \<not> ((mp_can_close opener \<or> mp_can_open closer) \<and> (mp_orig opener + mp_orig closer) mod 3 = 0
          \<and> \<not> (mp_orig opener mod 3 = 0 \<and> mp_orig closer mod 3 = 0))"

definition find_opener :: "md_piece list \<Rightarrow> nat list \<Rightarrow> nat \<Rightarrow> md_piece \<Rightarrow> nat option" where
  "find_opener pieces stack bottom closer =
     find (\<lambda>k. opens_for (pieces ! (stack ! k)) closer) (rev [bottom..<length stack])"

definition tag_width :: "md_piece \<Rightarrow> md_piece \<Rightarrow> nat" where
  "tag_width opener closer = (if 2 \<le> mp_count opener \<and> 2 \<le> mp_count closer then 2 else 1)"

definition use_opener :: "nat \<Rightarrow> md_piece \<Rightarrow> md_piece" where
  "use_opener used p = p\<lparr>mp_open_tags := used # mp_open_tags p, mp_count := mp_count p - used\<rparr>"

definition use_closer :: "nat \<Rightarrow> md_piece \<Rightarrow> md_piece" where
  "use_closer used p = p\<lparr>mp_close_tags := mp_close_tags p @ [used], mp_count := mp_count p - used\<rparr>"

text \<open>A closing run takes its openers, innermost first; what stands between becomes text.\<close>

function match_closer ::
  "md_piece list \<Rightarrow> nat list \<Rightarrow> nat \<Rightarrow> md_piece \<Rightarrow> bool \<Rightarrow> md_piece list \<times> nat list \<times> md_piece \<times> bool" where
  "match_closer pieces stack bottom closer matched =
     (if mp_count closer = 0 then (pieces, stack, closer, matched)
      else case find_opener pieces stack bottom closer of
        None \<Rightarrow> (pieces, stack, closer, matched)
      | Some k \<Rightarrow>
          let at_piece = stack ! k; used = tag_width (pieces ! at_piece) closer;
              opener = use_opener used (pieces ! at_piece)
          in match_closer (pieces[at_piece := opener])
               (if mp_count opener = 0 then take k stack else take (k + 1) stack) bottom (use_closer used closer) True)"
  by pat_completeness auto
termination
  by (relation "measure (\<lambda>(_, _, _, closer, _). mp_count closer)") (auto simp: use_closer_def tag_width_def)

declare match_closer.simps [simp del]

type_synonym bottoms = "char \<times> bool \<times> nat \<rightharpoonup> nat"

definition emphasis_step ::
  "nat \<Rightarrow> md_piece list \<times> nat list \<times> bottoms \<Rightarrow> md_piece list \<times> nat list \<times> bottoms" where
  "emphasis_step index st =
     (case st of (pieces, stack, bottom) \<Rightarrow>
        let closer = pieces ! index; key = (mp_ch closer, mp_can_open closer, mp_orig closer mod 3)
        in if \<not> mp_delim closer then st
           else (case (if mp_can_close closer
                       then match_closer pieces stack (case bottom key of None \<Rightarrow> 0 | Some n \<Rightarrow> n) closer False
                       else (pieces, stack, closer, True)) of
                   (pieces1, stack1, closer1, matched) \<Rightarrow>
                     (pieces1[index := closer1],
                      if 0 < mp_count closer1 \<and> mp_can_open closer1 then stack1 @ [index] else stack1,
                      if matched then bottom else bottom(key \<mapsto> length stack1))))"

definition process_emphasis :: "md_piece list \<Rightarrow> md_piece list" where
  "process_emphasis pieces = fst (fold emphasis_step [0..<length pieces] (pieces, [], Map.empty))"

definition open_tag :: "nat \<Rightarrow> string" where
  "open_tag used = (if used = 2 then ''<strong>'' else ''<em>'')"

definition close_tag :: "nat \<Rightarrow> string" where
  "close_tag used = (if used = 2 then ''</strong>'' else ''</em>'')"

definition render_piece :: "md_piece \<Rightarrow> string" where
  "render_piece p =
     (if \<not> mp_delim p then mp_html p
      else concat (map close_tag (mp_close_tags p)) @ replicate (mp_count p) (mp_ch p)
        @ concat (map open_tag (mp_open_tags p)))"

definition render_paragraph :: "string \<Rightarrow> string" where
  "render_paragraph body = concat (map render_piece (process_emphasis (scan_pieces None [] body)))"

section \<open>The whole text\<close>

definition emit_paragraph :: "string \<Rightarrow> string" where
  "emit_paragraph paragraph =
     (if trim paragraph = [] then [] else ''<p>'' @ render_paragraph (trim paragraph) @ ''</p>'' @ [LF])"

fun render_lines :: "string list \<Rightarrow> string \<Rightarrow> string" where
  "render_lines [] paragraph = emit_paragraph paragraph"
| "render_lines (line # later) paragraph =
     (if trim line = [] then emit_paragraph paragraph @ render_lines later []
      else render_lines later ((if paragraph = [] then [] else paragraph @ [LF]) @ line))"

fun break_lines :: "string \<Rightarrow> string" where
  "break_lines [] = []"
| "break_lines (c # cs) =
     (if starts_with (c # cs) (''<br />'' @ [LF]) then ''<br>'' @ break_lines (drop 6 cs)
      else if c = LF then ''<br>'' @ break_lines cs else c # break_lines cs)"

definition markdown_inline_html :: "string \<Rightarrow> string" where
  "markdown_inline_html s =
     (if CHR ''*'' \<notin> set s \<and> CHR ''_'' \<notin> set s then s
      else let rendered = render_lines (split_at LF s) []
           in if \<not> contains_sub ''<strong>'' rendered \<and> \<not> contains_sub ''<em>'' rendered
              then unescape_markdown_literals s else break_lines (trim rendered))"

definition kInlineTags :: "string list" where
  "kInlineTags = [''a'', ''b'', ''br'', ''code'', ''del'', ''div'', ''em'', ''i'', ''p'', ''s'', ''span'', ''strong'',
     ''sub'', ''sup'', ''table'', ''tbody'', ''td'', ''tfoot'', ''th'', ''thead'', ''tr'', ''u'']"

definition inline_tag_at :: "string \<Rightarrow> bool" where
  "inline_tag_at s =
     (let s1 = (if starts_with s ''/'' then tl s else s); name = takeWhile is_alpha s1; rest = dropWhile is_alpha s1
      in name \<noteq> [] \<and> rest \<noteq> [] \<and> (is_space (hd rest) \<or> hd rest = CHR ''/'' \<or> hd rest = CHR ''>'')
         \<and> map to_lower name \<in> set kInlineTags)"

fun has_inline_html_tag :: "string \<Rightarrow> bool" where
  "has_inline_html_tag [] = False"
| "has_inline_html_tag (c # cs) = ((c = CHR ''<'' \<and> inline_tag_at cs) \<or> has_inline_html_tag cs)"

section \<open>Tags are nested\<close>

datatype tag_event = TOpen nat | TClose nat

text \<open>Reading tags with the widths that are open; a tag closes only the last one opened.\<close>

fun nest :: "nat list \<Rightarrow> tag_event list \<Rightarrow> nat list option" where
  "nest st [] = Some st"
| "nest st (TOpen u # es) = nest (u # st) es"
| "nest (v # st) (TClose u # es) = (if u = v then nest st es else None)"
| "nest [] (TClose u # es) = None"

definition balanced :: "tag_event list \<Rightarrow> bool" where
  "balanced es \<longleftrightarrow> nest [] es = Some []"

lemma nest_append: "nest st (a @ b) = (case nest st a of None \<Rightarrow> None | Some st' \<Rightarrow> nest st' b)"
  by (induction st a rule: nest.induct) auto

lemma nest_frame: "nest st a = Some st' \<Longrightarrow> nest (st @ t) a = Some (st' @ t)"
  by (induction st a rule: nest.induct) (auto split: if_splits)

lemma balanced_skip: "balanced a \<Longrightarrow> nest st a = Some st"
  using nest_frame [of "[]" a "[]" st] by (simp add: balanced_def)

lemma balanced_wrap: "balanced (y @ x) \<Longrightarrow> balanced x \<Longrightarrow> balanced (y @ TOpen u # x @ [TClose u])"
  by (auto simp: nest_append balanced_skip balanced_def [of "y @ _"] split: option.splits)

definition piece_events :: "md_piece \<Rightarrow> tag_event list" where
  "piece_events p = map TClose (mp_close_tags p) @ map TOpen (mp_open_tags p)"

definition events :: "md_piece list \<Rightarrow> tag_event list" where
  "events ps = concat (map piece_events ps)"

lemma events_simps [simp]: "events [] = []" "events (p # ps) = piece_events p @ events ps" "events (a @ b) = events a @ events b"
  by (simp_all add: events_def)

text \<open>The events from just inside a piece up to another.\<close>

definition inside :: "md_piece list \<Rightarrow> nat \<Rightarrow> nat \<Rightarrow> tag_event list" where
  "inside ps i q = map TOpen (mp_open_tags (ps ! i)) @ events (take (q - Suc i) (drop (Suc i) ps))"

definition spent :: "md_piece \<Rightarrow> bool" where
  "spent p \<longleftrightarrow> mp_count p + sum_list (mp_open_tags p) + sum_list (mp_close_tags p) = mp_orig p"

definition emphasis_inv :: "md_piece list \<Rightarrow> nat list \<Rightarrow> nat \<Rightarrow> tag_event list \<Rightarrow> bool" where
  "emphasis_inv ps stack q shut \<longleftrightarrow>
     q \<le> length ps \<and> sorted_wrt (<) stack \<and> balanced (events (take q ps) @ shut)
     \<and> (\<forall>i \<in> set stack. i < q \<and> balanced (inside ps i q @ shut)) \<and> (\<forall>p \<in> set ps. spent p)
     \<and> (\<forall>i. q \<le> i \<and> i < length ps \<longrightarrow> mp_open_tags (ps ! i) = [] \<and> mp_close_tags (ps ! i) = [])"

lemma take_split: "o' < q \<Longrightarrow> q \<le> length ps \<Longrightarrow> take q ps = take o' ps @ ps ! o' # take (q - Suc o') (drop (Suc o') ps)"
  by (metis Cons_nth_drop_Suc Suc_diff_Suc append_take_drop_id le_add_diff_inverse less_imp_le_nat order_less_le_trans
      take_Suc_Cons take_add)

lemma between_split:
  assumes "i < o'" and "o' < q" and "q \<le> length ps"
  shows "take (q - Suc i) (drop (Suc i) ps)
    = take (o' - Suc i) (drop (Suc i) ps) @ ps ! o' # take (q - Suc o') (drop (Suc o') ps)"
  using take_split [of "o' - Suc i" "q - Suc i" "drop (Suc i) ps"] assms by simp

lemma sorted_take: "sorted_wrt (<) xs \<Longrightarrow> k < length xs \<Longrightarrow> i \<in> set (take (Suc k) xs) \<Longrightarrow> i \<le> xs ! (k :: nat)" for xs :: "nat list"
  by (auto simp: in_set_conv_nth sorted_wrt_iff_nth_less less_Suc_eq intro: less_imp_le)

lemma emphasis_match:
  assumes inv: "emphasis_inv ps stack q shut" and k: "k < length stack" and u: "u \<le> mp_count (ps ! (stack ! k))"
    and sub: "stack' = take k stack \<or> stack' = take (Suc k) stack"
  shows "emphasis_inv (ps[stack ! k := use_opener u (ps ! (stack ! k))]) stack' q (shut @ [TClose u])"
proof -
  define i where "i = stack ! k"
  define ps' where "ps' = ps[i := use_opener u (ps ! i)]"
  have i: "i \<in> set stack" "i < q" "q \<le> length ps" "balanced (inside ps i q @ shut)"
    using inv k by (auto simp: emphasis_inv_def i_def)
  have ev: "piece_events (use_opener u p) = map TClose (mp_close_tags p) @ TOpen u # map TOpen (mp_open_tags p)" for p
    by (simp add: piece_events_def use_opener_def)
  have tail: "take (q - Suc i) (drop (Suc i) ps') = take (q - Suc i) (drop (Suc i) ps)" by (simp add: ps'_def)
  have here: "ps' ! i = use_opener u (ps ! i)" using i by (simp add: ps'_def)
  have whole: "balanced (events (take q ps') @ shut @ [TClose u])"
  proof -
    have "events (take q ps) @ shut = (events (take i ps) @ map TClose (mp_close_tags (ps ! i))) @ inside ps i q @ shut"
      using take_split [OF i(2,3)] by (simp add: inside_def piece_events_def)
    moreover have "events (take q ps') = events (take i ps) @ map TClose (mp_close_tags (ps ! i)) @ TOpen u # inside ps i q"
      using take_split [of i q ps'] i here tail by (simp add: inside_def ev) (simp add: ps'_def ev)
    moreover have "balanced (events (take q ps) @ shut)" using inv by (simp add: emphasis_inv_def)
    ultimately show ?thesis
      using balanced_wrap [of "events (take i ps) @ map TClose (mp_close_tags (ps ! i))", OF _ i(4)] by simp
  qed
  have seg: "j < q \<and> balanced (inside ps' j q @ shut @ [TClose u])" if j: "j \<in> set stack'" for j
  proof (cases "j = i")
    case True
    have "inside ps' i q = TOpen u # inside ps i q" using here tail by (simp add: inside_def use_opener_def)
    with True i balanced_wrap [of "[]", OF _ i(4)] show ?thesis by simp
  next
    case False
    have "j \<in> set (take (Suc k) stack)" using sub j by (auto dest: in_set_takeD simp: take_Suc_conv_app_nth [OF k])
    then have "j \<le> i" using sorted_take [OF _ k] inv by (simp add: emphasis_inv_def i_def)
    with False have less: "j < i" by simp
    have "j \<in> set stack" using sub j by (auto dest: in_set_takeD)
    then have b: "balanced (inside ps j q @ shut)" using inv by (simp add: emphasis_inv_def)
    define y where "y = map TOpen (mp_open_tags (ps ! j)) @ events (take (i - Suc j) (drop (Suc j) ps)) @ map TClose (mp_close_tags (ps ! i))"
    have "inside ps j q = y @ inside ps i q"
      using between_split [OF less i(2,3)] by (simp add: inside_def y_def piece_events_def)
    moreover have "inside ps' j q = y @ TOpen u # inside ps i q"
      using between_split [of j i q ps'] less i here tail
      by (simp add: inside_def y_def ev) (simp add: ps'_def drop_update_swap ev)
    ultimately show ?thesis using b balanced_wrap [OF _ i(4)] less i(2) by simp
  qed
  have "spent (use_opener u (ps ! i))" using inv i u by (auto simp: emphasis_inv_def spent_def use_opener_def i_def)
  then have "\<forall>p \<in> set ps'. spent p" using inv by (auto simp: emphasis_inv_def ps'_def dest: set_update_subset_insert [THEN subsetD])
  moreover have "sorted_wrt (<) stack'" using sub inv by (auto simp: emphasis_inv_def sorted_wrt_take)
  moreover have "mp_open_tags (ps' ! j) = [] \<and> mp_close_tags (ps' ! j) = []" if "q \<le> j" "j < length ps'" for j
    using inv that i by (auto simp: emphasis_inv_def ps'_def)
  ultimately show ?thesis using whole seg i by (simp add: emphasis_inv_def ps'_def i_def)
qed

lemma find_in_set: "find P xs = Some x \<Longrightarrow> x \<in> set xs \<and> P x"
  by (induction xs) (auto split: if_splits)

lemma match_closer_inv:
  assumes "emphasis_inv ps stack q (map TClose (mp_close_tags closer))" and "spent closer"
    and "match_closer ps stack bottom closer matched = (ps', stack', closer', matched')"
  shows "emphasis_inv ps' stack' q (map TClose (mp_close_tags closer')) \<and> spent closer'
    \<and> length ps' = length ps \<and> mp_open_tags closer' = mp_open_tags closer \<and> mp_delim closer' = mp_delim closer"
  using assms
proof (induction ps stack bottom closer matched rule: match_closer.induct)
  case (1 ps stack bottom closer matched)
  show ?case
  proof (cases "mp_count closer = 0 \<or> find_opener ps stack bottom closer = None")
    case True
    then have "(ps', stack', closer') = (ps, stack, closer)"
      using "1.prems"(3) by (auto simp: match_closer.simps [of ps] split: if_splits)
    with "1.prems" show ?thesis by simp
  next
    case False
    then obtain k where c: "mp_count closer \<noteq> 0" and k: "find_opener ps stack bottom closer = Some k" by auto
    define i where "i = stack ! k"
    define u where "u = tag_width (ps ! i) closer"
    define opener where "opener = use_opener u (ps ! i)"
    define st where "st = (if mp_count opener = 0 then take k stack else take (k + 1) stack)"
    have kl: "k < length stack" and o: "opens_for (ps ! i) closer"
      using k by (auto simp: find_opener_def i_def dest!: find_in_set)
    have u: "u \<le> mp_count (ps ! i)" "u \<le> mp_count closer" using c o by (auto simp: u_def tag_width_def opens_for_def)
    have step: "match_closer ps stack bottom closer matched = match_closer (ps[i := opener]) st bottom (use_closer u closer) True"
      using c k by (simp add: match_closer.simps [of ps] i_def u_def opener_def st_def Let_def)
    have "emphasis_inv (ps[i := opener]) st q (map TClose (mp_close_tags closer) @ [TClose u])"
      unfolding i_def opener_def by (rule emphasis_match [OF "1.prems"(1) kl]) (use u in \<open>auto simp: i_def st_def\<close>)
    then have inv: "emphasis_inv (ps[i := opener]) st q (map TClose (mp_close_tags (use_closer u closer)))"
      by (simp add: use_closer_def)
    have "spent (use_closer u closer)" using "1.prems"(2) u(2) by (simp add: spent_def use_closer_def)
    with "1.IH" [OF c k i_def u_def opener_def] inv "1.prems"(3) show ?thesis
      unfolding step by (simp add: st_def use_closer_def)
  qed
qed

lemma emphasis_close:
  assumes inv: "emphasis_inv ps stack q (map TClose (mp_close_tags closer))" and q: "q < length ps"
    and closer: "spent closer" "mp_open_tags closer = []" and sub: "stack' = stack \<or> stack' = stack @ [q]"
  shows "emphasis_inv (ps[q := closer]) stack' (Suc q) []"
proof -
  let ?ps = "ps[q := closer]"
  have e: "piece_events closer = map TClose (mp_close_tags closer)" using closer by (simp add: piece_events_def)
  have "take (Suc q) ?ps = take q ps @ [closer]" using q by (simp add: take_Suc_conv_app_nth)
  then have whole: "balanced (events (take (Suc q) ?ps))" using inv e by (simp add: emphasis_inv_def)
  have "balanced (inside ?ps i (Suc q))" if i: "i \<in> set stack" for i
  proof -
    have iq: "i < q" "balanced (inside ps i q @ map TClose (mp_close_tags closer))" using inv i by (auto simp: emphasis_inv_def)
    have "inside ?ps i (Suc q) = inside ps i q @ piece_events closer"
      using between_split [of i q "Suc q" ?ps] iq(1) q by (simp add: inside_def drop_update_swap)
    with iq(2) e show ?thesis by simp
  qed
  moreover have "balanced (inside ?ps q (Suc q))" using q closer(2) by (simp add: inside_def balanced_def)
  moreover have "sorted_wrt (<) (stack @ [q])" using inv by (auto simp: emphasis_inv_def sorted_wrt_append)
  ultimately show ?thesis
    using sub inv whole q closer(1)
    by (auto simp: emphasis_inv_def less_Suc_eq dest: set_update_subset_insert [THEN subsetD])
qed

lemma emphasis_step_inv:
  assumes "emphasis_inv ps stack q []" and "q < length ps" and "emphasis_step q (ps, stack, bottom) = (ps', stack', bottom')"
  shows "emphasis_inv ps' stack' (Suc q) [] \<and> length ps' = length ps"
proof -
  have tags: "mp_open_tags (ps ! q) = []" "mp_close_tags (ps ! q) = []" "spent (ps ! q)"
    using assms(1,2) by (auto simp: emphasis_inv_def)
  have inv: "emphasis_inv ps stack q (map TClose (mp_close_tags (ps ! q)))" using assms(1) tags by simp
  show ?thesis
  proof (cases "mp_delim (ps ! q)")
    case False
    then have "ps' = ps[q := ps ! q]" "stack' = stack" using assms(3) by (auto simp: emphasis_step_def)
    with emphasis_close [OF inv assms(2) tags(3,1)] show ?thesis by simp
  next
    case True
    define key where "key = (mp_ch (ps ! q), mp_can_open (ps ! q), mp_orig (ps ! q) mod 3)"
    define res where "res = (if mp_can_close (ps ! q)
      then match_closer ps stack (case bottom key of None \<Rightarrow> 0 | Some n \<Rightarrow> n) (ps ! q) False else (ps, stack, ps ! q, True))"
    obtain ps1 stack1 closer1 matched where res: "res = (ps1, stack1, closer1, matched)" by (metis prod_cases4)
    have f: "emphasis_inv ps1 stack1 q (map TClose (mp_close_tags closer1)) \<and> spent closer1 \<and> length ps1 = length ps
        \<and> mp_open_tags closer1 = []"
      using res match_closer_inv [OF inv tags(3)] inv tags by (auto simp: res_def split: if_splits)
    have "emphasis_step q (ps, stack, bottom) = (case res of (pieces1, stack1, closer1, matched) \<Rightarrow>
        (pieces1[q := closer1], if 0 < mp_count closer1 \<and> mp_can_open closer1 then stack1 @ [q] else stack1,
         if matched then bottom else bottom(key \<mapsto> length stack1)))"
      using True by (simp add: emphasis_step_def res_def key_def Let_def split: prod.split)
    then have "ps' = ps1[q := closer1]" "stack' = stack1 \<or> stack' = stack1 @ [q]"
      using assms(3) res by (auto split: if_splits)
    with emphasis_close [of ps1 stack1 q closer1 stack'] f assms(2) show ?thesis by simp
  qed
qed

lemma process_emphasis_inv:
  assumes "\<forall>p \<in> set ps. spent p \<and> mp_open_tags p = [] \<and> mp_close_tags p = []"
  shows "balanced (events (process_emphasis ps)) \<and> (\<forall>p \<in> set (process_emphasis ps). spent p)"
proof -
  have "\<exists>ps' stack bottom. fold emphasis_step [0..<n] (ps, [], Map.empty) = (ps', stack, bottom)
      \<and> emphasis_inv ps' stack n [] \<and> length ps' = length ps" if "n \<le> length ps" for n
    using that
  proof (induction n)
    case 0
    then show ?case using assms by (auto simp: emphasis_inv_def balanced_def)
  next
    case (Suc n)
    then obtain ps' stack bottom where f: "fold emphasis_step [0..<n] (ps, [], Map.empty) = (ps', stack, bottom)"
      "emphasis_inv ps' stack n []" "length ps' = length ps" by auto
    obtain ps2 stack2 bottom2 where s: "emphasis_step n (ps', stack, bottom) = (ps2, stack2, bottom2)" by (metis prod_cases3)
    from emphasis_step_inv [OF f(2) _ s] f Suc.prems s show ?case by simp
  qed
  from this [of "length ps"] show ?thesis by (auto simp: process_emphasis_def emphasis_inv_def)
qed

definition fresh :: "md_piece \<Rightarrow> bool" where
  "fresh p \<longleftrightarrow> spent p \<and> mp_open_tags p = [] \<and> mp_close_tags p = []"

lemma flush_fresh: "list_all fresh (flush_piece buffer)"
  by (simp add: flush_piece_def text_piece_def fresh_def spent_def)

lemma scan_step_fresh: "list_all fresh (fst (scan_step before buffer s))"
  by (rule scan_step_pred [where P = "\<lambda>r. list_all fresh (fst r)"])
    (auto simp: pred_option_def literal_round_def code_round_def escape_round_def tag_round_def delim_round_def
      line_round_def flush_fresh delim_piece_def fresh_def spent_def Let_def split: option.splits if_splits)

lemma scanned_fresh: "list_all fresh (scan_pieces before buffer s)"
proof (induction before buffer s rule: scan_pieces.induct)
  case (1 before buffer s)
  with scan_step_fresh [of before buffer s] show ?case
    by (subst scan_pieces.simps) (simp add: flush_fresh Let_def)
qed

text \<open>
  C36: emphasis comes out as proper HTML.  The strong and em tags written for a paragraph close
  in the reverse order they open, none is left open, and of every run of delimiters the
  characters that did not become tags stay in the text.
\<close>

theorem emphasis_nested:
  "balanced (events (process_emphasis (scan_pieces None [] body)))
   \<and> list_all (\<lambda>p. mp_count p + sum_list (mp_open_tags p) + sum_list (mp_close_tags p) = mp_orig p)
       (process_emphasis (scan_pieces None [] body))"
proof -
  have "\<forall>p \<in> set (scan_pieces None [] body). spent p \<and> mp_open_tags p = [] \<and> mp_close_tags p = []"
    using scanned_fresh [of None "[]" body] by (auto simp: list_all_iff fresh_def)
  from process_emphasis_inv [OF this] show ?thesis by (simp add: list_all_iff spent_def)
qed

text \<open>
  The floor of a search is kept as a place in the stack of openers.  The stack shrinks when a
  run closes, so the floor hides openers pushed later: the second emphasis here is lost.
\<close>

lemma emphasis_lost: "render_paragraph ''*a_ b* _c_'' = ''<em>a_ b</em> _c_''"
  by code_simp

end
