(* ===== verification/Chandra.thy ===== *)
theory Chandra
  imports Chandra_Runs Markdown_Inline
begin

text \<open>
  The second half of \<^verbatim>\<open>src/mapping/chandra.cpp\<close>: the builder that walks layout HTML and writes
  its blocks, lists, tables with rich cells, pictures and captions, the entry points other mappers
  use, and the Chandra mapper.
\<close>

section \<open>What a node is\<close>

text \<open>What the builder works with and never changes.\<close>

record chandra_env =
  ce_lib :: image_library
  ce_rnd :: "real \<Rightarrow> real"
  ce_dbl :: "real \<Rightarrow> real option"
  ce_byte_size :: "table_cell \<Rightarrow> nat"
  ce_page :: page_context

definition has_place :: "markup_node \<Rightarrow> bool" where
  "has_place node \<longleftrightarrow> has_attr ''data-bbox'' node \<or> has_attr ''data-label'' node"

definition labelled :: "string \<Rightarrow> markup_node \<Rightarrow> bool" where
  "labelled name node \<longleftrightarrow> has_attr ''data-label'' node \<and> node_attr ''data-label'' [] node = name"

definition inline_node :: "markup_node \<Rightarrow> bool" where
  "inline_node node \<longleftrightarrow>
     mn_tag node \<notin> set kBlockTags \<and> mn_tag node \<noteq> ''img'' \<and> mn_tag node \<noteq> ''chem'' \<and> \<not> has_place node
     \<and> \<not> (mn_tag node = ''math'' \<and> node_attr ''display'' [] node = ''block'')
     \<and> \<not> any_descendant is_block node"

definition kNotTextOwners :: "string list" where
  "kNotTextOwners = [''Table'', ''List-Group'', ''Figure'', ''Image'', ''Diagram'', ''Chemical-Block'', ''Form'']"

definition own_of :: "chandra_env \<Rightarrow> markup_node \<Rightarrow> own_box" where
  "own_of env node =
     \<lparr>ow_box = provenance_box (ce_dbl env) (ce_rnd env) (ce_page env) node,
      ow_text_owner = (\<not> list_ex (\<lambda>name. labelled name node) kNotTextOwners), ow_claimed = False\<rparr>"

definition block_label :: "markup_node \<Rightarrow> doc_item_label \<Rightarrow> doc_item_label" where
  "block_label node label =
     (if has_place node
      then case layout_label_of (node_attr ''data-label'' [] node) of None \<Rightarrow> DOC_ITEM_LABEL_TEXT | Some l \<Rightarrow> l
      else label)"

datatype block_kind = BPicture | BTable | BList | BCode | BMath | BInline | BForm | BCaption | BWalk | BNothing

definition block_kind_of :: "markup_node \<Rightarrow> block_kind" where
  "block_kind_of node =
     (let tag = mn_tag node
      in if labelled ''Figure'' node \<or> labelled ''Image'' node \<or> labelled ''Diagram'' node
            \<or> labelled ''Chemical-Block'' node \<or> tag \<in> {''figure'', ''img'', ''chem''} then BPicture
         else if tag = ''table'' then BTable
         else if tag \<in> {''ul'', ''ol''}
                 \<or> (labelled ''List-Group'' node \<and> \<not> any_descendant (\<lambda>n. mn_tag n \<in> {''ul'', ''ol''}) node) then BList
         else if tag \<in> {''pre'', ''code''}
                 \<or> (labelled ''Code-Block'' node \<and> \<not> any_descendant (\<lambda>n. mn_tag n = ''pre'') node) then BCode
         else if tag = ''math'' then BMath
         else if tag \<notin> set kBlockTags \<and> has_place node then BInline
         else if labelled ''Form'' node \<or> tag = ''form'' then BForm
         else if tag \<in> {''caption'', ''figcaption''} \<or> labelled ''Caption'' node \<or> labelled ''Footnote'' node then BCaption
         else if tag \<notin> {''script'', ''style'', ''head'', ''hr''} then BWalk
         else BNothing)"

section \<open>Pieces of the builder\<close>

definition code_block :: "chandra_env \<Rightarrow> markup_node \<Rightarrow> lref \<Rightarrow> chandra_state \<Rightarrow> chandra_state" where
  "code_block env node parent st =
     (let (box, prov) = text_prov (fst st)
      in (prov, snd (write_code (ce_page env) box (strip_chars [LF, CR] (html_text node))
                 (node_attr ''class'' [] node) parent (snd st))))"

definition math_block :: "chandra_env \<Rightarrow> markup_node \<Rightarrow> lref \<Rightarrow> chandra_state \<Rightarrow> chandra_state" where
  "math_block env node parent st =
     (let (box, prov) = text_prov (fst st)
      in (prov, snd (write_formula (ce_page env) box (py_strip (html_text node)) parent (snd st))))"

definition inline_block ::
  "chandra_env \<Rightarrow> bool \<Rightarrow> markup_node \<Rightarrow> lref \<Rightarrow> doc_item_label \<Rightarrow> chandra_state \<Rightarrow> chandra_state" where
  "inline_block env skip_chem node parent label st =
     (let runs = inline_runs skip_chem no_formatting [] node
      in emit_runs (ce_page env) runs parent
           (if \<not> has_attr ''data-label'' node \<and> length runs = 1 then rn_label (runs ! 0) else label) st)"

text \<open>The captions or footnotes written since \<open>before\<close> are linked to their picture or table.\<close>

definition link_new_captions :: "lref \<Rightarrow> doc_item_label \<Rightarrow> nat \<Rightarrow> writer \<Rightarrow> writer" where
  "link_new_captions parent label before w =
     (case parent of
        None \<Rightarrow> w
      | Some owner \<Rightarrow>
          if fst owner = PICTURE \<or> fst owner = TABLE
          then fold (\<lambda>i w. if label_of w (TEXT, i) \<noteq> label then w
                           else if label = DOC_ITEM_LABEL_FOOTNOTE then link_footnote owner (TEXT, i) w
                           else link_caption owner (TEXT, i) w) [before..<text_count w] w
          else w)"

definition list_start :: "markup_node \<Rightarrow> int" where
  "list_start node =
     (case python_int (py_strip (node_attr ''start'' ''1'' node)) of
        None \<Rightarrow> 1 | Some value \<Rightarrow> std_clamp value 1 2147483647)"

text \<open>An element of a list: a child, or loose content gathered between children.\<close>

datatype li = LiNode markup_node | LiLoose "markup_node list"

definition flush_loose :: "markup_node list \<Rightarrow> li list" where
  "flush_loose pending = (if pending = [] then [] else [LiLoose pending])"

fun gather_items :: "markup_node list \<Rightarrow> markup_node list \<Rightarrow> li list" where
  "gather_items pending [] =
     (if list_ex (\<lambda>n. \<not> is_text n \<or> py_strip (mn_text n) \<noteq> []) pending then flush_loose pending else [])"
| "gather_items pending (c # cs) =
     (if \<not> is_text c \<and> mn_tag c \<in> {''li'', ''p'', ''br''}
      then flush_loose pending @ (if mn_tag c = ''br'' then [] else [LiNode c]) @ gather_items [] cs
      else gather_items (pending @ [c]) cs)"

definition list_elements :: "markup_node \<Rightarrow> li list" where
  "list_elements node =
     (if mn_tag node \<noteq> ''ul'' \<and> mn_tag node \<noteq> ''ol'' then gather_items [] (mn_children node)
      else map LiNode (mn_children node))"

definition is_rich :: "markup_node \<Rightarrow> bool" where
  "is_rich node \<longleftrightarrow> any_descendant (\<lambda>n. mn_tag n \<noteq> ''span'') node"

text \<open>The group of every rich cell, by the place of the cell.\<close>

definition anchor_refs :: "span_cell list \<Rightarrow> string list \<Rightarrow> (int \<times> int) \<rightharpoonup> string" where
  "anchor_refs cells refs =
     fold (\<lambda>(c, r) m. if r = [] then m else m((int (sp_row c), int (sp_col c)) \<mapsto> r)) (zip cells refs) Map.empty"

definition stamp_ref :: "((int \<times> int) \<rightharpoonup> string) \<Rightarrow> table_cell \<Rightarrow> table_cell" where
  "stamp_ref by_anchor cell =
     (case by_anchor (tc_start_row cell, tc_start_col cell) of None \<Rightarrow> cell | Some r \<Rightarrow> cell\<lparr>tc_ref := Some r\<rparr>)"

definition attach_rich_refs :: "span_cell list \<Rightarrow> string list \<Rightarrow> table_data \<Rightarrow> table_data" where
  "attach_rich_refs cells refs data =
     (let by_anchor = anchor_refs cells refs
      in data\<lparr>td_cells := map (stamp_ref by_anchor) (td_cells data),
              td_grid := map (map (stamp_ref by_anchor)) (td_grid data)\<rparr>)"

definition fill_rich_table :: "chandra_env \<Rightarrow> body_child \<Rightarrow> span_cell list \<Rightarrow> string list \<Rightarrow> writer \<Rightarrow> writer" where
  "fill_rich_table env table cells refs w =
     (let (data, report) = fill_span_table (ce_byte_size env) cells
      in edit_table table (\<lambda>t. t\<lparr>tl_data := attach_rich_refs cells refs data\<rparr>)
           (w\<lparr>lw_warnings := lw_warnings w @ note_table_cut report data ''table''
               (body_child_ref TABLE (snd table))\<rparr>))"

definition caption_nodes :: "markup_node \<Rightarrow> markup_node list" where
  "caption_nodes node =
     filter (\<lambda>c. \<not> is_text c \<and> (mn_tag c \<in> {''caption'', ''figcaption''}
       \<or> node_attr ''data-label'' [] c = ''Caption'' \<or> node_attr ''data-label'' [] c = ''Footnote'')) (mn_children node)"

definition nodes_tagged :: "string \<Rightarrow> markup_node \<Rightarrow> markup_node list" where
  "nodes_tagged name node =
     (if mn_tag node = name then [node] else filter (\<lambda>n. mn_tag n = name) (descendants node))"

definition alt_texts :: "markup_node list \<Rightarrow> string list" where
  "alt_texts images =
     fold (\<lambda>node alts. let alt = node_attr ''alt'' [] node in if alt \<noteq> [] \<and> alt \<notin> set alts then alts @ [alt] else alts)
       images []"

text \<open>The alternative texts are joined line by line.\<close>

definition picture_description :: "markup_node list \<Rightarrow> string" where
  "picture_description images = join_with LF (alt_texts images)"

definition picture_content :: "markup_node \<Rightarrow> markup_node list" where
  "picture_content node =
     (let images = nodes_tagged ''img'' node; drop_chem = (length (nodes_tagged ''chem'' node) = 1)
      in filter (\<lambda>c. if is_text c then images = []
                     else \<not> (mn_tag c = ''img'' \<or> (mn_tag c = ''chem'' \<and> drop_chem))) (mn_children node))"

definition open_picture :: "chandra_env \<Rightarrow> markup_node \<Rightarrow> lref \<Rightarrow> chandra_state \<Rightarrow> body_child \<times> chandra_state" where
  "open_picture env node parent st =
     (let (box, prov) = take_box (fst st);
          (ref, w1) = write_picture (ce_lib env) (ce_rnd env) (ce_page env) box parent (snd st);
          w2 = describe_picture ref (picture_description (nodes_tagged ''img'' node)) ''chandra'' w1;
          w3 = (case nodes_tagged ''chem'' node of
                  [chem] \<Rightarrow> set_molecule ref (py_strip (html_text chem)) ''chandra'' w2
                | _ \<Rightarrow> w2)
      in (ref, prov, w3))"

section \<open>Sizes\<close>

fun node_size :: "markup_node \<Rightarrow> nat" where
  "node_size (MarkupNode tag t attrs cs) = Suc (sum_list (map node_size cs))"

definition nodes_size :: "markup_node list \<Rightarrow> nat" where
  "nodes_size nodes = sum_list (map node_size nodes)"

fun li_size :: "li \<Rightarrow> nat" where
  "li_size (LiNode node) = node_size node"
| "li_size (LiLoose nodes) = max 1 (nodes_size nodes)"

definition cell_size :: "span_cell \<Rightarrow> nat" where
  "cell_size c = (case sp_node c of None \<Rightarrow> 1 | Some node \<Rightarrow> node_size node)"

lemma nodes_size_simps [simp]:
  "nodes_size [] = 0" "nodes_size (n # ns) = node_size n + nodes_size ns" "nodes_size (a @ b) = nodes_size a + nodes_size b"
  by (simp_all add: nodes_size_def)

lemma node_size_children: "node_size n = Suc (nodes_size (mn_children n))"
  by (cases n) (simp add: nodes_size_def)

lemma node_size_pos [simp]: "0 < node_size n"
  by (simp add: node_size_children)

lemma nodes_size_filter: "nodes_size (filter P ns) \<le> nodes_size ns"
  by (induction ns) auto

lemma flush_size: "sum_list (map li_size (flush_loose pending)) \<le> nodes_size pending"
proof (cases pending)
  case (Cons n ns)
  then show ?thesis using node_size_pos [of n] by (simp add: flush_loose_def max_def del: node_size_pos)
qed (simp add: flush_loose_def)

lemma gather_size: "sum_list (map li_size (gather_items pending cs)) \<le> nodes_size pending + nodes_size cs"
proof (induction pending cs rule: gather_items.induct)
  case (1 pending)
  show ?case using flush_size [of pending] by simp
next
  case (2 pending c cs)
  then show ?case using flush_size [of pending] by auto
qed

lemma list_elements_size: "sum_list (map li_size (list_elements n)) < node_size n"
proof -
  have "sum_list (map (li_size \<circ> LiNode) ns) = nodes_size ns" for ns by (induction ns) simp_all
  then show ?thesis
    using gather_size [of "[]" "mn_children n"] by (simp add: list_elements_def node_size_children)
qed

lemma cell_size_make [simp]: "cell_size (make_cell row i col rs cs node) = node_size node"
  by (simp add: cell_size_def make_cell_def Let_def)

lemma place_cells_size: "sum_list (map cell_size (fst (place_cells rows row i nodes col u))) \<le> nodes_size nodes"
proof (induction nodes arbitrary: col u)
  case (Cons n ns)
  then show ?case by (simp add: Let_def trans_le_add2)
qed simp

lemma picture_content_size: "nodes_size (picture_content n) \<le> nodes_size (mn_children n)"
  by (simp add: picture_content_def Let_def nodes_size_filter del: if_bool_eq_conj)

lemma place_rows_size:
  "sum_list (map cell_size (place_rows rows i rs u)) \<le> sum_list (map (\<lambda>r. node_size (tr_node r)) rs)"
proof (induction rs arbitrary: i u)
  case (Cons r rs)
  obtain cells u' where p: "place_cells rows r i (mn_children (tr_node r)) 0 u = (cells, u')" by fastforce
  have "sum_list (map cell_size cells) \<le> node_size (tr_node r)"
    using place_cells_size [of rows r i "mn_children (tr_node r)" 0 u] by (simp add: p node_size_children)
  then show ?case using Cons.IH [of "i + 1" u'] by (simp add: p)
qed simp

lemma add_rows_size:
  "sum_list (map (\<lambda>r. node_size (tr_node r)) (fold add_rows cs rs))
     \<le> sum_list (map (\<lambda>r. node_size (tr_node r)) rs) + nodes_size cs"
proof (induction cs arbitrary: rs)
  case (Cons c cs)
  have "nodes_size (row_nodes c) \<le> node_size c"
    using nodes_size_filter [of _ "mn_children c"] by (simp add: row_nodes_def node_size_children le_SucI)
  then have "sum_list (map (\<lambda>r. node_size (tr_node r)) (add_rows c rs))
      \<le> sum_list (map (\<lambda>r. node_size (tr_node r)) rs) + node_size c"
    by (auto simp: add_rows_def nodes_size_def comp_def)
  with Cons.IH [of "add_rows c rs"] show ?case by simp
qed simp

lemma table_cells_size: "sum_list (map cell_size (chandra_table_cells n)) < node_size n"
  using place_rows_size [of _ 0 "table_rows n" "[]"] add_rows_size [of "mn_children n" "[]"]
  by (auto simp: chandra_table_cells_def table_rows_def node_size_children less_Suc_eq_le intro: le_trans)

section \<open>The builder\<close>

definition caption_label :: "markup_node \<Rightarrow> doc_item_label" where
  "caption_label node = (if labelled ''Footnote'' node then DOC_ITEM_LABEL_FOOTNOTE else DOC_ITEM_LABEL_CAPTION)"

definition heading_text :: "markup_node \<Rightarrow> doc_item_label \<Rightarrow> doc_item_label" where
  "heading_text node label =
     (if is_heading_tag (mn_tag node) \<and> label = DOC_ITEM_LABEL_TEXT then DOC_ITEM_LABEL_SECTION_HEADER else label)"

definition heading_levels :: "markup_node \<Rightarrow> nat \<Rightarrow> writer \<Rightarrow> writer" where
  "heading_levels node before w =
     (if is_heading_tag (mn_tag node) then set_levels before (int (digit_value (mn_tag node ! 1))) w else w)"

definition skipped_node :: "bool \<Rightarrow> bool \<Rightarrow> markup_node \<Rightarrow> bool" where
  "skipped_node skip_img skip_chem node \<longleftrightarrow>
     \<not> is_text node \<and> ((skip_img \<and> mn_tag node = ''img'') \<or> (skip_chem \<and> mn_tag node = ''chem''))"

definition open_item :: "chandra_env \<Rightarrow> bool \<Rightarrow> int \<Rightarrow> body_child \<Rightarrow> writer \<Rightarrow> body_child \<times> writer" where
  "open_item env ordered number grp w =
     write_list_item (ce_page env) None [] ordered (if ordered then show_int number @ ''.'' else []) (Some grp) w"

definition cell_ref :: "body_child \<Rightarrow> writer \<Rightarrow> string" where
  "cell_ref grp w = (if 0 < children_of w grp then body_child_ref GROUP (snd grp) else [])"

text \<open>
  \<open>skip_img\<close> and \<open>skip_chem\<close> are \<^verbatim>\<open>skip_img_\<close> and \<^verbatim>\<open>skip_chem_\<close>, which a picture sets for what
  it holds and restores.
\<close>

function (sequential)
      walk :: "chandra_env \<Rightarrow> bool \<Rightarrow> bool \<Rightarrow> markup_node list \<Rightarrow> run list \<Rightarrow> lref \<Rightarrow> doc_item_label \<Rightarrow>
               chandra_state \<Rightarrow> chandra_state"
  and chandra_block :: "chandra_env \<Rightarrow> bool \<Rightarrow> bool \<Rightarrow> markup_node \<Rightarrow> lref \<Rightarrow> doc_item_label \<Rightarrow> chandra_state \<Rightarrow> chandra_state"
  and chandra_list :: "chandra_env \<Rightarrow> bool \<Rightarrow> bool \<Rightarrow> markup_node \<Rightarrow> lref \<Rightarrow> writer \<Rightarrow> writer"
  and list_items :: "chandra_env \<Rightarrow> bool \<Rightarrow> bool \<Rightarrow> bool \<Rightarrow> body_child \<Rightarrow> int \<Rightarrow> li list \<Rightarrow> writer \<Rightarrow> writer"
  and chandra_table :: "chandra_env \<Rightarrow> bool \<Rightarrow> bool \<Rightarrow> markup_node \<Rightarrow> lref \<Rightarrow> chandra_state \<Rightarrow> chandra_state"
  and rich_cells :: "chandra_env \<Rightarrow> bool \<Rightarrow> bool \<Rightarrow> body_child \<Rightarrow> span_cell list \<Rightarrow> writer \<Rightarrow> string list \<times> writer"
  and caption_blocks :: "chandra_env \<Rightarrow> bool \<Rightarrow> bool \<Rightarrow> body_child \<Rightarrow> markup_node list \<Rightarrow> writer \<Rightarrow> writer"
  and chandra_picture :: "chandra_env \<Rightarrow> bool \<Rightarrow> bool \<Rightarrow> markup_node \<Rightarrow> lref \<Rightarrow> chandra_state \<Rightarrow> chandra_state"
where
  "walk env si sc [] runs parent label st = emit_runs (ce_page env) runs parent label st"
| "walk env si sc (n # ns) runs parent label st =
     (if skipped_node si sc n then walk env si sc ns runs parent label st
      else if is_text n \<or> inline_node n
      then walk env si sc ns (runs @ inline_runs sc no_formatting [] n) parent label st
      else walk env si sc ns [] parent label
             (chandra_block env si sc n parent label (emit_runs (ce_page env) runs parent label st)))"
| "chandra_block env si sc node parent label0 st =
     (let inner = (if has_place node then Some (own_of env node) else fst st);
          label = block_label node label0;
          w = snd st;
          st1 = (case block_kind_of node of
             BPicture \<Rightarrow> chandra_picture env si sc node parent (inner, w)
           | BTable \<Rightarrow> chandra_table env si sc node parent (inner, w)
           | BList \<Rightarrow> (inner, chandra_list env si sc node parent w)
           | BCode \<Rightarrow> code_block env node parent (inner, w)
           | BMath \<Rightarrow> math_block env node parent (inner, w)
           | BInline \<Rightarrow> inline_block env sc node parent label (inner, w)
           | BForm \<Rightarrow>
               (let (box, prov) = take_box inner; (region, w1) = write_field_region (ce_page env) box parent w
                in (prov, snd (walk env si sc (mn_children node) [] (Some region) DOC_ITEM_LABEL_TEXT (None, w1))))
           | BCaption \<Rightarrow>
               (let (prov, w1) = walk env si sc (mn_children node) [] parent (caption_label node) (inner, w)
                in (prov, link_new_captions parent (caption_label node) (text_count w) w1))
           | BWalk \<Rightarrow>
               (let (prov, w1) = walk env si sc (mn_children node) [] parent (heading_text node label) (inner, w)
                in (prov, heading_levels node (text_count w) w1))
           | BNothing \<Rightarrow> (inner, w))
      in (if has_place node then fst st else fst st1, snd st1))"
| "chandra_list env si sc node parent w =
     (let (grp, w1) = write_list_group parent w
      in list_items env si sc (mn_tag node = ''ol'') grp (list_start node) (list_elements node) w1)"
| "list_items env si sc ordered grp number [] w = w"
| "list_items env si sc ordered grp number (LiNode c # lis) w =
     (if is_text c \<and> py_strip (mn_text c) = [] then list_items env si sc ordered grp number lis w
      else if mn_tag c = ''ul'' \<or> mn_tag c = ''ol''
      then list_items env si sc ordered grp number lis (chandra_list env si sc c (Some grp) w)
      else let (item, w1) = open_item env ordered number grp w
           in list_items env si sc ordered grp (number + 1) lis
                (snd (if mn_tag c = ''li'' \<or> mn_tag c = ''p''
                      then walk env si sc (mn_children c) [] (Some item) DOC_ITEM_LABEL_TEXT (None, w1)
                      else walk env si sc [c] [] (Some item) DOC_ITEM_LABEL_TEXT (None, w1))))"
| "list_items env si sc ordered grp number (LiLoose nodes # lis) w =
     (let (item, w1) = open_item env ordered number grp w
      in list_items env si sc ordered grp (number + 1) lis
           (snd (walk env si sc nodes [] (Some item) DOC_ITEM_LABEL_TEXT (None, w1))))"
| "chandra_table env si sc node parent st =
     (let cells = chandra_table_cells node
      in if cells = [] then walk env si sc (mn_children node) [] parent DOC_ITEM_LABEL_TEXT st
         else let (box, prov) = take_box (fst st);
                  (table, w1) = write_table (ce_byte_size env) (ce_page env) box [] parent (snd st);
                  (refs, w2) = rich_cells env si sc table cells w1
              in (prov, caption_blocks env si sc table (caption_nodes node) (fill_rich_table env table cells refs w2)))"
| "rich_cells env si sc table [] w = ([], w)"
| "rich_cells env si sc table (c # cs) w =
     (case sp_node c of
        None \<Rightarrow> apfst ((#) []) (rich_cells env si sc table cs w)
      | Some node \<Rightarrow>
          if \<not> is_rich node then apfst ((#) []) (rich_cells env si sc table cs w)
          else let (grp, w1) = write_group ''group'' GROUP_LABEL_UNSPECIFIED (Some table) w;
                   w2 = snd (walk env si sc (mn_children node) [] (Some grp) DOC_ITEM_LABEL_TEXT (None, w1))
               in apfst ((#) (cell_ref grp w2)) (rich_cells env si sc table cs w2))"
| "caption_blocks env si sc table [] w = w"
| "caption_blocks env si sc table (c # cs) w =
     caption_blocks env si sc table cs
       (snd (chandra_block env si sc c (Some table) DOC_ITEM_LABEL_CAPTION (None, w)))"
| "chandra_picture env si sc node parent st =
     (let (ref, prov, w1) = open_picture env node parent st
      in if mn_tag node = ''chem'' then (prov, w1)
         else (prov, snd (walk env True (length (nodes_tagged ''chem'' node) = 1) (picture_content node) []
                       (Some ref) DOC_ITEM_LABEL_TEXT (None, w1))))"
  by pat_completeness auto

termination
proof (relation "measure (case_sum
    (case_sum
      (case_sum (\<lambda>(_, _, _, ns, _). 4 * nodes_size ns + 2) (\<lambda>(_, _, _, n, _). 4 * node_size n + 1))
      (case_sum (\<lambda>(_, _, _, n, _). 4 * node_size n) (\<lambda>(_, _, _, _, _, _, lis, _). 4 * sum_list (map li_size lis) + 3)))
    (case_sum
      (case_sum (\<lambda>(_, _, _, n, _). 4 * node_size n) (\<lambda>(_, _, _, _, cs, _). 4 * sum_list (map cell_size cs) + 3))
      (case_sum (\<lambda>(_, _, _, _, ns, _). 4 * nodes_size ns + 3) (\<lambda>(_, _, _, n, _). 4 * node_size n))))", goal_cases)
  show "wf (measure f)" for f :: "_ \<Rightarrow> nat" by simp
qed (use list_elements_size table_cells_size picture_content_size in \<open>auto simp: node_size_children cell_size_def
      caption_nodes_def less_Suc_eq_le max_def nodes_size_filter le_SucI\<close>)

lemmas chandra_simps = walk.simps chandra_block.simps chandra_list.simps list_items.simps chandra_table.simps
  rich_cells.simps caption_blocks.simps chandra_picture.simps

declare chandra_simps [simp del]

section \<open>Fragments for other mappers\<close>

definition add_html_fragment ::
  "chandra_env \<Rightarrow> string \<Rightarrow> doc_item_label \<Rightarrow> bounding_box option \<Rightarrow> lref \<Rightarrow> writer \<Rightarrow> bool \<times> writer" where
  "add_html_fragment env html label box parent w =
     (let tree = parse_markup KHtml html;
          prov = map_option (\<lambda>b. \<lparr>ow_box = Some b, ow_text_owner = True, ow_claimed = False\<rparr>) box
      in if \<not> any_descendant (\<lambda>_. True) tree then (False, w)
         else (True, snd (walk env False False (mn_children tree) [] parent label (prov, w))))"

text \<open>The captions of the table keep their text only.\<close>

definition flat_caption :: "markup_node \<Rightarrow> markup_node" where
  "flat_caption node =
     (if \<not> is_text node \<and> mn_tag node \<in> {''caption'', ''figcaption''}
      then MarkupNode (mn_tag node) (mn_text node) (mn_attrs node) [MarkupNode [] (html_text node) [] []]
      else node)"

definition flat_captions :: "markup_node \<Rightarrow> markup_node" where
  "flat_captions table =
     MarkupNode (mn_tag table) (mn_text table) (mn_attrs table) (map flat_caption (mn_children table))"

definition last_table :: "writer \<Rightarrow> body_child" where
  "last_table w = (TABLE, length (doc_tables (lw_doc w)) - 1)"

definition add_html_table ::
  "chandra_env \<Rightarrow> string \<Rightarrow> bounding_box option \<Rightarrow> lref \<Rightarrow> writer \<Rightarrow> body_child option \<times> writer" where
  "add_html_table env html box parent w =
     (case find_element ''table'' (parse_markup KHtml html) of
        None \<Rightarrow> (None, w)
      | Some table \<Rightarrow>
          if chandra_table_cells table = [] then (None, w)
          else let w' = snd (chandra_table env False False (flat_captions table) parent
                          (Some \<lparr>ow_box = box, ow_text_owner = False, ow_claimed = False\<rparr>, w))
               in (if length (lw_entries w') = length (lw_entries w) then None else Some (last_table w'), w'))"

definition add_inline_text ::
  "chandra_env \<Rightarrow> string \<Rightarrow> doc_item_label \<Rightarrow> bounding_box option \<Rightarrow> lref option \<Rightarrow> writer \<Rightarrow> bool \<times> writer" where
  "add_inline_text env body label box parent w =
     (let html = markdown_inline_html body
      in if \<not> has_inline_html_tag html then (False, w)
         else case parent of
           Some p \<Rightarrow> add_html_fragment env html label box p w
         | None \<Rightarrow>
             (let (item, w1) = write_styled_text (ce_page env) label box [] None [] kBodyRef w
              in add_html_fragment env html DOC_ITEM_LABEL_TEXT None (Some item) (set_orig item body w1)))"

section \<open>The mapper\<close>

text \<open>Outer layout blocks only, in document order.\<close>

fun find_blocks :: "markup_node \<Rightarrow> markup_node list" where
  "find_blocks (MarkupNode tag t attrs cs) =
     concat (map (\<lambda>c. if is_text c then [] else if has_place c then [c] else find_blocks c) cs)"

definition is_blank_page :: "markup_node list \<Rightarrow> bool" where
  "is_blank_page blocks \<longleftrightarrow>
     list_ex (\<lambda>b. list_ex (\<lambda>n. node_attr ''data-label'' [] n = ''Blank-Page'') (b # descendants b)) blocks"

definition html_nodes :: "markup_node \<Rightarrow> markup_node list" where
  "html_nodes tree = filter (\<lambda>c. \<not> is_text c \<and> mn_tag c \<notin> {''script'', ''style'', ''head''}) (mn_children tree)"

definition write_blocks :: "chandra_env \<Rightarrow> markup_node list \<Rightarrow> writer \<Rightarrow> writer" where
  "write_blocks env blocks w =
     fold (\<lambda>b w. snd (chandra_block env False False b kBodyRef DOC_ITEM_LABEL_TEXT (None, w))) blocks w"

text \<open>Without layout blocks the HTML is recovered without coordinates.\<close>

definition chandra_writer :: "chandra_env \<Rightarrow> markup_node \<Rightarrow> writer" where
  "chandra_writer env tree =
     (let w = new_writer (ce_page env)
      in if find_blocks tree \<noteq> [] then write_blocks env (find_blocks tree) w
         else snd (walk env False False (html_nodes tree) [] kBodyRef DOC_ITEM_LABEL_TEXT (None, w)))"

definition map_chandra_html :: "chandra_env \<Rightarrow> string \<Rightarrow> string + (document \<times> warning list)" where
  "map_chandra_html env body =
     (let page = ce_page env
      in if py_strip body = [] then finish page ''Chandra'' True (new_writer page)
         else let tree = parse_markup KHtml body; blocks = find_blocks tree
              in if blocks = [] \<and> html_nodes tree = []
                 then Inl ''Chandra response contains no HTML transcription or layout blocks''
                 else if lw_entries (chandra_writer env tree) = [] \<and> \<not> is_blank_page blocks
                 then Inl ''Chandra HTML contains no document content''
                 else finish page ''Chandra'' True (chandra_writer env tree))"

section \<open>The builder only adds to the page\<close>

lemma code_block_grown:
  assumes "writer_ok (ce_page env) (snd st)" and "parent_ok (snd st) parent"
  shows "grown (ce_page env) (snd st) (snd (code_block env node parent st))"
  using grown_written [OF code_writer.writes [OF assms surjective_pairing]]
  by (simp add: code_block_def case_prod_beta' Let_def)

lemma math_block_grown:
  assumes "writer_ok (ce_page env) (snd st)" and "parent_ok (snd st) parent"
  shows "grown (ce_page env) (snd st) (snd (math_block env node parent st))"
  using grown_written [OF formula_writer.writes [OF assms surjective_pairing]]
  by (simp add: math_block_def case_prod_beta' Let_def)

lemma inline_block_grown:
  assumes "writer_ok (ce_page env) (snd st)" and "parent_ok (snd st) parent"
  shows "grown (ce_page env) (snd st) (snd (inline_block env sc node parent label st))"
  unfolding inline_block_def Let_def by (rule emit_runs_grown [OF assms])

lemma link_new_captions_grown:
  assumes "writer_ok page w"
  shows "grown page w (link_new_captions parent label before w)"
  using assms unfolding link_new_captions_def
  by (auto split: option.split intro!: grown_fold edited_grown dest: grown_ok)

lemma heading_levels_grown: "writer_ok page w \<Longrightarrow> grown page w (heading_levels node before w)"
  by (simp add: heading_levels_def set_levels_grown)

lemma open_picture_grown:
  assumes "writer_ok (ce_page env) (snd st)" and "parent_ok (snd st) parent"
    and "open_picture env node parent st = (ref, prov, w)"
  shows "grown (ce_page env) (snd st) w \<and> parent_ok w (Some ref)"
proof -
  let ?page = "ce_page env"
  obtain box w1 where w1: "write_picture (ce_lib env) (ce_rnd env) ?page box parent (snd st) = (ref, w1)"
    and w: "w = (case nodes_tagged ''chem'' node of
        [chem] \<Rightarrow> set_molecule ref (py_strip (html_text chem)) ''chandra''
          (describe_picture ref (picture_description (nodes_tagged ''img'' node)) ''chandra'' w1)
      | _ \<Rightarrow> describe_picture ref (picture_description (nodes_tagged ''img'' node)) ''chandra'' w1)"
    using assms(3) by (auto simp: open_picture_def Let_def split: prod.splits)
  note one = grown_written [OF picture_writer.writes [OF assms(1,2) w1]]
  then have two: "grown ?page w1 (describe_picture ref d ''chandra'' w1)" for d
    by (auto intro!: edited_grown dest: grown_ok)
  have three: "grown ?page w1 (set_molecule ref m ''chandra'' (describe_picture ref d ''chandra'' w1))" for m d
    by (rule grown_trans [OF two]) (auto intro!: edited_grown grown_ok [OF two])
  have "grown ?page w1 w" unfolding w by (auto split: list.split intro: two three)
  with one show ?thesis by (blast intro: grown_trans grown_parent)
qed

lemma attach_table_ok: "table_ok data \<Longrightarrow> table_ok (attach_rich_refs cells refs data)"
  by (auto simp: table_ok_def attach_rich_refs_def Let_def)

lemma fill_rich_table_grown:
  assumes "writer_ok (ce_page env) w"
  shows "grown (ce_page env) w (fill_rich_table env table cells refs w)"
proof -
  obtain data report where f: "fill_span_table (ce_byte_size env) cells = (data, report)" by fastforce
  have "table_ok (attach_rich_refs cells refs data)" by (rule attach_table_ok [OF fill_span_ok [OF f]])
  then have "writer_ok (ce_page env) (fill_rich_table env table cells refs w)"
    unfolding fill_rich_table_def f Let_def using assms by (auto intro!: edit_table_ok simp: note_ok)
  then show ?thesis by (auto simp: grown_def fill_rich_table_def f edit_table_def)
qed

lemma open_item_grown:
  assumes "writer_ok (ce_page env) w" and "parent_ok w (Some grp)" and "open_item env ordered number grp w = (item, w1)"
  shows "grown (ce_page env) w w1 \<and> parent_ok w1 (Some item)"
  using list_item_writer.writes [OF assms(1,2) assms(3) [unfolded open_item_def]] by (rule grown_written)

text \<open>A page that may be written under a parent, and that an operation of the builder leaves grown.\<close>

definition ready :: "chandra_env \<Rightarrow> writer \<Rightarrow> lref \<Rightarrow> bool" where
  "ready env w parent \<longleftrightarrow> writer_ok (ce_page env) w \<and> parent_ok w parent"

lemma ready_grown: "ready env w parent \<Longrightarrow> grown (ce_page env) w w' \<Longrightarrow> ready env w' parent"
  by (auto simp: ready_def intro: grown_ok grown_parent)

lemma ready_new: "grown (ce_page env) w w' \<and> parent_ok w' p \<Longrightarrow> ready env w' p"
  by (auto simp: ready_def intro: grown_ok)

lemma ready_ok: "ready env w parent \<Longrightarrow> writer_ok (ce_page env) w"
  by (simp add: ready_def)

lemma ready_body: "ready env w parent \<Longrightarrow> grown (ce_page env) w w"
  by (simp add: ready_def)

lemma region_grown:
  assumes "ready env w parent" and "write_field_region (ce_page env) box parent w = (region, w1)"
  shows "grown (ce_page env) w w1 \<and> ready env w1 (Some region)"
  using grown_written [OF field_region_writer.writes [OF _ _ assms(2)]] assms(1) ready_new
  unfolding ready_def by blast

lemma group_grown:
  assumes "ready env w parent" and "write_group name label parent w = (g, w1)"
  shows "grown (ce_page env) w w1 \<and> ready env w1 (Some g)"
  using grown_written [OF group_writer.writes [OF _ _ assms(2)]] assms(1) ready_new
  unfolding ready_def by blast

lemma block_case:
  fixes env node st
  defines "inner \<equiv> if has_place node then Some (own_of env node) else fst st" and "w \<equiv> snd st"
  assumes r: "ready env w parent"
    and "block_kind_of node = BPicture \<Longrightarrow> grown (ce_page env) w (snd (chandra_picture env si sc node parent (inner, w)))"
    and "block_kind_of node = BTable \<Longrightarrow> grown (ce_page env) w (snd (chandra_table env si sc node parent (inner, w)))"
    and "block_kind_of node = BList \<Longrightarrow> grown (ce_page env) w (chandra_list env si sc node parent w)"
    and form: "\<And>region w1. block_kind_of node = BForm \<Longrightarrow>
      write_field_region (ce_page env) (fst (take_box inner)) parent w = (region, w1) \<Longrightarrow> ready env w1 (Some region) \<Longrightarrow>
      grown (ce_page env) w1 (snd (walk env si sc (mn_children node) [] (Some region) DOC_ITEM_LABEL_TEXT (None, w1)))"
    and cap: "block_kind_of node = BCaption \<Longrightarrow>
      grown (ce_page env) w (snd (walk env si sc (mn_children node) [] parent (caption_label node) (inner, w)))"
    and walk: "block_kind_of node = BWalk \<Longrightarrow>
      grown (ce_page env) w (snd (walk env si sc (mn_children node) [] parent (heading_text node (block_label node label)) (inner, w)))"
  shows "grown (ce_page env) w (snd (chandra_block env si sc node parent label st))"
proof (cases "block_kind_of node")
  case BForm
  obtain region w1 where w1: "write_field_region (ce_page env) (fst (take_box inner)) parent w = (region, w1)" by (metis surj_pair)
  from grown_trans [OF conjunct1 [OF region_grown [OF r w1]] form [OF BForm w1 conjunct2 [OF region_grown [OF r w1]]]] w1 BForm
  show ?thesis by (simp add: chandra_block.simps case_prod_beta' Let_def flip: inner_def w_def)
next
  case BCaption
  from grown_trans [OF cap [OF BCaption] link_new_captions_grown [OF grown_ok [OF cap [OF BCaption]]]] BCaption
  show ?thesis by (simp add: chandra_block.simps case_prod_beta' Let_def flip: inner_def w_def)
next
  case BWalk
  from grown_trans [OF walk [OF BWalk] heading_levels_grown [OF grown_ok [OF walk [OF BWalk]]]] BWalk
  show ?thesis by (simp add: chandra_block.simps case_prod_beta' Let_def flip: inner_def w_def)
qed (use assms(4-6) r in \<open>simp_all add: chandra_block.simps Let_def ready_def code_block_grown [of _ "(inner, w)", simplified]
      math_block_grown [of _ "(inner, w)", simplified] inline_block_grown [of _ "(inner, w)", simplified] flip: inner_def w_def\<close>)

lemma item_case:
  assumes "ready env w (Some grp)" and "open_item env ordered number grp w = (item, w1)"
    and walk: "ready env w1 (Some item) \<Longrightarrow> grown (ce_page env) w1 w2"
    and more: "ready env w2 (Some grp) \<Longrightarrow> grown (ce_page env) w2 w3"
  shows "grown (ce_page env) w w3"
proof -
  have one: "grown (ce_page env) w w1 \<and> parent_ok w1 (Some item)"
    using open_item_grown [OF _ _ assms(2)] assms(1) by (simp add: ready_def)
  then have two: "grown (ce_page env) w w2" using walk ready_new by (blast intro: grown_trans)
  then show ?thesis using more ready_grown [OF assms(1)] by (blast intro: grown_trans)
qed

lemma table_case:
  fixes env node st
  defines "cells \<equiv> chandra_table_cells node"
  assumes r: "ready env (snd st) parent"
    and empty: "cells = [] \<Longrightarrow> grown (ce_page env) (snd st) (snd (walk env si sc (mn_children node) [] parent DOC_ITEM_LABEL_TEXT st))"
    and rich: "\<And>table w1. write_table (ce_byte_size env) (ce_page env) (fst (take_box (fst st))) [] parent (snd st) = (table, w1) \<Longrightarrow>
      cells \<noteq> [] \<Longrightarrow> ready env w1 (Some table) \<Longrightarrow> grown (ce_page env) w1 (snd (rich_cells env si sc table cells w1))"
    and caps: "\<And>table w1 refs w2. write_table (ce_byte_size env) (ce_page env) (fst (take_box (fst st))) [] parent (snd st) = (table, w1) \<Longrightarrow>
      rich_cells env si sc table cells w1 = (refs, w2) \<Longrightarrow> cells \<noteq> [] \<Longrightarrow>
      ready env (fill_rich_table env table cells refs w2) (Some table) \<Longrightarrow>
      grown (ce_page env) (fill_rich_table env table cells refs w2)
        (caption_blocks env si sc table (caption_nodes node) (fill_rich_table env table cells refs w2))"
  shows "grown (ce_page env) (snd st) (snd (chandra_table env si sc node parent st))"
proof (cases "cells = []")
  case False
  obtain table w1 where w1: "write_table (ce_byte_size env) (ce_page env) (fst (take_box (fst st))) [] parent (snd st) = (table, w1)"
    by (metis surj_pair)
  have one: "grown (ce_page env) (snd st) w1" and r1: "ready env w1 (Some table)"
    using grown_written [OF table_writer.writes [OF _ _ w1]] r ready_new unfolding ready_def by blast+
  obtain refs w2 where w2: "rich_cells env si sc table cells w1 = (refs, w2)" by (metis surj_pair)
  have two: "grown (ce_page env) w1 w2" using rich [OF w1 False r1] by (simp add: w2)
  note three = fill_rich_table_grown [OF grown_ok [OF two], of table cells refs]
  note four = caps [OF w1 w2 False ready_grown [OF r1 grown_trans [OF two three]]]
  from grown_trans [OF one grown_trans [OF two grown_trans [OF three four]]] False w1 w2 show ?thesis
    by (simp add: chandra_table.simps case_prod_beta' Let_def flip: cells_def)
qed (use empty in \<open>simp add: chandra_table.simps flip: cells_def\<close>)

lemma builder_grown:
  shows "ready env (snd st) parent \<Longrightarrow> grown (ce_page env) (snd st) (snd (walk env si sc nodes runs parent label st))"
    and "ready env (snd st) parent \<Longrightarrow> grown (ce_page env) (snd st) (snd (chandra_block env si sc node parent label st))"
    and "ready env w parent \<Longrightarrow> grown (ce_page env) w (chandra_list env si sc node parent w)"
    and "ready env w (Some grp) \<Longrightarrow> grown (ce_page env) w (list_items env si sc ordered grp number lis w)"
    and "ready env (snd st) parent \<Longrightarrow> grown (ce_page env) (snd st) (snd (chandra_table env si sc node parent st))"
    and "ready env w (Some table) \<Longrightarrow> grown (ce_page env) w (snd (rich_cells env si sc table cells w))"
    and "ready env w (Some table) \<Longrightarrow> grown (ce_page env) w (caption_blocks env si sc table nodes w)"
    and "ready env (snd st) parent \<Longrightarrow> grown (ce_page env) (snd st) (snd (chandra_picture env si sc node parent st))"
proof (induction env si sc nodes runs parent label st and env si sc node parent label st and env si sc node parent w
    and env si sc ordered grp number lis w and env si sc node parent st and env si sc table cells w
    and env si sc table nodes w and env si sc node parent st
    rule: walk_chandra_block_chandra_list_list_items_chandra_table_rich_cells_caption_blocks_chandra_picture.induct)
  case (1 env si sc runs parent label st)
  then show ?case by (simp add: walk.simps ready_def emit_runs_grown)
next
  case (2 env si sc n ns runs parent label st)
  show ?case
  proof (cases "skipped_node si sc n \<or> is_text n \<or> inline_node n")
    case True
    then show ?thesis using "2.IH"(1,2) "2.prems" by (auto simp: walk.simps)
  next
    case False
    then have other: "\<not> skipped_node si sc n" "\<not> (is_text n \<or> inline_node n)" by simp_all
    let ?st = "emit_runs (ce_page env) runs parent label st"
    have one: "grown (ce_page env) (snd st) (snd ?st)" using "2.prems" by (simp add: ready_def emit_runs_grown)
    note two = "2.IH"(3) [OF other ready_grown [OF "2.prems" one]]
    note three = "2.IH"(4) [OF other ready_grown [OF ready_grown [OF "2.prems" one] two]]
    show ?thesis using grown_trans [OF grown_trans [OF one two] three] other by (simp add: walk.simps)
  qed
next
  case (3 env si sc node parent label0 st)
  show ?case
  proof (rule block_case [OF "3.prems"])
    fix region w1
    assume k: "block_kind_of node = BForm" and r: "ready env w1 (Some region)"
      and w1: "write_field_region (ce_page env) (fst (take_box (if has_place node then Some (own_of env node) else fst st)))
        parent (snd st) = (region, w1)"
    show "grown (ce_page env) w1 (snd (walk env si sc (mn_children node) [] (Some region) DOC_ITEM_LABEL_TEXT (None, w1)))"
      using "3.IH"(4) [OF refl refl refl k refl prod.collapse refl w1 [symmetric]] r by simp
  qed (use "3.IH"(1-3,5,6) "3.prems" in \<open>simp_all add: case_prod_beta'\<close>)
next
  case (4 env si sc node parent w)
  obtain g w1 where g: "write_list_group parent w = (g, w1)" by fastforce
  note one = group_grown [OF "4.prems" g [unfolded write_list_group_def]]
  from "4.IH" [OF g [symmetric] refl conjunct2 [OF one]] one show ?case
    by (auto simp: chandra_list.simps g intro: grown_trans)
next
  case (5 env si sc ordered grp number w)
  then show ?case by (simp add: list_items.simps ready_def)
next
  case (6 env si sc ordered grp number c lis w)
  show ?case
  proof (cases "is_text c \<and> py_strip (mn_text c) = []")
    case True
    then show ?thesis using "6.IH"(1) "6.prems" by (simp add: list_items.simps)
  next
    case blank: False
    show ?thesis
    proof (cases "mn_tag c = ''ul'' \<or> mn_tag c = ''ol''")
      case True
      note one = "6.IH"(2) [OF blank True "6.prems"]
      from grown_trans [OF one "6.IH"(3) [OF blank True ready_grown [OF "6.prems" one]]] True blank
      show ?thesis by (auto simp: list_items.simps is_text_def)
    next
      case False
      obtain item w1 where w1: "open_item env ordered number grp w = (item, w1)" by (metis surj_pair)
      show ?thesis
        by (rule item_case [OF "6.prems" w1, where ?w2.0 = "snd (if mn_tag c = ''li'' \<or> mn_tag c = ''p''
              then walk env si sc (mn_children c) [] (Some item) DOC_ITEM_LABEL_TEXT (None, w1)
              else walk env si sc [c] [] (Some item) DOC_ITEM_LABEL_TEXT (None, w1))"])
          (use "6.IH"(4-6) [OF blank False w1 [symmetric] refl] blank False in \<open>auto simp: list_items.simps w1\<close>)
    qed
  qed
next
  case (7 env si sc ordered grp number nodes lis w)
  obtain item w1 where w1: "open_item env ordered number grp w = (item, w1)" by (metis surj_pair)
  show ?case
    by (rule item_case [OF "7.prems" w1, where ?w2.0 = "snd (walk env si sc nodes [] (Some item) DOC_ITEM_LABEL_TEXT (None, w1))"])
      (use "7.IH" [OF w1 [symmetric] refl] in \<open>auto simp: list_items.simps w1\<close>)
next
  case (8 env si sc node parent st)
  show ?case
  proof (rule table_case [OF "8.prems"])
    show "grown (ce_page env) (snd st) (snd (walk env si sc (mn_children node) [] parent DOC_ITEM_LABEL_TEXT st))"
      if "chandra_table_cells node = []" using "8.IH"(1) [OF refl that "8.prems"] .
  next
    fix table w1
    assume t: "write_table (ce_byte_size env) (ce_page env) (fst (take_box (fst st))) [] parent (snd st) = (table, w1)"
      and c: "chandra_table_cells node \<noteq> []"
    note parts = refl c refl prod.collapse refl t [symmetric]
    show "grown (ce_page env) w1 (snd (rich_cells env si sc table (chandra_table_cells node) w1))"
      if "ready env w1 (Some table)" using "8.IH"(2) [OF parts that] .
    show "grown (ce_page env) (fill_rich_table env table (chandra_table_cells node) refs w2)
        (caption_blocks env si sc table (caption_nodes node) (fill_rich_table env table (chandra_table_cells node) refs w2))"
      if "rich_cells env si sc table (chandra_table_cells node) w1 = (refs, w2)"
        "ready env (fill_rich_table env table (chandra_table_cells node) refs w2) (Some table)" for refs w2
      using "8.IH"(3) [OF parts refl that(1) [symmetric] that(2)] .
  qed
next
  case (9 env si sc table w)
  then show ?case by (simp add: rich_cells.simps ready_def)
next
  case (10 env si sc table c cs w)
  show ?case
  proof (cases "\<exists>node. sp_node c = Some node \<and> is_rich node")
    case True
    then obtain node where node: "sp_node c = Some node" "is_rich node" by blast
    obtain g w1 where g: "write_group ''group'' GROUP_LABEL_UNSPECIFIED (Some table) w = (g, w1)" by (metis surj_pair)
    let ?w2 = "snd (walk env si sc (mn_children node) [] (Some g) DOC_ITEM_LABEL_TEXT (None, w1))"
    note one = group_grown [OF "10.prems" g]
    have two: "grown (ce_page env) w1 ?w2" using "10.IH"(3) [OF node(1) _ g [symmetric] refl] node(2) one by simp
    have r: "ready env ?w2 (Some table)" using "10.prems" one two by (blast intro: ready_grown)
    have "grown (ce_page env) ?w2 (snd (rich_cells env si sc table cs ?w2))"
      using "10.IH"(4) [OF node(1) _ g [symmetric] refl refl r] node(2) by simp
    with one two show ?thesis by (auto simp: rich_cells.simps node g Let_def intro: grown_trans)
  next
    case False
    then show ?thesis using "10.IH"(1,2) "10.prems" by (cases "sp_node c") (auto simp: rich_cells.simps)
  qed
next
  case (11 env si sc table w)
  then show ?case by (simp add: caption_blocks.simps ready_def)
next
  case (12 env si sc table c cs w)
  note one = "12.IH"(1) [simplified, OF "12.prems"]
  from one "12.IH"(2) [OF ready_grown [OF "12.prems" one]] show ?case
    by (auto simp: caption_blocks.simps intro: grown_trans)
next
  case (13 env si sc node parent st)
  obtain ref prov w1 where p: "open_picture env node parent st = (ref, prov, w1)" by (metis surj_pair)
  have one: "grown (ce_page env) (snd st) w1 \<and> parent_ok w1 (Some ref)"
    using open_picture_grown [OF _ _ p] "13.prems" by (simp add: ready_def)
  show ?case
    using one "13.IH" [OF p [symmetric] refl] ready_new [OF one]
    by (auto simp: chandra_picture.simps p intro: grown_trans)
qed

lemma fragment_grown:
  "ready env w parent \<Longrightarrow> grown (ce_page env) w (snd (add_html_fragment env html label box parent w))"
  using builder_grown(1) [of env "(p, w)" for p] by (auto simp: add_html_fragment_def Let_def ready_def)

lemma html_table_grown:
  "ready env w parent \<Longrightarrow> grown (ce_page env) w (snd (add_html_table env html box parent w))"
  using builder_grown(5) [of env "(p, w)" for p]
  by (auto simp: add_html_table_def Let_def ready_def split: option.split)

lemma inline_text_grown:
  assumes "writer_ok (ce_page env) w" and "\<And>p. parent = Some p \<Longrightarrow> parent_ok w p"
  shows "grown (ce_page env) w (snd (add_inline_text env body label box parent w))"
proof (cases parent)
  case None
  obtain item w1 where w1: "write_styled_text (ce_page env) label box [] None [] kBodyRef w = (item, w1)" by (metis surj_pair)
  have "parent_ok w kBodyRef" by (simp add: kBodyRef_def)
  note one = grown_written [OF styled_writer.writes [OF assms(1) this w1]]
  have two: "grown (ce_page env) w1 (set_orig item body w1)" using one by (auto intro: edited_grown grown_ok)
  have "ready env (set_orig item body w1) (Some item)" using one two by (auto simp: ready_def intro: grown_ok grown_parent)
  note three = fragment_grown [OF this]
  from one two three grown_trans [OF grown_trans [OF _ two] three] show ?thesis
    using assms(1) by (auto simp: add_inline_text_def Let_def None w1)
qed (use assms fragment_grown in \<open>auto simp: add_inline_text_def Let_def ready_def\<close>)

section \<open>Rich cells\<close>

abbreviation anchor :: "span_cell \<Rightarrow> int \<times> int" where
  "anchor c \<equiv> (int (sp_row c), int (sp_col c))"

lemma tidy_anchors: "tidy cells \<Longrightarrow> distinct (map anchor cells)"
  unfolding distinct_conv_nth tidy_def sorted_wrt_iff_nth_less
proof (clarify)
  fix i j
  assume apart: "\<forall>i j. i < j \<longrightarrow> j < length cells \<longrightarrow> \<not> hides (cells ! i) (cells ! j) \<and> \<not> hides (cells ! j) (cells ! i)"
    and spans: "\<forall>a \<in> set cells. 1 \<le> sp_row_span a \<and> 1 \<le> sp_col_span a"
    and ij: "i < length (map anchor cells)" "j < length (map anchor cells)" "i \<noteq> j" "map anchor cells ! i = map anchor cells ! j"
  then have "1 \<le> sp_row_span (cells ! i) \<and> 1 \<le> sp_col_span (cells ! i)" by simp
  with ij have "hides (cells ! i) (cells ! j)" by (auto simp: hides_def)
  with apart ij show False by (metis length_map linorder_neqE_nat)
qed

lemma fold_refs_other:
  "k \<notin> anchor ` fst ` set ps \<Longrightarrow>
   fold (\<lambda>(c, r) m. if r = [] then m else m(anchor c \<mapsto> r)) ps m k = m k"
  by (induction ps arbitrary: m) auto

lemma fold_refs_at:
  assumes "distinct (map (anchor \<circ> fst) ps)" and "(c, r) \<in> set ps" and "m (anchor c) = None"
  shows "fold (\<lambda>(c, r) m. if r = [] then m else m(anchor c \<mapsto> r)) ps m (anchor c) = (if r = [] then None else Some r)"
  using assms
proof (induction ps arbitrary: m)
  case (Cons p ps)
  show ?case
  proof (cases "p = (c, r)")
    case True
    then have "anchor c \<notin> anchor ` fst ` set ps" using Cons.prems(1) by (auto simp: image_iff)
    from fold_refs_other [OF this] True Cons.prems(3) show ?thesis by simp
  next
    case False
    then have "(c, r) \<in> set ps" using Cons.prems(2) by simp
    moreover have "anchor (fst p) \<noteq> anchor c" using Cons.prems(1) calculation by (force simp: image_iff)
    ultimately show ?thesis using Cons.IH Cons.prems(1,3) by (auto split: prod.split)
  qed
qed simp

lemma anchor_refs_at:
  assumes "tidy cells" and "length refs = length cells" and "(c, r) \<in> set (zip cells refs)"
  shows "anchor_refs cells refs (anchor c) = (if r = [] then None else Some r)"
proof -
  have "map (anchor \<circ> fst) (zip cells refs) = map anchor cells" using assms(2) by (simp flip: map_map)
  then show ?thesis
    unfolding anchor_refs_def by (intro fold_refs_at) (simp_all add: tidy_anchors [OF assms(1)] assms(3))
qed

lemma stamp_ref_clip:
  assumes "tidy cells" and "length refs = length cells" and "(c, r) \<in> set (zip cells refs)"
  shows "stamp_ref (anchor_refs cells refs) (clip_cell n m c)
    = (clip_cell n m c)\<lparr>tc_ref := if r = [] then None else Some r\<rparr>"
  using anchor_refs_at [OF assms] by (simp add: stamp_ref_def clip_cell_def Let_def)

text \<open>
  What the reference of a cell is, the cells before it written in \<open>v\<close>.  A cell with an element
  other than a span in it gets a group of its own under the table, and its own content is
  written into that group; it refers to the group when that left something there.  Any other
  cell refers to nothing.
\<close>

definition own_group ::
  "chandra_env \<Rightarrow> bool \<Rightarrow> bool \<Rightarrow> body_child \<Rightarrow> writer \<Rightarrow> writer \<Rightarrow> markup_node \<Rightarrow> string \<Rightarrow> bool" where
  "own_group env si sc table w w' node r \<longleftrightarrow>
     (\<exists>v g u x. grown (ce_page env) w v \<and> write_group ''group'' GROUP_LABEL_UNSPECIFIED (Some table) v = (g, u)
        \<and> lw_entries u = lw_entries v @ [(g, Some table)] \<and> g \<notin> fst ` set (lw_entries v)
        \<and> x = snd (walk env si sc (mn_children node) [] (Some g) DOC_ITEM_LABEL_TEXT (None, u))
        \<and> grown (ce_page env) u x \<and> grown (ce_page env) x w'
        \<and> r = (if kids (lw_entries x) (Some g) = [] then [] else ref_name g))"

definition refers ::
  "chandra_env \<Rightarrow> bool \<Rightarrow> bool \<Rightarrow> body_child \<Rightarrow> writer \<Rightarrow> writer \<Rightarrow> span_cell \<Rightarrow> string \<Rightarrow> bool" where
  "refers env si sc table w w' c r \<longleftrightarrow>
     (case sp_node c of
        None \<Rightarrow> r = []
      | Some node \<Rightarrow>
          if any_descendant (\<lambda>n. mn_tag n \<noteq> ''span'') node then own_group env si sc table w w' node r else r = [])"

lemma own_group_mono:
  "own_group env si sc table u w' node r \<Longrightarrow> grown (ce_page env) w u \<Longrightarrow> own_group env si sc table w w' node r"
  unfolding own_group_def by (blast intro: grown_trans)

lemma refers_mono: "grown (ce_page env) w u \<Longrightarrow> refers env si sc table u w' c r \<Longrightarrow> refers env si sc table w w' c r"
  by (auto simp: refers_def own_group_mono split: option.splits if_splits)

lemma refers_fresh:
  assumes "refers env si sc table w w' c r" and "r \<noteq> []"
  shows "\<exists>g. r = ref_name g \<and> g \<notin> fst ` set (lw_entries w)"
proof -
  obtain v g where "grown (ce_page env) w v" "g \<notin> fst ` set (lw_entries v)" "r = ref_name g"
    using assms unfolding refers_def own_group_def by (auto split: option.splits if_splits)
  then show ?thesis unfolding grown_def by (metis image_mono set_mono_prefix subsetD)
qed

lemma rich_cells_refer:
  assumes "ready env w (Some table)" and "rich_cells env si sc table cells w = (refs, w')"
  shows "list_all2 (refers env si sc table w w') cells refs \<and> distinct (filter (\<lambda>r. r \<noteq> []) refs)"
  using assms
proof (induction cells arbitrary: w refs)
  case Nil
  then show ?case by (simp add: rich_cells.simps)
next
  case (Cons c cs)
  show ?case
  proof (cases "\<exists>node. sp_node c = Some node \<and> is_rich node")
    case True
    then obtain node where node: "sp_node c = Some node" "is_rich node" by blast
    obtain g u where g: "write_group ''group'' GROUP_LABEL_UNSPECIFIED (Some table) w = (g, u)" by (metis surj_pair)
    define x where "x = snd (walk env si sc (mn_children node) [] (Some g) DOC_ITEM_LABEL_TEXT (None, u))"
    obtain rs where rs: "rich_cells env si sc table cs x = (rs, w')" "refs = cell_ref g x # rs"
      using Cons.prems(2) node g by (auto simp: rich_cells.simps x_def Let_def apfst_def map_prod_def split: prod.splits)
    have w: "writer_ok (ce_page env) w" "parent_ok w (Some table)" using Cons.prems(1) by (simp_all add: ready_def)
    have new: "writer_ok (ce_page env) u" "lw_entries u = lw_entries w @ [(g, Some table)]"
      using group_writer.writes [OF w g] by auto
    have fresh: "g \<notin> fst ` set (lw_entries w)" using new unfolding writer_ok_def by auto
    have one: "grown (ce_page env) w u" "ready env u (Some g)" using group_grown [OF Cons.prems(1) g] by auto
    have two: "grown (ce_page env) u x" using builder_grown(1) [of env "(None, u)"] one by (simp add: x_def)
    have three: "grown (ce_page env) w x" by (rule grown_trans [OF one(1) two])
    have r: "ready env x (Some table)" by (rule ready_grown [OF Cons.prems(1) three])
    note ih = Cons.IH [OF r rs(1)]
    have four: "grown (ce_page env) x w'" using builder_grown(6) [OF r, of si sc cs] rs(1) by simp
    have "fst g = GROUP" using g by (auto simp: write_group_def add_entry_def Let_def)
    moreover have "children_of x g = length (kids (lw_entries x) (Some g))"
      using grown_ok [OF two] unfolding writer_ok_def by blast
    ultimately have ref: "cell_ref g x = (if kids (lw_entries x) (Some g) = [] then [] else ref_name g)"
      by (simp add: cell_ref_def ref_name_def)
    have this_cell: "refers env si sc table w w' c (cell_ref g x)"
    proof -
      have "grown (ce_page env) w w \<and> write_group ''group'' GROUP_LABEL_UNSPECIFIED (Some table) w = (g, u)
          \<and> lw_entries u = lw_entries w @ [(g, Some table)] \<and> g \<notin> fst ` set (lw_entries w)
          \<and> x = snd (walk env si sc (mn_children node) [] (Some g) DOC_ITEM_LABEL_TEXT (None, u))
          \<and> grown (ce_page env) u x \<and> grown (ce_page env) x w'
          \<and> cell_ref g x = (if kids (lw_entries x) (Some g) = [] then [] else ref_name g)"
        using w(1) g new(2) fresh x_def two four ref by (intro conjI) simp_all
      then show ?thesis
        using node unfolding refers_def is_rich_def own_group_def by (simp only: option.case if_True) blast
    qed
    have "list_all2 (refers env si sc table w w') cs rs"
      using ih by (blast intro: list_all2_mono refers_mono [OF three])
    moreover have "g \<in> fst ` set (lw_entries x)"
      using two new(2) unfolding grown_def by (force dest: set_mono_prefix)
    then have "r \<noteq> ref_name g" if some: "r \<in> set rs" "r \<noteq> []" for r
    proof -
      obtain k where k: "k < length rs" "rs ! k = r" using some(1) unfolding in_set_conv_nth by blast
      have "refers env si sc table x w' (cs ! k) r" using list_all2_nthD2 [OF conjunct1 [OF ih] k(1)] unfolding k(2) .
      from refers_fresh [OF this some(2)] obtain g' where "r = ref_name g'" "g' \<notin> fst ` set (lw_entries x)" by blast
      with \<open>g \<in> fst ` set (lw_entries x)\<close> show ?thesis using ref_name_inject by metis
    qed
    then have "cell_ref g x \<noteq> [] \<Longrightarrow> cell_ref g x \<notin> set (filter (\<lambda>r. r \<noteq> []) rs)" using ref by (metis filter_is_subset subsetD)
    ultimately show ?thesis using this_cell ih rs(2) by simp
  next
    case False
    then obtain rs where "rich_cells env si sc table cs w = (rs, w')" "refs = [] # rs"
      using Cons.prems(2) by (cases "sp_node c") (auto simp: rich_cells.simps apfst_def map_prod_def split: prod.splits)
    with False Cons.IH [OF Cons.prems(1)] show ?thesis by (auto simp: refers_def is_rich_def split: option.split)
  qed
qed

text \<open>
  C30: a table cell that holds more than text refers to the group that holds its content.  For the
  cells a table was read into and the references made while their content is written: a cell
  with an element other than a span in it refers to a group of its own under the table, into
  which its own content was written, if that left an item there, and every other cell refers
  to nothing; no two cells refer to the same group.  The cells the table keeps are those
  inside its caps, in order, each with its own reference; and wherever the grid shows the
  anchor of a cell it shows it with that reference.
\<close>

theorem rich_cells_referred:
  assumes "fill_span_table byte_size (chandra_table_cells node) = (data, report)"
    and "ready env w (Some table)" and "rich_cells env si sc table (chandra_table_cells node) w = (refs, w')"
  shows "list_all2 (refers env si sc table w w') (chandra_table_cells node) refs
    \<and> distinct (filter (\<lambda>r. r \<noteq> []) refs)
    \<and> td_cells (attach_rich_refs (chandra_table_cells node) refs data)
      = map (\<lambda>(c, r). (clip_cell (nat (td_num_rows data)) (nat (td_num_cols data)) c)\<lparr>tc_ref := if r = [] then None else Some r\<rparr>)
          (filter (\<lambda>(c, r). int (sp_row c) < td_num_rows data \<and> int (sp_col c) < td_num_cols data)
            (zip (chandra_table_cells node) refs))
    \<and> (cut_grid_omitted report \<or> list_all (\<lambda>cell.
         td_grid (attach_rich_refs (chandra_table_cells node) refs data) ! nat (tc_start_row cell) ! nat (tc_start_col cell) = cell)
         (td_cells (attach_rich_refs (chandra_table_cells node) refs data)))"
proof -
  note refs = rich_cells_refer [OF assms(2,3)]
  then have len: "length refs = length (chandra_table_cells node)" by (metis list_all2_lengthD)
  let ?cells = "chandra_table_cells node" and ?f = "stamp_ref (anchor_refs (chandra_table_cells node) refs)"
  obtain n m where k: "td_num_rows data = int n" "td_num_cols data = int m"
    "td_cells data = map (clip_cell n m) (filter (\<lambda>c. sp_row c < n \<and> sp_col c < m) ?cells)"
    "td_grid data = (if cut_grid_omitted report then [] else fold (stamp_cell n m) (td_cells data) (empty_grid n m))"
    using assms(1) by (rule fill_span_elim) blast
  have "filter P ?cells = map fst (filter (\<lambda>(c, r). P c) (zip ?cells refs))" for P
    by (subst (1) map_fst_zip [OF len [symmetric], symmetric]) (simp only: filter_map comp_def case_prod_beta')
  then have "td_cells (attach_rich_refs ?cells refs data)
      = map (\<lambda>p. ?f (clip_cell n m (fst p))) (filter (\<lambda>(c, r). sp_row c < n \<and> sp_col c < m) (zip ?cells refs))"
    by (simp add: attach_rich_refs_def Let_def k(3) comp_def)
  also have "\<dots> = map (\<lambda>(c, r). (clip_cell n m c)\<lparr>tc_ref := if r = [] then None else Some r\<rparr>)
      (filter (\<lambda>(c, r). sp_row c < n \<and> sp_col c < m) (zip ?cells refs))"
    by (rule map_cong) (auto simp: stamp_ref_clip [OF chandra_cells_tidy len])
  finally have cells: "td_cells (attach_rich_refs ?cells refs data) = \<dots>" .
  have "td_grid (attach_rich_refs ?cells refs data) ! nat (tc_start_row (?f cell)) ! nat (tc_start_col (?f cell)) = ?f cell"
    if "\<not> cut_grid_omitted report" "cell \<in> set (td_cells data)" for cell
  proof -
    have same: "tc_start_row (?f cell) = tc_start_row cell" "tc_start_col (?f cell) = tc_start_col cell"
      by (simp_all add: stamp_ref_def split: option.split)
    note shown = chandra.anchors_visible [OF assms(1) that(1)]
    have "rectangular n m (td_grid data)"
      using that(1) fold_stamp_cells(1) [OF empty_grid_rectangular] by (simp add: k(4))
    with shown that(2) show ?thesis by (auto simp: attach_rich_refs_def Let_def same k rectangular_def)
  qed
  then have "cut_grid_omitted report \<or> list_all (\<lambda>cell. td_grid (attach_rich_refs ?cells refs data) ! nat (tc_start_row cell)
      ! nat (tc_start_col cell) = cell) (td_cells (attach_rich_refs ?cells refs data))"
    by (auto simp: list_all_iff attach_rich_refs_def Let_def)
  with cells refs show ?thesis by (simp add: k)
qed

text \<open>A row with a cell that holds a list, and a plain one.\<close>

definition rich_table :: markup_node where
  "rich_table = MarkupNode ''table'' [] [] [MarkupNode ''tr'' [] []
     [MarkupNode ''td'' [] [] [MarkupNode ''ul'' [] [] []], MarkupNode ''td'' [] [] [MarkupNode [] ''y'' [] []]]]"

definition plain_env :: chandra_env where
  "plain_env = \<lparr>ce_lib = pixel_library, ce_rnd = id, ce_dbl = Some, ce_byte_size = (\<lambda>_. 0), ce_page = list_page\<rparr>"

definition with_table :: writer where
  "with_table = snd (write_table (\<lambda>_. 0) list_page None [] None (new_writer list_page))"

lemma with_table_ready: "ready plain_env with_table (Some (TABLE, 0))"
proof -
  have "write_table (\<lambda>_. 0) list_page None [] None (new_writer list_page) = ((TABLE, 0), with_table)"
    by (simp add: with_table_def write_table_def add_entry_def add_table_def new_writer_def empty_document_def Let_def)
  from grown_written [OF table_writer.writes [OF new_writer_ok _ this]] show ?thesis
    by (auto simp: ready_def plain_env_def dest: grown_ok)
qed

lemma rich_table_cells:
  "map (\<lambda>c. (sp_row c, sp_col c, sp_row_span c, sp_col_span c, sp_node c)) (chandra_table_cells rich_table)
     = [(0, 0, 1, 1, Some (MarkupNode ''td'' [] [] [MarkupNode ''ul'' [] [] []])),
        (0, 1, 1, 1, Some (MarkupNode ''td'' [] [] [MarkupNode [] ''y'' [] []]))]"
  by (simp add: chandra_table_cells_def table_rows_def rich_table_def add_rows_def row_nodes_def is_text_def
      node_attr_def parse_span_def span_number_def digit_value_def ctype_defs kMaxTableCells_def kMaxTableCols_def
      next_free.simps free_row_def occupy_def make_cell_def collapse_whitespace_def Let_def)

lemma no_runs: "emit_runs page [] parent label st = st"
  by (simp add: emit_runs_def kept_runs_def merge_runs_def Let_def)

lemma list_in_group:
  "walk env False False [MarkupNode ''ul'' [] [] []] [] (Some g) DOC_ITEM_LABEL_TEXT (None, w)
     = (None, snd (write_list_group (Some g) w))"
  by (simp add: walk.simps chandra_block.simps chandra_list.simps list_items.simps skipped_node_def is_text_def inline_node_def
      kBlockTags_def no_runs has_place_def has_attr_def block_kind_of_def labelled_def list_elements_def case_prod_beta')

lemma rich_table_refs:
  "\<exists>w'. rich_cells plain_env False False (TABLE, 0) (chandra_table_cells rich_table) with_table = ([''#/groups/0'', []], w')"
proof -
  obtain a b where c: "chandra_table_cells rich_table = [a, b]"
    "sp_node a = Some (MarkupNode ''td'' [] [] [MarkupNode ''ul'' [] [] []])"
    "sp_node b = Some (MarkupNode ''td'' [] [] [MarkupNode [] ''y'' [] []])"
    using rich_table_cells by auto
  have "body_child_ref GROUP 0 = ''#/groups/0''" by code_simp
  moreover have "doc_groups (lw_doc with_table) = []"
    by (simp add: with_table_def write_table_def add_entry_def add_table_def new_writer_def empty_document_def Let_def)
  ultimately show ?thesis
    by (simp add: rich_cells.simps c is_rich_def any_descendant_def is_text_def list_in_group cell_ref_def write_list_group_def
        write_group_def add_entry_def children_of_def Let_def)
qed

theorem rich_cells_referred_witness:
  "\<exists>data report refs w'. fill_span_table (\<lambda>_. 0) (chandra_table_cells rich_table) = (data, report)
     \<and> rich_cells plain_env False False (TABLE, 0) (chandra_table_cells rich_table) with_table = (refs, w')
     \<and> map tc_ref (td_cells (attach_rich_refs (chandra_table_cells rich_table) refs data)) = [Some ''#/groups/0'', None]"
proof -
  obtain data report where f: "fill_span_table (\<lambda>_. 0) (chandra_table_cells rich_table) = (data, report)" by fastforce
  obtain w' where r: "rich_cells plain_env False False (TABLE, 0) (chandra_table_cells rich_table) with_table = ([''#/groups/0'', []], w')"
    using rich_table_refs by blast
  obtain a b where c: "chandra_table_cells rich_table = [a, b]" using rich_table_cells by auto
  have ab: "sp_row a = 0" "sp_col a = 0" "sp_row_span a = 1" "sp_col_span a = 1"
    "sp_row b = 0" "sp_col b = 1" "sp_row_span b = 1" "sp_col_span b = 1" using rich_table_cells by (simp_all add: c)
  have "kept_table_shape 1 2 = (1, 2)" by (rule kept_shape_all) (simp_all add: table_caps)
  then have "td_num_rows data = 1" "td_num_cols data = 2"
    using f by (auto simp: fill_span_table_def c ab Let_def numeral_2_eq_2)
  with rich_cells_referred [OF f with_table_ready r] f r show ?thesis by (auto simp: c ab)
qed

section \<open>The mapper's pages\<close>

lemma write_blocks_grown: "writer_ok (ce_page env) w \<Longrightarrow> grown (ce_page env) w (write_blocks env blocks w)"
  unfolding write_blocks_def
  by (rule grown_fold) (auto simp: ready_def kBodyRef_def dest: grown_ok
      intro!: builder_grown(2) [of _ "(None, v)" for v, simplified])

lemma chandra_writer_ok: "writer_ok (ce_page env) (chandra_writer env tree)"
proof -
  note new = new_writer_ok [of "ce_page env"]
  have "grown (ce_page env) (new_writer (ce_page env)) (chandra_writer env tree)"
    unfolding chandra_writer_def Let_def
    using write_blocks_grown [OF new] builder_grown(1) [of env "(None, new_writer (ce_page env))" None] new
    by (auto simp: ready_def kBodyRef_def)
  then show ?thesis by (rule grown_ok)
qed

text \<open>
  C29: what becomes of a Chandra response.  Either the page is one tree from its body, every item
  attributed; or there is text but neither a layout block nor an element to recover, or nothing
  was written though no block marks the page as blank, and the message says which.
\<close>

theorem chandra_page:
  "case map_chandra_html env body of
     Inr (doc, warnings) \<Rightarrow> page_tree (ce_page env) doc
   | Inl message \<Rightarrow>
       py_strip body \<noteq> [] \<and> \<not> is_blank_page (find_blocks (parse_markup KHtml body))
       \<and> (if find_blocks (parse_markup KHtml body) = [] \<and> html_nodes (parse_markup KHtml body) = []
          then message = ''Chandra response contains no HTML transcription or layout blocks''
          else message = ''Chandra HTML contains no document content''
               \<and> lw_entries (chandra_writer env (parse_markup KHtml body)) = [])"
proof -
  let ?page = "ce_page env" and ?tree = "parse_markup KHtml body"
  obtain doc ws where new: "finish ?page ''Chandra'' True (new_writer ?page) = Inr (doc, ws)" "page_tree ?page doc"
    using finish_allowed [OF new_writer_ok] .
  obtain doc' ws' where written: "finish ?page ''Chandra'' True (chandra_writer env ?tree) = Inr (doc', ws')" "page_tree ?page doc'"
    using finish_allowed [OF chandra_writer_ok] .
  have "\<not> is_blank_page []" by (simp add: is_blank_page_def)
  with new written show ?thesis by (simp add: map_chandra_html_def Let_def)
qed

lemma stray_tree: "parse_markup KHtml ''see </b>'' = MarkupNode ''root'' [] [] [MarkupNode [] ''see '' [] []]"
proof -
  have 1: "find_sub ''<'' ''see </b>'' = Some (''see '', ''/b>'')" "find_sub ''<'' [] = None" by simp_all
  have 2: "read_tag KHtml ''/b>'' = Some (\<lparr>tg_name = ''b'', tg_closing = True, tg_self_closing = False, tg_attrs = []\<rparr>, [])"
    by (simp add: read_tag_def read_attrs.simps is_name_char_def ctype_defs fold_name_def to_lower_def)
  have 4: "decode_entities ''see '' = ''see ''" by (simp add: decode_entities.simps)
  have 3: "markup_step KHtml ''see '' new_builder ''/b>'' = Some ([\<lparr>fr_tag = ''root'', fr_attrs = [], fr_children = [MarkupNode [] ''see '' [] []]\<rparr>], [])"
    using 2 4 by (simp add: markup_step_def kMaxTagBytes_def apply_tag_def builder_close_def new_builder_def builder_text_def append_text_def add_child_def)
  show ?thesis
    unfolding parse_markup_def
    by (subst markup_loop.simps) (simp add: 1 3 markup_loop.simps [of _ "[]" _ "[]"] builder_text_def take_root_def frame_node_def)
qed

text \<open>
  A closing tag alone is taken for inline markup, but gives no element: the item for the text is
  already written, empty, when the text is refused, and the caller writes it a second time.
\<close>

lemma stray_closing_tag:
  "fst (add_inline_text env ''see </b>'' DOC_ITEM_LABEL_TEXT box None w) = False
   \<and> lw_entries (snd (add_inline_text env ''see </b>'' DOC_ITEM_LABEL_TEXT box None w))
     = lw_entries w @ [((TEXT, text_count w), None)]"
proof -
  have "markdown_inline_html ''see </b>'' = ''see </b>''" by (simp add: markdown_inline_html_def)
  moreover have "has_inline_html_tag ''see </b>''" by (simp add: inline_tag_at_def kInlineTags_def to_lower_def ctype_defs)
  moreover have "\<not> any_descendant (\<lambda>_. True) (parse_markup KHtml ''see </b>'')"
    by (simp add: stray_tree any_descendant_def is_text_def)
  ultimately show ?thesis
    by (simp add: add_inline_text_def add_html_fragment_def Let_def write_styled_text_def write_text_def enter_text_def
        add_entry_def kBodyRef_def set_orig_def text_count_def add_text_def push_text_def map_last_text_def at_index_def split: prod.split)
qed

end
