(* ===== verification/Dots.thy ===== *)
theory Dots
  imports Chandra Json
begin

text \<open>
  \<^verbatim>\<open>src/mapping/dots.cpp\<close>: the layout JSON of dots.ocr, an array of elements with a box, a category
  and a text, in reading order.  Reading JSON is the library's: \<open>parse\<close> is an argument, none standing
  for text that is no JSON.
\<close>

section \<open>Reading the response\<close>

text \<open>From the first bracket on; a truncated array is cut after its last object and closed.\<close>

definition clean_json :: "string \<Rightarrow> string" where
  "clean_json raw =
     (let body = dropWhile (\<lambda>c. c \<noteq> CHR ''['') raw; ended = rstrip_by is_space body
      in if body = [] then ''[]''
         else if ended = [] \<or> last ended \<noteq> CHR '']''
         then let whole = rstrip_by (\<lambda>c. c \<noteq> CHR ''}'') ended
              in if whole = [] then ''[]'' else whole @ '']''
         else body)"

text \<open>
  The texts of infinities and of NaN, which the code reads, are no number here: the caller takes a
  number that is not finite for none.
\<close>

definition python_float :: "(real \<Rightarrow> real option) \<Rightarrow> (real \<Rightarrow> real) \<Rightarrow> json \<Rightarrow> real option" where
  "python_float dbl rnd value =
     (case value of
        JBool b \<Rightarrow> Some (if b then 1 else 0)
      | JString s \<Rightarrow>
          (let s1 = trim s; s2 = (if s1 \<noteq> [] \<and> hd s1 = CHR ''+'' then tl s1 else s1)
           in if s2 = [] then None else float_text dbl s2)
      | _ \<Rightarrow> jdouble rnd (Some value))"

fun python_floats :: "(real \<Rightarrow> real option) \<Rightarrow> (real \<Rightarrow> real) \<Rightarrow> json list \<Rightarrow> real list option" where
  "python_floats dbl rnd [] = Some []"
| "python_floats dbl rnd (v # vs) =
     (case (python_float dbl rnd v, python_floats dbl rnd vs) of (Some x, Some xs) \<Rightarrow> Some (x # xs) | _ \<Rightarrow> None)"

text \<open>The hint and the body of a text that is one fenced block.\<close>

definition fenced_code :: "string \<Rightarrow> (string \<times> string) option" where
  "fenced_code body =
     (if \<not> starts_with body ''```'' then None
      else let hint_char = (\<lambda>c. c \<noteq> CHR ''`'' \<and> c \<noteq> CR \<and> c \<noteq> LF);
               hint = takeWhile hint_char (drop 3 body); rest = dropWhile hint_char (drop 3 body);
               rest1 = (if rest \<noteq> [] \<and> hd rest = CR then tl rest else rest)
           in if rest1 = [] \<or> hd rest1 \<noteq> LF then None
              else let closed_at = rstrip_by is_blank_char (tl rest1)
                   in if \<not> ends_with closed_at ''```'' then None
                      else let inner = take (length closed_at - 3) closed_at
                           in Some (trim hint,
                                if ends_with inner [CR, LF] then take (length inner - 2) inner
                                else if ends_with inner [LF] then butlast inner else inner))"

definition category_label :: "string \<Rightarrow> doc_item_label option" where
  "category_label category =
     map_of
       [(''Text'', DOC_ITEM_LABEL_TEXT), (''Title'', DOC_ITEM_LABEL_TITLE),
        (''Section-header'', DOC_ITEM_LABEL_SECTION_HEADER), (''Table'', DOC_ITEM_LABEL_TABLE),
        (''Picture'', DOC_ITEM_LABEL_PICTURE), (''Caption'', DOC_ITEM_LABEL_CAPTION),
        (''Footnote'', DOC_ITEM_LABEL_FOOTNOTE), (''Page-header'', DOC_ITEM_LABEL_PAGE_HEADER),
        (''Page-footer'', DOC_ITEM_LABEL_PAGE_FOOTER), (''List-item'', DOC_ITEM_LABEL_LIST_ITEM),
        (''Formula'', DOC_ITEM_LABEL_FORMULA)] category"

section \<open>Writing elements\<close>

definition fill_inline :: "chandra_env \<Rightarrow> body_child \<Rightarrow> string \<Rightarrow> writer \<Rightarrow> writer" where
  "fill_inline env item body w =
     (case add_inline_text env body DOC_ITEM_LABEL_TEXT None (Some (Some item)) w of
        (found, w') \<Rightarrow> if found then w' else set_text item (unescape_markdown_literals body) None [] w')"

definition dots_table :: "chandra_env \<Rightarrow> bounding_box \<Rightarrow> string \<Rightarrow> writer \<Rightarrow> writer" where
  "dots_table env box body w =
     (case add_html_table env body (Some box) kBodyRef w of
        (Some _, w') \<Rightarrow> w'
      | (None, w') \<Rightarrow> snd (write_table (ce_byte_size env) (ce_page env) (Some box) [] kBodyRef w'))"

definition dots_heading :: "chandra_env \<Rightarrow> bool \<Rightarrow> bounding_box \<Rightarrow> string \<Rightarrow> writer \<Rightarrow> writer" where
  "dots_heading env is_title box body w =
     (let (clean, level) = strip_markdown_heading body;
          (item, w1) = (if is_title then write_title (ce_page env) (Some box) [] kBodyRef w
                        else write_heading (ce_page env) (if 0 < level then int level else 2) (Some box) [] kBodyRef w)
      in fill_inline env item clean (set_orig item body w1))"

definition dots_list_item ::
  "chandra_env \<Rightarrow> body_child option \<Rightarrow> bounding_box \<Rightarrow> string \<Rightarrow> writer \<Rightarrow> body_child \<times> writer" where
  "dots_list_item env open_list box body w =
     (let (grp, w1) = (case open_list of Some l \<Rightarrow> (l, w) | None \<Rightarrow> write_list_group kBodyRef w);
          (item, w2) = write_list_item (ce_page env) (Some box) [] False [] (Some grp) w1
      in (grp, fill_inline env item body (set_orig item body w2)))"

definition dots_text :: "chandra_env \<Rightarrow> string \<Rightarrow> bounding_box \<Rightarrow> string \<Rightarrow> writer \<Rightarrow> writer" where
  "dots_text env category box body w =
     (let label = (case category_label category of None \<Rightarrow> DOC_ITEM_LABEL_TEXT | Some l \<Rightarrow> l)
      in case fenced_code body of
           Some (hint, inner) \<Rightarrow>
             (let (item, w1) = write_code (ce_page env) (Some box) inner hint kBodyRef w in set_orig item body w1)
         | None \<Rightarrow>
             if category = ''Formula'' then snd (write_formula (ce_page env) (Some box) body kBodyRef w)
             else (case add_inline_text env body label (Some box) None w of
                     (found, w1) \<Rightarrow>
                       if found then w1
                       else let (item, w2) = write_styled_text (ce_page env) label (Some box)
                                  (unescape_markdown_literals body) None [] kBodyRef w1
                            in set_orig item body w2))"

section \<open>The page\<close>

record dots_state =
  dt_list :: "body_child option"
  dt_starts :: "nat list"
  dt_captions :: "nat list"
  dt_writer :: writer

definition string_member :: "string \<Rightarrow> json \<Rightarrow> string" where
  "string_member key element = (case jstring (jfind key element) of None \<Rightarrow> [] | Some s \<Rightarrow> s)"

definition element_box :: "chandra_env \<Rightarrow> real \<Rightarrow> real \<Rightarrow> json \<Rightarrow> bounding_box option" where
  "element_box env sx sy element =
     (case jarray (jfind ''bbox'' element) of
        None \<Rightarrow> None
      | Some values \<Rightarrow>
          (case python_floats (ce_dbl env) (ce_rnd env) values of
             Some [l, t, r, b] \<Rightarrow> Some (scaled_box (ce_rnd env) (ce_page env) l t r b sx sy)
           | _ \<Rightarrow> None))"

definition dots_write :: "chandra_env \<Rightarrow> string \<Rightarrow> bounding_box \<Rightarrow> string \<Rightarrow> dots_state \<Rightarrow> dots_state" where
  "dots_write env category box body st =
     (let w = dt_writer st
      in if category = ''List-item''
         then let (l, w') = dots_list_item env (dt_list st) box body w in st\<lparr>dt_list := Some l, dt_writer := w'\<rparr>
         else st\<lparr>dt_list := None, dt_writer :=
           (if category = ''Table'' then dots_table env box body w
            else if category = ''Picture''
            then snd (write_picture (ce_lib env) (ce_rnd env) (ce_page env) (Some box) kBodyRef w)
            else if category = ''Title'' \<or> category = ''Section-header''
            then dots_heading env (category = ''Title'') box body w
            else dots_text env category box body w)\<rparr>)"

definition dots_element :: "chandra_env \<Rightarrow> real \<Rightarrow> real \<Rightarrow> nat \<times> json \<Rightarrow> dots_state \<Rightarrow> dots_state" where
  "dots_element env sx sy indexed st0 =
     (let (index, element) = indexed; st = st0\<lparr>dt_starts := dt_starts st0 @ [length (lw_body (dt_writer st0))]\<rparr>
      in if \<not> is_jobject element then st
         else let category = string_member ''category'' element;
                  st1 = (if category = ''Caption'' then st\<lparr>dt_captions := dt_captions st @ [index]\<rparr> else st)
              in case element_box env sx sy element of
                   None \<Rightarrow> st1
                 | Some box \<Rightarrow> dots_write env category box (string_member ''text'' element) st1)"

definition dots_writer :: "chandra_env \<Rightarrow> json list \<Rightarrow> writer" where
  "dots_writer env elements =
     (let page = ce_page env; rnd = ce_rnd env;
          (model_w, model_h) = qwen2vl_image_size rnd (real (pg_width page)) (real (pg_height page));
          sx = (if 0 < model_w then rnd (real (pg_width page) / model_w) else 1);
          sy = (if 0 < model_h then rnd (real (pg_height page) / model_h) else 1);
          st = fold (dots_element env sx sy) (List.enumerate 0 elements)
            \<lparr>dt_list = None, dt_starts = [], dt_captions = [], dt_writer = new_writer page\<rparr>
      in link_adjacent_captions (dt_starts st) (dt_captions st) True (dt_writer st))"

definition map_dots_json ::
  "(string \<Rightarrow> json option) \<Rightarrow> chandra_env \<Rightarrow> string \<Rightarrow> string + (document \<times> warning list)" where
  "map_dots_json parse env body =
     (let page = ce_page env
      in if trim body = [] then finish page ''dots.ocr'' True (new_writer page)
         else case jarray (parse (clean_json body)) of
                None \<Rightarrow> finish page ''dots.ocr'' True (new_writer page)
              | Some elements \<Rightarrow> finish page ''dots.ocr'' True (dots_writer env elements))"

section \<open>Every element only adds to the page\<close>

lemma fill_inline_grown:
  assumes "writer_ok (ce_page env) w" and "parent_ok w (Some item)"
  shows "grown (ce_page env) w (fill_inline env item body w)"
proof -
  obtain found w' where a: "add_inline_text env body DOC_ITEM_LABEL_TEXT None (Some (Some item)) w = (found, w')"
    by (metis surj_pair)
  have one: "grown (ce_page env) w w'"
    using inline_text_grown [OF assms(1), of "Some (Some item)"] assms(2) a by (metis option.inject snd_conv)
  have "grown (ce_page env) w' (set_text item t None [] w')" for t
    using grown_ok [OF one] by (rule edited_grown)
  with one grown_trans show ?thesis by (auto simp: fill_inline_def a)
qed

text \<open>An item with its original text, then filled.\<close>

lemma filled_item_grown:
  assumes "grown (ce_page env) w w1 \<and> parent_ok w1 (Some item)"
  shows "grown (ce_page env) w (fill_inline env item body (set_orig item orig w1))"
proof -
  have one: "grown (ce_page env) w1 (set_orig item orig w1)" using assms by (auto intro: edited_grown grown_ok)
  have "grown (ce_page env) (set_orig item orig w1) (fill_inline env item body (set_orig item orig w1))"
    using assms one by (auto intro: fill_inline_grown grown_ok grown_parent)
  with assms one show ?thesis by (blast intro: grown_trans)
qed

lemma dots_table_grown:
  assumes "writer_ok (ce_page env) w"
  shows "grown (ce_page env) w (dots_table env box body w)"
proof -
  obtain found w' where a: "add_html_table env body (Some box) kBodyRef w = (found, w')" by (metis surj_pair)
  have one: "grown (ce_page env) w w'"
    using html_table_grown [of env w kBodyRef body "Some box"] assms a by (simp add: ready_def kBodyRef_def)
  have "grown (ce_page env) w' (snd (write_table (ce_byte_size env) (ce_page env) (Some box) [] kBodyRef w'))"
    using grown_written [OF table_writer.writes [OF grown_ok [OF one] _ surjective_pairing]] by (simp add: kBodyRef_def)
  with one grown_trans show ?thesis by (auto simp: dots_table_def a split: option.split)
qed

lemma dots_heading_grown:
  assumes "writer_ok (ce_page env) w"
  shows "grown (ce_page env) w (dots_heading env is_title box body w)"
proof -
  have b: "parent_ok w kBodyRef" by (simp add: kBodyRef_def)
  show ?thesis
    using grown_written [OF title_writer.writes [OF assms b]] grown_written [OF heading_writer.writes [OF assms b]]
    by (auto simp: dots_heading_def Let_def split: prod.split intro!: filled_item_grown)
qed

lemma dots_list_item_grown:
  assumes "writer_ok (ce_page env) w" and "\<And>l. open_list = Some l \<Longrightarrow> parent_ok w (Some l)"
    and "dots_list_item env open_list box body w = (grp, w')"
  shows "grown (ce_page env) w w' \<and> parent_ok w' (Some grp)"
proof -
  have b: "parent_ok w kBodyRef" by (simp add: kBodyRef_def)
  obtain g w1 where g: "(case open_list of Some l \<Rightarrow> (l, w) | None \<Rightarrow> write_list_group kBodyRef w) = (g, w1)" by (metis surj_pair)
  have one: "grown (ce_page env) w w1 \<and> parent_ok w1 (Some g)"
    using g assms(1,2) grown_written [OF list_group_writer.writes [OF assms(1) b]] by (auto split: option.splits)
  obtain item w2 where i: "write_list_item (ce_page env) (Some box) [] False [] (Some g) w1 = (item, w2)" by (metis surj_pair)
  have "writer_ok (ce_page env) w1" and "parent_ok w1 (Some g)" using one by (simp_all add: grown_def)
  note filled_item_grown [OF grown_written [OF list_item_writer.writes [OF this i]], of body body]
  with one have "grown (ce_page env) w (fill_inline env item body (set_orig item body w2))
      \<and> parent_ok (fill_inline env item body (set_orig item body w2)) (Some g)"
    by (blast intro: grown_trans grown_parent)
  then show ?thesis using assms(3) g i by (auto simp: dots_list_item_def)
qed

lemma orig_grown: "grown page w w1 \<and> parent_ok w1 p \<Longrightarrow> grown page w (set_orig item orig w1)"
  by (auto intro: grown_trans edited_grown grown_ok)

lemma dots_text_grown:
  assumes "writer_ok (ce_page env) w"
  shows "grown (ce_page env) w (dots_text env category box body w)"
proof -
  have b: "parent_ok v kBodyRef" for v by (simp add: kBodyRef_def)
  define label where "label = (case category_label category of None \<Rightarrow> DOC_ITEM_LABEL_TEXT | Some l \<Rightarrow> l)"
  obtain found w1 where a: "add_inline_text env body label (Some box) None w = (found, w1)" by (metis surj_pair)
  have one: "grown (ce_page env) w w1" using inline_text_grown [OF assms, of None] a by (metis option.distinct(1) snd_conv)
  have two: "grown (ce_page env) w1 (set_orig item body w2)"
    if "write_styled_text (ce_page env) label (Some box) t None [] kBodyRef w1 = (item, w2)" for t item w2
    by (rule orig_grown [OF grown_written [OF styled_writer.writes [OF grown_ok [OF one] b that]]])
  have code: "grown (ce_page env) w (set_orig item body w2)"
    if "write_code (ce_page env) (Some box) t hint kBodyRef w = (item, w2)" for t hint item w2
    by (rule orig_grown [OF grown_written [OF code_writer.writes [OF assms b that]]])
  have formula: "grown (ce_page env) w (snd (write_formula (ce_page env) (Some box) body kBodyRef w))"
    using grown_written [OF formula_writer.writes [OF assms b surjective_pairing]] by blast
  show ?thesis
    unfolding dots_text_def Let_def label_def [symmetric] a
    using one two code formula by (auto split: option.split prod.split intro: grown_trans)
qed

definition dots_ok :: "chandra_env \<Rightarrow> dots_state \<Rightarrow> bool" where
  "dots_ok env st \<longleftrightarrow> writer_ok (ce_page env) (dt_writer st)
     \<and> (\<forall>l. dt_list st = Some l \<longrightarrow> parent_ok (dt_writer st) (Some l))"

lemma dots_write_ok:
  assumes "dots_ok env st"
  shows "dots_ok env (dots_write env category box body st)"
proof -
  have ok: "writer_ok (ce_page env) (dt_writer st)" and b: "parent_ok (dt_writer st) kBodyRef"
    using assms by (simp_all add: dots_ok_def kBodyRef_def)
  obtain l w' where l: "dots_list_item env (dt_list st) box body (dt_writer st) = (l, w')" by (metis surj_pair)
  have item: "grown (ce_page env) (dt_writer st) w' \<and> parent_ok w' (Some l)"
    using dots_list_item_grown [OF ok _ l] assms unfolding dots_ok_def by blast
  have picture: "grown (ce_page env) (dt_writer st)
      (snd (write_picture (ce_lib env) (ce_rnd env) (ce_page env) (Some box) kBodyRef (dt_writer st)))"
    using grown_written [OF picture_writer.writes [OF ok b surjective_pairing]] by blast
  note parts = conjunct1 [OF item] picture dots_table_grown [OF ok] dots_heading_grown [OF ok] dots_text_grown [OF ok]
  show ?thesis
    using parts [THEN grown_ok] item by (auto simp: dots_ok_def dots_write_def Let_def l dest: grown_ok)
qed

lemma dots_element_ok: "dots_ok env st \<Longrightarrow> dots_ok env (dots_element env sx sy p st)"
proof -
  assume "dots_ok env st"
  then have "dots_ok env (st\<lparr>dt_starts := a\<rparr>)" "dots_ok env (st\<lparr>dt_starts := a, dt_captions := b\<rparr>)" for a b
    by (simp_all add: dots_ok_def)
  then show ?thesis by (auto simp: dots_element_def Let_def dots_write_ok split: prod.split option.split)
qed

lemma dots_writer_ok: "writer_ok (ce_page env) (dots_writer env elements)"
proof -
  define st where "st = \<lparr>dt_list = None :: body_child option, dt_starts = [], dt_captions = [],
    dt_writer = new_writer (ce_page env)\<rparr>"
  have "dots_ok env st" by (simp add: st_def dots_ok_def new_writer_ok)
  then have "dots_ok env (fold (dots_element env sx sy) ps st)" for sx sy ps
    by (induction ps arbitrary: st) (simp_all add: dots_element_ok)
  then show ?thesis
    by (simp add: dots_writer_def dots_ok_def adjacent_linker.edits Let_def split: prod.split flip: st_def)
qed

section \<open>Properties\<close>

text \<open>
  A dots.ocr response is never an error.  Whatever the model wrote and whatever the JSON
  reader makes of it, the page becomes a document, and it is one tree from its body with every
  item attributed; malformed output gives an empty page.
\<close>

theorem dots_page:
  "\<exists>doc warnings. map_dots_json parse env body = Inr (doc, warnings) \<and> page_tree (ce_page env) doc
     \<and> (trim body \<noteq> [] \<and> jarray (parse (clean_json body)) \<noteq> None \<or> page_texts doc = [])"
proof -
  let ?page = "ce_page env"
  obtain doc ws where new: "finish ?page ''dots.ocr'' True (new_writer ?page) = Inr (doc, ws)" "page_tree ?page doc"
    using finish_allowed [OF new_writer_ok] .
  have "page_texts doc = []"
    using finish_page_texts [OF new_writer_ok new(1)] by (simp add: page_texts_def new_writer_def empty_document_def)
  note empty = new this
  show ?thesis
  proof (cases "trim body = [] \<or> jarray (parse (clean_json body)) = None")
    case True
    then have "map_dots_json parse env body = Inr (doc, ws)" by (auto simp: map_dots_json_def Let_def empty(1))
    with empty show ?thesis by blast
  next
    case False
    then obtain elements where e: "trim body \<noteq> []" "jarray (parse (clean_json body)) = Some elements" by blast
    obtain doc' ws' where "finish ?page ''dots.ocr'' True (dots_writer env elements) = Inr (doc', ws')" "page_tree ?page doc'"
      using finish_allowed [OF dots_writer_ok] .
    then show ?thesis using e by (simp add: map_dots_json_def Let_def)
  qed
qed

text \<open>
  A fenced block comes back as it was written: the language after the opening fence, and the
  lines between the fences without the line break before the closing one.
\<close>

theorem fenced_code_round_trip:
  assumes "list_all (\<lambda>c. c \<noteq> CHR ''`'' \<and> c \<noteq> CR \<and> c \<noteq> LF) hint" and "trim hint = hint" and "\<not> ends_with body [CR]"
  shows "fenced_code (''```'' @ hint @ [LF] @ body @ [LF] @ ''```'') = Some (hint, body)"
proof -
  let ?P = "\<lambda>c. c \<noteq> CHR ''`'' \<and> c \<noteq> CR \<and> c \<noteq> LF"
  have cut: "takeWhile ?P (hint @ LF # z) = hint" "dropWhile ?P (hint @ LF # z) = LF # z" for z
    using assms(1) by (simp_all add: takeWhile_append list_all_iff)
  have whole: "rstrip_by is_blank_char (body @ [LF] @ ''```'') = body @ [LF] @ ''```''"
    by (simp add: rstrip_by_def is_blank_char_def)
  have "\<not> suffix [CR, LF] (body @ [LF])" using assms(3) by (auto simp: suffix_def)
  then show ?thesis using assms(2) whole by (simp add: fenced_code_def cut Let_def suffix_def)
qed

theorem fenced_code_round_trip_witness:
  "fenced_code (''```'' @ ''c'' @ [LF] @ ''int x;'' @ [LF] @ ''```'') = Some (''c'', ''int x;'')"
  by (rule fenced_code_round_trip) (simp_all add: trim_def strip_by_def rstrip_by_def is_trim_char_def suffix_def)

end
