(* ===== verification/Latex.thy ===== *)
theory Latex
  imports Markdown_Inline
begin

text \<open>
  \<^verbatim>\<open>src/mapping/nemotron.cpp\<close>, the LaTeX part: a tabular environment read into cells with spans
  and written as an HTML table.
\<close>

definition kMaxLatexColumns :: nat where "kMaxLatexColumns = 1000"

section \<open>Groups and separators\<close>

text \<open>What a group holds, from behind its brace, and what follows it; \<open>depth\<close> groups are open inside.\<close>

fun group_scan :: "nat \<Rightarrow> string \<Rightarrow> (string \<times> string) option" where
  "group_scan depth [] = None"
| "group_scan depth (c # cs) =
     (if c = BACKSLASH
      then (case cs of [] \<Rightarrow> None | e # es \<Rightarrow> map_option (apfst (\<lambda>t. c # e # t)) (group_scan depth es))
      else if c = CHR ''{'' then map_option (apfst ((#) c)) (group_scan (depth + 1) cs)
      else if c = CHR ''}''
      then (if depth = 0 then Some ([], cs) else map_option (apfst ((#) c)) (group_scan (depth - 1) cs))
      else map_option (apfst ((#) c)) (group_scan depth cs))"

definition read_group :: "string \<Rightarrow> (string \<times> string) option" where
  "read_group s =
     (let s1 = dropWhile is_space s
      in if s1 = [] \<or> hd s1 \<noteq> CHR ''{'' then None else group_scan 0 (tl s1))"

lemma group_scan_length: "group_scan depth s = Some (g, rest) \<Longrightarrow> length g + length rest < length s"
proof (induction depth s arbitrary: g rule: group_scan.induct)
  case (2 depth c cs)
  then show ?case by (fastforce simp: apfst_def map_prod_def split: if_splits list.splits)
qed simp

lemma read_group_length: "read_group s = Some (g, rest) \<Longrightarrow> length g + length rest + 2 \<le> length s"
  using length_dropWhile_le [of is_space s] group_scan_length
  by (fastforce simp: read_group_def Let_def split: if_splits)

definition cons_head :: "char \<Rightarrow> string list \<Rightarrow> string list" where
  "cons_head c parts = (case parts of [] \<Rightarrow> [[c]] | p # ps \<Rightarrow> (c # p) # ps)"

text \<open>The parts between separators outside every group; the separator is not empty.\<close>

function split_top_level :: "string \<Rightarrow> nat \<Rightarrow> string \<Rightarrow> string list" where
  "split_top_level separator depth s =
     (if depth = 0 \<and> separator \<noteq> [] \<and> starts_with s separator
      then [] # split_top_level separator 0 (drop (length separator) s)
      else case s of
        [] \<Rightarrow> [[]]
      | c # cs \<Rightarrow>
          if c = BACKSLASH
          then (case cs of
                  [] \<Rightarrow> [[c]]
                | e # es \<Rightarrow> cons_head c (cons_head e (split_top_level separator depth es)))
          else cons_head c (split_top_level separator
                 (if c = CHR ''{'' then depth + 1 else if c = CHR ''}'' then depth - 1 else depth) cs))"
  by pat_completeness auto

termination
  by (relation "measure (\<lambda>(_, _, s). length s)") (auto simp: prefix_def)

declare split_top_level.simps [simp del]

section \<open>Commands\<close>

fun read_groups :: "nat \<Rightarrow> string \<Rightarrow> (string list \<times> string) option" where
  "read_groups 0 s = Some ([], s)"
| "read_groups (Suc n) s =
     (case read_group s of
        None \<Rightarrow> None
      | Some (g, rest) \<Rightarrow> map_option (apfst ((#) g)) (read_groups n rest))"

definition unwrap_command :: "string \<Rightarrow> string \<Rightarrow> nat \<Rightarrow> string list option" where
  "unwrap_command s command arg_count =
     (let stripped = trim s; pre = BACKSLASH # command; after = drop (length pre) stripped
      in if \<not> starts_with stripped pre \<or> (after \<noteq> [] \<and> is_alpha (hd after)) then None
         else case read_groups arg_count after of
           None \<Rightarrow> None
         | Some (args, unread) \<Rightarrow>
             let rest = trim (dropWhile (\<lambda>c. c = CHR ''}'') (trim unread))
             in Some (if rest = [] then args else butlast args @ [last args @ '' '' @ rest]))"

lemma read_groups_length:
  "read_groups n s = Some (args, rest) \<Longrightarrow> length args = n \<and> (0 < n \<longrightarrow> length (last args) + length rest + 2 \<le> length s)
     \<and> length rest \<le> length s"
proof (induction n arbitrary: s args)
  case (Suc n)
  then obtain g mid more where g: "read_group s = Some (g, mid)" "read_groups n mid = Some (more, rest)" "args = g # more"
    by (auto split: option.splits)
  show ?case using Suc.IH [OF g(2)] read_group_length [OF g(1)] g(3) by auto
qed simp

lemma unwrap_shorter:
  assumes "unwrap_command s command n = Some args" and "0 < n"
  shows "length args = n \<and> length (last args) < length s"
proof -
  define stripped where "stripped = trim s"
  define after where "after = drop (Suc (length command)) stripped"
  obtain as unread where r: "read_groups n after = Some (as, unread)"
    and pre: "prefix (BACKSLASH # command) stripped"
    and args: "args = (let rest = trim (dropWhile (\<lambda>c. c = CHR ''}'') (trim unread))
      in if rest = [] then as else butlast as @ [last as @ '' '' @ rest])"
    using assms(1) by (auto simp: unwrap_command_def Let_def stripped_def after_def split: if_splits option.splits)
  have l: "length as = n" "length (last as) + length unread + 2 \<le> length after" using read_groups_length [OF r] assms(2) by auto
  have "length (trim (dropWhile (\<lambda>c. c = CHR ''}'') (trim unread))) \<le> length unread"
    by (meson le_trans length_dropWhile_le trim_length)
  moreover have "length after + 1 \<le> length stripped" using pre by (auto simp: after_def prefix_def)
  moreover have "length stripped \<le> length s" by (simp add: stripped_def trim_length)
  ultimately have "length (last args) < length s" using l(2) by (simp add: args Let_def)
  moreover have "length args = n" using l(1) assms(2) by (simp add: args Let_def)
  ultimately show ?thesis by simp
qed

definition span_value :: "string \<Rightarrow> nat" where
  "span_value value =
     (let digits = dropWhile (\<lambda>c. c = CHR ''0'') (trim value)
      in if digits = [] \<or> \<not> list_all is_digit digits then 1
         else if 4 < length digits then kMaxLatexColumns + 1
         else min (digits_value digits) (kMaxLatexColumns + 1))"

section \<open>The text of a cell\<close>

definition html_escape_char :: "char \<Rightarrow> string" where
  "html_escape_char c =
     (if c = CHR ''&'' then ''&amp;'' else if c = CHR ''<'' then ''&lt;'' else if c = CHR ''>'' then ''&gt;'' else [c])"

definition kCommands :: "(string \<times> string) list" where
  "kCommands = [(''textless'', ''&lt;''), (''textgreater'', ''&gt;''), (''textasciitilde'', ''~''),
                (''linebreak'', ''<br>''), (''mbox'', [])]"

definition kCellTags :: "string list" where
  "kCellTags = [''b'', ''br'', ''code'', ''em'', ''i'', ''strong'', ''sub'', ''sup'', ''u'']"

text \<open>A text command behind its backslash: what it stands for and what follows.\<close>

definition command_at :: "string \<Rightarrow> (string \<times> string) option" where
  "command_at s =
     (case filter (\<lambda>(name, _). starts_with s name
              \<and> (length name < length s \<longrightarrow> \<not> is_alpha (s ! length name))) kCommands of
        [] \<Rightarrow> None
      | (name, replacement) # _ \<Rightarrow>
          let rest = drop (length name) s
          in Some (replacement, if starts_with rest ''{}'' then drop 2 rest else rest))"

text \<open>A formatting tag behind its \<open><\<close>: the tag up to its \<open>>\<close> and what follows.\<close>

definition cell_tag :: "string \<Rightarrow> (string \<times> string) option" where
  "cell_tag s =
     (let s1 = (if starts_with s ''/'' then tl s else s);
          name = map to_lower (takeWhile is_alpha s1);
          s2 = dropWhile is_space (dropWhile is_alpha s1);
          s3 = (if starts_with s2 ''/'' then tl s2 else s2)
      in if name \<in> set kCellTags \<and> starts_with s3 ''>'' then Some (take (length s - length (tl s3)) s, tl s3) else None)"

lemma command_at_length: "command_at s = Some (r, rest) \<Longrightarrow> length rest < length s"
proof -
  assume "command_at s = Some (r, rest)"
  then obtain name x xs where f: "filter (\<lambda>(name, _). starts_with s name
      \<and> (length name < length s \<longrightarrow> \<not> is_alpha (s ! length name))) kCommands = (name, x) # xs"
    and r: "rest = (if starts_with (drop (length name) s) ''{}'' then drop 2 (drop (length name) s) else drop (length name) s)"
    by (auto simp: command_at_def Let_def split: list.splits)
  have "(name, x) \<in> set (filter (\<lambda>(name, _). starts_with s name
      \<and> (length name < length s \<longrightarrow> \<not> is_alpha (s ! length name))) kCommands)" unfolding f by simp
  then have "(name, x) \<in> set kCommands" "prefix name s" by simp_all
  then have "0 < length name" "prefix name s" by (auto simp: kCommands_def)
  then show ?thesis using r by (auto simp: prefix_def)
qed

lemma cell_tag_length: "cell_tag s = Some (t, rest) \<Longrightarrow> length rest < length s"
proof -
  assume a: "cell_tag s = Some (t, rest)"
  define s1 where "s1 = (if starts_with s ''/'' then tl s else s)"
  define s2 where "s2 = dropWhile is_space (dropWhile is_alpha s1)"
  define s3 where "s3 = (if starts_with s2 ''/'' then tl s2 else s2)"
  have "length s1 \<le> length s" by (simp add: s1_def)
  moreover have "length s2 \<le> length s1" unfolding s2_def by (meson le_trans length_dropWhile_le)
  moreover have "length s3 \<le> length s2" by (simp add: s3_def)
  moreover have "rest = tl s3 \<and> prefix ''>'' s3"
    using a unfolding cell_tag_def Let_def s1_def [symmetric] s2_def [symmetric] s3_def [symmetric] by (simp split: if_splits)
  ultimately show ?thesis by (cases s3) simp_all
qed

function escape_cell_markup :: "string \<Rightarrow> string" where
  "escape_cell_markup [] = []"
| "escape_cell_markup (c # cs) =
     (if c = BACKSLASH \<and> cs \<noteq> [] \<and> hd cs \<in> {CHR ''%'', CHR ''&'', CHR ''#'', CHR ''$''}
      then (if hd cs = CHR ''&'' then ''&amp;'' else [hd cs]) @ escape_cell_markup (tl cs)
      else case (if c = BACKSLASH then command_at cs else None) of
        Some (replacement, rest) \<Rightarrow> replacement @ escape_cell_markup rest
      | None \<Rightarrow>
          (case (if c = CHR ''<'' then cell_tag cs else None) of
             Some (tag, rest) \<Rightarrow> c # tag @ escape_cell_markup rest
           | None \<Rightarrow> html_escape_char c @ escape_cell_markup cs))"
  by pat_completeness auto

termination
  by (relation "measure length") (auto dest!: command_at_length cell_tag_length split: if_splits)

declare escape_cell_markup.simps [simp del]

section \<open>Cells\<close>

record latex_cell =
  lc_text :: string
  lc_row_span :: nat
  lc_col_span :: nat
  lc_header :: bool

text \<open>The commands around the text of a cell, outermost first.\<close>

function unwrap_cell :: "latex_cell \<Rightarrow> string \<Rightarrow> latex_cell \<times> string" where
  "unwrap_cell cell s =
     (case unwrap_command s ''multicolumn'' 3 of
        Some args \<Rightarrow> unwrap_cell (cell\<lparr>lc_col_span := span_value (args ! 0)\<rparr>) (last args)
      | None \<Rightarrow>
     (case unwrap_command s ''multirow'' 3 of
        Some args \<Rightarrow> unwrap_cell (cell\<lparr>lc_row_span := span_value (args ! 0)\<rparr>) (last args)
      | None \<Rightarrow>
     (case unwrap_command s ''thead'' 1 of
        Some args \<Rightarrow> unwrap_cell (cell\<lparr>lc_header := True\<rparr>) (last args)
      | None \<Rightarrow> (cell, s))))"
  by pat_completeness auto

termination
  by (relation "measure (\<lambda>(_, s). length s)") (auto dest!: unwrap_shorter)

declare unwrap_cell.simps [simp del]

definition parse_latex_cell :: "string \<Rightarrow> latex_cell" where
  "parse_latex_cell s =
     (case unwrap_cell \<lparr>lc_text = [], lc_row_span = 1, lc_col_span = 1, lc_header = False\<rparr> s of
        (cell, body) \<Rightarrow> cell\<lparr>lc_text := trim (escape_cell_markup body)\<rparr>)"

section \<open>The table\<close>

text \<open>
  The cells read so far, and for every column the cell that owns it last and the row of that
  cell.  Cells are named by their place: a later cell shortens the row span of the owner it meets.
\<close>

type_synonym latex_state = "latex_cell list \<times> (nat \<rightharpoonup> nat \<times> nat)"

definition owner_at :: "nat \<Rightarrow> nat \<Rightarrow> latex_state \<Rightarrow> (nat \<times> nat) option" where
  "owner_at row col st =
     (case snd st col of
        Some (k, r) \<Rightarrow> if row < r + lc_row_span (fst st ! k) then Some (k, r) else None
      | None \<Rightarrow> None)"

definition own_columns :: "nat \<Rightarrow> nat \<Rightarrow> nat \<Rightarrow> nat \<Rightarrow> (nat \<rightharpoonup> nat \<times> nat) \<Rightarrow> nat \<rightharpoonup> nat \<times> nat" where
  "own_columns k row col width owners = (\<lambda>c. if col \<le> c \<and> c < col + width then Some (k, row) else owners c)"

fun latex_row :: "nat \<Rightarrow> string list \<Rightarrow> nat \<Rightarrow> latex_state \<Rightarrow> (nat list \<times> latex_state) option" where
  "latex_row row [] col st = Some ([], st)"
| "latex_row row (raw # raws) col st =
     (let cell = parse_latex_cell raw; k = length (fst st); cells = fst st @ [cell];
          place = (\<lambda>cs. if kMaxLatexColumns < col + lc_col_span cell then None
            else map_option (apfst ((#) k)) (latex_row row raws (col + lc_col_span cell)
                   (cs, own_columns k row col (lc_col_span cell) (snd st))))
      in case owner_at row col (cells, snd st) of
           None \<Rightarrow> place cells
         | Some (i, r) \<Rightarrow>
             if lc_text cell = [] then latex_row row raws (col + lc_col_span cell) (cells, snd st)
             else place (cells[i := (cells ! i)\<lparr>lc_row_span := row - r\<rparr>]))"

fun latex_grid :: "nat \<Rightarrow> string list \<Rightarrow> latex_state \<Rightarrow> (nat list list \<times> latex_state) option" where
  "latex_grid row [] st = Some ([], st)"
| "latex_grid row (line # later) st =
     (case latex_row row (split_top_level ''&'' 0 line) 0 st of
        None \<Rightarrow> None
      | Some (ks, st') \<Rightarrow> map_option (apfst ((#) ks)) (latex_grid (row + 1) later st'))"

definition tabular_body :: "string \<Rightarrow> string" where
  "tabular_body latex =
     (let begin_token = BACKSLASH # ''begin{tabular}''; end_token = BACKSLASH # ''end{tabular}'';
          body = (case find_sub begin_token latex of
             None \<Rightarrow> latex
           | Some (_, after) \<Rightarrow> (case read_group after of None \<Rightarrow> after | Some (_, rest) \<Rightarrow> rest))
      in case find_sub end_token body of None \<Rightarrow> body | Some (before, _) \<Rightarrow> before)"

definition latex_rows :: "string \<Rightarrow> string list" where
  "latex_rows latex = filter (\<lambda>row. trim row \<noteq> []) (split_top_level [BACKSLASH, BACKSLASH] 0 (tabular_body latex))"

definition cell_html :: "latex_cell \<Rightarrow> string" where
  "cell_html cell =
     (let tag = (if lc_header cell then ''th'' else ''td'')
      in ''<'' @ tag @ (if lc_header cell then '' scope='' @ [DQUOTE] @ ''col'' @ [DQUOTE] else [])
         @ '' rowspan='' @ [DQUOTE] @ show_nat (lc_row_span cell) @ [DQUOTE]
         @ '' colspan='' @ [DQUOTE] @ show_nat (lc_col_span cell) @ [DQUOTE] @ ''>''
         @ markdown_inline_html (lc_text cell) @ ''</'' @ tag @ ''>'')"

definition row_html :: "latex_cell list \<Rightarrow> string" where
  "row_html cells = ''<tr>'' @ concat (map cell_html cells) @ ''</tr>''"

definition latex_cells :: "string \<Rightarrow> latex_cell list list option" where
  "latex_cells latex =
     map_option (\<lambda>(grid, cells, _). map (map ((!) cells)) grid) (latex_grid 0 (latex_rows latex) ([], Map.empty))"

definition latex_tabular_to_html :: "string \<Rightarrow> string option" where
  "latex_tabular_to_html latex =
     map_option (\<lambda>rows. ''<table>'' @ concat (map row_html rows) @ ''</table>'') (latex_cells latex)"

section \<open>Spans\<close>

text \<open>The columns that the cells named take together.\<close>

definition width_of :: "latex_cell list \<Rightarrow> nat list \<Rightarrow> nat" where
  "width_of cells ks = sum_list (map (\<lambda>k. lc_col_span (cells ! k)) ks)"

text \<open>
  What an operation keeps of the cells: they stay at their places with their column spans.
\<close>

definition cells_kept :: "latex_cell list \<Rightarrow> latex_cell list \<Rightarrow> bool" where
  "cells_kept cells cells' \<longleftrightarrow>
     length cells \<le> length cells' \<and> (\<forall>k < length cells. lc_col_span (cells' ! k) = lc_col_span (cells ! k))"

lemma cells_kept_trans: "cells_kept a b \<Longrightarrow> cells_kept b c \<Longrightarrow> cells_kept a c"
  by (auto simp: cells_kept_def)

text \<open>Owners are cells read before, of rows not below the one being read.\<close>

definition owners_ok :: "nat \<Rightarrow> nat \<Rightarrow> latex_state \<Rightarrow> bool" where
  "owners_ok row col st \<longleftrightarrow>
     (\<forall>c k r. snd st c = Some (k, r) \<longrightarrow> k < length (fst st) \<and> r \<le> row \<and> (r = row \<longrightarrow> c < col))"

lemma foldl_digits: "v \<le> foldl (\<lambda>v c. 10 * v + digit_value c) v s"
proof (induction s arbitrary: v)
  case (Cons c s)
  from le_trans [OF _ Cons.IH [of "10 * v + digit_value c"]] show ?case by simp
qed simp

lemma span_value_pos: "1 \<le> span_value v"
proof -
  let ?d = "dropWhile (\<lambda>c. c = CHR ''0'') (trim v)"
  have "0 < digits_value ?d" if ne: "?d \<noteq> []" and ds: "list_all is_digit ?d"
  proof -
    obtain c cs where d: "?d = c # cs" using ne by (meson list.exhaust)
    have "c \<noteq> CHR ''0''" using hd_dropWhile [OF ne] by (simp add: d)
    moreover have "of_char CHR ''0'' = (48 :: nat)" by simp
    ultimately have "of_char c \<noteq> (48 :: nat)" by (metis of_char_eq_iff)
    then have "0 < digit_value c" using ds by (simp add: d digit_value_def is_digit_def code_def)
    then show ?thesis using foldl_digits [of "digit_value c" cs] by (simp add: d digits_value_def)
  qed
  then show ?thesis by (simp add: span_value_def Let_def kMaxLatexColumns_def Suc_leI)
qed

lemma unwrap_cell_spans:
  "1 \<le> lc_row_span cell \<Longrightarrow> 1 \<le> lc_col_span cell \<Longrightarrow>
   1 \<le> lc_row_span (fst (unwrap_cell cell s)) \<and> 1 \<le> lc_col_span (fst (unwrap_cell cell s))"
proof (induction cell s rule: unwrap_cell.induct)
  case (1 cell s)
  then show ?case using span_value_pos by (subst (1 2) unwrap_cell.simps) (simp split: option.split)
qed

lemma parse_latex_cell_spans: "1 \<le> lc_row_span (parse_latex_cell s) \<and> 1 \<le> lc_col_span (parse_latex_cell s)"
  using unwrap_cell_spans [of "\<lparr>lc_text = [], lc_row_span = 1, lc_col_span = 1, lc_header = False\<rparr>" s]
  by (simp add: parse_latex_cell_def case_prod_beta')

abbreviation spans_pos :: "latex_cell list \<Rightarrow> bool" where
  "spans_pos cells \<equiv> \<forall>c \<in> set cells. 1 \<le> lc_row_span c \<and> 1 \<le> lc_col_span c"

text \<open>What reading one row keeps, and the columns it fills.\<close>

definition row_read :: "nat \<Rightarrow> nat \<Rightarrow> latex_state \<Rightarrow> nat list \<Rightarrow> latex_state \<Rightarrow> bool" where
  "row_read row col st ks st' \<longleftrightarrow>
     cells_kept (fst st) (fst st') \<and> spans_pos (fst st') \<and> (\<exists>col'. owners_ok row col' st') \<and> (\<forall>k \<in> set ks. k < length (fst st'))
     \<and> (ks = [] \<or> col + width_of (fst st') ks \<le> kMaxLatexColumns)"

lemma latex_row_read:
  assumes "latex_row row raws col st = Some (ks, st')" and "owners_ok row col st" and "spans_pos (fst st)"
  shows "row_read row col st ks st'"
  using assms
proof (induction raws arbitrary: col st ks)
  case Nil
  then show ?case by (auto simp: row_read_def cells_kept_def)
next
  case (Cons raw raws)
  define cell where "cell = parse_latex_cell raw"
  define k where "k = length (fst st)"
  define cells where "cells = fst st @ [cell]"
  have pos: "1 \<le> lc_row_span cell" "1 \<le> lc_col_span cell" using parse_latex_cell_spans by (simp_all add: cell_def)
  define place where "place cs = (if kMaxLatexColumns < col + lc_col_span cell then None
      else map_option (apfst ((#) k)) (latex_row row raws (col + lc_col_span cell)
             (cs, own_columns k row col (lc_col_span cell) (snd st))))" for cs
  have step: "latex_row row (raw # raws) col st = (case owner_at row col (cells, snd st) of
      None \<Rightarrow> place cells
    | Some (i, r) \<Rightarrow> if lc_text cell = [] then latex_row row raws (col + lc_col_span cell) (cells, snd st)
        else place (cells[i := (cells ! i)\<lparr>lc_row_span := row - r\<rparr>]))"
    by (simp only: latex_row.simps(2) Let_def place_def cells_def k_def cell_def)
  have placed: "row_read row col st ks st'"
    if cs: "length cs = length cells" "\<forall>i < length cs. lc_col_span (cs ! i) = lc_col_span (cells ! i)" "spans_pos cs"
      and p: "place cs = Some (ks, st')" for cs
  proof -
    let ?w = "lc_col_span cell" and ?own = "own_columns k row col (lc_col_span cell) (snd st)"
    obtain ks1 where r: "latex_row row raws (col + ?w) (cs, ?own) = Some (ks1, st')" "ks = k # ks1" "col + ?w \<le> kMaxLatexColumns"
      using p by (auto simp: place_def split: if_splits)
    have "owners_ok row (col + ?w) (cs, ?own)"
      using Cons.prems(2) cs(1) pos(2) by (fastforce simp: owners_ok_def own_columns_def cells_def k_def)
    from Cons.IH [OF r(1) this] cs(3) have ih: "row_read row (col + ?w) (cs, ?own) ks1 st'" by simp
    have "cells_kept (fst st) cs"
      using cs by (auto simp: cells_kept_def cells_def nth_append)
    moreover have "lc_col_span (fst st' ! k) = ?w" "k < length (fst st')"
      using ih cs(1,2) by (auto simp: row_read_def cells_kept_def cells_def k_def nth_append)
    moreover have "width_of (fst st') ks = ?w + width_of (fst st') ks1" using calculation(2) by (simp add: width_of_def r(2))
    ultimately show ?thesis
      using ih r(2,3) cells_kept_trans unfolding row_read_def by (auto simp: width_of_def)
  qed
  have cells: "spans_pos cells" using Cons.prems(3) pos by (simp add: cells_def)
  show ?case
  proof (cases "owner_at row col (cells, snd st)")
    case None
    with Cons.prems(1) have "place cells = Some (ks, st')" unfolding step by simp
    then show ?thesis using placed [of cells] cells by simp
  next
    case (Some p)
    then obtain i r where i: "p = (i, r)" "snd st col = Some (i, r)" by (auto simp: owner_at_def split: option.splits if_splits)
    have "i < length (fst st) \<and> r \<le> row \<and> (r = row \<longrightarrow> col < col)"
      using Cons.prems(2) i(2) unfolding owners_ok_def by blast
    then have r: "r < row" "i < k" by (auto simp: k_def)
    show ?thesis
    proof (cases "lc_text cell = []")
      case True
      have "latex_row row raws (col + lc_col_span cell) (cells, snd st) = Some (ks, st')"
        using Cons.prems(1) unfolding step by (simp add: Some i True)
      moreover have "owners_ok row (col + lc_col_span cell) (cells, snd st)"
        using Cons.prems(2) by (fastforce simp: owners_ok_def cells_def)
      ultimately have "row_read row (col + lc_col_span cell) (cells, snd st) ks st'" using Cons.IH cells by simp
      then show ?thesis using pos Cons.prems(3)
        by (auto simp: row_read_def cells_kept_def cells_def nth_append)
    next
      case False
      let ?cs = "cells[i := (cells ! i)\<lparr>lc_row_span := row - r\<rparr>]"
      have "i < length cells" using r(2) by (simp add: cells_def k_def)
      then have "spans_pos ?cs" "\<forall>j < length ?cs. lc_col_span (?cs ! j) = lc_col_span (cells ! j)"
        using cells r(1) by (auto simp: nth_list_update dest!: set_update_subset_insert [THEN subsetD])
      moreover have "place ?cs = Some (ks, st')" using Cons.prems(1) unfolding step by (simp add: Some i False)
      ultimately show ?thesis using placed [of ?cs] by simp
    qed
  qed
qed

lemma width_kept:
  assumes "cells_kept cells cells'" and "\<forall>k \<in> set ks. k < length cells"
  shows "width_of cells' ks = width_of cells ks"
  unfolding width_of_def using assms by (intro arg_cong [of _ _ sum_list] map_cong) (auto simp: cells_kept_def)

lemma latex_grid_read:
  assumes "latex_grid row rows st = Some (grid, st')" and "owners_ok row 0 st" and "spans_pos (fst st)"
  shows "cells_kept (fst st) (fst st') \<and> spans_pos (fst st')
    \<and> (\<forall>ks \<in> set grid. (\<forall>k \<in> set ks. k < length (fst st')) \<and> width_of (fst st') ks \<le> kMaxLatexColumns)"
  using assms
proof (induction rows arbitrary: row st grid)
  case Nil
  then show ?case by (simp add: cells_kept_def)
next
  case (Cons line rows)
  obtain ks mid grid1 where r: "latex_row row (split_top_level ''&'' 0 line) 0 st = Some (ks, mid)"
    "latex_grid (row + 1) rows mid = Some (grid1, st')" "grid = ks # grid1"
    using Cons.prems(1) by (auto split: option.splits)
  note one = latex_row_read [OF r(1) Cons.prems(2,3)]
  then have "owners_ok (row + 1) 0 mid" unfolding row_read_def owners_ok_def by fastforce
  with Cons.IH [OF r(2)] one have two: "cells_kept (fst mid) (fst st')" "spans_pos (fst st')"
    "\<forall>ks \<in> set grid1. (\<forall>k \<in> set ks. k < length (fst st')) \<and> width_of (fst st') ks \<le> kMaxLatexColumns"
    by (auto simp: row_read_def)
  have ks: "\<forall>k \<in> set ks. k < length (fst mid)" "width_of (fst mid) ks \<le> kMaxLatexColumns"
    using one by (auto simp: row_read_def width_of_def)
  have "width_of (fst st') ks \<le> kMaxLatexColumns" using ks width_kept [OF two(1) ks(1)] by simp
  moreover have "\<forall>k \<in> set ks. k < length (fst st')" using ks(1) two(1) by (auto simp: cells_kept_def)
  moreover have "cells_kept (fst st) (fst st')" using one two(1) cells_kept_trans by (auto simp: row_read_def)
  ultimately show ?case using two(2,3) r(3) by simp
qed

section \<open>Properties\<close>

text \<open>
  C31: a LaTeX table stays within its bounds.  When a tabular environment is read, no row of it is
  wider than the 1000 columns allowed, whatever spans it claims, and every cell spans at least
  one row and one column, also where a later cell cut its row span short.
\<close>

theorem latex_table_bounded:
  assumes "latex_cells latex = Some rows"
  shows "list_all (\<lambda>row. sum_list (map lc_col_span row) \<le> kMaxLatexColumns
    \<and> list_all (\<lambda>c. 1 \<le> lc_row_span c \<and> 1 \<le> lc_col_span c) row) rows"
proof -
  obtain grid cells owners where g: "latex_grid 0 (latex_rows latex) ([], Map.empty) = Some (grid, cells, owners)"
    and rows: "rows = map (map ((!) cells)) grid"
    using assms by (auto simp: latex_cells_def)
  have "spans_pos cells \<and> (\<forall>ks \<in> set grid. (\<forall>k \<in> set ks. k < length cells) \<and> width_of cells ks \<le> kMaxLatexColumns)"
    using latex_grid_read [OF g] by (simp add: owners_ok_def)
  then show ?thesis by (auto simp: rows list_all_iff width_of_def comp_def)
qed

theorem latex_table_bounded_witness:
  "\<exists>rows. latex_cells ''a & b'' = Some rows \<and> length rows = 1 \<and> map lc_text (hd rows) = [''a'', ''b'']
     \<and> sum_list (map lc_col_span (hd rows)) \<le> kMaxLatexColumns"
proof -
  have rows: "latex_rows ''a & b'' = [''a & b'']" by code_simp
  have split: "split_top_level ''&'' 0 ''a & b'' = [''a '', '' b'']" by code_simp
  have cells: "parse_latex_cell ''a '' = \<lparr>lc_text = ''a'', lc_row_span = 1, lc_col_span = 1, lc_header = False\<rparr>"
    "parse_latex_cell '' b'' = \<lparr>lc_text = ''b'', lc_row_span = 1, lc_col_span = 1, lc_header = False\<rparr>"
    by code_simp+
  obtain rows where r: "latex_cells ''a & b'' = Some rows" "length rows = 1" "map lc_text (hd rows) = [''a'', ''b'']"
    by (simp add: latex_cells_def rows split cells owner_at_def own_columns_def kMaxLatexColumns_def)
  with latex_table_bounded [OF r(1)] show ?thesis by (cases rows) auto
qed

end
