(* ===== verification/Nemotron.thy ===== *)
theory Nemotron
  imports Dots Latex
begin

text \<open>
  \<^verbatim>\<open>src/mapping/nemotron.cpp\<close>: the native output of Nemotron Parse, blocks between coordinate
  tokens that end in a class token, in its versions 2.0 and 3.5.
\<close>

section \<open>Tokens\<close>

text \<open>
  A number at the head of a text: its value, and what follows.  A number out of the range of a
  double leaves the old value.
\<close>

definition read_number :: "(real \<Rightarrow> real option) \<Rightarrow> real \<Rightarrow> string \<Rightarrow> (real \<times> string) option" where
  "read_number dbl old s =
     (let whole = takeWhile is_digit s; rest = dropWhile is_digit s;
          fraction = (case rest of
             p # d # _ \<Rightarrow> if p = CHR ''.'' \<and> is_digit d then takeWhile is_digit (tl rest) else []
           | _ \<Rightarrow> []);
          number = (if fraction = [] then whole else whole @ ''.'' @ fraction);
          value = (case decimal number of None \<Rightarrow> None | Some v \<Rightarrow> dbl v)
      in if whole = [] then None
         else Some (case value of None \<Rightarrow> old | Some v \<Rightarrow> v, drop (length number) s))"

text \<open>
  \<^verbatim>\<open><x_N><y_N>\<close>: what follows it, if it is one, and the two values, written as far as they are read.
\<close>

definition coord_token :: "(real \<Rightarrow> real option) \<Rightarrow> real \<Rightarrow> real \<Rightarrow> string \<Rightarrow> string option \<times> real \<times> real" where
  "coord_token dbl x y s =
     (if \<not> starts_with s ''<x_'' then (None, x, y)
      else case read_number dbl x (drop 3 s) of
        None \<Rightarrow> (None, x, y)
      | Some (x', s1) \<Rightarrow>
          if \<not> starts_with s1 ''><y_'' then (None, x', y)
          else case read_number dbl y (drop 4 s1) of
            None \<Rightarrow> (None, x', y)
          | Some (y', s2) \<Rightarrow> (if starts_with s2 ''>'' then Some (tl s2) else None, x', y'))"

definition class_token :: "string \<Rightarrow> (string \<times> string) option" where
  "class_token s =
     (if \<not> starts_with s ''<class_'' then None
      else case find_sub ''>'' (drop 7 s) of
        None \<Rightarrow> None
      | Some (name, rest) \<Rightarrow> if name = [] then None else Some (name, rest))"

function remove_all :: "string \<Rightarrow> string \<Rightarrow> string" where
  "remove_all token s =
     (if token = [] then s
      else case find_sub token s of None \<Rightarrow> s | Some (before, after) \<Rightarrow> before @ remove_all token after)"
  by pat_completeness auto

termination by (relation "measure (\<lambda>(_, s). length s)") (auto dest!: find_sub_split)

declare remove_all.simps [simp del]

definition remove_artifacts :: "string \<Rightarrow> string" where
  "remove_artifacts s =
     remove_all (BACKSLASH # ''unknown'') (remove_all (BACKSLASH # ''<|unk|'' @ BACKSLASH # ''>'') (remove_all ''<tbc>'' s))"

section \<open>Data tables and lines\<close>

definition bar_cells :: "string \<Rightarrow> string list" where
  "bar_cells line = map trim (split_at CHR ''|'' (strip_by (\<lambda>c. c = CHR ''|'') (trim line)))"

definition markdown_table_rows :: "string list \<Rightarrow> string list list" where
  "markdown_table_rows lines = map bar_cells (filter (\<lambda>line. \<not> list_all (\<lambda>c. c \<in> set ''|-: '') line) lines)"

function split_lines :: "string \<Rightarrow> string list" where
  "split_lines s =
     (if s = [] then []
      else let in_line = (\<lambda>c. c \<noteq> CR \<and> c \<noteq> LF); rest = dropWhile in_line s
           in takeWhile in_line s # split_lines (if starts_with rest [CR, LF] then drop 2 rest else drop 1 rest))"
  by pat_completeness auto

termination
proof (relation "measure length", goal_cases)
  case (2 s p rest)
  have "length (dropWhile p s) \<le> length s" by (rule length_dropWhile_le)
  moreover have "0 < length s" using 2(1) by simp
  ultimately have "length (dropWhile p s) - Suc n < length s" for n by linarith
  from this [of 0] this [of 1] show ?case using 2(2,3) by (simp add: numeral_2_eq_2)
qed simp

declare split_lines.simps [simp del]

definition chart_label :: "string \<Rightarrow> string" where
  "chart_label type =
     (let has = (\<lambda>word. contains_sub word type)
      in if has ''heatmap'' then ''heatmap''
         else if has ''stacked'' \<and> has ''bar'' then ''stacked_bar_chart''
         else if has ''bar'' then ''bar_chart''
         else if has ''line'' then ''line_chart''
         else if has ''scatter'' \<or> has ''bubble'' then ''scatter_chart''
         else if has ''pie'' \<or> has ''donut'' then ''pie_chart''
         else if has ''box'' then ''box_plot''
         else ''other_chart'')"

section \<open>Version 2.0\<close>

record region =
  rg_x1 :: real
  rg_y1 :: real
  rg_x2 :: real
  rg_y2 :: real
  rg_text :: string
  rg_label :: string

text \<open>
  The first closing triple: the text before it, its coordinates, its class, and what follows.
  \<open>lead\<close> is the text gone by.
\<close>

function v2_close ::
  "(real \<Rightarrow> real option) \<Rightarrow> real \<Rightarrow> real \<Rightarrow> string \<Rightarrow> string \<Rightarrow> (string \<times> real \<times> real \<times> string \<times> string) option" where
  "v2_close dbl x y lead s =
     (case find_sub ''<x_'' s of
        None \<Rightarrow> None
      | Some (before, after) \<Rightarrow>
          (case coord_token dbl x y (''<x_'' @ after) of
             (token, x', y') \<Rightarrow>
               (case Option.bind token class_token of
                  None \<Rightarrow> v2_close dbl x' y' (lead @ before @ ''<'') (''x_'' @ after)
                | Some (label, rest) \<Rightarrow> Some (lead @ before, x', y', label, rest))))"
  by pat_completeness auto

termination by (relation "measure (\<lambda>(_, _, _, _, s). length s)") (auto dest!: find_sub_split)

declare v2_close.simps [simp del]

lemma read_number_length: "read_number dbl old s = Some (v, rest) \<Longrightarrow> length rest \<le> length s"
  by (auto simp: read_number_def Let_def split: if_splits)

lemma coord_token_length: "coord_token dbl x y s = (Some rest, x', y') \<Longrightarrow> length rest < length s"
  by (auto simp: coord_token_def split: if_splits option.splits dest!: read_number_length)
    (auto simp: prefix_def)

lemma class_token_length: "class_token s = Some (label, rest) \<Longrightarrow> length rest < length s"
  by (auto simp: class_token_def split: if_splits option.splits dest!: find_sub_split arg_cong [of "drop _ _" _ length])

lemma v2_close_length: "v2_close dbl x y lead s = Some (inner, x2, y2, label, rest) \<Longrightarrow> length rest < length s"
proof (induction dbl x y lead s rule: v2_close.induct)
  case (1 dbl x y lead s)
  obtain before after where f: "find_sub ''<x_'' s = Some (before, after)"
    using "1.prems" by (subst (asm) v2_close.simps) (auto split: option.splits)
  obtain token x' y' where t: "coord_token dbl x y (''<x_'' @ after) = (token, x', y')" by (metis prod_cases3)
  have l: "length s = length before + length after + 3" using find_sub_split [OF f] by simp
  show ?case
  proof (cases "Option.bind token class_token")
    case None
    then have "v2_close dbl x' y' (lead @ before @ ''<'') (''x_'' @ after) = Some (inner, x2, y2, label, rest)"
      using "1.prems" f t by (subst (asm) v2_close.simps) simp
    with "1.IH" [OF f refl t [symmetric] refl None] l show ?thesis by simp
  next
    case (Some p)
    then obtain mid where "token = Some mid" "class_token mid = Some (label, rest)"
      using "1.prems" f t by (subst (asm) v2_close.simps) (auto split: prod.splits bind_splits)
    with t l show ?thesis using coord_token_length class_token_length by fastforce
  qed
qed

function nemotron_v2_regions :: "(real \<Rightarrow> real option) \<Rightarrow> string \<Rightarrow> region list" where
  "nemotron_v2_regions dbl s =
     (case find_sub ''<x_'' s of
        None \<Rightarrow> []
      | Some (_, after) \<Rightarrow>
          (case coord_token dbl 0 0 (''<x_'' @ after) of
             (None, _) \<Rightarrow> nemotron_v2_regions dbl (''x_'' @ after)
           | (Some body, x1, y1) \<Rightarrow>
               (case v2_close dbl 0 0 [] body of
                  None \<Rightarrow> []
                | Some (inner, x2, y2, label, rest) \<Rightarrow>
                    \<lparr>rg_x1 = x1, rg_y1 = y1, rg_x2 = x2, rg_y2 = y2, rg_text = inner,
                     rg_label = (if label = ''Inline-formula'' then ''Formula'' else label)\<rparr>
                    # nemotron_v2_regions dbl rest)))"
  by pat_completeness auto

termination
  by (relation "measure (\<lambda>(_, s). length s)")
    (auto dest!: find_sub_split coord_token_length [OF sym] v2_close_length)

declare nemotron_v2_regions.simps [simp del]

definition std_trunc :: "real \<Rightarrow> real" where
  "std_trunc x = (if x < 0 then real_of_int \<lceil>x\<rceil> else real_of_int \<lfloor>x\<rfloor>)"

text \<open>The padding of the 1664 by 2048 canvas undone.\<close>

definition nemotron_v2_box :: "(real \<Rightarrow> real) \<Rightarrow> page_context \<Rightarrow> region \<Rightarrow> bounding_box" where
  "nemotron_v2_box rnd page r =
     (let image_w = real (pg_width page); image_h = real (pg_height page);
          aspect = (if 0 < image_h then rnd (image_w / image_h) else 1);
          (w1, h1) = (if 2048 < image_h then (std_trunc (rnd (2048 * aspect)), 2048) else (image_w, image_h));
          (w2, h2) = (if 1664 < w1 then (1664, std_trunc (rnd (1664 / aspect))) else (w1, h1));
          pad_left = real_of_int \<lfloor>max 0 (1664 - w2) / 2\<rfloor>; pad_top = real_of_int \<lfloor>max 0 (2048 - h2) / 2\<rfloor>;
          sx = (if 0 < w2 then rnd (image_w / w2) else 1); sy = (if 0 < h2 then rnd (image_h / h2) else 1);
          clamp = (\<lambda>v hi. max 0 (min hi v));
          at_x = (\<lambda>x. clamp (rnd (rnd (rnd (x * 1664) - pad_left) * sx)) image_w);
          at_y = (\<lambda>y. clamp (rnd (rnd (rnd (y * 2048) - pad_top) * sy)) image_h)
      in \<lparr>bb_l = at_x (rg_x1 r), bb_t = at_y (rg_y1 r), bb_r = at_x (rg_x2 r), bb_b = at_y (rg_y2 r),
          bb_origin = COORD_ORIGIN_TOPLEFT\<rparr>)"

definition v2_cell :: "span_cell \<Rightarrow> span_cell" where
  "v2_cell c =
     c\<lparr>sp_text := (case sp_node c of None \<Rightarrow> [] | Some n \<Rightarrow> markdown_to_text (collapse_whitespace (html_text n))),
       sp_column_header := (sp_row c = 0), sp_row_header := False, sp_node := None\<rparr>"

definition nemotron_v2_table_cells :: "string \<Rightarrow> span_cell list" where
  "nemotron_v2_table_cells latex =
     (case latex_tabular_to_html latex of
        None \<Rightarrow> []
      | Some html \<Rightarrow>
          (case find_element ''table'' (parse_markup KHtml html) of
             None \<Rightarrow> []
           | Some table \<Rightarrow>
               let cells = map v2_cell (chandra_table_cells table);
                   filled = filter (\<lambda>c. trim (sp_text c) \<noteq> []) cells;
                   last_row = fold (\<lambda>c m. max m (sp_row c + sp_row_span c - 1)) filled 0
               in if filled = [] then [] else filter (\<lambda>c. sp_row c \<le> last_row) cells))"

definition nemotron_text_label :: "string \<Rightarrow> doc_item_label" where
  "nemotron_text_label label =
     (case map_of
        [(''Text'', DOC_ITEM_LABEL_TEXT), (''Caption'', DOC_ITEM_LABEL_CAPTION), (''Footnote'', DOC_ITEM_LABEL_FOOTNOTE),
         (''Page-header'', DOC_ITEM_LABEL_PAGE_HEADER), (''Page-footer'', DOC_ITEM_LABEL_PAGE_FOOTER),
         (''Bibliography'', DOC_ITEM_LABEL_REFERENCE), (''Formula'', DOC_ITEM_LABEL_FORMULA)] label of
        None \<Rightarrow> DOC_ITEM_LABEL_TEXT | Some l \<Rightarrow> l)"

definition markdown_heading_level :: "string \<Rightarrow> nat \<Rightarrow> nat" where
  "markdown_heading_level s fallback =
     (let s1 = dropWhile is_space s; hashes = takeWhile (\<lambda>c. c = CHR ''#'') s1; rest = dropWhile (\<lambda>c. c = CHR ''#'') s1
      in if hashes = [] \<or> 6 < length hashes \<or> rest = [] \<or> \<not> is_space (hd rest) then fallback else length hashes)"

text \<open>The lines of the first table of a chart.\<close>

fun chart_lines :: "bool \<Rightarrow> string list \<Rightarrow> string list" where
  "chart_lines some [] = []"
| "chart_lines some (line # later) =
     (if starts_with (trim line) ''|'' then trim line # chart_lines True later
      else if some then [] else chart_lines False later)"

section \<open>Version 3.5\<close>

record v35_block =
  vb_label :: string
  vb_x1 :: real
  vb_y1 :: real
  vb_x2 :: real
  vb_y2 :: real
  vb_text :: string

text \<open>The text up to every class token, with the class.\<close>

function v35_segments :: "string \<Rightarrow> string \<Rightarrow> (string \<times> string) list" where
  "v35_segments lead s =
     (case find_sub ''<class_'' s of
        None \<Rightarrow> []
      | Some (before, after) \<Rightarrow>
          (case class_token (''<class_'' @ after) of
             None \<Rightarrow> v35_segments (lead @ before @ ''<'') (''class_'' @ after)
           | Some (label, rest) \<Rightarrow> (lead @ before, label) # v35_segments [] rest))"
  by pat_completeness auto

termination
  by (relation "measure (\<lambda>(_, s). length s)") (auto dest!: find_sub_split class_token_length)

declare v35_segments.simps [simp del]

text \<open>The text before the first pair of coordinates of a segment, and the text after every pair.\<close>

function scan_coords :: "(real \<Rightarrow> real option) \<Rightarrow> string \<Rightarrow> string \<times> (real \<times> real \<times> string) list" where
  "scan_coords dbl s =
     (case find_sub ''<x_'' s of
        None \<Rightarrow> (s, [])
      | Some (before, after) \<Rightarrow>
          (case coord_token dbl 0 0 (''<x_'' @ after) of
             (None, _) \<Rightarrow>
               (case scan_coords dbl (''x_'' @ after) of (piece, coords) \<Rightarrow> (before @ ''<'' @ piece, coords))
           | (Some rest, x, y) \<Rightarrow>
               (case scan_coords dbl rest of (piece, coords) \<Rightarrow> (before, (x, y, piece) # coords))))"
  by pat_completeness auto

termination
  by (relation "measure (\<lambda>(_, s). length s)") (auto dest!: find_sub_split coord_token_length [OF sym])

declare scan_coords.simps [simp del]

definition segment_block :: "(real \<Rightarrow> real option) \<Rightarrow> string \<times> string \<Rightarrow> v35_block option" where
  "segment_block dbl seg =
     (let (segment, label) = seg; coords = snd (scan_coords dbl segment)
      in if length coords < 2 then None
         else let (x1, y1, _) = hd coords; (x2, y2, _) = last coords
              in Some \<lparr>vb_label = label, vb_x1 = x1, vb_y1 = y1, vb_x2 = x2, vb_y2 = y2,
                       vb_text = trim (remove_artifacts (concat (map (\<lambda>(x, y, piece). piece) (butlast coords))))\<rparr>)"

text \<open>A block repeated word for word counts once.\<close>

definition add_new :: "v35_block \<Rightarrow> v35_block list \<Rightarrow> v35_block list" where
  "add_new b blocks = (if b \<in> set blocks then blocks else blocks @ [b])"

definition nemotron_v35_blocks :: "(real \<Rightarrow> real option) \<Rightarrow> string \<Rightarrow> v35_block list" where
  "nemotron_v35_blocks dbl content =
     fold add_new (List.map_filter (segment_block dbl) (v35_segments [] content)) []"

section \<open>List markers\<close>

definition is_roman :: "char \<Rightarrow> bool" where
  "is_roman c \<longleftrightarrow> c \<in> set ''ivxlcdmIVXLCDM''"

text \<open>Where a marker of \<open>k\<close> characters that a point or parenthesis closes ends.\<close>

definition closes_at :: "string \<Rightarrow> nat \<Rightarrow> nat option" where
  "closes_at s k = (if k < length s \<and> (s ! k = CHR ''.'' \<or> s ! k = CHR '')'') then Some (k + 1) else None)"

definition ordered_marker :: "string \<Rightarrow> nat option" where
  "ordered_marker s =
     (let j = (if starts_with s ''('' then 1 else 0); t = drop j s; digits = length (takeWhile is_digit t)
      in if 0 < digits then closes_at s (j + digits)
         else if t \<noteq> [] \<and> is_alpha (hd t)
         then (case closes_at s (j + 1) of
                 Some e \<Rightarrow> Some e
               | None \<Rightarrow> let k = length (takeWhile is_roman t) in if 0 < k then closes_at s (j + k) else None)
         else None)"

definition kBullets :: "string list" where
  "kBullets = [''-'', utf8 0x2013, utf8 0x2014, utf8 0x2022, utf8 0x25BA, utf8 0x25AA, utf8 0x25A0, utf8 0x25A1,
               utf8 0x25E6, utf8 0x25CF, utf8 0x25CB, utf8 0x00B7, ''*'', ''+'']"

definition symbol_marker :: "string \<Rightarrow> nat option" where
  "symbol_marker s =
     (let opening = [BACKSLASH, CHR ''('', BACKSLASH]; name = takeWhile is_alpha (drop 3 s)
      in if starts_with s opening \<and> name \<noteq> [] \<and> starts_with (drop (3 + length name) s) [BACKSLASH, CHR '')'']
         then Some (5 + length name) else None)"

definition bullet_marker :: "string \<Rightarrow> nat option" where
  "bullet_marker s =
     (case filter (starts_with s) kBullets of
        bullet # _ \<Rightarrow> Some (length bullet)
      | [] \<Rightarrow> symbol_marker s)"

text \<open>The marker, the text behind it, and whether the marker counts.\<close>

definition list_marker :: "string \<Rightarrow> (string \<times> string \<times> bool) option" where
  "list_marker body =
     (let s = dropWhile is_space body; counted = ordered_marker s;
          marker = (case counted of Some e \<Rightarrow> Some e | None \<Rightarrow> bullet_marker s)
      in case marker of
           None \<Rightarrow> None
         | Some e \<Rightarrow>
             if length s \<le> e \<or> \<not> is_space (s ! e) then None
             else Some (take e s, dropWhile is_space (drop e s), counted \<noteq> None))"

section \<open>The builder of version 3.5\<close>

text \<open>The texts and groups written since belong to the furniture of the page.\<close>

definition furnish :: "nat \<Rightarrow> nat \<Rightarrow> writer \<Rightarrow> writer" where
  "furnish texts_before groups_before w =
     (let w1 = fold (\<lambda>i. set_content_layer (TEXT, i) CONTENT_LAYER_FURNITURE) [texts_before..<text_count w] w
      in fold (\<lambda>i. set_content_layer (GROUP, i) CONTENT_LAYER_FURNITURE) [groups_before..<group_count w1] w1)"

definition rich_text ::
  "chandra_env \<Rightarrow> string \<Rightarrow> doc_item_label \<Rightarrow> bounding_box option \<Rightarrow> lref option \<Rightarrow> writer \<Rightarrow> writer" where
  "rich_text env body label box parent w =
     (let (found, w1) = add_inline_text env body label box parent w;
          (item, w2) = write_styled_text (ce_page env) label box (unescape_markdown_literals body) None []
            (case parent of None \<Rightarrow> kBodyRef | Some p \<Rightarrow> p) w1;
          w3 = (if found then w1 else set_orig item body w2)
      in if label = DOC_ITEM_LABEL_PAGE_HEADER \<or> label = DOC_ITEM_LABEL_PAGE_FOOTER
         then furnish (text_count w) (group_count w) w3 else w3)"

definition latex_table :: "chandra_env \<Rightarrow> string \<Rightarrow> bounding_box option \<Rightarrow> lref \<Rightarrow> writer \<Rightarrow> writer" where
  "latex_table env latex box parent w =
     (let (found, w1) = (case latex_tabular_to_html latex of
            None \<Rightarrow> (None, w)
          | Some html \<Rightarrow> add_html_table env html box parent w)
      in if found = None then snd (write_table (ce_byte_size env) (ce_page env) box [] parent w1) else w1)"

definition chart_picture ::
  "chandra_env \<Rightarrow> bounding_box option \<Rightarrow> string \<Rightarrow> string \<Rightarrow> string list \<Rightarrow> writer \<Rightarrow> writer" where
  "chart_picture env box type title rows w =
     (let (picture, w1) = write_picture (ce_lib env) (ce_rnd env) (ce_page env) box kBodyRef w
      in set_tabular_chart picture title (markdown_table_rows rows) []
           (classify_picture picture (chart_label type) [] w1))"

text \<open>\<^verbatim>\<open><chart type="...">\<close>: the type and what follows the first one.\<close>

function chart_head :: "string \<Rightarrow> (string \<times> string) option" where
  "chart_head s =
     (case find_sub ''<chart'' s of
        None \<Rightarrow> None
      | Some (_, after) \<Rightarrow>
          let attr = dropWhile is_space after; opening = ''type='' @ [DQUOTE]; again = chart_head (''chart'' @ after)
          in if attr = after \<or> \<not> starts_with attr opening then again
             else case find_sub [DQUOTE] (drop 6 attr) of
               None \<Rightarrow> again
             | Some (type, rest) \<Rightarrow>
                 let tail = dropWhile is_space rest
                 in if starts_with tail ''>'' then Some (type, tl tail) else again)"
  by pat_completeness auto

termination by (relation "measure length") (auto dest!: find_sub_split)

declare chart_head.simps [simp del]

record chart_state =
  ct_title :: string
  ct_panels :: "(string \<times> string \<times> string) list"
  ct_tables :: "string \<rightharpoonup> string list"
  ct_order :: "string list"
  ct_key :: string

definition panel_parts :: "string \<Rightarrow> string list" where
  "panel_parts value =
     (case find_sub '';'' value of
        None \<Rightarrow> [trim value]
      | Some (a, r) \<Rightarrow>
          (case find_sub '';'' r of None \<Rightarrow> [trim a, trim r] | Some (b, c) \<Rightarrow> [trim a, trim b, trim c]))"

definition table_key :: "string \<Rightarrow> string option" where
  "table_key name =
     (let key = butlast (drop 6 name)
      in if starts_with name ''table['' \<and> ends_with name '']'' \<and> 7 < length name
            \<and> list_all (\<lambda>c. is_alnum c \<or> c = CHR ''_'') key then Some key else None)"

definition chart_line :: "string \<Rightarrow> chart_state \<Rightarrow> chart_state" where
  "chart_line line st =
     (let stripped = trim line; key = ct_key st
      in if starts_with stripped ''|''
         then (case ct_tables st key of
                 None \<Rightarrow> st\<lparr>ct_order := ct_order st @ [key], ct_tables := (ct_tables st)(key \<mapsto> [stripped])\<rparr>
               | Some rows \<Rightarrow> st\<lparr>ct_tables := (ct_tables st)(key \<mapsto> rows @ [stripped])\<rparr>)
         else case find_sub '':'' stripped of
           None \<Rightarrow> st
         | Some (name, value) \<Rightarrow>
             if name = ''title'' then st\<lparr>ct_title := trim value\<rparr>
             else if name = ''panel''
             then (case panel_parts value of
                     [a, b] \<Rightarrow> st\<lparr>ct_panels := ct_panels st @ [(a, b, [])]\<rparr>
                   | [a, b, c] \<Rightarrow> st\<lparr>ct_panels := ct_panels st @ [(a, b, c)]\<rparr>
                   | _ \<Rightarrow> st)
             else (case table_key name of None \<Rightarrow> st | Some k \<Rightarrow> st\<lparr>ct_key := k\<rparr>))"

definition table_of :: "chart_state \<Rightarrow> string \<Rightarrow> string list" where
  "table_of st key = (case ct_tables st key of None \<Rightarrow> [] | Some rows \<Rightarrow> rows)"

definition chart_rows :: "chart_state \<Rightarrow> string list" where
  "chart_rows st =
     (if table_of st [] \<noteq> [] then table_of st []
      else case filter (\<lambda>k. table_of st k \<noteq> []) (ct_order st) of [] \<Rightarrow> [] | k # _ \<Rightarrow> table_of st k)"

definition chart :: "chandra_env \<Rightarrow> string \<Rightarrow> bounding_box option \<Rightarrow> writer \<Rightarrow> writer" where
  "chart env body box w =
     (let (type, inner) = (case chart_head body of None \<Rightarrow> (''other'', body) | Some head \<Rightarrow> head);
          content = (case find_sub ''</chart>'' inner of None \<Rightarrow> inner | Some (before, _) \<Rightarrow> before);
          st = fold chart_line (split_lines content)
            \<lparr>ct_title = [], ct_panels = [], ct_tables = Map.empty, ct_order = [[]], ct_key = []\<rparr>;
          shown = filter (\<lambda>(id, _, _). id \<noteq> [] \<and> table_of st id \<noteq> []) (ct_panels st)
      in if shown \<noteq> []
         then fold (\<lambda>(id, panel_type, label). chart_picture env box panel_type label (table_of st id)) shown w
         else chart_picture env box type (ct_title st) (chart_rows st) w)"

section \<open>The mappers\<close>

type_synonym v2_state = "body_child option \<times> writer"

text \<open>A text item of version 2.0, with its original text.\<close>

definition v2_item :: "chandra_env \<Rightarrow> bounding_box \<Rightarrow> string \<Rightarrow> string \<Rightarrow> writer \<Rightarrow> writer" where
  "v2_item env box label raw w =
     (let page = ce_page env; shown = markdown_to_text raw;
          (item, w1) =
            (if label = ''Title'' then write_title page (Some box) shown kBodyRef w
             else if label = ''Section-header''
             then write_heading page (int (markdown_heading_level raw 2)) (Some box) shown kBodyRef w
             else if nemotron_text_label label = DOC_ITEM_LABEL_FORMULA
             then write_formula page (Some box) (strip_math_delimiters raw) kBodyRef w
             else write_styled_text page (nemotron_text_label label) (Some box) shown None [] kBodyRef w)
      in set_orig item raw w1)"

definition v2_chart :: "chandra_env \<Rightarrow> bounding_box \<Rightarrow> string \<Rightarrow> writer \<Rightarrow> writer" where
  "v2_chart env box raw w =
     (let (picture, w1) = write_picture (ce_lib env) (ce_rnd env) (ce_page env) (Some box) kBodyRef w
      in set_tabular_chart picture [] (markdown_table_rows (chart_lines False (split_lines raw))) [] w1)"

definition v2_list_item :: "chandra_env \<Rightarrow> body_child option \<Rightarrow> bounding_box \<Rightarrow> string \<Rightarrow> writer \<Rightarrow> v2_state" where
  "v2_list_item env open_list box raw w =
     (let (grp, w1) = (case open_list of Some l \<Rightarrow> (l, w) | None \<Rightarrow> write_list_group kBodyRef w);
          (item, w2) = write_list_item (ce_page env) (Some box) (markdown_to_text raw) False [] (Some grp) w1
      in (Some grp, set_orig item raw w2))"

definition v2_region :: "chandra_env \<Rightarrow> region \<Rightarrow> v2_state \<Rightarrow> v2_state" where
  "v2_region env r st =
     (let box = nemotron_v2_box (ce_rnd env) (ce_page env) r; raw = trim (remove_artifacts (rg_text r));
          label = rg_label r; w = snd st
      in if label = ''List-item'' then v2_list_item env (fst st) box raw w
         else (None,
           if label = ''Picture'' then snd (write_picture (ce_lib env) (ce_rnd env) (ce_page env) (Some box) kBodyRef w)
           else if label = ''Table''
           then snd (write_table (ce_byte_size env) (ce_page env) (Some box) (nemotron_v2_table_cells raw) kBodyRef w)
           else if label = ''Chart'' then v2_chart env box raw w
           else v2_item env box label raw w))"

definition v2_writer :: "chandra_env \<Rightarrow> string \<Rightarrow> writer" where
  "v2_writer env body =
     snd (fold (v2_region env) (nemotron_v2_regions (ce_dbl env) body) (None, new_writer (ce_page env)))"

definition map_nemotron_parse_v2 :: "chandra_env \<Rightarrow> string \<Rightarrow> string + (document \<times> warning list)" where
  "map_nemotron_parse_v2 env body = finish (ce_page env) ''Nemotron Parse'' True (v2_writer env body)"

record v35_state =
  vs_list :: "body_child option"
  vs_toc :: "body_child option"
  vs_starts :: "nat list"
  vs_captions :: "nat list"
  vs_writer :: writer

definition v35_box :: "chandra_env \<Rightarrow> v35_block \<Rightarrow> bounding_box" where
  "v35_box env b =
     (let unit = (\<lambda>v. min 1 (max 0 v)); page = ce_page env;
          x1 = unit (vb_x1 b); y1 = unit (vb_y1 b); x2 = unit (vb_x2 b); y2 = unit (vb_y2 b)
      in scaled_box (ce_rnd env) page (min x1 x2) (min y1 y2) (max x1 x2) (max y1 y2)
           (real (pg_width page)) (real (pg_height page)))"

definition v35_list_item ::
  "chandra_env \<Rightarrow> body_child option \<Rightarrow> bounding_box \<Rightarrow> string \<Rightarrow> writer \<Rightarrow> body_child \<times> writer" where
  "v35_list_item env open_list box body w =
     (let (grp, w1) = (case open_list of Some l \<Rightarrow> (l, w) | None \<Rightarrow> write_list_group kBodyRef w);
          (marker, rest, ordered) = (case list_marker body of None \<Rightarrow> ([], body, False) | Some m \<Rightarrow> m);
          (item, w2) = write_list_item (ce_page env) (Some box) [] ordered marker (Some grp) w1
      in (grp, fill_inline env item rest (set_orig item body w2)))"

definition v35_toc ::
  "chandra_env \<Rightarrow> body_child option \<Rightarrow> bounding_box \<Rightarrow> string \<Rightarrow> writer \<Rightarrow> body_child \<times> writer" where
  "v35_toc env open_toc box body w =
     (let (grp, w1) = (case open_toc of Some t \<Rightarrow> (t, w) | None \<Rightarrow> write_group ''toc'' GROUP_LABEL_UNSPECIFIED kBodyRef w)
      in (grp,
          if contains_sub (BACKSLASH # ''begin{tabular}'') body then latex_table env body (Some box) (Some grp) w1
          else rich_text env body DOC_ITEM_LABEL_TEXT (Some box) (Some (Some grp)) w1))"

definition v35_label :: "string \<Rightarrow> doc_item_label" where
  "v35_label label =
     (case map_of
        [(''Caption'', DOC_ITEM_LABEL_CAPTION), (''Footnote'', DOC_ITEM_LABEL_FOOTNOTE),
         (''Bibliography'', DOC_ITEM_LABEL_REFERENCE), (''Page-header'', DOC_ITEM_LABEL_PAGE_HEADER),
         (''Page-footer'', DOC_ITEM_LABEL_PAGE_FOOTER)] label of
        None \<Rightarrow> DOC_ITEM_LABEL_TEXT | Some l \<Rightarrow> l)"

definition v35_picture :: "chandra_env \<Rightarrow> bounding_box \<Rightarrow> string \<Rightarrow> writer \<Rightarrow> writer" where
  "v35_picture env box body w =
     (let (picture, w1) = write_picture (ce_lib env) (ce_rnd env) (ce_page env) (Some box) kBodyRef w
      in if body = [] then w1 else rich_text env body DOC_ITEM_LABEL_TEXT None (Some (Some picture)) w1)"

text \<open>A heading of version 3.5 is written the way one of dots.ocr is.\<close>

definition v35_write :: "chandra_env \<Rightarrow> string \<Rightarrow> bounding_box \<Rightarrow> string \<Rightarrow> writer \<Rightarrow> writer" where
  "v35_write env label box body w =
     (if label = ''Table'' then latex_table env body (Some box) kBodyRef w
      else if label = ''Chart'' then chart env body (Some box) w
      else if label = ''Picture'' then v35_picture env box body w
      else if label = ''Title'' \<or> label = ''Section-header'' then dots_heading env (label = ''Title'') box body w
      else if label = ''Formula''
      then (case write_formula (ce_page env) (Some box) (strip_math_delimiters body) kBodyRef w of
              (item, w1) \<Rightarrow> set_orig item body w1)
      else if label = ''Code'' then snd (write_code (ce_page env) (Some box) body [] kBodyRef w)
      else rich_text env body (v35_label label) (Some box) None w)"

definition v35_element :: "chandra_env \<Rightarrow> nat \<times> v35_block \<Rightarrow> v35_state \<Rightarrow> v35_state" where
  "v35_element env indexed st0 =
     (let (index, b) = indexed; label = vb_label b; body = vb_text b; box = v35_box env b; w = vs_writer st0;
          st = st0\<lparr>vs_starts := vs_starts st0 @ [length (lw_body w)],
                   vs_list := (if label = ''List-item'' then vs_list st0 else None),
                   vs_toc := (if label = ''TOC'' then vs_toc st0 else None)\<rparr>
      in if label = ''List-item''
         then let (l, w') = v35_list_item env (vs_list st) box body w in st\<lparr>vs_list := Some l, vs_writer := w'\<rparr>
         else if label = ''TOC''
         then let (t, w') = v35_toc env (vs_toc st) box body w in st\<lparr>vs_toc := Some t, vs_writer := w'\<rparr>
         else st\<lparr>vs_captions := (if label = ''Caption'' then vs_captions st @ [index] else vs_captions st),
                 vs_writer := v35_write env label box body w\<rparr>)"

definition v35_writer :: "chandra_env \<Rightarrow> string \<Rightarrow> writer" where
  "v35_writer env body =
     (let st = fold (v35_element env) (List.enumerate 0 (nemotron_v35_blocks (ce_dbl env) body))
            \<lparr>vs_list = None, vs_toc = None, vs_starts = [], vs_captions = [], vs_writer = new_writer (ce_page env)\<rparr>
      in link_adjacent_captions (vs_starts st) (vs_captions st) False (vs_writer st))"

definition map_nemotron_parse_v3_5 :: "chandra_env \<Rightarrow> string \<Rightarrow> string + (document \<times> warning list)" where
  "map_nemotron_parse_v3_5 env body = finish (ce_page env) ''Nemotron Parse 3.5'' True (v35_writer env body)"

section \<open>Every block only adds to the page\<close>

lemma furnish_grown: "writer_ok page w \<Longrightarrow> grown page w (furnish a b w)"
  unfolding furnish_def Let_def by (rule grown_trans [OF layers_grown layers_grown [OF grown_ok [OF layers_grown]]]) simp_all

lemma furnished: "grown page w v \<Longrightarrow> grown page w (furnish a b v)"
  using grown_trans [OF _ furnish_grown [OF grown_ok]] by blast

lemma rich_text_grown:
  assumes "writer_ok (ce_page env) w" and "\<And>p. parent = Some p \<Longrightarrow> parent_ok w p"
  shows "grown (ce_page env) w (rich_text env body label box parent w)"
proof -
  obtain found w1 where a: "add_inline_text env body label box parent w = (found, w1)" by (metis surj_pair)
  have one: "grown (ce_page env) w w1" using inline_text_grown [OF assms] a by (metis snd_conv)
  let ?p = "case parent of None \<Rightarrow> kBodyRef | Some p \<Rightarrow> p"
  have p: "parent_ok w1 ?p" using assms(2) grown_parent [OF one] by (auto split: option.split)
  obtain item w2 where s: "write_styled_text (ce_page env) label box (unescape_markdown_literals body) None [] ?p w1 = (item, w2)"
    by (metis surj_pair)
  have two: "grown (ce_page env) w1 (set_orig item body w2)"
    by (rule orig_grown [OF grown_written [OF styled_writer.writes [OF grown_ok [OF one] p s]]])
  have "grown (ce_page env) w (if found then w1 else set_orig item body w2)" using one two by (auto intro: grown_trans)
  then show ?thesis
    by (auto simp: rich_text_def a s intro: furnished)
qed

lemma latex_table_grown:
  assumes "writer_ok (ce_page env) w" and "parent_ok w parent"
  shows "grown (ce_page env) w (latex_table env latex box parent w)"
proof -
  obtain found w1 where a: "(case latex_tabular_to_html latex of None \<Rightarrow> (None, w)
      | Some html \<Rightarrow> add_html_table env html box parent w) = (found, w1)" by (metis surj_pair)
  have one: "grown (ce_page env) w w1"
    using a html_table_grown [of env w parent _ box] assms by (auto simp: ready_def split: option.splits) (metis snd_conv)
  have "grown (ce_page env) w1 (snd (write_table (ce_byte_size env) (ce_page env) box [] parent w1))"
    using grown_written [OF table_writer.writes [OF grown_ok [OF one] grown_parent [OF one assms(2)] surjective_pairing]] by blast
  with one show ?thesis by (auto simp: latex_table_def a intro: grown_trans)
qed

lemma charted_grown:
  assumes "grown page w w1 \<and> parent_ok w1 p"
  shows "grown page w (set_tabular_chart ref title rows by_whom w1)"
    and "grown page w (set_tabular_chart ref title rows by_whom (classify_picture ref name by_whom w1))"
proof -
  have one: "grown page w w1" and ok: "writer_ok page w1" using assms by (auto simp: grown_def)
  have two: "grown page w1 (classify_picture ref name by_whom w1)" using ok by (rule edited_grown)
  have chart: "grown page v (set_tabular_chart ref title rows by_whom v)" if "writer_ok page v" for v using that by (rule edited_grown)
  show "grown page w (set_tabular_chart ref title rows by_whom w1)" using grown_trans [OF one chart [OF ok]] .
  show "grown page w (set_tabular_chart ref title rows by_whom (classify_picture ref name by_whom w1))"
    using grown_trans [OF grown_trans [OF one two] chart [OF grown_ok [OF two]]] .
qed

lemma chart_picture_grown:
  assumes "writer_ok (ce_page env) w"
  shows "grown (ce_page env) w (chart_picture env box type title rows w)"
  using charted_grown(2) [OF grown_written [OF picture_writer.writes [OF assms body_ok surjective_pairing]]]
  by (simp add: chart_picture_def case_prod_beta' Let_def)

lemma chart_grown: "writer_ok (ce_page env) w \<Longrightarrow> grown (ce_page env) w (chart env body box w)"
  unfolding chart_def Let_def
  by (auto split: prod.split intro!: chart_picture_grown grown_fold dest: grown_ok)

lemma v2_item_grown:
  assumes "writer_ok (ce_page env) w"
  shows "grown (ce_page env) w (v2_item env box label raw w)"
proof -
  let ?page = "ce_page env" and ?shown = "markdown_to_text raw"
  let ?made = "if label = ''Title'' then write_title ?page (Some box) ?shown kBodyRef w
    else if label = ''Section-header''
    then write_heading ?page (int (markdown_heading_level raw 2)) (Some box) ?shown kBodyRef w
    else if nemotron_text_label label = DOC_ITEM_LABEL_FORMULA
    then write_formula ?page (Some box) (strip_math_delimiters raw) kBodyRef w
    else write_styled_text ?page (nemotron_text_label label) (Some box) ?shown None [] kBodyRef w"
  obtain item w1 where i: "?made = (item, w1)" by (metis surj_pair)
  have "grown ?page w w1 \<and> parent_ok w1 (Some item)"
    using i grown_written [OF title_writer.writes [OF assms body_ok]] grown_written [OF heading_writer.writes [OF assms body_ok]]
      grown_written [OF formula_writer.writes [OF assms body_ok]] grown_written [OF styled_writer.writes [OF assms body_ok]]
    by (metis prod.collapse)
  then have "grown ?page w (set_orig item raw w1)" by (rule orig_grown)
  then show ?thesis unfolding v2_item_def Let_def i by simp
qed

lemma opened_group:
  assumes "writer_ok page w" and "\<And>l. open_group = Some l \<Longrightarrow> parent_ok w (Some l)"
    and "(case open_group of Some l \<Rightarrow> (l, w) | None \<Rightarrow> write_group name label kBodyRef w) = (grp, w1)"
  shows "grown page w w1 \<and> parent_ok w1 (Some grp)"
  using assms grown_written [OF group_writer.writes [OF assms(1) body_ok]] by (auto split: option.splits)

lemmas opened_list = opened_group [where name = "''list''" and label = GROUP_LABEL_LIST, folded write_list_group_def]

lemma listed_grown:
  assumes "grown page w w1 \<and> parent_ok w1 (Some grp)"
    and "write_list_item page box body ordered marker (Some grp) w1 = (item, w2)"
  shows "grown page w1 w2 \<and> parent_ok w2 (Some item)"
  using list_item_writer.writes [OF _ _ assms(2)] assms(1) by (intro grown_written) (simp add: grown_def)

lemma v2_list_item_grown:
  assumes "writer_ok (ce_page env) w" and "\<And>l. open_list = Some l \<Longrightarrow> parent_ok w (Some l)"
    and "v2_list_item env open_list box raw w = (l', w')"
  shows "grown (ce_page env) w w' \<and> (\<forall>l. l' = Some l \<longrightarrow> parent_ok w' (Some l))"
proof -
  obtain g w1 where g: "(case open_list of Some l \<Rightarrow> (l, w) | None \<Rightarrow> write_list_group kBodyRef w) = (g, w1)" by (metis surj_pair)
  note one = opened_list [OF assms(1,2) g, unfolded write_list_group_def]
  obtain item w2 where i: "write_list_item (ce_page env) (Some box) (markdown_to_text raw) False [] (Some g) w1 = (item, w2)"
    by (metis surj_pair)
  have "grown (ce_page env) w1 (set_orig item raw w2)" using one by (intro orig_grown [OF listed_grown [OF _ i]]) blast
  with one have "grown (ce_page env) w (set_orig item raw w2) \<and> parent_ok (set_orig item raw w2) (Some g)"
    by (blast intro: grown_trans grown_parent)
  then show ?thesis using assms(3) by (auto simp: v2_list_item_def g i)
qed

definition v2_ok :: "chandra_env \<Rightarrow> v2_state \<Rightarrow> bool" where
  "v2_ok env st \<longleftrightarrow> writer_ok (ce_page env) (snd st) \<and> (\<forall>l. fst st = Some l \<longrightarrow> parent_ok (snd st) (Some l))"

lemma v2_region_ok:
  assumes "v2_ok env st"
  shows "v2_ok env (v2_region env r st)"
proof (cases "rg_label r = ''List-item''")
  case True
  let ?box = "nemotron_v2_box (ce_rnd env) (ce_page env) r" and ?raw = "trim (remove_artifacts (rg_text r))"
  have "grown (ce_page env) (snd st) (snd (v2_list_item env (fst st) ?box ?raw (snd st)))
      \<and> (\<forall>l. fst (v2_list_item env (fst st) ?box ?raw (snd st)) = Some l \<longrightarrow>
           parent_ok (snd (v2_list_item env (fst st) ?box ?raw (snd st))) (Some l))"
    using assms by (intro v2_list_item_grown [OF _ _ surjective_pairing]) (auto simp: v2_ok_def)
  then show ?thesis using True by (auto simp: v2_region_def Let_def v2_ok_def dest: grown_ok)
next
  case False
  have ok: "writer_ok (ce_page env) (snd st)" using assms by (simp add: v2_ok_def)
  have "writer_ok (ce_page env) (snd (write_picture (ce_lib env) (ce_rnd env) (ce_page env) box kBodyRef (snd st)))"
    "writer_ok (ce_page env) (snd (write_table (ce_byte_size env) (ce_page env) box cells kBodyRef (snd st)))"
    "writer_ok (ce_page env) (v2_chart env b raw (snd st))" for box cells b raw
    using picture_writer.writes [OF ok body_ok surjective_pairing] table_writer.writes [OF ok body_ok surjective_pairing]
      charted_grown(1) [OF grown_written [OF picture_writer.writes [OF ok body_ok surjective_pairing]], THEN grown_ok]
    by (simp_all add: v2_chart_def case_prod_beta' Let_def)
  with False v2_item_grown [OF ok, THEN grown_ok] show ?thesis by (simp add: v2_region_def Let_def v2_ok_def)
qed

lemma v2_writer_ok: "writer_ok (ce_page env) (v2_writer env body)"
proof -
  have "v2_ok env (fold (v2_region env) rs st)" if "v2_ok env st" for rs st
    using that by (induction rs arbitrary: st) (simp_all add: v2_region_ok)
  from this [of "(None, new_writer (ce_page env))"] show ?thesis
    by (simp add: v2_writer_def v2_ok_def new_writer_ok)
qed

lemma v35_list_item_grown:
  assumes "writer_ok (ce_page env) w" and "\<And>l. open_list = Some l \<Longrightarrow> parent_ok w (Some l)"
    and "v35_list_item env open_list box body w = (l', w')"
  shows "grown (ce_page env) w w' \<and> parent_ok w' (Some l')"
proof -
  obtain g w1 where g: "(case open_list of Some l \<Rightarrow> (l, w) | None \<Rightarrow> write_list_group kBodyRef w) = (g, w1)" by (metis surj_pair)
  note one = opened_list [OF assms(1,2) g, unfolded write_list_group_def]
  obtain marker rest ordered where m: "(case list_marker body of None \<Rightarrow> ([], body, False) | Some m \<Rightarrow> m) = (marker, rest, ordered)"
    by (metis prod_cases3)
  obtain item w2 where i: "write_list_item (ce_page env) (Some box) [] ordered marker (Some g) w1 = (item, w2)"
    by (metis surj_pair)
  have "grown (ce_page env) w1 (fill_inline env item rest (set_orig item body w2))"
    using one by (intro filled_item_grown listed_grown [OF _ i]) blast
  with one have "grown (ce_page env) w (fill_inline env item rest (set_orig item body w2))
      \<and> parent_ok (fill_inline env item rest (set_orig item body w2)) (Some g)"
    by (blast intro: grown_trans grown_parent)
  then show ?thesis using assms(3) unfolding v35_list_item_def g m by (simp add: i Let_def)
qed

lemma v35_toc_grown:
  assumes "writer_ok (ce_page env) w" and "\<And>t. open_toc = Some t \<Longrightarrow> parent_ok w (Some t)"
    and "v35_toc env open_toc box body w = (t', w')"
  shows "grown (ce_page env) w w' \<and> parent_ok w' (Some t')"
proof -
  obtain g w1 where g: "(case open_toc of Some t \<Rightarrow> (t, w) | None \<Rightarrow> write_group ''toc'' GROUP_LABEL_UNSPECIFIED kBodyRef w) = (g, w1)"
    by (metis surj_pair)
  note one = opened_group [OF assms(1,2) g]
  then have ok: "writer_ok (ce_page env) w1" and p: "parent_ok w1 (Some g)" by (auto dest: grown_ok)
  have "grown (ce_page env) w1 (latex_table env body (Some box) (Some g) w1)" by (rule latex_table_grown [OF ok p])
  moreover have "grown (ce_page env) w1 (rich_text env body DOC_ITEM_LABEL_TEXT (Some box) (Some (Some g)) w1)"
    by (rule rich_text_grown [OF ok]) (simp add: p)
  ultimately have "grown (ce_page env) w1 w'" "t' = g"
    using assms(3) unfolding v35_toc_def g by (auto split: if_splits)
  with one show ?thesis by (blast intro: grown_trans grown_parent)
qed

lemma v35_picture_grown:
  assumes "writer_ok (ce_page env) w"
  shows "grown (ce_page env) w (v35_picture env box body w)"
proof -
  obtain picture w1 where p: "write_picture (ce_lib env) (ce_rnd env) (ce_page env) (Some box) kBodyRef w = (picture, w1)"
    by (metis surj_pair)
  note one = grown_written [OF picture_writer.writes [OF assms body_ok p]]
  have "grown (ce_page env) w1 (rich_text env body DOC_ITEM_LABEL_TEXT None (Some (Some picture)) w1)"
    using one by (intro rich_text_grown) (auto dest: grown_ok)
  with one show ?thesis by (auto simp: v35_picture_def p intro: grown_trans)
qed

lemma v35_write_grown:
  assumes "writer_ok (ce_page env) w"
  shows "grown (ce_page env) w (v35_write env label box body w)"
proof -
  have formula: "grown (ce_page env) w (case write_formula (ce_page env) (Some box) t kBodyRef w of (item, w1) \<Rightarrow> set_orig item body w1)" for t
    using orig_grown [OF grown_written [OF formula_writer.writes [OF assms body_ok surjective_pairing]]]
    by (simp add: case_prod_beta')
  have written: "grown (ce_page env) w (snd (write_code (ce_page env) (Some box) body [] kBodyRef w))"
    using grown_written [OF code_writer.writes [OF assms body_ok surjective_pairing]] by blast
  have "grown (ce_page env) w (rich_text env body (v35_label label) (Some box) None w)"
    by (rule rich_text_grown [OF assms]) simp
  with assms formula written show ?thesis
    by (simp add: v35_write_def latex_table_grown chart_grown v35_picture_grown dots_heading_grown)
qed

definition v35_ok :: "chandra_env \<Rightarrow> v35_state \<Rightarrow> bool" where
  "v35_ok env st \<longleftrightarrow> writer_ok (ce_page env) (vs_writer st)
     \<and> (\<forall>l. vs_list st = Some l \<longrightarrow> parent_ok (vs_writer st) (Some l))
     \<and> (\<forall>t. vs_toc st = Some t \<longrightarrow> parent_ok (vs_writer st) (Some t))"

lemma v35_element_ok:
  assumes "v35_ok env st"
  shows "v35_ok env (v35_element env ib st)"
proof -
  obtain index b where ib: "ib = (index, b)" by (metis surj_pair)
  have ok: "writer_ok (ce_page env) (vs_writer st)" using assms by (simp add: v35_ok_def)
  have item: "grown (ce_page env) (vs_writer st) (snd (v35_list_item env (vs_list st) box body (vs_writer st)))
      \<and> parent_ok (snd (v35_list_item env (vs_list st) box body (vs_writer st)))
          (Some (fst (v35_list_item env (vs_list st) box body (vs_writer st))))" for box body
    using assms by (intro v35_list_item_grown [OF ok _ surjective_pairing]) (simp add: v35_ok_def)
  have toc: "grown (ce_page env) (vs_writer st) (snd (v35_toc env (vs_toc st) box body (vs_writer st)))
      \<and> parent_ok (snd (v35_toc env (vs_toc st) box body (vs_writer st)))
          (Some (fst (v35_toc env (vs_toc st) box body (vs_writer st))))" for box body
    using assms by (intro v35_toc_grown [OF ok _ surjective_pairing]) (simp add: v35_ok_def)
  have other: "writer_ok (ce_page env) (v35_write env label box body (vs_writer st))" for label box body
    using v35_write_grown [OF ok] by (rule grown_ok)
  consider "vb_label b = ''List-item''" | "vb_label b = ''TOC''" | "vb_label b \<noteq> ''List-item''" "vb_label b \<noteq> ''TOC''" by blast
  then show ?thesis
  proof cases
    case 1 then show ?thesis
      using item grown_ok [OF conjunct1 [OF item]] by (simp add: ib v35_element_def v35_ok_def Let_def case_prod_beta')
  next
    case 2 then show ?thesis
      using toc grown_ok [OF conjunct1 [OF toc]] by (simp add: ib v35_element_def v35_ok_def Let_def case_prod_beta')
  next
    case 3 then show ?thesis
      using other by (simp add: ib v35_element_def v35_ok_def Let_def)
  qed
qed

lemma v35_writer_ok: "writer_ok (ce_page env) (v35_writer env body)"
proof -
  have "v35_ok env (fold (v35_element env) bs st)" if "v35_ok env st" for bs st
    using that by (induction bs arbitrary: st) (simp_all add: v35_element_ok)
  then have "v35_ok env (fold (v35_element env) (List.enumerate 0 (nemotron_v35_blocks (ce_dbl env) body))
      \<lparr>vs_list = None, vs_toc = None, vs_starts = [], vs_captions = [], vs_writer = new_writer (ce_page env)\<rparr>)"
    by (simp add: v35_ok_def new_writer_ok)
  then show ?thesis by (simp add: v35_writer_def Let_def v35_ok_def adjacent_linker.edits)
qed

lemma add_new_distinct: "distinct blocks \<Longrightarrow> distinct (add_new b blocks)"
  by (simp add: add_new_def)

lemma v35_blocks_distinct: "distinct (nemotron_v35_blocks dbl content)"
proof -
  have "distinct blocks \<Longrightarrow> distinct (fold add_new bs blocks)" for bs blocks
    by (induction bs arbitrary: blocks) (simp_all add: add_new_distinct)
  then show ?thesis by (simp add: nemotron_v35_blocks_def)
qed

text \<open>
  Both Nemotron mappers return a document for every answer, a page whose items are one tree
  under the body with the page's provenance; and version 3.5 takes a repeated block once.
\<close>

theorem nemotron_page:
  "(\<exists>doc warnings. map_nemotron_parse_v2 env body = Inr (doc, warnings) \<and> page_tree (ce_page env) doc)
   \<and> (\<exists>doc warnings. map_nemotron_parse_v3_5 env body = Inr (doc, warnings) \<and> page_tree (ce_page env) doc)
   \<and> distinct (nemotron_v35_blocks (ce_dbl env) body)"
proof -
  obtain d2 ws2 where "finish (ce_page env) ''Nemotron Parse'' True (v2_writer env body) = Inr (d2, ws2)" "page_tree (ce_page env) d2"
    using finish_allowed [OF v2_writer_ok] .
  moreover obtain d3 ws3 where "finish (ce_page env) ''Nemotron Parse 3.5'' True (v35_writer env body) = Inr (d3, ws3)"
      "page_tree (ce_page env) d3"
    using finish_allowed [OF v35_writer_ok] .
  ultimately show ?thesis
    by (simp add: map_nemotron_parse_v2_def map_nemotron_parse_v3_5_def v35_blocks_distinct)
qed

section \<open>Regions read back\<close>

text \<open>
  A coordinate the way the model writes it: a whole number, and the digits of a fraction behind
  a point when there are any; and the number it stands for.
\<close>

type_synonym coordinate = "nat \<times> nat list"

definition coord_text :: "coordinate \<Rightarrow> string" where
  "coord_text c =
     (case c of (whole, fraction) \<Rightarrow>
        show_nat whole @ (if fraction = [] then [] else CHR ''.'' # map (\<lambda>d. char_of (48 + d)) fraction))"

definition coord_value :: "coordinate \<Rightarrow> real" where
  "coord_value c =
     (case c of (whole, fraction) \<Rightarrow> real whole + (\<Sum>i < length fraction. real (fraction ! i) / 10 ^ (i + 1)))"

definition coord_ok :: "(real \<Rightarrow> real option) \<Rightarrow> coordinate \<Rightarrow> bool" where
  "coord_ok dbl c \<longleftrightarrow> (\<forall>d \<in> set (snd c). d < 10) \<and> dbl (coord_value c) \<noteq> None"

lemma digit_chars: "d < 10 \<Longrightarrow> is_digit (char_of (48 + d))" "d < 10 \<Longrightarrow> digit_value (char_of (48 + d)) = d"
  by (simp_all add: is_digit_char_of digit_value_def code_def)

lemma digits_shift:
  assumes "\<forall>d \<in> set ds. d < 10"
  shows "real (digits_value (s @ map (\<lambda>d. char_of (48 + d)) ds)) / 10 ^ length ds
    = real (digits_value s) + (\<Sum>i < length ds. real (ds ! i) / 10 ^ (i + 1))"
  using assms
proof (induction ds rule: rev_induct)
  case (snoc d ds)
  let ?m = "map (\<lambda>d. char_of (48 + d)) ds"
  have "digits_value (s @ map (\<lambda>d. char_of (48 + d)) (ds @ [d])) = 10 * digits_value (s @ ?m) + d"
    using digits_value_snoc [of "s @ ?m"] digit_chars(2) [of d] snoc.prems by simp
  then have "real (digits_value (s @ map (\<lambda>d. char_of (48 + d)) (ds @ [d]))) / 10 ^ length (ds @ [d])
      = real (digits_value (s @ ?m)) / 10 ^ length ds + real d / 10 ^ (length ds + 1)"
    by (simp add: add_divide_distrib)
  also have "\<dots> = real (digits_value s) + (\<Sum>i < length (ds @ [d]). real ((ds @ [d]) ! i) / 10 ^ (i + 1))"
    using snoc by (simp add: nth_append)
  finally show ?case .
qed simp

text \<open>A number that is read for what it stands for, whatever was there before it.\<close>

definition reads :: "(real \<Rightarrow> real option) \<Rightarrow> string \<Rightarrow> real \<Rightarrow> bool" where
  "reads dbl n v \<longleftrightarrow> (\<forall>old rest. read_number dbl old (n @ CHR ''>'' # rest) = Some (v, CHR ''>'' # rest))"

lemma coord_reads:
  assumes "coord_ok dbl c"
  shows "reads dbl (coord_text c) (the (dbl (coord_value c)))"
proof -
  obtain m ds where c: "c = (m, ds)" by fastforce
  let ?f = "map (\<lambda>d. char_of (48 + d)) ds"
  have marks: "\<not> is_digit (CHR ''>'')" "\<not> is_digit (CHR ''.'')" by code_simp+
  have ds: "\<forall>d \<in> set ds. d < 10" using assms by (simp add: coord_ok_def c)
  have m: "list_all is_digit (show_nat m)" by (rule show_nat_digits)
  have f: "list_all is_digit ?f" using ds by (auto simp: list_all_iff digit_chars(1))
  have cut: "takeWhile is_digit (n @ x # rest) = n" "dropWhile is_digit (n @ x # rest) = x # rest"
    if "list_all is_digit n" "\<not> is_digit x" for n x rest
    using that by (auto simp: list_all_iff takeWhile_tail dropWhile_append3)
  have all: "takeWhile is_digit n = n" "dropWhile is_digit n = []" if "list_all is_digit n" for n
    using that by (simp_all add: list_all_iff takeWhile_all dropWhile_all)
  have v: "real (digits_value (show_nat m @ ?f)) / 10 ^ length ds = coord_value c"
    using digits_shift [OF ds, of "show_nat m"] by (simp add: c coord_value_def digits_value_show_nat)
  obtain w where w: "dbl (coord_value c) = Some w" using assms by (auto simp: coord_ok_def)
  show ?thesis
  proof (cases ds)
    case Nil
    then have "decimal (show_nat m) = Some (coord_value c)" using v by (simp add: decimal_def all [OF m])
    with Nil w show ?thesis by (auto simp: reads_def coord_text_def c read_number_def cut [OF m] marks Let_def split: list.split)
  next
    case (Cons d ds')
    then have ne: "?f \<noteq> []" "is_digit (hd ?f)" and f': "list_all is_digit (map (\<lambda>d. char_of (48 + d)) ds')" using f by auto
    have "decimal (show_nat m @ ''.'' @ ?f) = Some (coord_value c)"
      using v f ne by (simp add: decimal_def cut [OF m] marks)
    moreover have "read_number dbl old ((show_nat m @ CHR ''.'' # ?f) @ CHR ''>'' # rest)
        = Some (case Option.bind (decimal (show_nat m @ ''.'' @ ?f)) dbl of None \<Rightarrow> old | Some v \<Rightarrow> v, CHR ''>'' # rest)" for old rest
      using ne Cons by (simp add: read_number_def cut [OF m] cut [OF f'] marks Let_def split: option.split)
    ultimately show ?thesis using w Cons by (simp add: reads_def coord_text_def c)
  qed
qed

text \<open>A region the way the model writes it.\<close>

record written_region =
  wr_x1 :: coordinate
  wr_y1 :: coordinate
  wr_text :: string
  wr_x2 :: coordinate
  wr_y2 :: coordinate
  wr_label :: string

definition region_text :: "written_region \<Rightarrow> string" where
  "region_text r =
     ''<x_'' @ coord_text (wr_x1 r) @ ''><y_'' @ coord_text (wr_y1 r) @ ''>'' @ wr_text r
     @ ''<x_'' @ coord_text (wr_x2 r) @ ''><y_'' @ coord_text (wr_y2 r) @ ''><class_'' @ wr_label r @ ''>''"

definition region_ok :: "(real \<Rightarrow> real option) \<Rightarrow> written_region \<Rightarrow> bool" where
  "region_ok dbl r \<longleftrightarrow>
     coord_ok dbl (wr_x1 r) \<and> coord_ok dbl (wr_y1 r) \<and> coord_ok dbl (wr_x2 r) \<and> coord_ok dbl (wr_y2 r)
     \<and> \<not> sublist ''<x_'' (wr_text r) \<and> wr_label r \<noteq> [] \<and> CHR ''>'' \<notin> set (wr_label r)"

definition region_meant :: "(real \<Rightarrow> real option) \<Rightarrow> written_region \<Rightarrow> region" where
  "region_meant dbl r =
     \<lparr>rg_x1 = the (dbl (coord_value (wr_x1 r))), rg_y1 = the (dbl (coord_value (wr_y1 r))),
      rg_x2 = the (dbl (coord_value (wr_x2 r))), rg_y2 = the (dbl (coord_value (wr_y2 r))),
      rg_text = wr_text r, rg_label = (if wr_label r = ''Inline-formula'' then ''Formula'' else wr_label r)\<rparr>"

lemma coord_token_reads:
  assumes "reads dbl xs x" and "reads dbl ys y"
  shows "coord_token dbl a b (''<x_'' @ xs @ ''><y_'' @ ys @ ''>'' @ rest) = (Some rest, x, y)"
  using assms by (simp add: coord_token_def reads_def)

lemma class_token_reads:
  assumes "label \<noteq> []" and "CHR ''>'' \<notin> set label"
  shows "class_token (''<class_'' @ label @ ''>'' @ rest) = Some (label, rest)"
proof -
  have "takeWhile (\<lambda>c. c \<noteq> CHR ''>'') (label @ CHR ''>'' # rest) = label"
    "dropWhile (\<lambda>c. c \<noteq> CHR ''>'') (label @ CHR ''>'' # rest) = CHR ''>'' # rest"
    using assms(2) by (auto simp: takeWhile_tail dropWhile_append3)
  then show ?thesis using assms(1) by (simp add: class_token_def find_sub_single)
qed

lemma first_coord: "find_sub ''<x_'' inner = None \<Longrightarrow> find_sub ''<x_'' (inner @ ''<x_'' @ rest) = Some (inner, rest)"
proof (induction inner)
  case (Cons c inner)
  have "\<not> prefix ''<x_'' (c # inner @ ''<x_'' @ rest)"
    using Cons.prems by (cases inner rule: remdups_adj.cases) (auto split: if_splits)
  moreover have "find_sub ''<x_'' inner = None" using Cons.prems by (auto split: if_splits option.splits)
  ultimately show ?case using Cons.IH by simp
qed simp

lemma v2_close_reads:
  assumes "find_sub ''<x_'' inner = None" and "reads dbl xs x" and "reads dbl ys y" and "label \<noteq> []" and "CHR ''>'' \<notin> set label"
  shows "v2_close dbl a b lead (inner @ ''<x_'' @ xs @ ''><y_'' @ ys @ ''><class_'' @ label @ ''>'' @ rest)
           = Some (lead @ inner, x, y, label, rest)"
proof -
  let ?after = "xs @ ''><y_'' @ ys @ ''>'' @ ''<class_'' @ label @ ''>'' @ rest"
  have "find_sub ''<x_'' (inner @ ''<x_'' @ ?after) = Some (inner, ?after)" by (rule first_coord [OF assms(1)])
  moreover have "coord_token dbl a b (''<x_'' @ ?after) = (Some (''<class_'' @ label @ ''>'' @ rest), x, y)"
    by (rule coord_token_reads [OF assms(2,3)])
  moreover have "class_token (''<class_'' @ label @ ''>'' @ rest) = Some (label, rest)" by (rule class_token_reads [OF assms(4,5)])
  ultimately show ?thesis by (subst v2_close.simps) simp
qed

lemma region_read:
  assumes "region_ok dbl r"
  shows "nemotron_v2_regions dbl (region_text r @ rest) = region_meant dbl r # nemotron_v2_regions dbl rest"
proof -
  let ?tail = "wr_text r @ ''<x_'' @ coord_text (wr_x2 r) @ ''><y_'' @ coord_text (wr_y2 r) @ ''><class_'' @ wr_label r @ ''>'' @ rest"
  have head: "region_text r @ rest = ''<x_'' @ coord_text (wr_x1 r) @ ''><y_'' @ coord_text (wr_y1 r) @ ''>'' @ ?tail"
    by (simp add: region_text_def)
  have ok: "coord_ok dbl (wr_x1 r)" "coord_ok dbl (wr_y1 r)" "coord_ok dbl (wr_x2 r)" "coord_ok dbl (wr_y2 r)"
    "\<not> sublist ''<x_'' (wr_text r)" "wr_label r \<noteq> []" "CHR ''>'' \<notin> set (wr_label r)"
    using assms by (simp_all add: region_ok_def)
  note opened = coord_token_reads [OF coord_reads [OF ok(1)] coord_reads [OF ok(2)], of 0 0 ?tail]
  note closed = v2_close_reads [OF find_sub_None [THEN iffD2, OF ok(5)] coord_reads [OF ok(3)] coord_reads [OF ok(4)] ok(6,7), of 0 0 "[]" rest]
  have "find_sub ''<x_'' (''<x_'' @ t) = Some ([], t)" for t by simp
  then show ?thesis
    unfolding head using opened closed by (subst nemotron_v2_regions.simps) (simp add: region_meant_def)
qed

text \<open>
  C32: version 2.0 reads back what the model wrote.  Take regions written one after the other, with
  coordinates as decimal numerals, a fraction or none, each with a double near it, with bodies
  that hold no coordinate token and labels that are not empty and hold no closing bracket:
  the regions read are these in order, every coordinate the double nearest to its value, the
  body and the label as written, and inline formulas as formulas.
\<close>

theorem nemotron_regions_read_back:
  assumes "\<forall>r \<in> set rs. region_ok dbl r"
  shows "nemotron_v2_regions dbl (concat (map region_text rs)) = map (region_meant dbl) rs"
  using assms
proof (induction rs)
  case Nil
  show ?case by (subst nemotron_v2_regions.simps) simp
qed (simp add: region_read)

theorem nemotron_regions_read_back_witness:
  "nemotron_v2_regions Some ''<x_0.25><y_0>a<x_0.5><y_1><class_Inline-formula>''
     = [\<lparr>rg_x1 = 1 / 4, rg_y1 = 0, rg_x2 = 1 / 2, rg_y2 = 1, rg_text = ''a'', rg_label = ''Formula''\<rparr>]"
proof -
  let ?r = "\<lparr>wr_x1 = (0, [2, 5]), wr_y1 = (0, []), wr_text = ''a'', wr_x2 = (0, [5]), wr_y2 = (1, []),
    wr_label = ''Inline-formula''\<rparr>"
  have "\<forall>r \<in> set [?r]. region_ok Some r" by (simp add: region_ok_def coord_ok_def sublist_code)
  moreover have "concat (map region_text [?r]) = ''<x_0.25><y_0>a<x_0.5><y_1><class_Inline-formula>''" by code_simp
  ultimately show ?thesis
    using nemotron_regions_read_back [of "[?r]" Some]
    by (simp add: region_meant_def coord_value_def numeral_2_eq_2)
qed

end
