(* ===== verification/Doclang.thy ===== *)
theory Doclang
  imports Chandra
begin

text \<open>
  \<^verbatim>\<open>src/mapping/doclang.cpp\<close>: DocLang XML.  The heads of the elements, their texts, lists, tables and
  floats, and the walk that writes them.
\<close>

section \<open>Small readers\<close>

definition kHeadTags :: "string list" where
  "kHeadTags = [''location'', ''layer'', ''label'', ''thread'', ''custom'', ''hour'', ''minute'', ''second'', ''centisecond'']"

definition kFormatTags :: "string list" where
  "kFormatTags = [''bold'', ''italic'', ''underline'', ''strikethrough'', ''subscript'', ''superscript'']"

definition kOtslTokens :: "string list" where
  "kOtslTokens = [''fcel'', ''ecel'', ''lcel'', ''ucel'', ''xcel'', ''nl'', ''ched'', ''rhed'', ''srow'', ''corn'']"

definition blank :: "string \<Rightarrow> bool" where
  "blank t \<longleftrightarrow> list_all is_trim_char t"

text \<open>\<^verbatim>\<open>std::from_chars\<close> to an \<^verbatim>\<open>int\<close> of 32 bits, all of the text.\<close>

definition parse_int :: "string \<Rightarrow> int option" where
  "parse_int body =
     (let t = trim body; negative = starts_with t ''-''; ds = (if negative then tl t else t);
          number = (if negative then - int (digits_value ds) else int (digits_value ds))
      in if ds = [] \<or> \<not> list_all is_digit ds \<or> number < - (2 ^ 31) \<or> 2 ^ 31 - 1 < number then None else Some number)"

definition merge_format :: "string \<Rightarrow> formatting \<Rightarrow> formatting" where
  "merge_format tag f =
     (if tag = ''bold'' then f\<lparr>fm_bold := True\<rparr>
      else if tag = ''italic'' then f\<lparr>fm_italic := True\<rparr>
      else if tag = ''underline'' then f\<lparr>fm_underline := True\<rparr>
      else if tag = ''strikethrough'' then f\<lparr>fm_strikethrough := True\<rparr>
      else if tag = ''subscript'' then f\<lparr>fm_script := SCRIPT_SUB\<rparr>
      else if tag = ''superscript'' then f\<lparr>fm_script := SCRIPT_SUPER\<rparr>
      else f)"

definition layer_of :: "string \<Rightarrow> content_layer option" where
  "layer_of = map_of
     [(''body'', CONTENT_LAYER_BODY), (''furniture'', CONTENT_LAYER_FURNITURE),
      (''background'', CONTENT_LAYER_BACKGROUND), (''invisible'', CONTENT_LAYER_INVISIBLE),
      (''notes'', CONTENT_LAYER_NOTES)]"

record resolution =
  res_w :: real
  res_h :: real
  res_one :: int

definition default_resolution :: resolution where
  "default_resolution = \<lparr>res_w = 512, res_h = 512, res_one = 512\<rparr>"

definition set_resolution :: "markup_node \<Rightarrow> resolution" where
  "set_resolution tree =
     (case find_element ''default_resolution'' tree of
        None \<Rightarrow> default_resolution
      | Some r \<Rightarrow>
          (case (parse_int (node_attr ''width'' ''0'' r), parse_int (node_attr ''height'' ''0'' r)) of
             (Some width, Some height) \<Rightarrow>
               \<lparr>res_w = (if 0 < width then of_int width else 512), res_h = (if 0 < height then of_int height else 512),
                res_one = (if 0 < width then width else 512)\<rparr>
           | _ \<Rightarrow> default_resolution))"

section \<open>Element heads\<close>

definition is_head :: "markup_node \<Rightarrow> bool" where
  "is_head node \<longleftrightarrow> \<not> is_text node \<and> mn_tag node \<in> set kHeadTags"

definition is_blank_node :: "markup_node \<Rightarrow> bool" where
  "is_blank_node node \<longleftrightarrow> is_text node \<and> blank (mn_text node)"

text \<open>Blank text and head elements lead an element; its body begins with the first other node.\<close>

definition head_nodes :: "markup_node \<Rightarrow> markup_node list" where
  "head_nodes el = filter is_head (takeWhile (\<lambda>n. is_blank_node n \<or> is_head n) (mn_children el))"

definition skip_head :: "markup_node list \<Rightarrow> markup_node list" where
  "skip_head nodes = dropWhile (\<lambda>n. is_blank_node n \<or> is_head n) nodes"

definition body_nodes :: "markup_node \<Rightarrow> markup_node list" where
  "body_nodes el = skip_head (mn_children el)"

definition int_or :: "int \<Rightarrow> int option \<Rightarrow> int" where
  "int_or d v = (case v of None \<Rightarrow> d | Some n \<Rightarrow> n)"

text \<open>The box of a run of nodes: of the first four locations.\<close>

definition quartet_box :: "chandra_env \<Rightarrow> real \<Rightarrow> real \<Rightarrow> real list \<Rightarrow> bounding_box" where
  "quartet_box env rx ry vs =
     (let page = ce_page env; rnd = ce_rnd env
      in scaled_box rnd page (min (vs ! 0) (vs ! 2)) (min (vs ! 1) (vs ! 3)) (max (vs ! 0) (vs ! 2)) (max (vs ! 1) (vs ! 3))
           (if 0 < rx then rnd (real (pg_width page) / rx) else 1) (if 0 < ry then rnd (real (pg_height page) / ry) else 1))"

fun box_scan :: "chandra_env \<Rightarrow> resolution \<Rightarrow> real list \<Rightarrow> real \<Rightarrow> real \<Rightarrow> markup_node list \<Rightarrow> bounding_box option" where
  "box_scan env res values rx ry [] = None"
| "box_scan env res values rx ry (n # ns) =
     (if is_text n \<or> mn_tag n \<noteq> ''location'' then box_scan env res values rx ry ns
      else let values' = values @ [of_int (int_or 0 (parse_int (node_attr ''value'' ''0'' n)))];
               r = of_int (int_or (res_one res) (parse_int (node_attr ''resolution'' [] n)));
               (rx', ry') = (if has_attr ''resolution'' n then (r, r) else (rx, ry))
           in if length values' = 4 then Some (quartet_box env rx' ry' values')
              else box_scan env res values' rx' ry' ns)"

definition box_of :: "chandra_env \<Rightarrow> resolution \<Rightarrow> markup_node list \<Rightarrow> bounding_box option" where
  "box_of env res nodes = box_scan env res [] (res_w res) (res_h res) nodes"

definition head_box :: "chandra_env \<Rightarrow> resolution \<Rightarrow> markup_node \<Rightarrow> bounding_box option" where
  "head_box env res el = box_of env res (head_nodes el)"

definition head_layer :: "markup_node \<Rightarrow> content_layer option" where
  "head_layer el =
     (case filter (\<lambda>n. mn_tag n = ''layer'') (head_nodes el) of
        [] \<Rightarrow> None | n # _ \<Rightarrow> layer_of (node_attr ''value'' [] n))"

definition head_label :: "markup_node \<Rightarrow> string" where
  "head_label el =
     (case filter (\<lambda>n. mn_tag n = ''label'') (head_nodes el) of
        [] \<Rightarrow> [] | n # _ \<Rightarrow> node_attr ''value'' [] n)"

definition apply_layer :: "body_child \<Rightarrow> markup_node \<Rightarrow> writer \<Rightarrow> writer" where
  "apply_layer ref el w = (case head_layer el of None \<Rightarrow> w | Some layer \<Rightarrow> set_content_layer ref layer w)"

section \<open>Texts\<close>

fun get_text :: "markup_node \<Rightarrow> string" where
  "get_text (MarkupNode tag t attrs cs) =
     concat (map (\<lambda>c.
       if is_text c then (if blank (mn_text c) then [] else if tag = ''content'' then mn_text c else trim (mn_text c))
       else if mn_tag c = ''location'' \<or> mn_tag c = ''custom'' then []
       else if mn_tag c = ''br'' then [LF]
       else get_text c) cs)"

definition kSimple :: "string list" where
  "kSimple = [''location'', ''layer'', ''label'', ''br'', ''bold'', ''italic'', ''underline'', ''strikethrough'',
     ''subscript'', ''superscript'', ''rtl'', ''handwriting'', ''checkbox'', ''content'']"

text \<open>One more run of text: a second one makes the element not simple.\<close>

definition one_run :: "string \<Rightarrow> string option \<Rightarrow> string option option" where
  "one_run t found = (case found of None \<Rightarrow> Some (Some t) | Some _ \<Rightarrow> None)"

text \<open>The fold stops at the first return: no value stands for it.\<close>

fun simple_text :: "markup_node \<Rightarrow> string option" where
  "simple_text (MarkupNode tag t attrs cs) =
     (case fold (\<lambda>c state. case state of
          None \<Rightarrow> None
        | Some found \<Rightarrow>
            if \<not> is_text c
            then (if mn_tag c \<in> set kHeadTags then Some found
                  else if mn_tag c \<notin> set kSimple then None
                  else case simple_text c of
                    Some inner \<Rightarrow>
                      if inner \<noteq> [] then one_run inner found
                      else if \<not> blank (get_text c) then None else Some found
                  | None \<Rightarrow> if \<not> blank (get_text c) then None else Some found)
            else if \<not> blank (mn_text c)
            then one_run (if tag = ''content'' then mn_text c else trim (mn_text c)) found
            else Some found) cs (Some None) of
        None \<Rightarrow> None
      | Some found \<Rightarrow> found)"

definition empty_block :: "markup_node \<Rightarrow> bool" where
  "empty_block el \<longleftrightarrow> list_all (\<lambda>c. if is_text c then blank (mn_text c) else mn_tag c \<in> set kHeadTags) (mn_children el)"

lemma child_size: "c \<in> set (mn_children n) \<Longrightarrow> node_size c < node_size n"
  using member_le_sum_list [of "node_size c" "map node_size (mn_children n)"]
  by (simp add: node_size_children [of n] nodes_size_def)

lemma filter_member: "filter P xs = x # ys \<Longrightarrow> x \<in> set xs"
  by (drule arg_cong [of _ _ set]) auto

text \<open>The text, the formatting gathered, and whether there was any.\<close>

function text_with_formatting :: "markup_node \<Rightarrow> formatting \<Rightarrow> string \<times> formatting \<times> bool" where
  "text_with_formatting el f =
     (case filter (\<lambda>c. \<not> is_text c \<and> mn_tag c \<noteq> ''location'') (mn_children el) of
        [e] \<Rightarrow>
          if mn_tag e \<in> set kFormatTags \<or> mn_tag e = ''rtl''
          then (case text_with_formatting e f of (t, f', _) \<Rightarrow> (t, merge_format (mn_tag e) f', True))
          else (get_text el, f, False)
      | _ \<Rightarrow> (get_text el, f, False))"
  by pat_completeness auto

termination
  by (relation "measure (\<lambda>(el, _). node_size el)") (auto dest!: filter_member child_size)

declare text_with_formatting.simps [simp del]

definition text_label :: "string \<Rightarrow> doc_item_label option" where
  "text_label = map_of
     [(''text'', DOC_ITEM_LABEL_TEXT), (''caption'', DOC_ITEM_LABEL_CAPTION), (''footnote'', DOC_ITEM_LABEL_FOOTNOTE),
      (''page_header'', DOC_ITEM_LABEL_PAGE_HEADER), (''page_footer'', DOC_ITEM_LABEL_PAGE_FOOTER),
      (''bold'', DOC_ITEM_LABEL_TEXT), (''italic'', DOC_ITEM_LABEL_TEXT), (''underline'', DOC_ITEM_LABEL_TEXT),
      (''strikethrough'', DOC_ITEM_LABEL_TEXT), (''subscript'', DOC_ITEM_LABEL_TEXT),
      (''superscript'', DOC_ITEM_LABEL_TEXT), (''rtl'', DOC_ITEM_LABEL_TEXT), (''content'', DOC_ITEM_LABEL_TEXT)]"


definition kHosts :: "string list" where
  "kHosts = [''text'', ''caption'', ''footnote'', ''page_header'', ''page_footer'']"

definition element_children :: "markup_node \<Rightarrow> markup_node list" where
  "element_children el = filter (\<lambda>c. \<not> is_text c \<and> mn_tag c \<notin> set kHeadTags) (mn_children el)"

definition is_empty :: "markup_node \<Rightarrow> bool" where
  "is_empty el \<longleftrightarrow> simple_text el = None \<and> empty_block el"

definition runs_inside :: "markup_node \<Rightarrow> bool" where
  "runs_inside el \<longleftrightarrow> \<not> is_empty el \<and> (1 < length (element_children el) \<or> simple_text el = None)"

definition own_formatting :: "markup_node \<Rightarrow> formatting option" where
  "own_formatting el = (if mn_tag el \<in> set kFormatTags then Some (merge_format (mn_tag el) no_formatting) else None)"

definition layer_subtree :: "nat \<Rightarrow> nat \<Rightarrow> markup_node \<Rightarrow> writer \<Rightarrow> writer" where
  "layer_subtree texts_before groups_before el w =
     (case head_layer el of
        None \<Rightarrow> w
      | Some layer \<Rightarrow>
          let w1 = fold (\<lambda>i. set_content_layer (TEXT, i) layer) [texts_before..<text_count w] w
          in fold (\<lambda>i. set_content_layer (GROUP, i) layer) [groups_before..<group_count w1] w1)"

definition code_body :: "markup_node \<Rightarrow> string" where
  "code_body el =
     concat (map (\<lambda>c.
       if is_text c then (if blank (mn_text c) then [] else mn_text c)
       else if mn_tag c \<in> {''location'', ''layer'', ''label'', ''caption''} then []
       else if mn_tag c = ''br'' then [LF]
       else get_text c) (mn_children el))"

text \<open>The first child that is handwriting or a ticked or unticked box decides the label.\<close>

fun marked_label :: "doc_item_label \<Rightarrow> markup_node list \<Rightarrow> doc_item_label" where
  "marked_label label [] = label"
| "marked_label label (c # cs) =
     (if mn_tag c = ''handwriting'' then DOC_ITEM_LABEL_HANDWRITTEN_TEXT
      else if mn_tag c = ''checkbox'' \<and> node_attr ''class'' [] c = ''selected'' then DOC_ITEM_LABEL_CHECKBOX_SELECTED
      else if mn_tag c = ''checkbox'' \<and> node_attr ''class'' [] c = ''unselected'' then DOC_ITEM_LABEL_CHECKBOX_UNSELECTED
      else marked_label label cs)"

text \<open>The end of \<^verbatim>\<open>text_like\<close>: a formula, or one text item.\<close>

definition plain_item :: "chandra_env \<Rightarrow> resolution \<Rightarrow> markup_node \<Rightarrow> lref \<Rightarrow> writer \<Rightarrow> writer" where
  "plain_item env res el parent w =
     (let page = ce_page env; box = head_box env res el; tag = mn_tag el;
          (t, f, formatted) = text_with_formatting el no_formatting
      in if tag = ''formula''
         then (case write_formula page box t parent w of (item, w1) \<Rightarrow> apply_layer item el w1)
         else case text_label tag of
           None \<Rightarrow> w
         | Some label \<Rightarrow>
             let own = tag \<in> set kFormatTags; f' = (if own then merge_format tag f else f);
                 label' = (if tag = ''text'' then marked_label label (element_children el) else label);
                 (item, w1) = write_styled_text page label' box t (if formatted \<or> own then Some f' else None) [] parent w
             in apply_layer item el w1)"

text \<open>
  \<^verbatim>\<open>level - 1\<close> of 32 bits: the least number wraps around, where C++ leaves it undefined.
\<close>

definition level_below :: "int \<Rightarrow> int" where
  "level_below level = (level - 1 + 2 ^ 31) mod 2 ^ 32 - 2 ^ 31"

definition dl_heading :: "chandra_env \<Rightarrow> resolution \<Rightarrow> markup_node \<Rightarrow> lref \<Rightarrow> writer \<Rightarrow> writer" where
  "dl_heading env res el parent w =
     (let level = int_or 1 (parse_int (node_attr ''level'' ''1'' el)); t = trim (get_text el);
          page = ce_page env; box = head_box env res el
      in if t = [] then w
         else let (item, w1) = (if level = 1 then write_title page box t parent w
                                else write_heading page (level_below level) box t parent w)
              in apply_layer item el w1)"

section \<open>Lists\<close>

definition is_ldiv :: "markup_node \<Rightarrow> bool" where
  "is_ldiv c \<longleftrightarrow> \<not> is_text c \<and> mn_tag c = ''ldiv''"

text \<open>Items run from each \<^verbatim>\<open><ldiv>\<close> to the next.\<close>

fun list_segments :: "markup_node list \<Rightarrow> (markup_node \<times> markup_node list) list" where
  "list_segments [] = []"
| "list_segments (c # cs) =
     (if is_ldiv c then (c, takeWhile (\<lambda>n. \<not> is_ldiv n) cs) # list_segments cs else list_segments cs)"

definition ldiv_marker :: "markup_node \<Rightarrow> string" where
  "ldiv_marker ldiv =
     (case filter (\<lambda>c. \<not> is_text c \<and> mn_tag c = ''marker'') (mn_children ldiv) of [] \<Rightarrow> [] | c # _ \<Rightarrow> trim (get_text c))"

definition kBlocks :: "string list" where
  "kBlocks = [''text'', ''heading'', ''list'', ''group'', ''table'', ''index'', ''picture'', ''code'', ''formula'',
     ''caption'', ''footnote'', ''page_header'', ''page_footer'']"

definition leads :: "markup_node \<Rightarrow> bool" where
  "leads n \<longleftrightarrow> is_text n \<or> mn_tag n = ''content''"

definition leading_text :: "markup_node list \<Rightarrow> string" where
  "leading_text content =
     trim (concat (map (\<lambda>n. if is_text n then mn_text n else get_text n) (takeWhile leads content)))"

definition only_nested :: "markup_node list \<Rightarrow> bool" where
  "only_nested content \<longleftrightarrow>
     list_all (\<lambda>n. if is_text n then blank (mn_text n) else mn_tag n = ''list'' \<or> mn_tag n = ''picture'')
       (dropWhile leads content)"

definition element_nodes :: "markup_node list \<Rightarrow> markup_node list" where
  "element_nodes nodes = filter (\<lambda>n. \<not> is_text n) nodes"

section \<open>Floats\<close>

definition first_child :: "string \<Rightarrow> markup_node \<Rightarrow> markup_node option" where
  "first_child tag el =
     (case filter (\<lambda>c. \<not> is_text c \<and> mn_tag c = tag) (mn_children el) of [] \<Rightarrow> None | c # _ \<Rightarrow> Some c)"

definition is_float :: "markup_node \<Rightarrow> bool" where
  "is_float c \<longleftrightarrow> mn_tag c \<in> {''picture'', ''table'', ''index'', ''code''}"

definition float_host :: "markup_node \<Rightarrow> markup_node option" where
  "float_host el =
     (let elements = element_nodes (mn_children el)
      in if list_ex (\<lambda>c. \<not> is_float c \<and> mn_tag c \<notin> {''text'', ''footnote'', ''caption''}) elements then None
         else case filter is_float elements of [h] \<Rightarrow> Some h | _ \<Rightarrow> None)"

fun satellites ::
  "chandra_env \<Rightarrow> resolution \<Rightarrow> markup_node list \<Rightarrow> writer \<Rightarrow> body_child list \<times> body_child list \<times> writer" where
  "satellites env res [] w = ([], [], w)"
| "satellites env res (c # cs) w =
     (let t = trim (get_text c); caption = (mn_tag c = ''text'')
      in if is_text c \<or> (mn_tag c \<noteq> ''text'' \<and> mn_tag c \<noteq> ''footnote'') \<or> t = [] then satellites env res cs w
         else let (item, w1) = write_styled_text (ce_page env)
                    (if caption then DOC_ITEM_LABEL_CAPTION else DOC_ITEM_LABEL_FOOTNOTE)
                    (head_box env res c) t None [] kBodyRef w;
                  (captions, footnotes, w2) = satellites env res cs w1
              in if caption then (item # captions, footnotes, w2) else (captions, item # footnotes, w2))"

definition attach :: "body_child \<Rightarrow> body_child list \<Rightarrow> body_child list \<Rightarrow> writer \<Rightarrow> writer" where
  "attach owner captions footnotes w = fold (link_footnote owner) footnotes (fold (link_caption owner) captions w)"

section \<open>Tables\<close>

definition otsl_token_of :: "markup_node \<Rightarrow> string" where
  "otsl_token_of n = (if \<not> is_text n \<and> mn_tag n \<in> set kOtslTokens then mn_tag n else [])"

text \<open>The tokens of the rows that have any.\<close>

fun token_rows_from :: "string list \<Rightarrow> markup_node list \<Rightarrow> string list list" where
  "token_rows_from row [] = (if row = [] then [] else [row])"
| "token_rows_from row (n # ns) =
     (let t = otsl_token_of n
      in if t = [] then token_rows_from row ns
         else if t = ''nl'' then (if row = [] then [] else [row]) @ token_rows_from [] ns
         else token_rows_from (row @ [t]) ns)"

definition token_rows :: "markup_node list \<Rightarrow> string list list" where
  "token_rows body = token_rows_from [] body"

definition across :: "string \<Rightarrow> bool" where "across t \<longleftrightarrow> t = ''lcel'' \<or> t = ''xcel''"

definition down :: "string \<Rightarrow> bool" where "down t \<longleftrightarrow> t = ''ucel'' \<or> t = ''xcel''"

definition part_text :: "markup_node \<Rightarrow> string" where
  "part_text n = (if is_text n then trim (mn_text n) else if mn_tag n = ''location'' then [] else get_text n)"

definition is_part :: "markup_node \<Rightarrow> bool" where
  "is_part n \<longleftrightarrow> (if is_text n then \<not> blank (mn_text n) else mn_tag n \<noteq> ''location'')"

definition otsl_cell :: "string list list \<Rightarrow> nat \<Rightarrow> nat \<Rightarrow> string \<Rightarrow> string \<Rightarrow> string \<Rightarrow> span_cell" where
  "otsl_cell rows r c t body right =
     \<lparr>sp_row = r, sp_col = c,
      sp_row_span = 1 + length (takeWhile (\<lambda>row. c < length row \<and> down (row ! c)) (drop (r + 1) rows)),
      sp_col_span = 1 + (if across right \<and> r < length rows then length (takeWhile across (drop (c + 1) (rows ! r))) else 0),
      sp_text = trim body, sp_column_header = (t = ''ched'' \<or> t = ''corn''),
      sp_row_header = (t = ''rhed'' \<or> t = ''corn''), sp_node = None\<rparr>"

fun otsl_scan :: "string list list \<Rightarrow> nat \<Rightarrow> nat \<Rightarrow> bool \<Rightarrow> markup_node list \<Rightarrow> span_cell list" where
  "otsl_scan rows r c row_has_cells [] = []"
| "otsl_scan rows r c row_has_cells (n # ns) =
     (let t = otsl_token_of n; plain = (\<lambda>m. otsl_token_of m = []);
          parts = (if t = ''ecel'' then [] else takeWhile plain ns);
          rest = (if t = ''ecel'' then ns else dropWhile plain ns);
          body = concat (map part_text parts); continuation = t \<in> {''lcel'', ''ucel'', ''xcel''};
          right = (case rest of [] \<Rightarrow> [] | m # _ \<Rightarrow> otsl_token_of m);
          later = otsl_scan rows r (c + 1) True ns
      in if t = [] then otsl_scan rows r c row_has_cells ns
         else if t = ''nl'' then otsl_scan rows (if row_has_cells then r + 1 else r) 0 False ns
         else if continuation \<and> trim body = [] \<and> \<not> list_ex is_part parts then later
         else otsl_cell rows r c t body right # later)"

definition otsl_cells :: "markup_node list \<Rightarrow> span_cell list" where
  "otsl_cells body = otsl_scan (token_rows body) 0 0 False body"

text \<open>The rows of a chart: grown where a cell lies outside.\<close>

definition grow_to :: "nat \<Rightarrow> 'a \<Rightarrow> 'a list \<Rightarrow> 'a list" where
  "grow_to n x xs = xs @ replicate (n - length xs) x"

definition put_cell :: "span_cell \<Rightarrow> string list list \<Rightarrow> string list list" where
  "put_cell cell rows =
     at_index (sp_row cell) (\<lambda>row. (grow_to (sp_col cell + 1) [] row)[sp_col cell := sp_text cell])
       (grow_to (sp_row cell + 1) [] rows)"

fun picture_head :: "body_child \<Rightarrow> markup_node list \<Rightarrow> writer \<Rightarrow> markup_node list \<times> writer" where
  "picture_head pic [] w = ([], w)"
| "picture_head pic (n # ns) w =
     (if is_text n \<or> mn_tag n = ''src'' then picture_head pic ns w
      else if mn_tag n = ''tabular''
      then picture_head pic ns (set_tabular_chart pic [] (fold put_cell (otsl_cells (body_nodes n)) []) ''doclang'' w)
      else (n # ns, w))"

definition group_label_of :: "string \<Rightarrow> group_label" where
  "group_label_of label =
     (case map_of
        [(''list'', GROUP_LABEL_LIST), (''ordered_list'', GROUP_LABEL_ORDERED_LIST), (''chapter'', GROUP_LABEL_CHAPTER),
         (''section'', GROUP_LABEL_SECTION), (''sheet'', GROUP_LABEL_SHEET), (''slide'', GROUP_LABEL_SLIDE),
         (''form_area'', GROUP_LABEL_FORM_AREA), (''key_value_area'', GROUP_LABEL_KEY_VALUE_AREA),
         (''comment_section'', GROUP_LABEL_COMMENT_SECTION), (''inline'', GROUP_LABEL_INLINE),
         (''picture_area'', GROUP_LABEL_PICTURE_AREA)] label of
        None \<Rightarrow> GROUP_LABEL_UNSPECIFIED | Some l \<Rightarrow> l)"

definition walked :: "markup_node \<Rightarrow> bool" where
  "walked c \<longleftrightarrow> \<not> is_text c
     \<and> mn_tag c \<notin> {''head'', ''location'', ''layer'', ''label'', ''custom'', ''caption'', ''src''}"

definition kTextLike :: "string list" where
  "kTextLike = [''text'', ''caption'', ''footnote'', ''page_header'', ''page_footer'', ''code'', ''formula'', ''ldiv'',
     ''bold'', ''italic'', ''underline'', ''strikethrough'', ''subscript'', ''superscript'', ''content'']"


section \<open>Sizes\<close>

lemma nodes_size_drop: "nodes_size (dropWhile P ns) \<le> nodes_size ns"
  by (induction ns) auto

lemma nodes_size_take: "nodes_size (takeWhile P ns) \<le> nodes_size ns"
  by (induction ns) auto

lemma skip_head_size: "nodes_size (skip_head ns) \<le> nodes_size ns"
  by (simp add: skip_head_def nodes_size_drop)

lemma body_nodes_size: "nodes_size (body_nodes el) < node_size el"
  using skip_head_size [of "mn_children el"] by (simp add: body_nodes_def node_size_children)

lemma segments_take:
  "sum_list (map (\<lambda>(d, ns). Suc (nodes_size ns)) (list_segments cs)) + nodes_size (takeWhile (\<lambda>n. \<not> is_ldiv n) cs)
     \<le> nodes_size cs"
proof (induction cs)
  case (Cons c cs)
  show ?case using Cons.IH by (cases "is_ldiv c") (simp_all add: node_size_children [of c])
qed simp

lemma segments_size: "sum_list (map (\<lambda>(d, ns). Suc (nodes_size ns)) (list_segments (mn_children el))) < node_size el"
  using segments_take [of "mn_children el"] by (simp add: node_size_children [of el])

lemma picture_head_size: "nodes_size (fst (picture_head pic ns w)) \<le> nodes_size ns"
  by (induction pic ns w rule: picture_head.induct) (auto intro: trans_le_add2)

lemma first_child_size: "first_child tag el = Some c \<Longrightarrow> node_size c < node_size el"
  by (auto simp: first_child_def split: list.splits dest!: filter_member child_size)

lemma float_host_size: "float_host el = Some c \<Longrightarrow> node_size c < node_size el"
  by (auto simp: float_host_def Let_def element_nodes_def filter_filter split: list.splits if_splits dest!: filter_member child_size)

section \<open>The walk\<close>

definition is_caption :: "markup_node \<Rightarrow> bool" where
  "is_caption c \<longleftrightarrow> \<not> is_text c \<and> mn_tag c = ''caption''"

definition own_captions :: "markup_node \<Rightarrow> markup_node list" where
  "own_captions el = filter is_caption (mn_children el)"

text \<open>The table a group holds, before the index it holds.\<close>

definition table_host :: "markup_node \<Rightarrow> markup_node option" where
  "table_host el =
     (if mn_tag el = ''table'' \<or> mn_tag el = ''index'' then Some el
      else case first_child ''table'' el of None \<Rightarrow> first_child ''index'' el | Some t \<Rightarrow> Some t)"

definition picture_host :: "markup_node \<Rightarrow> markup_node option" where
  "picture_host el = (if mn_tag el = ''picture'' then Some el else first_child ''picture'' el)"

text \<open>The state: \<^verbatim>\<open>last_code_\<close> and the page.\<close>

type_synonym dl_state = "body_child option \<times> writer"

definition write_float_table :: "chandra_env \<Rightarrow> resolution \<Rightarrow> markup_node option \<Rightarrow> lref \<Rightarrow> body_child list \<Rightarrow> body_child list \<Rightarrow> writer \<Rightarrow> writer" where
  "write_float_table env res table parent captions footnotes w =
     (case table of
        None \<Rightarrow> (case write_table (ce_byte_size env) (ce_page env) None [] parent w of (t, w1) \<Rightarrow> attach t captions footnotes w1)
      | Some otsl \<Rightarrow>
          let (t, w1) = write_table (ce_byte_size env) (ce_page env) (head_box env res otsl) (otsl_cells (body_nodes otsl)) parent w;
              w2 = (if mn_tag otsl = ''index'' then edit_table t (\<lambda>item. item\<lparr>it_label := DOC_ITEM_LABEL_DOCUMENT_INDEX\<rparr>) w1 else w1)
          in attach t captions footnotes (apply_layer t otsl w2))"

definition open_float_picture ::
  "chandra_env \<Rightarrow> resolution \<Rightarrow> markup_node option \<Rightarrow> lref \<Rightarrow> body_child list \<Rightarrow> body_child list \<Rightarrow> writer \<Rightarrow> body_child \<times> writer" where
  "open_float_picture env res host_node parent captions footnotes w =
     (let (pic, w1) = write_picture (ce_lib env) (ce_rnd env) (ce_page env)
            (case host_node of None \<Rightarrow> None | Some h \<Rightarrow> head_box env res h) parent w;
          w2 = attach pic captions footnotes w1
      in (pic, case host_node of
            None \<Rightarrow> w2
          | Some h \<Rightarrow>
              let w3 = apply_layer pic h w2
              in if head_label h = [] then w3 else classify_picture pic (head_label h) ''doclang'' w3))"


text \<open>
  The walk goes from an element to what it holds; where it stays at an element, the second
  number falls.
\<close>

definition weight :: "nat \<Rightarrow> nat \<Rightarrow> nat" where
  "weight n k = 12 * n + k"

lemma weight_less: "n < m \<Longrightarrow> k < 12 \<Longrightarrow> weight n k < weight m j"
  by (simp add: weight_def)

lemma weight_le: "n \<le> m \<Longrightarrow> k < j \<Longrightarrow> weight n k < weight m j"
  by (simp add: weight_def)

lemma child_sizes:
  "nodes_size (mn_children el) < node_size el"
  "nodes_size (filter P (mn_children el)) < node_size el"
  "nodes_size (own_captions el) < node_size el"
  using nodes_size_filter [of P "mn_children el"] nodes_size_filter [of is_caption "mn_children el"]
  by (simp_all add: node_size_children [of el] own_captions_def less_Suc_eq_le)

lemma item_sizes:
  "nodes_size (element_nodes ns) \<le> nodes_size ns"
  "nodes_size (element_nodes (skip_head ns)) \<le> nodes_size ns"
  "nodes_size (element_nodes (dropWhile leads (skip_head ns))) \<le> nodes_size ns"
  using nodes_size_filter [of "\<lambda>n. \<not> is_text n"] skip_head_size [of ns] nodes_size_drop [of leads "skip_head ns"]
  by (auto simp: element_nodes_def intro: le_trans)

lemma table_host_size: "table_host el = Some t \<Longrightarrow> nodes_size (own_captions t) < node_size el"
  using child_sizes(3) [of t]
  by (auto simp: table_host_def split: if_splits option.splits dest!: first_child_size)

lemma picture_host_size: "picture_host el = Some h \<Longrightarrow> nodes_size (own_captions h) < node_size el \<and> nodes_size (body_nodes h) < node_size el"
  using child_sizes(3) [of h] body_nodes_size [of h]
  by (auto simp: picture_host_def split: if_splits dest!: first_child_size)

lemma picture_rest_size:
  assumes "picture_host el = Some h" and "(rest, w') = picture_head pic (body_nodes h) w"
  shows "nodes_size (filter P rest) < node_size el"
  using picture_head_size [of pic "body_nodes h" w] nodes_size_filter [of P rest] picture_host_size [OF assms(1)] assms(2)
  by (metis fst_conv le_less_trans le_trans)

lemmas walk_sizes = weight_less weight_le child_sizes trans_less_add1 [OF child_sizes(1)] item_sizes body_nodes_size skip_head_size segments_size
  table_host_size picture_host_size picture_rest_size float_host_size

function (sequential)
      dispatch :: "chandra_env \<Rightarrow> resolution \<Rightarrow> markup_node \<Rightarrow> lref \<Rightarrow> dl_state \<Rightarrow> dl_state"
  and dl_walk :: "chandra_env \<Rightarrow> resolution \<Rightarrow> markup_node list \<Rightarrow> lref \<Rightarrow> dl_state \<Rightarrow> dl_state"
  and text_like :: "chandra_env \<Rightarrow> resolution \<Rightarrow> markup_node \<Rightarrow> lref \<Rightarrow> dl_state \<Rightarrow> dl_state"
  and inline_host :: "chandra_env \<Rightarrow> resolution \<Rightarrow> markup_node \<Rightarrow> lref \<Rightarrow> doc_item_label \<Rightarrow> dl_state \<Rightarrow> body_child \<times> dl_state"
  and dl_inline_runs :: "chandra_env \<Rightarrow> resolution \<Rightarrow> markup_node list \<Rightarrow> lref \<Rightarrow> formatting option \<Rightarrow> dl_state \<Rightarrow> dl_state"
  and captions_of :: "chandra_env \<Rightarrow> resolution \<Rightarrow> markup_node list \<Rightarrow> dl_state \<Rightarrow> body_child list \<times> dl_state"
  and dl_items :: "chandra_env \<Rightarrow> resolution \<Rightarrow> (markup_node \<times> markup_node list) list \<Rightarrow> body_child \<Rightarrow> bool \<Rightarrow> dl_state \<Rightarrow> dl_state"
  and dl_list_item :: "chandra_env \<Rightarrow> resolution \<Rightarrow> markup_node list \<Rightarrow> body_child \<Rightarrow> bool \<Rightarrow> string \<Rightarrow> dl_state \<Rightarrow> dl_state"
  and dl_table :: "chandra_env \<Rightarrow> resolution \<Rightarrow> markup_node \<Rightarrow> lref \<Rightarrow> dl_state \<Rightarrow> dl_state"
  and dl_picture :: "chandra_env \<Rightarrow> resolution \<Rightarrow> markup_node \<Rightarrow> lref \<Rightarrow> dl_state \<Rightarrow> dl_state"
  and code_group :: "chandra_env \<Rightarrow> resolution \<Rightarrow> markup_node \<Rightarrow> lref \<Rightarrow> dl_state \<Rightarrow> dl_state"
where
  "dispatch env res el parent st =
     (let name = mn_tag el; cs = filter walked (mn_children el)
      in if name = ''track'' \<or> name = ''page_break'' then st
         else if name \<in> set kTextLike then text_like env res el parent st
         else if name = ''heading'' then (fst st, dl_heading env res el parent (snd st))
         else if name = ''list''
         then (case write_list_group parent (snd st) of
                 (g, w1) \<Rightarrow> dl_items env res (list_segments (mn_children el)) g (node_attr ''class'' [] el = ''ordered'') (fst st, w1))
         else if name = ''group''
         then (if node_attr ''name'' [] el \<noteq> []
               then (case write_group (node_attr ''name'' [] el) (group_label_of (head_label el)) parent (snd st) of
                       (g, w1) \<Rightarrow> dl_walk env res cs (Some g) (fst st, w1))
               else case float_host el of
                 Some h \<Rightarrow> if mn_tag h = ''picture'' then dl_picture env res el parent st
                           else if mn_tag h = ''code'' then code_group env res el parent st
                           else dl_table env res el parent st
               | None \<Rightarrow> dl_walk env res cs parent st)
         else if name = ''table'' \<or> name = ''index'' then dl_table env res el parent st
         else if name = ''picture'' then dl_picture env res el parent st
         else dl_walk env res cs parent st)"
| "dl_walk env res [] parent st = st"
| "dl_walk env res (n # ns) parent st = dl_walk env res ns parent (dispatch env res n parent st)"
| "text_like env res el parent st =
     (if runs_inside el
      then (if mn_tag el \<in> set kHosts \<and> (mn_tag el \<noteq> ''text'' \<or> head_box env res el \<noteq> None)
            then snd (inline_host env res el parent (the (text_label (mn_tag el))) st)
            else (case write_inline_group parent (snd st) of
                    (g, w1) \<Rightarrow>
                      (case dl_inline_runs env res (mn_children el) (Some g) (own_formatting el) (fst st, w1) of
                         (lc, w2) \<Rightarrow> (lc, layer_subtree (text_count (snd st)) (group_count (snd st)) el w2))))
      else if fst (text_with_formatting el no_formatting) = [] \<and> \<not> is_empty el then st
      else if mn_tag el = ''code''
      then (case write_code (ce_page env) (head_box env res el) (code_body el) (head_label el) parent (snd st) of
              (item, w1) \<Rightarrow>
                (case captions_of env res (own_captions el) (fst st, apply_layer item el w1) of
                   (captions, _, w2) \<Rightarrow> (Some item, fold (link_caption item) captions w2)))
      else (fst st, plain_item env res el parent (snd st)))"
| "inline_host env res el parent label st =
     (case write_styled_text (ce_page env) label (head_box env res el) [] None [] parent (snd st) of
        (h, w1) \<Rightarrow>
          (case write_inline_group (Some h) w1 of
             (g, w2) \<Rightarrow>
               (case dl_inline_runs env res (body_nodes el) (Some g) None (fst st, w2) of
                  (lc, w3) \<Rightarrow> (h, lc, layer_subtree (text_count (snd st)) (group_count (snd st)) el w3))))"
| "dl_inline_runs env res [] parent fmt st = st"
| "dl_inline_runs env res (n # ns) parent fmt st =
     dl_inline_runs env res ns parent fmt
       (if is_text n
        then (if trim (mn_text n) = [] then st
              else (fst st, snd (write_styled_text (ce_page env) DOC_ITEM_LABEL_TEXT None (trim (mn_text n)) fmt [] parent (snd st))))
        else if mn_tag n \<in> set kFormatTags
        then dl_inline_runs env res (mn_children n) parent
               (Some (merge_format (mn_tag n) (case fmt of None \<Rightarrow> no_formatting | Some f \<Rightarrow> f))) st
        else dispatch env res n parent st)"
| "captions_of env res [] st = ([], st)"
| "captions_of env res (c # cs) st =
     (if trim (get_text c) = [] then captions_of env res cs st
      else case (if simple_text c = None then inline_host env res c kBodyRef DOC_ITEM_LABEL_CAPTION st
                 else case write_styled_text (ce_page env) DOC_ITEM_LABEL_CAPTION (head_box env res c) (trim (get_text c)) None [] kBodyRef (snd st) of
                        (item, w1) \<Rightarrow> (item, fst st, apply_layer item c w1)) of
        (item, st1) \<Rightarrow> (case captions_of env res cs st1 of (later, st2) \<Rightarrow> (item # later, st2)))"
| "dl_items env res [] g ordered st = st"
| "dl_items env res ((ldiv, nodes) # segs) g ordered st =
     dl_items env res segs g ordered (dl_list_item env res nodes g ordered (ldiv_marker ldiv) st)"
| "dl_list_item env res nodes g ordered marker st =
     (let content = skip_head nodes; box = box_of env res nodes; page = ce_page env; lead = leading_text content;
          elements = element_nodes content
      in if content = [] then (fst st, snd (write_list_item page box [] ordered marker (Some g) (snd st)))
         else if is_text (hd content) \<or> mn_tag (hd content) \<notin> set kBlocks
         then (if lead \<noteq> [] \<and> only_nested content
               then (case write_list_item page box lead ordered marker (Some g) (snd st) of
                       (item, w1) \<Rightarrow> dl_walk env res (element_nodes (dropWhile leads content)) (Some item) (fst st, w1))
               else (case write_list_item page box [] ordered marker (Some g) (snd st) of
                       (item, w1) \<Rightarrow>
                         (case write_inline_group (Some item) w1 of
                            (runs, w2) \<Rightarrow> dl_inline_runs env res content (Some runs) None (fst st, w2))))
         else if length elements = 1 \<and> mn_tag (hd elements) = ''text'' \<and> simple_text (hd elements) \<noteq> None
         then (fst st, snd (write_list_item page (head_box env res (hd elements)) (trim (get_text (hd elements)))
                 ordered marker (Some g) (snd st)))
         else (case write_list_item page box [] ordered marker (Some g) (snd st) of
                 (item, w1) \<Rightarrow> dl_walk env res elements (Some item) (fst st, w1)))"
| "dl_table env res el parent st =
     (let alone = (mn_tag el = ''table'' \<or> mn_tag el = ''index'');
          (texts, notes, w1) = (if alone then ([], [], snd st) else satellites env res (mn_children el) (snd st));
          (captions, st2) = captions_of env res (own_captions el) (fst st, w1);
          (hosted, st3) = (case table_host el of
             Some t \<Rightarrow> if \<not> alone \<and> captions = [] then captions_of env res (own_captions t) st2 else (captions, st2)
           | None \<Rightarrow> (captions, st2))
      in (fst st3, write_float_table env res (table_host el) parent (hosted @ texts) notes (snd st3)))"
| "dl_picture env res el parent st =
     (let alone = (mn_tag el = ''picture'');
          (texts, notes, w1) = (if alone then ([], [], snd st) else satellites env res (mn_children el) (snd st));
          (captions, st2) = captions_of env res (own_captions el) (fst st, w1);
          (hosted, st3) = (case picture_host el of
             Some h \<Rightarrow> if \<not> alone \<and> captions = [] then captions_of env res (own_captions h) st2 else (captions, st2)
           | None \<Rightarrow> (captions, st2));
          (pic, w4) = open_float_picture env res (picture_host el) parent (hosted @ texts) notes (snd st3)
      in case picture_host el of
           None \<Rightarrow> (fst st3, w4)
         | Some h \<Rightarrow>
             (case picture_head pic (body_nodes h) w4 of
                (rest, w5) \<Rightarrow> dl_walk env res (filter (\<lambda>n. \<not> is_text n \<and> mn_tag n \<noteq> ''caption'') rest) (Some pic) (fst st3, w5)))"
| "code_group env res el parent st =
     (case satellites env res (mn_children el) (snd st) of
        (texts, notes, w1) \<Rightarrow>
          (case float_host el of
             None \<Rightarrow> (None, w1)
           | Some c \<Rightarrow>
               (case text_like env res c parent (None, w1) of
                  (last_code, w2) \<Rightarrow> (last_code, case last_code of None \<Rightarrow> w2 | Some item \<Rightarrow> attach item texts notes w2))))"
  by pat_completeness auto


termination
proof (relation "measure (case_sum
    (case_sum
      (case_sum (\<lambda>(_, _, n, _). weight (node_size n) 4) (\<lambda>(_, _, ns, _). weight (nodes_size ns) 6))
      (case_sum (\<lambda>(_, _, n, _). weight (node_size n) 3)
        (case_sum (\<lambda>(_, _, n, _). weight (node_size n) 2) (\<lambda>(_, _, ns, _). weight (nodes_size ns) 6))))
    (case_sum
      (case_sum (\<lambda>(_, _, ns, _). weight (nodes_size ns) 6)
        (case_sum (\<lambda>(_, _, segs, _). weight (sum_list (map (\<lambda>(d, ns). Suc (nodes_size ns)) segs)) 0) (\<lambda>(_, _, ns, _). weight (nodes_size ns) 8)))
      (case_sum (\<lambda>(_, _, n, _). weight (node_size n) 1)
        (case_sum (\<lambda>(_, _, n, _). weight (node_size n) 1) (\<lambda>(_, _, n, _). weight (node_size n) 1)))))", goal_cases)
  show "wf (measure f)" for f :: "_ \<Rightarrow> nat" by simp
qed (simp_all add: walk_sizes)

lemmas doclang_simps = dispatch.simps dl_walk.simps text_like.simps inline_host.simps dl_inline_runs.simps captions_of.simps
  dl_items.simps dl_list_item.simps dl_table.simps dl_picture.simps code_group.simps

declare doclang_simps [simp del]

section \<open>The mapper\<close>

definition opens_doclang :: "string \<Rightarrow> bool" where
  "opens_doclang after \<longleftrightarrow> after \<noteq> [] \<and> (hd after = CHR ''>'' \<or> (is_space (hd after) \<and> CHR ''>'' \<in> set after))"

function has_doclang :: "string \<Rightarrow> bool" where
  "has_doclang s =
     (case find_sub ''<doclang'' s of
        None \<Rightarrow> False
      | Some (_, after) \<Rightarrow> opens_doclang after \<or> has_doclang (''doclang'' @ after))"
  by pat_completeness auto

termination by (relation "measure length") (auto dest!: find_sub_split)

declare has_doclang.simps [simp del]

text \<open>From the first \<^verbatim>\<open><doclang\<close>, also where it is not the one that opens.\<close>

definition doclang_fragment :: "string \<Rightarrow> string option" where
  "doclang_fragment body =
     (if \<not> has_doclang body then None
      else case find_sub ''<doclang'' body of
        None \<Rightarrow> None
      | Some (_, after) \<Rightarrow>
          (case find_sub ''</doclang>'' (''<doclang'' @ after) of
             None \<Rightarrow> None
           | Some (inner, _) \<Rightarrow> Some (inner @ ''</doclang>'')))"

definition doclang_root :: "string \<Rightarrow> markup_node option" where
  "doclang_root body = Option.bind (doclang_fragment body) (\<lambda>f. find_element ''doclang'' (parse_markup KXml f))"

definition doclang_writer :: "chandra_env \<Rightarrow> markup_node \<Rightarrow> writer" where
  "doclang_writer env tree =
     snd (dl_walk env (set_resolution tree) (element_nodes (mn_children tree)) kBodyRef (None, new_writer (ce_page env)))"

definition map_doclang :: "chandra_env \<Rightarrow> string \<Rightarrow> string + (document \<times> warning list)" where
  "map_doclang env body =
     (case doclang_root body of
        None \<Rightarrow> Inl ''No <doclang> XML fragment found in VLM response.''
      | Some tree \<Rightarrow> finish (ce_page env) ''DocLang'' True (doclang_writer env tree))"

section \<open>The pieces only add to the page\<close>

lemma layer_of_set: "layer_of v = Some layer \<Longrightarrow> layer \<noteq> CONTENT_LAYER_UNSPECIFIED"
  by (auto simp: layer_of_def split: if_splits)

lemma head_layer_set: "head_layer el = Some layer \<Longrightarrow> layer \<noteq> CONTENT_LAYER_UNSPECIFIED"
  by (auto simp: head_layer_def split: list.splits dest: layer_of_set)

lemma apply_layer_grown: "writer_ok page w \<Longrightarrow> grown page w (apply_layer ref el w)"
  by (auto simp: apply_layer_def split: option.split dest: head_layer_set intro: layer_grown)

lemma layered:
  assumes "grown page w w1 \<and> parent_ok w1 p"
  shows "grown page w (apply_layer ref el w1) \<and> parent_ok (apply_layer ref el w1) p"
  using assms apply_layer_grown [OF grown_ok] by (blast intro: grown_trans grown_parent)

lemma layer_subtree_grown:
  assumes "writer_ok page w"
  shows "grown page w (layer_subtree a b el w)"
proof (cases "head_layer el")
  case (Some layer)
  note set = head_layer_set [OF Some]
  show ?thesis
    using grown_trans [OF layers_grown [OF assms set] layers_grown [OF grown_ok [OF layers_grown [OF assms set]] set]]
    by (simp add: layer_subtree_def Some Let_def)
qed (simp add: layer_subtree_def assms)

lemma subtree_layered: "grown page w w1 \<Longrightarrow> grown page w (layer_subtree a b el w1)"
  using layer_subtree_grown [OF grown_ok] by (blast intro: grown_trans)

lemma attach_grown: "writer_ok page w \<Longrightarrow> grown page w (attach owner captions footnotes w)"
  unfolding attach_def
  by (rule grown_trans [of _ _ "fold (link_caption owner) captions w"]; rule grown_fold)
    (auto intro: grown_ok grown_fold caption_linker.edits [THEN grown_edited] footnote_linker.edits [THEN grown_edited])

lemma attached: "grown page w w1 \<Longrightarrow> grown page w (attach owner captions footnotes w1)"
  using attach_grown [OF grown_ok] by (blast intro: grown_trans)

lemma plain_item_grown:
  assumes "ready env w parent"
  shows "grown (ce_page env) w (plain_item env res el parent w)"
proof -
  have r: "writer_ok (ce_page env) w" "parent_ok w parent" using assms by (simp_all add: ready_def)
  obtain t f formatted where t: "text_with_formatting el no_formatting = (t, f, formatted)" by (metis prod_cases3)
  have "grown (ce_page env) w (apply_layer (fst (write_formula (ce_page env) box t parent w)) el
      (snd (write_formula (ce_page env) box t parent w)))"
    "grown (ce_page env) w (apply_layer (fst (write_styled_text (ce_page env) label box t fmt [] parent w)) el
      (snd (write_styled_text (ce_page env) label box t fmt [] parent w)))" for box label fmt
    using layered [OF grown_written [OF formula_writer.writes [OF r surjective_pairing]]]
      layered [OF grown_written [OF styled_writer.writes [OF r surjective_pairing]]] by blast+
  then show ?thesis using r(1) by (simp add: plain_item_def t Let_def case_prod_beta' split: option.split)
qed

lemma dl_heading_grown:
  assumes "ready env w parent"
  shows "grown (ce_page env) w (dl_heading env res el parent w)"
proof -
  have r: "writer_ok (ce_page env) w" "parent_ok w parent" using assms by (simp_all add: ready_def)
  show ?thesis
    using r(1) layered [OF grown_written [OF title_writer.writes [OF r surjective_pairing]]]
      layered [OF grown_written [OF heading_writer.writes [OF r surjective_pairing]]]
    by (auto simp: dl_heading_def Let_def case_prod_beta')
qed

lemma satellites_grown: "writer_ok (ce_page env) w \<Longrightarrow> grown (ce_page env) w (snd (snd (satellites env res cs w)))"
proof (induction env res cs w rule: satellites.induct)
  case (2 env res c cs w)
  show ?case
  proof (cases "is_text c \<or> (mn_tag c \<noteq> ''text'' \<and> mn_tag c \<noteq> ''footnote'') \<or> trim (get_text c) = []")
    case True
    then show ?thesis using "2.IH"(1) [OF refl refl True "2.prems"] by (auto simp: Let_def)
  next
    case False
    obtain item w1 where i: "write_styled_text (ce_page env) (if mn_tag c = ''text'' then DOC_ITEM_LABEL_CAPTION else DOC_ITEM_LABEL_FOOTNOTE)
        (head_box env res c) (trim (get_text c)) None [] kBodyRef w = (item, w1)" by (metis surj_pair)
    have one: "grown (ce_page env) w w1"
      using grown_written [OF styled_writer.writes [OF "2.prems" body_ok i]] by blast
    show ?thesis
      using grown_trans [OF one "2.IH"(2) [OF refl refl False i [symmetric] refl grown_ok [OF one]]] False i
      by (auto simp: Let_def case_prod_beta')
  qed
qed simp

lemma write_float_table_grown:
  assumes "ready env w parent"
  shows "grown (ce_page env) w (write_float_table env res table parent captions footnotes w)"
proof (cases table)
  case None
  have "grown (ce_page env) w (snd (write_table (ce_byte_size env) (ce_page env) None [] parent w))"
    using grown_written [OF table_writer.writes [OF _ _ surjective_pairing]] assms by (auto simp: ready_def)
  then show ?thesis by (simp add: write_float_table_def None case_prod_beta' attached)
next
  case (Some otsl)
  obtain t w1 where t: "write_table (ce_byte_size env) (ce_page env) (head_box env res otsl) (otsl_cells (body_nodes otsl)) parent w = (t, w1)"
    by (metis surj_pair)
  have one: "grown (ce_page env) w w1"
    using grown_written [OF table_writer.writes [OF _ _ t]] assms by (auto simp: ready_def)
  let ?w2 = "edit_table t (\<lambda>item. item\<lparr>it_label := DOC_ITEM_LABEL_DOCUMENT_INDEX\<rparr>) w1"
  have "writer_ok (ce_page env) ?w2" by (rule edit_table_ok [OF grown_ok [OF one]]) (simp_all add: stamped_def)
  then have "grown (ce_page env) w1 ?w2" by (simp add: grown_def edit_table_def)
  then have "grown (ce_page env) w (if mn_tag otsl = ''index'' then ?w2 else w1)" using one by (auto intro: grown_trans)
  then have "grown (ce_page env) w (apply_layer t otsl (if mn_tag otsl = ''index'' then ?w2 else w1))"
    using layered [of _ _ _ None] by simp
  then show ?thesis by (simp add: write_float_table_def Some t Let_def attached)
qed

lemma open_float_picture_grown:
  assumes "ready env w parent" and "open_float_picture env res h parent captions footnotes w = (pic, w')"
  shows "grown (ce_page env) w w' \<and> ready env w' (Some pic)"
proof -
  obtain w1 where p: "write_picture (ce_lib env) (ce_rnd env) (ce_page env)
      (case h of None \<Rightarrow> None | Some h \<Rightarrow> head_box env res h) parent w = (pic, w1)"
    using assms(2) by (auto simp: open_float_picture_def Let_def split: prod.splits)
  have one: "grown (ce_page env) w w1 \<and> parent_ok w1 (Some pic)"
    using grown_written [OF picture_writer.writes [OF _ _ p]] assms(1) by (simp add: ready_def)
  let ?w2 = "attach pic captions footnotes w1"
  have two: "grown (ce_page env) w1 ?w2" using attach_grown [OF grown_ok] one by blast
  have three: "grown (ce_page env) ?w2 (apply_layer pic n ?w2)" for n using apply_layer_grown [OF grown_ok [OF two]] .
  have four: "grown (ce_page env) (apply_layer pic n ?w2) (classify_picture pic l ''doclang'' (apply_layer pic n ?w2))" for n l
    using grown_ok [OF three] by (rule edited_grown)
  from two grown_trans [OF two three] grown_trans [OF grown_trans [OF two three] four] have "grown (ce_page env) w1 w'"
    using assms(2) by (auto simp: open_float_picture_def p Let_def split: option.splits if_splits)
  with one show ?thesis by (auto simp: ready_def intro: grown_trans grown_ok grown_parent)
qed

lemma picture_head_grown: "writer_ok page w \<Longrightarrow> grown page w (snd (picture_head pic ns w))"
proof (induction pic ns w rule: picture_head.induct)
  case (2 pic n ns w)
  have chart: "grown page w (set_tabular_chart pic [] rows ''doclang'' w)" for rows using "2.prems" by (rule edited_grown)
  from 2 grown_trans [OF chart "2.IH"(2) [OF _ _ grown_ok [OF chart]]] show ?case by simp
qed simp

lemma ready_written:
  assumes "ready env w parent" and "writer_ok (ce_page env) w1 \<and> lw_entries w1 = lw_entries w @ [(c, parent)]"
  shows "grown (ce_page env) w w1 \<and> ready env w1 (Some c)"
  using grown_written [OF assms(2)] ready_new by blast

lemma ready_steps:
  assumes "ready env w parent"
  shows "write_list_group parent w = (g, w1) \<Longrightarrow> grown (ce_page env) w w1 \<and> ready env w1 (Some g)"
    and "write_inline_group parent w = (g, w1) \<Longrightarrow> grown (ce_page env) w w1 \<and> ready env w1 (Some g)"
    and "write_styled_text (ce_page env) label box t fmt link parent w = (g, w1) \<Longrightarrow> grown (ce_page env) w w1 \<and> ready env w1 (Some g)"
    and "write_list_item (ce_page env) box t ordered marker parent w = (g, w1) \<Longrightarrow> grown (ce_page env) w w1 \<and> ready env w1 (Some g)"
    and "write_code (ce_page env) box t lang parent w = (g, w1) \<Longrightarrow> grown (ce_page env) w w1 \<and> ready env w1 (Some g)"
proof -
  have r: "writer_ok (ce_page env) w" "parent_ok w parent" using assms by (simp_all add: ready_def)
  show "write_list_group parent w = (g, w1) \<Longrightarrow> grown (ce_page env) w w1 \<and> ready env w1 (Some g)"
    by (rule ready_written [OF assms list_group_writer.writes [OF r]])
  show "write_inline_group parent w = (g, w1) \<Longrightarrow> grown (ce_page env) w w1 \<and> ready env w1 (Some g)"
    by (rule ready_written [OF assms inline_group_writer.writes [OF r]])
  show "write_styled_text (ce_page env) label box t fmt link parent w = (g, w1) \<Longrightarrow> grown (ce_page env) w w1 \<and> ready env w1 (Some g)"
    by (rule ready_written [OF assms styled_writer.writes [OF r]])
  show "write_list_item (ce_page env) box t ordered marker parent w = (g, w1) \<Longrightarrow> grown (ce_page env) w w1 \<and> ready env w1 (Some g)"
    by (rule ready_written [OF assms list_item_writer.writes [OF r]])
  show "write_code (ce_page env) box t lang parent w = (g, w1) \<Longrightarrow> grown (ce_page env) w w1 \<and> ready env w1 (Some g)"
    by (rule ready_written [OF assms code_writer.writes [OF r]])
qed

lemma captions_linked: "grown page w w1 \<Longrightarrow> grown page w (fold (link_caption item) captions w1)"
  using attached [of page w w1 item captions "[]"] by (simp add: attach_def)

text \<open>Every function of the walk only adds to the page.\<close>

lemma doclang_grown:
  shows "ready env (snd st) parent \<Longrightarrow> grown (ce_page env) (snd st) (snd (dispatch env res el parent st))"
    and "ready env (snd st) parent \<Longrightarrow> grown (ce_page env) (snd st) (snd (dl_walk env res nodes parent st))"
    and "ready env (snd st) parent \<Longrightarrow> grown (ce_page env) (snd st) (snd (text_like env res el parent st))"
    and "ready env (snd st) parent \<Longrightarrow> grown (ce_page env) (snd st) (snd (snd (inline_host env res el parent label st)))"
    and "ready env (snd st) parent \<Longrightarrow> grown (ce_page env) (snd st) (snd (dl_inline_runs env res nodes parent fmt st))"
    and "writer_ok (ce_page env) (snd st) \<Longrightarrow> grown (ce_page env) (snd st) (snd (snd (captions_of env res nodes st)))"
    and "ready env (snd st) (Some g) \<Longrightarrow> grown (ce_page env) (snd st) (snd (dl_items env res segs g ordered st))"
    and "ready env (snd st) (Some g) \<Longrightarrow> grown (ce_page env) (snd st) (snd (dl_list_item env res nodes g ordered marker st))"
    and "ready env (snd st) parent \<Longrightarrow> grown (ce_page env) (snd st) (snd (dl_table env res el parent st))"
    and "ready env (snd st) parent \<Longrightarrow> grown (ce_page env) (snd st) (snd (dl_picture env res el parent st))"
    and "ready env (snd st) parent \<Longrightarrow> grown (ce_page env) (snd st) (snd (code_group env res el parent st))"
proof (induction env res el parent st and env res nodes parent st and env res el parent st and env res el parent label st
    and env res nodes parent fmt st and env res nodes st and env res segs g ordered st and env res nodes g ordered marker st
    and env res el parent st and env res el parent st and env res el parent st
    rule: dispatch_dl_walk_text_like_inline_host_dl_inline_runs_captions_of_dl_items_dl_list_item_dl_table_dl_picture_code_group.induct)
  case (1 env res el parent st)
  obtain l w1 where l: "write_list_group parent (snd st) = (l, w1)" by (metis surj_pair)
  obtain g w2 where g: "write_group (node_attr ''name'' [] el) (group_label_of (head_label el)) parent (snd st) = (g, w2)" by (metis surj_pair)
  note l1 = ready_steps(1) [OF "1.prems" l] and g1 = group_grown [OF "1.prems" g]
  note lists = grown_trans [OF conjunct1 [OF l1] "1.IH"(2) [OF refl refl _ _ _ _ l [symmetric], simplified, OF _ _ conjunct2 [OF l1]]]
    and groups = grown_trans [OF conjunct1 [OF g1] "1.IH"(3) [OF refl refl _ _ _ _ _ _ g [symmetric], simplified, OF _ _ _ conjunct2 [OF g1]]]
  show ?case
    using "1.IH"(1,4-10) "1.prems" lists groups
    by (auto simp: dispatch.simps Let_def l g ready_ok dl_heading_grown split: option.split)
next
  case (2 env res parent st)
  then show ?case by (simp add: dl_walk.simps ready_ok)
next
  case (3 env res n ns parent st)
  note one = "3.IH"(1) [OF "3.prems"]
  from grown_trans [OF one "3.IH"(2) [OF ready_grown [OF "3.prems" one]]] show ?case by (simp add: dl_walk.simps)
next
  case (4 env res el parent st)
  obtain g w1 where g: "write_inline_group parent (snd st) = (g, w1)" by (metis surj_pair)
  obtain lc w2 where runs: "dl_inline_runs env res (mn_children el) (Some g) (own_formatting el) (fst st, w1) = (lc, w2)" by (metis surj_pair)
  obtain item v1 where item: "write_code (ce_page env) (head_box env res el) (code_body el) (head_label el) parent (snd st) = (item, v1)"
    by (metis surj_pair)
  obtain caps lc' v2 where caps: "captions_of env res (own_captions el) (fst st, apply_layer item el v1) = (caps, lc', v2)"
    by (metis surj_pair)
  note g1 = ready_steps(2) [OF "4.prems" g] and i1 = ready_steps(5) [OF "4.prems" item]
  have i2: "grown (ce_page env) (snd st) (apply_layer item el v1)" using layered [of _ _ v1 None] i1 by simp
  note inside = subtree_layered [OF grown_trans [OF conjunct1 [OF g1] "4.IH"(2) [OF _ _ g [symmetric], simplified, OF _ _ conjunct2 [OF g1]]]]
    and coded = captions_linked [OF grown_trans [OF i2 "4.IH"(3) [OF _ _ _ item [symmetric], simplified, OF _ _ _ grown_ok [OF i2]]]]
  show ?case
    using "4.IH"(1) [OF _ _ "4.prems"] "4.prems" inside coded
    by (auto simp: text_like.simps g runs item caps ready_ok plain_item_grown)
next
  case (5 env res el parent label st)
  obtain h w1 where h: "write_styled_text (ce_page env) label (head_box env res el) [] None [] parent (snd st) = (h, w1)" by (metis surj_pair)
  obtain g w2 where g: "write_inline_group (Some h) w1 = (g, w2)" by (metis surj_pair)
  obtain lc w3 where runs: "dl_inline_runs env res (body_nodes el) (Some g) None (fst st, w2) = (lc, w3)" by (metis surj_pair)
  note h1 = ready_steps(3) [OF "5.prems" h]
  note g1 = ready_steps(2) [OF conjunct2 [OF h1] g]
  have "grown (ce_page env) w2 w3" using "5.IH" [OF h [symmetric] g [symmetric]] g1 by (simp add: runs)
  then have "grown (ce_page env) (snd st) w3" using h1 g1 by (blast intro: grown_trans)
  then show ?case by (simp add: inline_host.simps h g runs subtree_layered)
next
  case (6 env res parent fmt st)
  then show ?case by (simp add: dl_inline_runs.simps ready_ok)
next
  case (7 env res n ns parent fmt st)
  let ?st = "if is_text n
         then if trim (mn_text n) = [] then st
              else (fst st, snd (write_styled_text (ce_page env) DOC_ITEM_LABEL_TEXT None (trim (mn_text n)) fmt [] parent (snd st)))
         else if mn_tag n \<in> set kFormatTags
              then dl_inline_runs env res (mn_children n) parent
                    (Some (merge_format (mn_tag n) (case fmt of None \<Rightarrow> no_formatting | Some f \<Rightarrow> f))) st
              else dispatch env res n parent st"
  have one: "grown (ce_page env) (snd st) (snd ?st)"
    using "7.IH"(1,2) "7.prems" ready_steps(3) [OF "7.prems" surjective_pairing] by (auto simp: ready_ok)
  from grown_trans [OF one "7.IH"(3) [OF ready_grown [OF "7.prems" one]]] show ?case by (simp add: dl_inline_runs.simps)
next
  case (8 env res st)
  then show ?case by (simp add: captions_of.simps)
next
  case (9 env res c cs st)
  let ?w = "write_styled_text (ce_page env) DOC_ITEM_LABEL_CAPTION (head_box env res c) (trim (get_text c)) None [] kBodyRef (snd st)"
  have body: "ready env (snd st) kBodyRef" using "9.prems" by (simp add: ready_def)
  obtain item st1 where i: "(if simple_text c = None then inline_host env res c kBodyRef DOC_ITEM_LABEL_CAPTION st
      else case ?w of (item, w1) \<Rightarrow> (item, fst st, apply_layer item c w1)) = (item, st1)" by (rule that [OF surjective_pairing])
  show ?case
  proof (cases "trim (get_text c) = []")
    case True
    then show ?thesis using "9.IH"(1) "9.prems" by (simp add: captions_of.simps)
  next
    case False
    have "grown (ce_page env) (snd st) (apply_layer (fst ?w) c (snd ?w))"
      using layered [of _ _ "snd ?w" None] ready_steps(3) [OF body surjective_pairing] by simp
    then have one: "grown (ce_page env) (snd st) (snd st1)"
      using i "9.IH"(2) [OF False _ body] by (auto simp: case_prod_beta' split: if_splits)
    from grown_trans [OF one "9.IH"(3) [OF False i [symmetric] grown_ok [OF one]]] False show ?thesis
      unfolding captions_of.simps i by (simp add: case_prod_beta')
  qed
next
  case (10 env res g ordered st)
  then show ?case by (simp add: dl_items.simps ready_ok)
next
  case (11 env res ldiv nodes segs g ordered st)
  note one = "11.IH"(1) [OF "11.prems"]
  from grown_trans [OF one "11.IH"(2) [OF ready_grown [OF "11.prems" one]]] show ?case by (simp add: dl_items.simps)
next
  case (12 env res nodes g ordered marker st)
  let ?content = "skip_head nodes" and ?page = "ce_page env" and ?box = "box_of env res nodes"
  obtain i w1 where i: "write_list_item ?page ?box (leading_text ?content) ordered marker (Some g) (snd st) = (i, w1)" by (metis surj_pair)
  obtain j v1 where j: "write_list_item ?page ?box [] ordered marker (Some g) (snd st) = (j, v1)" by (metis surj_pair)
  obtain runs v2 where runs: "write_inline_group (Some j) v1 = (runs, v2)" by (metis surj_pair)
  note i1 = ready_steps(4) [OF "12.prems" i] and j1 = ready_steps(4) [OF "12.prems" j]
  note r1 = ready_steps(2) [OF conjunct2 [OF j1] runs]
  note nested = grown_trans [OF conjunct1 [OF i1] "12.IH"(1) [OF refl refl refl refl refl _ _ _ i [symmetric], simplified, OF _ _ _ conjunct2 [OF i1]]]
    and inside = grown_trans [OF grown_trans [OF conjunct1 [OF j1] conjunct1 [OF r1]]
        "12.IH"(2) [OF refl refl refl refl refl _ _ _ j [symmetric] runs [symmetric], simplified, OF _ _ _ conjunct2 [OF r1]]]
    and blocks = grown_trans [OF conjunct1 [OF j1] "12.IH"(3) [OF refl refl refl refl refl _ _ _ j [symmetric], simplified, OF _ _ _ conjunct2 [OF j1]]]
  have "grown ?page (snd st) (snd (write_list_item ?page box t ordered marker (Some g) (snd st)))" for box t
    using ready_steps(4) [OF "12.prems" surjective_pairing] by blast
  with nested inside blocks conjunct1 [OF j1] show ?case by (simp add: dl_list_item.simps Let_def i j runs)
next
  case (13 env res el parent st)
  let ?alone = "mn_tag el = ''table'' \<or> mn_tag el = ''index''"
  obtain texts foots w1 where s: "(if ?alone then ([], [], snd st) else satellites env res (mn_children el) (snd st)) = (texts, foots, w1)"
    by (metis prod_cases3)
  obtain caps st2 where c: "captions_of env res (own_captions el) (fst st, w1) = (caps, st2)" by (metis surj_pair)
  obtain hosted st3 where h: "(case table_host el of
      Some t \<Rightarrow> if \<not> ?alone \<and> caps = [] then captions_of env res (own_captions t) st2 else (caps, st2)
    | None \<Rightarrow> (caps, st2)) = (hosted, st3)" by (metis surj_pair)
  have one: "grown (ce_page env) (snd st) w1"
    using satellites_grown [OF ready_ok [OF "13.prems"], of res "mn_children el"] s ready_ok [OF "13.prems"]
    by (auto split: if_splits)
  have two: "grown (ce_page env) w1 (snd st2)"
    using "13.IH"(1) [OF refl s [symmetric] refl refl] grown_ok [OF one] by (simp add: c)
  have "grown (ce_page env) (snd st2) (snd st3)"
    using "13.IH"(2) [OF refl s [symmetric] refl refl c [symmetric] refl] grown_ok [OF two] h
    by (auto split: option.splits if_splits)
  with one two have three: "grown (ce_page env) (snd st) (snd st3)" by (blast intro: grown_trans)
  from grown_trans [OF three write_float_table_grown [OF ready_grown [OF "13.prems" three]]] show ?case
    unfolding dl_table.simps Let_def s c h by (simp add: c h)
next
  case (14 env res el parent st)
  let ?alone = "mn_tag el = ''picture''"
  obtain texts foots w1 where s: "(if ?alone then ([], [], snd st) else satellites env res (mn_children el) (snd st)) = (texts, foots, w1)"
    by (metis prod_cases3)
  obtain caps st2 where c: "captions_of env res (own_captions el) (fst st, w1) = (caps, st2)" by (metis surj_pair)
  obtain hosted st3 where h: "(case picture_host el of
      Some t \<Rightarrow> if \<not> ?alone \<and> caps = [] then captions_of env res (own_captions t) st2 else (caps, st2)
    | None \<Rightarrow> (caps, st2)) = (hosted, st3)" by (metis surj_pair)
  have one: "grown (ce_page env) (snd st) w1"
    using satellites_grown [OF ready_ok [OF "14.prems"], of res "mn_children el"] s ready_ok [OF "14.prems"]
    by (auto split: if_splits)
  have two: "grown (ce_page env) w1 (snd st2)"
    using "14.IH"(1) [OF refl s [symmetric] refl refl] grown_ok [OF one] by (simp add: c)
  have "grown (ce_page env) (snd st2) (snd st3)"
    using "14.IH"(2) [OF refl s [symmetric] refl refl c [symmetric] refl] grown_ok [OF two] h
    by (auto split: option.splits if_splits)
  with one two have three: "grown (ce_page env) (snd st) (snd st3)" by (blast intro: grown_trans)
  obtain pic w4 where p: "open_float_picture env res (picture_host el) parent (hosted @ texts) foots (snd st3) = (pic, w4)" by (metis surj_pair)
  note p1 = open_float_picture_grown [OF ready_grown [OF "14.prems" three] p]
  have four: "grown (ce_page env) (snd st) w4" using three p1 by (blast intro: grown_trans)
  have "grown (ce_page env) (snd st) (snd (dl_walk env res (filter (\<lambda>n. \<not> is_text n \<and> mn_tag n \<noteq> ''caption'') rest) (Some pic) (fst st3, w5)))"
    if "picture_host el = Some n" "picture_head pic (body_nodes n) w4 = (rest, w5)" for n rest w5
  proof -
    have five: "grown (ce_page env) w4 w5" using picture_head_grown [OF grown_ok [OF four], of pic "body_nodes n"] that(2) by simp
    have "ready env w5 (Some pic)" using p1 five by (blast intro: ready_grown)
    with "14.IH"(3) [OF refl s [symmetric] refl refl c [symmetric] refl h [symmetric] refl p [symmetric] refl that(1) that(2) [symmetric]]
    show ?thesis using grown_trans [OF four five] by (auto intro: grown_trans)
  qed
  with four show ?case
    unfolding dl_picture.simps Let_def s c h by (auto simp: c h p split: option.split prod.split)
next
  case (15 env res el parent st)
  obtain texts foots w1 where s: "satellites env res (mn_children el) (snd st) = (texts, foots, w1)" by (metis prod_cases3)
  have one: "grown (ce_page env) (snd st) w1"
    using satellites_grown [OF ready_ok [OF "15.prems"], of res "mn_children el"] by (simp add: s)
  have "grown (ce_page env) (snd st) (snd (text_like env res c parent (None, w1)))" if "float_host el = Some c" for c
    using "15.IH" [OF s [symmetric] refl that] ready_grown [OF "15.prems" one] by (auto intro: grown_trans [OF one])
  with one show ?case
    by (auto simp: code_group.simps s case_prod_beta' split: option.split intro: attached)
qed

section \<open>Properties\<close>

lemma doclang_writer_ok: "writer_ok (ce_page env) (doclang_writer env tree)"
proof -
  have "ready env (new_writer (ce_page env)) kBodyRef" by (simp add: ready_def new_writer_ok)
  then show ?thesis
    using grown_ok [OF doclang_grown(2) [of env "(None, new_writer (ce_page env))"]] by (simp add: doclang_writer_def)
qed

text \<open>
  Where the response opens a \<^verbatim>\<open>doclang\<close> element, and the piece that is read: from the first
  \<^verbatim>\<open><doclang\<close>, whatever follows it, to the first \<^verbatim>\<open></doclang>\<close> behind that.
\<close>

definition opening_tag :: "string \<Rightarrow> bool" where
  "opening_tag body \<longleftrightarrow>
     (\<exists>before after. body = before @ ''<doclang'' @ after
        \<and> (prefix ''>'' after \<or> (\<exists>c cs. after = c # cs \<and> is_space c \<and> CHR ''>'' \<in> set cs)))"

definition first_piece :: "string \<Rightarrow> string \<Rightarrow> bool" where
  "first_piece body f \<longleftrightarrow>
     (\<exists>before inner rest. body = before @ f @ rest \<and> f = inner @ ''</doclang>'' \<and> prefix ''<doclang'' f
        \<and> (\<forall>k < length before. \<not> prefix ''<doclang'' (drop k body))
        \<and> (\<forall>k < length inner. \<not> prefix ''</doclang>'' (drop k (f @ rest))))"

lemma opens_doclang_alt:
  "opens_doclang after \<longleftrightarrow> prefix ''>'' after \<or> (\<exists>c cs. after = c # cs \<and> is_space c \<and> CHR ''>'' \<in> set cs)"
  by (cases after) (auto simp: opens_doclang_def)

lemma has_doclang_iff: "has_doclang body \<longleftrightarrow> opening_tag body"
proof (induction body rule: has_doclang.induct)
  case (1 s)
  show ?case
  proof (cases "find_sub ''<doclang'' s")
    case None
    then have "\<not> opening_tag s" unfolding find_sub_None opening_tag_def sublist_def by blast
    with None show ?thesis by (subst has_doclang.simps) simp
  next
    case (Some p)
    obtain b a where p: "p = (b, a)" by fastforce
    have s: "s = b @ ''<doclang'' @ a" using find_sub_split Some p by blast
    have tail: "has_doclang (''doclang'' @ a) \<longleftrightarrow> opening_tag (''doclang'' @ a)" using 1 [OF Some p [symmetric]] by simp
    have "opening_tag s \<longleftrightarrow> opens_doclang a \<or> opening_tag (''doclang'' @ a)"
    proof
      assume "opening_tag s"
      then obtain c d where cd: "s = c @ ''<doclang'' @ d" "opens_doclang d"
        unfolding opening_tag_def opens_doclang_alt by blast
      have "length b \<le> length c"
        using find_sub_before [OF Some [unfolded p], of "length c"] cd(1) by (force simp: not_le)
      show "opens_doclang a \<or> opening_tag (''doclang'' @ a)"
      proof (cases "length b = length c")
        case True
        then show ?thesis using cd s by simp
      next
        case False
        then have "drop (Suc (length b)) s = drop (Suc (length b)) c @ ''<doclang'' @ d"
          using cd(1) \<open>length b \<le> length c\<close> by simp
        moreover have "drop (Suc (length b)) s = ''doclang'' @ a" by (simp add: s)
        ultimately show ?thesis using cd(2) unfolding opening_tag_def opens_doclang_alt by metis
      qed
    next
      assume "opens_doclang a \<or> opening_tag (''doclang'' @ a)"
      then show "opening_tag s"
      proof
        assume "opens_doclang a"
        then show ?thesis using s unfolding opening_tag_def opens_doclang_alt by blast
      next
        assume "opening_tag (''doclang'' @ a)"
        then obtain c d where "''doclang'' @ a = c @ ''<doclang'' @ d" "opens_doclang d"
          unfolding opening_tag_def opens_doclang_alt by blast
        then have "s = (b @ ''<'' @ c) @ ''<doclang'' @ d" "opens_doclang d" using s by simp_all
        then show ?thesis unfolding opening_tag_def opens_doclang_alt by blast
      qed
    qed
    then show ?thesis using Some p tail by (subst has_doclang.simps) simp
  qed
qed

lemma first_piece_found:
  assumes "opening_tag body"
  shows "doclang_fragment body = Some f \<longleftrightarrow> first_piece body f"
proof
  assume "doclang_fragment body = Some f"
  then obtain before after inner rest where 1: "find_sub ''<doclang'' body = Some (before, after)"
    and 2: "find_sub ''</doclang>'' (''<doclang'' @ after) = Some (inner, rest)" and f: "f = inner @ ''</doclang>''"
    by (auto simp: doclang_fragment_def split: if_splits option.splits)
  have b: "body = before @ ''<doclang'' @ after" using find_sub_split [OF 1] .
  have a: "''<doclang'' @ after = inner @ ''</doclang>'' @ rest" using find_sub_split [OF 2] .
  then have fr: "f @ rest = ''<doclang'' @ after" by (simp add: f)
  have "prefix ''<doclang'' (f @ rest)" unfolding fr by (rule prefixI) (rule refl)
  then have "prefix ''<doclang'' f" by (rule prefix_length_prefix) (simp_all add: f)
  moreover have "body = before @ f @ rest" using fr b by simp
  ultimately show "first_piece body f"
    unfolding first_piece_def using find_sub_before [OF 1] find_sub_before [OF 2] f fr by metis
next
  assume "first_piece body f"
  then obtain before inner rest where b: "body = before @ f @ rest" "f = inner @ ''</doclang>''" "prefix ''<doclang'' f"
    and first: "\<forall>k < length before. \<not> prefix ''<doclang'' (drop k body)"
      "\<forall>k < length inner. \<not> prefix ''</doclang>'' (drop k (f @ rest))"
    unfolding first_piece_def by blast
  obtain g where g: "f = ''<doclang'' @ g" using b(3) by (rule prefixE)
  have 1: "find_sub ''<doclang'' body = Some (before, g @ rest)"
    by (rule find_sub_first) (use b(1) g first(1) in simp_all)
  have 2: "find_sub ''</doclang>'' (f @ rest) = Some (inner, rest)"
    by (rule find_sub_first) (use b(2) first(2) in simp_all)
  have "''<doclang'' @ g @ rest = f @ rest" by (simp add: g)
  with 1 2 assms show "doclang_fragment body = Some f"
    unfolding doclang_fragment_def has_doclang_iff by (simp only: if_False not_not simp_thms option.case prod.case b(2))
qed

lemma root_found: "doclang_root body = Some tree \<longleftrightarrow>
  opening_tag body \<and> (\<exists>f. first_piece body f \<and> find_element ''doclang'' (parse_markup KXml f) = Some tree)"
proof (cases "opening_tag body")
  case True
  then show ?thesis by (auto simp: doclang_root_def bind_eq_Some_conv first_piece_found)
next
  case False
  then show ?thesis by (simp add: doclang_root_def doclang_fragment_def has_doclang_iff)
qed

text \<open>
  A response whose first \<^verbatim>\<open><doclang\<close> starts a longer name fails, although a complete \<^verbatim>\<open>doclang\<close>
  element follows.
\<close>

lemma later_element_missed:
  "opening_tag ''<doclangx></doclang><doclang></doclang>''"
  "doclang_fragment ''<doclangx></doclang><doclang></doclang>'' = Some ''<doclangx></doclang>''"
proof -
  show opened: "opening_tag ''<doclangx></doclang><doclang></doclang>''"
    unfolding opening_tag_def by (rule exI [of _ "''<doclangx></doclang>''"], rule exI [of _ "''></doclang>''"]) simp
  show "doclang_fragment ''<doclangx></doclang><doclang></doclang>'' = Some ''<doclangx></doclang>''"
    using opened by (simp add: doclang_fragment_def has_doclang_iff)
qed

text \<open>
  C33: what becomes of a DocLang response.  The piece that is read runs from the first
  \<^verbatim>\<open><doclang\<close> of the response, also when that is only the start of a longer name, to the first
  \<^verbatim>\<open></doclang>\<close> behind it.  When the response opens a \<^verbatim>\<open>doclang\<close> element somewhere and this piece
  holds a root element, the document is what the walk of that root wrote, one tree from its
  body with every item attributed to the page.  In every other case, and only then, the page
  fails with the one message.
\<close>

theorem doclang_page:
  "case map_doclang env body of
     Inr (doc, warnings) \<Rightarrow> page_tree (ce_page env) doc \<and> opening_tag body
       \<and> (\<exists>f tree. first_piece body f \<and> find_element ''doclang'' (parse_markup KXml f) = Some tree
            \<and> is_tree (lw_entries (doclang_writer env tree)) doc
            \<and> finish (ce_page env) ''DocLang'' True (doclang_writer env tree) = Inr (doc, warnings))
   | Inl message \<Rightarrow> message = ''No <doclang> XML fragment found in VLM response.''
       \<and> \<not> (opening_tag body \<and> (\<exists>f. first_piece body f \<and> find_element ''doclang'' (parse_markup KXml f) \<noteq> None))"
proof (cases "doclang_root body")
  case None
  have "doclang_root body \<noteq> Some tree" for tree using None by simp
  then have "\<not> (opening_tag body \<and> (\<exists>f. first_piece body f \<and> find_element ''doclang'' (parse_markup KXml f) \<noteq> None))"
    unfolding root_found by blast
  with None show ?thesis by (simp add: map_doclang_def)
next
  case (Some tree)
  obtain doc ws where d: "finish (ce_page env) ''DocLang'' True (doclang_writer env tree) = Inr (doc, ws)" "page_tree (ce_page env) doc"
    using finish_allowed [OF doclang_writer_ok] .
  from Some obtain f where "opening_tag body" "first_piece body f" "find_element ''doclang'' (parse_markup KXml f) = Some tree"
    unfolding root_found by blast
  with d Some finish_tree [OF doclang_writer_ok d(1)] show ?thesis by (auto simp: map_doclang_def)
qed

lemma clamp_mono: "x \<le> y \<Longrightarrow> lo \<le> hi \<Longrightarrow> std_clamp x lo hi \<le> std_clamp (y :: real) lo hi"
  by (simp add: std_clamp_def)

lemma scaled_box_on_page:
  fixes page
  assumes "mono rnd" and "l \<le> r" and "t \<le> b" and "0 \<le> sx" and "0 \<le> sy"
  defines "box \<equiv> scaled_box rnd page l t r b sx sy"
  shows "0 \<le> bb_l box \<and> bb_l box \<le> bb_r box \<and> bb_r box \<le> real (pg_width page)
     \<and> 0 \<le> bb_t box \<and> bb_t box \<le> bb_b box \<and> bb_b box \<le> real (pg_height page)"
proof -
  have "rnd (l * sx) \<le> rnd (r * sx)" "rnd (t * sy) \<le> rnd (b * sy)"
    using assms(2-5) by (auto intro!: monoD [OF assms(1)] mult_right_mono)
  then show ?thesis
    by (simp add: box_def scaled_box_def Let_def clamp_mono std_clamp_bounds)
qed

lemma quartet_on_page:
  fixes rx ry vs
  assumes "mono (ce_rnd env)" and "ce_rnd env 0 = 0"
  defines "box \<equiv> quartet_box env rx ry vs"
  shows "0 \<le> bb_l box \<and> bb_l box \<le> bb_r box \<and> bb_r box \<le> real (pg_width (ce_page env))
     \<and> 0 \<le> bb_t box \<and> bb_t box \<le> bb_b box \<and> bb_b box \<le> real (pg_height (ce_page env))"
proof -
  have "0 \<le> ce_rnd env x" if "0 \<le> x" for x using monoD [OF assms(1) that] assms(2) by simp
  then show ?thesis unfolding box_def quartet_box_def Let_def
    by (intro scaled_box_on_page [OF assms(1)]) simp_all
qed

text \<open>
  C34: a DocLang location stays on the page.  Whatever numbers and resolutions the model wrote, in
  whatever order it named the corners, the box of an element has its corners in order and inside the
  page, for a rounding that is monotone and keeps zero.
\<close>

theorem doclang_box_on_page:
  assumes "mono (ce_rnd env)" and "ce_rnd env 0 = 0" and "box_of env res nodes = Some box"
  shows "0 \<le> bb_l box \<and> bb_l box \<le> bb_r box \<and> bb_r box \<le> real (pg_width (ce_page env))
     \<and> 0 \<le> bb_t box \<and> bb_t box \<le> bb_b box \<and> bb_b box \<le> real (pg_height (ce_page env))"
proof -
  have "\<exists>rx ry vs. box = quartet_box env rx ry vs" if "box_scan env res vs0 rx ry nodes = Some box" for vs0 rx ry
    using that by (induction env res vs0 rx ry nodes rule: box_scan.induct) (auto simp: Let_def split: if_splits)
  from this [OF assms(3) [unfolded box_of_def]] obtain rx ry vs where "box = quartet_box env rx ry vs" by blast
  then show ?thesis using quartet_on_page [OF assms(1,2)] by simp
qed

definition sample_location :: "string \<Rightarrow> markup_node" where
  "sample_location v = MarkupNode ''location'' [] [(''value'', v)] []"

theorem doclang_box_on_page_witness:
  "let env = \<lparr>ce_lib = pixel_library, ce_rnd = id, ce_dbl = Some, ce_byte_size = \<lambda>_. 0, ce_page = list_page\<rparr>
   in \<exists>box. box_of env default_resolution (map sample_location [''9'', ''9'', ''1'', ''1'']) = Some box
        \<and> bb_l box \<le> bb_r box \<and> bb_t box \<le> bb_b box"
proof -
  let ?env = "\<lparr>ce_lib = pixel_library, ce_rnd = id, ce_dbl = Some, ce_byte_size = \<lambda>_. 0, ce_page = list_page\<rparr>"
  obtain box where b: "box_of ?env default_resolution (map sample_location [''9'', ''9'', ''1'', ''1'']) = Some box"
    by (simp add: box_of_def sample_location_def is_text_def has_attr_def)
  from doclang_box_on_page [OF _ _ b] b show ?thesis by (auto simp: mono_def)
qed

end
