(* ===== verification/Doctags.thy ===== *)
theory Doctags
  imports Chandra
begin

text \<open>
  \<^verbatim>\<open>src/mapping/doctags.cpp\<close>: DocTags.  The tokens of the response become elements, lists, inline
  groups and key-value regions of a document.  What the pointer arguments of the code collect is
  the record \<open>doctags_page\<close>; the order of the body's children is returned by every emitter.
\<close>

section \<open>Numbers and boxes\<close>

text \<open>
  \<^verbatim>\<open>std::stol\<close> and \<^verbatim>\<open>std::stoi\<close>: the number a text begins with, if it is within the bounds of the type.
\<close>

definition std_sto :: "nat \<Rightarrow> string \<Rightarrow> int option" where
  "std_sto bits s =
     (let s1 = dropWhile is_space s; negative = starts_with s1 ''-'';
          ds = takeWhile is_digit (if negative \<or> starts_with s1 ''+'' then tl s1 else s1);
          number = (if negative then - int (digits_value ds) else int (digits_value ds))
      in if ds = [] \<or> number < - (2 ^ (bits - 1)) \<or> 2 ^ (bits - 1) \<le> number then None else Some number)"

definition std_stol :: "string \<Rightarrow> int option" where "std_stol = std_sto 64"

definition std_stoi :: "string \<Rightarrow> int option" where "std_stoi = std_sto 32"

definition kLocGrid :: real where "kLocGrid = 500"

definition kCreatedBy :: string where "kCreatedBy = ''load_from_doctags''"

record element =
  el_name :: string
  el_locs :: "int list"
  el_text :: string
  el_otsl :: string
  el_class_tags :: "string list"
  el_has_caption :: bool
  el_caption_locs :: "int list"
  el_caption_text :: string

definition new_element :: element where
  "new_element = \<lparr>el_name = [], el_locs = [], el_text = [], el_otsl = [], el_class_tags = [], el_has_caption = False,
     el_caption_locs = [], el_caption_text = []\<rparr>"

definition locs_box :: "(real \<Rightarrow> real) \<Rightarrow> page_context \<Rightarrow> int list \<Rightarrow> bounding_box" where
  "locs_box rnd page locs =
     (if length locs < 4 \<or> pg_width page = 0 \<or> pg_height page = 0 then full_page_box page
      else let edge = (\<lambda>i extent. rnd (rnd (rnd (of_int (locs ! i)) / kLocGrid) * real extent))
           in \<lparr>bb_l = edge 0 (pg_width page), bb_t = edge 1 (pg_height page), bb_r = edge 2 (pg_width page), bb_b = edge 3 (pg_height page),
               bb_origin = COORD_ORIGIN_TOPLEFT\<rparr>)"

definition prov_with_charspan :: "page_context \<Rightarrow> bounding_box \<Rightarrow> int \<Rightarrow> int \<Rightarrow> provenance" where
  "prov_with_charspan page box a b = (make_prov page box)\<lparr>pv_charspan := Some (a, b)\<rparr>"

definition is_container :: "string \<Rightarrow> bool" where
  "is_container tag \<longleftrightarrow> tag = ''picture'' \<or> tag = ''chart'' \<or> tag = ''table'' \<or> tag = ''otsl''"

definition is_group_container :: "string \<Rightarrow> bool" where
  "is_group_container tag \<longleftrightarrow> tag = ''ordered_list'' \<or> tag = ''unordered_list'' \<or> tag = ''inline'' \<or> tag = ''key_value_region''"

section \<open>Tokens inside a chunk\<close>

text \<open>The first locations, up to \<open>n\<close> of them; one that is no number is passed over.\<close>

function locs_from :: "nat \<Rightarrow> string \<Rightarrow> int list" where
  "locs_from n s =
     (if n = 0 then []
      else case find_sub ''<loc_'' s of
        None \<Rightarrow> []
      | Some (_, after) \<Rightarrow>
          (case find_sub ''>'' after of
             None \<Rightarrow> []
           | Some (number, rest) \<Rightarrow>
               (case std_stol number of
                  None \<Rightarrow> locs_from n rest
                | Some v \<Rightarrow> v # locs_from (n - 1) rest)))"
  by pat_completeness auto

termination by (relation "measure (\<lambda>(_, s). length s)") (auto dest!: find_sub_split)

declare locs_from.simps [simp del]

definition first_locs :: "string \<Rightarrow> int list" where
  "first_locs chunk = locs_from 4 chunk"

text \<open>The text without the tokens that are not kept.\<close>

function strip_tokens :: "(string \<Rightarrow> bool) \<Rightarrow> string \<Rightarrow> string" where
  "strip_tokens keep s =
     (case find_sub ''<'' s of
        None \<Rightarrow> s
      | Some (before, after) \<Rightarrow>
          (case find_sub ''>'' after of
             None \<Rightarrow> s
           | Some (token, rest) \<Rightarrow>
               before @ (if keep token then ''<'' @ token @ ''>'' else []) @ strip_tokens keep rest))"
  by pat_completeness auto

termination by (relation "measure (\<lambda>(_, s). length s)") (auto dest!: find_sub_split)

declare strip_tokens.simps [simp del]

definition inner_keep :: "string \<Rightarrow> bool" where
  "inner_keep token \<longleftrightarrow> token = [] \<or> (hd token = CHR ''_'' \<and> last token = CHR ''_'')
     \<or> (\<not> is_alpha (hd token) \<and> hd token \<noteq> CHR ''/'')"

definition inner_text :: "string \<Rightarrow> string" where
  "inner_text chunk = trim (strip_tokens inner_keep chunk)"

definition clean_cell_text :: "string \<Rightarrow> string" where
  "clean_cell_text content =
     trim (strip_tokens (\<lambda>token. \<not> starts_with token ''loc_'' \<and> \<not> starts_with token ''link_'') content)"

function link_targets :: "string \<Rightarrow> int list" where
  "link_targets s =
     (case find_sub ''<link_'' s of
        None \<Rightarrow> []
      | Some (_, after) \<Rightarrow>
          (case find_sub ''>'' after of
             None \<Rightarrow> []
           | Some (number, rest) \<Rightarrow>
               (case std_stoi number of None \<Rightarrow> [] | Some v \<Rightarrow> [v]) @ link_targets rest))"
  by pat_completeness auto

termination by (relation "measure length") (auto dest!: find_sub_split)

declare link_targets.simps [simp del]

section \<open>Vocabularies\<close>

definition kClassificationLabels :: "(string \<times> string) list" where
  "kClassificationLabels =
     [
      (''logo'', ''logo''), (''photograph'', ''photograph''), (''icon'', ''icon''),
      (''engineering_drawing'', ''engineering_drawing''), (''line_chart'', ''line_chart''),
      (''bar_chart'', ''bar_chart''), (''other'', ''other''), (''table'', ''table''),
      (''flow_chart'', ''flow_chart''), (''screenshot_from_computer'', ''screenshot_from_computer''),
      (''signature'', ''signature''), (''screenshot_from_manual'', ''screenshot_from_manual''),
      (''geographical_map'', ''geographical_map''), (''pie_chart'', ''pie_chart''),
      (''page_thumbnail'', ''page_thumbnail''), (''stamp'', ''stamp''), (''music'', ''music''),
      (''calendar'', ''calendar''), (''qr_code'', ''qr_code''), (''bar_code'', ''bar_code''),
      (''full_page_image'', ''full_page_image''), (''scatter_plot'', ''scatter_plot''),
      (''chemistry_structure'', ''chemistry_structure''), (''topographical_map'', ''topographical_map''),
      (''crossword_puzzle'', ''crossword_puzzle''), (''box_plot'', ''box_plot''),
      (''stacked_bar_chart'', ''stacked_bar_chart''), (''scatter_chart'', ''scatter_chart''),
      (''heatmap'', ''heatmap''), (''natural_image'', ''natural_image''),
      (''remote_sensing'', ''remote_sensing''), (''screenshot'', ''screenshot''),
      (''chemistry_molecular_structure'', ''chemistry_molecular_structure''),
      (''chemistry_markush_structure'', ''chemistry_markush_structure''),
      (''picture_group'', ''picture_group''), (''line'', ''line_chart''), (''dot_line'', ''line_chart''),
      (''vbar_categorical'', ''bar_chart''),
      (''hbar_categorical'', ''bar_chart'')
     ]"

definition is_classification_tag :: "string \<Rightarrow> bool" where
  "is_classification_tag token \<longleftrightarrow> token \<in> fst ` set kClassificationLabels"

text \<open>The first label of the list that was seen; the order in which tags came does not matter.\<close>

definition pick_classification :: "string list \<Rightarrow> string" where
  "pick_classification seen =
     (case filter (\<lambda>(tag, mapped). tag \<in> set seen) kClassificationLabels of [] \<Rightarrow> [] | (tag, mapped) # _ \<Rightarrow> mapped)"

definition kLanguages :: "(string \<times> code_language_label) list" where
  "kLanguages =
     [
      (''Ada'', CODE_LANGUAGE_LABEL_ADA), (''Awk'', CODE_LANGUAGE_LABEL_AWK),
      (''Bash'', CODE_LANGUAGE_LABEL_BASH), (''bc'', CODE_LANGUAGE_LABEL_BC),
      (''C'', CODE_LANGUAGE_LABEL_C), (''C#'', CODE_LANGUAGE_LABEL_C_SHARP),
      (''C++'', CODE_LANGUAGE_LABEL_C_PLUS_PLUS), (''CMake'', CODE_LANGUAGE_LABEL_CMAKE),
      (''COBOL'', CODE_LANGUAGE_LABEL_COBOL), (''CSS'', CODE_LANGUAGE_LABEL_CSS),
      (''Ceylon'', CODE_LANGUAGE_LABEL_CEYLON), (''Clojure'', CODE_LANGUAGE_LABEL_CLOJURE),
      (''Crystal'', CODE_LANGUAGE_LABEL_CRYSTAL), (''Cuda'', CODE_LANGUAGE_LABEL_CUDA),
      (''Cython'', CODE_LANGUAGE_LABEL_CYTHON), (''D'', CODE_LANGUAGE_LABEL_D),
      (''Dart'', CODE_LANGUAGE_LABEL_DART), (''dc'', CODE_LANGUAGE_LABEL_DC),
      (''Dockerfile'', CODE_LANGUAGE_LABEL_DOCKERFILE), (''DocLang'', CODE_LANGUAGE_LABEL_DOCLANG),
      (''Elixir'', CODE_LANGUAGE_LABEL_ELIXIR), (''Erlang'', CODE_LANGUAGE_LABEL_ERLANG),
      (''FORTRAN'', CODE_LANGUAGE_LABEL_FORTRAN), (''Forth'', CODE_LANGUAGE_LABEL_FORTH),
      (''Go'', CODE_LANGUAGE_LABEL_GO), (''HTML'', CODE_LANGUAGE_LABEL_HTML),
      (''Haskell'', CODE_LANGUAGE_LABEL_HASKELL), (''Haxe'', CODE_LANGUAGE_LABEL_HAXE),
      (''Java'', CODE_LANGUAGE_LABEL_JAVA), (''JavaScript'', CODE_LANGUAGE_LABEL_JAVASCRIPT),
      (''JSON'', CODE_LANGUAGE_LABEL_JSON), (''Julia'', CODE_LANGUAGE_LABEL_JULIA),
      (''Kotlin'', CODE_LANGUAGE_LABEL_KOTLIN), (''Latex'', CODE_LANGUAGE_LABEL_LATEX),
      (''Lisp'', CODE_LANGUAGE_LABEL_LISP), (''Lua'', CODE_LANGUAGE_LABEL_LUA),
      (''Matlab'', CODE_LANGUAGE_LABEL_MATLAB), (''MoonScript'', CODE_LANGUAGE_LABEL_MOONSCRIPT),
      (''Nim'', CODE_LANGUAGE_LABEL_NIM), (''OCaml'', CODE_LANGUAGE_LABEL_OCAML),
      (''ObjectiveC'', CODE_LANGUAGE_LABEL_OBJECTIVEC), (''Octave'', CODE_LANGUAGE_LABEL_OCTAVE),
      (''PHP'', CODE_LANGUAGE_LABEL_PHP), (''Pascal'', CODE_LANGUAGE_LABEL_PASCAL),
      (''Perl'', CODE_LANGUAGE_LABEL_PERL), (''Prolog'', CODE_LANGUAGE_LABEL_PROLOG),
      (''Python'', CODE_LANGUAGE_LABEL_PYTHON), (''Racket'', CODE_LANGUAGE_LABEL_RACKET),
      (''Ruby'', CODE_LANGUAGE_LABEL_RUBY), (''Rust'', CODE_LANGUAGE_LABEL_RUST),
      (''SML'', CODE_LANGUAGE_LABEL_SML), (''SQL'', CODE_LANGUAGE_LABEL_SQL),
      (''Scala'', CODE_LANGUAGE_LABEL_SCALA), (''Scheme'', CODE_LANGUAGE_LABEL_SCHEME),
      (''Swift'', CODE_LANGUAGE_LABEL_SWIFT), (''Tikz'', CODE_LANGUAGE_LABEL_TIKZ),
      (''TypeScript'', CODE_LANGUAGE_LABEL_TYPESCRIPT), (''VisualBasic'', CODE_LANGUAGE_LABEL_VISUALBASIC),
      (''XML'', CODE_LANGUAGE_LABEL_XML), (''YAML'', CODE_LANGUAGE_LABEL_YAML)
     ]"

definition code_language_of :: "string \<Rightarrow> code_language_label" where
  "code_language_of raw = (case map_of kLanguages raw of None \<Rightarrow> CODE_LANGUAGE_LABEL_UNKNOWN | Some l \<Rightarrow> l)"

section \<open>Emitting elements\<close>

record doctags_page =
  dg_doc :: document
  dg_raster :: page_raster
  dg_over_budget :: nat
  dg_over_bytes :: nat
  dg_too_large :: nat
  dg_warnings :: "warning list"

definition new_doctags_page :: "page_context \<Rightarrow> doctags_page" where
  "new_doctags_page page =
     \<lparr>dg_doc = empty_document,
      dg_raster = new_raster (pg_png page) (pg_width page) (pg_height page) (pg_crops page),
      dg_over_budget = 0, dg_over_bytes = 0, dg_too_large = 0, dg_warnings = []\<rparr>"

definition on_doc :: "(document \<Rightarrow> document) \<Rightarrow> doctags_page \<Rightarrow> doctags_page" where
  "on_doc f st = st\<lparr>dg_doc := f (dg_doc st)\<rparr>"

definition warn :: "warning list \<Rightarrow> doctags_page \<Rightarrow> doctags_page" where
  "warn ws st = st\<lparr>dg_warnings := dg_warnings st @ ws\<rparr>"

definition last_text :: "doctags_page \<Rightarrow> nat" where
  "last_text st = length (doc_texts (dg_doc st)) - 1"

text \<open>The caption of a container, before its item: the new child of the body, if there is one.\<close>

definition emit_caption :: "chandra_env \<Rightarrow> element \<Rightarrow> doctags_page \<Rightarrow> body_child list \<times> doctags_page" where
  "emit_caption env el st =
     (if \<not> el_has_caption el then ([], st)
      else let t = trim (el_caption_text el);
               prov = prov_with_charspan (ce_page env) (locs_box (ce_rnd env) (ce_page env) (el_caption_locs el)) 0 (char_count t);
               st1 = on_doc (add_text (ce_page env) DOC_ITEM_LABEL_CAPTION prov t) st
           in ([(TEXT, last_text st1)], st1))"

definition child_refs_of :: "body_child list \<Rightarrow> string list" where
  "child_refs_of children = map (\<lambda>(kind, i). body_child_ref kind i) children"

definition describe :: "string \<Rightarrow> picture_item \<Rightarrow> picture_item" where
  "describe description p =
     (if description = [] then p
      else p\<lparr>pc_meta := (pc_meta p)\<lparr>pm_description := Some (description, kCreatedBy)\<rparr>,
             pc_annotations := pc_annotations p @ [DescriptionAnnotation description kCreatedBy]\<rparr>)"

definition classify :: "string \<Rightarrow> picture_item \<Rightarrow> picture_item" where
  "classify classification p =
     (if classification = [] then p
      else p\<lparr>pc_meta := (pc_meta p)\<lparr>pm_classification := pm_classification (pc_meta p) @ [(classification, kCreatedBy)]\<rparr>,
             pc_annotations := pc_annotations p @ [ClassificationAnnotation classification kCreatedBy]\<rparr>)"

text \<open>The table inside a chart; its title is the class of the picture.\<close>

definition chart_data :: "(table_cell \<Rightarrow> nat) \<Rightarrow> element \<Rightarrow> string \<Rightarrow> nat \<Rightarrow> doctags_page \<Rightarrow> doctags_page" where
  "chart_data byte_size el classification index st =
     (if el_name el \<noteq> ''chart'' \<or> el_otsl el = [] then st
      else case parse_otsl_grid byte_size (el_otsl el) of
        None \<Rightarrow> st
      | Some (data, report) \<Rightarrow>
          let title = (if classification = [] then ''other'' else classification)
          in on_doc (map_last_picture (\<lambda>p.
               p\<lparr>pc_meta := (pc_meta p)\<lparr>pm_tabular_chart := Some (title, [], data)\<rparr>,
                 pc_annotations := pc_annotations p @ [TabularChartAnnotation title data]\<rparr>))
               (warn (note_table_cut report data ''chart data'' (body_child_ref PICTURE index)) st))"

definition crop_region :: "chandra_env \<Rightarrow> bounding_box \<Rightarrow> doctags_page \<Rightarrow> doctags_page" where
  "crop_region env box st =
     (case crop (ce_lib env) (ce_rnd env) (bb_l box) (bb_t box) (bb_r box) (bb_b box) (dg_raster st) of
        (res, img, raster) \<Rightarrow>
          let st1 = st\<lparr>dg_raster := raster\<rparr>
          in case res of
               KAttached \<Rightarrow> on_doc (map_last_picture (\<lambda>p. p\<lparr>pc_image := img\<rparr>)) st1
             | KOverBudget \<Rightarrow> st1\<lparr>dg_over_budget := dg_over_budget st1 + 1\<rparr>
             | KOverByteCap \<Rightarrow> st1\<lparr>dg_over_bytes := dg_over_bytes st1 + 1\<rparr>
             | KRasterTooLarge \<Rightarrow> st1\<lparr>dg_too_large := dg_too_large st1 + 1\<rparr>
             | KFailed \<Rightarrow> st1)"

definition emit_picture :: "chandra_env \<Rightarrow> element \<Rightarrow> doctags_page \<Rightarrow> body_child list \<times> doctags_page" where
  "emit_picture env el st =
     (let page = ce_page env; box = locs_box (ce_rnd env) page (el_locs el);
          (caption, st1) = emit_caption env el st;
          st2 = on_doc (add_picture page (prov_with_charspan page box 0 0)) st1;
          index = length (doc_pictures (dg_doc st2)) - 1;
          classification = pick_classification (el_class_tags el);
          st3 = on_doc (map_last_picture (\<lambda>p. classify classification (describe (trim (el_text el))
                  (p\<lparr>pc_captions := pc_captions p @ child_refs_of caption\<rparr>)))) st2;
          st4 = chart_data (ce_byte_size env) el classification index st3
      in (caption @ [(PICTURE, index)],
          if pg_png page \<noteq> [] \<and> 4 \<le> length (el_locs el) then crop_region env box st4 else st4))"

definition emit_table :: "chandra_env \<Rightarrow> element \<Rightarrow> doctags_page \<Rightarrow> body_child list \<times> doctags_page" where
  "emit_table env el st =
     (let page = ce_page env; box = locs_box (ce_rnd env) page (el_locs el);
          (caption, st1) = emit_caption env el st;
          st2 = on_doc (add_table page (prov_with_charspan page box 0 0)) st1;
          index = length (doc_tables (dg_doc st2)) - 1;
          st3 = on_doc (\<lambda>doc. doc\<lparr>doc_tables := at_index index (\<lambda>t. t\<lparr>tl_captions := tl_captions t @ child_refs_of caption\<rparr>)
                  (doc_tables doc)\<rparr>) st2;
          body = (if el_name el = ''otsl'' \<and> el_otsl el = [] then trim (el_text el) else el_otsl el)
      in (caption @ [(TABLE, index)],
          if body = [] then st3
          else case parse_otsl_grid (ce_byte_size env) body of
            None \<Rightarrow> st3
          | Some (data, report) \<Rightarrow>
              warn (note_table_cut report data ''table'' (body_child_ref TABLE index)) (on_doc (set_last_table_data data) st3)))"

text \<open>A leading \<^verbatim>\<open><_language_>\<close>: the language and the code behind it.\<close>

definition code_language :: "string \<Rightarrow> (string \<times> string) option" where
  "code_language body = (if starts_with body ''<_'' then find_sub ''_>'' (drop 2 body) else None)"

definition add_code_item :: "page_context \<Rightarrow> provenance \<Rightarrow> string \<Rightarrow> document \<Rightarrow> document" where
  "add_code_item page prov t =
     (case code_language t of
        None \<Rightarrow> map_last_text (\<lambda>item. item\<lparr>tx_code_language := CODE_LANGUAGE_LABEL_UNKNOWN\<rparr>) \<circ> add_code page prov t []
      | Some (raw, body) \<Rightarrow>
          map_last_text (\<lambda>item. item\<lparr>tx_code_language := code_language_of raw\<rparr>) \<circ> add_code page prov body raw)"

definition kTextTags :: "(string \<times> doc_item_label) list" where
  "kTextTags = [(''footnote'', DOC_ITEM_LABEL_FOOTNOTE), (''caption'', DOC_ITEM_LABEL_CAPTION),
     (''checkbox_selected'', DOC_ITEM_LABEL_CHECKBOX_SELECTED), (''checkbox_unselected'', DOC_ITEM_LABEL_CHECKBOX_UNSELECTED),
     (''document_index'', DOC_ITEM_LABEL_DOCUMENT_INDEX), (''text'', DOC_ITEM_LABEL_TEXT), (''paragraph'', DOC_ITEM_LABEL_TEXT)]"

definition header_level :: "string \<Rightarrow> int" where
  "header_level tag = (case std_stoi (drop 21 tag) of None \<Rightarrow> 1 | Some n \<Rightarrow> max 1 n)"

text \<open>A tag with a meaning of its own among those that become one text item.\<close>

definition known_tag :: "string \<Rightarrow> bool" where
  "known_tag tag \<longleftrightarrow> tag \<in> {''title'', ''list_item'', ''code'', ''formula'', ''page_header'', ''page_footer''}
     \<or> starts_with tag ''section_header_level_'' \<or> starts_with tag ''subtitle-level_'' \<or> tag \<in> fst ` set kTextTags"

definition add_element :: "page_context \<Rightarrow> string \<Rightarrow> provenance \<Rightarrow> string \<Rightarrow> document \<Rightarrow> document" where
  "add_element page tag prov t =
     (if tag = ''title'' then add_title page prov t
      else if starts_with tag ''section_header_level_'' then add_section_header page (header_level tag) prov t
      else if starts_with tag ''subtitle-level_'' then add_section_header page 1 prov t
      else if tag = ''list_item'' then add_list_item page prov t False []
      else if tag = ''code'' then add_code_item page prov t
      else if tag = ''formula'' then add_formula page prov t
      else if tag = ''page_header'' \<or> tag = ''page_footer''
      then map_last_text (\<lambda>item. item\<lparr>it_layer := CONTENT_LAYER_FURNITURE\<rparr>)
             \<circ> add_text page (if tag = ''page_header'' then DOC_ITEM_LABEL_PAGE_HEADER else DOC_ITEM_LABEL_PAGE_FOOTER) prov t
      else case map_of kTextTags tag of
        Some label \<Rightarrow> add_text page label prov t
      | None \<Rightarrow> map_last_text (\<lambda>item. item\<lparr>it_label_raw := tag\<rparr>) \<circ> add_text page DOC_ITEM_LABEL_TEXT prov t)"

text \<open>Whether something was emitted, its children of the body, and the page.\<close>

definition emit_element ::
  "chandra_env \<Rightarrow> element \<Rightarrow> bounding_box option \<Rightarrow> doctags_page \<Rightarrow> bool \<times> body_child list \<times> doctags_page" where
  "emit_element env el forced st =
     (let page = ce_page env; t = trim (el_text el); tag = el_name el;
          box = (case forced of None \<Rightarrow> locs_box (ce_rnd env) page (el_locs el) | Some b \<Rightarrow> b);
          prov = prov_with_charspan page box 0 (char_count t)
      in if tag = ''picture'' \<or> tag = ''chart'' then (True, emit_picture env el st)
         else if tag = ''table'' \<or> tag = ''otsl'' then (True, emit_table env el st)
         else if \<not> known_tag tag \<and> t = [] \<and> el_otsl el = [] then (False, [], st)
         else let st1 = on_doc (add_element page tag prov t) st in (True, [(TEXT, last_text st1)], st1))"

section \<open>Key-value regions\<close>

text \<open>What follows the opening tag of a chunk.\<close>

definition after_open :: "string \<Rightarrow> string" where
  "after_open chunk = (case find_sub ''>'' chunk of None \<Rightarrow> chunk | Some (_, rest) \<Rightarrow> rest)"

text \<open>The next cell tag, whichever of the two comes first: whether it is a key, and what follows.\<close>

definition next_cell :: "string \<Rightarrow> (bool \<times> string) option" where
  "next_cell s =
     (case (find_sub ''<key_'' s, find_sub ''<value_'' s) of
        (Some (b, k), Some (b', v)) \<Rightarrow> if length b < length b' then Some (True, k) else Some (False, v)
      | (Some (_, k), None) \<Rightarrow> Some (True, k)
      | (None, Some (_, v)) \<Rightarrow> Some (False, v)
      | (None, None) \<Rightarrow> None)"

lemma next_cell_shorter: "next_cell s = Some (is_key, after) \<Longrightarrow> length after < length s"
  by (auto simp: next_cell_def split: option.splits if_splits dest!: find_sub_length)

definition cell_close :: "bool \<Rightarrow> int \<Rightarrow> string" where
  "cell_close is_key n = (if is_key then ''</key_'' else ''</value_'') @ show_int n @ ''>''"

text \<open>The cells with their content; a tag without a number or without its closing tag is passed over.\<close>

function region_cells :: "string \<Rightarrow> (bool \<times> int \<times> string) list" where
  "region_cells s =
     (case next_cell s of
        None \<Rightarrow> []
      | Some (is_key, after) \<Rightarrow>
          (case find_sub ''>'' after of
             None \<Rightarrow> []
           | Some (number, rest) \<Rightarrow>
               (case std_stoi number of
                  None \<Rightarrow> region_cells rest
                | Some n \<Rightarrow>
                    (case find_sub (cell_close is_key n) rest of
                       None \<Rightarrow> region_cells rest
                     | Some (content, rest') \<Rightarrow> (is_key, n, content) # region_cells rest'))))"
  by pat_completeness auto

termination
  by (relation "measure length") (auto dest!: find_sub_split next_cell_shorter)

declare region_cells.simps [simp del]

definition graph_cell_of :: "chandra_env \<Rightarrow> bool \<times> int \<times> string \<Rightarrow> graph_cell" where
  "graph_cell_of env cell =
     (case cell of (is_key, n, content) \<Rightarrow>
        let t = clean_cell_text content; locs = first_locs content; page = ce_page env
        in \<lparr>gc_label = (if is_key then GRAPH_CELL_LABEL_KEY else GRAPH_CELL_LABEL_VALUE), gc_cell_id = n, gc_text = t, gc_orig = t,
            gc_prov = (if length locs = 4 then Some (prov_with_charspan page (locs_box (ce_rnd env) page locs) 0 0) else None)\<rparr>)"

definition graph_links :: "(bool \<times> int \<times> string) list \<Rightarrow> graph_link list" where
  "graph_links cells =
     (let ids = map (\<lambda>(_, n, _). n) cells;
          raw = concat (map (\<lambda>(_, n, content). map (Pair n) (link_targets content)) cells)
      in map (\<lambda>(a, b). \<lparr>gl_label = GRAPH_LINK_LABEL_TO_VALUE, gl_source = a, gl_target = b\<rparr>)
           (filter (\<lambda>(a, b). b \<in> set ids) raw))"

definition region_prov :: "chandra_env \<Rightarrow> string \<Rightarrow> provenance list" where
  "region_prov env body =
     (case find_sub ''<key_'' body of
        None \<Rightarrow> []
      | Some (before, _) \<Rightarrow>
          let locs = first_locs before; page = ce_page env
          in if length locs = 4 then [prov_with_charspan page (locs_box (ce_rnd env) page locs) 0 0] else [])"

definition emit_key_value_region :: "chandra_env \<Rightarrow> string \<Rightarrow> doctags_page \<Rightarrow> body_child list \<times> doctags_page" where
  "emit_key_value_region env chunk st =
     (let body = after_open chunk; cells = region_cells body;
          item = \<lparr>it_self_ref = [], it_parent = None, it_children = [], it_label = DOC_ITEM_LABEL_KEY_VALUE_REGION, it_label_raw = [],
                  it_layer = CONTENT_LAYER_BODY, it_prov = region_prov env body, it_source = page_sources (ce_page env),
                  kv_cells = map (graph_cell_of env) cells, kv_links = graph_links cells\<rparr>;
          st1 = on_doc (\<lambda>doc. doc\<lparr>doc_key_value_items := doc_key_value_items doc @ [item]\<rparr>) st
      in ([(KEY_VALUE, length (doc_key_value_items (dg_doc st1)) - 1)], st1))"

section \<open>Groups\<close>

definition open_group :: "string \<Rightarrow> group_label \<Rightarrow> doctags_page \<Rightarrow> nat \<times> doctags_page" where
  "open_group name label st =
     (let st1 = on_doc (\<lambda>doc. doc\<lparr>doc_groups := doc_groups doc @
            [empty_group\<lparr>gr_name := name, gr_label := label, it_layer := CONTENT_LAYER_BODY\<rparr>]\<rparr>) st
      in (length (doc_groups (dg_doc st1)) - 1, st1))"

text \<open>A child that belongs to a group: its references, and its place among the group's children.\<close>

definition hang_child :: "nat \<Rightarrow> body_child \<Rightarrow> document \<Rightarrow> document" where
  "hang_child g child doc =
     (case child of (kind, i) \<Rightarrow>
        let self_ref = body_child_ref kind i; group_ref = body_child_ref GROUP g;
            doc1 = (case kind of
                      TEXT \<Rightarrow> doc\<lparr>doc_texts := at_index i (stamp_text_item self_ref group_ref) (doc_texts doc)\<rparr>
                    | PICTURE \<Rightarrow> doc\<lparr>doc_pictures := at_index i (stamp_item self_ref group_ref) (doc_pictures doc)\<rparr>
                    | TABLE \<Rightarrow> doc\<lparr>doc_tables := at_index i (stamp_item self_ref group_ref) (doc_tables doc)\<rparr>
                    | _ \<Rightarrow> doc)
        in doc1\<lparr>doc_groups := at_index g (add_child_ref self_ref) (doc_groups doc1)\<rparr>)"

function list_contents :: "string \<Rightarrow> string list" where
  "list_contents s =
     (case find_sub ''<list_item>'' s of
        None \<Rightarrow> []
      | Some (_, after) \<Rightarrow>
          (case find_sub ''</list_item>'' after of
             None \<Rightarrow> []
           | Some (content, rest) \<Rightarrow> content # list_contents rest))"
  by pat_completeness auto

termination by (relation "measure length") (auto dest!: find_sub_split)

declare list_contents.simps [simp del]

definition emit_list_item :: "chandra_env \<Rightarrow> bool \<Rightarrow> nat \<Rightarrow> nat \<times> string \<Rightarrow> doctags_page \<Rightarrow> doctags_page" where
  "emit_list_item env ordered g numbered st =
     (case numbered of (n, content) \<Rightarrow>
        let page = ce_page env; t = inner_text content;
            prov = prov_with_charspan page (locs_box (ce_rnd env) page (first_locs content)) 0 (char_count t);
            st1 = on_doc (add_list_item page prov t ordered (if ordered then show_nat n @ ''.'' else [])) st
        in on_doc (hang_child g (TEXT, last_text st1)) st1)"

definition emit_list_group :: "chandra_env \<Rightarrow> string \<Rightarrow> bool \<Rightarrow> doctags_page \<Rightarrow> body_child list \<times> doctags_page" where
  "emit_list_group env chunk ordered st =
     (let (g, st1) = open_group ''list'' GROUP_LABEL_LIST st
      in ([(GROUP, g)], fold (emit_list_item env ordered g) (List.enumerate 1 (list_contents chunk)) st1))"

text \<open>\<^verbatim>\<open>chunk.rfind("</inline>")\<close>: what comes before the last one.\<close>

definition before_last :: "string \<Rightarrow> string \<Rightarrow> string option" where
  "before_last needle s = map_option (\<lambda>(_, a). rev a) (find_sub (rev needle) (rev s))"

definition inline_content :: "string \<Rightarrow> string" where
  "inline_content chunk =
     (let body = after_open chunk; start_at = length chunk - length body
      in case before_last ''</inline>'' chunk of
           None \<Rightarrow> body
         | Some before \<Rightarrow> if length before < start_at then body else drop start_at before)"

definition opens_tag :: "string \<Rightarrow> bool" where
  "opens_tag after \<longleftrightarrow> after \<noteq> [] \<and> (is_alpha (hd after) \<or> hd after = CHR ''/'' \<or> hd after = CHR ''_'')"

definition skipped_token :: "string \<Rightarrow> bool" where
  "skipped_token token \<longleftrightarrow> token = [] \<or> hd token = CHR ''/'' \<or> hd token = CHR ''_'' \<or> starts_with token ''loc_''"

text \<open>The items of an inline chunk: their tags and their chunks.\<close>

function inline_items :: "string \<Rightarrow> (string \<times> string) list" where
  "inline_items s =
     (case find_sub ''<'' s of
        None \<Rightarrow> []
      | Some (_, after) \<Rightarrow>
          if \<not> opens_tag after then inline_items after
          else case find_sub ''>'' after of
            None \<Rightarrow> []
          | Some (token, rest) \<Rightarrow>
              if skipped_token token then inline_items rest
              else let closing = ''</'' @ token @ ''>''
                   in case find_sub closing rest of
                        None \<Rightarrow> inline_items rest
                      | Some (content, rest') \<Rightarrow>
                          (token, ''<'' @ token @ ''>'' @ content @ closing) # inline_items rest')"
  by pat_completeness auto

termination by (relation "measure length") (auto dest!: find_sub_split)

declare inline_items.simps [simp del]

definition emit_inline_item :: "chandra_env \<Rightarrow> bounding_box \<Rightarrow> nat \<Rightarrow> string \<times> string \<Rightarrow> doctags_page \<Rightarrow> doctags_page" where
  "emit_inline_item env box g item st =
     (case emit_element env (new_element\<lparr>el_name := fst item, el_text := inner_text (snd item)\<rparr>) (Some box) st of
        (emitted, children, st1) \<Rightarrow> if emitted then on_doc (fold (hang_child g) children) st1 else st1)"

definition emit_inline_group :: "chandra_env \<Rightarrow> string \<Rightarrow> doctags_page \<Rightarrow> body_child list \<times> doctags_page" where
  "emit_inline_group env chunk st =
     (let (g, st1) = open_group ''group'' GROUP_LABEL_INLINE st; content = inline_content chunk; locs = first_locs content;
          page = ce_page env; box = (if length locs = 4 then locs_box (ce_rnd env) page locs else full_page_box page)
      in ([(GROUP, g)], fold (emit_inline_item env box g) (inline_items content) st1))"

section \<open>The mapper\<close>

record doctags_scan =
  ds_items :: nat
  ds_current :: element
  ds_open :: bool
  ds_in_otsl :: bool
  ds_in_caption :: bool
  ds_pending :: "int list"
  ds_order :: "body_child list"
  ds_page :: doctags_page

definition flush :: "chandra_env \<Rightarrow> doctags_scan \<Rightarrow> doctags_scan" where
  "flush env sc =
     (let sc1 = (if ds_open sc
                 then (case emit_element env (ds_current sc) None (ds_page sc) of
                         (emitted, children, st) \<Rightarrow>
                           sc\<lparr>ds_items := (if emitted then ds_items sc + 1 else ds_items sc),
                              ds_order := ds_order sc @ children, ds_page := st\<rparr>)
                 else sc)
      in sc1\<lparr>ds_current := new_element, ds_open := False, ds_in_caption := False, ds_pending := []\<rparr>)"

text \<open>Text goes to the caption or the element that is open.\<close>

definition add_run :: "string \<Rightarrow> doctags_scan \<Rightarrow> doctags_scan" where
  "add_run t sc =
     (if \<not> ds_open sc then sc
      else let el = ds_current sc
           in sc\<lparr>ds_current := (if ds_in_caption sc then el\<lparr>el_caption_text := el_caption_text el @ t\<rparr>
                               else el\<lparr>el_text := el_text el @ t\<rparr>)\<rparr>)"

definition add_loc :: "string \<Rightarrow> doctags_scan \<Rightarrow> doctags_scan" where
  "add_loc number sc =
     (case std_stol number of
        None \<Rightarrow> sc
      | Some v \<Rightarrow>
          let el = ds_current sc
          in if ds_in_caption sc then sc\<lparr>ds_current := el\<lparr>el_caption_locs := el_caption_locs el @ [v]\<rparr>\<rparr>
             else if ds_open sc then sc\<lparr>ds_current := el\<lparr>el_locs := el_locs el @ [v]\<rparr>\<rparr>
             else sc\<lparr>ds_pending := ds_pending sc @ [v]\<rparr>)"

text \<open>\<^verbatim>\<open>current.locs = pending_locs\<close>, for a new element of the name.\<close>

definition begin_element :: "string \<Rightarrow> doctags_scan \<Rightarrow> doctags_scan" where
  "begin_element name sc =
     sc\<lparr>ds_current := (ds_current sc)\<lparr>el_name := name, el_locs := ds_pending sc\<rparr>, ds_pending := [], ds_open := True\<rparr>"

text \<open>A group container with its chunk, and what follows the chunk.\<close>

definition emit_container :: "chandra_env \<Rightarrow> string \<Rightarrow> string \<Rightarrow> doctags_scan \<Rightarrow> doctags_scan \<times> string" where
  "emit_container env token rest sc0 =
     (let sc = flush env sc0; closing = ''</'' @ token @ ''>'';
          (chunk, later) = (case find_sub closing rest of
             None \<Rightarrow> (''<'' @ token @ ''>'' @ rest, [])
           | Some (inner, later) \<Rightarrow> (''<'' @ token @ ''>'' @ inner @ closing, later));
          (children, st) = (if token = ''key_value_region'' then emit_key_value_region env chunk (ds_page sc)
             else if token = ''inline'' then emit_inline_group env chunk (ds_page sc)
             else emit_list_group env chunk (token = ''ordered_list'') (ds_page sc))
      in (sc\<lparr>ds_items := ds_items sc + 1, ds_order := ds_order sc @ children, ds_page := st\<rparr>, later))"

text \<open>One tag, with what follows it: the new state, and where reading goes on.\<close>

definition apply_token :: "chandra_env \<Rightarrow> string \<Rightarrow> string \<Rightarrow> doctags_scan \<Rightarrow> doctags_scan \<times> string" where
  "apply_token env token rest sc =
     (let el = ds_current sc; name = el_name el
      in if starts_with token ''loc_'' then (add_loc (drop 4 token) sc, rest)
         else if token = ''doctag'' \<or> token = ''/doctag'' then (sc, rest)
         else if token \<noteq> [] \<and> hd token = CHR ''_'' then (add_run (''<'' @ token @ ''>'') sc, rest)
         else if ds_in_caption sc then (if token = ''/caption'' then sc\<lparr>ds_in_caption := False\<rparr> else sc, rest)
         else if token = ''caption'' \<and> ds_open sc \<and> is_container name
         then (sc\<lparr>ds_in_caption := True, ds_current := el\<lparr>el_has_caption := True\<rparr>\<rparr>, rest)
         else if token = ''otsl''
         then ((if ds_open sc then sc else begin_element ''otsl'' sc)\<lparr>ds_in_otsl := True\<rparr>, rest)
         else if is_group_container token then emit_container env token rest sc
         else if ds_open sc \<and> is_container name \<and> token = ''/'' @ name then (flush env sc, rest)
         else if ds_open sc \<and> (name = ''picture'' \<or> name = ''chart'') \<and> is_classification_tag token
         then (sc\<lparr>ds_current := el\<lparr>el_class_tags := el_class_tags el @ [token]\<rparr>\<rparr>, rest)
         else if token \<noteq> [] \<and> hd token = CHR ''/''
         then (if ds_open sc \<and> token = ''/'' @ name then flush env sc else sc, rest)
         else (begin_element token (flush env sc), rest))"

definition doctags_step :: "chandra_env \<Rightarrow> string \<Rightarrow> doctags_scan \<Rightarrow> doctags_scan \<times> string" where
  "doctags_step env s sc =
     (if ds_in_otsl sc
      then let (body, rest) = (case find_sub ''</otsl>'' s of None \<Rightarrow> (s, []) | Some br \<Rightarrow> br); el = ds_current sc
           in (sc\<lparr>ds_current := el\<lparr>el_otsl := el_otsl el @ body\<rparr>, ds_in_otsl := False\<rparr>, rest)
      else case find_sub ''<'' s of
        None \<Rightarrow> (add_run s sc, [])
      | Some (before, after) \<Rightarrow>
          if \<not> opens_tag after then (add_run (before @ ''<'') sc, after)
          else let sc1 = (if before \<noteq> [] then add_run before sc else sc)
               in case find_sub ''>'' after of
                    None \<Rightarrow> (sc1, [])
                  | Some (token, rest) \<Rightarrow> apply_token env token rest sc1)"

lemma emit_container_rest: "length (snd (emit_container env token rest sc)) \<le> length rest"
  by (cases "find_sub (''</'' @ token @ ''>'') rest")
     (auto simp: emit_container_def Let_def split: prod.splits dest!: find_sub_length)

lemma apply_token_rest: "length (snd (apply_token env token rest sc)) \<le> length rest"
  by (simp add: apply_token_def Let_def emit_container_rest del: append.simps cong: if_cong)

lemma doctags_step_rest:
  assumes "s \<noteq> []"
  shows "length (snd (doctags_step env s sc)) < length s"
proof (cases "ds_in_otsl sc")
  case True
  then show ?thesis
    using assms by (auto simp: doctags_step_def Let_def split: option.splits dest!: find_sub_length)
next
  case False
  have "length (snd (apply_token env token rest sc1)) < length s"
    if "find_sub ''<'' s = Some (before, after)" "find_sub ''>'' after = Some (token, rest)" for before after token rest sc1
    using apply_token_rest [of env token rest sc1] find_sub_length [OF that(1)] find_sub_length [OF that(2)] by simp
  with False assms show ?thesis
    by (auto simp: doctags_step_def Let_def split: option.splits dest!: find_sub_length)
qed

function scan_doctags :: "chandra_env \<Rightarrow> string \<Rightarrow> doctags_scan \<Rightarrow> doctags_scan" where
  "scan_doctags env s sc =
     (if s = [] then sc else case doctags_step env s sc of (sc1, rest) \<Rightarrow> scan_doctags env rest sc1)"
  by pat_completeness auto

termination
  by (relation "measure (\<lambda>(_, s, _). length s)") (auto, metis length_greater_0_conv doctags_step_rest snd_conv)

declare scan_doctags.simps [simp del]

definition doctags_result :: "chandra_env \<Rightarrow> string \<Rightarrow> doctags_scan" where
  "doctags_result env body =
     flush env (scan_doctags env body
       \<lparr>ds_items = 0, ds_current = new_element, ds_open = False, ds_in_otsl = False, ds_in_caption = False, ds_pending = [],
        ds_order = [], ds_page = new_doctags_page (ce_page env)\<rparr>)"

definition skipped_crops :: "page_context \<Rightarrow> doctags_page \<Rightarrow> warning list" where
  "skipped_crops page st =
     (if 0 < dg_over_budget st
      then [skipped_warning (show_nat (dg_over_budget st) @ '' picture(s) carry no image: the page''
              @ [SQUOTE] @ ''s crop budget ('' @ show_nat (cb_max_crops (pg_crops page)) @ '' crops, ''
              @ show_int \<lfloor>cb_max_area_pages (pg_crops page)\<rfloor> @ ''x the page'' @ [SQUOTE] @ ''s pixels) ran out'')]
      else [])
     @ (if 0 < dg_over_bytes st
        then [skipped_warning (show_nat (dg_over_bytes st) @ '' picture(s) carry no image: the page''
                @ [SQUOTE] @ ''s inline image cap ('' @ show_nat (cb_max_inline_bytes (pg_crops page)) @ '' bytes, ''
                @ show_nat (pr_inline_bytes (dg_raster st)) @ '' attached) ran out'')]
        else [])
     @ (if 0 < dg_too_large st
        then [skipped_warning (show_nat (dg_too_large st) @ '' picture(s) carry no image: the page raster is ''
                @ show_nat (pr_width (dg_raster st)) @ ''x'' @ show_nat (pr_height (dg_raster st))
                @ '', above the '' @ show_nat kMaxRasterPixels @ ''-pixel decode cap'')]
        else [])"

definition map_doctags :: "chandra_env \<Rightarrow> string \<Rightarrow> string + (document \<times> warning list)" where
  "map_doctags env body =
     (if CHR ''<'' \<notin> set body then Inl ''response holds no DocTags markup''
      else let sc = doctags_result env body; st = ds_page sc; page = ce_page env
           in if ds_items sc = 0 then Inl ''DocTags response produced no document items''
              else Inr (finalize_ordered page (ds_order sc) (dg_doc st), dg_warnings st @ skipped_crops page st))"

section \<open>The tree of a page\<close>

text \<open>
  The items of a page that is being built, with the group each hangs from (none: the body).
  Items of groups carry their references already; the others get theirs at the end.
\<close>

definition tree_draft :: "page_context \<Rightarrow> (body_child \<times> lref) list \<Rightarrow> document \<Rightarrow> bool" where
  "tree_draft page es doc \<longleftrightarrow>
     distinct (map fst es) \<and> (\<forall>c. c \<in> fst ` set es \<longleftrightarrow> item_at doc c \<noteq> None)
     \<and> (\<forall>c p b. (c, p) \<in> set es \<longrightarrow> item_at doc c = Some b \<longrightarrow>
          it_children b = map ref_name (kids es (Some c))
          \<and> (\<forall>q. p = Some q \<longrightarrow> it_self_ref b = ref_name c \<and> it_parent b = Some (ref_name q) \<and> (q, None) \<in> set es))
     \<and> it_children (doc_body doc) = [] \<and> sound page doc"

definition pushed :: "page_context \<Rightarrow> document \<Rightarrow> body_child \<Rightarrow> document \<Rightarrow> bool" where
  "pushed page doc c doc' \<longleftrightarrow>
     (\<exists>b. item_at doc' = (item_at doc)(c \<mapsto> b) \<and> it_children b = [] \<and> item_at doc c = None)
     \<and> doc_body doc' = doc_body doc \<and> (sound page doc \<longrightarrow> sound page doc')"

lemma one_more_pushed: "one_more page doc c doc' \<Longrightarrow> pushed page doc c doc'"
  by (auto simp: one_more_def pushed_def)

lemma kids_append [simp]: "kids (es @ fs) p = kids es p @ kids fs p"
  by (simp add: kids_def)

lemma draft_no_kids:
  assumes "tree_draft page es doc" and "item_at doc c = None"
  shows "kids es (Some c) = []"
proof (rule ccontr)
  assume "kids es (Some c) \<noteq> []"
  then obtain d where d: "(d, Some c) \<in> set es" by (auto simp: kids_def filter_empty_conv)
  then obtain b where "item_at doc d = Some b" using assms(1) unfolding tree_draft_def by (metis fst_conv image_eqI option.exhaust)
  with d assms(1) have "(c, None) \<in> set es" unfolding tree_draft_def by blast
  with assms show False unfolding tree_draft_def by (metis fst_conv image_eqI)
qed

lemma draft_push:
  assumes t: "tree_draft page es doc" and "pushed page doc c doc'"
  shows "tree_draft page (es @ [(c, None)]) doc'"
proof -
  obtain b where b: "item_at doc' = (item_at doc)(c \<mapsto> b)" "it_children b = []" "item_at doc c = None"
    "doc_body doc' = doc_body doc" "sound page doc \<longrightarrow> sound page doc'"
    using assms(2) unfolding pushed_def by blast
  have new: "c \<notin> fst ` set es" using t b(3) unfolding tree_draft_def by metis
  have "(d, p) \<in> set es \<Longrightarrow> d \<noteq> c" for d p using new by force
  then show ?thesis
    using t new b draft_no_kids [OF t b(3)] unfolding tree_draft_def
    by (intro conjI allI impI) (auto simp del: split_paired_All)
qed

lemma draft_pushes:
  "tree_draft page es doc \<Longrightarrow> pushed page doc c doc' \<Longrightarrow> pushed page doc' d doc'' \<Longrightarrow>
    tree_draft page (es @ [(c, None), (d, None)]) doc''"
  using draft_push [OF draft_push] by fastforce

text \<open>Every element is pushed: a caption first, then its item.\<close>

lemma charspan_prov [simp]: "pv_page_no (prov_with_charspan page box a b) = to_int32 (pg_no page)"
  by (simp add: prov_with_charspan_def make_prov_def)

lemma pushed_text:
  "it_children item = [] \<Longrightarrow> stamped page item \<Longrightarrow> tx_kind item \<noteq> KNotSet \<Longrightarrow>
    pushed page doc (TEXT, length (doc_texts doc)) (push_text item doc)"
  by (rule one_more_pushed [OF one_more_text])

lemma pushed_new_text:
  assumes "doc' = push_text item doc" and "it_children item = []" and "stamped page item" and "tx_kind item \<noteq> KNotSet"
  shows "pushed page doc (TEXT, length (doc_texts doc') - 1) doc'"
  using pushed_text [OF assms(2-4), of doc] by (simp add: assms(1) push_text_def)

lemma stamped_charspan [simp]: "stamped page (fill_text_base page label (prov_with_charspan page box a b) kind t)"
  by (simp add: stamped_def fill_text_base_def)

definition text_pushed :: "page_context \<Rightarrow> document \<Rightarrow> document \<Rightarrow> bool" where
  "text_pushed page doc doc' \<longleftrightarrow>
     (\<exists>item. doc' = push_text item doc \<and> it_children item = [] \<and> stamped page item \<and> tx_kind item \<noteq> KNotSet)"

lemma text_pushedI:
  "kind \<noteq> KNotSet \<Longrightarrow> text_pushed page doc (push_text (fill_text_base page label (prov_with_charspan page box a b) kind t) doc)"
  unfolding text_pushed_def by (intro exI conjI, rule refl) (simp_all add: base_facts)

lemma text_pushed_edit:
  assumes "text_pushed page doc doc'" and "\<And>item. it_children (f item) = it_children item"
    and "\<And>item. stamped page item \<Longrightarrow> stamped page (f item)" and "\<And>item. tx_kind (f item) = tx_kind item"
  shows "text_pushed page doc (map_last_text f doc')"
  using assms unfolding text_pushed_def by (metis map_last_push)

lemma text_pushed_edits:
  "text_pushed page doc doc' \<Longrightarrow> text_pushed page doc (map_last_text (tx_code_language_update f) doc')"
  "text_pushed page doc doc' \<Longrightarrow> text_pushed page doc (map_last_text (it_layer_update (\<lambda>_. CONTENT_LAYER_FURNITURE)) doc')"
  "text_pushed page doc doc' \<Longrightarrow> text_pushed page doc (map_last_text (it_label_raw_update g) doc')"
  by (erule text_pushed_edit; simp add: stamped_def)+

lemma text_pushed_if: "text_pushed page doc ((if c then f else g) doc) =
    (if c then text_pushed page doc (f doc) else text_pushed page doc (g doc))"
  by simp

lemma add_element_pushes: "text_pushed page doc (add_element page tag (prov_with_charspan page box a b) t doc)"
  unfolding add_element_def add_code_item_def
  by (simp add: text_pushed_if text_pushedI add_text_def add_title_def add_section_header_def add_formula_def add_code_def
      add_list_item_def text_pushed_edits split: option.split cong: if_cong)

lemma text_pushed_pushed: "text_pushed page doc doc' \<Longrightarrow> pushed page doc (TEXT, length (doc_texts doc') - 1) doc'"
  unfolding text_pushed_def using pushed_new_text by blast

lemma emit_caption_cases:
  assumes "emit_caption env el st = (caption, st1)"
  obtains "caption = []" "st1 = st"
  | i where "caption = [(TEXT, i)]" "pushed (ce_page env) (dg_doc st) (TEXT, i) (dg_doc st1)"
proof (cases "el_has_caption el")
  case True
  then have "caption = [(TEXT, last_text st1)] \<and> pushed (ce_page env) (dg_doc st) (TEXT, last_text st1) (dg_doc st1)"
    using assms pushed_new_text [OF refl, of "fill_text_base (ce_page env) DOC_ITEM_LABEL_CAPTION p KText t" "ce_page env" "dg_doc st" for p t]
    by (auto simp: emit_caption_def Let_def on_doc_def last_text_def add_text_def base_facts)
  with that(2) show thesis by blast
qed (use assms that in \<open>simp add: emit_caption_def\<close>)

lemma last_picture_edit:
  "dg_doc st = doc\<lparr>doc_pictures := ps @ [p]\<rparr> \<Longrightarrow>
    dg_doc (on_doc (map_last_picture f) st) = doc\<lparr>doc_pictures := ps @ [f p]\<rparr>"
  by (simp add: on_doc_def map_last_picture_def at_index_def)

definition fresh_picture :: "page_context \<Rightarrow> document \<Rightarrow> doctags_page \<Rightarrow> bool" where
  "fresh_picture page doc st \<longleftrightarrow>
     (\<exists>p. dg_doc st = doc\<lparr>doc_pictures := doc_pictures doc @ [p]\<rparr> \<and> it_children p = [] \<and> stamped page p)"

lemma fresh_edit:
  "fresh_picture page doc st \<Longrightarrow> (\<And>p. it_children (f p) = it_children p) \<Longrightarrow> (\<And>p. stamped page p \<Longrightarrow> stamped page (f p)) \<Longrightarrow>
    fresh_picture page doc (on_doc (map_last_picture f) st)"
  unfolding fresh_picture_def using last_picture_edit by fastforce

lemma fresh_same: "fresh_picture page doc st \<Longrightarrow> dg_doc st' = dg_doc st \<Longrightarrow> fresh_picture page doc st'"
  by (simp add: fresh_picture_def)

lemma fresh_chart: "fresh_picture page doc st \<Longrightarrow> fresh_picture page doc (chart_data byte_size el c i st)"
  unfolding chart_data_def
  by (auto simp: Let_def warn_def stamped_def split: option.split intro!: fresh_edit elim: fresh_same)

lemma fresh_crop: "fresh_picture page doc st \<Longrightarrow> fresh_picture page doc (crop_region env box st)"
  unfolding crop_region_def
  by (auto simp: Let_def stamped_def split: prod.split crop_result.split intro!: fresh_edit elim: fresh_same)

lemma fresh_pushed: "fresh_picture page doc st \<Longrightarrow> pushed page doc (PICTURE, length (doc_pictures doc)) (dg_doc st)"
  unfolding fresh_picture_def using one_more_pushed [OF one_more_picture] by fastforce

definition body_entries :: "body_child list \<Rightarrow> (body_child \<times> lref) list" where
  "body_entries children = map (\<lambda>c. (c, None)) children"

lemma body_entries_simps [simp]: "body_entries [] = []" "body_entries (c # cs) = (c, None) # body_entries cs"
  "body_entries (cs @ ds) = body_entries cs @ body_entries ds" "kids (body_entries cs) None = cs" "kids (body_entries cs) (Some p) = []"
  "fst ` set (body_entries cs) = set cs" "map fst (body_entries cs) = cs" "(c, None) \<in> set (body_entries cs) \<longleftrightarrow> c \<in> set cs"
  by (auto simp: body_entries_def kids_def filter_map comp_def image_image)

lemma emit_caption_draft:
  "tree_draft (ce_page env) es (dg_doc st) \<Longrightarrow> emit_caption env el st = (caption, st1) \<Longrightarrow>
    tree_draft (ce_page env) (es @ body_entries caption) (dg_doc st1) \<and> fst ` set caption \<subseteq> {TEXT}"
  by (erule emit_caption_cases) (auto dest: draft_push)

lemma emit_picture_draft:
  assumes t: "tree_draft (ce_page env) es (dg_doc st)" and e: "emit_picture env el st = (children, st')"
  shows "tree_draft (ce_page env) (es @ body_entries children) (dg_doc st') \<and> fst ` set children \<subseteq> {TEXT, PICTURE} \<and> children \<noteq> []"
proof -
  obtain caption st1 where c: "emit_caption env el st = (caption, st1)" by fastforce
  let ?page = "ce_page env" let ?n = "length (doc_pictures (dg_doc st1))"
  have fresh: "fresh_picture ?page (dg_doc st1) (on_doc (add_picture ?page (prov_with_charspan ?page box 0 0)) st1)" for box
    unfolding fresh_picture_def on_doc_def add_picture_def by (fastforce simp: stamped_def)
  have edit: "it_children (classify x (describe y (p\<lparr>pc_captions := z\<rparr>))) = it_children p"
    "stamped ?page p \<Longrightarrow> stamped ?page (classify x (describe y (p\<lparr>pc_captions := z\<rparr>)))" for x y z p
    by (simp_all add: classify_def describe_def stamped_def)
  have "children = caption @ [(PICTURE, ?n)]"
    using e by (simp add: emit_picture_def Let_def c on_doc_def add_picture_def)
  moreover have "fresh_picture ?page (dg_doc st1) st'"
    using e unfolding emit_picture_def Let_def c prod.case
    by (elim Pair_inject, hypsubst) (simp only: split: if_split, intro conjI impI fresh_crop fresh_chart fresh_edit fresh edit)
  ultimately have "children = caption @ [(PICTURE, ?n)] \<and> pushed ?page (dg_doc st1) (PICTURE, ?n) (dg_doc st')"
    by (simp add: fresh_pushed)
  with emit_caption_draft [OF t c] show ?thesis
    by (auto dest: draft_push)
qed

lemma emit_table_draft:
  assumes t: "tree_draft (ce_page env) es (dg_doc st)" and e: "emit_table env el st = (children, st')"
  shows "tree_draft (ce_page env) (es @ body_entries children) (dg_doc st') \<and> fst ` set children \<subseteq> {TEXT, TABLE} \<and> children \<noteq> []"
proof -
  obtain caption st1 where c: "emit_caption env el st = (caption, st1)" by fastforce
  let ?page = "ce_page env" let ?doc = "dg_doc st1" let ?n = "length (doc_tables (dg_doc st1))"
  have "children = caption @ [(TABLE, ?n)] \<and>
      (\<exists>x. dg_doc st' = ?doc\<lparr>doc_tables := doc_tables ?doc @ [x]\<rparr> \<and> it_children x = [] \<and> stamped ?page x \<and> table_ok (tl_data x))"
    using e unfolding emit_table_def Let_def c prod.case
    by (auto simp: on_doc_def add_table_def warn_def at_index_def set_last_table_data_def split: if_splits option.splits)
       (rule exI, rule conjI, rule refl, simp add: stamped_def empty_table_ok otsl_table_ok)+
  then have "children = caption @ [(TABLE, ?n)]" "pushed ?page ?doc (TABLE, ?n) (dg_doc st')"
    using one_more_pushed [OF one_more_table] by fastforce+
  with emit_caption_draft [OF t c] show ?thesis by (auto dest: draft_push)
qed

lemma emit_element_draft:
  assumes t: "tree_draft (ce_page env) es (dg_doc st)" and e: "emit_element env el forced st = (emitted, children, st')"
  shows "tree_draft (ce_page env) (es @ body_entries children) (dg_doc st') \<and> fst ` set children \<subseteq> {TEXT, PICTURE, TABLE}
    \<and> (emitted \<longleftrightarrow> children \<noteq> [])"
proof -
  have new: "tree_draft (ce_page env) (es @ [((TEXT, last_text st1), None)]) (dg_doc st1)"
    if "st1 = on_doc (add_element (ce_page env) tag (prov_with_charspan (ce_page env) box a b) x) st" for st1 tag box a b x
    using draft_push [OF t text_pushed_pushed [OF add_element_pushes [of "ce_page env" "dg_doc st" tag box a b x]]] that
    by (simp add: on_doc_def last_text_def)
  consider (picture) "emit_picture env el st = (children, st')" emitted
    | (table) "emit_table env el st = (children, st')" emitted
    | (nothing) "\<not> emitted" "children = []" "st' = st"
    | (item) tag box a b x where "st' = on_doc (add_element (ce_page env) tag (prov_with_charspan (ce_page env) box a b) x) st"
        "children = [(TEXT, last_text st')]" emitted
    using e unfolding emit_element_def Let_def by (metis Pair_inject)
  then show ?thesis
  proof cases
    case picture
    with emit_picture_draft [OF t picture(1)] show ?thesis by auto
  next
    case table
    with emit_table_draft [OF t table(1)] show ?thesis by auto
  next
    case nothing
    with t show ?thesis by simp
  next
    case item
    with new [OF item(1)] show ?thesis by simp
  qed
qed

text \<open>A child moves from the body to a group.\<close>

definition rehang :: "body_child \<Rightarrow> body_child \<Rightarrow> (body_child \<times> lref) list \<Rightarrow> (body_child \<times> lref) list" where
  "rehang g c es = filter (\<lambda>e. fst e \<noteq> c) es @ [(c, Some g)]"

lemma hang_child_nested:
  assumes "fst c \<in> {TEXT, PICTURE, TABLE}"
  shows "hang_child g c doc = join_parent (ref_name c) (GROUP, g) (stamp_nested (ref_name c) (ref_name (GROUP, g)) c doc)"
proof -
  obtain k i where "c = (k, i)" by fastforce
  with assms show ?thesis
    by (cases k) (auto simp: hang_child_def join_parent_def stamp_nested_def ref_name_def Let_def)
qed

lemma kids_rehang:
  assumes "distinct (map fst es)" and "(c, None) \<in> set es"
  shows "kids (rehang g c es) None = filter (\<lambda>d. d \<noteq> c) (kids es None)"
    and "kids (rehang g c es) (Some p) = kids es (Some p) @ (if p = g then [c] else [])"
proof -
  have "(c, Some p) \<notin> set es" using assms eq_key_imp_eq_value by fast
  then have "filter (\<lambda>e. fst e \<noteq> c \<and> snd e = Some p) es = filter (\<lambda>e. snd e = Some p) es"
    by (intro filter_cong) auto
  then show "kids (rehang g c es) (Some p) = kids es (Some p) @ (if p = g then [c] else [])"
    by (simp add: kids_def rehang_def conj_commute)
  show "kids (rehang g c es) None = filter (\<lambda>d. d \<noteq> c) (kids es None)"
    by (simp add: kids_def rehang_def filter_map comp_def conj_commute)
qed

lemma rehang_set: "set (rehang g c es) = {e \<in> set es. fst e \<noteq> c} \<union> {(c, Some g)}"
  by (auto simp: rehang_def)

lemma draft_hang:
  assumes t: "tree_draft page es doc" and c: "(c, None) \<in> set es" "kids es (Some c) = []" "fst c \<in> {TEXT, PICTURE, TABLE}"
    and g: "((GROUP, g), None) \<in> set es"
  shows "tree_draft page (rehang (GROUP, g) c es) (hang_child g c doc)"
proof -
  let ?es = "rehang (GROUP, g) c es" let ?doc = "hang_child g c doc"
  have cg: "c \<noteq> (GROUP, g)" and kv: "fst c \<noteq> KEY_VALUE" using c(3) by auto
  have s: "sound page doc" and dist: "distinct (map fst es)" using t unfolding tree_draft_def by blast+
  let ?nested = "stamp_nested (ref_name c) (ref_name (GROUP, g)) c doc"
  have k: "kinds_set doc" "kinds_set ?nested" using s sound_kinds sound_nested by blast+
  have at: "item_at ?doc q = (if q = c then map_option (stamp_item (ref_name c) (ref_name (GROUP, g))) (item_at doc c)
      else if q = (GROUP, g) then map_option (add_child_ref (ref_name c)) (item_at doc q) else item_at doc q)" for q
    unfolding hang_child_nested [OF c(3)] using cg kv by (simp add: item_at_join [OF k(2)] item_at_stamp [OF k(1)])
  have keys: "fst ` set ?es = fst ` set es" using c(1) by (force simp: rehang_set)
  have "distinct (map fst ?es)"
    using dist by (auto simp: rehang_def distinct_map_filter)
  moreover have "\<forall>q. q \<in> fst ` set ?es \<longleftrightarrow> item_at ?doc q \<noteq> None"
    using t unfolding keys at tree_draft_def by auto
  moreover have "it_children b = map ref_name (kids ?es (Some d))
      \<and> (\<forall>q. p = Some q \<longrightarrow> it_self_ref b = ref_name d \<and> it_parent b = Some (ref_name q) \<and> (q, None) \<in> set ?es)"
    if e: "(d, p) \<in> set ?es" "item_at ?doc d = Some b" for d p b
  proof (cases "d = c")
    case True
    with e obtain b0 where b0: "item_at doc c = Some b0" "b = stamp_item (ref_name c) (ref_name (GROUP, g)) b0"
      by (auto simp: at)
    have "it_children b0 = []" using t c(1,2) b0(1) unfolding tree_draft_def by fastforce
    with e True b0 c g cg show ?thesis by (auto simp: rehang_set kids_rehang [OF dist c(1)] stamp_item_def)
  next
    case False
    with e have d: "(d, p) \<in> set es" by (simp add: rehang_set)
    obtain b0 where b0: "item_at doc d = Some b0" "b = (if d = (GROUP, g) then add_child_ref (ref_name c) b0 else b0)"
      using e(2) False by (auto simp: at split: if_splits)
    have old: "it_children b0 = map ref_name (kids es (Some d))"
      "\<forall>q. p = Some q \<longrightarrow> it_self_ref b0 = ref_name d \<and> it_parent b0 = Some (ref_name q) \<and> (q, None) \<in> set es"
      using t d b0(1) unfolding tree_draft_def by blast+
    have "q \<noteq> c" if "p = Some q" for q using d c(2) that by (auto simp flip: kids_member)
    with old b0(2) show ?thesis by (auto simp: rehang_set kids_rehang [OF dist c(1)] add_child_ref_def)
  qed
  moreover have "doc_body ?doc = doc_body doc"
    using c(3) by (cases c) (auto simp: hang_child_def Let_def)
  moreover have "sound page ?doc" unfolding hang_child_nested [OF c(3)] using s sound_nested sound_join by blast
  ultimately show ?thesis using t unfolding tree_draft_def by simp
qed

text \<open>The page with this order of the body's children.\<close>

definition order_draft :: "page_context \<Rightarrow> body_child list \<Rightarrow> document \<Rightarrow> bool" where
  "order_draft page order doc \<longleftrightarrow> (\<exists>es. tree_draft page es doc \<and> kids es None = order)"

lemma order_push: "order_draft page order doc \<Longrightarrow> pushed page doc c doc' \<Longrightarrow> order_draft page (order @ [c]) doc'"
  unfolding order_draft_def using draft_push by fastforce

lemma hang_all:
  assumes "tree_draft page es doc" and "distinct children" and "((GROUP, g), None) \<in> set es"
    and "\<forall>c \<in> set children. (c, None) \<in> set es \<and> kids es (Some c) = [] \<and> fst c \<in> {TEXT, PICTURE, TABLE}"
  shows "order_draft page (filter (\<lambda>d. d \<notin> set children) (kids es None)) (fold (hang_child g) children doc)"
  using assms
proof (induction children arbitrary: es doc)
  case Nil
  then show ?case by (auto simp: order_draft_def)
next
  case (Cons c children)
  let ?es = "rehang (GROUP, g) c es"
  have c: "(c, None) \<in> set es" "kids es (Some c) = []" "fst c \<in> {TEXT, PICTURE, TABLE}" using Cons.prems(4) by auto
  have dist: "distinct (map fst es)" using Cons.prems(1) unfolding tree_draft_def by blast
  have "tree_draft page ?es (hang_child g c doc)" by (rule draft_hang [OF Cons.prems(1) c Cons.prems(3)])
  moreover have "((GROUP, g), None) \<in> set ?es" using Cons.prems(3) c(3) by (auto simp: rehang_set)
  moreover have "\<forall>d \<in> set children. (d, None) \<in> set ?es \<and> kids ?es (Some d) = [] \<and> fst d \<in> {TEXT, PICTURE, TABLE}"
    using Cons.prems(2,4) by (auto simp: rehang_set kids_rehang [OF dist c(1)])
  ultimately have "order_draft page (filter (\<lambda>d. d \<notin> set children) (kids ?es None)) (fold (hang_child g) children (hang_child g c doc))"
    using Cons.IH Cons.prems(2) by simp
  then show ?case by (simp add: kids_rehang [OF dist c(1)] conj_commute)
qed

text \<open>New children of the body that move to an open group leave the body as it was.\<close>

lemma hang_new:
  assumes t: "tree_draft page es doc" and t': "tree_draft page (es @ body_entries children) doc'"
    and "fst ` set children \<subseteq> {TEXT, PICTURE, TABLE}" and "(GROUP, g) \<in> set (kids es None)"
  shows "order_draft page (kids es None) (fold (hang_child g) children doc')"
proof -
  have dist: "distinct (map fst es @ children)" using t' unfolding tree_draft_def by simp
  have "kids es (Some c) = []" if "c \<in> set children" for c
  proof (rule draft_no_kids [OF t])
    have "c \<notin> fst ` set es" using dist that by auto
    with t show "item_at doc c = None" unfolding tree_draft_def by metis
  qed
  moreover have "filter (\<lambda>d. d \<notin> set children) (kids es None @ children) = kids es None"
    using dist by (auto simp: filter_id_conv kids_def)
  ultimately show ?thesis
    using hang_all [OF t', of children g] assms(3,4) dist by (auto simp: kids_member)
qed

lemma emit_element_order:
  assumes "order_draft (ce_page env) order (dg_doc st)" and "emit_element env el forced st = (emitted, children, st')"
  shows "order_draft (ce_page env) (order @ children) (dg_doc st') \<and> (emitted \<longleftrightarrow> children \<noteq> [])"
  using assms emit_element_draft unfolding order_draft_def by fastforce

lemma emit_inline_item_order:
  assumes o: "order_draft (ce_page env) order (dg_doc st)" and g: "(GROUP, g) \<in> set order"
  shows "order_draft (ce_page env) order (dg_doc (emit_inline_item env box g item st))"
proof -
  obtain es where es: "tree_draft (ce_page env) es (dg_doc st)" "kids es None = order" using o unfolding order_draft_def by blast
  obtain emitted children st1 where e:
    "emit_element env (new_element\<lparr>el_name := fst item, el_text := inner_text (snd item)\<rparr>) (Some box) st = (emitted, children, st1)"
    by (metis prod_cases3)
  note d = emit_element_draft [OF es(1) e]
  have "order_draft (ce_page env) order (fold (hang_child g) children (dg_doc st1))"
    using hang_new [OF es(1) d [THEN conjunct1]] d es(2) g by blast
  with d show ?thesis by (auto simp: emit_inline_item_def e on_doc_def)
qed

lemma emit_list_item_order:
  assumes o: "order_draft (ce_page env) order (dg_doc st)" and g: "(GROUP, g) \<in> set order"
  shows "order_draft (ce_page env) order (dg_doc (emit_list_item env ordered g numbered st))"
proof -
  obtain es where es: "tree_draft (ce_page env) es (dg_doc st)" "kids es None = order" using o unfolding order_draft_def by blast
  obtain n content where n: "numbered = (n, content)" by fastforce
  have "pushed (ce_page env) (dg_doc st) (TEXT, length (doc_texts doc') - 1) doc'"
    if "doc' = add_list_item (ce_page env) (prov_with_charspan (ce_page env) box a b) t e m (dg_doc st)" for doc' box a b t e m
    using that text_pushedI by (intro text_pushed_pushed) (simp add: add_list_item_def)
  from hang_new [OF es(1) _ _ , of "[c]" for c, simplified, OF draft_push [OF es(1) this [OF refl]]] g es(2) show ?thesis
    by (simp add: emit_list_item_def n Let_def on_doc_def last_text_def)
qed

lemma open_group_order:
  assumes "order_draft page order (dg_doc st)" and "open_group name label st = (g, st1)"
  shows "order_draft page (order @ [(GROUP, g)]) (dg_doc st1)"
proof -
  have "pushed page (dg_doc st) (GROUP, g) (dg_doc st1)"
    using assms(2) one_more_pushed [OF one_more_group]
    by (auto simp: open_group_def Let_def on_doc_def empty_group_def)
  with assms(1) show ?thesis by (rule order_push)
qed

lemma emit_list_group_order:
  assumes o: "order_draft (ce_page env) order (dg_doc st)" and e: "emit_list_group env chunk ordered st = (children, st')"
  shows "order_draft (ce_page env) (order @ children) (dg_doc st') \<and> children \<noteq> []"
proof -
  obtain g st1 where g: "open_group ''list'' GROUP_LABEL_LIST st = (g, st1)" by fastforce
  let ?order = "order @ [(GROUP, g)]"
  have "order_draft (ce_page env) ?order (dg_doc (fold (emit_list_item env ordered g) xs st1))" for xs
    by (rule fold_invariant [where Q = "\<lambda>_. True"]) (simp_all add: open_group_order [OF o g] emit_list_item_order)
  with e show ?thesis by (auto simp: emit_list_group_def g)
qed

lemma emit_inline_group_order:
  assumes o: "order_draft (ce_page env) order (dg_doc st)" and e: "emit_inline_group env chunk st = (children, st')"
  shows "order_draft (ce_page env) (order @ children) (dg_doc st') \<and> children \<noteq> []"
proof -
  obtain g st1 where g: "open_group ''group'' GROUP_LABEL_INLINE st = (g, st1)" by fastforce
  let ?order = "order @ [(GROUP, g)]"
  have "order_draft (ce_page env) ?order (dg_doc (fold (emit_inline_item env box g) xs st1))" for xs box
    by (rule fold_invariant [where Q = "\<lambda>_. True"]) (simp_all add: open_group_order [OF o g] emit_inline_item_order)
  with e show ?thesis by (auto simp: emit_inline_group_def g Let_def)
qed

lemma emit_region_order:
  assumes "order_draft (ce_page env) order (dg_doc st)" and "emit_key_value_region env chunk st = (children, st')"
  shows "order_draft (ce_page env) (order @ children) (dg_doc st') \<and> children \<noteq> []"
proof -
  have push: "pushed (ce_page env) doc (KEY_VALUE, length (doc_key_value_items doc)) (doc\<lparr>doc_key_value_items := doc_key_value_items doc @ [x]\<rparr>)"
    if "it_children x = []" for x doc
    unfolding pushed_def using that
    by (intro conjI exI [of _ "item_base.truncate x"])
      (auto simp: item_at_def nth_option_snoc nth_option_beyond fun_eq_iff sound_def attributed_def split: child_kind.split)
  show ?thesis
    using assms(2) order_push [OF assms(1) push [of _ "dg_doc st"]] by (auto simp: emit_key_value_region_def Let_def on_doc_def)
qed

definition scan_ok :: "chandra_env \<Rightarrow> doctags_scan \<Rightarrow> bool" where
  "scan_ok env sc \<longleftrightarrow> order_draft (ce_page env) (ds_order sc) (dg_doc (ds_page sc)) \<and> (ds_items sc = 0 \<longleftrightarrow> ds_order sc = [])"

lemma scan_ok_same [simp]:
  "scan_ok env (sc\<lparr>ds_current := el\<rparr>) = scan_ok env sc" "scan_ok env (sc\<lparr>ds_open := b\<rparr>) = scan_ok env sc"
  "scan_ok env (sc\<lparr>ds_in_otsl := b\<rparr>) = scan_ok env sc" "scan_ok env (sc\<lparr>ds_in_caption := b\<rparr>) = scan_ok env sc"
  "scan_ok env (sc\<lparr>ds_pending := ls\<rparr>) = scan_ok env sc"
  by (simp_all add: scan_ok_def)

lemma flush_keeps:
  assumes "scan_ok env sc"
  shows "scan_ok env (flush env sc)"
proof -
  obtain emitted children st where e: "emit_element env (ds_current sc) None (ds_page sc) = (emitted, children, st)"
    by (metis prod_cases3)
  from assms emit_element_order [OF _ e, of "ds_order sc"] show ?thesis by (auto simp: flush_def Let_def e scan_ok_def)
qed

lemma scan_moves_ok [simp]: "scan_ok env (add_run t sc) = scan_ok env sc" "scan_ok env (add_loc n sc) = scan_ok env sc"
  "scan_ok env (begin_element name sc) = scan_ok env sc"
  by (simp_all add: add_run_def add_loc_def begin_element_def Let_def split: option.split)

lemma emit_container_ok:
  assumes "scan_ok env sc"
  shows "scan_ok env (fst (emit_container env token rest sc))"
proof -
  have ok: "order_draft (ce_page env) (ds_order (flush env sc)) (dg_doc (ds_page (flush env sc)))"
    using flush_keeps [OF assms] by (simp add: scan_ok_def)
  then show ?thesis
    using emit_region_order [OF ok] emit_inline_group_order [OF ok] emit_list_group_order [OF ok]
    by (auto simp: emit_container_def Let_def scan_ok_def split: prod.split)
qed

lemma scan_ok_if: "scan_ok env (fst (if c then x else y)) = (if c then scan_ok env (fst x) else scan_ok env (fst y))"
  "scan_ok env (if c then sc else sc') = (if c then scan_ok env sc else scan_ok env sc')"
  "scan_ok env ((if c then sc else sc')\<lparr>ds_in_otsl := b\<rparr>) = (if c then scan_ok env sc else scan_ok env sc')"
  by simp_all

lemma apply_token_ok: "scan_ok env sc \<Longrightarrow> scan_ok env (fst (apply_token env token rest sc))"
  by (simp add: apply_token_def Let_def scan_ok_if emit_container_ok flush_keeps del: append.simps split del: if_split cong: if_cong)

lemma doctags_step_ok: "scan_ok env sc \<Longrightarrow> scan_ok env (fst (doctags_step env s sc))"
  by (simp add: doctags_step_def Let_def apply_token_ok split: option.split prod.split)

lemma scan_doctags_ok: "scan_ok env sc \<Longrightarrow> scan_ok env (scan_doctags env s sc)"
proof (induction env s sc rule: scan_doctags.induct)
  case (1 env s sc)
  obtain sc1 rest where step: "doctags_step env s sc = (sc1, rest)" by fastforce
  then have "scan_ok env sc1" using doctags_step_ok [OF 1(2)] by (metis fst_conv)
  then show ?case using 1 step by (subst scan_doctags.simps) simp
qed

lemma new_page_draft: "order_draft (ce_page env) [] (dg_doc (new_doctags_page (ce_page env)))"
proof -
  have "item_at empty_document c = None" for c
    by (cases c; cases "fst c") (simp_all add: item_at_def empty_document_def nth_option_def)
  then have "tree_draft (ce_page env) [] (dg_doc (new_doctags_page (ce_page env)))"
    by (simp add: tree_draft_def new_doctags_page_def)
      (simp add: empty_document_def empty_group_def sound_def attributed_def)
  then show ?thesis unfolding order_draft_def by fastforce
qed

lemma doctags_result_ok: "scan_ok env (doctags_result env body)"
  unfolding doctags_result_def using new_page_draft by (intro flush_keeps scan_doctags_ok) (simp add: scan_ok_def)

text \<open>A finished page is a tree of at most two levels.\<close>

lemma sound_stamp_child: "sound page doc \<Longrightarrow> sound page (stamp_child c doc)"
proof (cases "fst c = KEY_VALUE")
  case True
  then show "sound page doc \<Longrightarrow> ?thesis" by (cases c) (simp add: stamp_child_def Let_def sound_def attributed_def)
qed (use sound_children [of page doc "[c]"] in auto)

lemma sound_finalized: "sound page doc \<Longrightarrow> sound page (finalize_ordered page order doc)"
  unfolding finalize_ordered_def Let_def
  by (simp, rule fold_invariant [where Q = "\<lambda>_. True"]) (simp_all add: sound_stamp_child)

lemma draft_page_tree:
  assumes o: "order_draft page order doc"
  shows "page_tree page (finalize_ordered page order doc)"
proof -
  obtain es where t: "tree_draft page es doc" and order: "order = kids es None" using o unfolding order_draft_def by blast
  let ?doc = "finalize_ordered page order doc"
  have s: "sound page doc" and none: "it_children (doc_body doc) = []" and dist: "distinct (map fst es)"
    and keys: "\<And>c. c \<in> fst ` set es \<longleftrightarrow> item_at doc c \<noteq> None"
    using t unfolding tree_draft_def by blast+
  note d = finalize_ordered_items [OF sound_kinds [OF s] none, of page order]
  have item: "\<exists>b. item_at ?doc c = Some b \<and> it_self_ref b = ref_name c
      \<and> it_parent b = Some (case p of None \<Rightarrow> kBody | Some q \<Rightarrow> ref_name q) \<and> it_children b = map ref_name (kids es (Some c))"
    if e: "(c, p) \<in> set es" for c p
  proof -
    obtain b where b: "item_at doc c = Some b" using keys [of c] image_eqI [OF _ e, of c fst] by auto
    have "c \<in> set order \<longleftrightarrow> p = None"
      unfolding order kids_member using e eq_key_imp_eq_value [OF dist] by blast
    moreover have "it_children b = map ref_name (kids es (Some c))
      \<and> (\<forall>q. p = Some q \<longrightarrow> it_self_ref b = ref_name c \<and> it_parent b = Some (ref_name q))"
      using t e b unfolding tree_draft_def by blast
    ultimately show ?thesis using d [of c] b by (cases p) (auto simp: stamp_item_def)
  qed
  have some: "item_at ?doc c \<noteq> None \<longleftrightarrow> c \<in> fst ` set es" for c using d [of c] keys [of c] by (auto simp: option.map_disc_iff)
  have tree: "is_tree es ?doc" unfolding is_tree_def using d item some order by auto
  have body: "hangs ?doc c" if e: "(c, None) \<in> set es" for c
  proof -
    obtain b where "item_at ?doc c = Some b" "it_parent b = Some kBody" using item [OF e] by auto
    then show ?thesis using d e by (intro hangs_body) (auto simp: order kids_member)
  qed
  have "hangs ?doc c" if e: "(c, p) \<in> set es" for c p
  proof (cases p)
    case (Some q)
    obtain b0 where "item_at doc c = Some b0" using keys [of c] image_eqI [OF _ e, of c fst] by auto
    with t e Some have q: "(q, None) \<in> set es" unfolding tree_draft_def by blast
    obtain b where b: "item_at ?doc c = Some b" "it_parent b = Some (ref_name q)" using item [OF e] Some by auto
    obtain qb where qb: "item_at ?doc q = Some qb" "it_children qb = map ref_name (kids es (Some q))" using item [OF q] by auto
    have "ref_name c \<in> set (it_children qb)" using e Some by (simp add: qb(2) kids_member)
    from hangs_item [OF b qb(1) this body [OF q]] show ?thesis .
  qed (use e body in simp)
  then have "item_at ?doc c \<noteq> None \<longrightarrow> hangs ?doc c" for c unfolding some by fastforce
  moreover have "sound page ?doc" by (rule sound_finalized [OF s])
  ultimately show ?thesis unfolding page_tree_def using tree dist by blast
qed

lemma draft_empty:
  assumes "order_draft page [] doc"
  shows "item_at doc c = None"
proof (rule ccontr)
  assume "item_at doc c \<noteq> None"
  then obtain b where b: "item_at doc c = Some b" by blast
  obtain es where t: "tree_draft page es doc" "kids es None = []" using assms unfolding order_draft_def by blast
  with b have "c \<in> fst ` set es" unfolding tree_draft_def by (metis option.distinct(1))
  then obtain p where p: "(c, p) \<in> set es" by force
  then have "\<exists>q. (q, None) \<in> set es" using t(1) b unfolding tree_draft_def by (cases p) blast+
  with t(2) show False by (metis emptyE kids_member list.set(1))
qed

text \<open>The links of a region join cells of the region.\<close>

lemma graph_links_closed:
  "gl_source ` set (graph_links cells) \<union> gl_target ` set (graph_links cells) \<subseteq> gc_cell_id ` set (map (graph_cell_of env) cells)"
  by (force simp: graph_links_def graph_cell_of_def Let_def)

text \<open>A response of one element, for the witnesses.\<close>

lemma one_tag_item: "ds_items (doctags_result env ''<text>hi</text>'') = 1"
proof -
  have a: "apply_token env ''text'' rest sc = (begin_element ''text'' (flush env sc), rest)" if "\<not> ds_open sc" "\<not> ds_in_caption sc" for rest sc
    using that by (simp add: apply_token_def is_group_container_def Let_def)
  have b: "apply_token env ''/text'' rest sc = (flush env sc, rest)"
    if "ds_open sc" "\<not> ds_in_caption sc" "el_name (ds_current sc) = ''text''" for rest sc
    using that by (simp add: apply_token_def is_group_container_def is_container_def Let_def)
  have c: "find_sub ''<'' ''<text>hi</text>'' = Some ([], ''text>hi</text>'')" "find_sub ''>'' ''text>hi</text>'' = Some (''text'', ''hi</text>'')"
    "find_sub ''<'' ''hi</text>'' = Some (''hi'', ''/text>'')" "find_sub ''>'' ''/text>'' = Some (''/text'', [])" by simp_all
  have t: "is_alpha CHR ''t''" by (simp add: is_alpha_def is_lower_def code_def)
  have s1: "scan_doctags env ''<text>hi</text>'' sc = scan_doctags env ''hi</text>'' (begin_element ''text'' (flush env sc))"
    if "\<not> ds_open sc" "\<not> ds_in_caption sc" "\<not> ds_in_otsl sc" for sc
    using that by (subst scan_doctags.simps) (simp add: doctags_step_def c opens_tag_def t Let_def a)
  have s2: "scan_doctags env ''hi</text>'' sc = flush env (add_run ''hi'' sc)"
    if "ds_open sc" "\<not> ds_in_caption sc" "\<not> ds_in_otsl sc" "el_name (ds_current sc) = ''text''" for sc
    using that by (subst scan_doctags.simps, subst scan_doctags.simps)
      (simp add: doctags_step_def c opens_tag_def Let_def b add_run_def)
  have f: "ds_items (flush env sc) = (if ds_open sc then ds_items sc + 1 else ds_items sc)"
    if "ds_open sc \<longrightarrow> el_name (ds_current sc) = ''text''" for sc
    using that by (auto simp: flush_def emit_element_def known_tag_def kTextTags_def Let_def)
  have o: "\<not> ds_open (flush env sc)" "\<not> ds_in_caption (flush env sc)" "ds_in_otsl (flush env sc) = ds_in_otsl sc" for sc
    by (simp_all add: flush_def Let_def split: prod.split)
  show ?thesis
    unfolding doctags_result_def
    by (subst s1; (subst s2)?) (simp_all add: f o begin_element_def add_run_def)
qed

lemma one_tag_mapped: "\<exists>doc ws. map_doctags env ''<text>hi</text>'' = Inr (doc, ws)"
  by (simp add: map_doctags_def Let_def one_tag_item)

text \<open>Locations that come before a tag never reach the element that the tag opens.\<close>

lemma leading_locs_lost: "el_locs (ds_current (begin_element name (flush env sc))) = []"
  by (simp add: begin_element_def flush_def Let_def)

text \<open>
  C35: what becomes of a DocTags response.  A page is one tree from its body: every text, picture, table,
  group and key-value region hangs from the body or from a group that hangs from it, each listed once by
  its parent, and the texts, pictures and tables are attributed.  The page has children; the errors are
  that the response has no tag at all, and that its tags gave no item.
\<close>

theorem doctags_page:
  "case map_doctags env body of
     Inr (doc, warnings) \<Rightarrow> page_tree (ce_page env) doc \<and> 0 < length (it_children (doc_body doc))
   | Inl message \<Rightarrow>
       if CHR ''<'' \<in> set body
       then message = ''DocTags response produced no document items''
         \<and> item_at (dg_doc (ds_page (doctags_result env body))) = (\<lambda>_. None)
       else message = ''response holds no DocTags markup''"
proof (cases "CHR ''<'' \<in> set body")
  case True
  define sc where "sc = doctags_result env body"
  have ok: "order_draft (ce_page env) (ds_order sc) (dg_doc (ds_page sc))" and n: "ds_items sc = 0 \<longleftrightarrow> ds_order sc = []"
    using doctags_result_ok [of env body] by (simp_all add: scan_ok_def sc_def)
  obtain es where "tree_draft (ce_page env) es (dg_doc (ds_page sc))" using ok unfolding order_draft_def by blast
  then have "it_children (doc_body (finalize_ordered (ce_page env) (ds_order sc) (dg_doc (ds_page sc)))) = map ref_name (ds_order sc)"
    using finalize_ordered_items sound_kinds unfolding tree_draft_def by blast
  then show ?thesis
    using True n draft_page_tree [OF ok] draft_empty [of "ce_page env" "dg_doc (ds_page sc)"] ok
    by (auto simp: map_doctags_def Let_def fun_eq_iff simp flip: sc_def)
qed (simp add: map_doctags_def)

end
