(* ===== verification/Dispatch.thy ===== *)
theory Dispatch
  imports Mapper Deepseek Dots Nemotron Doclang Doctags
begin

text \<open>
  \<^verbatim>\<open>map_response\<close> of \<^verbatim>\<open>src/mapping/mapper.cpp\<close> with the mappers of the layout-grounded formats, and the
  contract they share with each other and with the page conversion.  The image library, the JSON
  parser, the rounding of doubles and the size of a cell on the wire remain arguments.
\<close>

section \<open>The grounded formats\<close>

record mapping_env =
  me_lib :: image_library
  me_rnd :: "real \<Rightarrow> real"
  me_dbl :: "real \<Rightarrow> real option"
  me_byte_size :: "table_cell \<Rightarrow> nat"
  me_parse :: "string \<Rightarrow> json option"

definition on_page :: "mapping_env \<Rightarrow> page_context \<Rightarrow> chandra_env" where
  "on_page env page = \<lparr>ce_lib = me_lib env, ce_rnd = me_rnd env, ce_dbl = me_dbl env, ce_byte_size = me_byte_size env, ce_page = page\<rparr>"

definition map_grounded :: "mapping_env \<Rightarrow> document mapper" where
  "map_grounded env format body page =
     (case format of
        RESPONSE_FORMAT_DOCTAGS \<Rightarrow> map_doctags (on_page env page) body
      | RESPONSE_FORMAT_DOCLANG \<Rightarrow> map_doclang (on_page env page) body
      | RESPONSE_FORMAT_DEEPSEEKOCR_MARKDOWN \<Rightarrow>
          map_deepseek_ocr (me_dbl env) (me_lib env) (me_rnd env) (me_byte_size env) page body
      | RESPONSE_FORMAT_UNLIMITED_OCR_MARKDOWN \<Rightarrow>
          map_unlimited_ocr (me_dbl env) (me_lib env) (me_rnd env) (me_byte_size env) page body
      | RESPONSE_FORMAT_CHANDRA_HTML \<Rightarrow> map_chandra_html (on_page env page) body
      | RESPONSE_FORMAT_DOTS_JSON \<Rightarrow> map_dots_json (me_parse env) (on_page env page) body
      | RESPONSE_FORMAT_NEMOTRON_PARSE_V2 \<Rightarrow> map_nemotron_parse_v2 (on_page env page) body
      | RESPONSE_FORMAT_NEMOTRON_PARSE_V3_5 \<Rightarrow> map_nemotron_parse_v3_5 (on_page env page) body
      | _ \<Rightarrow> Inl ''unresolved response format'')"

definition map_page :: "mapping_env \<Rightarrow> document mapper" where
  "map_page env = map_response (me_byte_size env) (map_grounded env)"

section \<open>Their contract\<close>

text \<open>A document that is one tree, or an error that says something.\<close>

locale grounded_mapper =
  fixes mapping :: "page_context \<Rightarrow> string \<Rightarrow> string + (document \<times> warning list)"
  assumes tree: "mapping page t = Inr (doc, ws) \<Longrightarrow> page_tree page doc"
    and said: "mapping page t = Inl error \<Longrightarrow> error \<noteq> []"
begin

lemma answered:
  "case mapping page t of Inr (doc, ws) \<Rightarrow> page_tree page doc | Inl error \<Rightarrow> error \<noteq> []"
  by (cases "mapping page t") (auto dest: tree said)

end

text \<open>A mapper that finishes a layout writer keeps it, whatever it wrote.\<close>

locale writer_mapper =
  fixes write_page :: "page_context \<Rightarrow> string \<Rightarrow> writer" and title :: string and allow_empty :: bool
  assumes written: "writer_ok page (write_page page t)"
begin

lemma finished: "finish page title allow_empty (write_page page t) = Inr (doc, ws) \<Longrightarrow> page_tree page doc"
  by (rule finished_page [OF written])

lemma empty_said: "finish page title allow_empty (write_page page t) = Inl error \<Longrightarrow> error \<noteq> []"
  by (auto simp: finish_def split: if_splits)

end

sublocale writer_mapper \<subseteq> grounded_mapper "\<lambda>page t. finish page title allow_empty (write_page page t)"
  by unfold_locales (use finished empty_said in blast)+

interpretation deepseek: writer_mapper
  "\<lambda>page t. deepseek_writer lib rnd byte_size page (page_blocks dbl rnd page t)" "''DeepSeek-OCR''" False
  for lib rnd byte_size dbl
  by unfold_locales (use deepseek_writer_written in \<open>auto simp: written_def\<close>)

interpretation nemotron_v2: writer_mapper "\<lambda>page. v2_writer (on_page env page)" "''Nemotron Parse''" True for env
  by unfold_locales (metis v2_writer_ok on_page_def chandra_env.select_convs(5))

interpretation nemotron_v35: writer_mapper "\<lambda>page. v35_writer (on_page env page)" "''Nemotron Parse 3.5''" True for env
  by unfold_locales (metis v35_writer_ok on_page_def chandra_env.select_convs(5))

lemma on_page_page [simp]: "ce_page (on_page env page) = page"
  by (simp add: on_page_def)

interpretation doctags: grounded_mapper "\<lambda>page. map_doctags (on_page env page)" for env
proof
  show "page_tree page doc" if "map_doctags (on_page env page) t = Inr (doc, ws)" for page t doc ws
  proof -
    have "order_draft page (ds_order (doctags_result (on_page env page) t)) (dg_doc (ds_page (doctags_result (on_page env page) t)))"
      using doctags_result_ok [of "on_page env page" t] by (simp add: scan_ok_def)
    from draft_page_tree [OF this] that show ?thesis by (auto simp: map_doctags_def Let_def split: if_splits)
  qed
qed (auto simp: map_doctags_def Let_def split: if_splits)

interpretation doclang: grounded_mapper "\<lambda>page. map_doclang (on_page env page)" for env
proof
  show "page_tree page doc" if "map_doclang (on_page env page) t = Inr (doc, ws)" for page t doc ws
    using that finished_page [OF doclang_writer_ok, of "on_page env page"] by (auto simp: map_doclang_def split: option.splits)
qed (auto simp: map_doclang_def finish_def split: option.splits)

interpretation chandra: grounded_mapper "\<lambda>page. map_chandra_html (on_page env page)" for env
proof
  show "page_tree page doc" if "map_chandra_html (on_page env page) t = Inr (doc, ws)" for page t doc ws
    using that finished_page [OF new_writer_ok, of page] finished_page [OF chandra_writer_ok, of "on_page env page"]
    by (auto simp: map_chandra_html_def Let_def split: if_splits)
qed (auto simp: map_chandra_html_def Let_def finish_def split: if_splits)

interpretation dots: grounded_mapper "\<lambda>page. map_dots_json parse (on_page env page)" for parse env
proof
  show "page_tree page doc" if "map_dots_json parse (on_page env page) t = Inr (doc, ws)" for page t doc ws
    using that finished_page [OF new_writer_ok, of page] finished_page [OF dots_writer_ok, of "on_page env page"]
    by (auto simp: map_dots_json_def Let_def split: if_splits option.splits)
qed (auto simp: map_dots_json_def Let_def finish_def split: if_splits option.splits)

lemma unlimited_answered:
  "case map_unlimited_ocr dbl lib rnd byte_size page t of Inr (doc, ws) \<Rightarrow> page_tree page doc | Inl error \<Rightarrow> error \<noteq> []"
  unfolding map_unlimited_ocr_def map_deepseek_ocr_def by (rule deepseek.answered)

lemmas grounded_answered = doctags.answered doclang.answered chandra.answered dots.answered
  deepseek.answered [folded map_deepseek_ocr_def] unlimited_answered

lemma nemotron_answered:
  "case map_nemotron_parse_v2 (on_page env page) t of Inr (doc, ws) \<Rightarrow> page_tree page doc | Inl error \<Rightarrow> error \<noteq> []"
  "case map_nemotron_parse_v3_5 (on_page env page) t of Inr (doc, ws) \<Rightarrow> page_tree page doc | Inl error \<Rightarrow> error \<noteq> []"
  using nemotron_v2.answered [of page env t] nemotron_v35.answered [of page env t]
  by (simp_all add: map_nemotron_parse_v2_def map_nemotron_parse_v3_5_def)

section \<open>Properties\<close>

definition answer_ok :: "response_format \<Rightarrow> page_context \<Rightarrow> string + (document \<times> warning list) \<Rightarrow> bool" where
  "answer_ok format page result =
     (case result of
        Inr (doc, ws) \<Rightarrow> if plain_format format then fragment_ok page doc else page_tree page doc
      | Inl error \<Rightarrow> error \<noteq> [])"

lemma map_page_ok: "answer_ok format page (map_page env format t page)"
proof -
  have g: "answer_ok f page m" if "\<not> plain_format f" "case m of Inr (doc, ws) \<Rightarrow> page_tree page doc | Inl error \<Rightarrow> error \<noteq> []" for f m
    using that by (auto simp: answer_ok_def split: sum.splits)
  have p: "answer_ok f page m" if "plain_format f"
    "(\<exists>doc ws. m = Inr (doc, ws) \<and> fragment_ok page doc) \<or> (\<exists>error. m = Inl error \<and> error \<noteq> [])" for f m
    using that by (auto simp: answer_ok_def)
  show ?thesis
    by (cases format)
      (simp_all add: map_page_def map_response_def map_grounded_def plain_format_def
        g grounded_answered nemotron_answered
        p [OF _ plaintext.outcome] p [OF _ markdown.outcome] p [OF _ html.outcome] p [OF _ otsl.outcome])
qed

definition has_mapper :: "response_format \<Rightarrow> bool" where
  "has_mapper format =
     (case format of
        RESPONSE_FORMAT_UNSPECIFIED \<Rightarrow> False
      | RESPONSE_FORMAT_MINERU2 \<Rightarrow> False
      | RESPONSE_FORMAT_OTHER _ \<Rightarrow> False
      | _ \<Rightarrow> True)"

lemma mapped_has_mapper: "map_page env format t page = Inr result \<Longrightarrow> has_mapper format"
  by (cases format) (simp_all add: map_page_def map_response_def has_mapper_def)

text \<open>
  C17: what a client is told of a page that the model answered, in every response format.  Either a
  document of this page, well formed as its format promises (complete and in order for the plain ones,
  one tree from the body with every item attributed for the grounded ones), or the raw answer with a
  reason; never nothing, and never a document for a format that has no mapper.
\<close>

theorem every_page_answered:
  assumes "vr_ok res" and "\<not> vr_cancelled res"
  shows "case convert_page (map_page env) version cfg plan img res of
      Some (EvDocument n doc ws) \<Rightarrow> n = im_page_no img \<and> has_mapper (sp_format plan)
        \<and> (if plain_format (sp_format plan) then fragment_ok (make_page version cfg plan img res) doc
           else page_tree (make_page version cfg plan img res) doc)
    | Some (EvRaw n t e) \<Rightarrow> n = im_page_no img \<and> t = vr_text res \<and> e \<noteq> []
    | _ \<Rightarrow> False"
  using assms map_page_ok [of "sp_format plan" "make_page version cfg plan img res" env "vr_text res"]
    mapped_has_mapper [of env "sp_format plan" "vr_text res" "make_page version cfg plan img res"]
  by (auto simp: convert_page_def answer_ok_def split: sum.split)

definition sample_env :: mapping_env where
  "sample_env = \<lparr>me_lib = pixel_library, me_rnd = id, me_dbl = Some, me_byte_size = \<lambda>_. 0, me_parse = \<lambda>_. None\<rparr>"

theorem every_page_answered_witness:
  "\<exists>doc ws. convert_page (map_page sample_env) ''1'' key_config (key_plan\<lparr>sp_format := RESPONSE_FORMAT_NEMOTRON_PARSE_V2\<rparr>)
       sample_image plain_result = Some (EvDocument 7 doc ws)
     \<and> page_tree (make_page ''1'' key_config (key_plan\<lparr>sp_format := RESPONSE_FORMAT_NEMOTRON_PARSE_V2\<rparr>)
          sample_image plain_result) doc"
proof -
  let ?plan = "key_plan\<lparr>sp_format := RESPONSE_FORMAT_NEMOTRON_PARSE_V2\<rparr>"
  have r: "vr_ok plain_result" "\<not> vr_cancelled plain_result" by (simp_all add: plain_result_def empty_result_def)
  have n: "im_page_no sample_image = 7" by (simp add: sample_image_def)
  obtain doc ws where "convert_page (map_page sample_env) ''1'' key_config ?plan sample_image plain_result = Some (EvDocument 7 doc ws)"
    using r n by (simp add: convert_page_def map_page_def map_response_def map_grounded_def map_nemotron_parse_v2_def finish_def)
  with every_page_answered [where env = sample_env and version = "''1''" and cfg = key_config and plan = ?plan and img = sample_image, OF r] show ?thesis
    by (simp add: plain_format_def)
qed

end
