(* ===== verification/Spec2Isabelle.thy ===== *)
theory Spec2Isabelle
  imports Session Http_Gateway Dispatch
begin

text \<open>
  A verification development for grpc-vlm-convert: a service that takes the pages of a document as
  images, asks a vision-language model about each of them over HTTP, and turns the answers into
  documents.

  \<^bold>\<open>The program and its theories.\<close>  Paths are under \<^verbatim>\<open>src/\<close> of the repository.

  \<^item> The configuration (\<^verbatim>\<open>config.cpp\<close>, \<^verbatim>\<open>presets.cpp\<close>, \<^verbatim>\<open>secret.h\<close>) is \<open>Config\<close>, \<open>Presets\<close> and \<open>Secret\<close>: the variables of the
    environment with their bounds, the presets and what a request resolves to, credentials and their
    comparison.  A configuration that loads satisfies \<open>config_ok\<close>, on which the pipeline's theorems rest.

  \<^item> The client of the model (\<^verbatim>\<open>vlm_client.cpp\<close>) is \<open>Endpoint\<close>, \<open>Base64\<close>, \<open>Json\<close> and \<open>Vlm_Client\<close>: the parts of an endpoint and what
    may be shown of them, the request, the retries against a world that answers, refuses or stays silent,
    the guard that cuts a call short, and the result.

  \<^item> The service (\<^verbatim>\<open>service/vlm_convert_service.cpp\<close>, \<^verbatim>\<open>service/budget.h\<close>) is \<open>Stream_Options\<close> (the checks of the first and of later messages,
    the plan of a stream, GetServiceInfo), \<open>Convert_Page\<close> (the page context and the event of a page),
    \<open>Channel\<close>, \<open>Budget\<close> and \<open>Pipeline\<close>.  \<open>Pipeline\<close> has the threads of every stream of a process: a thread is where it
    stands in its code, \<open>exec\<close> is one action of one thread, and \<open>reachable\<close> the states that any interleaving gives.
    \<open>Ownership\<close> shows which page holds which lease, \<open>Delivery\<close> what the client of a stream is sent, \<open>Progress\<close> that
    streams end, and \<open>Session\<close> that the pipeline implements the contract of a stream.

  \<^item> The HTTP front end (\<^verbatim>\<open>http_gateway.cpp\<close>) is \<open>Http_Gateway\<close>: authentication, routes, the JSON body, and both convert handlers
    over the pipeline's events.

  \<^item> The documents (\<^verbatim>\<open>mapping/builder.h\<close>, \<^verbatim>\<open>mapping/image_crop.cpp\<close>, \<^verbatim>\<open>mapping/layout.cpp\<close>, \<^verbatim>\<open>mapping/markup_tree.cpp\<close>, \<^verbatim>\<open>mapping/markdown_inline.cpp\<close>) are \<open>Builder\<close>, \<open>Image_Crop\<close>, \<open>Layout\<close>,
    \<open>Layout_Text\<close>, \<open>Span_Table\<close>, \<open>Markup_Tree\<close> and \<open>Markdown_Inline\<close>: the items of a page and the pass that gives them their references, the crops
    and their budgets, the writer that the layout-grounded mappers call, tables with spans, the tolerant
    reader of HTML and XML, and emphasis.

  \<^item> The mappers (one file of \<^verbatim>\<open>mapping/\<close> each) are \<open>Otsl\<close>, \<open>Markdown\<close>, \<open>Html\<close>, \<open>Deepseek\<close>, \<open>Chandra_Runs\<close> and \<open>Chandra\<close>, \<open>Dots\<close>, \<open>Latex\<close> and \<open>Nemotron\<close>,
    \<open>Doclang\<close> and \<open>Doctags\<close>; \<open>Mapper\<close> and \<open>Dispatch\<close> are \<^verbatim>\<open>mapper.cpp\<close>, the dispatch of a response to the mapper of its format.

  \<open>Prelude\<close> has the widths of the C++ integers and the parts of the C++ string library that the sources use.

  \<^bold>\<open>How code becomes definitions.\<close>  A struct or a protobuf message is a record, an enum or a \<^verbatim>\<open>oneof\<close> a datatype, an early
  return or an exception the \<open>Inl\<close> of a sum.  Positions in a string are what is left of it.  A pointer that
  collects results is a component of the state that is returned.  Loops are recursive functions with
  their termination proofs; nothing runs on fuel.  Sizes are natural numbers where the code's own
  bounds keep them small, with \<open>mod 2 ^ 64\<close> written out in \<open>Budget\<close>, where a wrap is what the invariant excludes.

  \<^bold>\<open>Parameters.\<close>  What is not part of the sources is an argument: the image library (\<open>image_library\<close>: decoding,
  scaling, encoding), the rounding of doubles (\<open>rnd\<close>, \<open>dbl\<close>), the serialized size of a table cell (\<open>byte_size\<close>), the
  JSON parser and printer, the HTTP exchange (the \<open>world\<close> of \<open>Vlm_Client\<close>), and the order in which threads run.  The
  theorems hold for every choice of them; what one needs of a parameter is a hypothesis of its own,
  such as \<open>mono rnd\<close>.

  \<^bold>\<open>Interfaces.\<close>  \<open>counting_budget\<close> and \<open>owner_budget\<close> say what a client of a budget relies on, \<open>page_mapper\<close> what a plain mapper promises,
  \<open>item_writer\<close> and \<open>item_editor\<close> what a call of the layout writer does to the tree, \<open>writer_mapper\<close> and \<open>grounded_mapper\<close> what a grounded mapper
  promises; each is interpreted on the definitions of the code.

  \<^bold>\<open>What the lemmas show.\<close>

  \<^item> For a process with any number of streams and threads: at most \<^verbatim>\<open>max_inflight\<close> pages are being converted, the
    bytes it buffers stay within its budgets, waiters are served in their order, no state is a deadlock,
    the actions between two messages are bounded by the work there is, and a stream that returns OK has
    sent a started event and one result for every page and a trailer with these counts.

  \<^item> For the calls: what a call sends and how often, what it returns on every path, that the API key goes
    to the configured endpoint only and that no credential is shown.

  \<^item> For the documents: a page is a well-formed fragment (plain formats) or one tree from the body in which
    every item is attributed, listed once by its parent and carries its own reference (grounded
    formats), tables are rectangular and within the caps, crops within their budgets and on the raster.
    Each format has its own theorems: when it fails and with which message, what the grid of a table holds,
    what is read back of what was written.

  \<^item> Below, the end-to-end statement: every document handed to a client was made by the mapper of its
    stream's format from the answer to a page that this stream had read, and is well formed for this page.

  \<^bold>\<open>Not modelled.\<close>  \<^verbatim>\<open>main.cpp\<close> (signals, the listeners, the metrics line) and the gRPC and HTTP servers: glue
  around the operations modelled here.  The code generated from \<^verbatim>\<open>proto/\<close>: its messages are records where the
  sources use them.  Floating-point arithmetic is real arithmetic with explicit roundings; times are integers
  of the nanoseconds of a clock.  The numbers of characters of a text and of items of a page are not
  bounded by 32 bits: a response is far smaller.
\<close>

section \<open>From the model's answer to the client\<close>

text \<open>
  The pipeline runs with the mappers of all formats (\<open>map_page\<close>).  What a stream holds of a page is followed
  back through the run \<open>acts\<close> that led to it: \<open>page_read\<close> says that the stream's reader was handed this image,
  \<open>opened\<close> that its first message gave this plan, and \<open>converted_in\<close> that at some point of the run the image, read
  before, stood with a worker of the stream when its call returned \<open>res\<close>.
\<close>

definition page_read :: "(nat \<times> action) list \<Rightarrow> nat \<Rightarrow> page_image \<Rightarrow> bool" where
  "page_read acts s img \<longleftrightarrow> (s, Reader (Read (Some (ReqPage img)))) \<in> set acts"

definition opened :: "config \<Rightarrow> (nat \<times> action) list \<Rightarrow> nat \<Rightarrow> stream_plan \<Rightarrow> bool" where
  "opened cfg acts s plan \<longleftrightarrow> (\<exists>req. (s, Open req) \<in> set acts \<and> first_message cfg req = Inr plan)"

definition converted_in ::
  "document mapper \<Rightarrow> string \<Rightarrow> config \<Rightarrow> (nat \<times> action) list \<Rightarrow> nat \<Rightarrow> page_image \<Rightarrow> vlm_result \<Rightarrow> bool" where
  "converted_in mapper version cfg acts s img res \<longleftrightarrow>
     (\<exists>before k later Q st j. acts = before @ (s, Worker k (Converted (Called res))) # later
        \<and> script mapper version cfg before (new_process cfg) = Some Q \<and> pr_streams Q s = Some st
        \<and> k < length (st_workers st) \<and> st_workers st ! k = WConvert j \<and> pj_image j = img \<and> page_read before s img)"

definition document_made ::
  "mapping_env \<Rightarrow> string \<Rightarrow> config \<Rightarrow> (nat \<times> action) list \<Rightarrow> nat \<Rightarrow> stream_plan \<Rightarrow> nat \<Rightarrow> document \<Rightarrow> warning list \<Rightarrow> bool" where
  "document_made env version cfg acts s plan n doc ws \<longleftrightarrow>
     opened cfg acts s plan
     \<and> (\<exists>img res. converted_in (map_page env) version cfg acts s img res \<and> n = im_page_no img \<and> vr_ok res
          \<and> map_page env (sp_format plan) (vr_text res) (make_page version cfg plan img res) = Inr (doc, ws))"

definition event_sound ::
  "mapping_env \<Rightarrow> string \<Rightarrow> config \<Rightarrow> (nat \<times> action) list \<Rightarrow> nat \<Rightarrow> stream_plan \<Rightarrow> document event \<Rightarrow> bool" where
  "event_sound env version cfg acts s plan e =
     (case e of EvDocument n doc ws \<Rightarrow> document_made env version cfg acts s plan n doc ws | _ \<Rightarrow> True)"

definition stream_sound :: "mapping_env \<Rightarrow> string \<Rightarrow> config \<Rightarrow> (nat \<times> action) list \<Rightarrow> nat \<Rightarrow> document stream \<Rightarrow> bool" where
  "stream_sound env version cfg acts s st \<longleftrightarrow>
     (st_workers st \<noteq> [] \<longrightarrow> opened cfg acts s (st_plan st))
     \<and> (\<forall>j \<in> set (jobs_of st). page_read acts s (pj_image j))
     \<and> (\<forall>e \<in> set (trace st). event_sound env version cfg acts s (st_plan st) e)"

lemma script_snoc:
  "script mapper version cfg (acts @ [(s, a)]) P
     = (case script mapper version cfg acts P of None \<Rightarrow> None | Some Q \<Rightarrow> exec mapper version cfg s a Q)"
  by (induction acts arbitrary: P) (auto split: option.splits)

lemma history_grows:
  "page_read acts s img \<Longrightarrow> page_read (acts @ rest) s img"
  "opened cfg acts s plan \<Longrightarrow> opened cfg (acts @ rest) s plan"
  "converted_in mapper version cfg acts s img res \<Longrightarrow> converted_in mapper version cfg (acts @ rest) s img res"
  unfolding page_read_def opened_def converted_in_def by (auto, metis append_Cons append_assoc)

lemma event_sound_grows:
  "event_sound env version cfg acts s plan e \<Longrightarrow> event_sound env version cfg (acts @ rest) s plan e"
  unfolding event_sound_def document_made_def by (cases e) (auto intro: history_grows)

lemma stream_sound_grows: "stream_sound env version cfg acts s st \<Longrightarrow> stream_sound env version cfg (acts @ rest) s st"
  unfolding stream_sound_def by (auto intro: history_grows event_sound_grows)

lemma other_events_sound [simp]:
  "event_sound env version cfg acts s plan (EvStarted n)" "event_sound env version cfg acts s plan (EvComplete a b c)"
  by (simp_all add: event_sound_def)

text \<open>No thread makes up a page: what a stream works on, it had before or has just read.\<close>

lemma reader_jobs:
  assumes "reader_step cfg s a st sh = Some (st', sh')" and "j \<in> set (jobs_of st')"
  shows "j \<in> set (jobs_of st) \<or> a = Read (Some (ReqPage (pj_image j)))"
proof (cases a)
  case (Read msg)
  with assms show ?thesis
    by (auto simp: job_defs reader_read_def read_message_def Let_def
        split: reader.splits option.splits convert_request.splits if_splits)
qed (use assms in \<open>auto simp: job_defs reader_finish_def Let_def push_def close_def
  split: reader.splits prod.splits poll_result.splits if_splits\<close>)

lemma worker_jobs:
  assumes "worker_step mapper version cfg s k a st sh = Some (st', sh')"
  shows "set (jobs_of st') \<subseteq> set (jobs_of st)"
proof -
  have upd: "set (concat (map worker_job ((st_workers st)[k := w]))) \<subseteq> set (worker_job w) \<union> set (concat (map worker_job (st_workers st)))" for w
    using set_update_subset_insert [of "st_workers st" k w] by fastforce
  have own: "set (worker_job (st_workers st ! k)) \<subseteq> set (concat (map worker_job (st_workers st)))" if "k < length (st_workers st)"
    using nth_mem [OF that] by auto
  have move: "set (jobs_of st') \<subseteq> set (jobs_of st)"
    if "k < length (st_workers st)" "st_reader st' = st_reader st"
      "set (worker_job w) \<subseteq> set (worker_job (st_workers st ! k)) \<union> set (queue (st_jobs st))"
      "set (queue (st_jobs st')) \<subseteq> set (queue (st_jobs st))" "st_workers st' = (st_workers st)[k := w]" for w
    using upd [of w] own that by (simp add: job_defs) blast
  from assms show ?thesis
    by (cases rule: worker_step_elim) (rule move; auto dest: chan.get_value_iff)+
qed

lemma writer_jobs: "writer_step a st = Some st' \<Longrightarrow> jobs_of st' = jobs_of st"
  by (erule writer_step_elim) (simp_all add: job_defs)

lemma page_event_made:
  assumes "page_event mapper version cfg plan j out = Some (EvDocument n doc ws)"
  obtains res where "out = Called res" "vr_ok res" "n = im_page_no (pj_image j)"
    "mapper (sp_format plan) (vr_text res) (make_page version cfg plan (pj_image j) res) = Inr (doc, ws)"
  using assms that by (auto simp: page_event_def convert_page_def internal_error_def split: outcome.splits if_splits sum.splits)

lemma worker_trace:
  assumes "worker_step mapper version cfg s k a st sh = Some (st', sh')" and "e \<in> set (trace st')"
  shows "e \<in> set (trace st) \<or> (\<exists>j out. k < length (st_workers st) \<and> st_workers st ! k = WConvert j \<and> a = Converted out
           \<and> page_event mapper version cfg (st_plan st) j out = Some e)"
proof (cases "\<exists>j. st_workers st ! k = WConvert j")
  case True
  then obtain j out where "k < length (st_workers st)" "st_workers st ! k = WConvert j" "a = Converted out"
    "worker_converted mapper version cfg k j out st sh = (st', sh')"
    using assms(1) by (auto simp: worker_step_def split: if_splits worker_action.splits)
  with assms(2) show ?thesis by (auto simp: worker_converted_def trace_def push_def Let_def split: option.splits)
next
  case False
  from assms(1) show ?thesis by (cases rule: worker_step_elim) (use False assms(2) in \<open>auto simp: trace_def\<close>)
qed

lemma worker_keeps_plan:
  "worker_step mapper version cfg s k a st sh = Some (st', sh') \<Longrightarrow> st_plan st' = st_plan st \<and> length (st_workers st') = length (st_workers st)"
  by (erule worker_step_elim) simp_all

lemma worker_sound:
  assumes "stream_sound env version cfg acts s st" and "worker_step (map_page env) version cfg s k a st (pr_shared P) = Some (st', sh')"
    and "script (map_page env) version cfg acts (new_process cfg) = Some P" and "pr_streams P s = Some st"
  shows "stream_sound env version cfg (acts @ [(s, Worker k a)]) s st'"
proof -
  let ?acts = "acts @ [(s, Worker k a)]"
  have old: "stream_sound env version cfg ?acts s st" by (rule stream_sound_grows [OF assms(1)])
  have "event_sound env version cfg ?acts s (st_plan st) e" if "e \<in> set (trace st')" for e
    using worker_trace [OF assms(2) that]
  proof (elim disjE exE conjE)
    fix j out
    assume w: "k < length (st_workers st)" "st_workers st ! k = WConvert j" "a = Converted out"
      and e: "page_event (map_page env) version cfg (st_plan st) j out = Some e"
    have j: "j \<in> set (jobs_of st)" using w nth_mem [OF w(1)] by (fastforce simp: job_defs)
    have plan: "opened cfg ?acts s (st_plan st)" using old w(1) by (auto simp: stream_sound_def)
    show ?thesis
    proof (cases e)
      case (EvDocument n doc ws)
      with e obtain res where r: "out = Called res" "vr_ok res" "n = im_page_no (pj_image j)"
        "map_page env (sp_format (st_plan st)) (vr_text res) (make_page version cfg (st_plan st) (pj_image j) res) = Inr (doc, ws)"
        by (blast elim: page_event_made)
      have "converted_in (map_page env) version cfg ?acts s (pj_image j) res"
        using assms(1,3,4) w j unfolding converted_in_def stream_sound_def r(1) by blast
      with plan r(2-) show ?thesis unfolding EvDocument event_sound_def document_made_def by auto
    qed (simp_all add: event_sound_def)
  qed (use old in \<open>simp add: stream_sound_def\<close>)
  with old worker_jobs [OF assms(2)] worker_keeps_plan [OF assms(2)] show ?thesis by (auto simp: stream_sound_def)
qed

lemma writer_sound:
  assumes "stream_sound env version cfg acts s st" and "writer_step a st = Some st'"
  shows "stream_sound env version cfg (acts @ rest) s st'"
proof -
  have "st_plan st' = st_plan st \<and> st_workers st' = st_workers st \<and> set (trace st') \<subseteq> set (trace st)"
    using assms(2) by (cases rule: writer_step_elim) (auto simp: trace_def dest!: popped_for_value)
  with stream_sound_grows [OF assms(1)] writer_jobs [OF assms(2)] show ?thesis by (auto simp: stream_sound_def)
qed

lemma reader_sound:
  assumes "stream_sound env version cfg acts s st" and "reader_step cfg s a st sh = Some (st', sh')"
  shows "stream_sound env version cfg (acts @ [(s, Reader a)]) s st'"
proof -
  let ?acts = "acts @ [(s, Reader a)]"
  have old: "stream_sound env version cfg ?acts s st" by (rule stream_sound_grows [OF assms(1)])
  have same: "st_plan st' = st_plan st \<and> st_workers st' = st_workers st"
    using assms(2) by (cases rule: reader_step_elim) (auto simp: reader_finish_def Let_def split: if_splits)
  have "event_sound env version cfg ?acts s (st_plan st) e" if "e \<in> set (trace st')" for e
    using assms(2) that old
    by (cases rule: reader_step_elim)
      (auto simp: stream_sound_def trace_def reader_finish_def push_def close_def Let_def split: if_splits)
  moreover have "page_read ?acts s (pj_image j)" if "j \<in> set (jobs_of st')" for j
    using reader_jobs [OF assms(2) that] old by (auto simp: stream_sound_def page_read_def)
  ultimately show ?thesis using old same by (auto simp: stream_sound_def)
qed

lemma open_sound:
  assumes "first_message cfg req = Inr plan"
  shows "stream_sound env version cfg (acts @ [(s, Open req)]) s (new_stream cfg plan)"
  using assms by (auto simp: stream_sound_def opened_def job_defs trace_def new_stream_def new_channel_def)

lemma refused_sound: "stream_sound env version cfg acts s (refused_stream cfg status)"
  by (simp add: stream_sound_def job_defs trace_def new_stream_def refused_stream_def refused_plan_def new_channel_def)

lemma run_sound:
  assumes "script (map_page env) version cfg acts (new_process cfg) = Some P" and "pr_streams P s = Some st"
  shows "stream_sound env version cfg acts s st"
  using assms
proof (induction acts arbitrary: P s st rule: rev_induct)
  case Nil
  then show ?case by (auto simp: new_process_def)
next
  case (snoc ra acts)
  obtain r a where ra: "ra = (r, a)" by fastforce
  from snoc.prems(1) obtain Q where Q: "script (map_page env) version cfg acts (new_process cfg) = Some Q"
    "exec (map_page env) version cfg r a Q = Some P" by (auto simp: ra script_snoc split: option.splits)
  show ?case
  proof (cases "r = s")
    case False
    then have "pr_streams Q s = Some st" using Q(2) snoc.prems(2) by (auto simp: exec_def split: option.splits action.splits sum.splits)
    then show ?thesis using snoc.IH [OF Q(1)] stream_sound_grows by blast
  next
    case True
    show ?thesis
    proof (cases "pr_streams Q s")
      case None
      with Q(2) snoc.prems(2) True show ?thesis
        by (auto simp: ra exec_def refused_sound open_sound split: action.splits sum.splits)
    next
      case (Some old)
      note o = snoc.IH [OF Q(1) Some]
      show ?thesis
        using Some Q(2) True snoc.prems(2) reader_sound [OF o] worker_sound [OF o _ Q(1) Some] writer_sound [OF o]
        by (cases a) (auto simp: ra exec_def)
    qed
  qed
qed

text \<open>
  C4: end to end.  Whatever streams a process serves and however its threads run, every document that was
  handed to the client of a stream was made, with its warnings, by the mapper of the format which the
  stream's first message asked for, from the answer that the call of a page returned earlier in the run to
  a worker of this stream; the page was read from this stream before that call, the event carries its
  number, and the document is well formed for this page, as its format promises.
\<close>

theorem delivered_documents_sound:
  assumes "script (map_page env) version cfg acts (new_process cfg) = Some P" and "pr_streams P s = Some st"
    and "EvDocument n doc ws \<in> set (st_out st)"
  shows "opened cfg acts s (st_plan st)
    \<and> (\<exists>img res. converted_in (map_page env) version cfg acts s img res \<and> n = im_page_no img \<and> vr_ok res
         \<and> map_page env (sp_format (st_plan st)) (vr_text res) (make_page version cfg (st_plan st) img res) = Inr (doc, ws)
         \<and> has_mapper (sp_format (st_plan st))
         \<and> (if plain_format (sp_format (st_plan st)) then fragment_ok (make_page version cfg (st_plan st) img res) doc
            else page_tree (make_page version cfg (st_plan st) img res) doc))"
proof -
  have "document_made env version cfg acts s (st_plan st) n doc ws"
    using run_sound [OF assms(1,2)] assms(3) unfolding stream_sound_def trace_def
    by (auto simp: event_sound_def dest: bspec [where x = "EvDocument n doc ws"])
  then obtain img res where made: "opened cfg acts s (st_plan st)" "converted_in (map_page env) version cfg acts s img res"
    "n = im_page_no img" "vr_ok res"
    "map_page env (sp_format (st_plan st)) (vr_text res) (make_page version cfg (st_plan st) img res) = Inr (doc, ws)"
    unfolding document_made_def by blast
  from map_page_ok [of "sp_format (st_plan st)" "make_page version cfg (st_plan st) img res" env "vr_text res"] made(5)
  have "if plain_format (sp_format (st_plan st)) then fragment_ok (make_page version cfg (st_plan st) img res) doc
    else page_tree (make_page version cfg (st_plan st) img res) doc" by (simp add: answer_ok_def)
  with made mapped_has_mapper [OF made(5)] show ?thesis by blast
qed

definition tags_result :: vlm_result where
  "tags_result = empty_result\<lparr>vr_ok := True, vr_text := ''<text>hi</text>''\<rparr>"

definition tags_run :: "(nat \<times> action) list" where
  "tags_run = one_page @ map (Pair 0)
     [Worker 0 (Converted (Called tags_result)), Writer PopEvent, Writer (Write True), Writer PopEvent, Writer (Write True)]"

lemma tags_event:
  "\<exists>doc ws. convert_page (map_page env) ''1'' key_config key_plan sample_image tags_result = Some (EvDocument 7 doc ws)"
proof -
  have r: "vr_ok tags_result" "\<not> vr_cancelled tags_result" "vr_text tags_result = ''<text>hi</text>''" "im_page_no sample_image = 7"
    "sp_format key_plan = RESPONSE_FORMAT_DOCTAGS"
    by (simp_all add: tags_result_def empty_result_def sample_image_def key_plan_def)
  obtain doc ws where "map_doctags (on_page env (make_page ''1'' key_config key_plan sample_image tags_result)) ''<text>hi</text>'' = Inr (doc, ws)"
    using one_tag_mapped by blast
  with r show ?thesis by (simp add: convert_page_def map_page_def map_response_def map_grounded_def)
qed

theorem delivered_documents_sound_witness:
  "\<exists>P st doc ws. script (map_page sample_env) ''1'' key_config tags_run (new_process key_config) = Some P \<and> pr_streams P 0 = Some st
     \<and> EvDocument 7 doc ws \<in> set (st_out st) \<and> opened key_config tags_run 0 (st_plan st)
     \<and> (\<exists>img res. converted_in (map_page sample_env) ''1'' key_config tags_run 0 img res \<and> im_page_no img = 7
          \<and> page_tree (make_page ''1'' key_config (st_plan st) img res) doc)"
proof -
  obtain doc ws where e: "convert_page (map_page sample_env) ''1'' key_config key_plan sample_image tags_result = Some (EvDocument 7 doc ws)"
    using tags_event by blast
  have r: "\<not> vr_cancelled tags_result" by (simp add: tags_result_def empty_result_def)
  have "\<exists>P st. script (map_page sample_env) ''1'' key_config tags_run (new_process key_config) = Some P \<and> pr_streams P 0 = Some st
      \<and> EvDocument 7 doc ws \<in> set (st_out st) \<and> st_plan st = key_plan"
    by (simp add: tags_run_def one_page_def pipeline_run e r)
  then obtain P st where P: "script (map_page sample_env) ''1'' key_config tags_run (new_process key_config) = Some P"
    "pr_streams P 0 = Some st" "EvDocument 7 doc ws \<in> set (st_out st)" "st_plan st = key_plan" by blast
  have "\<not> plain_format (sp_format (st_plan st))" by (simp add: P(4) key_plan_def plain_format_def)
  with delivered_documents_sound [OF P(1-3)] P(1-3) show ?thesis by fastforce
qed

end
